(* ===== verification/Prelude.thy ===== *)
theory Prelude
  imports Main "HOL-Library.Word"
begin

text \<open>
  What every component shares: the error values of \<open>src/lib.rs\<close>, the result type with its
  bind, machine-integer and byte names, bytes read as a little-endian bit sequence (bit 0 of
  byte 0 first), and little-endian integers.
\<close>

unbundle bit_operations_syntax

section \<open>Types\<close>

type_synonym u8 = "8 word"
type_synonym u16 = "16 word"
type_synonym u32 = "32 word"
type_synonym u64 = "64 word"
type_synonym i64 = "64 word"
type_synonym bytes = "8 word list"

text \<open>
  The error enum of the LZMS crate and the one of the main crate. \<open>Panic\<close> is not a value of
  the Rust enum: it stands for a Rust panic (an index or subrange out of range, an overflowing
  subtraction), so that code which would abort is a visible branch of the model.
\<close>

datatype lzms_error = LzTruncated | LzMalformed string

datatype error =
    Truncated
  | BadMagic bytes bytes
  | BitstreamExhausted nat nat
  | InvalidVarInt
  | HashTooLarge nat nat
  | Malformed string
  | Unsupported string
  | HashMismatch string string
  | Pa19 string
  | BaseManifest string
  | Lzms lzms_error
  | Panic

type_synonym 'a result = "error + 'a"

section \<open>Results\<close>

text \<open>The question-mark operator: stop at the first error.\<close>

definition rbind :: "'e + 'a \<Rightarrow> ('a \<Rightarrow> 'e + 'b) \<Rightarrow> 'e + 'b" where
  "rbind m f = (case m of Inl e \<Rightarrow> Inl e | Inr x \<Rightarrow> f x)"

lemma rbind_Inl [simp]: "rbind (Inl e) f = Inl e"
  by (simp add: rbind_def)

lemma rbind_Inr [simp]: "rbind (Inr x) f = f x"
  by (simp add: rbind_def)

lemma rbind_eq_Inr: "rbind m f = Inr y \<longleftrightarrow> (\<exists>x. m = Inr x \<and> f x = Inr y)"
  by (auto simp: rbind_def split: sum.splits)

lemma rbind_eq_InrE [elim!]:
  assumes "rbind m f = Inr y"
  obtains x where "m = Inr x" and "f x = Inr y"
  using assms by (auto simp: rbind_eq_Inr)

lemma rbind_cong [fundef_cong]:
  "m = n \<Longrightarrow> (\<And>x. n = Inr x \<Longrightarrow> f x = g x) \<Longrightarrow> rbind m f = rbind n g"
  by (auto simp: rbind_def split: sum.splits)

definition is_ok :: "'e + 'a \<Rightarrow> bool" where
  "is_ok m = (case m of Inl _ \<Rightarrow> False | Inr _ \<Rightarrow> True)"

lemma is_ok_simps [simp]: "is_ok (Inr x)" "\<not> is_ok (Inl e)"
  by (simp_all add: is_ok_def)

lemma is_ok_iff: "is_ok m \<longleftrightarrow> (\<exists>x. m = Inr x)"
  by (cases m) auto

text \<open>Rust indexing \<open>xs[i]\<close> as a value or a panic.\<close>

definition index :: "'a list \<Rightarrow> nat \<Rightarrow> 'a result" where
  "index xs i = (if i < length xs then Inr (xs ! i) else Inl Panic)"

lemma index_ok [simp]: "i < length xs \<Longrightarrow> index xs i = Inr (xs ! i)"
  by (simp add: index_def)

text \<open>Assignment \<open>xs[i] = v\<close>, and the subtraction of two \<open>usize\<close>.\<close>

definition store_at :: "'a list \<Rightarrow> nat \<Rightarrow> 'a \<Rightarrow> 'a list result" where
  "store_at xs i v = (if i < length xs then Inr (xs[i := v]) else Inl Panic)"

lemma store_at_ok [simp]: "i < length xs \<Longrightarrow> store_at xs i v = Inr (xs[i := v])"
  by (simp add: store_at_def)

definition usize_sub :: "nat \<Rightarrow> nat \<Rightarrow> nat result" where
  "usize_sub a b = (if b \<le> a then Inr (a - b) else Inl Panic)"

lemma usize_sub_ok [simp]: "b \<le> a \<Longrightarrow> usize_sub a b = Inr (a - b)"
  by (simp add: usize_sub_def)

text \<open>Rust slicing \<open>xs[a..b]\<close>, in range.\<close>

definition subrange :: "nat \<Rightarrow> nat \<Rightarrow> 'a list \<Rightarrow> 'a list" where
  "subrange a b xs = take (b - a) (drop a xs)"

lemma length_subrange [simp]: "length (subrange a b xs) = min (b - a) (length xs - a)"
  by (simp add: subrange_def min.commute)

text \<open>The same with the panic of a slice out of range.\<close>

definition slice_at :: "nat \<Rightarrow> nat \<Rightarrow> 'a list \<Rightarrow> 'a list result" where
  "slice_at a b xs = (if a \<le> b \<and> b \<le> length xs then Inr (subrange a b xs) else Inl Panic)"

lemma slice_at_ok [simp]: "a \<le> b \<Longrightarrow> b \<le> length xs \<Longrightarrow> slice_at a b xs = Inr (subrange a b xs)"
  by (simp add: slice_at_def)

lemma nth_subrange: "i < b - a \<Longrightarrow> a + i < length xs \<Longrightarrow> subrange a b xs ! i = xs ! (a + i)"
  by (simp add: subrange_def)

text \<open>\<open>u32::checked_add\<close>.\<close>

definition checked_add32 :: "u32 \<Rightarrow> u32 \<Rightarrow> u32 option" where
  "checked_add32 a b = (if unat a + unat b < 2 ^ 32 then Some (a + b) else None)"

text \<open>\<open>data[off..off + len].copy_from_slice\<close> of a run that fits.\<close>

definition write_at :: "nat \<Rightarrow> 'a list \<Rightarrow> 'a list \<Rightarrow> 'a list" where
  "write_at off xs d = take off d @ xs @ drop (off + length xs) d"

lemma length_write_at [simp]: "off + length xs \<le> length d \<Longrightarrow> length (write_at off xs d) = length d"
  by (simp add: write_at_def)

lemma nth_write_at:
  "off + length xs \<le> length d \<Longrightarrow> k < length d \<Longrightarrow>
    write_at off xs d ! k = (if off \<le> k \<and> k < off + length xs then xs ! (k - off) else d ! k)"
  by (auto simp: write_at_def nth_append min_def)

section \<open>Bytes as bits\<close>

text \<open>Bits of a word, lowest first; bits of a byte string in stream order.\<close>

definition word_bits :: "'a::len word \<Rightarrow> nat \<Rightarrow> bool list" where
  "word_bits w n = map (bit w) [0..<n]"

definition byte_bits :: "u8 \<Rightarrow> bool list" where
  "byte_bits b = word_bits b 8"

definition bytes_bits :: "bytes \<Rightarrow> bool list" where
  "bytes_bits bs = concat (map byte_bits bs)"

abbreviation bits_val :: "bool list \<Rightarrow> 'a::len word" where
  "bits_val bs \<equiv> horner_sum of_bool 2 bs"

lemma length_word_bits [simp]: "length (word_bits w n) = n"
  by (simp add: word_bits_def)

lemma length_byte_bits [simp]: "length (byte_bits b) = 8"
  by (simp add: byte_bits_def)

lemma nth_word_bits [simp]: "i < n \<Longrightarrow> word_bits w n ! i = bit w i"
  by (simp add: word_bits_def)

lemma word_bits_0 [simp]: "word_bits w 0 = []"
  by (simp add: word_bits_def)

lemma bytes_bits_simps [simp]:
  "bytes_bits [] = []" "bytes_bits (b # bs) = byte_bits b @ bytes_bits bs"
  by (simp_all add: bytes_bits_def)

lemma bytes_bits_append [simp]: "bytes_bits (xs @ ys) = bytes_bits xs @ bytes_bits ys"
  by (simp add: bytes_bits_def)

lemma length_bytes_bits [simp]: "length (bytes_bits bs) = 8 * length bs"
  by (induction bs) auto

lemma nth_bytes_bits:
  "i < 8 * length bs \<Longrightarrow> bytes_bits bs ! i = bit (bs ! (i div 8)) (i mod 8)"
proof (induction bs arbitrary: i)
  case Nil
  then show ?case by simp
next
  case (Cons b bs)
  show ?case
  proof (cases "i < 8")
    case True
    then show ?thesis by (simp add: nth_append byte_bits_def)
  next
    case False
    then obtain j where j: "i = j + 8" by (metis add.commute le_Suc_ex not_less)
    have "(j + 8) div 8 = Suc (j div 8)" by simp
    with j Cons show ?thesis by (simp add: nth_append)
  qed
qed

lemma drop_bytes_bits: "drop (8 * n) (bytes_bits bs) = bytes_bits (drop n bs)"
proof (induction n arbitrary: bs)
  case (Suc n)
  then show ?case by (cases bs) (simp_all add: algebra_simps)
qed simp

lemma take_bytes_bits: "take (8 * n) (bytes_bits bs) = bytes_bits (take n bs)"
proof (induction n arbitrary: bs)
  case (Suc n)
  then show ?case by (cases bs) (simp_all add: algebra_simps)
qed simp

lemma word_bits_append:
  "m \<le> n \<Longrightarrow> word_bits w n = word_bits w m @ map (bit w) [m..<n]"
  using upt_add_eq_append [of 0 m "n - m"] by (simp add: word_bits_def)

lemma take_word_bits [simp]: "take m (word_bits w n) = word_bits w (min m n)"
  by (simp add: word_bits_def take_map min_def)

lemma drop_word_bits:
  "drop m (word_bits (w::'a::len word) n) = word_bits (drop_bit m w) (n - m)"
  by (rule nth_equalityI) (auto simp: word_bits_def bit_drop_bit_eq)

lemma bits_val_word_bits: "bits_val (word_bits w n) = take_bit n w"
  by (simp add: word_bits_def horner_sum_bit_eq_take_bit)

lemma word_bits_bits_val:
  "length bs \<le> LENGTH('a) \<Longrightarrow> word_bits (bits_val bs :: 'a::len word) (length bs) = bs"
  by (rule nth_equalityI) (auto simp: word_bits_def bit_horner_sum_bit_word_iff)

lemma bits_val_append:
  "(bits_val (xs @ ys) :: 'a::len word) = bits_val xs OR push_bit (length xs) (bits_val ys)"
  by (rule bit_word_eqI)
    (auto simp: bit_or_iff bit_push_bit_iff bit_horner_sum_bit_word_iff nth_append)

lemma bits_val_ucast:
  "length bs \<le> LENGTH('a) \<Longrightarrow> LENGTH('a) \<le> LENGTH('b)
    \<Longrightarrow> ucast (bits_val bs :: 'b::len word) = (bits_val bs :: 'a::len word)"
  by (rule bit_word_eqI) (auto simp: bit_ucast_iff bit_horner_sum_bit_word_iff)

lemma word_bits_eqI:
  assumes "\<And>i. i < n \<Longrightarrow> bit v i = bit w i"
  shows "word_bits v n = word_bits w n"
  using assms by (simp add: word_bits_def)

lemma word_bits_take_bit [simp]:
  "word_bits (take_bit n w) n = word_bits (w::'a::len word) n"
  by (rule word_bits_eqI) (simp add: bit_take_bit_iff)

lemma word_bits_ucast:
  "n \<le> LENGTH('a) \<Longrightarrow> n \<le> LENGTH('b)
    \<Longrightarrow> word_bits (ucast (w :: 'a::len word) :: 'b::len word) n = word_bits w n"
  by (rule word_bits_eqI) (simp add: bit_ucast_iff)

text \<open>\<open>trailing_zeros\<close> and \<open>leading_zeros\<close> of the Rust integer types (the width on 0).\<close>

definition trailing_zeros :: "'a::len word \<Rightarrow> nat" where
  "trailing_zeros w = length (takeWhile Not (word_bits w LENGTH('a)))"

definition leading_zeros :: "'a::len word \<Rightarrow> nat" where
  "leading_zeros w = length (takeWhile Not (rev (word_bits w LENGTH('a))))"

lemma trailing_zeros_le: "trailing_zeros (w :: 'a::len word) \<le> LENGTH('a)"
  using length_takeWhile_le [of Not "word_bits w LENGTH('a)"] by (simp add: trailing_zeros_def)

lemma trailing_zeros_less:
  assumes "i < trailing_zeros (w :: 'a::len word)"
  shows "\<not> bit w i"
proof -
  let ?t = "takeWhile Not (word_bits w LENGTH('a))"
  have i: "i < length ?t" using assms by (simp add: trailing_zeros_def)
  then have "?t ! i \<in> set ?t" by (rule nth_mem)
  then have "\<not> ?t ! i" by (auto dest: set_takeWhileD)
  moreover have "i < LENGTH('a)"
    using assms trailing_zeros_le [of w] by simp
  ultimately show ?thesis using takeWhile_nth [OF i] by simp
qed

lemma bit_trailing_zeros:
  "trailing_zeros (w :: 'a::len word) < LENGTH('a) \<Longrightarrow> bit w (trailing_zeros w)"
  using nth_length_takeWhile [of Not "word_bits w LENGTH('a)"] by (simp add: trailing_zeros_def)

lemma trailing_zeros_eqI:
  assumes "n < LENGTH('a)" and "bit w n" and "\<And>i. i < n \<Longrightarrow> \<not> bit w i"
  shows "trailing_zeros (w :: 'a::len word) = n"
  using assms trailing_zeros_less [of n w] bit_trailing_zeros [of w]
  by (metis linorder_neqE_nat order_less_trans)

lemma leading_zeros_high_bit:
  assumes "w \<noteq> 0"
  defines "h \<equiv> LENGTH('a) - 1 - leading_zeros (w :: 'a::len word)"
  shows "h < LENGTH('a)" "bit w h" "\<And>i. h < i \<Longrightarrow> \<not> bit w i"
proof -
  let ?l = "rev (word_bits w LENGTH('a))"
  let ?z = "leading_zeros w"
  have nth: "?l ! i = bit w (LENGTH('a) - 1 - i)" if "i < LENGTH('a)" for i
    using that by (simp add: rev_nth)
  have z: "?z < LENGTH('a)"
  proof (rule ccontr)
    assume "\<not> ?z < LENGTH('a)"
    then have "length (takeWhile Not ?l) = length ?l"
      using length_takeWhile_le [of Not ?l] by (simp add: leading_zeros_def)
    then have all: "\<forall>x\<in>set ?l. \<not> x"
      by (metis takeWhile_eq_take take_all order_refl set_takeWhileD)
    have "\<not> bit w i" for i
    proof (cases "i < LENGTH('a)")
      case True
      then have "bit w i \<in> set ?l" by (auto simp: word_bits_def)
      with all show ?thesis by blast
    next
      case False
      then show ?thesis using bit_imp_le_length [of w i] by auto
    qed
    then have "w = 0" by (intro bit_word_eqI) simp
    with assms show False by simp
  qed
  then show "h < LENGTH('a)" by (simp add: h_def)
  from z have "?l ! ?z"
    using nth_length_takeWhile [of Not ?l] by (simp add: leading_zeros_def)
  with nth [OF z] show "bit w h" by (simp add: h_def)
  fix i assume i: "h < i"
  show "\<not> bit w i"
  proof (cases "i < LENGTH('a)")
    case True
    define j where "j = LENGTH('a) - 1 - i"
    have j: "j < ?z" "j < LENGTH('a)" "i = LENGTH('a) - 1 - j" using True i z by (auto simp: j_def h_def)
    then have "takeWhile Not ?l ! j \<in> set (takeWhile Not ?l)"
      by (intro nth_mem) (simp add: leading_zeros_def)
    then have "\<not> takeWhile Not ?l ! j" by (auto dest: set_takeWhileD)
    then have "\<not> ?l ! j" using takeWhile_nth [of j Not ?l] j by (simp add: leading_zeros_def)
    with nth [OF j(2)] j(3) show ?thesis by simp
  next
    case False
    then show ?thesis using bit_imp_le_length [of w i] by auto
  qed
qed

section \<open>Little-endian integers\<close>

text \<open>\<open>uN::from_le_bytes\<close> and \<open>to_le_bytes\<close>.\<close>

definition from_le :: "bytes \<Rightarrow> 'a::len word" where
  "from_le bs = word_of_int (horner_sum uint (2 ^ 8) bs)"

definition to_le :: "nat \<Rightarrow> 'a::len word \<Rightarrow> bytes" where
  "to_le k w = map (\<lambda>i. ucast (drop_bit (8 * i) w)) [0..<k]"

lemma length_to_le [simp]: "length (to_le k w) = k"
  by (simp add: to_le_def)

lemma bit_from_le:
  "bit (from_le bs :: 'a::len word) i
    \<longleftrightarrow> i < LENGTH('a) \<and> i < 8 * length bs \<and> bytes_bits bs ! i"
proof -
  have "i div 8 < length bs \<longleftrightarrow> i < 8 * length bs" by (auto simp: less_mult_imp_div_less)
  then show ?thesis
    unfolding from_le_def bit_word_of_int_iff
    using bit_horner_sum_uint_exp_iff [of bs i]
    by (auto simp: nth_bytes_bits)
qed

lemma bytes_bits_to_le: "bytes_bits (to_le k (w::'a::len word)) = word_bits w (8 * k)"
proof (rule nth_equalityI)
  show "length (bytes_bits (to_le k w)) = length (word_bits w (8 * k))" by simp
  fix i assume "i < length (bytes_bits (to_le k w))"
  then have i: "i < 8 * k" by simp
  then have d: "i div 8 < k" by (simp add: less_mult_imp_div_less)
  have "8 * (i div 8) + i mod 8 = i" by simp
  then have "bit w (8 * (i div 8) + i mod 8) = bit w i" by simp
  with i d show "bytes_bits (to_le k w) ! i = word_bits w (8 * k) ! i"
    by (simp add: nth_bytes_bits to_le_def bit_ucast_iff bit_drop_bit_eq)
qed

lemma from_le_to_le [simp]:
  "LENGTH('a) \<le> 8 * k \<Longrightarrow> from_le (to_le k w) = (w :: 'a::len word)"
  by (rule bit_word_eqI) (simp add: bit_from_le bytes_bits_to_le)

lemma sint_of_nat_small:
  assumes "n < 2 ^ (LENGTH('a) - 1)"
  shows "sint (of_nat n :: 'a::len word) = int n"
proof -
  have "int n < 2 ^ (LENGTH('a) - Suc 0)" using assms by simp
  moreover have "- (2 ^ (LENGTH('a) - Suc 0)) \<le> int n"
    by (rule order_trans [of _ 0]) simp_all
  ultimately show ?thesis by (simp add: signed_of_nat signed_take_bit_int_eq_self)
qed

lemma bytes_bits_inj: "bytes_bits xs = bytes_bits ys \<Longrightarrow> xs = ys"
proof (induction xs arbitrary: ys)
  case Nil
  then show ?case by (cases ys) (auto dest: arg_cong [where f = length])
next
  case (Cons x xs)
  then obtain y ys' where ys: "ys = y # ys'"
    by (cases ys) (auto dest: arg_cong [where f = length])
  with Cons.prems have e: "byte_bits x = byte_bits y" and "bytes_bits xs = bytes_bits ys'"
    by (simp_all add: append_eq_append_conv)
  have "x = y"
  proof (rule bit_word_eqI)
    fix n assume "n < LENGTH(8)"
    then show "bit x n = bit y n"
      using arg_cong [OF e, of "\<lambda>l. l ! n"] by (simp add: byte_bits_def)
  qed
  with Cons ys \<open>bytes_bits xs = bytes_bits ys'\<close> show ?case by simp
qed

lemma foldl_part_length:
  "(\<And>p x. length (f (g p x)) = length (f p)) \<Longrightarrow> length (f (foldl g p xs)) = length (f p)"
  by (induction xs arbitrary: p) simp_all

lemma foldl_length: "(\<And>b x. length (f b x) = length b) \<Longrightarrow> length (foldl f b xs) = length b"
  by (induction xs arbitrary: b) simp_all

end
