(* ===== verification/Bitstream.thy ===== *)
theory Bitstream
  imports Prelude
begin

text \<open>
  \<open>src/bitstream/mod.rs\<close>: the LSB-first bit reader and writer under every PA30 structure.
  The state of the reader and of the writer is a record with the fields of the Rust structs;
  \<open>rd_stream\<close> and \<open>wr_stream\<close> abstract a reader to the bits it still has and a writer to
  the bits it was given, and the lemmas state every operation on those streams.
\<close>

section \<open>The reader\<close>

record bit_reader =
  rd_data :: bytes
  rd_pos :: nat
  rd_accum :: u64
  rd_bits :: nat
  rd_padding :: nat

text \<open>The byte-at-a-time branch of \<open>refill\<close>.\<close>

function refill_tail :: "bit_reader \<Rightarrow> bit_reader" where
  "refill_tail r =
     (if rd_bits r \<le> 56 \<and> rd_pos r < length (rd_data r)
      then refill_tail
        (r\<lparr>rd_accum := rd_accum r OR push_bit (rd_bits r) (ucast (rd_data r ! rd_pos r)),
           rd_pos := rd_pos r + 1,
           rd_bits := rd_bits r + 8\<rparr>)
      else r)"
  by pat_completeness auto
termination
  by (relation "measure (\<lambda>r. length (rd_data r) - rd_pos r)") auto

declare refill_tail.simps [simp del]

definition refill :: "bit_reader \<Rightarrow> bit_reader" where
  "refill r0 =
     (let r = (if rd_bits r0 = 0 then r0\<lparr>rd_accum := 0\<rparr> else r0)
      in if rd_pos r + 8 \<le> length (rd_data r) then
           let word = from_le (subrange (rd_pos r) (rd_pos r + 8) (rd_data r));
               shift = rd_bits r;
               loaded = 64 - shift;
               byte_advance = loaded div 8
           in r\<lparr>rd_accum := rd_accum r OR push_bit shift word,
                rd_pos := rd_pos r + byte_advance,
                rd_bits := rd_bits r + byte_advance * 8\<rparr>
         else refill_tail r)"

definition remaining :: "bit_reader \<Rightarrow> nat" where
  "remaining r =
     (let unloaded = (length (rd_data r) - rd_pos r) mod 2 ^ 32 * 8
      in (rd_bits r + unloaded) mod 2 ^ 32 - rd_padding r)"

definition buffered :: "bit_reader \<Rightarrow> nat" where
  "buffered r = rd_bits r"

text \<open>\<open>mask n\<close> is \<open>(1 << n) - 1\<close>.\<close>

definition peek :: "bit_reader \<Rightarrow> nat \<Rightarrow> u64" where
  "peek r n = (if n = 0 then 0 else rd_accum r AND mask n)"

definition consume_unchecked :: "bit_reader \<Rightarrow> nat \<Rightarrow> bit_reader" where
  "consume_unchecked r n = r\<lparr>rd_accum := drop_bit n (rd_accum r), rd_bits := rd_bits r - n\<rparr>"

definition ensure_bits :: "bit_reader \<Rightarrow> nat \<Rightarrow> bit_reader result" where
  "ensure_bits r n =
     (if rd_bits r < n then
        let r' = refill r
        in if rd_bits r' < n then Inl (BitstreamExhausted n (rd_bits r')) else Inr r'
      else Inr r)"

definition consume_bits :: "bit_reader \<Rightarrow> nat \<Rightarrow> bit_reader result" where
  "consume_bits r n = rbind (ensure_bits r n) (\<lambda>r. Inr (consume_unchecked r n))"

definition reader_new :: "bytes \<Rightarrow> bit_reader result" where
  "reader_new data =
     (if data = [] then Inl Truncated
      else
        let padding = unat (hd data AND 7);
            total_bits = length data * 8
        in if total_bits < 3 + padding then Inl Truncated
           else Inr (consume_unchecked
             (refill \<lparr>rd_data = data, rd_pos = 0, rd_accum = 0, rd_bits = 0,
                      rd_padding = padding\<rparr>) 3))"

definition read_bits :: "bit_reader \<Rightarrow> nat \<Rightarrow> (u64 \<times> bit_reader) result" where
  "read_bits r n =
     (if n = 0 then Inr (0, r)
      else if n \<le> 56 then
        rbind (ensure_bits r n) (\<lambda>r.
          Inr (rd_accum r AND mask n, consume_unchecked r n))
      else
        rbind (ensure_bits r 32) (\<lambda>r.
          let low = rd_accum r AND 0xFFFFFFFF;
              r = consume_unchecked r 32;
              high_bits = n - 32
          in rbind (ensure_bits r high_bits) (\<lambda>r.
               let high = rd_accum r AND mask high_bits
               in Inr (low OR push_bit 32 high, consume_unchecked r high_bits))))"

definition read_i64_wide :: "bit_reader \<Rightarrow> nat \<Rightarrow> (i64 \<times> bit_reader) result" where
  "read_i64_wide r nibbles =
     (let prefix_len = nibbles + 1
      in rbind (ensure_bits r prefix_len) (\<lambda>r.
           let r = consume_unchecked r prefix_len;
               value_bits = (nibbles + 1) * 4
           in if value_bits \<le> 32 then read_bits r value_bits
              else rbind (read_bits r 32) (\<lambda>(low, r).
                     rbind (read_bits r (value_bits - 32)) (\<lambda>(high, r).
                       Inr (push_bit 32 high OR low, r)))))"

definition read_i64 :: "bit_reader \<Rightarrow> (i64 \<times> bit_reader) result" where
  "read_i64 r =
     (let want = min 17 (remaining r)
      in rbind (ensure_bits r want) (\<lambda>r.
           let sentinel = rd_accum r OR 0x10000;
               nibbles = trailing_zeros sentinel
           in if nibbles = 16 then Inl InvalidVarInt
              else
                let prefix_len = nibbles + 1;
                    value_bits = (nibbles + 1) * 4;
                    total = prefix_len + value_bits
                in if total > 56 then read_i64_wide r nibbles
                   else rbind (ensure_bits r total) (\<lambda>r.
                     let r = consume_unchecked r prefix_len;
                         m = (if value_bits = 64 then - 1 else mask value_bits);
                         val = rd_accum r AND m
                     in Inr (val, consume_unchecked r value_bits))))"

definition read_u32_number :: "bit_reader \<Rightarrow> (u32 \<times> bit_reader) result" where
  "read_u32_number r =
     (let want = min 32 (remaining r)
      in rbind (ensure_bits r want) (\<lambda>r.
           if rd_accum r AND 0xFFFFFFFF = 0 then Inl InvalidVarInt
           else
             let nibbles = trailing_zeros (ucast (rd_accum r) :: u32)
             in if nibbles > 23 then Inl InvalidVarInt
                else
                  let prefix_len = nibbles + 1;
                      value_bits = nibbles + 8
                  in rbind (ensure_bits r (prefix_len + value_bits)) (\<lambda>r.
                       let r = consume_unchecked r prefix_len;
                           raw = ucast (rd_accum r AND mask value_bits) :: u32;
                           r = consume_unchecked r value_bits
                       in Inr (push_bit value_bits 1 OR raw, r))))"

definition reader_align_to_byte :: "bit_reader \<Rightarrow> bit_reader" where
  "reader_align_to_byte r =
     (let discard = rd_bits r mod 8
      in if discard > 0 then consume_unchecked r discard else r)"

text \<open>The loop of \<open>read_buffer\<close> that empties the accumulator byte by byte.\<close>

fun drain_accum :: "nat \<Rightarrow> bit_reader \<Rightarrow> bytes \<times> nat \<times> bit_reader" where
  "drain_accum 0 r = ([], 0, r)"
| "drain_accum (Suc n) r =
     (if rd_bits r \<ge> 8 then
        (case drain_accum n (consume_unchecked r 8) of
           (buf, rem, r') \<Rightarrow> (ucast (rd_accum r AND 0xFF) # buf, rem, r'))
      else ([], Suc n, r))"

definition read_buffer :: "bit_reader \<Rightarrow> (bytes \<times> bit_reader) result" where
  "read_buffer r =
     rbind (read_i64 r) (\<lambda>(sz, r).
       if sint sz < 0 then Inl (Malformed ''negative buffer size'')
       else
         let size = unat sz;
             available = remaining r div 8 + rd_bits r div 8
         in if size > available + 8
            then Inl (Malformed ''buffer size exceeds available data'')
            else
              let r = reader_align_to_byte r
              in if size = 0 then Inr ([], r)
                 else
                   case drain_accum size r of (buf, rem, r) \<Rightarrow>
                     let available = length (rd_data r) - rd_pos r;
                         bulk = min rem available;
                         buf = buf @ subrange (rd_pos r) (rd_pos r + bulk) (rd_data r);
                         r = r\<lparr>rd_pos := rd_pos r + bulk\<rparr>;
                         rem = rem - bulk
                     in if rem > 0
                        then Inl (BitstreamExhausted ((rem * 8) mod 2 ^ 32) 0)
                        else Inr (buf, r))"

section \<open>The reader as a bit stream\<close>

definition unread :: "bit_reader \<Rightarrow> bool list" where
  "unread r = bytes_bits (drop (rd_pos r) (rd_data r))"

definition rd_stream :: "bit_reader \<Rightarrow> bool list" where
  "rd_stream r = word_bits (rd_accum r) (rd_bits r) @ unread r"

text \<open>
  The bits of the accumulator above the valid ones are not always clear: the eight-byte load
  leaves the first bits of the next byte there. They agree with the data that follows, so a
  later load may or them in again.
\<close>

definition accum_ok :: "bit_reader \<Rightarrow> bool" where
  "accum_ok r \<longleftrightarrow> (\<forall>i<64. rd_bits r \<le> i \<longrightarrow> bit (rd_accum r) i \<longrightarrow>
     i - rd_bits r < length (unread r) \<and> unread r ! (i - rd_bits r))"

definition reader_ok :: "bit_reader \<Rightarrow> bool" where
  "reader_ok r \<longleftrightarrow> rd_pos r \<le> length (rd_data r) \<and> rd_bits r \<le> 64 \<and> rd_bits r \<le> 8 * rd_pos r
     \<and> rd_padding r \<le> 7 \<and> length (rd_data r) < 2 ^ 29
     \<and> (rd_bits r = 0 \<or> accum_ok r)"

lemma length_unread: "length (unread r) = 8 * (length (rd_data r) - rd_pos r)"
  by (simp add: unread_def)

lemma length_rd_stream:
  "length (rd_stream r) = rd_bits r + 8 * (length (rd_data r) - rd_pos r)"
  by (simp add: rd_stream_def length_unread)

lemma remaining_eq:
  assumes "reader_ok r"
  shows "remaining r = length (rd_stream r) - rd_padding r"
proof -
  from assms have "rd_bits r + (length (rd_data r) - rd_pos r) * 8 < 2 ^ 32"
    and "length (rd_data r) - rd_pos r < 2 ^ 32"
    by (auto simp: reader_ok_def)
  then show ?thesis by (simp add: remaining_def length_rd_stream mult.commute)
qed

text \<open>One load of \<open>adv\<close> bytes, of whichever branch.\<close>

lemma load_bytes:
  assumes ok: "reader_ok r" "accum_ok r"
    and adv: "rd_pos r + adv \<le> length (rd_data r)" "rd_bits r + 8 * adv \<le> 64"
    and m: "8 * adv \<le> m" "m \<le> length (unread r)"
    and W: "\<And>i. i < 64 \<Longrightarrow> bit W i \<longleftrightarrow> bit (rd_accum r) i \<or>
      (rd_bits r \<le> i \<and> i - rd_bits r < m \<and> unread r ! (i - rd_bits r))"
    and r': "r' = r\<lparr>rd_accum := W, rd_pos := rd_pos r + adv, rd_bits := rd_bits r + 8 * adv\<rparr>"
  shows "reader_ok r' \<and> accum_ok r' \<and> rd_stream r' = rd_stream r"
proof -
  have un: "unread r = bytes_bits (take adv (drop (rd_pos r) (rd_data r))) @ unread r'"
    by (simp add: r' unread_def add.commute flip: drop_drop bytes_bits_append)
  have len: "length (bytes_bits (take adv (drop (rd_pos r) (rd_data r)))) = 8 * adv"
    using adv by simp
  have bitW: "bit W i \<longleftrightarrow> i - rd_bits r < length (unread r) \<and> unread r ! (i - rd_bits r)"
    if "rd_bits r \<le> i" "i < rd_bits r + 8 * adv" "i < 64" for i
    using that W [of i] ok(2) m adv by (auto simp: accum_ok_def)
  have "word_bits W (rd_bits r + 8 * adv)
      = word_bits (rd_accum r) (rd_bits r) @ bytes_bits (take adv (drop (rd_pos r) (rd_data r)))"
  proof (rule nth_equalityI)
    show "length (word_bits W (rd_bits r + 8 * adv)) = length (word_bits (rd_accum r) (rd_bits r)
        @ bytes_bits (take adv (drop (rd_pos r) (rd_data r))))"
      using len by simp
    fix i assume "i < length (word_bits W (rd_bits r + 8 * adv))"
    then have i: "i < rd_bits r + 8 * adv" by simp
    have l: "8 * adv \<le> length (unread r)" using m by simp
    show "word_bits W (rd_bits r + 8 * adv) ! i = (word_bits (rd_accum r) (rd_bits r)
        @ bytes_bits (take adv (drop (rd_pos r) (rd_data r)))) ! i"
    proof (cases "i < rd_bits r")
      case True
      with i adv W [of i] show ?thesis by (simp add: nth_append)
    next
      case False
      with i have j: "i - rd_bits r < 8 * adv" by arith
      with False have "unread r ! (i - rd_bits r)
          = bytes_bits (take adv (drop (rd_pos r) (rd_data r))) ! (i - rd_bits r)"
        using i len by (subst un) (simp add: nth_append)
      with False i j adv l bitW [of i] show ?thesis by (simp add: nth_append)
    qed
  qed
  then have stream: "rd_stream r' = rd_stream r"
    by (simp add: rd_stream_def un) (simp add: r')
  have acc: "accum_ok r'"
    unfolding accum_ok_def
  proof (intro allI impI)
    fix i assume i: "i < 64" "rd_bits r' \<le> i" "bit (rd_accum r') i"
    then have "bit W i" "rd_bits r + 8 * adv \<le> i" by (simp_all add: r')
    with i(1) W [of i] ok(2) m
    have "i - rd_bits r < length (unread r) \<and> unread r ! (i - rd_bits r)"
      by (auto simp: accum_ok_def)
    moreover have "i - rd_bits r = 8 * adv + (i - rd_bits r')"
      using \<open>rd_bits r + 8 * adv \<le> i\<close> by (simp add: r')
    ultimately show "i - rd_bits r' < length (unread r') \<and> unread r' ! (i - rd_bits r')"
      using len by (simp add: un nth_append)
  qed
  moreover have "reader_ok r'"
    using ok adv acc by (simp add: reader_ok_def r')
  ultimately show ?thesis using stream by simp
qed

lemma refill_tail_spec:
  assumes "reader_ok r" "accum_ok r"
  shows "reader_ok (refill_tail r) \<and> rd_stream (refill_tail r) = rd_stream r
    \<and> rd_data (refill_tail r) = rd_data r \<and> rd_padding (refill_tail r) = rd_padding r
    \<and> rd_bits r \<le> rd_bits (refill_tail r)
    \<and> min 57 (length (rd_stream r)) \<le> rd_bits (refill_tail r)"
  using assms
proof (induction r rule: refill_tail.induct)
  case (1 r)
  show ?case
  proof (cases "rd_bits r \<le> 56 \<and> rd_pos r < length (rd_data r)")
    case True
    define q where "q = r\<lparr>rd_accum := rd_accum r OR push_bit (rd_bits r) (ucast (rd_data r ! rd_pos r)),
      rd_pos := rd_pos r + 1, rd_bits := rd_bits r + 8\<rparr>"
    have bitW: "bit (rd_accum r OR push_bit (rd_bits r) (ucast (rd_data r ! rd_pos r))) i
        \<longleftrightarrow> bit (rd_accum r) i \<or>
          (rd_bits r \<le> i \<and> i - rd_bits r < 8 \<and> unread r ! (i - rd_bits r))" if "i < 64" for i
    proof -
      have "unread r ! j = bit (rd_data r ! rd_pos r) j" if "j < 8" for j
        using True that
        by (simp add: unread_def nth_append byte_bits_def flip: Cons_nth_drop_Suc)
      moreover have "\<not> bit (rd_data r ! rd_pos r) j" if "\<not> j < 8" for j
        using that bit_imp_le_length [of "rd_data r ! rd_pos r" j] by auto
      ultimately show ?thesis
        using that by (auto simp: bit_or_iff bit_push_bit_iff bit_ucast_iff)
    qed
    have step: "reader_ok q \<and> accum_ok q \<and> rd_stream q = rd_stream r"
      by (rule load_bytes [where adv = 1 and m = 8, OF "1.prems"])
        (use True bitW in \<open>auto simp: length_unread q_def\<close>)
    have "refill_tail r = refill_tail q"
      unfolding q_def by (subst refill_tail.simps) (simp only: True if_True simp_thms)
    moreover have "rd_data q = rd_data r" "rd_padding q = rd_padding r" "rd_bits q = rd_bits r + 8"
      by (simp_all add: q_def)
    ultimately show ?thesis
      using step "1.IH" [OF True, folded q_def] by simp
  next
    case False
    moreover have "min 57 (length (rd_stream r)) \<le> rd_bits r"
      using False by (auto simp: length_rd_stream)
    moreover have "refill_tail r = r"
      using False by (subst refill_tail.simps) (simp only: if_False)
    ultimately show ?thesis
      using "1.prems" by simp
  qed
qed

lemma refill_spec:
  assumes ok: "reader_ok r" and lt: "rd_bits r < 64"
  shows "reader_ok (refill r) \<and> rd_stream (refill r) = rd_stream r
    \<and> rd_data (refill r) = rd_data r \<and> rd_padding (refill r) = rd_padding r
    \<and> rd_bits r \<le> rd_bits (refill r)
    \<and> min 57 (length (rd_stream r)) \<le> rd_bits (refill r)"
proof -
  define r1 where "r1 = (if rd_bits r = 0 then r\<lparr>rd_accum := 0\<rparr> else r)"
  have r1: "reader_ok r1" "accum_ok r1" "rd_stream r1 = rd_stream r" "rd_bits r1 = rd_bits r"
    "rd_data r1 = rd_data r" "rd_pos r1 = rd_pos r" "rd_padding r1 = rd_padding r"
    using ok by (auto simp: r1_def reader_ok_def accum_ok_def rd_stream_def unread_def)
  show ?thesis
  proof (cases "rd_pos r + 8 \<le> length (rd_data r)")
    case False
    have "refill r = refill_tail r1" using False by (simp add: refill_def r1_def)
    with refill_tail_spec [OF r1(1,2)] r1 show ?thesis by simp
  next
    case True
    define adv where "adv = (64 - rd_bits r) div 8"
    define W :: u64 where "W = rd_accum r1 OR push_bit (rd_bits r1)
      (from_le (subrange (rd_pos r1) (rd_pos r1 + 8) (rd_data r1)))"
    let ?r' = "r1\<lparr>rd_accum := W, rd_pos := rd_pos r1 + adv, rd_bits := rd_bits r1 + 8 * adv\<rparr>"
    have eq: "refill r = ?r'"
      using True by (simp add: refill_def r1_def W_def adv_def Let_def mult.commute)
    have adv: "8 * adv \<le> 64 - rd_bits r" "64 - rd_bits r < 8 * adv + 8"
      by (simp_all add: adv_def)
    have bw: "bit (from_le (subrange (rd_pos r) (rd_pos r + 8) (rd_data r)) :: u64) j
        \<longleftrightarrow> j < 64 \<and> unread r1 ! j" for j
    proof (cases "j < 64")
      case j: True
      have "bytes_bits (subrange (rd_pos r) (rd_pos r + 8) (rd_data r))
          = take (8 * 8) (bytes_bits (drop (rd_pos r) (rd_data r)))"
        by (simp only: take_bytes_bits) (simp add: subrange_def)
      with j True show ?thesis by (simp add: bit_from_le unread_def r1)
    qed (simp add: bit_from_le)
    have "reader_ok ?r' \<and> accum_ok ?r' \<and> rd_stream ?r' = rd_stream r1"
    proof (rule load_bytes [where m = 64, OF r1(1,2)])
      show "rd_pos r1 + adv \<le> length (rd_data r1)" "rd_bits r1 + 8 * adv \<le> 64" "8 * adv \<le> 64"
        "64 \<le> length (unread r1)"
        using True adv lt by (auto simp: r1 length_unread)
      show "bit W i \<longleftrightarrow> bit (rd_accum r1) i \<or>
        (rd_bits r1 \<le> i \<and> i - rd_bits r1 < 64 \<and> unread r1 ! (i - rd_bits r1))" if "i < 64" for i
        using that by (auto simp: W_def r1 bw bit_or_iff bit_push_bit_iff)
    qed simp
    moreover have "57 \<le> rd_bits r + 8 * adv" using adv by arith
    ultimately show ?thesis using r1 by (simp add: eq)
  qed
qed

lemma reader_ok_consume:
  assumes "reader_ok r" "n \<le> rd_bits r"
  shows "reader_ok (consume_unchecked r n)"
proof -
  have "accum_ok (consume_unchecked r n)" if acc: "accum_ok r"
    unfolding accum_ok_def
  proof (intro allI impI)
    let ?c = "consume_unchecked r n"
    fix i assume i: "i < 64" "rd_bits ?c \<le> i" "bit (rd_accum ?c) i"
    then have b: "bit (rd_accum r) (n + i)"
      by (simp add: consume_unchecked_def bit_drop_bit_eq)
    then have "n + i < 64" using bit_imp_le_length by fastforce
    moreover have "rd_bits r \<le> n + i" "n + i - rd_bits r = i - rd_bits ?c"
      using i(2) assms(2) by (simp_all add: consume_unchecked_def)
    moreover have "unread ?c = unread r" by (simp add: consume_unchecked_def unread_def)
    ultimately show "i - rd_bits ?c < length (unread ?c) \<and> unread ?c ! (i - rd_bits ?c)"
      using acc b by (auto simp: accum_ok_def)
  qed
  with assms show ?thesis
    by (auto simp: reader_ok_def consume_unchecked_def)
qed

lemma rd_stream_consume:
  assumes "n \<le> rd_bits r"
  shows "rd_stream (consume_unchecked r n) = drop n (rd_stream r)"
  using assms
  by (simp add: rd_stream_def consume_unchecked_def unread_def drop_word_bits)


text \<open>
  \<open>delivers m x rest p\<close>: the read \<open>m\<close> returns \<open>x\<close> and leaves a good reader whose stream is
  \<open>rest\<close>. Reads compose by \<open>delivers_bind\<close>.
\<close>

definition delivers :: "('a \<times> bit_reader) result \<Rightarrow> 'a \<Rightarrow> bool list \<Rightarrow> nat \<Rightarrow> bool" where
  "delivers m x rest p \<longleftrightarrow>
     (\<exists>r. m = Inr (x, r) \<and> reader_ok r \<and> rd_stream r = rest \<and> rd_padding r = p)"

lemma deliversI:
  "reader_ok r \<Longrightarrow> rd_stream r = rest \<Longrightarrow> rd_padding r = p \<Longrightarrow> delivers (Inr (x, r)) x rest p"
  by (auto simp: delivers_def)

lemma delivers_bind:
  assumes "delivers m x rest p"
    and "\<And>r. reader_ok r \<Longrightarrow> rd_stream r = rest \<Longrightarrow> rd_padding r = p \<Longrightarrow>
      delivers (f (x, r)) y rest' p'"
  shows "delivers (rbind m f) y rest' p'"
  using assms by (auto simp: delivers_def)

lemma accum_take:
  "n \<le> rd_bits r \<Longrightarrow> rd_accum r AND mask n = bits_val (take n (rd_stream r))"
  by (simp add: rd_stream_def bits_val_word_bits take_bit_eq_mask)

lemma bit_accum:
  "i < rd_bits r \<Longrightarrow> bit (rd_accum r) i = rd_stream r ! i"
  by (simp add: rd_stream_def nth_append)

lemma ensure_bits_ok:
  assumes "reader_ok r" "n \<le> 57" "n \<le> length (rd_stream r)"
  obtains r' where "ensure_bits r n = Inr r'" "reader_ok r'" "rd_stream r' = rd_stream r"
    "rd_padding r' = rd_padding r" "n \<le> rd_bits r'"
proof (cases "rd_bits r < n")
  case True
  then have "rd_bits r < 64" using assms by simp
  from refill_spec [OF assms(1) this] assms True show ?thesis
    by (intro that [of "refill r"]) (auto simp: ensure_bits_def Let_def)
next
  case False
  with assms show ?thesis by (intro that [of r]) (auto simp: ensure_bits_def)
qed

lemma ensure_bits_exhausted:
  assumes "reader_ok r" "n \<le> 57" "length (rd_stream r) < n"
  shows "ensure_bits r n = Inl (BitstreamExhausted n (length (rd_stream r)))"
proof -
  have "rd_bits r < n" using assms(3) by (simp add: length_rd_stream)
  moreover from this have lt: "rd_bits r < 64" using assms by simp
  moreover have "rd_bits (refill r) = length (rd_stream r)"
  proof (rule antisym)
    show "rd_bits (refill r) \<le> length (rd_stream r)"
      using refill_spec [OF assms(1) lt] by (metis length_rd_stream le_add1)
    show "length (rd_stream r) \<le> rd_bits (refill r)"
      using refill_spec [OF assms(1) lt] assms by simp
  qed
  ultimately show ?thesis using assms by (simp add: ensure_bits_def)
qed

lemma reader_ok_init:
  assumes "length data < 2 ^ 29" "p \<le> 7"
  shows "reader_ok \<lparr>rd_data = data, rd_pos = 0, rd_accum = 0, rd_bits = 0, rd_padding = p\<rparr>"
  using assms by (simp add: reader_ok_def)

lemma unat_and_7: "unat ((b::u8) AND 7) \<le> 7"
proof -
  have "b AND 7 \<le> 7" by (rule word_and_le1)
  then have "unat (b AND 7) \<le> unat (7::u8)" by (simp only: word_le_nat_alt)
  then show ?thesis by simp
qed

lemma reader_new_ok:
  assumes "data \<noteq> []" "length data < 2 ^ 29" "3 + unat (hd data AND 7) \<le> length data * 8"
  obtains r where "reader_new data = Inr r" "reader_ok r"
    "rd_stream r = drop 3 (bytes_bits data)" "rd_padding r = unat (hd data AND 7)"
    "rd_data r = data"
proof -
  let ?r = "\<lparr>rd_data = data, rd_pos = 0, rd_accum = 0, rd_bits = 0,
    rd_padding = unat (hd data AND 7)\<rparr>"
  have ok: "reader_ok ?r" using assms unat_and_7 by (intro reader_ok_init)
  have st: "rd_stream ?r = bytes_bits data" by (simp add: rd_stream_def unread_def)
  have "3 \<le> length (rd_stream ?r)" unfolding st using assms(1) by (cases data) simp_all
  with refill_spec [OF ok] have R: "reader_ok (refill ?r)" "rd_stream (refill ?r) = bytes_bits data"
    "rd_padding (refill ?r) = unat (hd data AND 7)" "rd_data (refill ?r) = data"
    "3 \<le> rd_bits (refill ?r)"
    by (auto simp: st)
  show ?thesis
  proof (rule that)
    show "reader_new data = Inr (consume_unchecked (refill ?r) 3)"
      using assms by (simp add: reader_new_def Let_def not_less)
    show "reader_ok (consume_unchecked (refill ?r) 3)"
      using R by (intro reader_ok_consume)
    show "rd_stream (consume_unchecked (refill ?r) 3) = drop 3 (bytes_bits data)"
      using R by (simp add: rd_stream_consume)
    show "rd_padding (consume_unchecked (refill ?r) 3) = unat (hd data AND 7)"
      "rd_data (consume_unchecked (refill ?r) 3) = data"
      using R by (simp_all add: consume_unchecked_def)
  qed
qed

lemma rd_padding_consume [simp]: "rd_padding (consume_unchecked r n) = rd_padding r"
  by (simp add: consume_unchecked_def)

lemma rd_bits_consume [simp]: "rd_bits (consume_unchecked r n) = rd_bits r - n"
  by (simp add: consume_unchecked_def)

text \<open>\<open>read_bits\<close> takes the first bits of the stream, and fails only when they are not there.\<close>

lemma read_bits_narrow:
  assumes "reader_ok r" "n \<le> 56" "n \<le> length (rd_stream r)"
  shows "delivers (read_bits r n) (bits_val (take n (rd_stream r))) (drop n (rd_stream r))
    (rd_padding r)"
proof (cases "n = 0")
  case True
  with assms show ?thesis by (auto simp: read_bits_def intro: deliversI)
next
  case False
  from assms obtain r' where "ensure_bits r n = Inr r'" "reader_ok r'"
    "rd_stream r' = rd_stream r" "rd_padding r' = rd_padding r" "n \<le> rd_bits r'"
    by (auto intro: ensure_bits_ok [of r n])
  with False assms show ?thesis
    by (auto simp: read_bits_def accum_take reader_ok_consume rd_stream_consume intro!: deliversI)
qed

lemma read_bits_wide:
  assumes "reader_ok r" "56 < n" "n \<le> 64" "n \<le> length (rd_stream r)"
  shows "delivers (read_bits r n) (bits_val (take n (rd_stream r))) (drop n (rd_stream r))
    (rd_padding r)"
proof -
  let ?s = "rd_stream r"
  from assms obtain r1 where r1: "ensure_bits r 32 = Inr r1" "reader_ok r1"
    "rd_stream r1 = ?s" "rd_padding r1 = rd_padding r" "32 \<le> rd_bits r1"
    by (auto intro: ensure_bits_ok [of r 32])
  define r2 where "r2 = consume_unchecked r1 32"
  have r2: "reader_ok r2" "rd_stream r2 = drop 32 ?s" "rd_padding r2 = rd_padding r"
    using r1 by (auto simp: r2_def reader_ok_consume rd_stream_consume)
  have "n - 32 \<le> 57" "n - 32 \<le> length (rd_stream r2)" using assms by (simp_all add: r2)
  from ensure_bits_ok [OF r2(1) this] obtain r3 where
    r3: "ensure_bits r2 (n - 32) = Inr r3" "reader_ok r3"
    "rd_stream r3 = drop 32 ?s" "rd_padding r3 = rd_padding r" "n - 32 \<le> rd_bits r3"
    using r2 by metis
  have "rd_accum r1 AND 0xFFFFFFFF = bits_val (take 32 ?s)"
    using accum_take [of 32 r1] r1 by (simp add: mask_eq_exp_minus_1)
  moreover have "rd_accum r3 AND mask (n - 32) = bits_val (take (n - 32) (drop 32 ?s))"
    using accum_take [of "n - 32" r3] r3 by simp
  ultimately have "read_bits r n = Inr (bits_val (take 32 ?s @ take (n - 32) (drop 32 ?s)),
      consume_unchecked r3 (n - 32))"
    using assms r1(1) r3(1)
    by (simp add: read_bits_def bits_val_append min_def Let_def del: push_bit_and flip: r2_def)
  also have "take 32 ?s @ take (n - 32) (drop 32 ?s) = take n ?s"
    using assms by (simp flip: take_add)
  finally show ?thesis
    using r3 assms by (auto simp: reader_ok_consume rd_stream_consume intro!: deliversI)
qed

lemma read_bits_delivers:
  assumes "reader_ok r" "n \<le> 64" "n \<le> length (rd_stream r)"
  shows "delivers (read_bits r n) (bits_val (take n (rd_stream r))) (drop n (rd_stream r))
    (rd_padding r)"
  using assms read_bits_narrow read_bits_wide by (cases "n \<le> 56") auto

lemma read_bits_exhausted:
  assumes "reader_ok r" "n \<le> 56" "length (rd_stream r) < n"
  shows "read_bits r n = Inl (BitstreamExhausted n (length (rd_stream r)))"
  using assms by (simp add: read_bits_def ensure_bits_exhausted)

lemma read_bits_exhausted_wide:
  assumes "reader_ok r" "56 < n" "n \<le> 64" "length (rd_stream r) < n"
  shows "read_bits r n = Inl (if length (rd_stream r) < 32 then BitstreamExhausted 32 (length (rd_stream r))
    else BitstreamExhausted (n - 32) (length (rd_stream r) - 32))"
proof (cases "length (rd_stream r) < 32")
  case True
  then show ?thesis using assms by (simp add: read_bits_def ensure_bits_exhausted)
next
  case False
  then obtain r1 where r1: "ensure_bits r 32 = Inr r1" "reader_ok r1" "rd_stream r1 = rd_stream r" "32 \<le> rd_bits r1"
    using assms(1) by (auto intro: ensure_bits_ok [of r 32])
  then have "reader_ok (consume_unchecked r1 32)" "rd_stream (consume_unchecked r1 32) = drop 32 (rd_stream r)"
    by (simp_all add: reader_ok_consume rd_stream_consume)
  then have "ensure_bits (consume_unchecked r1 32) (n - 32) = Inl (BitstreamExhausted (n - 32) (length (rd_stream r) - 32))"
    using ensure_bits_exhausted [of "consume_unchecked r1 32" "n - 32"] assms False
    by (simp add: diff_less_mono)
  with False r1(1) assms(2) show ?thesis by (simp add: read_bits_def Let_def)
qed

text \<open>
  The variable-length integers: a unary count \<open>k\<close> (\<open>k\<close> zeros and a one) and then
  \<open>4 * (k + 1)\<close> value bits for \<open>read_i64\<close>, \<open>k + 8\<close> value bits for \<open>read_u32_number\<close>.
\<close>

lemma nth_unary:
  "i < k \<Longrightarrow> (replicate k False @ True # xs) ! i = False"
  "(replicate k False @ True # xs) ! k = True"
  by (simp_all add: nth_append)

lemma read_i64_delivers:
  assumes ok: "reader_ok r"
    and s: "rd_stream r = replicate k False @ True # ps @ rest"
    and k: "k \<le> 15" and ps: "length ps = 4 * (k + 1)"
    and pad: "rd_padding r \<le> length rest"
  shows "delivers (read_i64 r) (bits_val ps) rest (rd_padding r)"
proof -
  define want where "want = min 17 (remaining r)"
  have len: "length (rd_stream r) = 5 * (k + 1) + length rest" by (simp add: s ps)
  have want: "want \<le> 57" "want \<le> length (rd_stream r)" "k < want"
    using remaining_eq [OF ok] len k pad by (auto simp: want_def)
  from ensure_bits_ok [OF ok want(1,2)] obtain r1 where
    r1: "ensure_bits r want = Inr r1" "reader_ok r1" "rd_stream r1 = rd_stream r"
    "rd_padding r1 = rd_padding r" "want \<le> rd_bits r1" by metis
  have acc: "bit (rd_accum r1) i = (rd_stream r ! i)" if "i \<le> k" for i
    using bit_accum [of i r1] r1 that want by simp
  have "bit (0x10000 :: u64) i \<longleftrightarrow> i = 16" if "i < 64" for i
    using bit_exp_iff [where 'a = u64, of 16 i] that by simp
  then have tz: "trailing_zeros (rd_accum r1 OR 0x10000) = k"
    using acc k by (intro trailing_zeros_eqI) (auto simp: bit_or_iff s nth_unary)
  show ?thesis
  proof (cases "5 * (k + 1) > 56")
    case True
    have "k + 1 \<le> 57" "k + 1 \<le> length (rd_stream r1)" using k len r1 by simp_all
    from ensure_bits_ok [OF r1(2) this] obtain r2 where
      r2: "ensure_bits r1 (k + 1) = Inr r2" "reader_ok r2" "rd_stream r2 = rd_stream r"
      "rd_padding r2 = rd_padding r" "k + 1 \<le> rd_bits r2" using r1 by metis
    define r3 where "r3 = consume_unchecked r2 (k + 1)"
    have r3: "reader_ok r3" "rd_stream r3 = ps @ rest" "rd_padding r3 = rd_padding r"
      using r2 by (auto simp: r3_def reader_ok_consume rd_stream_consume s)
    have l: "k = 11 \<or> k = 12 \<or> k = 13 \<or> k = 14 \<or> k = 15" using True k by arith
    have "delivers (rbind (read_bits r3 32) (\<lambda>(low, r). rbind (read_bits r (4 * (k + 1) - 32))
        (\<lambda>(high, r). Inr (push_bit 32 high OR low, r)))) (bits_val ps) rest (rd_padding r)"
    proof (rule delivers_bind)
      have "32 \<le> length ps" using ps l by auto
      then show "delivers (read_bits r3 32) (bits_val (take 32 ps)) (drop 32 ps @ rest) (rd_padding r)"
        using read_bits_delivers [of r3 32] r3 by simp
      fix r4 assume r4: "reader_ok r4" "rd_stream r4 = drop 32 ps @ rest" "rd_padding r4 = rd_padding r"
      have "delivers (rbind (read_bits r4 (4 * (k + 1) - 32)) (\<lambda>(high, r).
          Inr (push_bit 32 high OR bits_val (take 32 ps), r))) (bits_val ps) rest (rd_padding r)"
      proof (rule delivers_bind)
        show "delivers (read_bits r4 (4 * (k + 1) - 32)) (bits_val (drop 32 ps)) rest (rd_padding r)"
          using read_bits_delivers [of r4 "4 * (k + 1) - 32"] r4 ps k by simp
        fix r5 assume "reader_ok r5" "rd_stream r5 = rest" "rd_padding r5 = rd_padding r"
        moreover have "push_bit 32 (bits_val (drop 32 ps) :: u64) OR bits_val (take 32 ps) = bits_val ps"
          using bits_val_append [of "take 32 ps" "drop 32 ps", where 'a = 64] \<open>32 \<le> length ps\<close>
          by (simp add: or.commute)
        ultimately show "delivers (case (bits_val (drop 32 ps) :: u64, r5) of (high, r) \<Rightarrow>
            Inr (push_bit 32 high OR bits_val (take 32 ps), r)) (bits_val ps) rest (rd_padding r)"
          by (simp add: delivers_def)
      qed
      then show "delivers (case (bits_val (take 32 ps) :: u64, r4) of (low, r) \<Rightarrow>
          rbind (read_bits r (4 * (k + 1) - 32)) (\<lambda>(high, r). Inr (push_bit 32 high OR low, r)))
          (bits_val ps) rest (rd_padding r)" by simp
    qed
    moreover have "read_i64 r = rbind (read_bits r3 32) (\<lambda>(low, r).
        rbind (read_bits r (4 * (k + 1) - 32)) (\<lambda>(high, r). Inr (push_bit 32 high OR low, r)))"
      using r1(1) r2(1) tz True k
      by (simp add: read_i64_def read_i64_wide_def Let_def mult.commute r3_def flip: want_def)
    ultimately show ?thesis by simp
  next
    case False
    have "5 * (k + 1) \<le> 57" "5 * (k + 1) \<le> length (rd_stream r1)" using False len r1 by simp_all
    from ensure_bits_ok [OF r1(2) this] obtain r2 where
      r2: "ensure_bits r1 (5 * (k + 1)) = Inr r2" "reader_ok r2" "rd_stream r2 = rd_stream r"
      "rd_padding r2 = rd_padding r" "5 * (k + 1) \<le> rd_bits r2" using r1 by metis
    define r3 where "r3 = consume_unchecked r2 (k + 1)"
    have r3: "reader_ok r3" "rd_stream r3 = ps @ rest" "rd_padding r3 = rd_padding r"
      "4 * (k + 1) \<le> rd_bits r3"
      using r2 by (auto simp: r3_def reader_ok_consume rd_stream_consume s)
    have "rd_accum r3 AND mask (4 * (k + 1)) = bits_val ps"
      using accum_take [OF r3(4)] r3 ps by simp
    then have "read_i64 r = Inr (bits_val ps, consume_unchecked r3 (4 * (k + 1)))"
      using r1(1) r2(1) tz False k
      by (simp add: read_i64_def Let_def mult.commute algebra_simps r3_def flip: want_def)
    then show ?thesis
      using r3 ps by (auto simp: reader_ok_consume rd_stream_consume intro!: deliversI)
  qed
qed

lemma read_u32_number_delivers:
  assumes ok: "reader_ok r"
    and s: "rd_stream r = replicate k False @ True # ps @ rest"
    and k: "k \<le> 23" and ps: "length ps = k + 8"
    and pad: "rd_padding r \<le> length rest"
  shows "delivers (read_u32_number r) (push_bit (k + 8) 1 OR bits_val ps) rest (rd_padding r)"
proof -
  define want where "want = min 32 (remaining r)"
  have len: "length (rd_stream r) = 2 * k + 9 + length rest" by (simp add: s ps)
  have want: "want \<le> 57" "want \<le> length (rd_stream r)" "k < want"
    using remaining_eq [OF ok] len k pad by (auto simp: want_def)
  from ensure_bits_ok [OF ok want(1,2)] obtain r1 where
    r1: "ensure_bits r want = Inr r1" "reader_ok r1" "rd_stream r1 = rd_stream r"
    "rd_padding r1 = rd_padding r" "want \<le> rd_bits r1" by metis
  have acc: "bit (rd_accum r1) i = (rd_stream r ! i)" if "i \<le> k" for i
    using bit_accum [of i r1] r1 that want by simp
  have tz: "trailing_zeros (ucast (rd_accum r1) :: u32) = k"
    using acc k by (intro trailing_zeros_eqI) (auto simp: bit_ucast_iff s nth_unary)
  have "bit (rd_accum r1 AND 0xFFFFFFFF) k"
    using acc [of k] k bit_mask_iff [of 32 k, where 'a = u64]
    by (simp add: bit_and_iff s nth_unary mask_eq_exp_minus_1)
  then have nz: "rd_accum r1 AND 0xFFFFFFFF \<noteq> 0" by auto
  have "2 * k + 9 \<le> 57" "2 * k + 9 \<le> length (rd_stream r1)" using k len r1 by simp_all
  from ensure_bits_ok [OF r1(2) this] obtain r2 where
    r2: "ensure_bits r1 (2 * k + 9) = Inr r2" "reader_ok r2" "rd_stream r2 = rd_stream r"
    "rd_padding r2 = rd_padding r" "2 * k + 9 \<le> rd_bits r2" using r1 by metis
  define r3 where "r3 = consume_unchecked r2 (k + 1)"
  have r3: "reader_ok r3" "rd_stream r3 = ps @ rest" "rd_padding r3 = rd_padding r"
    "k + 8 \<le> rd_bits r3"
    using r2 by (auto simp: r3_def reader_ok_consume rd_stream_consume s)
  have "rd_accum r3 AND mask (k + 8) = bits_val ps"
    using accum_take [OF r3(4)] r3 ps by simp
  moreover have "ucast (bits_val ps :: u64) = (bits_val ps :: u32)"
    using ps k by (intro bits_val_ucast) auto
  moreover have "k + 1 + (k + 8) = 2 * k + 9" by simp
  moreover have fold3: "consume_unchecked r2 (Suc k) = r3" by (simp add: r3_def)
  moreover have nk: "\<not> 23 < k" using k by simp
  ultimately have "read_u32_number r
      = Inr (push_bit (k + 8) 1 OR bits_val ps, consume_unchecked r3 (k + 8))"
    using r1(1) r2(1) tz nz k fold3
    unfolding read_u32_number_def Let_def want_def [symmetric]
    by (simp only: rbind_Inr if_False tz nk simp_thms) simp
  then show ?thesis
    using r3 ps by (auto simp: reader_ok_consume rd_stream_consume intro!: deliversI)
qed

lemma align_reader:
  assumes "reader_ok r"
  shows "reader_ok (reader_align_to_byte r)"
    and "rd_stream (reader_align_to_byte r) = drop (length (rd_stream r) mod 8) (rd_stream r)"
    and "rd_padding (reader_align_to_byte r) = rd_padding r"
    and "8 dvd rd_bits (reader_align_to_byte r)"
proof -
  have m: "rd_bits r mod 8 = length (rd_stream r) mod 8" by (simp add: length_rd_stream)
  have le: "rd_bits r mod 8 \<le> rd_bits r" by simp
  show "reader_ok (reader_align_to_byte r)"
    using reader_ok_consume [OF assms le] assms by (simp add: reader_align_to_byte_def Let_def)
  show "rd_stream (reader_align_to_byte r) = drop (length (rd_stream r) mod 8) (rd_stream r)"
    using rd_stream_consume [OF le] by (simp add: reader_align_to_byte_def Let_def m [symmetric])
  show "rd_padding (reader_align_to_byte r) = rd_padding r"
    by (simp add: reader_align_to_byte_def Let_def)
  show "8 dvd rd_bits (reader_align_to_byte r)"
    by (auto simp: reader_align_to_byte_def Let_def dvd_minus_mod)
qed

lemma byte_bits_accum:
  assumes "8 \<le> rd_bits r"
  shows "byte_bits (ucast (rd_accum r AND 0xFF)) = take 8 (rd_stream r)"
proof -
  have "(0xFF :: u64) = mask 8" by (simp add: mask_eq_exp_minus_1)
  then have "bit (0xFF :: u64) i" if "i < 8" for i
    using that by (simp only: bit_mask_iff) simp
  then have "byte_bits (ucast (rd_accum r AND 0xFF)) = word_bits (rd_accum r) 8"
    unfolding byte_bits_def
    by (intro nth_equalityI) (auto simp: bit_ucast_iff bit_and_iff)
  with assms show ?thesis by (simp add: rd_stream_def)
qed

lemma drain_accum_spec:
  assumes "reader_ok r" "8 dvd rd_bits r" "drain_accum n r = (buf, rem, r')"
  shows "reader_ok r' \<and> bytes_bits buf @ rd_stream r' = rd_stream r \<and> length buf + rem = n
    \<and> (rem > 0 \<longrightarrow> rd_bits r' = 0) \<and> rd_data r' = rd_data r \<and> rd_pos r' = rd_pos r
    \<and> rd_padding r' = rd_padding r"
  using assms
proof (induction n r arbitrary: buf rem r' rule: drain_accum.induct)
  case (1 r)
  then show ?case by auto
next
  case (2 n r)
  show ?case
  proof (cases "8 \<le> rd_bits r")
    case True
    obtain buf1 rem1 r1 where d: "drain_accum n (consume_unchecked r 8) = (buf1, rem1, r1)"
      by (cases "drain_accum n (consume_unchecked r 8)")
    have "8 dvd rd_bits (consume_unchecked r 8)" using "2.prems"(2) True by (simp add: dvd_diff_nat)
    note IH = "2.IH" [OF True reader_ok_consume [OF "2.prems"(1) True] this d]
    have "byte_bits (ucast (rd_accum r AND 0xFF)) @ drop 8 (rd_stream r) = rd_stream r"
      by (simp add: byte_bits_accum True)
    with IH "2.prems"(3) True d show ?thesis
      by (auto simp: rd_stream_consume) (simp_all add: consume_unchecked_def)
  next
    case False
    moreover from this "2.prems"(2) have "rd_bits r = 0" by (auto elim: dvdE)
    ultimately show ?thesis using "2.prems" by auto
  qed
qed

lemma read_buffer_tail:
  assumes ok: "reader_ok r" "8 dvd rd_bits r"
    and s: "rd_stream r = bytes_bits d @ rest"
    and dr: "drain_accum (length d) r = (buf, rem, r1)"
  shows "rem \<le> length (rd_data r1) - rd_pos r1
    \<and> buf @ subrange (rd_pos r1) (rd_pos r1 + rem) (rd_data r1) = d
    \<and> reader_ok (r1\<lparr>rd_pos := rd_pos r1 + rem\<rparr>)
    \<and> rd_stream (r1\<lparr>rd_pos := rd_pos r1 + rem\<rparr>) = rest
    \<and> rd_padding r1 = rd_padding r"
proof -
  note D = drain_accum_spec [OF ok dr]
  have st: "bytes_bits buf @ rd_stream r1 = bytes_bits d @ rest" using D s by simp
  have ld: "length d = length buf + rem" using D by simp
  have "take (8 * length buf) (bytes_bits buf @ rd_stream r1)
      = take (8 * length buf) (bytes_bits d @ rest)"
    by (simp only: st)
  then have "bytes_bits buf = bytes_bits (take (length buf) d)"
    using ld by (simp add: take_bytes_bits)
  then have buf: "buf = take (length buf) d" by (rule bytes_bits_inj)
  have "drop (8 * length buf) (bytes_bits buf @ rd_stream r1)
      = drop (8 * length buf) (bytes_bits d @ rest)"
    by (simp only: st)
  then have st1: "rd_stream r1 = bytes_bits (drop (length buf) d) @ rest"
    using ld by (simp add: drop_bytes_bits)
  show ?thesis
  proof (cases "rem = 0")
    case True
    with ld have "length buf = length d" by simp
    with buf have "buf = d" by simp
    moreover have "r1\<lparr>rd_pos := rd_pos r1 + rem\<rparr> = r1" using True by simp
    ultimately show ?thesis
      using True D st1 \<open>length buf = length d\<close> by (simp only:) (simp add: subrange_def)
  next
    case False
    with D have b0: "rd_bits r1 = 0" by simp
    let ?u = "drop (rd_pos r1) (rd_data r1)"
    have u: "bytes_bits ?u = bytes_bits (drop (length buf) d) @ rest"
      using st1 b0 by (simp add: rd_stream_def unread_def)
    have "8 * length ?u = 8 * rem + length rest"
      using arg_cong [OF u, of length] ld by simp
    then have le: "rem \<le> length ?u" by simp
    have "take (8 * rem) (bytes_bits ?u) = bytes_bits (drop (length buf) d)"
      using ld by (simp add: u)
    then have "bytes_bits (take rem ?u) = bytes_bits (drop (length buf) d)"
      by (simp add: take_bytes_bits)
    then have tk: "take rem ?u = drop (length buf) d" by (rule bytes_bits_inj)
    have "drop (8 * rem) (bytes_bits ?u) = rest"
      using ld by (simp add: u)
    then have rest: "bytes_bits (drop (rd_pos r1 + rem) (rd_data r1)) = rest"
      by (simp add: drop_bytes_bits add.commute)
    have "buf @ subrange (rd_pos r1) (rd_pos r1 + rem) (rd_data r1) = d"
      using tk buf by (metis add_diff_cancel_left' append_take_drop_id subrange_def)
    moreover have "reader_ok (r1\<lparr>rd_pos := rd_pos r1 + rem\<rparr>)"
      using D b0 le by (auto simp: reader_ok_def)
    moreover have "rd_stream (r1\<lparr>rd_pos := rd_pos r1 + rem\<rparr>) = rest"
      using rest b0 by (simp add: rd_stream_def unread_def)
    ultimately show ?thesis using D le by simp
  qed
qed

lemma read_buffer_delivers:
  assumes ok: "reader_ok r"
    and rd: "delivers (read_i64 r) (of_nat (length d)) (z @ bytes_bits d @ rest) (rd_padding r)"
    and z: "length z < 8" and al: "8 dvd length rest"
    and pad: "rd_padding r \<le> length rest"
    and ld: "length d < 2 ^ 29"
  shows "delivers (read_buffer r) d rest (rd_padding r)"
  unfolding read_buffer_def
proof (rule delivers_bind [OF rd])
  fix r1 assume r1: "reader_ok r1" "rd_stream r1 = z @ bytes_bits d @ rest"
    "rd_padding r1 = rd_padding r"
  define r2 where "r2 = reader_align_to_byte r1"
  have m: "length (rd_stream r1) mod 8 = length z"
  proof -
    from al obtain q where "length rest = 8 * q" by (rule dvdE)
    then have "length (rd_stream r1) = length z + 8 * (length d + q)" by (simp add: r1)
    with z show ?thesis by (simp only: mod_mult_self2 mod_less)
  qed
  have r2: "reader_ok r2" "rd_stream r2 = bytes_bits d @ rest" "rd_padding r2 = rd_padding r"
    "8 dvd rd_bits r2"
    using align_reader [OF r1(1)] r1 m unfolding r2_def by simp_all
  obtain buf rem r3 where dr: "drain_accum (length d) r2 = (buf, rem, r3)"
    by (cases "drain_accum (length d) r2")
  note T = read_buffer_tail [OF r2(1,4,2) dr]
  have u: "unat (of_nat (length d) :: u64) = length d"
    using ld by (simp add: unat_of_nat)
  have nsi: "\<not> sint (of_nat (length d) :: u64) < 0"
    using ld by (subst sint_of_nat_small) simp_all
  have av: "\<not> length d > remaining r1 div 8 + rd_bits r1 div 8 + 8"
  proof -
    have "8 * length d \<le> remaining r1"
      using remaining_eq [OF r1(1)] r1 pad by simp
    then show ?thesis by simp
  qed
  show "delivers (case (of_nat (length d) :: u64, r1) of (sz, r) \<Rightarrow>
      if sint sz < 0 then Inl (Malformed ''negative buffer size'')
      else
        let size = unat sz;
            available = remaining r div 8 + rd_bits r div 8
        in if size > available + 8
           then Inl (Malformed ''buffer size exceeds available data'')
           else
             let r = reader_align_to_byte r
             in if size = 0 then Inr ([], r)
                else
                  case drain_accum size r of (buf, rem, r) \<Rightarrow>
                    let available = length (rd_data r) - rd_pos r;
                        bulk = min rem available;
                        buf = buf @ subrange (rd_pos r) (rd_pos r + bulk) (rd_data r);
                        r = r\<lparr>rd_pos := rd_pos r + bulk\<rparr>;
                        rem = rem - bulk
                    in if rem > 0
                       then Inl (BitstreamExhausted ((rem * 8) mod 2 ^ 32) 0)
                       else Inr (buf, r)) d rest (rd_padding r)"
  proof (cases "d = []")
    case True
    with r2 show ?thesis by (simp add: Let_def r2_def deliversI)
  next
    case False
    then have nz: "length d \<noteq> 0" by simp
    from T have T1: "min rem (length (rd_data r3) - rd_pos r3) = rem" by simp
    have "delivers (Inr (d, r3\<lparr>rd_pos := rd_pos r3 + rem\<rparr>)) d rest (rd_padding r)"
      using T r2 by (intro deliversI) simp_all
    with nsi av nz T show ?thesis
      unfolding prod.case Let_def u r2_def [symmetric]
      by (simp only: if_False prod.case dr T1) simp
  qed
qed

end
