(* ===== verification/BitWriter.thy ===== *)
theory BitWriter
  imports Bitstream
begin

text \<open>
  \<open>src/bitstream/mod.rs\<close>, the writer: \<open>wr_stream\<close> is the bit sequence a writer was given, and
  every operation appends to it. The last section states that the reader takes back what the
  writer wrote, through \<open>finish\<close> and \<open>new\<close>.
\<close>

section \<open>The writer\<close>

record bit_writer =
  wr_buf :: bytes
  wr_accum :: u64
  wr_bits :: nat

function flush :: "bit_writer \<Rightarrow> bit_writer" where
  "flush w =
     (if 32 \<le> wr_bits w
      then flush (w\<lparr>wr_buf := wr_buf w @ to_le 4 (ucast (wr_accum w) :: u32),
                   wr_accum := drop_bit 32 (wr_accum w),
                   wr_bits := wr_bits w - 32\<rparr>)
      else w)"
  by pat_completeness auto
termination
  by (relation "measure wr_bits") auto

declare flush.simps [simp del]

function flush_final :: "bit_writer \<Rightarrow> bit_writer" where
  "flush_final w =
     (if 0 < wr_bits w
      then flush_final (w\<lparr>wr_buf := wr_buf w @ [ucast (wr_accum w)],
                         wr_accum := drop_bit 8 (wr_accum w),
                         wr_bits := wr_bits w - 8\<rparr>)
      else w)"
  by pat_completeness auto
termination
  by (relation "measure wr_bits") auto

declare flush_final.simps [simp del]

definition write_bits :: "bit_writer \<Rightarrow> u64 \<Rightarrow> nat \<Rightarrow> bit_writer" where
  "write_bits w val n =
     (if n = 0 then w
      else
        let masked = (if n = 64 then val else val AND mask n)
        in if wr_bits w + n > 64 then
             let low_n = 64 - wr_bits w;
                 low_mask = (if low_n = 64 then - 1 else mask low_n);
                 w1 = flush (w\<lparr>wr_accum := wr_accum w OR push_bit (wr_bits w) (masked AND low_mask),
                              wr_bits := 64\<rparr>)
             in flush (w1\<lparr>wr_accum := drop_bit low_n masked, wr_bits := n - low_n\<rparr>)
           else
             flush (w\<lparr>wr_accum := wr_accum w OR push_bit (wr_bits w) masked,
                     wr_bits := wr_bits w + n\<rparr>))"

definition writer_new :: bit_writer where
  "writer_new = write_bits \<lparr>wr_buf = [], wr_accum = 0, wr_bits = 0\<rparr> 0 3"

text \<open>\<open>highest - highest mod 4\<close> is \<open>highest & !3\<close>.\<close>

definition write_i64 :: "bit_writer \<Rightarrow> i64 \<Rightarrow> bit_writer" where
  "write_i64 w v =
     (let high = (ucast (drop_bit 32 v) :: u32)
      in if high = 0 then
           let low = (ucast v :: u32);
               nibbles = (if low = 0 then 0
                          else let top = drop_bit 1 low OR low OR 1
                               in (31 - leading_zeros top) div 4);
               w = write_bits w (push_bit nibbles 1) (nibbles + 1)
           in write_bits w (ucast low) ((nibbles + 1) * 4)
         else
           let top = drop_bit 1 high OR high;
               highest = 31 - leading_zeros top;
               nibbles = highest div 4;
               high_value_bits = (highest - highest mod 4) + 4;
               w = write_bits w (push_bit (nibbles + 8) 1) (nibbles + 9);
               w = write_bits w (v AND 0xFFFFFFFF) 32
           in write_bits w (ucast high) high_value_bits)"

definition write_u32_number :: "bit_writer \<Rightarrow> u32 \<Rightarrow> bit_writer" where
  "write_u32_number w val =
     (let bit_pos = 31 - leading_zeros val;
          nibbles = bit_pos - 8;
          value_bits = nibbles + 8;
          w = write_bits w (push_bit nibbles 1) (nibbles + 1)
      in write_bits w (ucast val AND mask value_bits) value_bits)"

definition writer_align_to_byte :: "bit_writer \<Rightarrow> bit_writer" where
  "writer_align_to_byte w =
     (let pad = (8 - wr_bits w mod 8) mod 8
      in if pad > 0 then write_bits w 0 pad else w)"

definition write_buffer :: "bit_writer \<Rightarrow> bytes \<Rightarrow> bit_writer" where
  "write_buffer w data =
     (let w = flush (writer_align_to_byte (write_i64 w (of_nat (length data))))
      in if wr_bits w = 0 then w\<lparr>wr_buf := wr_buf w @ data\<rparr>
         else foldl (\<lambda>w b. write_bits w (ucast b) 8) w data)"

definition writer_finish :: "bit_writer \<Rightarrow> bytes" where
  "writer_finish w0 =
     (let pad = (8 - wr_bits w0 mod 8) mod 8;
          w = (if pad > 0 then write_bits w0 0 pad else w0);
          w = flush_final w
      in case wr_buf w of
           [] \<Rightarrow> []
         | b # bs \<Rightarrow> ((b AND NOT 7) OR (of_nat pad AND 7)) # bs)"

section \<open>The writer as a bit stream\<close>

definition wr_stream :: "bit_writer \<Rightarrow> bool list" where
  "wr_stream w = bytes_bits (wr_buf w) @ word_bits (wr_accum w) (wr_bits w)"

definition accum_clean :: "bit_writer \<Rightarrow> bool" where
  "accum_clean w \<longleftrightarrow> (\<forall>i. bit (wr_accum w) i \<longrightarrow> i < wr_bits w)"

definition writer_ok :: "bit_writer \<Rightarrow> bool" where
  "writer_ok w \<longleftrightarrow> wr_bits w < 32 \<and> accum_clean w"

lemma length_wr_stream: "length (wr_stream w) = 8 * length (wr_buf w) + wr_bits w"
  by (simp add: wr_stream_def)

lemma flush_spec:
  "wr_bits w \<le> 64 \<Longrightarrow> accum_clean w \<Longrightarrow>
    writer_ok (flush w) \<and> wr_stream (flush w) = wr_stream w
    \<and> wr_bits (flush w) = wr_bits w mod 32"
proof (induction w rule: flush.induct)
  case (1 w)
  show ?case
  proof (cases "32 \<le> wr_bits w")
    case True
    define q where "q = w\<lparr>wr_buf := wr_buf w @ to_le 4 (ucast (wr_accum w) :: u32),
      wr_accum := drop_bit 32 (wr_accum w), wr_bits := wr_bits w - 32\<rparr>"
    have clean: "accum_clean q"
      using "1.prems"(2) by (auto simp: q_def accum_clean_def bit_drop_bit_eq)
    have "word_bits (wr_accum w) (wr_bits w)
        = word_bits (wr_accum w) 32 @ word_bits (drop_bit 32 (wr_accum w)) (wr_bits w - 32)"
      using True by (metis append_take_drop_id drop_word_bits min.absorb1 take_word_bits)
    then have stream: "wr_stream q = wr_stream w"
      by (simp add: q_def wr_stream_def bytes_bits_to_le word_bits_ucast)
    have "flush w = flush q"
      unfolding q_def by (subst flush.simps) (simp only: True if_True)
    moreover have "wr_bits q mod 32 = wr_bits w mod 32"
      using True by (simp add: q_def le_mod_geq)
    ultimately show ?thesis
      using "1.IH" [OF True, folded q_def] clean stream "1.prems"(1) by (simp add: q_def)
  next
    case False
    then have "flush w = w" by (subst flush.simps) (simp only: if_False)
    with False "1.prems" show ?thesis by (simp add: writer_ok_def)
  qed
qed

lemma flush_idle: "writer_ok w \<Longrightarrow> flush w = w"
  by (subst flush.simps) (simp add: writer_ok_def)

lemma write_bits_narrow:
  assumes ok: "writer_ok w" and n: "wr_bits w + n \<le> 64" "0 < n"
  shows "writer_ok (write_bits w val n) \<and> wr_stream (write_bits w val n) = wr_stream w @ word_bits val n"
proof -
  define m where "m = (if n = 64 then val else val AND mask n)"
  have bm: "bit m i \<longleftrightarrow> i < n \<and> bit val i" for i
    using n bit_imp_le_length [of val i] by (auto simp: m_def bit_and_iff bit_mask_iff)
  define q where "q = w\<lparr>wr_accum := wr_accum w OR push_bit (wr_bits w) m,
                     wr_bits := wr_bits w + n\<rparr>"
  have clean: "accum_clean q"
    using ok by (auto simp: q_def accum_clean_def writer_ok_def bit_or_iff bit_push_bit_iff bm)
  have eq: "write_bits w val n = flush q"
    using n by (simp add: write_bits_def q_def m_def Let_def)
  have "word_bits (wr_accum q) (wr_bits q) = word_bits (wr_accum w) (wr_bits w) @ word_bits val n"
    using ok n bm
    by (intro nth_equalityI)
      (auto simp: q_def nth_append bit_or_iff bit_push_bit_iff writer_ok_def accum_clean_def)
  then have "wr_stream q = wr_stream w @ word_bits val n"
    by (simp add: wr_stream_def) (simp add: q_def)
  with flush_spec [OF _ clean] n show ?thesis by (simp add: eq) (simp add: q_def)
qed

lemma write_bits_split:
  assumes ok: "writer_ok w" and n: "64 < wr_bits w + n" "n \<le> 64"
  shows "writer_ok (write_bits w val n) \<and> wr_stream (write_bits w val n) = wr_stream w @ word_bits val n"
proof -
  define m where "m = (if n = 64 then val else val AND mask n)"
  have bm: "bit m i \<longleftrightarrow> i < n \<and> bit val i" for i
    using n bit_imp_le_length [of val i] by (auto simp: m_def bit_and_iff bit_mask_iff)
  define l where "l = 64 - wr_bits w"
  have l: "l \<le> n" "wr_bits w + l = 64" "n - l < 32" using ok n by (auto simp: l_def writer_ok_def)
  define ml where "ml = m AND (if l = 64 then - 1 else mask l)"
  define q where "q = w\<lparr>wr_accum := wr_accum w OR push_bit (wr_bits w) ml, wr_bits := 64\<rparr>"
  have bl: "bit ml i \<longleftrightarrow> i < l \<and> bit val i" for i
    using l bit_imp_le_length [of val i] by (auto simp: ml_def bit_and_iff bit_mask_iff bm)
  have clean: "accum_clean q"
    unfolding accum_clean_def
  proof (intro allI impI)
    fix i assume "bit (wr_accum q) i"
    then have "i < 64" using bit_imp_le_length [of "wr_accum q" i] by simp
    then show "i < wr_bits q" by (simp add: q_def)
  qed
  have "word_bits (wr_accum q) 64 = word_bits (wr_accum w) (wr_bits w) @ word_bits val l"
    using ok l
    by (intro nth_equalityI)
      (auto simp: q_def nth_append bit_or_iff bit_push_bit_iff bl writer_ok_def accum_clean_def)
  then have sq: "wr_stream q = wr_stream w @ word_bits val l"
    by (simp add: wr_stream_def q_def)
  have F: "writer_ok (flush q)" "wr_stream (flush q) = wr_stream w @ word_bits val l"
    "wr_bits (flush q) = 0"
    using flush_spec [OF _ clean] sq by (auto simp: q_def)
  define p where "p = (flush q)\<lparr>wr_accum := drop_bit l m, wr_bits := n - l\<rparr>"
  have cp: "accum_clean p"
    by (auto simp: p_def accum_clean_def bit_drop_bit_eq bm)
  have "word_bits (drop_bit l m) (n - l) = drop l (word_bits val n)"
    by (rule nth_equalityI) (auto simp: bit_drop_bit_eq bm)
  then have "wr_stream p = wr_stream (flush q) @ drop l (word_bits val n)"
    using F(3) by (simp add: wr_stream_def p_def)
  also have "\<dots> = wr_stream w @ word_bits val n"
    using F(2) l append_take_drop_id [of l "word_bits val n"] by (simp add: min_def)
  finally have sp: "wr_stream p = wr_stream w @ word_bits val n" .
  have "write_bits w val n = flush p"
    using n ok by (simp add: write_bits_def p_def q_def ml_def m_def l_def Let_def writer_ok_def)
  with flush_spec [OF _ cp] sp l show ?thesis by (simp add: p_def)
qed

lemma write_bits_spec:
  assumes "writer_ok w" "n \<le> 64"
  shows "writer_ok (write_bits w val n)"
    and "wr_stream (write_bits w val n) = wr_stream w @ word_bits val n"
proof -
  consider "n = 0" | "0 < n" "wr_bits w + n \<le> 64" | "64 < wr_bits w + n" by linarith
  then have "writer_ok (write_bits w val n)
      \<and> wr_stream (write_bits w val n) = wr_stream w @ word_bits val n"
  proof cases
    case 1
    with assms show ?thesis by (simp add: write_bits_def)
  next
    case 2
    with assms write_bits_narrow show ?thesis by blast
  next
    case 3
    with assms write_bits_split show ?thesis by blast
  qed
  then show "writer_ok (write_bits w val n)"
    and "wr_stream (write_bits w val n) = wr_stream w @ word_bits val n" by auto
qed

lemma writer_new_spec: "writer_ok writer_new" "wr_stream writer_new = [False, False, False]"
proof -
  have ok: "writer_ok \<lparr>wr_buf = [], wr_accum = 0, wr_bits = 0\<rparr>"
    by (simp add: writer_ok_def accum_clean_def)
  show "writer_ok writer_new" unfolding writer_new_def by (rule write_bits_spec [OF ok]) simp
  have "word_bits (0::u64) 3 = [False, False, False]"
    by (simp add: word_bits_def upt_rec)
  then show "wr_stream writer_new = [False, False, False]"
    unfolding writer_new_def by (subst write_bits_spec [OF ok]) (simp_all add: wr_stream_def)
qed

lemma leading_zeros_eqI:
  assumes "h < LENGTH('a)" "bit w h" "\<And>i. h < i \<Longrightarrow> \<not> bit w i"
  shows "leading_zeros (w :: 'a::len word) = LENGTH('a) - 1 - h"
proof -
  have "w \<noteq> 0" using assms(2) by auto
  note H = leading_zeros_high_bit [OF this]
  have "LENGTH('a) - 1 - leading_zeros w = h"
    using H(2,3) assms(2,3) by (metis linorder_neqE_nat)
  moreover have "leading_zeros w < LENGTH('a)"
  proof (rule ccontr)
    assume "\<not> leading_zeros w < LENGTH('a)"
    then have all: "leading_zeros w = LENGTH('a)"
      using length_takeWhile_le [of Not "rev (word_bits w LENGTH('a))"] by (simp add: leading_zeros_def)
    then have "\<forall>x\<in>set (rev (word_bits w LENGTH('a))). \<not> x"
      unfolding leading_zeros_def
      by (metis takeWhile_eq_take take_all order_refl set_takeWhileD length_rev length_word_bits)
    then show False using assms(1,2) by (auto simp: word_bits_def)
  qed
  ultimately show ?thesis using assms(1) by arith
qed

lemma leading_zeros_0: "leading_zeros (0 :: 'a::len word) = LENGTH('a)"
proof -
  have "takeWhile Not (rev (word_bits (0::'a word) LENGTH('a))) = rev (word_bits (0::'a word) LENGTH('a))"
    by (simp add: takeWhile_eq_all_conv word_bits_def)
  then show ?thesis unfolding leading_zeros_def by (simp only: length_rev length_word_bits)
qed

text \<open>The length of a variable-length integer in nibbles, less one.\<close>

definition i64_nibbles :: "i64 \<Rightarrow> nat" where
  "i64_nibbles v = (63 - leading_zeros v) div 4"

definition enc_i64 :: "i64 \<Rightarrow> bool list" where
  "enc_i64 v = replicate (i64_nibbles v) False @ True # word_bits v (4 * (i64_nibbles v + 1))"

lemma i64_nibbles_le: "i64_nibbles v \<le> 15"
  by (simp add: i64_nibbles_def)

lemma i64_nibbles_fits: "take_bit (4 * (i64_nibbles v + 1)) v = v"
proof (cases "v = 0")
  case False
  note H = leading_zeros_high_bit [OF this]
  show ?thesis
  proof (rule bit_word_eqI)
    fix i assume "i < LENGTH(64)"
    show "bit (take_bit (4 * (i64_nibbles v + 1)) v) i = bit v i"
    proof (cases "63 - leading_zeros v < i")
      case True
      with H(3) [of i] show ?thesis by (simp add: bit_take_bit_iff)
    next
      case False
      then have "i < 4 * (i64_nibbles v + 1)" unfolding i64_nibbles_def by arith
      then show ?thesis by (simp add: bit_take_bit_iff)
    qed
  qed
qed simp

lemma word_bits_unary: "k < LENGTH('a) \<Longrightarrow>
    word_bits (push_bit k (1 :: 'a::len word)) (k + 1) = replicate k False @ [True]"
  by (rule nth_equalityI) (auto simp: nth_append bit_push_bit_iff bit_1_iff simp del: push_bit_of_1)

lemma i64_nibbles_eqI:
  assumes "h < 64" "bit v h" "\<And>i. h < i \<Longrightarrow> \<not> bit v i"
  shows "i64_nibbles v = h div 4"
  using leading_zeros_eqI [of h v] assms by (simp add: i64_nibbles_def)

lemma leading_zeros_smear:
  assumes "w \<noteq> 0" "x = drop_bit 1 w OR w \<or> x = drop_bit 1 w OR w OR 1"
  shows "leading_zeros x = leading_zeros (w :: 'a::len word)"
proof -
  note H = leading_zeros_high_bit [OF assms(1)]
  let ?h = "LENGTH('a) - 1 - leading_zeros w"
  have "leading_zeros x = LENGTH('a) - 1 - ?h"
  proof (rule leading_zeros_eqI)
    show "?h < LENGTH('a)" by (rule H)
    show "bit x ?h" using assms(2) H(2) by (auto simp: bit_or_iff)
    show "\<not> bit x i" if "?h < i" for i
      using assms(2) H(3) [of i] H(3) [of "Suc i"] that
      by (auto simp: bit_or_iff bit_drop_bit_eq bit_1_iff)
  qed
  moreover have "leading_zeros w = LENGTH('a) - 1 - ?h"
    by (rule leading_zeros_eqI [OF H]) 
  ultimately show ?thesis by simp
qed

lemma write_i64_spec:
  assumes ok: "writer_ok w"
  shows "writer_ok (write_i64 w v)" "wr_stream (write_i64 w v) = wr_stream w @ enc_i64 v"
proof -
  define high where "high = (ucast (drop_bit 32 v) :: u32)"
  have bh: "bit high i \<longleftrightarrow> i < 32 \<and> bit v (i + 32)" for i
    by (auto simp: high_def bit_ucast_iff bit_drop_bit_eq add.commute)
  have "writer_ok (write_i64 w v) \<and> wr_stream (write_i64 w v) = wr_stream w @ enc_i64 v"
  proof (cases "high = 0")
    case True
    then have hi: "\<not> bit v i" if "32 \<le> i" for i
      using bh [of "i - 32"] that bit_imp_le_length [of v i] by fastforce
    define low where "low = (ucast v :: u32)"
    have bl: "bit low i \<longleftrightarrow> bit v i" for i
      using hi [of i] bit_imp_le_length [of v i] by (cases "32 \<le> i") (auto simp: low_def bit_ucast_iff)
    define n where "n = (if low = 0 then 0
                          else let top = drop_bit 1 low OR low OR 1
                               in (31 - leading_zeros top) div 4)"
    have n: "n = i64_nibbles v"
    proof (cases "low = 0")
      case True
      then have "v = 0" by (intro bit_word_eqI) (simp flip: bl)
      then show ?thesis using True by (simp add: n_def i64_nibbles_def leading_zeros_0)
    next
      case False
      note H = leading_zeros_high_bit [OF False]
      have "i64_nibbles v = (31 - leading_zeros low) div 4"
        by (rule i64_nibbles_eqI) (use H bl in auto)
      with False show ?thesis by (simp add: n_def Let_def leading_zeros_smear)
    qed
    have n7: "n \<le> 7"
    proof -
      have "(31 - z) div 4 \<le> 7" for z :: nat by linarith
      then show ?thesis by (auto simp: n_def Let_def)
    qed
    have wb: "word_bits (ucast low :: u64) ((n + 1) * 4) = word_bits v (4 * (n + 1))"
      using n7 by (intro nth_equalityI) (auto simp: bit_ucast_iff bl)
    have "write_i64 w v = write_bits (write_bits w (push_bit n 1) (n + 1)) (ucast low) ((n + 1) * 4)"
      using True by (simp add: write_i64_def n_def low_def high_def Let_def)
    with n7 show ?thesis
      using write_bits_spec [OF ok, of "n + 1" "push_bit n 1"]
        write_bits_spec [of "write_bits w (push_bit n 1) (n + 1)" "(n + 1) * 4" "ucast low"] wb
      by (simp add: enc_i64_def word_bits_unary [of n, simplified] flip: n)
  next
    case False
    note H = leading_zeros_high_bit [OF False]
    define highest where "highest = 31 - leading_zeros high"
    have hb: "highest < 32" "bit high highest" "\<And>i. highest < i \<Longrightarrow> \<not> bit high i"
      using H by (simp_all add: highest_def)
    have k: "i64_nibbles v = highest div 4 + 8"
    proof -
      have "i64_nibbles v = (highest + 32) div 4"
      proof (rule i64_nibbles_eqI)
        show "highest + 32 < 64" using hb by simp
        show "bit v (highest + 32)" using hb bh by simp
        show "\<not> bit v i" if "highest + 32 < i" for i
          using hb(3) [of "i - 32"] bh [of "i - 32"] that bit_imp_le_length [of v i] by fastforce
      qed
      then show ?thesis by simp
    qed
    have le: "highest div 4 \<le> 7" using hb(1) by simp
    have hvb: "highest + 4 - highest mod 4 = 4 * (highest div 4) + 4" by presburger
    let ?n = "highest div 4"
    let ?w1 = "write_bits w (push_bit (?n + 8) 1) (?n + 9)"
    let ?w2 = "write_bits ?w1 (v AND 0xFFFFFFFF) 32"
    have mk: "(0xFFFFFFFF :: u64) = mask 32" by (simp add: mask_eq_exp_minus_1)
    have "word_bits v (4 * (?n + 8 + 1)) = word_bits (v AND 0xFFFFFFFF) 32 @ word_bits (ucast high :: u64) (4 * ?n + 4)"
      using le
      by (intro nth_equalityI)
        (auto simp: nth_append bit_ucast_iff bh bit_and_iff mk bit_mask_iff)
    moreover have "write_i64 w v = write_bits ?w2 (ucast high) (4 * ?n + 4)"
      using False
      by (simp add: write_i64_def highest_def high_def Let_def leading_zeros_smear hvb [unfolded highest_def high_def])
    moreover have un: "word_bits (push_bit (?n + 8) (1::u64)) (?n + 9)
        = replicate (?n + 8) False @ [True]"
    proof -
      have e: "?n + 9 = (?n + 8) + 1" by simp
      show ?thesis unfolding e by (rule word_bits_unary) (use le in simp)
    qed
    ultimately show ?thesis
      using write_bits_spec [OF ok, of "?n + 9" "push_bit (?n + 8) 1"]
        write_bits_spec [of ?w1 32 "v AND 0xFFFFFFFF"]
        write_bits_spec [of ?w2 "4 * ?n + 4" "ucast high"] le
        un
      by (simp add: enc_i64_def k)
  qed
  then show "writer_ok (write_i64 w v)" "wr_stream (write_i64 w v) = wr_stream w @ enc_i64 v" by auto
qed


text \<open>The numbers from 256 on: the top bit is implied by the unary count.\<close>

definition enc_u32_number :: "u32 \<Rightarrow> bool list" where
  "enc_u32_number v =
     (let k = 23 - leading_zeros v in replicate k False @ True # word_bits v (k + 8))"

lemma u32_number_top:
  assumes "256 \<le> (v::u32)"
  defines "h \<equiv> 31 - leading_zeros v"
  shows "8 \<le> h" "h \<le> 31" "push_bit h 1 OR take_bit h v = v" "23 - leading_zeros v = h - 8"
proof -
  have "v \<noteq> 0" using assms by auto
  note H = leading_zeros_high_bit [OF this]
  have bh: "bit v h" "\<And>i. h < i \<Longrightarrow> \<not> bit v i" using H by (simp_all add: h_def)
  show "h \<le> 31" by (simp add: h_def)
  show h8: "8 \<le> h"
  proof (rule ccontr)
    assume "\<not> 8 \<le> h"
    then have "\<not> bit v n" if "8 \<le> n" for n using that bh(2) [of n] by simp
    then have "take_bit 8 v = v"
      by (intro bit_word_eqI) (simp add: bit_take_bit_iff, metis not_less)
    then have "unat v < 2 ^ 8" by (metis take_bit_nat_less_exp unsigned_take_bit_eq)
    with assms(1) show False by (simp add: word_le_nat_alt)
  qed
  show "push_bit h 1 OR take_bit h v = v"
  proof (rule bit_word_eqI)
    fix i assume "i < LENGTH(32)"
    then show "bit (push_bit h 1 OR take_bit h v) i = bit v i"
      using bh(1) bh(2) [of i]
      by (cases i h rule: linorder_cases)
        (auto simp: bit_or_iff bit_take_bit_iff bit_push_bit_iff bit_1_iff simp del: push_bit_of_1)
  qed
  show "23 - leading_zeros v = h - 8" by (simp add: h_def)
qed

lemma write_u32_number_spec:
  assumes ok: "writer_ok w" and v: "256 \<le> v"
  shows "writer_ok (write_u32_number w v)"
    "wr_stream (write_u32_number w v) = wr_stream w @ enc_u32_number v"
proof -
  define k where "k = 23 - leading_zeros v"
  note T = u32_number_top [OF v, folded k_def]
  have k: "k \<le> 23" by (simp add: k_def)
  let ?w1 = "write_bits w (push_bit k 1) (k + 1)"
  have "write_u32_number w v = write_bits ?w1 (ucast v AND mask (k + 8)) (k + 8)"
    by (simp add: write_u32_number_def Let_def k_def)
  moreover have "word_bits (ucast v AND mask (k + 8) :: u64) (k + 8) = word_bits v (k + 8)"
    using k by (intro word_bits_eqI) (simp add: bit_and_iff bit_mask_iff bit_ucast_iff)
  ultimately show "writer_ok (write_u32_number w v)"
    "wr_stream (write_u32_number w v) = wr_stream w @ enc_u32_number v"
    using write_bits_spec [OF ok, of "k + 1" "push_bit k 1"] k
      write_bits_spec [of ?w1 "k + 8" "ucast v AND mask (k + 8)"]
      word_bits_unary [of k, where 'a = 64]
    by (simp_all add: enc_u32_number_def Let_def flip: k_def)
qed

text \<open>Alignment and buffers.\<close>

definition align_len :: "nat \<Rightarrow> nat" where
  "align_len n = (8 - n mod 8) mod 8"

lemma align_len: "align_len n < 8" "8 dvd n + align_len n"
proof -
  show "align_len n < 8" by (simp add: align_len_def)
  have "n + (8 - n mod 8) = 8 * (n div 8) + 8"
    using mod_less_divisor [of 8 n] mult_div_mod_eq [of 8 n] by linarith
  then have "(n + (8 - n mod 8)) mod 8 = 0" by simp
  then have "(n + align_len n) mod 8 = 0" unfolding align_len_def by (simp only: mod_add_right_eq)
  then show "8 dvd n + align_len n" by (rule mod_0_imp_dvd)
qed

lemma align_len_add8 [simp]: "align_len (8 * m + n) = align_len n"
  by (simp add: align_len_def)

lemma align_spec:
  assumes "writer_ok w"
  shows "writer_ok (writer_align_to_byte w)"
    "wr_stream (writer_align_to_byte w)
      = wr_stream w @ replicate (align_len (length (wr_stream w))) False"
proof -
  have "align_len (length (wr_stream w)) = (8 - wr_bits w mod 8) mod 8"
    by (simp add: length_wr_stream align_len_def)
  moreover have "word_bits (0::u64) n = replicate n False" for n
    by (rule nth_equalityI) auto
  ultimately show "writer_ok (writer_align_to_byte w)"
    "wr_stream (writer_align_to_byte w)
      = wr_stream w @ replicate (align_len (length (wr_stream w))) False"
    using assms write_bits_spec [OF assms, of "(8 - wr_bits w mod 8) mod 8" 0]
    by (auto simp: writer_align_to_byte_def Let_def)
qed

lemma write_bytes_spec:
  "writer_ok w \<Longrightarrow> writer_ok (foldl (\<lambda>w b. write_bits w (ucast b) 8) w d)
    \<and> wr_stream (foldl (\<lambda>w b. write_bits w (ucast b) 8) w d) = wr_stream w @ bytes_bits d"
proof (induction d arbitrary: w)
  case (Cons b d)
  have "word_bits (ucast b :: u64) 8 = byte_bits b"
    by (simp add: byte_bits_def word_bits_ucast)
  with Cons.IH [of "write_bits w (ucast b) 8"] write_bits_spec [OF Cons.prems, of 8 "ucast b"]
  show ?case by simp
qed simp

definition enc_buffer :: "nat \<Rightarrow> bytes \<Rightarrow> bool list" where
  "enc_buffer n d =
     (let e = enc_i64 (of_nat (length d))
      in e @ replicate (align_len (n + length e)) False @ bytes_bits d)"

lemma write_buffer_spec:
  assumes "writer_ok w"
  shows "writer_ok (write_buffer w d)"
    "wr_stream (write_buffer w d) = wr_stream w @ enc_buffer (length (wr_stream w)) d"
proof -
  define w1 where "w1 = writer_align_to_byte (write_i64 w (of_nat (length d)))"
  have w1: "writer_ok w1" "wr_stream w1 = wr_stream w @ enc_i64 (of_nat (length d)) @
      replicate (align_len (length (wr_stream w) + length (enc_i64 (of_nat (length d))))) False"
    using align_spec [OF write_i64_spec(1) [OF assms]] write_i64_spec [OF assms]
    by (simp_all add: w1_def)
  have ok: "writer_ok (w1\<lparr>wr_buf := wr_buf w1 @ d\<rparr>)"
    using w1(1) by (simp add: writer_ok_def accum_clean_def)
  have str: "wr_bits w1 = 0 \<Longrightarrow> wr_stream (w1\<lparr>wr_buf := wr_buf w1 @ d\<rparr>) = wr_stream w1 @ bytes_bits d"
    by (simp add: wr_stream_def)
  have "writer_ok (write_buffer w d) \<and> wr_stream (write_buffer w d) = wr_stream w1 @ bytes_bits d"
    using w1 ok str write_bytes_spec [OF w1(1), of d]
    by (simp add: write_buffer_def Let_def flush_idle flip: w1_def)
  with w1(2) show "writer_ok (write_buffer w d)"
    "wr_stream (write_buffer w d) = wr_stream w @ enc_buffer (length (wr_stream w)) d"
    by (simp_all add: enc_buffer_def Let_def)
qed

text \<open>
  \<open>finish\<close> pads to a byte, spills the accumulator and puts the padding count in the three bits
  that \<open>new\<close> reserved.
\<close>

lemma flush_final_spec:
  "8 dvd wr_bits w \<Longrightarrow> bytes_bits (wr_buf (flush_final w)) = wr_stream w"
proof (induction w rule: flush_final.induct)
  case (1 w)
  show ?case
  proof (cases "0 < wr_bits w")
    case True
    define q where "q = w\<lparr>wr_buf := wr_buf w @ [ucast (wr_accum w)],
      wr_accum := drop_bit 8 (wr_accum w), wr_bits := wr_bits w - 8\<rparr>"
    have ge: "8 \<le> wr_bits w" using True "1.prems" by (auto elim: dvdE)
    have "word_bits (wr_accum w) (wr_bits w)
        = word_bits (wr_accum w) 8 @ word_bits (drop_bit 8 (wr_accum w)) (wr_bits w - 8)"
      using ge by (metis append_take_drop_id drop_word_bits min.absorb1 take_word_bits)
    then have "wr_stream q = wr_stream w"
      by (simp add: q_def wr_stream_def byte_bits_def word_bits_ucast)
    moreover have "flush_final w = flush_final q"
      unfolding q_def by (subst flush_final.simps) (simp only: True if_True)
    moreover have "8 dvd wr_bits q" using "1.prems" ge by (simp add: q_def dvd_diff_nat)
    ultimately show ?thesis using "1.IH" [OF True, folded q_def] by simp
  next
    case False
    then have "flush_final w = w" by (subst flush_final.simps) (simp only: if_False)
    with False show ?thesis by (simp add: wr_stream_def)
  qed
qed

lemma patch_padding:
  assumes "p < 8"
  shows "byte_bits ((b AND NOT 7) OR (of_nat p AND 7)) = word_bits (of_nat p :: u8) 3 @ drop 3 (byte_bits b)"
    and "unat (((b AND NOT 7) OR (of_nat p AND 7)) AND 7) = (p::nat)"
proof -
  define c where "c = ((b AND NOT 7) OR (of_nat p AND 7) :: u8)"
  have seven: "(7::u8) = mask 3" by (simp add: mask_eq_exp_minus_1)
  have bit: "bit c i \<longleftrightarrow> (if i < 3 then bit (of_nat p :: u8) i else bit b i)" if "i < 8" for i
    using that by (simp add: c_def bit_or_iff bit_and_iff bit_not_iff seven bit_mask_iff)
  show "byte_bits ((b AND NOT 7) OR (of_nat p AND 7)) = word_bits (of_nat p :: u8) 3 @ drop 3 (byte_bits b)"
    unfolding c_def [symmetric]
    by (rule nth_equalityI) (auto simp: byte_bits_def nth_append bit)
  have "of_nat p AND 7 = (of_nat p :: u8)"
    unfolding seven
    by (rule word_unat_eq_iff [THEN iffD2])
      (use assms in \<open>simp add: unsigned_take_bit_eq unat_of_nat take_bit_nat_eq_self flip: take_bit_eq_mask\<close>)
  moreover have "c AND 7 = of_nat p AND 7"
    by (rule bit_word_eqI) (auto simp: bit bit_and_iff seven bit_mask_iff)
  ultimately have "unat (c AND 7) = unat (of_nat p :: u8)" by simp
  with assms show "unat (((b AND NOT 7) OR (of_nat p AND 7)) AND 7) = p"
    unfolding c_def [symmetric] by (simp add: unat_of_nat)
qed

lemma writer_finish_spec:
  assumes ok: "writer_ok w" and l: "3 \<le> length (wr_stream w)"
  defines "p \<equiv> align_len (length (wr_stream w))"
  shows "writer_finish w \<noteq> []"
    "bytes_bits (writer_finish w)
      = word_bits (of_nat p :: u8) 3 @ drop 3 (wr_stream w) @ replicate p False"
    "unat (hd (writer_finish w) AND 7) = p"
proof -
  define w1 where "w1 = flush_final (writer_align_to_byte w)"
  have s: "bytes_bits (wr_buf w1) = wr_stream w @ replicate p False"
  proof -
    have "8 dvd length (wr_stream (writer_align_to_byte w))"
      using align_len(2) by (simp add: align_spec [OF ok])
    then have "8 dvd wr_bits (writer_align_to_byte w)"
      by (simp add: length_wr_stream) (metis dvd_add_right_iff dvd_triv_left)
    then show ?thesis
      unfolding w1_def by (simp add: flush_final_spec align_spec [OF ok] p_def)
  qed
  then obtain b bs where b: "wr_buf w1 = b # bs"
    using l by (cases "wr_buf w1") auto
  have f: "writer_finish w = ((b AND NOT 7) OR (of_nat p AND 7)) # bs"
  proof -
    have "p = (8 - wr_bits w mod 8) mod 8" by (simp add: p_def length_wr_stream align_len_def)
    then show ?thesis
      using b by (simp add: writer_finish_def writer_align_to_byte_def w1_def Let_def)
  qed
  have p8: "p < 8" by (simp add: p_def align_len)
  show "writer_finish w \<noteq> []" by (simp add: f)
  show "unat (hd (writer_finish w) AND 7) = p" using patch_padding(2) [OF p8, of b] by (simp add: f)
  have "drop 3 (byte_bits b @ bytes_bits bs) = drop 3 (wr_stream w @ replicate p False)"
    using s b by simp
  with l show "bytes_bits (writer_finish w)
      = word_bits (of_nat p :: u8) 3 @ drop 3 (wr_stream w) @ replicate p False"
    using patch_padding(1) [OF p8, of b] by (simp add: f)
qed

text \<open>A reader on a finished writer: its stream is what was written after the three bits.\<close>

lemma reopen:
  assumes ok: "writer_ok w" and s: "wr_stream w = [False, False, False] @ s"
    and len: "length s < 2 ^ 31"
  obtains r where "reader_new (writer_finish w) = Inr r" "reader_ok r"
    "rd_stream r = s @ replicate (align_len (3 + length s)) False"
    "rd_padding r = align_len (3 + length s)"
proof -
  define p where "p = align_len (3 + length s)"
  have p: "p < 8" "8 dvd 3 + length s + p"
    using align_len [of "3 + length s"] by (simp_all add: p_def)
  have l3: "3 \<le> length (wr_stream w)" using s by simp
  note F = writer_finish_spec [OF ok l3]
  have pe: "align_len (length (wr_stream w)) = p" by (simp add: s p_def numeral_3_eq_3)
  have bb: "bytes_bits (writer_finish w) = word_bits (of_nat p :: u8) 3 @ s @ replicate p False"
    using F(2) unfolding pe by (simp add: s)
  have lf: "8 * length (writer_finish w) = 3 + length s + p"
    using arg_cong [OF bb, of length] by simp
  show thesis
  proof (rule reader_new_ok [of "writer_finish w"])
    show "writer_finish w \<noteq> []" by (rule F(1))
    show "length (writer_finish w) < 2 ^ 29" using lf len p(1) by simp
    show "3 + unat (hd (writer_finish w) AND 7) \<le> length (writer_finish w) * 8"
      using lf F(3) unfolding pe by simp
    fix r assume "reader_new (writer_finish w) = Inr r" "reader_ok r"
      "rd_stream r = drop 3 (bytes_bits (writer_finish w))"
      "rd_padding r = unat (hd (writer_finish w) AND 7)"
    then show thesis
      using F(3) unfolding pe bb by (intro that [of r]) (simp_all add: p_def)
  qed
qed

end
