(* ===== verification/BitCodec.thy ===== *)
theory BitCodec imports BitWriter begin

text \<open>
  The interface between the bit streams and everything that is stored in them. A codec is a
  write operation on the writer and a read operation on the reader that agree on the bits of a
  value; the bits may depend on the position (a buffer is byte aligned). Whatever satisfies
  the contract reads back what it wrote, alone, in sequence and in lists, through
  \<open>BitWriter::finish\<close> and \<open>BitReader::new\<close>.
\<close>

locale bit_codec =
  fixes put :: "bit_writer \<Rightarrow> 'a \<Rightarrow> bit_writer"
    and get :: "bit_reader \<Rightarrow> ('a \<times> bit_reader) result"
    and enc :: "nat \<Rightarrow> 'a \<Rightarrow> bool list"
    and valid :: "'a \<Rightarrow> bool"
  assumes put_ok: "writer_ok w \<Longrightarrow> valid x \<Longrightarrow> writer_ok (put w x)"
    and put_enc: "writer_ok w \<Longrightarrow> valid x \<Longrightarrow>
      wr_stream (put w x) = wr_stream w @ enc (length (wr_stream w)) x"
    and get_enc: "reader_ok r \<Longrightarrow> valid x \<Longrightarrow> rd_stream r = enc n x @ rest \<Longrightarrow>
      8 dvd n + length (rd_stream r) \<Longrightarrow> rd_padding r \<le> length rest \<Longrightarrow>
      delivers (get r) x rest (rd_padding r)"
begin

lemma round_trip:
  assumes v: "valid x" and len: "length (enc 3 x) < 2 ^ 31"
  shows "\<exists>r r'. reader_new (writer_finish (put writer_new x)) = Inr r \<and> get r = Inr (x, r')"
proof -
  let ?s = "enc 3 x"
  have ok: "writer_ok (put writer_new x)" by (rule put_ok [OF writer_new_spec(1) v])
  have s: "wr_stream (put writer_new x) = [False, False, False] @ ?s"
    using put_enc [OF writer_new_spec(1) v] by (simp add: writer_new_spec(2) numeral_3_eq_3)
  show ?thesis
  proof (rule reopen [OF ok s len])
    fix r assume r: "reader_new (writer_finish (put writer_new x)) = Inr r" "reader_ok r"
      "rd_stream r = ?s @ replicate (align_len (3 + length ?s)) False"
      "rd_padding r = align_len (3 + length ?s)"
    have "8 dvd 3 + length (rd_stream r)"
      using align_len(2) [of "3 + length ?s"] by (simp add: r(3) add.assoc)
    with get_enc [OF r(2) v r(3)] r(4) have "delivers (get r) x
        (replicate (align_len (3 + length ?s)) False) (rd_padding r)" by simp
    with r(1) show ?thesis by (auto simp: delivers_def)
  qed
qed

text \<open>Values one after the other.\<close>

fun enc_list :: "nat \<Rightarrow> 'a list \<Rightarrow> bool list" where
  "enc_list n [] = []"
| "enc_list n (x # xs) = enc n x @ enc_list (n + length (enc n x)) xs"

fun get_list :: "nat \<Rightarrow> bit_reader \<Rightarrow> ('a list \<times> bit_reader) result" where
  "get_list 0 r = Inr ([], r)"
| "get_list (Suc n) r =
     rbind (get r) (\<lambda>(x, r). rbind (get_list n r) (\<lambda>(xs, r). Inr (x # xs, r)))"

lemma put_list_enc:
  "writer_ok w \<Longrightarrow> list_all valid xs \<Longrightarrow>
    writer_ok (foldl put w xs) \<and>
    wr_stream (foldl put w xs) = wr_stream w @ enc_list (length (wr_stream w)) xs"
proof (induction xs arbitrary: w)
  case (Cons x xs)
  then have "valid x" by simp
  with Cons.prems(1) have "writer_ok (put w x)"
    "wr_stream (put w x) = wr_stream w @ enc (length (wr_stream w)) x"
    by (simp_all add: put_ok put_enc)
  with Cons.IH [of "put w x"] Cons.prems(2) show ?case by simp
qed simp

lemma get_list_enc:
  "reader_ok r \<Longrightarrow> list_all valid xs \<Longrightarrow> rd_stream r = enc_list n xs @ rest \<Longrightarrow>
    8 dvd n + length (rd_stream r) \<Longrightarrow> rd_padding r \<le> length rest \<Longrightarrow>
    delivers (get_list (length xs) r) xs rest (rd_padding r)"
proof (induction xs arbitrary: r n)
  case Nil
  then show ?case by (auto intro: deliversI)
next
  case (Cons x xs)
  have "delivers (get r) x (enc_list (n + length (enc n x)) xs @ rest) (rd_padding r)"
    using Cons.prems by (intro get_enc) auto
  then show ?case
    unfolding list.size add_0_right add_Suc_right get_list.simps
  proof (rule delivers_bind, unfold prod.case)
    fix r1 assume r1: "reader_ok r1" "rd_padding r1 = rd_padding r"
      "rd_stream r1 = enc_list (n + length (enc n x)) xs @ rest"
    have "8 dvd (n + length (enc n x)) + length (rd_stream r1)"
      using Cons.prems(3,4) r1(3) by (simp add: add.assoc)
    with Cons.IH [OF r1(1) _ r1(3)] Cons.prems(2,5) r1(2)
    have "delivers (get_list (length xs) r1) xs rest (rd_padding r)" by simp
    then show "delivers (rbind (get_list (length xs) r1) (\<lambda>(xs, r). Inr (x # xs, r)))
        (x # xs) rest (rd_padding r)"
      by (rule delivers_bind) (auto intro: deliversI)
  qed
qed

lemma list_round_trip:
  assumes v: "list_all valid xs" and len: "length (enc_list 3 xs) < 2 ^ 31"
  shows "\<exists>r r'. reader_new (writer_finish (foldl put writer_new xs)) = Inr r
    \<and> get_list (length xs) r = Inr (xs, r')"
proof -
  let ?w = "foldl put writer_new xs"
  let ?p = "align_len (3 + length (enc_list 3 xs))"
  have w: "writer_ok ?w" "wr_stream ?w = [False, False, False] @ enc_list 3 xs"
    using put_list_enc [OF writer_new_spec(1) v] by (simp_all add: writer_new_spec(2) numeral_3_eq_3)
  show ?thesis
  proof (rule reopen [OF w len])
    fix r assume r: "reader_new (writer_finish ?w) = Inr r" "reader_ok r"
      "rd_stream r = enc_list 3 xs @ replicate ?p False" "rd_padding r = ?p"
    have "8 dvd 3 + length (rd_stream r)"
      using align_len(2) [of "3 + length (enc_list 3 xs)"] by (simp add: r(3) add.assoc)
    from get_list_enc [OF r(2) v r(3) this] r(4) have
      "delivers (get_list (length xs) r) xs (replicate ?p False) (rd_padding r)" by simp
    with r(1) show ?thesis by (auto simp: delivers_def)
  qed
qed

lemma enc_list_bound:
  "(\<And>n x. x \<in> set xs \<Longrightarrow> length (enc n x) \<le> b) \<Longrightarrow> length (enc_list n xs) \<le> b * length xs"
proof (induction xs arbitrary: n)
  case (Cons x xs)
  have "length (enc n x) \<le> b" "length (enc_list (n + length (enc n x)) xs) \<le> b * length xs"
    using Cons by auto
  then show ?case by simp
qed simp

lemma lists: "bit_codec (foldl put) (get_list k) enc_list (\<lambda>xs. length xs = k \<and> list_all valid xs)"
proof (unfold_locales, goal_cases)
  case (3 r xs n rest)
  then show ?case using get_list_enc [OF 3(1) _ 3(3,4,5)] by simp
qed (simp_all add: put_list_enc)

end

text \<open>One codec after another.\<close>

locale codec_pair =
  a: bit_codec put1 get1 enc1 valid1 + b: bit_codec put2 get2 enc2 valid2
  for put1 :: "bit_writer \<Rightarrow> 'a \<Rightarrow> bit_writer" and get1 enc1 valid1
    and put2 :: "bit_writer \<Rightarrow> 'b \<Rightarrow> bit_writer" and get2 enc2 valid2
begin

sublocale pair: bit_codec
  "\<lambda>w (x, y). put2 (put1 w x) y"
  "\<lambda>r. rbind (get1 r) (\<lambda>(x, r). rbind (get2 r) (\<lambda>(y, r). Inr ((x, y), r)))"
  "\<lambda>n (x, y). enc1 n x @ enc2 (n + length (enc1 n x)) y"
  "\<lambda>(x, y). valid1 x \<and> valid2 y"
proof (unfold_locales, goal_cases)
  case (1 w p)
  then show ?case by (auto simp: a.put_ok b.put_ok split: prod.splits)
next
  case (2 w p)
  then show ?case by (auto simp: a.put_ok a.put_enc b.put_enc split: prod.splits)
next
  case (3 r p n rest)
  obtain x y where p: "p = (x, y)" by (cases p)
  from 3 p have v: "valid1 x" "valid2 y"
    and s: "rd_stream r = enc1 n x @ enc2 (n + length (enc1 n x)) y @ rest" by simp_all
  have "delivers (get1 r) x (enc2 (n + length (enc1 n x)) y @ rest) (rd_padding r)"
    using 3(1,4,5) v(1) s by (intro a.get_enc) auto
  then show ?case unfolding p
  proof (rule delivers_bind, unfold prod.case)
    fix r1 assume r1: "reader_ok r1" "rd_padding r1 = rd_padding r"
      "rd_stream r1 = enc2 (n + length (enc1 n x)) y @ rest"
    have "8 dvd (n + length (enc1 n x)) + length (rd_stream r1)"
      using 3(4) s r1(3) by (simp add: add.assoc)
    with b.get_enc [OF r1(1) v(2) r1(3)] 3(5) r1(2)
    have "delivers (get2 r1) y rest (rd_padding r)" by simp
    then show "delivers (rbind (get2 r1) (\<lambda>(y, r). Inr ((x, y), r))) (x, y) rest (rd_padding r)"
      by (rule delivers_bind) (auto intro: deliversI)
  qed
qed

end

section \<open>The codecs of the bit stream itself\<close>

text \<open>A fixed number of bits, the two variable-length integers, buffers.\<close>

lemma read_field:
  assumes "reader_ok r" "rd_stream r = word_bits v k @ rest" "k \<le> 64" "take_bit k v = v"
  shows "delivers (read_bits r k) v rest (rd_padding r)"
  using read_bits_delivers [OF assms(1,3)] assms(2,4) by (simp add: bits_val_word_bits)

lemma bits_codec: "bit_codec (\<lambda>w v. write_bits w v k) (\<lambda>r. read_bits r k)
    (\<lambda>_ v. word_bits v k) (\<lambda>v. k \<le> 64 \<and> take_bit k v = v)"
proof (unfold_locales, goal_cases)
  case (3 r x n rest)
  then have l: "k \<le> length (rd_stream r)" "take k (rd_stream r) = word_bits x k"
    "drop k (rd_stream r) = rest" by simp_all
  show ?case
    using read_bits_delivers [OF 3(1) _ l(1)] 3(2) l by (simp add: bits_val_word_bits)
qed (simp_all add: write_bits_spec)

interpretation bits: bit_codec "\<lambda>w v. write_bits w v k" "\<lambda>r. read_bits r k"
  "\<lambda>_ v. word_bits v k" "\<lambda>v. k \<le> 64 \<and> take_bit k v = v" for k
  by (rule bits_codec)

interpretation varint: bit_codec write_i64 read_i64 "\<lambda>_. enc_i64" "\<lambda>_. True"
proof (unfold_locales, goal_cases)
  case (3 r x n rest)
  have "delivers (read_i64 r) (bits_val (word_bits x (4 * (i64_nibbles x + 1)))) rest (rd_padding r)"
    by (rule read_i64_delivers [OF 3(1), where k = "i64_nibbles x"])
      (use 3 i64_nibbles_le in \<open>simp_all add: enc_i64_def\<close>)
  then show ?case by (simp only: bits_val_word_bits i64_nibbles_fits)
qed (simp_all add: write_i64_spec)

interpretation number: bit_codec write_u32_number read_u32_number "\<lambda>_. enc_u32_number"
  "\<lambda>v. 256 \<le> v"
proof (unfold_locales, goal_cases)
  case (3 r x n rest)
  define k where "k = 23 - leading_zeros x"
  note T = u32_number_top [OF 3(2), folded k_def]
  have k23: "k \<le> 23" by (simp add: k_def)
  have kh: "k + 8 = 31 - leading_zeros x" using T(1,4) by simp
  have "delivers (read_u32_number r) (push_bit (k + 8) 1 OR bits_val (word_bits x (k + 8)))
      rest (rd_padding r)"
    by (rule read_u32_number_delivers [OF 3(1), where k = k])
      (use 3 k23 in \<open>simp_all add: enc_u32_number_def Let_def flip: k_def\<close>)
  then show ?case by (simp only: bits_val_word_bits kh T(3))
qed (simp_all add: write_u32_number_spec)

interpretation buffer: bit_codec write_buffer read_buffer enc_buffer "\<lambda>d. length d < 2 ^ 29"
proof (unfold_locales, goal_cases)
  case (3 r d n rest)
  let ?e = "enc_i64 (of_nat (length d))"
  let ?z = "replicate (align_len (n + length ?e)) False"
  have s: "rd_stream r = ?e @ ?z @ bytes_bits d @ rest"
    using 3(3) by (simp add: enc_buffer_def Let_def)
  show ?case
  proof (rule read_buffer_delivers [OF 3(1)])
    show "delivers (read_i64 r) (of_nat (length d)) (?z @ bytes_bits d @ rest) (rd_padding r)"
      using 3 s by (intro varint.get_enc [where n = n]) auto
    show "length ?z < 8" by (simp add: align_len)
    have "8 dvd (n + length ?e + align_len (n + length ?e)) + (8 * length d + length rest)"
      using 3(4) s by (simp add: algebra_simps)
    then have "8 dvd 8 * length d + length rest"
      using align_len(2) [of "n + length ?e"] by (metis dvd_add_right_iff)
    then show "8 dvd length rest" by (metis dvd_add_right_iff dvd_triv_left)
  qed (use 3 in auto)
qed (simp_all add: write_buffer_spec)

section \<open>Properties of the bit streams\<close>

lemma enc_i64_length: "length (enc_i64 v) \<le> 80"
  using i64_nibbles_le [of v] by (simp add: enc_i64_def)

text \<open>
  C10. Any sequence of up to \<open>2 ^ 20\<close> 64-bit integers that \<open>BitWriter::write_i64\<close> puts into a
  fresh writer is read back by \<open>BitReader::read_i64\<close> from the bytes of \<open>BitWriter::finish\<close>,
  whatever the values are and however their nibble counts cross the refills of the accumulator.
\<close>

theorem varints_round_trip:
  assumes "length vs \<le> 2 ^ 20"
  shows "\<exists>r r'. reader_new (writer_finish (foldl write_i64 writer_new vs)) = Inr r
    \<and> varint.get_list (length vs) r = Inr (vs, r')"
proof (rule varint.list_round_trip)
  show "length (varint.enc_list 3 vs) < 2 ^ 31"
    using varint.enc_list_bound [of vs 80 3] enc_i64_length assms by simp
qed (simp add: list_all_iff)

theorem varints_round_trip_witness:
  "\<exists>r r'. reader_new (writer_finish (foldl write_i64 writer_new [0, 5, -1, 2 ^ 62])) = Inr r
    \<and> varint.get_list (length [0, 5, -1, 2 ^ 62 :: i64]) r = Inr ([0, 5, -1, 2 ^ 62], r')"
  by (rule varints_round_trip) simp

text \<open>A field of bits and a byte-aligned buffer behind it.\<close>

interpretation field_buffer: codec_pair "\<lambda>w v. write_bits w v k" "\<lambda>r. read_bits r k"
  "\<lambda>_ v. word_bits v k" "\<lambda>v. k \<le> 64 \<and> take_bit k v = v"
  write_buffer read_buffer enc_buffer "\<lambda>d. length d < 2 ^ 29" for k
  by unfold_locales

text \<open>
  \<open>BitWriter::write_buffer\<close> and \<open>BitReader::read_buffer\<close> agree behind any number of bits:
  after a field of \<open>k\<close> bits, the length, the alignment padding and the payload are
  found again, and the reader returns the field and the very bytes.
\<close>

lemma field_buffer_round_trip:
  assumes "k \<le> 64" "take_bit k v = v" "length d < 2 ^ 27"
  shows "\<exists>r r1 r2. reader_new (writer_finish (write_buffer (write_bits writer_new v k) d)) = Inr r
    \<and> read_bits r k = Inr (v, r1) \<and> read_buffer r1 = Inr (d, r2)"
proof -
  have "length (enc_buffer n d) \<le> 80 + 7 + 8 * length d" for n
    using enc_i64_length [of "of_nat (length d)"] align_len(1) [of "n + length (enc_i64 (of_nat (length d)))"]
    unfolding enc_buffer_def Let_def by simp
  from this [of "3 + k"] show ?thesis
    using field_buffer.pair.round_trip [of k "(v, d)"] assms
    by (fastforce elim!: rbind_eq_InrE)
qed

lemma field_buffer_round_trip_instance:
  "\<exists>r r1 r2. reader_new (writer_finish (write_buffer (write_bits writer_new 5 3) [1, 2, 3])) = Inr r
    \<and> read_bits r 3 = Inr (5, r1) \<and> read_buffer r1 = Inr ([1, 2, 3], r2)"
  by (rule field_buffer_round_trip) (simp_all add: take_bit_eq_mask mask_eq_exp_minus_1)

text \<open>
  C19. \<open>BitReader::read_bits\<close> is exact for every width that it allows, 0 to 64: from a good reader
  it returns the value of the next \<open>n\<close> bits of the stream and leaves a good reader at the bits
  behind them, and when fewer are left it fails with \<open>BitstreamExhausted\<close>. Up to 56 bits the error
  names \<open>n\<close> and the bits left; above, the read is made in two parts and the error names the part
  that failed: the first 32 bits, or the other \<open>n - 32\<close> and the bits left behind the first.
\<close>

theorem read_bits_exact:
  assumes "reader_ok r" "n \<le> 64"
  shows "if n \<le> length (rd_stream r)
    then \<exists>r'. read_bits r n = Inr (bits_val (take n (rd_stream r)), r') \<and> reader_ok r'
      \<and> rd_stream r' = drop n (rd_stream r) \<and> rd_padding r' = rd_padding r
    else read_bits r n = Inl
      (if n \<le> 56 then BitstreamExhausted n (length (rd_stream r))
       else if length (rd_stream r) < 32 then BitstreamExhausted 32 (length (rd_stream r))
       else BitstreamExhausted (n - 32) (length (rd_stream r) - 32))"
  using read_bits_delivers [OF assms] read_bits_exhausted [OF assms(1), of n]
    read_bits_exhausted_wide [OF assms(1) _ assms(2)]
  by (auto simp: delivers_def)

theorem read_bits_exact_witness:
  "read_bits \<lparr>rd_data = [0, 0, 0, 0, 0], rd_pos = 5, rd_accum = 0, rd_bits = 40, rd_padding = 0\<rparr> 60
    = Inl (BitstreamExhausted 28 8)"
  using read_bits_exact [of "\<lparr>rd_data = [0, 0, 0, 0, 0], rd_pos = 5, rd_accum = 0, rd_bits = 40, rd_padding = 0\<rparr>" 60]
  by (simp add: reader_ok_def accum_ok_def rd_stream_def unread_def)
end
