(* ===== verification/Huffman.thy ===== *)
theory Huffman
  imports BitCodec
begin

text \<open>
  \<open>src/huffman.rs\<close>: the table built from code lengths, symbol decoding by trailing-zero count
  and one lookup, symbol encoding with bit-reversed canonical codes. Code lengths and the
  counters derived from them are natural numbers (a length is at most 16 after the first check,
  the counters are bounded by the number of symbols); codes and masks are \<open>u32\<close>.
\<close>

section \<open>The table\<close>

record slot =
  slot_mask :: u32
  slot_offset :: nat

record decode_entry =
  ent_symbol :: u16
  ent_len :: nat

record huffman_table =
  ht_slots :: "slot list"
  ht_entries :: "decode_entry list"
  ht_lengths :: "nat list"
  ht_codes :: "u32 list"

definition max_code_len :: nat where
  "max_code_len = 16"

abbreviation default_slot :: slot where
  "default_slot \<equiv> \<lparr>slot_mask = 0, slot_offset = 0\<rparr>"

abbreviation default_entry :: decode_entry where
  "default_entry \<equiv> \<lparr>ent_symbol = 0, ent_len = 0\<rparr>"

definition empty_table :: huffman_table where
  "empty_table = \<lparr>ht_slots = replicate 32 default_slot, ht_entries = [], ht_lengths = [], ht_codes = []\<rparr>"

text \<open>Symbols per length, and the first code of each length, from the longest down.\<close>

definition length_counts :: "nat \<Rightarrow> nat list \<Rightarrow> nat list" where
  "length_counts max_len lens =
     (foldl (\<lambda>c l. c[l := c ! l + 1]) (replicate (max_len + 1) 0) lens)[0 := 0]"

definition base_codes :: "nat \<Rightarrow> nat list \<Rightarrow> nat list" where
  "base_codes max_len cnt =
     fst (foldl (\<lambda>(base, acc) l. (base[l := acc], (acc + cnt ! l) div 2))
       (replicate (max_len + 1) 0, 0) (rev [1..<max_len + 1]))"

fun reverse_bits :: "nat \<Rightarrow> u32 \<Rightarrow> u32 \<Rightarrow> u32" where
  "reverse_bits 0 reversed c = reversed"
| "reverse_bits (Suc n) reversed c = reverse_bits n (push_bit 1 reversed OR (c AND 1)) (drop_bit 1 c)"

definition assign_step :: "nat list \<times> u32 list \<Rightarrow> nat \<times> nat \<Rightarrow> nat list \<times> u32 list" where
  "assign_step = (\<lambda>(assigned, codes) (symb, l).
     if l = 0 then (assigned, codes)
     else
       let canonical = assigned ! l
       in (assigned[l := canonical + 1], codes[symb := reverse_bits l 0 (of_nat canonical)]))"

definition assign_codes :: "nat list \<Rightarrow> nat list \<Rightarrow> u32 list" where
  "assign_codes base lens =
     snd (foldl assign_step (base, replicate (length lens) 0) (enumerate 0 lens))"

text \<open>The widest extra field per trailing-zero count, and the largest count used.\<close>

definition extra_step :: "u32 list \<Rightarrow> nat list \<times> nat \<Rightarrow> nat \<times> nat \<Rightarrow> nat list \<times> nat" where
  "extra_step codes = (\<lambda>(max_extra, max_slot) (symb, l).
     if l = 0 \<or> codes ! symb = 0 then (max_extra, max_slot)
     else
       let ctz = trailing_zeros (codes ! symb);
           extra = l - ctz - 1
       in (if extra > max_extra ! ctz then max_extra[ctz := extra] else max_extra,
           if ctz > max_slot then ctz else max_slot))"

definition extra_table :: "u32 list \<Rightarrow> nat list \<Rightarrow> nat list \<times> nat" where
  "extra_table codes lens = foldl (extra_step codes) (replicate 32 0, 0) (enumerate 0 lens)"

definition make_slots :: "nat list \<Rightarrow> nat \<Rightarrow> slot list \<times> nat" where
  "make_slots max_extra max_slot =
     (let (slots, total_entries) = foldl (\<lambda>(slots, total_entries) i.
            let m = (if max_extra ! i = 0 then 0 else mask (max_extra ! i)) :: u32
            in (slots @ [\<lparr>slot_mask = m, slot_offset = total_entries\<rparr>], total_entries + unat m + 1))
          ([], 0) [0..<max_slot + 1]
      in (slots @ replicate (32 - (max_slot + 1)) \<lparr>slot_mask = 0, slot_offset = total_entries\<rparr>, total_entries))"

text \<open>The writes of one symbol into the decode entries: every value of the unused extra bits.\<close>

definition fill_writes ::
  "u32 list \<Rightarrow> nat list \<Rightarrow> slot list \<Rightarrow> nat \<times> nat \<Rightarrow> (nat \<times> decode_entry) list" where
  "fill_writes codes max_extra slots = (\<lambda>(symb, l).
     if l = 0 \<or> codes ! symb = 0 then []
     else
       let code = codes ! symb;
           ctz = trailing_zeros code;
           extra = l - ctz - 1;
           shifted = drop_bit (ctz + 1) code;
           slot = slots ! ctz;
           base = unat (shifted AND slot_mask slot) + slot_offset slot;
           fill = 2 ^ (max_extra ! ctz - extra);
           stride = 2 ^ extra
       in map (\<lambda>f. (base + f * stride, \<lparr>ent_symbol = of_nat symb, ent_len = l\<rparr>)) [0..<fill])"

definition write_entries :: "decode_entry list \<Rightarrow> (nat \<times> decode_entry) list \<Rightarrow> decode_entry list" where
  "write_entries es ws = foldl (\<lambda>es (i, e). es[i := e]) es ws"

definition zero_code_entry :: "u32 list \<Rightarrow> nat list \<Rightarrow> nat \<Rightarrow> decode_entry list \<Rightarrow> decode_entry list" where
  "zero_code_entry codes lens total_entries es =
     (case find (\<lambda>(symb, l). l > 0 \<and> codes ! symb = 0) (enumerate 0 lens) of
        None \<Rightarrow> es
      | Some (symb, l) \<Rightarrow> es[total_entries := \<lparr>ent_symbol = of_nat symb, ent_len = l\<rparr>])"

definition table_of :: "nat \<Rightarrow> nat list \<Rightarrow> huffman_table" where
  "table_of max_len lens =
     (let cnt = length_counts max_len lens;
          base = base_codes max_len cnt;
          codes = assign_codes base lens;
          (max_extra, max_slot) = extra_table codes lens;
          (slots, total_entries) = make_slots max_extra max_slot;
          es = write_entries (replicate (total_entries + 1) default_entry)
                 (concat (map (fill_writes codes max_extra slots) (enumerate 0 lens)))
      in \<lparr>ht_slots = slots, ht_entries = zero_code_entry codes lens total_entries es,
          ht_lengths = lens, ht_codes = codes\<rparr>)"

definition from_lengths :: "nat list \<Rightarrow> huffman_table result" where
  "from_lengths lens =
     (if lens = [] then Inr empty_table
      else
        let max_len = Max (set lens)
        in if max_len > max_code_len then Inl (Malformed ''huffman code length exceeds maximum'')
           else if max_len = 0 then
             Inr \<lparr>ht_slots = replicate 32 default_slot, ht_entries = [], ht_lengths = lens,
                  ht_codes = replicate (length lens) 0\<rparr>
           else Inr (table_of max_len lens))"

section \<open>Symbols\<close>

definition read_symbol :: "huffman_table \<Rightarrow> bit_reader \<Rightarrow> (u16 \<times> bit_reader) result" where
  "read_symbol t r =
     (if ht_entries t = [] then Inl (Malformed ''empty huffman table'')
      else rbind (ensure_bits r (min 16 (remaining r))) (\<lambda>r.
        let accum = (ucast (peek r (min (buffered r) 32)) :: u32);
            with_sentinel = accum OR 0x80000000;
            ctz = trailing_zeros with_sentinel;
            slot = ht_slots t ! ctz;
            shifted = (if ctz \<ge> 31 then 0 else drop_bit (ctz + 1) with_sentinel);
            idx = unat (shifted AND slot_mask slot) + slot_offset slot
        in if idx \<ge> length (ht_entries t)
           then Inl (Malformed ''huffman table index out of bounds'')
           else
             let entry = ht_entries t ! idx
             in if ent_len entry = 0 then Inl (Malformed ''decoded symbol has zero length'')
                else Inr (ent_symbol entry, consume_unchecked r (ent_len entry))))"

definition write_symbol :: "huffman_table \<Rightarrow> bit_writer \<Rightarrow> u16 \<Rightarrow> bit_writer" where
  "write_symbol t w symb =
     write_bits w (ucast (ht_codes t ! unat symb)) (ht_lengths t ! unat symb)"

section \<open>Counts and first codes\<close>

lemma foldl_count:
  "\<forall>l\<in>set lens. l < length c \<Longrightarrow>
    length (foldl (\<lambda>c l. c[l := c ! l + 1]) c lens) = length c \<and>
    (\<forall>l<length c. foldl (\<lambda>c l. c[l := c ! l + 1]) c lens ! l = c ! l + count_list lens l)"
  for c :: "nat list"
proof (induction lens arbitrary: c)
  case (Cons x xs)
  from Cons.prems Cons.IH [of "c[x := c ! x + 1]"] show ?case by (auto simp: nth_list_update)
qed simp

lemma length_counts_nth:
  assumes "\<forall>l\<in>set lens. l \<le> m" "0 < l" "l \<le> m"
  shows "length_counts m lens ! l = count_list lens l"
  using foldl_count [of lens "replicate (m + 1) 0"] assms
  by (auto simp: length_counts_def less_Suc_eq_le nth_list_update simp del: replicate.simps replicate_Suc)

lemma base_fold:
  fixes cnt b :: "nat list" and acc m :: nat
  assumes "m < length b"
  defines "r \<equiv> fst (foldl (\<lambda>(base, acc) l. (base[l := acc], (acc + cnt ! l) div 2)) (b, acc) (rev [1..<m + 1]))"
  shows "length r = length b \<and> (\<forall>j>m. r ! j = b ! j) \<and> (0 < m \<longrightarrow> r ! m = acc)
    \<and> (\<forall>l\<ge>1. l < m \<longrightarrow> r ! l = (r ! (l + 1) + cnt ! (l + 1)) div 2)"
  using assms(1) unfolding r_def
proof (induction m arbitrary: b acc)
  case (Suc m)
  let ?r = "fst (foldl (\<lambda>(base, acc) l. (base[l := acc], (acc + cnt ! l) div 2)) (b, acc) (rev [1..<Suc m + 1]))"
  let ?b = "b[Suc m := acc]" and ?a = "(acc + cnt ! Suc m) div 2"
  let ?r' = "fst (foldl (\<lambda>(base, acc) l. (base[l := acc], (acc + cnt ! l) div 2)) (?b, ?a) (rev [1..<m + 1]))"
  have eq: "?r = ?r'" by simp
  have IH: "length ?r' = length b" "\<And>j. m < j \<Longrightarrow> ?r' ! j = ?b ! j" "0 < m \<Longrightarrow> ?r' ! m = ?a"
    "\<And>l. 1 \<le> l \<Longrightarrow> l < m \<Longrightarrow> ?r' ! l = (?r' ! (l + 1) + cnt ! (l + 1)) div 2"
    using Suc.IH [of ?b ?a] Suc.prems by simp_all
  have top: "?r' ! Suc m = acc" using IH(2) [of "Suc m"] Suc.prems by simp
  show ?case unfolding eq
  proof (intro conjI allI impI)
    show "length ?r' = length b" by (rule IH)
    show "?r' ! j = b ! j" if "Suc m < j" for j using IH(2) [of j] that by simp
    show "?r' ! Suc m = acc" by (rule top)
    fix l assume l: "1 \<le> l" "l < Suc m"
    show "?r' ! l = (?r' ! (l + 1) + cnt ! (l + 1)) div 2"
    proof (cases "l = m")
      case True
      then show ?thesis using IH(3) top l by simp
    next
      case False
      then show ?thesis using IH(4) [of l] l by simp
    qed
  qed
qed simp

lemma base_codes_spec:
  "length (base_codes m cnt) = m + 1"
  "0 < m \<Longrightarrow> base_codes m cnt ! m = 0"
  "1 \<le> l \<Longrightarrow> l < m \<Longrightarrow> base_codes m cnt ! l
     = (base_codes m cnt ! (l + 1) + cnt ! (l + 1)) div 2"
  using base_fold [where m = m and b = "replicate (m + 1) 0" and acc = 0 and cnt = cnt] unfolding base_codes_def
  by (simp_all del: replicate.simps replicate_Suc)

text \<open>
  With a complete set of lengths the halving never drops a code: the number of codes and
  internal nodes at every depth is even and there are two at depth one.
\<close>

lemma kraft_levels:
  fixes N c :: "nat \<Rightarrow> nat"
  assumes m: "1 \<le> m" and top: "N m = c m"
    and rec: "\<And>l. 1 \<le> l \<Longrightarrow> l < m \<Longrightarrow> N l = N (l + 1) div 2 + c l"
    and sum: "(\<Sum>l = 1..m. c l * 2 ^ (m - l)) = 2 ^ m"
    and l: "1 \<le> l" "l \<le> m"
  shows "N l * 2 ^ (m - l) = (\<Sum>j = l..m. c j * 2 ^ (m - j)) \<and> even (N l) \<and> N l \<le> 2 ^ l"
  using l(2,1)
proof (induction l rule: inc_induct)
  have ev: "even (N l) \<and> N l \<le> 2 ^ l" if eq: "N l * 2 ^ (m - l) = (\<Sum>j = l..m. c j * 2 ^ (m - j))"
    and l: "1 \<le> l" "l \<le> m" for l
  proof -
    have "{1..m} = {1..<l} \<union> {l..m}" "{1..<l} \<inter> {l..m} = {}" using l by auto
    then have s: "(\<Sum>j = 1..<l. c j * 2 ^ (m - j)) + N l * 2 ^ (m - l) = 2 ^ m"
      using sum unfolding eq by (metis finite_atLeastAtMost finite_atLeastLessThan sum.union_disjoint)
    have p: "(2::nat) ^ (m - l + 1) dvd 2 ^ m" by (rule le_imp_power_dvd) (use l in simp)
    have "2 ^ (m - l + 1) dvd (\<Sum>j = 1..<l. c j * 2 ^ (m - j))"
      by (rule dvd_sum, rule dvd_mult, rule le_imp_power_dvd) (use l in auto)
    with p s have "2 ^ (m - l + 1) dvd N l * 2 ^ (m - l)" by (metis dvd_add_right_iff)
    then have "2 ^ (m - l) * 2 dvd 2 ^ (m - l) * N l" by (simp add: mult.commute)
    then have "even (N l)" by (simp only: nat_mult_dvd_cancel_disj) simp
    moreover have "N l * 2 ^ (m - l) \<le> 2 ^ l * 2 ^ (m - l)"
      using s l by (simp flip: power_add)
    then have "N l \<le> 2 ^ l" by simp
    ultimately show ?thesis ..
  qed
  {
    case base
    have "N m * 2 ^ (m - m) = (\<Sum>j = m..m. c j * 2 ^ (m - j))" by (simp add: top)
    with ev [of m] m show ?case by blast
  next
    case (step n)
    have "N n * 2 ^ (m - n) = (\<Sum>j = n..m. c j * 2 ^ (m - j))"
    proof -
      have h: "N (n + 1) div 2 * 2 = N (n + 1)" using step by simp
      have "2 ^ (m - n) = 2 * (2::nat) ^ (m - Suc n)"
        using step(2) by (metis Suc_diff_Suc power_Suc)
      then have "N n * 2 ^ (m - n) = N (n + 1) * 2 ^ (m - Suc n) + c n * 2 ^ (m - n)"
        using rec [of n] step(2) \<open>1 \<le> n\<close> h by (simp add: algebra_simps) 
      also have "\<dots> = (\<Sum>j = n..m. c j * 2 ^ (m - j))"
        using step by (simp add: sum.atLeast_Suc_atMost)
      finally show ?thesis .
    qed
    with ev [of n] step show ?case by auto
  }
qed

section \<open>The codes\<close>

lemma reverse_bits_bits:
  "n \<le> 32 \<Longrightarrow> (\<And>i. 32 - n \<le> i \<Longrightarrow> \<not> bit r i) \<Longrightarrow>
    bit (reverse_bits n r c) i \<longleftrightarrow> (if i < n then bit c (n - 1 - i) else bit r (i - n))"
proof (induction n arbitrary: r c)
  case (Suc n)
  let ?r = "push_bit 1 r OR (c AND 1)"
  have b: "bit ?r j \<longleftrightarrow> j < 32 \<and> (if j = 0 then bit c 0 else bit r (j - 1))" for j
    unfolding bit_or_iff bit_push_bit_iff bit_and_iff bit_1_iff by auto
  have "\<not> bit ?r j" if "32 - n \<le> j" for j
    using Suc.prems(1) Suc.prems(2) [of "j - 1"] that unfolding b by auto
  from Suc.IH [OF _ this, of "drop_bit 1 c"] Suc.prems(1)
  have IH: "bit (reverse_bits (Suc n) r c) i
      \<longleftrightarrow> (if i < n then bit c (n - i) else bit ?r (i - n))" by (auto simp: bit_drop_bit_eq Suc_diff_Suc)
  have "\<not> bit r (i - Suc n)" if "32 \<le> i - n" using Suc.prems(2) [of "i - Suc n"] that by simp
  then show ?case unfolding IH b by (cases "32 \<le> i - n") auto
qed simp

definition code_stream :: "u32 list \<Rightarrow> nat list \<Rightarrow> nat \<Rightarrow> bool list" where
  "code_stream codes lens s = word_bits (codes ! s) (lens ! s)"

lemma reverse_bits_stream:
  assumes "n \<le> 32"
  shows "word_bits (reverse_bits n 0 c) n = rev (word_bits c n)"
    and "n \<le> i \<Longrightarrow> \<not> bit (reverse_bits n 0 c) i"
  using reverse_bits_bits [OF assms, of 0 c]
  by (auto intro!: nth_equalityI simp: rev_nth)

lemma assign_fold:
  assumes "\<forall>l\<in>set lens. l < length base" "length lens \<le> length codes0"
  defines "r \<equiv> foldl assign_step (base, codes0) (enumerate 0 lens)"
  shows "length (fst r) = length base \<and> length (snd r) = length codes0
    \<and> (\<forall>l. 0 < l \<longrightarrow> l < length base \<longrightarrow> fst r ! l = base ! l + count_list lens l)
    \<and> (\<forall>s<length lens. 0 < lens ! s \<longrightarrow> snd r ! s
        = reverse_bits (lens ! s) 0 (of_nat (base ! (lens ! s) + count_list (take s lens) (lens ! s))))"
  using assms(1,2) unfolding r_def
proof (induction lens rule: rev_induct)
  case (snoc x xs)
  obtain a cs where r: "foldl assign_step (base, codes0) (enumerate 0 xs) = (a, cs)"
    by (cases "foldl assign_step (base, codes0) (enumerate 0 xs)")
  have IH: "length a = length base" "length cs = length codes0"
    "\<And>l. 0 < l \<Longrightarrow> l < length base \<Longrightarrow> a ! l = base ! l + count_list xs l"
    "\<And>s. s < length xs \<Longrightarrow> 0 < xs ! s \<Longrightarrow> cs ! s
        = reverse_bits (xs ! s) 0 (of_nat (base ! (xs ! s) + count_list (take s xs) (xs ! s)))"
    using snoc r by simp_all
  have step: "foldl assign_step (base, codes0) (enumerate 0 (xs @ [x])) = assign_step (a, cs) (length xs, x)"
    by (simp add: enumerate_append_eq r)
  have "x < length base" "length xs < length codes0" using snoc.prems by simp_all
  then show ?case
    unfolding step using IH
    by (auto simp: assign_step_def Let_def nth_list_update nth_append less_Suc_eq count_list_append)
qed simp

definition kraft :: "nat \<Rightarrow> nat list \<Rightarrow> nat" where
  "kraft m lens = (\<Sum>l\<leftarrow>lens. if l = 0 then 0 else 2 ^ (m - l))"

text \<open>Complete lengths: at most 16, not all zero, and the Kraft sum is exactly one.\<close>

definition complete :: "nat list \<Rightarrow> bool" where
  "complete lens \<longleftrightarrow> (\<forall>l\<in>set lens. l \<le> 16) \<and> kraft 16 lens = 2 ^ 16"

lemma kraft_counts:
  "\<forall>l\<in>set lens. l \<le> m \<Longrightarrow> kraft m lens = (\<Sum>l = 1..m. count_list lens l * 2 ^ (m - l))"
proof (induction lens)
  case (Cons x xs)
  have "(\<Sum>l = 1..m. count_list (x # xs) l * 2 ^ (m - l))
      = (\<Sum>l = 1..m. count_list xs l * 2 ^ (m - l) + (if x = l then 2 ^ (m - l) else 0))"
    by (rule sum.cong) (auto simp: algebra_simps)
  also have "\<dots> = (\<Sum>l = 1..m. count_list xs l * 2 ^ (m - l)) + (if x \<in> {1..m} then 2 ^ (m - x) else 0)"
    by (simp add: sum.distrib)
  finally show ?case using Cons by (simp add: kraft_def)
qed (simp add: kraft_def)

lemma kraft_shift:
  "\<forall>l\<in>set lens. l \<le> m \<Longrightarrow> m \<le> n \<Longrightarrow> kraft n lens = 2 ^ (n - m) * kraft m lens"
proof (induction lens)
  case (Cons x xs)
  then have "2 ^ (n - x) = (2::nat) ^ (n - m) * 2 ^ (m - x)" by (simp flip: power_add)
  with Cons show ?case by (simp add: kraft_def algebra_simps)
qed (simp add: kraft_def)

text \<open>What the rest of the proof needs of the canonical numbers.\<close>

lemma complete_bases:
  assumes c: "complete lens"
  defines "m \<equiv> Max (set lens)" and "b \<equiv> \<lambda>l. base_codes (Max (set lens)) (length_counts (Max (set lens)) lens) ! l"
  shows "1 \<le> m" "m \<le> 16" "\<And>l. l \<in> set lens \<Longrightarrow> l \<le> m"
    and "b m = 0" and "2 \<le> count_list lens m"
    and "1 \<le> l \<Longrightarrow> l \<le> m \<Longrightarrow> b l + count_list lens l \<le> 2 ^ l"
    and "1 \<le> l \<Longrightarrow> l < l' \<Longrightarrow> l' \<le> m \<Longrightarrow> b l' + count_list lens l' \<le> b l * 2 ^ (l' - l)"
    and "1 \<le> l \<Longrightarrow> l < m \<Longrightarrow> 0 < b l"
proof -
  have ne: "lens \<noteq> []" using c by (auto simp: complete_def kraft_def)
  have le: "l \<le> m" if "l \<in> set lens" for l using that by (simp add: m_def)
  then show "\<And>l. l \<in> set lens \<Longrightarrow> l \<le> m" .
  have m_in: "m \<in> set lens" using ne by (simp add: m_def)
  then show m16: "m \<le> 16" using c by (simp add: complete_def)
  show m1: "1 \<le> m"
  proof (rule ccontr)
    assume "\<not> 1 \<le> m"
    then have "l = 0" if "l \<in> set lens" for l using le [OF that] by simp
    then have "kraft 16 lens = 0" by (simp add: kraft_def)
    with c show False by (simp add: complete_def)
  qed
  have sum: "(\<Sum>l = 1..m. count_list lens l * 2 ^ (m - l)) = 2 ^ m"
  proof -
    have "2 ^ (16 - m) * kraft m lens = 2 ^ (16 - m) * 2 ^ m"
      using kraft_shift [of lens m 16] le m16 c by (simp add: complete_def flip: power_add)
    then have "kraft m lens = 2 ^ m" by simp
    then show ?thesis using kraft_counts [of lens m] le by simp
  qed
  let ?N = "\<lambda>l. b l + count_list lens l"
  have cnt: "length_counts m lens ! l = count_list lens l" if "1 \<le> l" "l \<le> m" for l
    using length_counts_nth [of lens m l] le that by simp
  show top: "b m = 0" using base_codes_spec(2) [of m] m1 by (simp add: b_def m_def)
  have rec: "b l = ?N (l + 1) div 2" if "1 \<le> l" "l < m" for l
    using base_codes_spec(3) [of l m "length_counts m lens"] cnt [of "l + 1"] that by (simp add: b_def m_def)
  have K: "even (?N l)" "?N l \<le> 2 ^ l" if "1 \<le> l" "l \<le> m" for l
    using kraft_levels [where N = ?N and c = "count_list lens" and m = m, OF m1 _ _ sum that] top rec
    by simp_all
  show "1 \<le> l \<Longrightarrow> l \<le> m \<Longrightarrow> b l + count_list lens l \<le> 2 ^ l" by (rule K(2))
  have "count_list lens m \<noteq> 0" using m_in by (simp add: count_list_0_iff)
  moreover have "even (count_list lens m)" using K(1) [of m] m1 top by simp
  ultimately show c2: "2 \<le> count_list lens m" by (cases "count_list lens m" rule: nat.exhaust) (auto, presburger)
  have gap: "?N l' \<le> b l * 2 ^ (l' - l)" if "1 \<le> l" "l < l'" "l' \<le> m" for l l'
    using that
  proof (induction "l' - l" arbitrary: l)
    case (Suc d)
    have bl: "b l * 2 = ?N (l + 1)"
      using rec [of l] K(1) [of "l + 1"] Suc.prems by simp
    have p: "2 ^ (l' - l) = 2 * (2::nat) ^ (l' - (l + 1))"
      using Suc.prems(2) by (metis Suc_diff_Suc Suc_eq_plus1 power_Suc)
    have e: "b l * 2 ^ (l' - l) = ?N (l + 1) * 2 ^ (l' - (l + 1))"
      using bl by (simp add: p flip: mult.assoc)
    show ?case
    proof (cases "l + 1 = l'")
      case True
      then show ?thesis using e by simp
    next
      case False
      then have "?N l' \<le> b (l + 1) * 2 ^ (l' - (l + 1))"
        using Suc.hyps(1) [of "l + 1"] Suc.hyps(2) Suc.prems by simp
      also have "\<dots> \<le> ?N (l + 1) * 2 ^ (l' - (l + 1))" by simp
      finally show ?thesis using e by simp
    qed
  qed simp
  then show "1 \<le> l \<Longrightarrow> l < l' \<Longrightarrow> l' \<le> m \<Longrightarrow> b l' + count_list lens l' \<le> b l * 2 ^ (l' - l)" .
  show "1 \<le> l \<Longrightarrow> l < m \<Longrightarrow> 0 < b l"
    using gap [of l m] c2 top by (cases "b l") auto
qed

definition codes_of :: "nat list \<Rightarrow> u32 list" where
  "codes_of lens = assign_codes (base_codes (Max (set lens)) (length_counts (Max (set lens)) lens)) lens"

definition canon :: "nat list \<Rightarrow> nat \<Rightarrow> nat" where
  "canon lens s = base_codes (Max (set lens)) (length_counts (Max (set lens)) lens) ! (lens ! s)
     + count_list (take s lens) (lens ! s)"

lemma count_take_less:
  assumes "s < length xs"
  shows "count_list (take s xs) (xs ! s) < count_list xs (xs ! s)"
proof -
  have "count_list xs (xs ! s) = count_list (take s xs) (xs ! s) + count_list (drop s xs) (xs ! s)"
    by (metis append_take_drop_id count_list_append)
  moreover have "drop s xs = xs ! s # drop (Suc s) xs" using assms by (simp add: Cons_nth_drop_Suc)
  ultimately show ?thesis by simp
qed

lemma count_take_strict:
  assumes "s < s'" "s' < length xs" "xs ! s = xs ! s'"
  shows "count_list (take s xs) (xs ! s) < count_list (take s' xs) (xs ! s)"
  using count_take_less [of s "take s' xs"] assms by (simp add: min_def)

lemma length_codes_of:
  assumes "complete lens"
  shows "length (codes_of lens) = length lens"
  using assign_fold [of lens "base_codes (Max (set lens)) (length_counts (Max (set lens)) lens)"
      "replicate (length lens) 0"] complete_bases(3) [OF assms]
  by (simp add: codes_of_def assign_codes_def base_codes_spec(1) less_Suc_eq_le)

lemma codes_of_nth:
  assumes c: "complete lens" and s: "s < length lens" "0 < lens ! s"
  shows "codes_of lens ! s = reverse_bits (lens ! s) 0 (of_nat (canon lens s))"
    and "lens ! s \<le> 16"
    and "canon lens s < 2 ^ (lens ! s)"
  using assign_fold [of lens "base_codes (Max (set lens)) (length_counts (Max (set lens)) lens)"
      "replicate (length lens) 0"] complete_bases(3) [OF c] s
proof -
  have l: "lens ! s \<in> set lens" using s by simp
  show "codes_of lens ! s = reverse_bits (lens ! s) 0 (of_nat (canon lens s))"
    using assign_fold [of lens "base_codes (Max (set lens)) (length_counts (Max (set lens)) lens)"
      "replicate (length lens) 0"] complete_bases(3) [OF c] s
    by (simp add: codes_of_def assign_codes_def base_codes_spec(1) less_Suc_eq_le canon_def)
  show "lens ! s \<le> 16" using complete_bases(3) [OF c l] complete_bases(2) [OF c] by (rule le_trans)
  show "canon lens s < 2 ^ (lens ! s)"
    using complete_bases(6) [OF c, of "lens ! s"] complete_bases(3) [OF c l] count_take_less [OF s(1)] s(2)
    by (simp add: canon_def)
qed

text \<open>The stream of a code is its canonical number, highest bit first.\<close>

lemma code_stream_eq:
  assumes c: "complete lens" and s: "s < length lens" "0 < lens ! s"
  shows "code_stream (codes_of lens) lens s = rev (word_bits (of_nat (canon lens s) :: u32) (lens ! s))"
    and "lens ! s \<le> i \<Longrightarrow> \<not> bit (codes_of lens ! s) i"
  using codes_of_nth [OF assms] reverse_bits_stream [of "lens ! s"]
  by (simp_all add: code_stream_def)

lemma word_bits_of_nat_inj:
  assumes "word_bits (of_nat a :: u32) n = word_bits (of_nat b :: u32) n" "a < 2 ^ n" "b < 2 ^ n" "n \<le> 32"
  shows "a = b"
proof -
  have eq: "take_bit n (of_nat a :: u32) = take_bit n (of_nat b :: u32)"
    using arg_cong [OF assms(1), of "bits_val :: bool list \<Rightarrow> u32"] by (simp add: bits_val_word_bits)
  have p: "(2::nat) ^ n \<le> 2 ^ 32" by (rule power_increasing) (use assms in auto)
  have "unat (take_bit n (of_nat x :: u32)) = x" if "x < 2 ^ n" for x
  proof -
    have "x < 2 ^ 32" using that p by linarith
    then show ?thesis using that by (simp add: unsigned_take_bit_eq unat_of_nat take_bit_nat_eq_self)
  qed
  with eq assms(2,3) show ?thesis by metis
qed

lemma canon_apart:
  assumes c: "complete lens" and s: "s < length lens" "0 < lens ! s"
    and t: "t < length lens" "lens ! s \<le> lens ! t" "s \<noteq> t"
  shows "canon lens t div 2 ^ (lens ! t - lens ! s) \<noteq> canon lens s"
proof (cases "lens ! s = lens ! t")
  case True
  have "count_list (take s lens) (lens ! s) \<noteq> count_list (take t lens) (lens ! s)"
    using count_take_strict [of s t lens] count_take_strict [of t s lens] s t True
    by (metis less_irrefl_nat linorder_neqE_nat)
  then show ?thesis using True by (simp add: canon_def)
next
  case False
  let ?b = "base_codes (Max (set lens)) (length_counts (Max (set lens)) lens)"
  have lt: "lens ! s < lens ! t" "lens ! t \<le> Max (set lens)" using False t by simp_all
  have "canon lens t < ?b ! (lens ! t) + count_list lens (lens ! t)"
    using count_take_less [OF t(1)] by (simp add: canon_def)
  also have "\<dots> \<le> ?b ! (lens ! s) * 2 ^ (lens ! t - lens ! s)"
    using complete_bases(7) [OF c _ lt] s(2) by simp
  finally have "canon lens t div 2 ^ (lens ! t - lens ! s) < ?b ! (lens ! s)"
    by (simp add: less_mult_imp_div_less)
  then show ?thesis by (simp add: canon_def)
qed

lemma code_prefix_free:
  assumes c: "complete lens" and s: "s < length lens" "0 < lens ! s"
    and t: "t < length lens" "lens ! s \<le> lens ! t" "s \<noteq> t"
  shows "take (lens ! s) (code_stream (codes_of lens) lens t) \<noteq> code_stream (codes_of lens) lens s"
proof
  assume eq: "take (lens ! s) (code_stream (codes_of lens) lens t) = code_stream (codes_of lens) lens s"
  let ?d = "lens ! t - lens ! s"
  have tp: "0 < lens ! t" using s t by simp
  note S = codes_of_nth [OF c s] and T = codes_of_nth [OF c t(1) tp]
  have "rev (drop ?d (word_bits (of_nat (canon lens t) :: u32) (lens ! t)))
      = rev (word_bits (of_nat (canon lens s) :: u32) (lens ! s))"
    using eq t(2) by (simp add: code_stream_eq [OF c s] code_stream_eq [OF c t(1) tp] take_rev)
  then have "word_bits (drop_bit ?d (of_nat (canon lens t) :: u32)) (lens ! s)
      = word_bits (of_nat (canon lens s) :: u32) (lens ! s)"
    using t(2) by (simp add: drop_word_bits)
  moreover have "drop_bit ?d (of_nat (canon lens t) :: u32) = of_nat (canon lens t div 2 ^ ?d)"
  proof (rule word_unat_eq_iff [THEN iffD2])
    have lt: "canon lens t < 2 ^ 32"
      using T(2,3) power_increasing [of "lens ! t" 32 "2::nat"] by simp
    then have lt': "canon lens t div 2 ^ ?d < 2 ^ 32"
      using div_le_dividend [of "canon lens t" "2 ^ ?d"] by linarith
    have "unat (drop_bit ?d (of_nat (canon lens t) :: u32)) = canon lens t div 2 ^ ?d"
      using lt unfolding unsigned_drop_bit_eq by (simp add: unat_of_nat take_bit_nat_eq_self drop_bit_eq_div)
    then show "unat (drop_bit ?d (of_nat (canon lens t) :: u32))
        = unat (of_nat (canon lens t div 2 ^ ?d) :: u32)"
      using lt' by (simp add: unat_of_nat)
  qed
  moreover have "canon lens t div 2 ^ ?d < 2 ^ (lens ! s)"
    using T(3) t(2) by (intro less_mult_imp_div_less) (simp flip: power_add)
  ultimately have "canon lens t div 2 ^ ?d = canon lens s"
    using word_bits_of_nat_inj [of "canon lens t div 2 ^ ?d" "lens ! s" "canon lens s"] S(2,3) by simp
  with canon_apart [OF assms] show False ..
qed

lemma zero_code:
  assumes c: "complete lens" and s: "s < length lens" "0 < lens ! s"
    and z: "codes_of lens ! s = 0"
  shows "lens ! s = Max (set lens)" "code_stream (codes_of lens) lens s = replicate (lens ! s) False"
    "\<And>t. t < length lens \<Longrightarrow> 0 < lens ! t \<Longrightarrow> codes_of lens ! t = 0 \<Longrightarrow> t = s"
proof -
  have zs: "code_stream (codes_of lens) lens u = replicate (lens ! u) False" if "codes_of lens ! u = 0" for u
    by (rule nth_equalityI) (simp_all add: code_stream_def that)
  show "code_stream (codes_of lens) lens s = replicate (lens ! s) False" by (rule zs [OF z])
  have "word_bits (of_nat (canon lens s) :: u32) (lens ! s) = replicate (lens ! s) False"
    using zs [OF z] code_stream_eq(1) [OF c s] by (metis rev_replicate rev_swap)
  moreover have "word_bits (of_nat 0 :: u32) n = replicate n False" for n
    by (rule nth_equalityI) simp_all
  ultimately have "word_bits (of_nat (canon lens s) :: u32) (lens ! s) = word_bits (of_nat 0 :: u32) (lens ! s)"
    by simp
  then have "canon lens s = 0"
    using codes_of_nth [OF c s] by (intro word_bits_of_nat_inj) auto
  then have "base_codes (Max (set lens)) (length_counts (Max (set lens)) lens) ! (lens ! s) = 0"
    by (simp add: canon_def)
  moreover have "lens ! s \<le> Max (set lens)" using s by simp
  ultimately show "lens ! s = Max (set lens)"
    using complete_bases(8) [OF c, of "lens ! s"] s(2) by fastforce
  fix t assume t: "t < length lens" "0 < lens ! t" "codes_of lens ! t = 0"
  show "t = s"
  proof (rule ccontr)
    assume "t \<noteq> s"
    then show False
      using code_prefix_free [OF c t(1,2) s(1)] code_prefix_free [OF c s t(1)] zs [OF z] zs [OF t(3)]
      by (metis nat_le_linear min.absorb1 take_replicate)
  qed
qed

section \<open>The decode table\<close>

definition coded :: "u32 list \<Rightarrow> nat list \<Rightarrow> nat \<Rightarrow> bool" where
  "coded codes lens s \<longleftrightarrow> s < length lens \<and> 0 < lens ! s \<and> codes ! s \<noteq> 0"

lemma extra_fold:
  assumes "\<And>s. s < length lens \<Longrightarrow> 0 < lens ! s \<Longrightarrow> codes ! s \<noteq> 0 \<Longrightarrow>
    trailing_zeros (codes ! s) < lens ! s \<and> lens ! s \<le> m" and "m \<le> 16" "0 < m"
  defines "r \<equiv> foldl (extra_step codes) (replicate 32 0, 0) (enumerate 0 lens)"
  shows "length (fst r) = 32 \<and> (\<forall>i<32. fst r ! i \<le> 15) \<and> snd r < m
    \<and> (\<forall>s<length lens. 0 < lens ! s \<longrightarrow> codes ! s \<noteq> 0 \<longrightarrow>
        trailing_zeros (codes ! s) \<le> snd r
        \<and> lens ! s - trailing_zeros (codes ! s) - 1 \<le> fst r ! trailing_zeros (codes ! s))"
  using assms(1) unfolding r_def
proof (induction lens rule: rev_induct)
  case Nil
  then show ?case using assms(3) by (simp del: replicate.simps replicate_Suc)
next
  case (snoc x xs)
  have pre: "trailing_zeros (codes ! s) < xs ! s \<and> xs ! s \<le> m"
    if "s < length xs" "0 < xs ! s" "codes ! s \<noteq> 0" for s
    using snoc.prems [of s] that by (simp add: nth_append)
  obtain e k where r: "foldl (extra_step codes) (replicate 32 0, 0) (enumerate 0 xs) = (e, k)"
    by (cases "foldl (extra_step codes) (replicate 32 0, 0) (enumerate 0 xs)")
  have IH: "length e = 32" "\<And>i. i < 32 \<Longrightarrow> e ! i \<le> 15" "k < m"
    "\<And>s. s < length xs \<Longrightarrow> 0 < xs ! s \<Longrightarrow> codes ! s \<noteq> 0 \<Longrightarrow> trailing_zeros (codes ! s) \<le> k
        \<and> xs ! s - trailing_zeros (codes ! s) - 1 \<le> e ! trailing_zeros (codes ! s)"
    using snoc.IH [OF pre] unfolding r by auto
  have step: "foldl (extra_step codes) (replicate 32 0, 0) (enumerate 0 (xs @ [x]))
      = extra_step codes (e, k) (length xs, x)"
    by (simp add: enumerate_append_eq r)
  show ?case
  proof (cases "x = 0 \<or> codes ! length xs = 0")
    case True
    then have "extra_step codes (e, k) (length xs, x) = (e, k)" by (simp add: extra_step_def)
    with IH True show ?thesis unfolding step by (auto simp: nth_append less_Suc_eq)
  next
    case False
    let ?z = "trailing_zeros (codes ! length xs)"
    have z: "?z < x" "x \<le> m" using snoc.prems [of "length xs"] False by simp_all
    have es: "extra_step codes (e, k) (length xs, x)
        = (if x - ?z - 1 > e ! ?z then e[?z := x - ?z - 1] else e, if ?z > k then ?z else k)"
      using False by (simp add: extra_step_def Let_def)
    have mono: "e ! i \<le> fst (extra_step codes (e, k) (length xs, x)) ! i" if "i < 32" for i
      by (cases "i = ?z") (use that IH(1) in \<open>simp_all add: es\<close>)
    have new: "x - ?z - 1 \<le> fst (extra_step codes (e, k) (length xs, x)) ! ?z"
      using z assms(2) IH(1) by (auto simp: es)
    show ?thesis unfolding step
    proof (intro conjI allI impI)
      show "length (fst (extra_step codes (e, k) (length xs, x))) = 32" by (simp add: es IH)
      show "fst (extra_step codes (e, k) (length xs, x)) ! i \<le> 15" if "i < 32" for i
        by (cases "i = ?z") (use that IH(1,2) z assms(2) in \<open>auto simp: es\<close>)
      show "snd (extra_step codes (e, k) (length xs, x)) < m" using IH(3) z by (simp add: es)
      fix s assume s: "s < length (xs @ [x])" "0 < (xs @ [x]) ! s" "codes ! s \<noteq> 0"
      then consider "s < length xs" | "s = length xs" by fastforce
      then show "trailing_zeros (codes ! s) \<le> snd (extra_step codes (e, k) (length xs, x))"
        using IH(4) [of s] s by cases (auto simp: es nth_append)
      show "(xs @ [x]) ! s - trailing_zeros (codes ! s) - 1
          \<le> fst (extra_step codes (e, k) (length xs, x)) ! trailing_zeros (codes ! s)"
      proof (cases "s = length xs")
        case True
        with new show ?thesis by simp
      next
        case False
        then have sx: "s < length xs" using s(1) by simp
        then have "trailing_zeros (codes ! s) < 32"
          using pre [of s] s assms(2) by (simp add: nth_append)
        from mono [OF this] IH(4) [of s] sx s show ?thesis by (simp add: nth_append)
      qed
    qed
  qed
qed

text \<open>Where the slot of a trailing-zero count starts.\<close>

definition slot_start :: "nat list \<Rightarrow> nat \<Rightarrow> nat" where
  "slot_start e i = (\<Sum>j<i. 2 ^ (e ! j))"

lemma slot_start_mono: "i \<le> j \<Longrightarrow> slot_start e i \<le> slot_start e j"
  unfolding slot_start_def by (intro sum_mono2) auto

lemma slot_start_Suc: "slot_start e (Suc i) = slot_start e i + 2 ^ (e ! i)"
  by (simp add: slot_start_def)

definition slot_mask_of :: "nat \<Rightarrow> u32" where
  "slot_mask_of n = (if n = 0 then 0 else mask n)"

lemma slot_mask_of:
  assumes "n \<le> 15"
  shows "unat (slot_mask_of n) + 1 = 2 ^ n" "unat (x AND slot_mask_of n) = unat x mod 2 ^ n"
proof -
  have eq: "slot_mask_of n = mask n" by (simp add: slot_mask_of_def)
  have "n < 32" using assms by simp
  then show "unat (slot_mask_of n) + 1 = 2 ^ n"
  proof -
    have "mask n = take_bit n (- 1 :: u32)" by simp
    then have "unat (mask n :: u32) = mask (min n 32)"
      by (simp only: unsigned_take_bit_eq unsigned_minus_1_eq_mask take_bit_of_mask) simp
    with \<open>n < 32\<close> show ?thesis unfolding eq by (simp add: mask_eq_exp_minus_1)
  qed
  show "unat (x AND slot_mask_of n) = unat x mod 2 ^ n"
  proof -
    have "unat (take_bit n x) = take_bit n (unat x)" by (rule unsigned_take_bit_eq)
    then show ?thesis unfolding eq take_bit_eq_mask [symmetric] by (simp only: take_bit_eq_mod)
  qed
qed

lemma make_slots_spec:
  assumes "\<forall>i<32. e ! i \<le> 15" "k < 31"
  defines "r \<equiv> make_slots e k"
  shows "length (fst r) = 32" "snd r = slot_start e (k + 1)"
    "i \<le> k \<Longrightarrow> fst r ! i = \<lparr>slot_mask = slot_mask_of (e ! i), slot_offset = slot_start e i\<rparr>"
    "k < i \<Longrightarrow> i < 32 \<Longrightarrow> fst r ! i = \<lparr>slot_mask = 0, slot_offset = snd r\<rparr>"
proof -
  let ?f = "\<lambda>(slots, total_entries) i.
            let m = (if e ! i = 0 then 0 else mask (e ! i)) :: u32
            in (slots @ [\<lparr>slot_mask = m, slot_offset = total_entries\<rparr>], total_entries + unat m + 1)"
  have F: "foldl ?f ([], 0) [0..<n]
      = (map (\<lambda>i. \<lparr>slot_mask = slot_mask_of (e ! i), slot_offset = slot_start e i\<rparr>) [0..<n], slot_start e n)"
    if "n \<le> 32" for n
    using that
  proof (induction n)
    case (Suc n)
    have "unat (slot_mask_of (e ! n)) + 1 = 2 ^ (e ! n)"
      using assms(1) Suc.prems by (intro slot_mask_of) simp
    with Suc show ?case by (simp add: slot_start_Suc slot_mask_of_def Let_def)
  qed (simp add: slot_start_def)
  have r: "r = (map (\<lambda>i. \<lparr>slot_mask = slot_mask_of (e ! i), slot_offset = slot_start e i\<rparr>) [0..<k + 1]
      @ replicate (32 - (k + 1)) \<lparr>slot_mask = 0, slot_offset = slot_start e (k + 1)\<rparr>, slot_start e (k + 1))"
    unfolding r_def make_slots_def using F [of "k + 1"] assms(2) by (simp del: upt_Suc)
  show "length (fst r) = 32" "snd r = slot_start e (k + 1)"
    "i \<le> k \<Longrightarrow> fst r ! i = \<lparr>slot_mask = slot_mask_of (e ! i), slot_offset = slot_start e i\<rparr>"
    "k < i \<Longrightarrow> i < 32 \<Longrightarrow> fst r ! i = \<lparr>slot_mask = 0, slot_offset = snd r\<rparr>"
    using assms(2) by (auto simp: r nth_append simp del: upt_Suc)
qed

text \<open>Writes to distinct entries do not disturb each other.\<close>

lemma length_write_entries [simp]: "length (write_entries es ws) = length es"
  by (induction ws arbitrary: es) (auto simp: write_entries_def)

lemma write_entries_other:
  "i \<notin> fst ` set ws \<Longrightarrow> write_entries es ws ! i = es ! i"
  by (induction ws arbitrary: es) (auto simp: write_entries_def)

lemma write_entries_nth:
  assumes "(i, v) \<in> set ws" "\<And>v'. (i, v') \<in> set ws \<Longrightarrow> v' = v" "i < length es"
  shows "write_entries es ws ! i = v"
  using assms
proof (induction ws arbitrary: es)
  case (Cons w ws)
  obtain j u where w: "w = (j, u)" by (cases w)
  have we: "write_entries es (w # ws) = write_entries (es[j := u]) ws"
    by (simp add: w write_entries_def)
  show ?case
  proof (cases "(i, v) \<in> set ws")
    case True
    then show ?thesis unfolding we using Cons.prems(2,3) by (intro Cons.IH) auto
  next
    case False
    then have "j = i" "u = v" using Cons.prems(1) w by auto
    moreover have "i \<notin> fst ` set ws"
    proof
      assume "i \<in> fst ` set ws"
      then obtain b where "(i, b) \<in> set ws" by auto
      with Cons.prems(2) [of b] False show False by simp
    qed
    ultimately show ?thesis unfolding we using Cons.prems(3) by (simp add: write_entries_other)
  qed
qed simp

lemma coded_bounds:
  assumes c: "complete lens" and s: "coded (codes_of lens) lens s"
  shows "trailing_zeros (codes_of lens ! s) < lens ! s" "lens ! s \<le> 16"
proof -
  have s': "s < length lens" "0 < lens ! s" "codes_of lens ! s \<noteq> 0" using s by (simp_all add: coded_def)
  show l: "lens ! s \<le> 16" using codes_of_nth(2) [OF c s'(1,2)] .
  let ?z = "trailing_zeros (codes_of lens ! s)"
  have "?z < 32"
  proof (rule ccontr)
    assume "\<not> ?z < 32"
    then have "\<not> bit (codes_of lens ! s) i" if "i < 32" for i
      using trailing_zeros_less [of i "codes_of lens ! s"] that by simp
    then have "codes_of lens ! s = 0" by (intro bit_word_eqI) simp
    with s'(3) show False ..
  qed
  then have "bit (codes_of lens ! s) ?z" by (intro bit_trailing_zeros) simp
  then show "?z < lens ! s" using code_stream_eq(2) [OF c s'(1,2), of ?z] by (meson not_le)
qed

text \<open>The entry index a write of symbol \<open>t\<close> uses, seen from a value \<open>y\<close> of the extra field.\<close>

lemma fill_member:
  assumes c: "complete lens" and t: "coded (codes_of lens) lens t"
    and e: "e ! z \<le> 15" "lens ! t - z - 1 \<le> e ! z" and z: "z = trailing_zeros (codes_of lens ! t)"
    and sl: "slots ! z = \<lparr>slot_mask = slot_mask_of (e ! z), slot_offset = slot_start e z\<rparr>"
  shows "(i, v) \<in> set (fill_writes (codes_of lens) e slots (t, lens ! t)) \<longleftrightarrow>
    v = \<lparr>ent_symbol = of_nat t, ent_len = lens ! t\<rparr> \<and>
    (\<exists>y<2 ^ (e ! z). i = slot_start e z + y \<and>
       y mod 2 ^ (lens ! t - z - 1) = unat (drop_bit (z + 1) (codes_of lens ! t)))"
proof -
  let ?x = "lens ! t - z - 1" and ?c = "unat (drop_bit (z + 1) (codes_of lens ! t))"
  have t': "t < length lens" "0 < lens ! t" using t by (simp_all add: coded_def)
  note B = coded_bounds [OF c t, folded z]
  have "take_bit ?x (drop_bit (z + 1) (codes_of lens ! t)) = drop_bit (z + 1) (codes_of lens ! t)"
  proof (rule bit_word_eqI)
    fix n
    have "n < ?x" if "bit (codes_of lens ! t) (z + 1 + n)"
      using code_stream_eq(2) [OF c t', of "z + 1 + n"] that by (cases "lens ! t \<le> z + 1 + n") auto
    then show "bit (take_bit ?x (drop_bit (z + 1) (codes_of lens ! t))) n
        = bit (drop_bit (z + 1) (codes_of lens ! t)) n"
      by (auto simp: bit_take_bit_iff bit_drop_bit_eq)
  qed
  then have "take_bit ?x ?c = ?c" by (metis unsigned_take_bit_eq)
  then have c1: "?c < 2 ^ ?x" by (simp only: take_bit_nat_eq_self_iff)
  have split: "(2::nat) ^ (e ! z) = 2 ^ (e ! z - ?x) * 2 ^ ?x" using e(2) by (simp flip: power_add)
  then have "?c < 2 ^ (e ! z)" using c1 power_increasing [OF e(2), of "2::nat"] by linarith
  then have base: "unat (drop_bit (z + 1) (codes_of lens ! t) AND slot_mask_of (e ! z)) = ?c"
    by (simp add: slot_mask_of(2) [OF e(1)])
  have LR: "(\<exists>f<2 ^ (e ! z - ?x). i = ?c + slot_start e z + f * 2 ^ ?x) \<longleftrightarrow>
      (\<exists>y<2 ^ (e ! z). i = slot_start e z + y \<and> y mod 2 ^ ?x = ?c)" (is "?L \<longleftrightarrow> ?R")
  proof
    assume ?L
    then obtain f where f: "f < 2 ^ (e ! z - ?x)" "i = ?c + slot_start e z + f * 2 ^ ?x" by auto
    have "Suc f * 2 ^ ?x \<le> 2 ^ (e ! z)" unfolding split using f(1) by (intro mult_le_mono) auto
    then have "?c + f * 2 ^ ?x < 2 ^ (e ! z)" using c1 by simp
    moreover have "(?c + f * 2 ^ ?x) mod 2 ^ ?x = ?c" using c1 by simp
    ultimately show ?R using f(2) by (intro exI [of _ "?c + f * 2 ^ ?x"]) simp
  next
    assume ?R
    then obtain y where y: "y < 2 ^ (e ! z)" "i = slot_start e z + y" "y mod 2 ^ ?x = ?c" by auto
    have "y = ?c + y div 2 ^ ?x * 2 ^ ?x" using y(3) by (metis add.commute div_mult_mod_eq)
    moreover have "y div 2 ^ ?x < 2 ^ (e ! z - ?x)"
      using y(1) unfolding split by (simp add: less_mult_imp_div_less)
    ultimately show ?L using y(2) by (intro exI [of _ "y div 2 ^ ?x"]) simp
  qed
  have "codes_of lens ! t \<noteq> 0" using t by (simp add: coded_def)
  then have fw: "fill_writes (codes_of lens) e slots (t, lens ! t)
      = map (\<lambda>f. (?c + slot_start e z + f * 2 ^ ?x, \<lparr>ent_symbol = of_nat t, ent_len = lens ! t\<rparr>))
          [0..<2 ^ (e ! z - ?x)]"
    using t'(2) by (simp add: fill_writes_def Let_def base [simplified] sl flip: z)
  have "(i, v) \<in> set (fill_writes (codes_of lens) e slots (t, lens ! t)) \<longleftrightarrow>
      v = \<lparr>ent_symbol = of_nat t, ent_len = lens ! t\<rparr> \<and> ?L"
    unfolding fw by auto
  with LR show ?thesis by simp
qed

text \<open>Two symbols that write the same entry are the same symbol.\<close>

lemma extra_bits:
  assumes "y mod 2 ^ x = unat (drop_bit (z + 1) (w :: u32))" "z + 1 \<le> i" "i < z + 1 + x"
  shows "bit w i = bit y (i - (z + 1))"
proof -
  have "bit y (i - (z + 1)) = bit (y mod 2 ^ x) (i - (z + 1))"
  proof -
    have "i - (z + 1) < x" using assms(2,3) by simp
    then show ?thesis by (simp add: bit_take_bit_iff flip: take_bit_eq_mod)
  qed
  also have "\<dots> = bit (drop_bit (z + 1) w) (i - (z + 1))"
    unfolding assms(1) by (simp add: bit_unsigned_iff)
  also have "\<dots> = bit w i" using assms(2) by (simp add: bit_drop_bit_eq)
  finally show ?thesis ..
qed

lemma same_entry_same_symbol:
  assumes c: "complete lens" and s: "coded (codes_of lens) lens s" and t: "coded (codes_of lens) lens t"
    and z: "z = trailing_zeros (codes_of lens ! s)" "z = trailing_zeros (codes_of lens ! t)"
    and ys: "y mod 2 ^ (lens ! s - z - 1) = unat (drop_bit (z + 1) (codes_of lens ! s))"
    and yt: "y mod 2 ^ (lens ! t - z - 1) = unat (drop_bit (z + 1) (codes_of lens ! t))"
  shows "s = t"
proof -
  note S = coded_bounds [OF c s, folded z(1)] and T = coded_bounds [OF c t, folded z(2)]
  have eq: "bit (codes_of lens ! s) i = bit (codes_of lens ! t) i"
    if i: "i < lens ! s" "i < lens ! t" for i
  proof -
    consider "i < z" | "i = z" | "z + 1 \<le> i" by linarith
    then show ?thesis
    proof cases
      case 1
      then show ?thesis using trailing_zeros_less z by metis
    next
      case 2
      have "z < 32" using S by simp
      then show ?thesis using bit_trailing_zeros [of "codes_of lens ! s"]
        bit_trailing_zeros [of "codes_of lens ! t"] 2 z by simp
    next
      case 3
      then show ?thesis using extra_bits [OF ys 3] extra_bits [OF yt 3] i by simp
    qed
  qed
  have str: "take (lens ! u) (code_stream (codes_of lens) lens v) = code_stream (codes_of lens) lens u"
    if "lens ! u \<le> lens ! v" "\<And>i. i < lens ! u \<Longrightarrow> bit (codes_of lens ! u) i = bit (codes_of lens ! v) i" for u v
    using that by (intro nth_equalityI) (auto simp: code_stream_def)
  have s': "s < length lens" "0 < lens ! s" and t': "t < length lens" "0 < lens ! t"
    using s t by (simp_all add: coded_def)
  show ?thesis
  proof (rule ccontr)
    assume ne: "s \<noteq> t"
    show False
    proof (cases "lens ! s \<le> lens ! t")
      case True
      then have "take (lens ! s) (code_stream (codes_of lens) lens t) = code_stream (codes_of lens) lens s"
        using eq by (intro str) auto
      with code_prefix_free [OF c s' t'(1) True ne] show False ..
    next
      case False
      then have le: "lens ! t \<le> lens ! s" by simp
      then have "take (lens ! t) (code_stream (codes_of lens) lens s) = code_stream (codes_of lens) lens t"
        using eq by (intro str) auto
      with code_prefix_free [OF c t' s'(1) le ne [symmetric]] show False ..
    qed
  qed
qed

lemma slot_ranges_disjoint:
  assumes "slot_start e z + y = slot_start e z' + y'" "y < 2 ^ (e ! z)" "y' < 2 ^ (e ! z')"
  shows "z = z'"
proof (rule ccontr)
  assume "z \<noteq> z'"
  then consider "Suc z \<le> z'" | "Suc z' \<le> z" by linarith
  then show False
  proof cases
    case 1
    from slot_start_mono [OF this, of e] assms show False by (simp add: slot_start_Suc)
  next
    case 2
    from slot_start_mono [OF this, of e] assms show False by (simp add: slot_start_Suc)
  qed
qed

text \<open>The lookup of \<open>read_symbol\<close> on the next 32 bits.\<close>

definition lookup_index :: "huffman_table \<Rightarrow> u32 \<Rightarrow> nat" where
  "lookup_index t accum =
     (let with_sentinel = accum OR 0x80000000;
          ctz = trailing_zeros with_sentinel;
          slot = ht_slots t ! ctz;
          shifted = (if ctz \<ge> 31 then 0 else drop_bit (ctz + 1) with_sentinel)
      in unat (shifted AND slot_mask slot) + slot_offset slot)"

lemma sentinel_bit: "bit ((x :: u32) OR 0x80000000) i \<longleftrightarrow> (if i = 31 then True else bit x i)"
proof -
  have e: "(0x80000000 :: u32) = 2 ^ 31" by simp
  show ?thesis
    using bit_imp_le_length [of x i] unfolding e bit_or_iff bit_exp_iff by auto
qed

text \<open>The parts of a table for complete lengths.\<close>

definition layout_ok :: "nat list \<Rightarrow> nat list \<Rightarrow> nat \<Rightarrow> slot list \<Rightarrow> bool" where
  "layout_ok lens e k slots \<longleftrightarrow> (\<forall>i<32. e ! i \<le> 15)
     \<and> (\<forall>u. coded (codes_of lens) lens u \<longrightarrow> trailing_zeros (codes_of lens ! u) \<le> k
        \<and> lens ! u - trailing_zeros (codes_of lens ! u) - 1 \<le> e ! trailing_zeros (codes_of lens ! u))
     \<and> (\<forall>i\<le>k. slots ! i = \<lparr>slot_mask = slot_mask_of (e ! i), slot_offset = slot_start e i\<rparr>)"

lemma table_shape:
  assumes c: "complete lens"
  obtains e k n slots where
    "layout_ok lens e k slots" "k < Max (set lens)"
    "n = slot_start e (k + 1)"
    "\<And>i. k < i \<Longrightarrow> i < 32 \<Longrightarrow> slots ! i = \<lparr>slot_mask = 0, slot_offset = n\<rparr>"
    "table_of (Max (set lens)) lens = \<lparr>ht_slots = slots,
       ht_entries = zero_code_entry (codes_of lens) lens n (write_entries (replicate (n + 1) default_entry)
         (concat (map (fill_writes (codes_of lens) e slots) (enumerate 0 lens)))),
       ht_lengths = lens, ht_codes = codes_of lens\<rparr>"
proof -
  let ?m = "Max (set lens)" and ?codes = "codes_of lens"
  have m: "1 \<le> ?m" "?m \<le> 16" using complete_bases [OF c] by simp_all
  obtain e k where ek: "extra_table ?codes lens = (e, k)" by (cases "extra_table ?codes lens")
  obtain slots n where sn: "make_slots e k = (slots, n)" by (cases "make_slots e k")
  have pre: "trailing_zeros (?codes ! u) < lens ! u \<and> lens ! u \<le> ?m"
    if "u < length lens" "0 < lens ! u" "?codes ! u \<noteq> 0" for u
    using coded_bounds(1) [OF c, of u] complete_bases(3) [OF c, of "lens ! u"] that by (simp add: coded_def)
  have E: "\<And>i. i < 32 \<Longrightarrow> e ! i \<le> 15" "k < ?m"
    "\<And>u. coded ?codes lens u \<Longrightarrow> trailing_zeros (?codes ! u) \<le> k
        \<and> lens ! u - trailing_zeros (?codes ! u) - 1 \<le> e ! trailing_zeros (?codes ! u)"
    using extra_fold [of lens ?codes ?m, OF pre m(2)] m(1) ek
    by (simp_all add: extra_table_def coded_def)
  have k: "k < 31" using E(2) m by simp
  show thesis
  proof (rule that [of e k slots n])
    show "layout_ok lens e k slots"
      using make_slots_spec(3) [of e k] E(1,3) k sn by (simp add: layout_ok_def)
    show "k < ?m" by (rule E(2))
    show "n = slot_start e (k + 1)"
      "\<And>i. k < i \<Longrightarrow> i < 32 \<Longrightarrow> slots ! i = \<lparr>slot_mask = 0, slot_offset = n\<rparr>"
      using make_slots_spec [of e k] E(1) k sn by simp_all
    show "table_of ?m lens = \<lparr>ht_slots = slots,
       ht_entries = zero_code_entry ?codes lens n (write_entries (replicate (n + 1) default_entry)
         (concat (map (fill_writes ?codes e slots) (enumerate 0 lens)))),
       ht_lengths = lens, ht_codes = ?codes\<rparr>"
      unfolding table_of_def Let_def codes_of_def [symmetric] ek sn prod.case ..
  qed
qed

lemma length_zero_code_entry [simp]: "length (zero_code_entry codes lens n es) = length es"
  by (auto simp: zero_code_entry_def split: option.split)

lemma find_zero_code:
  assumes c: "complete lens" and s: "s < length lens" "0 < lens ! s" "codes_of lens ! s = 0"
  shows "find (\<lambda>(symb, l). l > 0 \<and> codes_of lens ! symb = 0) (enumerate 0 lens) = Some (s, lens ! s)"
    (is "find ?P ?l = _")
proof -
  have "\<exists>p\<in>set ?l. ?P p"
    using s by (intro bexI [of _ "(s, lens ! s)"]) (auto simp: in_set_enumerate_eq)
  then obtain p where p: "find ?P ?l = Some p"
    by (cases "find ?P ?l") (auto simp: find_None_iff)
  obtain i where i: "i < length ?l" "?P (?l ! i)" "p = ?l ! i"
    using p [THEN find_Some_iff [THEN iffD1]] by metis
  have "?P p" unfolding i(3) by (rule i(2))
  moreover have "p \<in> set ?l" unfolding i(3) by (rule nth_mem [OF i(1)])
  ultimately
  have "p = (s, lens ! s)"
    using zero_code(3) [OF c s, of "fst p"] by (cases p) (auto simp: in_set_enumerate_eq)
  with p show ?thesis by simp
qed

lemma fill_writes_member:
  assumes c: "complete lens" and lay: "layout_ok lens e k slots"
  shows "(i, v) \<in> set (concat (map (fill_writes (codes_of lens) e slots) (enumerate 0 lens))) \<longleftrightarrow>
    (\<exists>u z y. coded (codes_of lens) lens u \<and> z = trailing_zeros (codes_of lens ! u) \<and>
        v = \<lparr>ent_symbol = of_nat u, ent_len = lens ! u\<rparr> \<and> y < 2 ^ (e ! z) \<and> i = slot_start e z + y \<and>
          y mod 2 ^ (lens ! u - z - 1) = unat (drop_bit (z + 1) (codes_of lens ! u)))"
proof -
  have "(i, v) \<in> set (fill_writes (codes_of lens) e slots (u, lens ! u)) \<longleftrightarrow> coded (codes_of lens) lens u \<and>
    (\<exists>z y. z = trailing_zeros (codes_of lens ! u) \<and>
        v = \<lparr>ent_symbol = of_nat u, ent_len = lens ! u\<rparr> \<and> y < 2 ^ (e ! z) \<and> i = slot_start e z + y \<and>
          y mod 2 ^ (lens ! u - z - 1) = unat (drop_bit (z + 1) (codes_of lens ! u)))"
    if "u < length lens" for u
  proof (cases "coded (codes_of lens) lens u")
    case True
    have "trailing_zeros (codes_of lens ! u) < 32" using coded_bounds [OF c True] by simp
    then show ?thesis
      using fill_member [OF c True _ _ refl, of e slots i v] lay True
      by (simp add: layout_ok_def)
  next
    case False
    then show ?thesis using that by (auto simp: fill_writes_def coded_def)
  qed
  moreover have "set (enumerate 0 lens) = (\<lambda>u. (u, lens ! u)) ` {..<length lens}"
    by (auto simp: in_set_enumerate_eq image_iff)
  ultimately show ?thesis by (auto simp: coded_def)
qed

lemma sentinel_stream:
  assumes c: "complete lens" and s: "s < length lens" "0 < lens ! s"
    and x: "word_bits x (lens ! s) = code_stream (codes_of lens) lens s" and i: "i < lens ! s"
  shows "bit ((x :: u32) OR 0x80000000) i = bit (codes_of lens ! s) i"
  using arg_cong [OF x, of "\<lambda>l. l ! i"] i codes_of_nth(2) [OF c s] sentinel_bit [of x i]
  by (simp add: code_stream_def)

lemma lookup_zero:
  assumes c: "complete lens" and s: "s < length lens" "0 < lens ! s"
    and x: "word_bits x (lens ! s) = code_stream (codes_of lens) lens s"
    and z: "codes_of lens ! s = 0"
  defines "t \<equiv> table_of (Max (set lens)) lens"
  shows "lookup_index t x < length (ht_entries t)"
    and "ht_entries t ! lookup_index t x = \<lparr>ent_symbol = of_nat s, ent_len = lens ! s\<rparr>"
proof -
  define w where "w = x OR 0x80000000"
  define k where "k = trailing_zeros w"
  have k32: "k < 32"
  proof (rule ccontr)
    assume "\<not> k < 32"
    then have "\<not> bit w 31" using trailing_zeros_less [of 31 w] by (simp add: k_def)
    then show False by (simp add: w_def sentinel_bit)
  qed
  have mk: "Max (set lens) \<le> k"
  proof (rule ccontr)
    assume "\<not> Max (set lens) \<le> k"
    then have "\<not> bit w k"
      using sentinel_stream [OF c s x, of k] zero_code(1) [OF c s z] z by (simp add: w_def)
    with bit_trailing_zeros [of w] k32 show False by (simp add: k_def)
  qed
  obtain e j n slots where T: "j < Max (set lens)"
    "\<And>i. j < i \<Longrightarrow> i < 32 \<Longrightarrow> slots ! i = \<lparr>slot_mask = 0, slot_offset = n\<rparr>"
    "t = \<lparr>ht_slots = slots,
       ht_entries = zero_code_entry (codes_of lens) lens n (write_entries (replicate (n + 1) default_entry)
         (concat (map (fill_writes (codes_of lens) e slots) (enumerate 0 lens)))),
       ht_lengths = lens, ht_codes = codes_of lens\<rparr>"
    unfolding t_def by (rule table_shape [OF c]) blast
  have idx: "lookup_index t x = n"
    using T(2) [of k] T(1) mk k32 by (simp add: lookup_index_def T(3) Let_def flip: w_def k_def)
  show "lookup_index t x < length (ht_entries t)" by (simp add: idx) (simp add: T(3))
  show "ht_entries t ! lookup_index t x = \<lparr>ent_symbol = of_nat s, ent_len = lens ! s\<rparr>"
    unfolding idx by (simp add: T(3)) (simp add: zero_code_entry_def find_zero_code [OF c s z])
qed

lemma extra_field:
  fixes w :: u32
  assumes c: "complete lens" and s: "s < length lens" "0 < lens ! s"
    and w: "\<And>i. i < lens ! s \<Longrightarrow> bit w i = bit (codes_of lens ! s) i"
    and z: "z < lens ! s" "lens ! s - z - 1 \<le> e"
  shows "unat (drop_bit (z + 1) w) mod 2 ^ e mod 2 ^ (lens ! s - z - 1)
    = unat (drop_bit (z + 1) (codes_of lens ! s))"
proof -
  let ?x = "lens ! s - z - 1"
  have "take_bit ?x (drop_bit (z + 1) w) = drop_bit (z + 1) (codes_of lens ! s)"
  proof (rule bit_word_eqI)
    fix i
    show "bit (take_bit ?x (drop_bit (z + 1) w)) i = bit (drop_bit (z + 1) (codes_of lens ! s)) i"
      using w [of "z + 1 + i"] code_stream_eq(2) [OF c s, of "z + 1 + i"] z(1)
      by (cases "i < ?x") (auto simp: bit_take_bit_iff bit_drop_bit_eq)
  qed
  then have "unat (drop_bit (z + 1) w) mod 2 ^ ?x = unat (drop_bit (z + 1) (codes_of lens ! s))"
    by (metis take_bit_eq_mod unsigned_take_bit_eq)
  moreover have "unat (drop_bit (z + 1) w) mod 2 ^ e mod 2 ^ ?x = unat (drop_bit (z + 1) w) mod 2 ^ ?x"
    using z(2) by (intro mod_mod_cancel le_imp_power_dvd)
  ultimately show ?thesis by simp
qed

lemma lookup_coded:
  assumes c: "complete lens" and s: "coded (codes_of lens) lens s"
    and x: "word_bits x (lens ! s) = code_stream (codes_of lens) lens s"
  defines "t \<equiv> table_of (Max (set lens)) lens"
  shows "lookup_index t x < length (ht_entries t)
    \<and> ht_entries t ! lookup_index t x = \<lparr>ent_symbol = of_nat s, ent_len = lens ! s\<rparr>"
proof (rule table_shape [OF c])
  fix e k n slots
  assume lay: "layout_ok lens e k slots" and n: "n = slot_start e (k + 1)"
    and t: "table_of (Max (set lens)) lens = \<lparr>ht_slots = slots,
       ht_entries = zero_code_entry (codes_of lens) lens n (write_entries (replicate (n + 1) default_entry)
         (concat (map (fill_writes (codes_of lens) e slots) (enumerate 0 lens)))),
       ht_lengths = lens, ht_codes = codes_of lens\<rparr>"
  have E: "e ! i \<le> 15" if "i < 32" for i using lay that by (simp add: layout_ok_def)
  have s': "s < length lens" "0 < lens ! s" using s by (simp_all add: coded_def)
  define z where "z = trailing_zeros (codes_of lens ! s)"
  define w where "w = x OR 0x80000000"
  note B = coded_bounds [OF c s, folded z_def]
  have Ez: "z \<le> k" "lens ! s - z - 1 \<le> e ! z"
    using lay s by (simp_all add: layout_ok_def z_def)
  have sl: "slots ! z = \<lparr>slot_mask = slot_mask_of (e ! z), slot_offset = slot_start e z\<rparr>"
    using lay Ez(1) by (simp add: layout_ok_def)
  note wb = sentinel_stream [OF c s' x, folded w_def]
  have z16: "z < 16" "e ! z \<le> 15" using B E by auto
  have zw: "trailing_zeros w = z"
  proof (rule trailing_zeros_eqI)
    show "bit w z" using wb [of z] B bit_trailing_zeros [of "codes_of lens ! s"] z16 by (simp add: z_def)
    show "\<not> bit w i" if "i < z" for i
      using wb [of i] B trailing_zeros_less [of i "codes_of lens ! s"] that by (simp add: z_def)
  qed (use z16 in simp)
  define y where "y = unat (drop_bit (z + 1) w) mod 2 ^ (e ! z)"
  have idx: "lookup_index t x = slot_start e z + y"
    using sl z16
    by (simp add: lookup_index_def t_def t Let_def zw y_def slot_mask_of(2) flip: w_def)
  have y: "y < 2 ^ (e ! z)" by (simp add: y_def)
  have ymod: "y mod 2 ^ (lens ! s - z - 1) = unat (drop_bit (z + 1) (codes_of lens ! s))"
    unfolding y_def by (rule extra_field [OF c s' wb]) (use B Ez in auto)
  have "slot_start e (Suc z) \<le> n" unfolding n using Ez by (intro slot_start_mono) simp
  then have lt: "lookup_index t x < n" using idx y by (simp add: slot_start_Suc)
  note mem = fill_writes_member [OF c lay]
  let ?ws = "concat (map (fill_writes (codes_of lens) e slots) (enumerate 0 lens))"
  have "write_entries (replicate (n + 1) default_entry) ?ws ! lookup_index t x
      = \<lparr>ent_symbol = of_nat s, ent_len = lens ! s\<rparr>"
  proof (rule write_entries_nth)
    show "(lookup_index t x, \<lparr>ent_symbol = of_nat s, ent_len = lens ! s\<rparr>) \<in> set ?ws"
      by (rule mem [THEN iffD2]) (use s idx y ymod in \<open>auto simp: z_def\<close>)
    show "lookup_index t x < length (replicate (n + 1) default_entry)" using lt by simp
    fix v' assume "(lookup_index t x, v') \<in> set ?ws"
    then obtain u z' y' where u: "coded (codes_of lens) lens u" "z' = trailing_zeros (codes_of lens ! u)"
      "v' = \<lparr>ent_symbol = of_nat u, ent_len = lens ! u\<rparr>" "y' < 2 ^ (e ! z')"
      "slot_start e z + y = slot_start e z' + y'"
      "y' mod 2 ^ (lens ! u - z' - 1) = unat (drop_bit (z' + 1) (codes_of lens ! u))"
      unfolding mem idx by blast
    have zu: "z = z'" by (rule slot_ranges_disjoint [OF u(5) y u(4)])
    then have "y = y'" using u(5) by simp
    then have "s = u"
      using same_entry_same_symbol [OF c s u(1) z_def _ ymod] u(2,6) zu by simp
    then show "v' = \<lparr>ent_symbol = of_nat s, ent_len = lens ! s\<rparr>" using u(3) by simp
  qed
  with lt show ?thesis
    by (auto simp: t_def t zero_code_entry_def split: option.split prod.split)
qed

lemma table_lookup:
  assumes "complete lens" "s < length lens" "0 < lens ! s"
    and "word_bits x (lens ! s) = code_stream (codes_of lens) lens s"
  defines "t \<equiv> table_of (Max (set lens)) lens"
  shows "lookup_index t x < length (ht_entries t)"
    and "ht_entries t ! lookup_index t x = \<lparr>ent_symbol = of_nat s, ent_len = lens ! s\<rparr>"
  using lookup_zero [OF assms(1-4)] lookup_coded [OF assms(1) _ assms(4)] assms(2,3)
  by (cases "codes_of lens ! s = 0"; simp add: coded_def t_def)+

section \<open>Symbols as a codec\<close>

lemma read_symbol_lookup:
  "read_symbol t r =
     (if ht_entries t = [] then Inl (Malformed ''empty huffman table'')
      else rbind (ensure_bits r (min 16 (remaining r))) (\<lambda>r.
        let idx = lookup_index t (ucast (peek r (min (buffered r) 32)))
        in if idx \<ge> length (ht_entries t)
           then Inl (Malformed ''huffman table index out of bounds'')
           else if ent_len (ht_entries t ! idx) = 0
                then Inl (Malformed ''decoded symbol has zero length'')
                else Inr (ent_symbol (ht_entries t ! idx),
                          consume_unchecked r (ent_len (ht_entries t ! idx)))))"
  unfolding read_symbol_def lookup_index_def Let_def ..

lemma read_symbol_delivers:
  assumes c: "complete lens" and s: "s < length lens" "0 < lens ! s"
    and ok: "reader_ok r" and st: "rd_stream r = code_stream (codes_of lens) lens s @ rest"
    and pad: "rd_padding r \<le> length rest"
  shows "delivers (read_symbol (table_of (Max (set lens)) lens) r) (of_nat s) rest (rd_padding r)"
proof -
  let ?t = "table_of (Max (set lens)) lens" and ?l = "lens ! s"
  have l16: "?l \<le> 16" by (rule codes_of_nth(2) [OF c s])
  have len: "length (rd_stream r) = ?l + length rest" by (simp add: st code_stream_def)
  have want: "?l \<le> min 16 (remaining r)" "min 16 (remaining r) \<le> length (rd_stream r)"
    using remaining_eq [OF ok] len pad l16 by simp_all
  obtain r1 where r1: "ensure_bits r (min 16 (remaining r)) = Inr r1" "reader_ok r1"
    "rd_stream r1 = rd_stream r" "rd_padding r1 = rd_padding r" "min 16 (remaining r) \<le> rd_bits r1"
  proof (rule ensure_bits_ok [OF ok _ want(2)])
    show "min 16 (remaining r) \<le> 57" by simp
  qed
  have lb: "?l \<le> rd_bits r1" using want(1) r1(5) by (rule le_trans)
  define x :: u32 where "x = ucast (peek r1 (min (buffered r1) 32))"
  have bx: "bit x i = rd_stream r1 ! i" if "i < ?l" for i
  proof -
    have nz: "min (rd_bits r1) 32 \<noteq> 0" and "i < min (rd_bits r1) 32" "i < 32" "i < rd_bits r1"
      using that lb l16 by auto
    then show ?thesis
      using bit_accum [of i r1]
      unfolding x_def peek_def buffered_def if_not_P [OF nz]
      by (simp add: bit_ucast_iff bit_and_iff bit_mask_iff)
  qed
  have wx: "word_bits x ?l = code_stream (codes_of lens) lens s"
    by (rule nth_equalityI) (simp_all add: code_stream_def bx, simp add: r1(3) st code_stream_def nth_append)
  note T = table_lookup [OF c s wx]
  have "read_symbol ?t r = Inr (of_nat s, consume_unchecked r1 ?l)"
  proof -
    have "ht_entries ?t \<noteq> []" using T(1) by auto
    then show ?thesis
      using T s(2) by (simp add: read_symbol_lookup r1(1) Let_def flip: x_def)
  qed
  moreover have "rd_stream (consume_unchecked r1 ?l) = rest"
    using lb by (simp add: rd_stream_consume r1(3) st code_stream_def)
  ultimately show ?thesis
    using reader_ok_consume [OF r1(2) lb] r1(4) by (auto intro: deliversI)
qed

lemma from_lengths_complete:
  assumes "complete lens"
  shows "from_lengths lens = Inr (table_of (Max (set lens)) lens)"
proof -
  have "lens \<noteq> []" using assms by (auto simp: complete_def kraft_def)
  moreover have "\<not> 16 < Max (set lens)" "Max (set lens) \<noteq> 0"
    using complete_bases(1,2) [OF assms] by auto
  ultimately show ?thesis
    unfolding from_lengths_def max_code_len_def Let_def by (simp only: if_False)
qed

lemma table_of_fields [simp]:
  "ht_lengths (table_of m lens) = lens"
  "ht_codes (table_of (Max (set lens)) lens) = codes_of lens"
  by (simp_all add: table_of_def Let_def codes_of_def split: prod.splits)

interpretation symbol: bit_codec
  "write_symbol (table_of (Max (set lens)) lens)"
  "read_symbol (table_of (Max (set lens)) lens)"
  "\<lambda>_ s. code_stream (codes_of lens) lens (unat s)"
  "\<lambda>s. complete lens \<and> unat s < length lens \<and> 0 < lens ! unat s" for lens
proof (unfold_locales, goal_cases)
  case (1 w x)
  then have "lens ! unat x \<le> 16" using codes_of_nth(2) by blast
  then show ?case using 1 by (simp add: write_symbol_def write_bits_spec)
next
  case (2 w x)
  then have "lens ! unat x \<le> 16" using codes_of_nth(2) by blast
  then show ?case
    using 2 by (simp add: write_symbol_def write_bits_spec code_stream_def word_bits_ucast)
next
  case (3 r x n rest)
  then show ?case using read_symbol_delivers [of lens "unat x" r rest] by simp
qed

end
