(* ===== verification/HuffmanBuild.thy ===== *)
theory HuffmanBuild
  imports Huffman "HOL-Library.Product_Lexorder"
begin

text \<open>
  \<open>HuffmanTable::from_frequencies\<close> of \<open>src/huffman.rs\<close>: the Huffman tree over a binary heap, the
  walk that gives the depths, the repair of the length-limited counts to an exact Kraft sum and
  the assignment of lengths to symbols. The main result is that the lengths are complete, which
  is the hypothesis of the symbol codec.
\<close>

section \<open>The tree\<close>

text \<open>A node: its frequency and its children, by index.\<close>

type_synonym node = "nat \<times> nat option \<times> nat option"

text \<open>\<open>BinaryHeap<Reverse<(u64, usize)>>\<close>: a pop takes the least pair.\<close>

definition heap_pop :: "(nat \<times> nat) list \<Rightarrow> (nat \<times> nat) \<times> (nat \<times> nat) list" where
  "heap_pop h = (let m = Min (set h) in (m, remove1 m h))"

lemma heap_pop_shrinks:
  assumes "h \<noteq> []" "heap_pop h = (m, h')"
  shows "m \<in> set h \<and> h' = remove1 m h \<and> length h = Suc (length h')"
proof -
  have m: "m \<in> set h" "h' = remove1 m h"
    using assms Min_in [of "set h"] by (auto simp: heap_pop_def Let_def)
  then show ?thesis using length_pos_if_in_set [OF m(1)] by (simp add: length_remove1)
qed

definition merge_step :: "node list \<times> (nat \<times> nat) list \<Rightarrow> node list \<times> (nat \<times> nat) list" where
  "merge_step = (\<lambda>(nodes, heap).
     let ((f1, i1), heap) = heap_pop heap;
         ((f2, i2), heap) = heap_pop heap;
         idx = length nodes
     in (nodes @ [(f1 + f2, Some i1, Some i2)], (f1 + f2, idx) # heap))"

lemma merge_step_shrinks:
  assumes "1 < length heap"
  shows "length (snd (merge_step (nodes, heap))) < length heap"
proof -
  obtain m1 h1 where 1: "heap_pop heap = (m1, h1)" by (cases "heap_pop heap")
  obtain m2 h2 where 2: "heap_pop h1 = (m2, h2)" by (cases "heap_pop h1")
  have "length heap = Suc (length h1)" using heap_pop_shrinks [OF _ 1] assms by fastforce
  moreover from this assms have "length h1 = Suc (length h2)"
    using heap_pop_shrinks [OF _ 2] by fastforce
  ultimately show ?thesis by (auto simp: merge_step_def 1 2 split: prod.splits)
qed

function merge_loop :: "node list \<Rightarrow> (nat \<times> nat) list \<Rightarrow> node list \<times> (nat \<times> nat) list" where
  "merge_loop nodes heap =
     (if 1 < length heap
      then merge_loop (fst (merge_step (nodes, heap))) (snd (merge_step (nodes, heap)))
      else (nodes, heap))"
  by pat_completeness auto
termination
  by (relation "measure (\<lambda>(nodes, heap). length heap)") (simp_all add: merge_step_shrinks case_prod_beta)

declare merge_loop.simps [simp del]

text \<open>
  The walk with an explicit stack (its top first). Every node is pushed once, so as many steps
  as there are nodes are enough.
\<close>

fun depth_walk :: "nat \<Rightarrow> node list \<Rightarrow> (nat \<times> nat) list \<Rightarrow> nat list \<Rightarrow> nat list" where
  "depth_walk 0 nodes stack depths = depths"
| "depth_walk (Suc fuel) nodes [] depths = depths"
| "depth_walk (Suc fuel) nodes ((i, d) # stack) depths =
     depth_walk fuel nodes
       (case snd (nodes ! i) of (Some l, Some r) \<Rightarrow> (r, d + 1) # (l, d + 1) # stack | _ \<Rightarrow> stack)
       (depths[i := d])"

section \<open>Length limiting\<close>

definition limited_counts :: "nat \<Rightarrow> nat list \<Rightarrow> nat list" where
  "limited_counts ml depths =
     foldl (\<lambda>c d. c[min d ml := c ! min d ml + 1]) (replicate (ml + 1) 0) depths"

definition scaled :: "nat \<Rightarrow> nat list \<Rightarrow> nat" where
  "scaled ml bl = sum_list (map (\<lambda>l. bl ! l * 2 ^ (ml - l)) [1..<ml + 1])"

definition move_leaf :: "nat list \<Rightarrow> nat \<Rightarrow> nat \<Rightarrow> nat list" where
  "move_leaf bl a b = (let bl = bl[a := bl ! a - 1] in bl[b := bl ! b + 1])"

definition over_choice :: "nat \<Rightarrow> nat list \<Rightarrow> nat \<Rightarrow> nat option" where
  "over_choice ml bl excess =
     (case find (\<lambda>l. bl ! l > 0 \<and> 2 ^ (ml - l - 1) \<le> excess) [1..<ml] of
        Some l \<Rightarrow> Some l
      | None \<Rightarrow> find (\<lambda>l. bl ! l > 0) (rev [1..<ml]))"

fun over_loop :: "nat \<Rightarrow> nat \<Rightarrow> nat list \<Rightarrow> nat list" where
  "over_loop fuel ml bl =
     (if fuel = 0 \<or> scaled ml bl \<le> 2 ^ ml then bl
      else case over_choice ml bl (scaled ml bl - 2 ^ ml) of
             Some l \<Rightarrow> over_loop (fuel - 1) ml (move_leaf bl l (l + 1))
           | None \<Rightarrow> bl)"

declare over_loop.simps [simp del]

definition under_choice :: "nat \<Rightarrow> nat list \<Rightarrow> nat \<Rightarrow> nat option" where
  "under_choice ml bl deficit =
     (case find (\<lambda>l. bl ! l > 0 \<and> 2 ^ (ml - l) \<le> deficit) (rev [2..<ml + 1]) of
        Some l \<Rightarrow> Some l
      | None \<Rightarrow> find (\<lambda>l. bl ! l > 0) [2..<ml + 1])"

fun under_loop :: "nat \<Rightarrow> nat \<Rightarrow> nat list \<Rightarrow> nat list" where
  "under_loop fuel ml bl =
     (if fuel = 0 \<or> 2 ^ ml \<le> scaled ml bl then bl
      else case under_choice ml bl (2 ^ ml - scaled ml bl) of
             Some l \<Rightarrow> under_loop (fuel - 1) ml (move_leaf bl l (l - 1))
           | None \<Rightarrow> bl)"

declare under_loop.simps [simp del]

definition repair_counts :: "nat \<Rightarrow> nat list \<Rightarrow> nat list" where
  "repair_counts ml bl = under_loop 1000000 ml (over_loop 1000000 ml bl)"

text \<open>Shortest lengths to the most frequent symbols, ties by index.\<close>

definition assign_lengths :: "nat list \<Rightarrow> nat list \<Rightarrow> nat \<Rightarrow> nat list \<Rightarrow> nat list" where
  "assign_lengths freqs active ml bl =
     (let order = sort_key (\<lambda>a. (- int (freqs ! a), a)) active;
          lens = concat (map (\<lambda>l. replicate (bl ! l) l) [1..<ml + 1])
      in foldl (\<lambda>depths (s, l). depths[s := l]) (replicate (length freqs) 0) (zip order lens))"

definition active_symbols :: "nat list \<Rightarrow> nat list" where
  "active_symbols freqs = filter (\<lambda>i. freqs ! i > 0) [0..<length freqs]"

definition leaf_depths :: "nat list \<Rightarrow> nat list" where
  "leaf_depths fs =
     (let nodes = map (\<lambda>f. (f, None, None)) fs;
          (nodes, heap) = merge_loop nodes (rev (zip fs [0..<length fs]));
          root = snd (fst (heap_pop heap))
      in take (length fs) (depth_walk (length nodes) nodes [(root, 0)] (replicate (length nodes) 0)))"

definition frequency_lengths :: "nat list \<Rightarrow> nat \<Rightarrow> nat list" where
  "frequency_lengths freqs max_len =
     (let n = length freqs; active = active_symbols freqs
      in if active = [] then replicate n 0
         else if length active = 1 then
           let lengths = (replicate n 0)[active ! 0 := 1]
           in (case find (\<lambda>i. i \<noteq> active ! 0) [0..<n] of
                 Some other \<Rightarrow> lengths[other := 1]
               | None \<Rightarrow> lengths)
         else
           assign_lengths freqs active max_len
             (repair_counts max_len (limited_counts max_len (leaf_depths (map (\<lambda>s. freqs ! s) active)))))"

definition from_frequencies :: "nat list \<Rightarrow> nat \<Rightarrow> huffman_table result" where
  "from_frequencies freqs max_len =
     (if freqs = [] then from_lengths [] else from_lengths (frequency_lengths freqs max_len))"

lemma find_SomeD: "find P xs = Some x \<Longrightarrow> x \<in> set xs \<and> P x"
  by (induction xs) (auto split: if_splits)

lemma find_ex: "x \<in> set xs \<Longrightarrow> P x \<Longrightarrow> \<exists>y. find P xs = Some y"
  by (induction xs) auto

section \<open>The repair\<close>

lemma move_leaf_sum:
  assumes "a \<noteq> b" "1 \<le> a" "a \<le> ml" "1 \<le> b" "b \<le> ml" "length bl = ml + 1" "0 < bl ! a"
  shows "(\<Sum>l = 1..ml. move_leaf bl a b ! l * g l) + g a = (\<Sum>l = 1..ml. bl ! l * g l) + (g b :: nat)"
proof -
  have nth: "move_leaf bl a b ! l = (if l = a then bl ! a - 1 else if l = b then bl ! b + 1 else bl ! l)"
    if "l \<le> ml" for l
    using assms that by (auto simp: move_leaf_def Let_def nth_list_update)
  have "(\<Sum>l = 1..ml. move_leaf bl a b ! l * g l) + (\<Sum>l = 1..ml. if l = a then g a else 0)
      = (\<Sum>l = 1..ml. move_leaf bl a b ! l * g l + (if l = a then g a else 0))"
    by (simp only: sum.distrib)
  also have "\<dots> = (\<Sum>l = 1..ml. bl ! l * g l + (if l = b then g b else 0))"
  proof (rule sum.cong [OF refl])
    fix l assume l: "l \<in> {1..ml}"
    obtain k where "bl ! a = Suc k" using assms(7) by (cases "bl ! a") auto
    then show "move_leaf bl a b ! l * g l + (if l = a then g a else 0) = bl ! l * g l + (if l = b then g b else 0)"
      using nth [of l] l assms(1) by auto
  qed
  also have "\<dots> = (\<Sum>l = 1..ml. bl ! l * g l) + (\<Sum>l = 1..ml. if l = b then g b else 0)"
    by (simp only: sum.distrib)
  finally show ?thesis using assms by simp
qed

lemma scaled_sum: "scaled ml bl = (\<Sum>l = 1..ml. bl ! l * 2 ^ (ml - l))"
  by (simp add: scaled_def interv_sum_list_conv_sum_set_nat atLeastLessThanSuc_atLeastAtMost del: upt_Suc)

definition counts_ok :: "nat \<Rightarrow> nat \<Rightarrow> nat list \<Rightarrow> bool" where
  "counts_ok n ml bl \<longleftrightarrow> length bl = ml + 1 \<and> bl ! 0 = 0 \<and> (\<Sum>l = 1..ml. bl ! l) = n"

lemma move_leaf_ok:
  assumes "counts_ok n ml bl" "a \<noteq> b" "1 \<le> a" "a \<le> ml" "1 \<le> b" "b \<le> ml" "0 < bl ! a"
  shows "counts_ok n ml (move_leaf bl a b)"
  using move_leaf_sum [OF assms(2-6) _ assms(7), where g = "\<lambda>_. 1"] assms
  by (auto simp: counts_ok_def move_leaf_def Let_def)

lemma over_choice_spec:
  assumes ok: "counts_ok n ml bl" and n: "n \<le> 2 ^ ml" and over: "2 ^ ml < scaled ml bl"
  obtains l where "over_choice ml bl x = Some l" "1 \<le> l" "l < ml" "0 < bl ! l"
proof (cases "find (\<lambda>l. bl ! l > 0 \<and> 2 ^ (ml - l - 1) \<le> x) [1..<ml]")
  case (Some l)
  then show ?thesis using that [of l] find_SomeD [OF Some] by (auto simp: over_choice_def)
next
  case None
  have "\<exists>l\<in>{1..<ml}. 0 < bl ! l"
  proof (rule ccontr)
    assume "\<not> (\<exists>l\<in>{1..<ml}. 0 < bl ! l)"
    then have z: "bl ! l = 0" if "1 \<le> l" "l < ml" for l using that by simp
    have "scaled ml bl = (\<Sum>l = 1..ml. bl ! l)"
      unfolding scaled_sum by (rule sum.cong) (use z in \<open>auto simp: le_less\<close>)
    then show False using ok n over by (simp add: counts_ok_def)
  qed
  then obtain l' where l': "l' \<in> set (rev [1..<ml])" "0 < bl ! l'" by auto
  obtain l where l: "find (\<lambda>l. bl ! l > 0) (rev [1..<ml]) = Some l"
    using find_ex [of l' _ "\<lambda>l. bl ! l > 0", OF l'] by blast
  then show ?thesis using None that [of l] find_SomeD [OF l] by (auto simp: over_choice_def)
qed

text \<open>Each move lengthens one code by one bit, so the first loop ends; it ends at or below one.\<close>

lemma over_loop_spec:
  assumes "counts_ok n ml bl" "n \<le> 2 ^ ml" "(\<Sum>l = 1..ml. bl ! l * (ml - l)) < fuel"
  shows "counts_ok n ml (over_loop fuel ml bl) \<and> scaled ml (over_loop fuel ml bl) \<le> 2 ^ ml"
  using assms
proof (induction fuel ml bl rule: over_loop.induct)
  case (1 fuel ml bl)
  show ?case
  proof (cases "scaled ml bl \<le> 2 ^ ml")
    case True
    then show ?thesis using "1.prems" by (simp add: over_loop.simps)
  next
    case False
    obtain l where l: "over_choice ml bl (scaled ml bl - 2 ^ ml) = Some l" "1 \<le> l" "l < ml" "0 < bl ! l"
      using over_choice_spec [OF "1.prems"(1,2)] False by (metis not_le)
    let ?bl = "move_leaf bl l (l + 1)"
    have ok: "counts_ok n ml ?bl" by (rule move_leaf_ok [OF "1.prems"(1)]) (use l in auto)
    have "(\<Sum>j = 1..ml. ?bl ! j * (ml - j)) + (ml - l) = (\<Sum>j = 1..ml. bl ! j * (ml - j)) + (ml - (l + 1))"
      by (rule move_leaf_sum) (use l "1.prems"(1) in \<open>auto simp: counts_ok_def\<close>)
    then have "(\<Sum>j = 1..ml. ?bl ! j * (ml - j)) < fuel - 1" using "1.prems"(3) l(3) by simp
    with "1.IH" [OF _ l(1)] ok "1.prems" False
    show ?thesis by (subst (1 2) over_loop.simps) (simp add: l(1))
  qed
qed

text \<open>
  Below one, the longest used length always fits into the deficit, because both are multiples of
  its weight: the second loop climbs to exactly one.
\<close>

lemma under_choice_spec:
  assumes ok: "counts_ok n ml bl" and n: "2 \<le> n" and ml: "1 \<le> ml" and under: "scaled ml bl < 2 ^ ml"
  obtains l where "under_choice ml bl (2 ^ ml - scaled ml bl) = Some l" "2 \<le> l" "l \<le> ml" "0 < bl ! l"
    "scaled ml bl + 2 ^ (ml - l) \<le> 2 ^ ml"
proof -
  let ?U = "{l \<in> {1..ml}. 0 < bl ! l}"
  have "?U \<noteq> {}"
  proof
    assume "?U = {}"
    then have "(\<Sum>l = 1..ml. bl ! l) = 0" by auto
    then show False using ok n by (simp add: counts_ok_def)
  qed
  define L where "L = Max ?U"
  have L: "1 \<le> L" "L \<le> ml" "0 < bl ! L" using Max_in [OF _ \<open>?U \<noteq> {}\<close>] by (auto simp: L_def)
  have top: "bl ! l = 0" if "L < l" "l \<le> ml" for l
  proof (rule ccontr)
    assume "bl ! l \<noteq> 0"
    then have "l \<in> ?U" using that L by auto
    then have "l \<le> L" unfolding L_def by (intro Max_ge) auto
    with that show False by simp
  qed
  have dvd: "2 ^ (ml - L) dvd scaled ml bl" unfolding scaled_sum
  proof (rule dvd_sum)
    fix l assume "l \<in> {1..ml}"
    then show "2 ^ (ml - L) dvd bl ! l * 2 ^ (ml - l)"
      using top [of l] le_imp_power_dvd [of "ml - L" "ml - l" "2::nat"] by (cases "L < l") auto
  qed
  have "2 ^ (ml - L) dvd (2::nat) ^ ml" by (rule le_imp_power_dvd) simp
  with dvd have "2 ^ (ml - L) dvd 2 ^ ml - scaled ml bl" by (rule dvd_diff_nat [rotated])
  then have fits: "2 ^ (ml - L) \<le> 2 ^ ml - scaled ml bl" using under by (intro dvd_imp_le) auto
  have "2 \<le> L"
  proof (rule ccontr)
    assume "\<not> 2 \<le> L"
    then have one: "bl ! l = 0" if "1 < l" "l \<le> ml" for l using top [of l] that by simp
    have "{1..ml} = insert 1 {2..ml}" using ml by auto
    then have "scaled ml bl = bl ! 1 * 2 ^ (ml - 1)" "n = bl ! 1"
      using ok one by (simp_all add: scaled_sum counts_ok_def)
    moreover have "(2::nat) ^ ml = 2 * 2 ^ (ml - 1)" using ml by (simp flip: power_Suc)
    ultimately show False using n under by simp
  qed
  then have "L \<in> set (rev [2..<ml + 1])" using L by (simp del: upt_Suc)
  then obtain l where l: "find (\<lambda>l. bl ! l > 0 \<and> 2 ^ (ml - l) \<le> 2 ^ ml - scaled ml bl) (rev [2..<ml + 1]) = Some l"
    using find_ex [of L "rev [2..<ml + 1]" "\<lambda>l. bl ! l > 0 \<and> 2 ^ (ml - l) \<le> 2 ^ ml - scaled ml bl"]
      L(3) fits by blast
  show ?thesis
    using that [of l] l find_SomeD [OF l] under by (auto simp: under_choice_def)
qed

lemma under_loop_spec:
  assumes "counts_ok n ml bl" "2 \<le> n" "1 \<le> ml" "scaled ml bl \<le> 2 ^ ml" "(\<Sum>l = 1..ml. bl ! l * l) < fuel"
  shows "counts_ok n ml (under_loop fuel ml bl) \<and> scaled ml (under_loop fuel ml bl) = 2 ^ ml"
  using assms
proof (induction fuel ml bl rule: under_loop.induct)
  case (1 fuel ml bl)
  show ?case
  proof (cases "2 ^ ml \<le> scaled ml bl")
    case True
    then show ?thesis using "1.prems" by (simp add: under_loop.simps)
  next
    case False
    then have lt: "scaled ml bl < 2 ^ ml" by simp
    obtain l where l: "under_choice ml bl (2 ^ ml - scaled ml bl) = Some l" "2 \<le> l" "l \<le> ml" "0 < bl ! l"
      "scaled ml bl + 2 ^ (ml - l) \<le> 2 ^ ml"
      using under_choice_spec [OF "1.prems"(1-3) lt] by metis
    let ?bl = "move_leaf bl l (l - 1)"
    have len: "length bl = ml + 1" using "1.prems"(1) by (simp add: counts_ok_def)
    have ok: "counts_ok n ml ?bl" by (rule move_leaf_ok [OF "1.prems"(1)]) (use l in auto)
    have "(\<Sum>j = 1..ml. ?bl ! j * j) + l = (\<Sum>j = 1..ml. bl ! j * j) + (l - 1)"
      by (rule move_leaf_sum) (use l len in auto)
    then have less: "(\<Sum>j = 1..ml. ?bl ! j * j) < fuel - 1" using "1.prems"(5) l(2) by simp
    have "(\<Sum>j = 1..ml. ?bl ! j * 2 ^ (ml - j)) + 2 ^ (ml - l)
        = (\<Sum>j = 1..ml. bl ! j * 2 ^ (ml - j)) + 2 ^ (ml - (l - 1))"
      by (rule move_leaf_sum) (use l len in auto)
    moreover have "(2::nat) ^ (ml - (l - 1)) = 2 * 2 ^ (ml - l)"
      using l(2,3) by (simp flip: power_Suc add: Suc_diff_le)
    ultimately have "scaled ml ?bl \<le> 2 ^ ml" using l(5) by (simp add: scaled_sum)
    with "1.IH" [OF _ l(1)] ok "1.prems"(2,3,5) less lt
    show ?thesis by (subst (1 2) under_loop.simps) (simp add: l(1))
  qed
qed

lemma repair_counts_spec:
  assumes ok: "counts_ok n ml bl" and n: "2 \<le> n" "n \<le> 2 ^ ml" and ml: "1 \<le> ml" "n * ml < 1000000"
  shows "counts_ok n ml (repair_counts ml bl) \<and> scaled ml (repair_counts ml bl) = 2 ^ ml"
proof -
  have bound: "(\<Sum>l = 1..ml. c ! l * g l) < 1000000"
    if "counts_ok n ml c" "\<And>l. 1 \<le> l \<Longrightarrow> l \<le> ml \<Longrightarrow> g l \<le> ml" for c and g :: "nat \<Rightarrow> nat"
  proof -
    have "(\<Sum>l = 1..ml. c ! l * g l) \<le> (\<Sum>l = 1..ml. c ! l * ml)"
      by (rule sum_mono) (use that(2) in auto)
    also have "\<dots> = n * ml" using that(1) by (simp add: counts_ok_def flip: sum_distrib_right)
    finally show ?thesis using ml(2) by simp
  qed
  have o: "counts_ok n ml (over_loop 1000000 ml bl) \<and> scaled ml (over_loop 1000000 ml bl) \<le> 2 ^ ml"
    by (rule over_loop_spec [OF ok n(2)]) (rule bound [OF ok], simp)
  show ?thesis unfolding repair_counts_def
    by (rule under_loop_spec) (use o n ml bound in auto)
qed

section \<open>Every leaf is below the root\<close>

datatype tree = Leaf nat | Node nat tree tree

fun tree_size :: "tree \<Rightarrow> nat" where
  "tree_size (Leaf i) = 1"
| "tree_size (Node i l r) = 1 + tree_size l + tree_size r"

fun leaves :: "tree \<Rightarrow> nat set" where
  "leaves (Leaf i) = {i}"
| "leaves (Node i l r) = leaves l \<union> leaves r"

text \<open>The tree that a node index stands for.\<close>

inductive represents :: "node list \<Rightarrow> nat \<Rightarrow> tree \<Rightarrow> bool" where
  leaf: "i < length nodes \<Longrightarrow> snd (nodes ! i) = (None, None) \<Longrightarrow> represents nodes i (Leaf i)"
| node: "i < length nodes \<Longrightarrow> snd (nodes ! i) = (Some a, Some b) \<Longrightarrow>
    represents nodes a l \<Longrightarrow> represents nodes b r \<Longrightarrow> represents nodes i (Node i l r)"

inductive_cases represents_LeafE: "represents nodes i (Leaf j)"
inductive_cases represents_NodeE: "represents nodes i (Node j l r)"

lemma represents_append: "represents nodes i t \<Longrightarrow> represents (nodes @ new) i t"
  by (induction rule: represents.induct) (auto intro: represents.intros simp: nth_append)

lemma represents_bound: "represents nodes i t \<Longrightarrow> i < length nodes"
  by (cases rule: represents.cases) auto

fun set_depths :: "tree \<Rightarrow> nat \<Rightarrow> nat list \<Rightarrow> nat list" where
  "set_depths (Leaf i) d ds = ds[i := d]"
| "set_depths (Node i l r) d ds = set_depths l (d + 1) (set_depths r (d + 1) (ds[i := d]))"

lemma depth_walk_tree:
  "represents nodes i t \<Longrightarrow>
    depth_walk (tree_size t + fuel) nodes ((i, d) # stack) ds = depth_walk fuel nodes stack (set_depths t d ds)"
proof (induction arbitrary: d stack ds fuel rule: represents.induct)
  case (node i nodes a b l r)
  have "tree_size (Node i l r) + fuel = Suc (tree_size r + (tree_size l + fuel))" by simp
  then show ?case using node by (simp only: depth_walk.simps option.case prod.case set_depths.simps)
qed simp

lemma length_set_depths [simp]: "length (set_depths t d ds) = length ds"
  by (induction t arbitrary: d ds) auto

lemma nth_list_update_any: "xs[i := x] ! j = (if i = j \<and> i < length xs then x else xs ! j)"
  by (cases "i < length xs") (auto simp: nth_list_update not_less list_update_beyond)

lemma set_depths_ge:
  "m \<le> d \<Longrightarrow> m \<le> ds ! j \<Longrightarrow> m \<le> set_depths t d ds ! j"
  by (induction t arbitrary: d ds) (simp_all add: nth_list_update_any)

lemma set_depths_leaf:
  "j \<in> leaves t \<Longrightarrow> m \<le> d \<Longrightarrow> j < length ds \<Longrightarrow> m \<le> set_depths t d ds ! j"
proof (induction t arbitrary: d ds)
  case (Node i l r)
  show ?case
  proof (cases "j \<in> leaves l")
    case True
    then show ?thesis using Node.IH(1) [OF True] Node.prems by simp
  next
    case False
    then have "m \<le> set_depths r (d + 1) (ds[i := d]) ! j" using Node.prems by (intro Node.IH(2)) auto
    then show ?thesis using Node.prems by (simp add: set_depths_ge)
  qed
qed simp

text \<open>
  The invariant of the merge loop: the heap holds the roots of a forest over all nodes that
  contains every leaf.
\<close>

definition forest :: "nat \<Rightarrow> node list \<Rightarrow> (nat \<times> nat) list \<Rightarrow> (nat \<Rightarrow> tree) \<Rightarrow> bool" where
  "forest n nodes heap T \<longleftrightarrow>
     (\<forall>h\<in>set heap. represents nodes (snd h) (T (snd h)))
     \<and> sum_list (map (\<lambda>h. tree_size (T (snd h))) heap) = length nodes
     \<and> {..<n} \<subseteq> (\<Union>h\<in>set heap. leaves (T (snd h)))"

lemma forest_pop:
  assumes "h \<noteq> []" "heap_pop h = (m, h')"
  shows "set h = insert m (set h')" "sum_list (map g h) = g m + (sum_list (map g h') :: nat)"
proof -
  note P = heap_pop_shrinks [OF assms]
  have "set xs = insert m (set (remove1 m xs))" if "m \<in> set xs" for xs
    using that by (induction xs) auto
  then show "set h = insert m (set h')" using P by simp
  show "sum_list (map g h) = g m + sum_list (map g h')"
    using P by (simp add: sum_list_map_remove1)
qed

lemma forest_step:
  assumes f: "forest n nodes heap T" and l: "1 < length heap"
  shows "\<exists>T'. forest n (fst (merge_step (nodes, heap))) (snd (merge_step (nodes, heap))) T'"
proof -
  obtain f1 i1 h1 where 1: "heap_pop heap = ((f1, i1), h1)" by (metis prod.exhaust)
  obtain f2 i2 h2 where 2: "heap_pop h1 = ((f2, i2), h2)" by (metis prod.exhaust)
  have ne1: "heap \<noteq> []" using l by auto
  with heap_pop_shrinks [OF this 1] l have ne: "heap \<noteq> []" "h1 \<noteq> []" by auto
  note P1 = forest_pop [OF ne(1) 1] and P2 = forest_pop [OF ne(2) 2]
  let ?idx = "length nodes" and ?T = "T(length nodes := Node (length nodes) (T i1) (T i2))"
  let ?nodes = "nodes @ [(f1 + f2, Some i1, Some i2)]"
  have st: "merge_step (nodes, heap) = (?nodes, (f1 + f2, ?idx) # h2)"
    by (simp add: merge_step_def 1 2)
  have rep: "represents nodes (snd h) (T (snd h))" if "h \<in> set heap" for h
    using f that by (simp add: forest_def)
  have mem: "(f1, i1) \<in> set heap" "(f2, i2) \<in> set heap" "set h2 \<subseteq> set heap"
    using P1(1) P2(1) by auto
  have same: "?T (snd h) = T (snd h)" if "h \<in> set heap" for h
    using represents_bound [OF rep [OF that]] by simp
  have "forest n ?nodes ((f1 + f2, ?idx) # h2) ?T"
    unfolding forest_def
  proof (intro conjI ballI)
    fix h assume "h \<in> set ((f1 + f2, ?idx) # h2)"
    then consider "h = (f1 + f2, ?idx)" | "h \<in> set heap" using mem(3) by auto
    then show "represents ?nodes (snd h) (?T (snd h))"
    proof cases
      case 1
      have "represents ?nodes ?idx (Node ?idx (T i1) (T i2))"
        using represents_append [OF rep [OF mem(1)]] represents_append [OF rep [OF mem(2)]]
        by (intro represents.node) auto
      then show ?thesis using 1 by simp
    next
      case 2
      then show ?thesis using same [OF 2] rep [OF 2] by (simp add: represents_append)
    qed
  next
    have "(\<Sum>h\<leftarrow>h2. tree_size (?T (snd h))) = (\<Sum>h\<leftarrow>h2. tree_size (T (snd h)))"
      using same mem(3) by (intro arg_cong [where f = sum_list] map_cong [OF refl]) (metis subsetD)
    moreover have "sum_list (map (\<lambda>h. tree_size (T (snd h))) heap) = length nodes"
      using f by (simp add: forest_def)
    ultimately show "sum_list (map (\<lambda>h. tree_size (?T (snd h))) ((f1 + f2, ?idx) # h2)) = length ?nodes"
      using P1(2) [of "\<lambda>h. tree_size (T (snd h))"] P2(2) [of "\<lambda>h. tree_size (T (snd h))"]
      by (simp del: fun_upd_apply add: fun_upd_same)
  next
    have "(\<Union>h\<in>set heap. leaves (T (snd h)))
        = leaves (T i1) \<union> leaves (T i2) \<union> (\<Union>h\<in>set h2. leaves (T (snd h)))"
      using P1(1) P2(1) by auto
    also have "\<dots> = (\<Union>h\<in>set ((f1 + f2, ?idx) # h2). leaves (?T (snd h)))"
    proof -
      have "(\<Union>h\<in>set h2. leaves (?T (snd h))) = (\<Union>h\<in>set h2. leaves (T (snd h)))"
        using same mem(3) by (intro SUP_cong [OF refl]) (metis subsetD)
      then show ?thesis by (simp del: fun_upd_apply add: fun_upd_same)
    qed
    finally show "{..<n} \<subseteq> (\<Union>h\<in>set ((f1 + f2, ?idx) # h2). leaves (?T (snd h)))"
      using f by (simp add: forest_def)
  qed
  then show ?thesis unfolding st by auto
qed

lemma merge_loop_forest:
  assumes "forest n nodes heap T" "heap \<noteq> []"
  shows "\<exists>T' h. snd (merge_loop nodes heap) = [h] \<and> forest n (fst (merge_loop nodes heap)) [h] T'"
  using assms
proof (induction nodes heap arbitrary: T rule: merge_loop.induct)
  case (1 nodes heap)
  show ?case
  proof (cases "1 < length heap")
    case True
    have "snd (merge_step (nodes, heap)) \<noteq> []"
      by (auto simp: merge_step_def split: prod.splits)
    with forest_step [OF "1.prems"(1) True] "1.IH" [OF True] True show ?thesis
      by (subst (1 2) merge_loop.simps) auto
  next
    case False
    with "1.prems"(2) obtain h where "heap = [h]" by (cases heap) auto
    with False "1.prems" show ?thesis by (subst (1 2) merge_loop.simps) auto
  qed
qed

lemma leaf_depths_pos:
  assumes "2 \<le> length fs"
  shows "length (leaf_depths fs) = length fs" "d \<in> set (leaf_depths fs) \<Longrightarrow> 1 \<le> d"
proof -
  let ?n = "length fs" and ?nodes = "map (\<lambda>f. (f, None, None)) fs :: node list"
  let ?heap = "rev (zip fs [0..<length fs])"
  have hs: "set ?heap = (\<lambda>i. (fs ! i, i)) ` {..<?n}"
    by (auto simp: set_zip)
  have "sum_list (map (\<lambda>h. tree_size (Leaf (snd h))) ?heap) = ?n"
    by (simp add: sum_list_triv)
  then have F: "forest ?n ?nodes ?heap Leaf"
    unfolding forest_def hs by (auto intro!: represents.leaf)
  have ne: "?heap \<noteq> []" using assms by (cases fs) auto
  obtain nodes h T where M: "merge_loop ?nodes ?heap = (nodes, [h])" and f: "forest ?n nodes [h] T"
    using merge_loop_forest [OF F ne] by (metis prod.collapse)
  have pop: "heap_pop [h] = (h, [])" by (simp add: heap_pop_def)
  define t where "t = T (snd h)"
  have t: "represents nodes (snd h) t" "tree_size t = length nodes" "{..<?n} \<subseteq> leaves t"
    using f by (simp_all add: forest_def t_def)
  have ds: "leaf_depths fs = take ?n (set_depths t 0 (replicate (length nodes) 0))"
    using depth_walk_tree [OF t(1), of 0 0 "[]"] t(2) by (simp add: leaf_depths_def M pop)
  have fin: "finite (leaves t)" "card (leaves t) \<le> tree_size t" for t
    by (induction t) (auto intro: le_trans [OF card_Un_le])
  have len: "?n \<le> length nodes"
    using card_mono [OF fin(1) t(3)] fin(2) [of t] t(2) by simp
  then show "length (leaf_depths fs) = ?n" by (simp add: ds)
  fix d assume "d \<in> set (leaf_depths fs)"
  then obtain j where j: "j < ?n" "d = leaf_depths fs ! j"
    using \<open>length (leaf_depths fs) = ?n\<close> by (metis in_set_conv_nth)
  show "1 \<le> d"
  proof (cases t)
    case (Leaf i)
    have "0 \<in> {..<?n}" "1 \<in> {..<?n}" using assms by auto
    then have "0 \<in> {i}" "1 \<in> {i}" using t(3) Leaf by (metis leaves.simps(1) subsetD)+
    then show ?thesis by simp
  next
    case (Node i l r)
    let ?ds = "(replicate (length nodes) (0::nat))[i := 0]"
    have "j \<in> leaves l \<or> j \<in> leaves r" using t(3) j(1) Node by auto
    then have "1 \<le> set_depths l 1 (set_depths r 1 ?ds) ! j"
    proof
      assume "j \<in> leaves l"
      then show ?thesis using j(1) len by (intro set_depths_leaf) auto
    next
      assume "j \<in> leaves r"
      then have "1 \<le> set_depths r 1 ?ds ! j" using j(1) len by (intro set_depths_leaf) auto
      then show ?thesis by (rule set_depths_ge [OF order_refl])
    qed
    then show ?thesis using j by (simp add: ds Node)
  qed
qed

section \<open>Complete lengths\<close>

lemma limited_counts_ok:
  assumes "\<forall>d\<in>set ds. 1 \<le> d" "1 \<le> ml"
  shows "counts_ok (length ds) ml (limited_counts ml ds)"
  using assms(1) unfolding limited_counts_def
proof (induction ds rule: rev_induct)
  case Nil
  then show ?case by (simp add: counts_ok_def del: replicate.simps replicate_Suc)
next
  case (snoc d ds)
  define c where "c = foldl (\<lambda>c d. c[min d ml := c ! min d ml + 1]) (replicate (ml + 1) (0::nat)) ds"
  define k where "k = min d ml"
  have IH: "counts_ok (length ds) ml c" using snoc by (simp add: c_def)
  have k: "k \<in> {1..ml}" "k < length c" using snoc.prems assms(2) IH by (auto simp: counts_ok_def k_def)
  have "(\<Sum>l = 1..ml. c[k := c ! k + 1] ! l) = (\<Sum>l = 1..ml. c ! l + (if l = k then 1 else 0))"
    by (rule sum.cong) (use k(2) in auto)
  also have "\<dots> = (\<Sum>l = 1..ml. c ! l) + 1" using k(1) by (simp add: sum.distrib)
  finally have "counts_ok (length (ds @ [d])) ml (c[k := c ! k + 1])"
    using IH k(1) by (auto simp: counts_ok_def)
  then show ?case unfolding foldl_append foldl.simps c_def k_def .
qed

lemma assign_fold_kraft:
  fixes h :: "nat \<Rightarrow> nat"
  assumes "distinct order" "length order = length ls" "\<forall>s\<in>set order. s < length ds \<and> ds ! s = 0" "h 0 = 0"
  defines "r \<equiv> foldl (\<lambda>depths (s, l). depths[s := l]) ds (zip order ls)"
  shows "length r = length ds \<and> sum_list (map h r) = sum_list (map h ds) + sum_list (map h ls)
    \<and> (\<forall>s. s \<notin> set order \<longrightarrow> r ! s = ds ! s) \<and> (\<forall>s\<in>set order. r ! s \<in> set ls)"
  using assms(2,1,3) unfolding r_def
proof (induction order ls arbitrary: ds rule: list_induct2)
  case (Cons s order l ls)
  let ?ds = "ds[s := l]"
  let ?r = "foldl (\<lambda>depths (s, l). depths[s := l]) ?ds (zip order ls)"
  have "\<forall>u\<in>set order. u < length ?ds \<and> ?ds ! u = 0" using Cons.prems by (auto simp: nth_list_update)
  then have IH: "length ?r = length ?ds" "sum_list (map h ?r) = sum_list (map h ?ds) + sum_list (map h ls)"
    "\<And>u. u \<notin> set order \<Longrightarrow> ?r ! u = ?ds ! u" "\<And>u. u \<in> set order \<Longrightarrow> ?r ! u \<in> set ls"
    using Cons.IH [of ?ds] Cons.prems(1) by auto
  have "sum_list (map h ?ds) = sum_list (map h ds) + h l"
    using Cons.prems(2) assms(4) by (simp add: map_update sum_list_update)
  then show ?case using IH Cons.prems by (auto simp: nth_list_update)
qed simp

definition length_list :: "nat \<Rightarrow> nat list \<Rightarrow> nat list" where
  "length_list ml bl = concat (map (\<lambda>l. replicate (bl ! l) l) [1..<ml + 1])"

lemma length_list_props:
  "length (length_list ml bl) = (\<Sum>l = 1..ml. bl ! l)"
  "(\<Sum>l\<leftarrow>length_list ml bl. if l = 0 then 0 else 2 ^ (ml - l)) = scaled ml bl"
  "l \<in> set (length_list ml bl) \<Longrightarrow> 1 \<le> l \<and> l \<le> ml"
proof -
  show "length (length_list ml bl) = (\<Sum>l = 1..ml. bl ! l)"
    by (simp add: length_list_def length_concat comp_def interv_sum_list_conv_sum_set_nat
      atLeastLessThanSuc_atLeastAtMost del: upt_Suc)
  have "(\<Sum>l\<leftarrow>concat (map (\<lambda>l. replicate (bl ! l) l) xs). if l = 0 then 0 else 2 ^ (ml - l))
      = (\<Sum>l\<leftarrow>xs. bl ! l * 2 ^ (ml - l))" if "\<forall>l\<in>set xs. 0 < l" for xs
    using that by (induction xs) (auto simp: sum_list_replicate)
  then show "(\<Sum>l\<leftarrow>length_list ml bl. if l = 0 then 0 else 2 ^ (ml - l)) = scaled ml bl"
    unfolding length_list_def scaled_def by (simp del: upt_Suc)
  show "l \<in> set (length_list ml bl) \<Longrightarrow> 1 \<le> l \<and> l \<le> ml"
    by (auto simp: length_list_def simp del: upt_Suc)
qed

lemma assign_lengths_spec:
  assumes ok: "counts_ok (length active) ml bl" and act: "active = active_symbols freqs"
  defines "r \<equiv> assign_lengths freqs active ml bl"
  shows "length r = length freqs" "kraft ml r = scaled ml bl" "\<forall>l\<in>set r. l \<le> ml"
    "s < length freqs \<Longrightarrow> 0 < r ! s \<longleftrightarrow> 0 < freqs ! s"
proof -
  define order where "order = sort_key (\<lambda>a. (- int (freqs ! a), a)) active"
  have set: "set order = {s. s < length freqs \<and> 0 < freqs ! s}"
    by (auto simp: order_def act active_symbols_def)
  have dist: "distinct order" by (simp add: order_def act active_symbols_def)
  have len: "length order = length (length_list ml bl)"
    using ok by (simp add: order_def length_list_props(1) counts_ok_def)
  have r: "r = foldl (\<lambda>depths (s, l). depths[s := l]) (replicate (length freqs) 0) (zip order (length_list ml bl))"
    by (simp add: r_def assign_lengths_def order_def length_list_def Let_def)
  note F = assign_fold_kraft [OF dist len, of "replicate (length freqs) 0"]
  have z: "\<forall>s\<in>set order. s < length (replicate (length freqs) (0::nat)) \<and> replicate (length freqs) (0::nat) ! s = 0"
    by (simp add: set)
  note F' = F [OF z, where h = "\<lambda>l. if l = 0 then 0 else 2 ^ (ml - l)", simplified, folded r]
  show l: "length r = length freqs" using F' by simp
  show "kraft ml r = scaled ml bl"
    using F' length_list_props(2) [of ml bl] by (simp add: kraft_def)
  have in_out: "s \<notin> set order \<Longrightarrow> s < length freqs \<Longrightarrow> r ! s = 0" "s \<in> set order \<Longrightarrow> 1 \<le> r ! s \<and> r ! s \<le> ml" for s
    using F' length_list_props(3) [of "r ! s" ml bl] by auto
  show "\<forall>l\<in>set r. l \<le> ml"
  proof
    fix l assume "l \<in> set r"
    then obtain s where "s < length freqs" "l = r ! s" using l by (auto simp: in_set_conv_nth)
    then show "l \<le> ml" using in_out [of s] by (cases "s \<in> set order") auto
  qed
  show "0 < r ! s \<longleftrightarrow> 0 < freqs ! s" if "s < length freqs"
    using in_out [of s] that set by (cases "s \<in> set order") auto
qed

lemma frequency_lengths_full:
  assumes two: "2 \<le> length (active_symbols freqs)" and fit: "length (active_symbols freqs) \<le> 2 ^ ml"
    and ml: "1 \<le> ml" "ml \<le> 16" and steps: "length (active_symbols freqs) * ml < 1000000"
  shows "complete (frequency_lengths freqs ml) \<and> length (frequency_lengths freqs ml) = length freqs
    \<and> (\<forall>s<length freqs. 0 < frequency_lengths freqs ml ! s \<longleftrightarrow> 0 < freqs ! s)
    \<and> (\<forall>l\<in>set (frequency_lengths freqs ml). l \<le> ml)"
proof -
  let ?a = "active_symbols freqs"
  let ?ds = "leaf_depths (map ((!) freqs) ?a)"
  have ds: "length ?ds = length ?a" "\<forall>d\<in>set ?ds. 1 \<le> d"
    using leaf_depths_pos [of "map ((!) freqs) ?a"] two by auto
  have ok: "counts_ok (length ?a) ml (limited_counts ml ?ds)"
    using limited_counts_ok [OF ds(2) ml(1)] ds(1) by simp
  define bl where "bl = repair_counts ml (limited_counts ml ?ds)"
  have bl: "counts_ok (length ?a) ml bl" "scaled ml bl = 2 ^ ml"
    using repair_counts_spec [OF ok two fit ml(1) steps] by (simp_all add: bl_def)
  have fl: "frequency_lengths freqs ml = assign_lengths freqs ?a ml bl"
    using two by (auto simp: frequency_lengths_def bl_def Let_def)
  note A = assign_lengths_spec [OF bl(1) refl, folded fl]
  have "kraft 16 (frequency_lengths freqs ml) = 2 ^ (16 - ml) * 2 ^ ml"
    using kraft_shift [of "frequency_lengths freqs ml" ml 16] A(2,3) bl(2) ml by simp
  also have "\<dots> = 2 ^ 16" using ml by (simp flip: power_add)
  finally have "complete (frequency_lengths freqs ml)"
    using A(3) ml by (auto simp: complete_def)
  then show ?thesis using A(1,3,4) by blast
qed

lemma frequency_lengths_many:
  assumes "2 \<le> length (active_symbols freqs)" "length (active_symbols freqs) \<le> 2 ^ ml"
    and "1 \<le> ml" "ml \<le> 16" "length (active_symbols freqs) * ml < 1000000"
  shows "complete (frequency_lengths freqs ml) \<and> length (frequency_lengths freqs ml) = length freqs
    \<and> (\<forall>s<length freqs. 0 < frequency_lengths freqs ml ! s \<longleftrightarrow> 0 < freqs ! s)"
  using frequency_lengths_full [OF assms] by (elim conjE, intro conjI)

lemma kraft_16_two_ones:
  assumes "a < n" "b < n" "a \<noteq> b"
  shows "complete ((replicate n 0)[a := 1, b := 1])"
proof -
  have "sum_list ((map (\<lambda>l. if l = 0 then 0 else (2::nat) ^ (16 - l)) (replicate n 0))[a := 2 ^ 15, b := 2 ^ 15]) = 2 ^ 16"
    using assms by (simp add: sum_list_update nth_list_update)
  then have "kraft 16 ((replicate n 0)[a := 1, b := 1]) = 2 ^ 16" by (simp add: kraft_def map_update)
  moreover have "l \<le> 1" if "l \<in> set ((replicate n 0)[a := 1, b := (1::nat)])" for l
    using that set_update_subset_insert [of "(replicate n 0)[a := 1]" b "1::nat"]
      set_update_subset_insert [of "replicate n 0" a "1::nat"] by fastforce
  ultimately show ?thesis by (force simp: complete_def)
qed

lemma frequency_lengths_single:
  assumes one: "length (active_symbols freqs) = 1" and n: "2 \<le> length freqs"
  shows "complete (frequency_lengths freqs ml) \<and> length (frequency_lengths freqs ml) = length freqs
    \<and> (\<forall>s<length freqs. 0 < freqs ! s \<longrightarrow> 0 < frequency_lengths freqs ml ! s)"
proof -
  let ?a = "active_symbols freqs ! 0"
  have mem: "s \<in> set (active_symbols freqs) \<longleftrightarrow> s = ?a" for s
    using one by (cases "active_symbols freqs") auto
  have a: "?a < length freqs" using mem [of ?a] by (auto simp: active_symbols_def)
  have "(if ?a = 0 then 1 else 0) \<in> set [0..<length freqs]" "(if ?a = 0 then 1 else (0::nat)) \<noteq> ?a"
    using n by auto
  from find_ex [of _ _ "\<lambda>i. i \<noteq> ?a", OF this] obtain b where b: "find (\<lambda>i. i \<noteq> ?a) [0..<length freqs] = Some b" by blast
  have b': "b < length freqs" "b \<noteq> ?a" using find_SomeD [OF b] by auto
  have ne: "active_symbols freqs \<noteq> []" using one by auto
  have fl: "frequency_lengths freqs ml = (replicate (length freqs) 0)[?a := 1, b := 1]"
    using one ne by (simp add: frequency_lengths_def b)
  have only: "s = ?a" if "s < length freqs" "0 < freqs ! s" for s
    using mem [of s] that by (simp add: active_symbols_def)
  have "complete (frequency_lengths freqs ml)"
    unfolding fl by (rule kraft_16_two_ones [OF a b'(1)]) (use b'(2) in simp)
  moreover have "0 < frequency_lengths freqs ml ! s" if "s < length freqs" "0 < freqs ! s" for s
    using only [OF that] a b' unfolding fl by (simp add: nth_list_update)
  moreover have "length (frequency_lengths freqs ml) = length freqs" by (simp add: fl)
  ultimately show ?thesis by blast
qed

section \<open>Properties of the Huffman tables\<close>

lemma active_symbols_iff: "s \<in> set (active_symbols freqs) \<longleftrightarrow> s < length freqs \<and> 0 < freqs ! s"
  by (auto simp: active_symbols_def)

text \<open>The lengths \<open>from_frequencies\<close> picks give a table, and every symbol that occurs has a code.\<close>

lemma from_frequencies_table:
  assumes n: "2 \<le> length freqs" and act: "1 \<le> length (active_symbols freqs)"
    and fit: "length (active_symbols freqs) \<le> 2 ^ ml"
    and ml: "1 \<le> ml" "ml \<le> 16" and steps: "length (active_symbols freqs) * ml < 1000000"
  obtains lens where "complete lens" "length lens = length freqs"
    "from_frequencies freqs ml = Inr (table_of (Max (set lens)) lens)"
    "\<And>s. s < length freqs \<Longrightarrow> 0 < freqs ! s \<Longrightarrow> 0 < lens ! s"
proof -
  let ?l = "frequency_lengths freqs ml"
  have l: "complete ?l" "length ?l = length freqs" "\<And>s. s < length freqs \<Longrightarrow> 0 < freqs ! s \<Longrightarrow> 0 < ?l ! s"
    using frequency_lengths_many [of freqs ml] frequency_lengths_single [of freqs ml] assms
    by (cases "length (active_symbols freqs) = 1"; simp)+
  show thesis
    by (rule that [OF l(1,2) _ l(3)])
      (use from_lengths_complete [OF l(1)] n in \<open>auto simp: from_frequencies_def\<close>)
qed

lemma code_stream_16: "complete lens \<Longrightarrow> s < length lens \<Longrightarrow> 0 < lens ! s \<Longrightarrow> length (code_stream (codes_of lens) lens s) \<le> 16"
  using codes_of_nth(2) [of lens s] by (simp add: code_stream_def)

text \<open>
  C3. \<open>HuffmanTable::from_frequencies\<close>, \<open>write_symbol\<close> and \<open>read_symbol\<close> together: for every
  frequency vector with at least one used symbol and a length limit that leaves room for them,
  the table is built, and any message of up to \<open>2 ^ 20\<close> symbols of positive frequency that
  \<open>write_symbol\<close> writes is read back by \<open>read_symbol\<close> from the finished bytes.
\<close>

theorem huffman_round_trip:
  assumes "2 \<le> length freqs"
    and "1 \<le> length (active_symbols freqs)" "length (active_symbols freqs) \<le> 2 ^ ml"
    and "1 \<le> ml" "ml \<le> 16" "length (active_symbols freqs) * ml < 1000000"
    and msg: "\<And>s. s \<in> set msg \<Longrightarrow> unat s < length freqs \<and> 0 < freqs ! unat s" "length msg \<le> 2 ^ 20"
  shows "\<exists>t r r'. from_frequencies freqs ml = Inr t
    \<and> reader_new (writer_finish (foldl (write_symbol t) writer_new msg)) = Inr r
    \<and> bit_codec.get_list (read_symbol t) (length msg) r = Inr (msg, r')"
proof -
  obtain lens where l: "complete lens" "length lens = length freqs"
    "from_frequencies freqs ml = Inr (table_of (Max (set lens)) lens)"
    "\<And>s. s < length freqs \<Longrightarrow> 0 < freqs ! s \<Longrightarrow> 0 < lens ! s"
    by (rule from_frequencies_table [of freqs ml]) (use assms in auto)
  have v: "list_all (\<lambda>s. complete lens \<and> unat s < length lens \<and> 0 < lens ! unat s) msg"
    using l msg by (simp add: list_all_iff)
  have "length (symbol.enc_list lens 3 msg) \<le> 16 * length msg"
    using v by (intro symbol.enc_list_bound) (auto simp: list_all_iff intro: code_stream_16)
  then have "length (symbol.enc_list lens 3 msg) < 2 ^ 31" using msg(2) by simp
  from symbol.list_round_trip [OF v this] l(3) show ?thesis by blast
qed

theorem huffman_round_trip_witness:
  "\<exists>t r r'. from_frequencies [5, 0, 2, 1, 1] 3 = Inr t
    \<and> reader_new (writer_finish (foldl (write_symbol t) writer_new [0, 2, 4, 0, 3])) = Inr r
    \<and> bit_codec.get_list (read_symbol t) (length [0, 2, 4, 0, 3 :: u16]) r = Inr ([0, 2, 4, 0, 3], r')"
  by (rule huffman_round_trip) (auto simp: active_symbols_def upt_rec)

text \<open>
  C15. The canonical codes of \<open>HuffmanTable::from_lengths\<close> are prefix-free: for lengths that fill
  the code space, no symbol's code, in the order its bits are written, starts with another's.
\<close>

theorem codes_prefix_free:
  assumes "complete lens" "s < length lens" "0 < lens ! s"
    and "t < length lens" "lens ! s \<le> lens ! t" "s \<noteq> t"
  shows "\<exists>tab. from_lengths lens = Inr tab \<and>
    take (lens ! s) (code_stream (ht_codes tab) lens t) \<noteq> code_stream (ht_codes tab) lens s"
  using code_prefix_free [OF assms] from_lengths_complete [OF assms(1)] by simp

theorem codes_prefix_free_witness:
  "\<exists>tab. from_lengths [1, 2, 3, 3] = Inr tab \<and>
    take ([1, 2, 3, 3] ! 1) (code_stream (ht_codes tab) [1, 2, 3, 3] 3)
      \<noteq> code_stream (ht_codes tab) [1, 2, 3, 3 :: nat] 1"
  by (rule codes_prefix_free) (simp_all add: complete_def kraft_def)

text \<open>
  C12. \<open>assign_lengths\<close> behind \<open>from_frequencies\<close> always ends with an optimal use of the code
  space: the Kraft sum of the lengths, whatever the depths of the tree were and however many of
  them the limit cut off, is exactly one, no length exceeds the limit, and the symbols with a
  code are the ones with a frequency.
\<close>

theorem limited_lengths_complete:
  assumes "2 \<le> length (active_symbols freqs)" "length (active_symbols freqs) \<le> 2 ^ ml"
    and "1 \<le> ml" "ml \<le> 16" "length (active_symbols freqs) * ml < 1000000"
  shows "complete (frequency_lengths freqs ml)
    \<and> (\<forall>l\<in>set (frequency_lengths freqs ml). l \<le> ml)
    \<and> (\<forall>s<length freqs. 0 < frequency_lengths freqs ml ! s \<longleftrightarrow> 0 < freqs ! s)"
  using frequency_lengths_full [OF assms] by (elim conjE, intro conjI)

theorem limited_lengths_complete_witness:
  "complete (frequency_lengths [1, 2, 4, 8, 16, 32] 3)"
  using limited_lengths_complete [of "[1, 2, 4, 8, 16, 32]" 3] by (simp add: active_symbols_def upt_rec)

end
