(* ===== verification/IntFormat.thy ===== *)
theory IntFormat
  imports HuffmanBuild
begin

text \<open>
  \<open>IntFormat\<close> of \<open>src/lzx/rift.rs\<close>: signed 64-bit numbers as one of 252 Huffman symbols (sign,
  position of the highest bit, the bit below it) and the remaining bits verbatim.
\<close>

definition int_format_symbols :: nat where
  "int_format_symbols = 252"

definition int_format_half :: nat where
  "int_format_half = 126"

record int_format =
  if_table :: huffman_table
  if_num_pos :: nat
  if_num_neg :: nat

definition init_default :: "int_format result" where
  "init_default =
     (let lengths = replicate 4 7 @ replicate (int_format_symbols - 4) 8
      in rbind (from_lengths lengths) (\<lambda>table.
           Inr \<lparr>if_table = table, if_num_pos = 0, if_num_neg = 0\<rparr>))"

text \<open>Explicit code lengths: four bits each, plus one.\<close>

fun read_nibble_lengths :: "nat \<Rightarrow> bit_reader \<Rightarrow> (nat list \<times> bit_reader) result" where
  "read_nibble_lengths 0 r = Inr ([], r)"
| "read_nibble_lengths (Suc n) r =
     rbind (read_bits r 4) (\<lambda>(v, r).
       rbind (read_nibble_lengths n r) (\<lambda>(ls, r). Inr ((unat v + 1) # ls, r)))"

text \<open>The default fill of the symbols from \<open>a\<close> to \<open>b\<close>: the length drops when a count runs out.\<close>

definition fill_step :: "(nat \<Rightarrow> nat) \<Rightarrow> nat \<times> nat \<times> nat list \<Rightarrow> nat \<Rightarrow> nat \<times> nat \<times> nat list" where
  "fill_step next_count = (\<lambda>(l, left, lengths) i.
     let (l, left) = (if left = 0 then (l - 1, next_count i) else (l, left))
     in (l, left - 1, lengths[i := l]))"

definition fill_default :: "(nat \<Rightarrow> nat) \<Rightarrow> nat \<Rightarrow> nat \<Rightarrow> nat \<Rightarrow> nat \<Rightarrow> nat list \<Rightarrow> nat list" where
  "fill_default next_count l count a b lengths =
     snd (snd (foldl (fill_step next_count) (l, count, lengths) [a..<b]))"

definition int_format_from_reader :: "bit_reader \<Rightarrow> (int_format \<times> bit_reader) result" where
  "int_format_from_reader r =
     rbind (read_bits r 8) (\<lambda>(v, r). let num_pos = unat v in
     rbind (read_bits r 8) (\<lambda>(v, r). let num_neg = unat v in
     rbind (read_bits r 8) (\<lambda>(v, r). let num_default = unat v in
       if num_pos > int_format_half \<or> num_neg > int_format_half
       then Inl (Malformed ''IntFormat mode out of range'')
       else if num_default > int_format_symbols - num_pos - num_neg
       then Inl (Malformed ''IntFormat default count overflow'')
       else
         rbind (read_nibble_lengths num_pos r) (\<lambda>(pos, r).
         rbind (read_nibble_lengths num_neg r) (\<lambda>(neg, r).
         rbind (read_bits r 4) (\<lambda>(v, r).
           let default_len = unat v + 1;
               lengths = pos @ replicate (int_format_half - num_pos) 0
                 @ neg @ replicate (int_format_half - num_neg) 0
           in if default_len > 16 then Inl (Malformed ''IntFormat code length > 16'')
              else
                let lengths = fill_default (\<lambda>i. int_format_symbols - num_pos - num_neg - i)
                      default_len num_default num_pos int_format_half lengths;
                    lengths = fill_default (\<lambda>i. int_format_half - (i - int_format_half))
                      default_len (num_default - (int_format_half - num_pos))
                      (int_format_half + num_neg) int_format_symbols lengths
                in rbind (from_lengths lengths) (\<lambda>table.
                     Inr (\<lparr>if_table = table, if_num_pos = num_pos, if_num_neg = num_neg\<rparr>, r))))))))"

definition read_number :: "int_format \<Rightarrow> bit_reader \<Rightarrow> (i64 \<times> bit_reader) result" where
  "read_number f r =
     rbind (read_symbol (if_table f) r) (\<lambda>(s, r).
       let symb = unat s;
           (magnitude_idx, is_negative) =
             (if symb < int_format_half then (symb, False) else (symb - int_format_half, True))
       in rbind
            (if magnitude_idx \<le> 3 then Inr (of_nat magnitude_idx, r)
             else
               let half = magnitude_idx div 2 - 1;
                   base = of_nat (magnitude_idx mod 2) + 2
               in rbind (read_bits r half) (\<lambda>(extra, r). Inr (push_bit half base OR extra, r)))
            (\<lambda>(value, r). Inr (if is_negative then NOT value else value, r)))"

definition value_to_symbol :: "i64 \<Rightarrow> nat \<times> u64 \<times> nat" where
  "value_to_symbol value =
     (let (magnitude, is_neg) = (if sint value < 0 then (NOT value, True) else (value, False));
          (sym_idx, extra_val, extra_bits) =
            (if magnitude \<le> 3 then (unat magnitude, 0, 0)
             else
               let high_bit = 63 - leading_zeros magnitude;
                   half = high_bit - 1;
                   base_bit = drop_bit half magnitude AND 1
               in (2 * (half + 1) + unat base_bit, magnitude AND mask half, half));
          symb = (if is_neg then sym_idx + int_format_half else sym_idx)
      in (symb, extra_val, extra_bits))"

definition count_symbols :: "i64 list \<Rightarrow> nat list" where
  "count_symbols values =
     foldl (\<lambda>freqs v. let s = fst (value_to_symbol v) in freqs[s := freqs ! s + 1])
       (replicate int_format_symbols 1) values"

definition int_format_from_values :: "i64 list \<Rightarrow> int_format result" where
  "int_format_from_values values =
     rbind (case from_frequencies (count_symbols values) 15 of
              Inr table \<Rightarrow> Inr table
            | Inl _ \<Rightarrow> (case from_lengths (replicate int_format_symbols 8) of
                          Inr table \<Rightarrow> Inr table | Inl _ \<Rightarrow> Inl Panic))
       (\<lambda>table. Inr \<lparr>if_table = table, if_num_pos = int_format_half, if_num_neg = int_format_half\<rparr>)"

definition write_nibble_lengths :: "bit_writer \<Rightarrow> nat list \<Rightarrow> bit_writer" where
  "write_nibble_lengths w ls = foldl (\<lambda>w l. write_bits w (of_nat (max l 1 - 1)) 4) w ls"

definition int_format_to_writer :: "int_format \<Rightarrow> bit_writer \<Rightarrow> bit_writer" where
  "int_format_to_writer f w =
     (let w = write_bits w (of_nat int_format_half) 8;
          w = write_bits w (of_nat int_format_half) 8;
          w = write_bits w 0 8;
          ls = ht_lengths (if_table f);
          w = write_nibble_lengths w (map (\<lambda>i. ls ! i) [0..<int_format_half]);
          w = write_nibble_lengths w (map (\<lambda>i. ls ! i) [int_format_half..<int_format_symbols])
      in write_bits w 0 4)"

definition write_number :: "int_format \<Rightarrow> bit_writer \<Rightarrow> i64 \<Rightarrow> bit_writer" where
  "write_number f w value =
     (case value_to_symbol value of (symb, extra_val, extra_bits) \<Rightarrow>
        let w = write_symbol (if_table f) w (of_nat symb)
        in if extra_bits > 0 then write_bits w extra_val extra_bits else w)"

section \<open>Symbols of a value\<close>

text \<open>The number a symbol and its extra bits stand for, as \<open>read_number\<close> computes it.\<close>

definition symbol_value :: "nat \<Rightarrow> u64 \<Rightarrow> i64" where
  "symbol_value s extra =
     (let m = (if s < int_format_half then s else s - int_format_half);
          value = (if m \<le> 3 then of_nat m
                   else push_bit (m div 2 - 1) (of_nat (m mod 2) + 2) OR extra)
      in if s < int_format_half then value else NOT value)"

definition symbol_extra_bits :: "nat \<Rightarrow> nat" where
  "symbol_extra_bits s =
     (let m = (if s < int_format_half then s else s - int_format_half) in if m \<le> 3 then 0 else m div 2 - 1)"

lemma magnitude_split:
  assumes "4 \<le> (m :: u64)" "\<not> bit m 63"
  defines "h \<equiv> 63 - leading_zeros m"
  shows "2 \<le> h" "h \<le> 62"
    "push_bit (h - 1) (of_nat (unat (drop_bit (h - 1) m AND 1)) + 2) OR (m AND mask (h - 1)) = m"
proof -
  have "m \<noteq> 0" using assms(1) by auto
  note H = leading_zeros_high_bit [OF this]
  have bh: "bit m h" "\<And>i. h < i \<Longrightarrow> \<not> bit m i" using H by (simp_all add: h_def)
  have "h \<noteq> 63" using bh(1) assms(2) by auto
  then show "h \<le> 62" by (simp add: h_def)
  show h2: "2 \<le> h"
  proof (rule ccontr)
    assume "\<not> 2 \<le> h"
    then have z: "\<not> bit m i" if "2 \<le> i" for i using that bh(2) [of i] by simp
    have "take_bit 2 m = m"
    proof (rule bit_word_eqI)
      fix i show "bit (take_bit 2 m) i = bit m i"
        using z [of i] by (cases "2 \<le> i") (auto simp: bit_take_bit_iff)
    qed
    then have "unat m < 2 ^ 2" by (metis take_bit_nat_less_exp unsigned_take_bit_eq)
    with assms(1) show False by (simp add: word_le_nat_alt)
  qed
  let ?b = "bit m (h - 1)"
  have base: "of_nat (unat (drop_bit (h - 1) m AND 1)) + 2 = (2 OR of_bool ?b :: u64)"
  proof -
    have "drop_bit (h - 1) m AND 1 = of_bool ?b" by (simp add: and_one_eq bit_iff_odd_drop_bit mod2_eq_if)
    then show ?thesis by (cases ?b) simp_all
  qed
  show "push_bit (h - 1) (of_nat (unat (drop_bit (h - 1) m AND 1)) + 2) OR (m AND mask (h - 1)) = m"
    unfolding base
  proof (rule bit_word_eqI)
    fix i assume i: "i < LENGTH(64)"
    consider "i < h - 1" | "i = h - 1" | "i = h" | "h < i" by linarith
    then show "bit (push_bit (h - 1) (2 OR of_bool ?b) OR m AND mask (h - 1)) i = bit m i"
      using h2 bh i
      by cases (auto simp: bit_or_iff bit_push_bit_iff bit_and_iff bit_mask_iff bit_2_iff bit_of_bool_iff)
  qed
qed

lemma value_to_symbol_spec:
  assumes "value_to_symbol v = (s, extra, n)"
  shows "s < int_format_symbols" "symbol_extra_bits s = n" "symbol_value s extra = v"
    "n \<le> 61" "take_bit n extra = extra"
proof -
  define m where "m = (if sint v < 0 then NOT v else v)"
  have neg: "sint v < 0 \<longleftrightarrow> bit v 63" using bit_last_iff [of v] by simp
  have m63: "\<not> bit m 63" by (auto simp: m_def neg bit_not_iff)
  define k where "k = (if sint v < 0 then int_format_half else 0)"
  have v: "v = (if sint v < 0 then NOT m else m)" by (simp add: m_def)
  have "s < int_format_symbols \<and> symbol_extra_bits s = n \<and> symbol_value s extra = v
    \<and> n \<le> 61 \<and> take_bit n extra = extra"
  proof (cases "m \<le> 3")
    case True
    then have u: "unat m \<le> 3" by (simp add: word_le_nat_alt)
    have "s = unat m + k" "extra = 0" "n = 0"
      using assms True by (auto simp: value_to_symbol_def m_def k_def Let_def split: if_splits)
    moreover have "of_nat (unat m) = m" by simp
    ultimately show "s < int_format_symbols \<and> symbol_extra_bits s = n \<and> symbol_value s extra = v
        \<and> n \<le> 61 \<and> take_bit n extra = extra"
      using u v
      by (auto simp: k_def int_format_symbols_def int_format_half_def symbol_extra_bits_def
          symbol_value_def Let_def)
  next
    case False
    then have "4 \<le> m" by (simp add: word_le_nat_alt)
    note M = magnitude_split [OF this m63]
    define h where "h = 63 - leading_zeros m"
    define b where "b = unat (drop_bit (h - 1) m AND 1)"
    have b: "b \<le> 1"
      by (simp add: b_def and_one_eq mod2_eq_if)
    have s: "s = 2 * (h - 1 + 1) + b + k" "extra = m AND mask (h - 1)" "n = h - 1"
      using assms False
      by (auto simp: value_to_symbol_def m_def k_def b_def h_def Let_def split: if_splits)
    have idx: "(if s < int_format_half then s else s - int_format_half) = 2 * (h - 1 + 1) + b"
      "s < int_format_half \<longleftrightarrow> \<not> sint v < 0"
      using M(1,2) b s(1) by (auto simp: k_def int_format_half_def h_def)
    have d: "(2 * (h - 1 + 1) + b) div 2 - 1 = h - 1" "(2 * (h - 1 + 1) + b) mod 2 = b"
      "\<not> 2 * (h - 1 + 1) + b \<le> 3"
      using b M(1) by (auto simp: h_def)
    have "symbol_extra_bits s = n" unfolding symbol_extra_bits_def idx(1) Let_def s(3) if_not_P [OF d(3)] d(1) ..
    moreover have "symbol_value s extra = v"
      unfolding symbol_value_def idx(1) Let_def if_not_P [OF d(3)] d(1,2)
      unfolding idx(2)
      unfolding s(2) b_def h_def M(3) by (simp add: m_def)
    moreover have "s < int_format_symbols" "n \<le> 61"
      using M(1,2) b s by (auto simp: k_def int_format_half_def int_format_symbols_def h_def)
    moreover have "take_bit n extra = extra"
      unfolding s(2,3) by (simp add: take_bit_eq_mask)
    ultimately show "s < int_format_symbols \<and> symbol_extra_bits s = n \<and> symbol_value s extra = v
        \<and> n \<le> 61 \<and> take_bit n extra = extra" by blast
  qed
  then show "s < int_format_symbols" "symbol_extra_bits s = n" "symbol_value s extra = v"
    "n \<le> 61" "take_bit n extra = extra" by blast+
qed

section \<open>Formats and numbers as codecs\<close>

definition fmt_of :: "nat list \<Rightarrow> int_format" where
  "fmt_of lens = \<lparr>if_table = table_of (Max (set lens)) lens,
     if_num_pos = int_format_half, if_num_neg = int_format_half\<rparr>"

definition int_format_ok :: "int_format \<Rightarrow> bool" where
  "int_format_ok f \<longleftrightarrow>
     (let lens = ht_lengths (if_table f)
      in f = fmt_of lens \<and> complete lens \<and> length lens = int_format_symbols
         \<and> (\<forall>s<int_format_symbols. 0 < lens ! s))"

lemma fmt_of_lengths [simp]: "ht_lengths (if_table (fmt_of lens)) = lens"
  by (simp add: fmt_of_def)

definition enc_number :: "int_format \<Rightarrow> i64 \<Rightarrow> bool list" where
  "enc_number f v =
     (case value_to_symbol v of (s, extra, n) \<Rightarrow>
        let lens = ht_lengths (if_table f)
        in code_stream (codes_of lens) lens s @ word_bits extra n)"

lemma u16_small: "s < int_format_symbols \<Longrightarrow> unat (of_nat s :: u16) = s"
  by (simp add: unat_of_nat int_format_symbols_def)

lemma read_number_delivers:
  assumes f: "int_format_ok f" and ok: "reader_ok r" and st: "rd_stream r = enc_number f v @ rest"
    and al: "8 dvd n + length (rd_stream r)" and pad: "rd_padding r \<le> length rest"
  shows "delivers (read_number f r) v rest (rd_padding r)"
proof -
  define lens where "lens = ht_lengths (if_table f)"
  have F: "f = fmt_of lens" "complete lens" "length lens = int_format_symbols"
    "\<And>s. s < int_format_symbols \<Longrightarrow> 0 < lens ! s"
    using f by (auto simp: int_format_ok_def lens_def Let_def)
  obtain s e k where v: "value_to_symbol v = (s, e, k)" by (metis prod.exhaust)
  note V = value_to_symbol_spec [OF v]
  have us: "unat (of_nat s :: u16) = s" by (rule u16_small [OF V(1)])
  have st': "rd_stream r = code_stream (codes_of lens) lens (unat (of_nat s :: u16)) @ word_bits e k @ rest"
    using st by (simp add: enc_number_def v Let_def us flip: lens_def)
  have "delivers (read_symbol (if_table f) r) (of_nat s) (word_bits e k @ rest) (rd_padding r)"
    unfolding F(1) fmt_of_def int_format.simps
    by (rule symbol.get_enc [OF ok _ st' al]) (use F V(1) us pad in auto)
  then show ?thesis unfolding read_number_def
  proof (rule delivers_bind, unfold prod.case us Let_def)
    fix r1 assume r1: "reader_ok r1" "rd_stream r1 = word_bits e k @ rest" "rd_padding r1 = rd_padding r"
    let ?m = "if s < int_format_half then s else s - int_format_half"
    have split: "(if s < int_format_half then (s, False) else (s - int_format_half, True))
        = (?m, \<not> s < int_format_half)" by simp
    have val: "delivers (if ?m \<le> 3 then Inr (of_nat ?m, r1)
             else rbind (read_bits r1 (?m div 2 - 1))
               (\<lambda>(extra, r). Inr (push_bit (?m div 2 - 1) (of_nat (?m mod 2) + 2) OR extra, r)))
        (if ?m \<le> 3 then of_nat ?m else push_bit (?m div 2 - 1) (of_nat (?m mod 2) + 2) OR e)
        rest (rd_padding r)"
    proof (cases "?m \<le> 3")
      case True
      then have "k = 0" using V(2) by (simp add: symbol_extra_bits_def Let_def)
      then have "rd_stream r1 = rest" using r1(2) by simp
      then show ?thesis using True r1 by (simp add: deliversI)
    next
      case False
      then have k: "?m div 2 - 1 = k" using V(2) by (simp add: symbol_extra_bits_def Let_def)
      have "delivers (read_bits r1 k) e rest (rd_padding r1)"
        using read_bits_delivers [OF r1(1), of k] r1(2) V(4,5) by (simp add: bits_val_word_bits)
      then have "delivers (rbind (read_bits r1 k)
          (\<lambda>(extra, r). Inr (push_bit k (of_nat (?m mod 2) + 2) OR extra, r)))
          (push_bit k (of_nat (?m mod 2) + 2) OR e) rest (rd_padding r1)"
        by (rule delivers_bind) (simp add: deliversI)
      then show ?thesis unfolding if_not_P [OF False] k r1(3) .
    qed
    show "delivers (case if s < int_format_half then (s, False) else (s - int_format_half, True) of
        (magnitude_idx, is_negative) \<Rightarrow>
          rbind (if magnitude_idx \<le> 3 then Inr (of_nat magnitude_idx, r1)
             else rbind (read_bits r1 (magnitude_idx div 2 - 1))
               (\<lambda>(extra, r). Inr (push_bit (magnitude_idx div 2 - 1) (of_nat (magnitude_idx mod 2) + 2) OR extra, r)))
           (\<lambda>(value, r). Inr (if is_negative then NOT value else value, r))) v rest (rd_padding r)"
      unfolding split prod.case
    proof (rule delivers_bind [OF val], unfold prod.case)
      fix r2 assume r2: "reader_ok r2" "rd_stream r2 = rest" "rd_padding r2 = rd_padding r"
      have "(if \<not> s < int_format_half
          then NOT (if ?m \<le> 3 then of_nat ?m else push_bit (?m div 2 - 1) (of_nat (?m mod 2) + 2) OR e)
          else (if ?m \<le> 3 then of_nat ?m else push_bit (?m div 2 - 1) (of_nat (?m mod 2) + 2) OR e)) = v"
        using V(3) unfolding symbol_value_def Let_def by (cases "s < int_format_half") simp_all
      then show "delivers (Inr (if \<not> s < int_format_half
          then NOT (if ?m \<le> 3 then of_nat ?m else push_bit (?m div 2 - 1) (of_nat (?m mod 2) + 2) OR e)
          else (if ?m \<le> 3 then of_nat ?m else push_bit (?m div 2 - 1) (of_nat (?m mod 2) + 2) OR e), r2))
          v rest (rd_padding r)"
        using r2 by (simp only:) (rule deliversI)
    qed
  qed
qed

interpretation number_codec: bit_codec "write_number f" "read_number f" "\<lambda>_. enc_number f"
  "\<lambda>_. int_format_ok f" for f
proof (unfold_locales, goal_cases)
  case (3 r x n rest)
  then show ?case using read_number_delivers by blast
next
  case (1 w v)
  have f: "f = fmt_of (ht_lengths (if_table f))" "complete (ht_lengths (if_table f))"
    "length (ht_lengths (if_table f)) = int_format_symbols"
    "\<And>s. s < int_format_symbols \<Longrightarrow> 0 < ht_lengths (if_table f) ! s"
    using 1 by (auto simp: int_format_ok_def Let_def)
  obtain s e k where v: "value_to_symbol v = (s, e, k)" by (metis prod.exhaust)
  note V = value_to_symbol_spec [OF v]
  have "writer_ok (write_symbol (if_table f) w (of_nat s))"
    by (subst f(1)) (simp add: fmt_of_def, rule symbol.put_ok [OF 1(1)], use f V(1) u16_small in simp)
  then show ?case using V(4) by (auto simp: write_number_def v Let_def write_bits_spec)
next
  case (2 w v)
  define lens where "lens = ht_lengths (if_table f)"
  have f: "f = fmt_of lens" "complete lens" "length lens = int_format_symbols"
    "\<And>s. s < int_format_symbols \<Longrightarrow> 0 < lens ! s"
    using 2 by (auto simp: int_format_ok_def Let_def lens_def)
  obtain s e k where v: "value_to_symbol v = (s, e, k)" by (metis prod.exhaust)
  note V = value_to_symbol_spec [OF v]
  have t: "if_table f = table_of (Max (set lens)) lens" by (subst f(1)) (simp add: fmt_of_def)
  have ok: "complete lens \<and> unat (of_nat s :: u16) < length lens \<and> 0 < lens ! unat (of_nat s :: u16)"
    using f V(1) u16_small [OF V(1)] by simp
  have "writer_ok (write_symbol (if_table f) w (of_nat s))"
    "wr_stream (write_symbol (if_table f) w (of_nat s)) = wr_stream w @ code_stream (codes_of lens) lens s"
    unfolding t using symbol.put_ok [OF 2(1) ok] symbol.put_enc [OF 2(1) ok] u16_small [OF V(1)] by simp_all
  then show ?case using V(4)
    by (cases "k = 0") (simp_all add: write_number_def v Let_def write_bits_spec enc_number_def flip: lens_def)
qed

definition enc_nibbles :: "nat list \<Rightarrow> bool list" where
  "enc_nibbles ls = concat (map (\<lambda>l. word_bits (of_nat (max l 1 - 1) :: u64) 4) ls)"

lemma write_nibble_lengths_spec:
  "writer_ok w \<Longrightarrow> writer_ok (write_nibble_lengths w ls)
    \<and> wr_stream (write_nibble_lengths w ls) = wr_stream w @ enc_nibbles ls"
proof (induction ls arbitrary: w)
  case Nil
  then show ?case by (simp add: write_nibble_lengths_def enc_nibbles_def)
next
  case (Cons l ls)
  have w: "writer_ok (write_bits w (of_nat (max l 1 - 1)) 4)"
    "wr_stream (write_bits w (of_nat (max l 1 - 1)) 4) = wr_stream w @ word_bits (of_nat (max l 1 - 1) :: u64) 4"
    using write_bits_spec [OF Cons.prems, of 4] by simp_all
  have eq: "write_nibble_lengths w (l # ls)
      = write_nibble_lengths (write_bits w (of_nat (max l 1 - 1)) 4) ls"
    by (simp add: write_nibble_lengths_def)
  show ?case unfolding eq using Cons.IH [OF w(1)] w(2) by (simp add: enc_nibbles_def)
qed

lemma read_nibble_lengths_delivers:
  assumes "\<forall>l\<in>set ls. 1 \<le> l \<and> l \<le> 16" "reader_ok r" "rd_stream r = enc_nibbles ls @ rest"
  shows "delivers (read_nibble_lengths (length ls) r) ls rest (rd_padding r)"
  using assms
proof (induction ls arbitrary: r)
  case Nil
  then show ?case by (simp add: enc_nibbles_def deliversI)
next
  case (Cons l ls)
  let ?v = "of_nat (max l 1 - 1) :: u64"
  have l: "1 \<le> l" "l \<le> 16" using Cons.prems(1) by auto
  have uv: "unat (take_bit 4 ?v) + 1 = l"
  proof -
    have "unat (take_bit 4 ?v) = take_bit 4 (unat ?v)" by (rule unsigned_take_bit_eq)
    also have "unat ?v = l - 1" using l by (simp add: unat_of_nat max_def del: of_nat_diff)
    also have "take_bit 4 (l - 1) = l - 1" using l by (intro take_bit_nat_eq_self) simp
    finally show ?thesis using l by simp
  qed
  have "delivers (read_bits r 4) (take_bit 4 ?v) (enc_nibbles ls @ rest) (rd_padding r)"
    using read_bits_delivers [OF Cons.prems(2), of 4] Cons.prems(3)
    by (simp add: enc_nibbles_def bits_val_word_bits)
  then show ?case unfolding list.size add_0_right add_Suc_right read_nibble_lengths.simps
  proof (rule delivers_bind, unfold prod.case uv)
    fix r1 assume r1: "reader_ok r1" "rd_stream r1 = enc_nibbles ls @ rest" "rd_padding r1 = rd_padding r"
    have "delivers (read_nibble_lengths (length ls) r1) ls rest (rd_padding r)"
      using Cons.IH [OF _ r1(1,2)] Cons.prems(1) r1(3) by simp
    then show "delivers (rbind (read_nibble_lengths (length ls) r1) (\<lambda>(ls, r). Inr (l # ls, r)))
        (l # ls) rest (rd_padding r)"
      by (rule delivers_bind) (simp add: deliversI)
  qed
qed

definition enc_int_format :: "int_format \<Rightarrow> bool list" where
  "enc_int_format f =
     word_bits (126 :: u64) 8 @ word_bits (126 :: u64) 8 @ word_bits (0 :: u64) 8
     @ enc_nibbles (take int_format_half (ht_lengths (if_table f)))
     @ enc_nibbles (drop int_format_half (ht_lengths (if_table f))) @ word_bits (0 :: u64) 4"

lemma map_nth_take: "n \<le> length xs \<Longrightarrow> map (\<lambda>i. xs ! i) [0..<n] = take n xs"
  by (rule nth_equalityI) auto

lemma map_nth_drop: "map (\<lambda>i. xs ! i) [n..<length xs] = drop n xs"
  by (rule nth_equalityI) auto

lemma int_format_to_writer_spec:
  assumes ok: "writer_ok w" and f: "int_format_ok f"
  shows "writer_ok (int_format_to_writer f w)"
    "wr_stream (int_format_to_writer f w) = wr_stream w @ enc_int_format f"
proof -
  define ls where "ls = ht_lengths (if_table f)"
  have len: "length ls = int_format_symbols" using f by (simp add: int_format_ok_def Let_def ls_def)
  have maps: "map (\<lambda>i. ls ! i) [0..<int_format_half] = take int_format_half ls"
    "map (\<lambda>i. ls ! i) [int_format_half..<int_format_symbols] = drop int_format_half ls"
    using map_nth_take [of int_format_half ls] map_nth_drop [of ls int_format_half] len
    by (simp_all add: int_format_half_def int_format_symbols_def)
  define w3 where "w3 = write_bits (write_bits (write_bits w (of_nat int_format_half) 8) (of_nat int_format_half) 8) 0 8"
  have w3: "writer_ok w3" "wr_stream w3 = wr_stream w @ word_bits (126 :: u64) 8 @ word_bits (126 :: u64) 8
      @ word_bits (0 :: u64) 8"
    using ok by (simp_all add: w3_def write_bits_spec int_format_half_def)
  have eq: "int_format_to_writer f w
      = write_bits (write_nibble_lengths (write_nibble_lengths w3 (take int_format_half ls))
          (drop int_format_half ls)) 0 4"
    unfolding int_format_to_writer_def Let_def ls_def [symmetric] maps w3_def ..
  note A = write_nibble_lengths_spec [OF w3(1), of "take int_format_half ls"]
  note B = write_nibble_lengths_spec [OF A [THEN conjunct1], of "drop int_format_half ls"]
  show "writer_ok (int_format_to_writer f w)"
    "wr_stream (int_format_to_writer f w) = wr_stream w @ enc_int_format f"
    unfolding eq using write_bits_spec [OF B [THEN conjunct1], of 4 0] A B w3(2)
    by (simp_all add: enc_int_format_def ls_def)
qed

lemma fill_default_empty: "b \<le> a \<Longrightarrow> fill_default f l c a b ls = ls"
  by (simp add: fill_default_def)

lemma int_format_from_reader_delivers:
  assumes ok: "reader_ok r" and f: "int_format_ok f" and st: "rd_stream r = enc_int_format f @ rest"
  shows "delivers (int_format_from_reader r) f rest (rd_padding r)"
proof -
  define ls where "ls = ht_lengths (if_table f)"
  define h where "h = int_format_half"
  have F: "f = fmt_of ls" "complete ls" "length ls = int_format_symbols" "\<And>s. s < int_format_symbols \<Longrightarrow> 0 < ls ! s"
    using f by (auto simp: int_format_ok_def Let_def ls_def)
  have hl: "length ls = h + h" "int_format_symbols = h + h" "h = 126"
    using F(3) by (simp_all add: h_def int_format_half_def int_format_symbols_def)
  have range: "1 \<le> l \<and> l \<le> 16" if l: "l \<in> set ls" for l
  proof -
    obtain s where s: "s < length ls" "l = ls ! s" using l by (auto simp: in_set_conv_nth)
    have "l \<le> 16" using F(2) l unfolding complete_def by blast
    moreover have "0 < ls ! s" using F(4) [of s] s(1) F(3) by metis
    ultimately show ?thesis using s(2) by linarith
  qed
  let ?p = "take h ls" and ?q = "drop h ls"
  have rp: "\<forall>l\<in>set ?p. 1 \<le> l \<and> l \<le> 16" "\<forall>l\<in>set ?q. 1 \<le> l \<and> l \<le> 16"
    using range by (auto dest: in_set_takeD in_set_dropD)
  have lp: "length ?p = h" "length ?q = h" using hl by simp_all
  have t126: "take_bit 8 (126 :: u64) = 126" by (simp add: take_bit_eq_mask mask_eq_exp_minus_1)
  have head: "delivers (read_bits q n) v rest' (rd_padding q)"
    if "reader_ok q" "rd_stream q = word_bits v n @ rest'" "take_bit n v = v" "n \<le> 64" for q n v rest'
    using read_bits_delivers [OF that(1,4)] that(2,3) by (simp add: bits_val_word_bits)
  have u126: "unat (126 :: u64) = h" by (simp add: hl)
  obtain r1 where r1: "read_bits r 8 = Inr (126, r1)" "reader_ok r1" "rd_padding r1 = rd_padding r"
    "rd_stream r1 = word_bits (126 :: u64) 8 @ word_bits (0 :: u64) 8
      @ enc_nibbles ?p @ enc_nibbles ?q @ word_bits (0 :: u64) 4 @ rest"
    using head [OF ok _ t126] st by (auto simp: delivers_def enc_int_format_def ls_def h_def)
  obtain r2 where r2: "read_bits r1 8 = Inr (126, r2)" "reader_ok r2" "rd_padding r2 = rd_padding r"
    "rd_stream r2 = word_bits (0 :: u64) 8 @ enc_nibbles ?p @ enc_nibbles ?q @ word_bits (0 :: u64) 4 @ rest"
    using head [OF r1(2,4) t126] r1(3) by (auto simp: delivers_def)
  obtain r3 where r3: "read_bits r2 8 = Inr (0, r3)" "reader_ok r3" "rd_padding r3 = rd_padding r"
    "rd_stream r3 = enc_nibbles ?p @ enc_nibbles ?q @ word_bits (0 :: u64) 4 @ rest"
    using head [OF r2(2,4)] r2(3) by (auto simp: delivers_def)
  obtain r4 where r4: "read_nibble_lengths h r3 = Inr (?p, r4)" "reader_ok r4" "rd_padding r4 = rd_padding r"
    "rd_stream r4 = enc_nibbles ?q @ word_bits (0 :: u64) 4 @ rest"
    using read_nibble_lengths_delivers [OF rp(1) r3(2,4)] r3(3) lp by (auto simp: delivers_def)
  obtain r5 where r5: "read_nibble_lengths h r4 = Inr (?q, r5)" "reader_ok r5" "rd_padding r5 = rd_padding r"
    "rd_stream r5 = word_bits (0 :: u64) 4 @ rest"
    using read_nibble_lengths_delivers [OF rp(2) r4(2,4)] r4(3) lp by (auto simp: delivers_def)
  obtain r6 where r6: "read_bits r5 4 = Inr (0, r6)" "reader_ok r6" "rd_padding r6 = rd_padding r"
    "rd_stream r6 = rest"
    using head [OF r5(2,4)] r5(3) by (auto simp: delivers_def)
  have "int_format_from_reader r = rbind (from_lengths ls)
      (\<lambda>table. Inr (\<lparr>if_table = table, if_num_pos = h, if_num_neg = h\<rparr>, r6))"
    unfolding int_format_from_reader_def Let_def h_def [symmetric]
    by (simp add: r1(1) r2(1) r3(1) r4(1) [unfolded hl(3)] r5(1) [unfolded hl(3)] r6(1) hl(2,3)
      fill_default_empty)
  also have "\<dots> = Inr (f, r6)"
    using F(1) by (simp add: from_lengths_complete [OF F(2)] fmt_of_def h_def)
  finally show ?thesis using r6 by (simp add: delivers_def)
qed

interpretation format_codec: bit_codec "\<lambda>w f. int_format_to_writer f w" int_format_from_reader
  "\<lambda>_. enc_int_format" int_format_ok
  by unfold_locales (simp_all add: int_format_to_writer_spec int_format_from_reader_delivers)

text \<open>The format that the encoder builds from the values it is about to write is good.\<close>

lemma count_symbols_spec: "length (count_symbols vs) = int_format_symbols \<and> (\<forall>s<int_format_symbols. 0 < count_symbols vs ! s)"
  unfolding count_symbols_def
proof (induction vs rule: rev_induct)
  case (snoc v vs)
  then show ?case by (auto simp: Let_def nth_list_update_any)
qed simp

lemma int_format_from_values_ok:
  "\<exists>f. int_format_from_values vs = Inr f \<and> int_format_ok f"
proof -
  define fs where "fs = count_symbols vs"
  have fs: "length fs = int_format_symbols" "\<And>s. s < int_format_symbols \<Longrightarrow> 0 < fs ! s"
    using count_symbols_spec [of vs] by (simp_all add: fs_def)
  have act: "active_symbols fs = [0..<252]"
    using fs by (simp add: active_symbols_def int_format_symbols_def filter_id_conv)
  define ls where "ls = frequency_lengths fs 15"
  have L: "complete ls" "length ls = int_format_symbols" "\<And>s. s < int_format_symbols \<Longrightarrow> 0 < ls ! s"
    using frequency_lengths_many [of fs 15] fs act by (simp_all add: ls_def)
  have "from_frequencies fs 15 = Inr (table_of (Max (set ls)) ls)"
    using from_lengths_complete [OF L(1)] fs(1)
    by (auto simp: from_frequencies_def ls_def int_format_symbols_def)
  then have "int_format_from_values vs = Inr (fmt_of ls)"
    by (simp add: int_format_from_values_def fmt_of_def flip: fs_def)
  with L show ?thesis by (simp add: int_format_ok_def)
qed

section \<open>Properties of the integer format\<close>

text \<open>
  \<open>IntFormat::value_to_symbol\<close> is a bijection onto what \<open>read_number\<close> decodes: every 64-bit
  value has a symbol below 252, at most 61 extra bits that hold the extra value, and the
  decoder's formula applied to the symbol and those bits gives the value back.
\<close>

lemma value_symbol_inverse:
  "case value_to_symbol v of (s, extra, n) \<Rightarrow>
     s < int_format_symbols \<and> symbol_extra_bits s = n \<and> n \<le> 61
     \<and> take_bit n extra = extra \<and> symbol_value s extra = v"
proof (cases "value_to_symbol v")
  case (fields s extra n)
  then show ?thesis using value_to_symbol_spec [OF fields] by simp
qed

lemma enc_number_length: "int_format_ok f \<Longrightarrow> length (enc_number f v) \<le> 77"
proof -
  assume f: "int_format_ok f"
  obtain s e k where v: "value_to_symbol v = (s, e, k)" by (metis prod.exhaust)
  note V = value_to_symbol_spec [OF v]
  have "length (code_stream (codes_of (ht_lengths (if_table f))) (ht_lengths (if_table f)) s) \<le> 16"
    using codes_of_nth(2) [of "ht_lengths (if_table f)" s] f V(1)
    by (simp add: int_format_ok_def Let_def code_stream_def)
  then show ?thesis using V(4) by (simp add: enc_number_def v Let_def)
qed

lemma enc_nibbles_length: "length (enc_nibbles ls) = 4 * length ls"
  by (induction ls) (simp_all add: enc_nibbles_def)

lemma enc_int_format_length: "int_format_ok f \<Longrightarrow> length (enc_int_format f) \<le> 1100"
  by (simp add: enc_int_format_def enc_nibbles_length int_format_ok_def Let_def int_format_symbols_def
    int_format_half_def)

interpretation format_numbers: codec_pair "\<lambda>w f. int_format_to_writer f w" int_format_from_reader
  "\<lambda>_. enc_int_format" int_format_ok
  "foldl (write_number f)" "number_codec.get_list f n" "number_codec.enc_list f"
  "\<lambda>vs. length vs = n \<and> list_all (\<lambda>_. int_format_ok f) vs" for f n
  by (intro codec_pair.intro number_codec.lists) (rule format_codec.bit_codec_axioms)

text \<open>
  C11. An \<open>IntFormat\<close> built from a list of values carries the list: \<open>from_values\<close> succeeds,
  \<open>write_to\<close> and \<open>read_from\<close> reproduce the format, and all of up to \<open>2 ^ 20\<close> numbers
  written with \<open>write_number\<close> behind it, of that list or not, are returned by \<open>read_number\<close>.
\<close>

theorem int_format_round_trip:
  assumes "length ws \<le> 2 ^ 20"
  shows "\<exists>f r r' r''. int_format_from_values vs = Inr f
    \<and> reader_new (writer_finish (foldl (write_number f) (int_format_to_writer f writer_new) ws)) = Inr r
    \<and> int_format_from_reader r = Inr (f, r')
    \<and> bit_codec.get_list (read_number f) (length ws) r' = Inr (ws, r'')"
proof -
  obtain f where f: "int_format_from_values vs = Inr f" "int_format_ok f"
    using int_format_from_values_ok by blast
  have "length (number_codec.enc_list f n ws) \<le> 77 * length ws" for n
    using number_codec.enc_list_bound [of ws f 77 n] enc_number_length [OF f(2)] by blast
  from this [of "3 + length (enc_int_format f)"]
  have "length (enc_int_format f) + length (number_codec.enc_list f (3 + length (enc_int_format f)) ws) < 2 ^ 31"
    using enc_int_format_length [OF f(2)] assms by simp
  then show ?thesis
    using format_numbers.pair.round_trip [where f = f and n = "length ws" and x = "(f, ws)"] f
    by (fastforce elim!: rbind_eq_InrE simp: list_all_iff)
qed

theorem int_format_round_trip_witness:
  "\<exists>f r r' r''. int_format_from_values [3, -4, 100] = Inr f
    \<and> reader_new (writer_finish (foldl (write_number f) (int_format_to_writer f writer_new) [3, -4, 77])) = Inr r
    \<and> int_format_from_reader r = Inr (f, r')
    \<and> bit_codec.get_list (read_number f) (length [3, -4, 77 :: i64]) r' = Inr ([3, -4, 77], r'')"
  by (rule int_format_round_trip) simp

end
