(* ===== verification/RiftTable.thy ===== *)
theory RiftTable
  imports Prelude
begin

text \<open>
  The rift tables of \<open>src/lzx/rift.rs\<close>: piecewise-constant offsets between two address spaces.
  Positions are \<open>i64\<close> words compared as signed numbers; additions and subtractions wrap (the
  release-build meaning, which the source spells out with \<open>wrapping_add\<close> where it relies on it).
  A table is the list of its entries; its meaning is \<open>rift_apply\<close>, the position plus the offset
  that \<open>get_rift\<close> finds.
\<close>

section \<open>Entries and lookup\<close>

record rift_entry =
  re_source :: i64
  re_target :: i64

type_synonym rift_table = "rift_entry list"

abbreviation src :: "rift_entry \<Rightarrow> int" where
  "src e \<equiv> sint (re_source e)"

abbreviation i64_min :: i64 where
  "i64_min \<equiv> 0x8000000000000000"

abbreviation i64_max :: i64 where
  "i64_max \<equiv> 0x7FFFFFFFFFFFFFFF"

definition rift_vector_unset_target :: i64 where
  "rift_vector_unset_target = i64_max"

definition rift_entry_offset :: "rift_entry \<Rightarrow> i64" where
  "rift_entry_offset e = re_target e - re_source e"

text \<open>
  \<open>slice::binary_search_by_key\<close>: \<open>Inr i\<close> is \<open>Ok(i)\<close> and \<open>Inl i\<close> is \<open>Err(i)\<close>. The loop halves the
  candidate range and keeps the upper half unless its first key is greater.
\<close>

function search_loop :: "int list \<Rightarrow> int \<Rightarrow> nat \<Rightarrow> nat \<Rightarrow> nat" where
  "search_loop ks k base sz =
     (if sz > 1 then
        let half = sz div 2; mid = base + half
        in search_loop ks k (if ks ! mid > k then base else mid) (sz - half)
      else base)"
  by pat_completeness auto
termination
  by (relation "measure (\<lambda>(ks, k, base, sz). sz)") auto

declare search_loop.simps [simp del]

definition binary_search :: "int list \<Rightarrow> int \<Rightarrow> nat + nat" where
  "binary_search ks k =
     (if ks = [] then Inl 0
      else
        let base = search_loop ks k 0 (length ks)
        in if ks ! base = k then Inr base
           else Inl (base + (if ks ! base < k then 1 else 0)))"

definition get_rift :: "rift_table \<Rightarrow> i64 \<Rightarrow> i64 \<times> i64" where
  "get_rift es pos =
     (let n = length es
      in if n = 0 then (0, i64_max)
         else if sint pos < src (es ! 0)
         then (rift_entry_offset (es ! (n - 1)), re_source (es ! 0) - 1)
         else
           let idx = (case binary_search (map src es) (sint pos) of Inr i \<Rightarrow> i | Inl i \<Rightarrow> i - 1);
               e = es ! idx;
               next_break = (if idx + 1 < n then re_source (es ! (idx + 1)) - 1 else i64_max)
           in (rift_entry_offset e, next_break))"

definition rift_map :: "rift_table \<Rightarrow> i64 \<Rightarrow> i64" where
  "rift_map es source_pos =
     (if es = [] then 0
      else case binary_search (map src es) (sint source_pos) of
             Inr idx \<Rightarrow> rift_entry_offset (es ! idx)
           | Inl 0 \<Rightarrow> 0
           | Inl (Suc i) \<Rightarrow> rift_entry_offset (es ! i))"

definition rift_sort :: "rift_table \<Rightarrow> rift_table" where
  "rift_sort es = sort_key src es"

section \<open>The lookup is the last entry at or below the position\<close>

lemma search_loop_spec:
  assumes "sorted ks" "base + sz \<le> length ks" "0 < sz"
    "base = 0 \<or> ks ! base \<le> k" "\<forall>j. base + sz \<le> j \<longrightarrow> j < length ks \<longrightarrow> k < ks ! j"
  defines "r \<equiv> search_loop ks k base sz"
  shows "r < length ks \<and> (r = 0 \<or> ks ! r \<le> k) \<and> (\<forall>j. r < j \<longrightarrow> j < length ks \<longrightarrow> k < ks ! j)"
  using assms(1-5) unfolding r_def
proof (induction ks k base sz rule: search_loop.induct)
  case (1 ks k base sz)
  show ?case
  proof (cases "1 < sz")
    case True
    define half where "half = sz div 2"
    have h: "0 < half" "half < sz" using True by (auto simp: half_def)
    let ?b = "if ks ! (base + half) > k then base else base + half"
    have up: "\<forall>j. ?b + (sz - half) \<le> j \<longrightarrow> j < length ks \<longrightarrow> k < ks ! j"
    proof (intro allI impI)
      fix j assume j: "?b + (sz - half) \<le> j" "j < length ks"
      show "k < ks ! j"
      proof (cases "ks ! (base + half) > k")
        case False
        then show ?thesis using j "1.prems"(5) h by simp
      next
        case t: True
        then have "base + half \<le> j \<or> base + sz \<le> j" using j(1) h by (simp add: half_def) arith
        then show ?thesis
        proof
          assume "base + half \<le> j"
          then have "ks ! (base + half) \<le> ks ! j" using "1.prems"(1) j(2) by (intro sorted_nth_mono)
          with t show ?thesis by simp
        qed (use "1.prems"(5) j in auto)
      qed
    qed
    have eq: "search_loop ks k base sz = search_loop ks k ?b (sz - half)"
      by (subst search_loop.simps) (simp only: True if_True Let_def half_def)
    have b: "?b = 0 \<or> ks ! ?b \<le> k" "?b + (sz - half) \<le> length ks" "0 < sz - half"
      using "1.prems"(2,4) h by auto
    show ?thesis unfolding eq
      by (rule "1.IH" [OF True refl refl, folded half_def]) (fact "1.prems"(1) b up)+
  next
    case False
    then have "search_loop ks k base sz = base" by (subst search_loop.simps) simp
    with False "1.prems" show ?thesis by auto
  qed
qed

lemma binary_search_spec:
  assumes "sorted ks"
  shows "binary_search ks k = Inr i \<Longrightarrow>
      i < length ks \<and> ks ! i = k \<and> (\<forall>j. i < j \<longrightarrow> j < length ks \<longrightarrow> k < ks ! j)"
    and "binary_search ks k = Inl i \<Longrightarrow>
      i \<le> length ks \<and> (\<forall>j<i. ks ! j < k) \<and> (\<forall>j. i \<le> j \<longrightarrow> j < length ks \<longrightarrow> k < ks ! j)"
proof -
  define b where "b = search_loop ks k 0 (length ks)"
  have S: "b < length ks" "b = 0 \<or> ks ! b \<le> k" "\<And>j. b < j \<Longrightarrow> j < length ks \<Longrightarrow> k < ks ! j"
    if "ks \<noteq> []"
    using search_loop_spec [OF assms, of 0 "length ks" k] that by (simp_all add: b_def)
  show "binary_search ks k = Inr i \<Longrightarrow>
      i < length ks \<and> ks ! i = k \<and> (\<forall>j. i < j \<longrightarrow> j < length ks \<longrightarrow> k < ks ! j)"
  proof -
    assume "binary_search ks k = Inr i"
    then have "ks \<noteq> []" "ks ! b = k" "i = b"
      unfolding binary_search_def Let_def b_def by (simp_all split: if_splits)
    then show ?thesis using S by blast
  qed
  assume i: "binary_search ks k = Inl i"
  show "i \<le> length ks \<and> (\<forall>j<i. ks ! j < k) \<and> (\<forall>j. i \<le> j \<longrightarrow> j < length ks \<longrightarrow> k < ks ! j)"
  proof (cases "ks = []")
    case True
    then show ?thesis using i by (auto simp: binary_search_def)
  next
    case ne: False
    then have ib: "ks ! b \<noteq> k" "i = b + (if ks ! b < k then 1 else 0)"
      using i unfolding binary_search_def Let_def b_def by (simp_all split: if_splits)
    show ?thesis
    proof (cases "ks ! b < k")
      case True
      have "ks ! j < k" if "j < i" for j
        using sorted_nth_mono [OF assms, of j b] that True ib S(1) [OF ne] by simp
      then show ?thesis using True ib S [OF ne] by auto
    next
      case False
      then have "b = 0" "i = 0" "k < ks ! 0" using ib S(2) [OF ne] by auto
      then have "k < ks ! j" if "j < length ks" for j using S(3) [OF ne, of j] that by (cases "j = 0") auto
      with \<open>i = 0\<close> show ?thesis by simp
    qed
  qed
qed

text \<open>The index of the last entry whose source is at or below \<open>pos\<close>.\<close>

definition covers :: "rift_table \<Rightarrow> i64 \<Rightarrow> nat \<Rightarrow> bool" where
  "covers es pos i \<longleftrightarrow> i < length es \<and> src (es ! i) \<le> sint pos
     \<and> (\<forall>j. i < j \<longrightarrow> j < length es \<longrightarrow> sint pos < src (es ! j))"

abbreviation rift_sorted :: "rift_table \<Rightarrow> bool" where
  "rift_sorted es \<equiv> sorted (map src es)"

lemma covers_unique: "covers es pos i \<Longrightarrow> covers es pos j \<Longrightarrow> i = j"
  unfolding covers_def by (metis linorder_neqE_nat not_le)

lemma search_covers:
  assumes s: "rift_sorted es" and ne: "es \<noteq> []" and ge: "src (es ! 0) \<le> sint pos"
  shows "covers es pos (case binary_search (map src es) (sint pos) of Inr i \<Rightarrow> i | Inl i \<Rightarrow> i - 1)"
proof (cases "binary_search (map src es) (sint pos)")
  case (Inr i)
  then show ?thesis using binary_search_spec(1) [OF s Inr] by (auto simp: covers_def)
next
  case (Inl i)
  note B = binary_search_spec(2) [OF s Inl]
  have "i \<noteq> 0" using B ge ne by (metis length_greater_0_conv length_map less_irrefl not_le nth_map order_refl)
  then have "i - 1 < i" "i - 1 < length es" using B by auto
  then show ?thesis using Inl B by (auto simp: covers_def less_imp_le)
qed

definition rift_off :: "rift_table \<Rightarrow> i64 \<Rightarrow> i64" where
  "rift_off es pos = fst (get_rift es pos)"

definition rift_apply :: "rift_table \<Rightarrow> i64 \<Rightarrow> i64" where
  "rift_apply es pos = pos + rift_off es pos"

lemma rift_off_empty [simp]: "rift_off [] pos = 0"
  by (simp add: rift_off_def get_rift_def)

lemma rift_off_covers:
  assumes "rift_sorted es" "covers es pos i"
  shows "rift_off es pos = rift_entry_offset (es ! i)"
proof -
  have ne: "es \<noteq> []" and i: "i < length es" "src (es ! i) \<le> sint pos"
    using assms(2) by (auto simp: covers_def)
  have "src (es ! 0) \<le> src (es ! i)"
    using sorted_nth_mono [OF assms(1), of 0 i] i ne by (simp add: nth_map)
  then have ge: "src (es ! 0) \<le> sint pos" using i by simp
  have "(case binary_search (map src es) (sint pos) of Inr i \<Rightarrow> i | Inl i \<Rightarrow> i - 1) = i"
    by (rule covers_unique [OF search_covers [OF assms(1) ne ge] assms(2)])
  then show ?thesis using ge ne by (simp add: rift_off_def get_rift_def Let_def)
qed

lemma rift_off_before:
  assumes "es \<noteq> []" "sint pos < src (es ! 0)"
  shows "rift_off es pos = rift_entry_offset (last es)"
  using assms by (simp add: rift_off_def get_rift_def Let_def last_conv_nth)

lemma covers_ex:
  assumes "rift_sorted es" "es \<noteq> []" "src (es ! 0) \<le> sint pos"
  obtains i where "covers es pos i"
  using search_covers [OF assms] that by blast

text \<open>Where a segment ends: no change of offset up to and including the reported break.\<close>

lemma sint_bounds: "- (2 ^ 63) \<le> sint (w :: i64)" "sint (w :: i64) < 2 ^ 63"
  using sint_greater_eq [of w] sint_less [of w] by simp_all

lemma sint_pred:
  assumes "sint (w :: i64) > - (2 ^ 63)"
  shows "sint (w - 1) = sint w - 1"
  using assms sint_bounds [of w] by (simp add: signed_take_bit_int_eq_self sint_word_ariths)

lemma get_rift_segment:
  assumes s: "rift_sorted es" and g: "get_rift es pos = (off, brk)"
  shows "sint pos \<le> sint brk" "\<And>y. sint pos \<le> sint y \<Longrightarrow> sint y \<le> sint brk \<Longrightarrow> rift_off es y = off"
proof -
  have max: "sint i64_max = 2 ^ 63 - 1" by simp
  have "sint pos \<le> sint brk \<and> (\<forall>y. sint pos \<le> sint y \<longrightarrow> sint y \<le> sint brk \<longrightarrow> rift_off es y = off)"
  proof (cases "es = []")
    case True
    then show ?thesis using g sint_bounds(2) [of pos] max by (auto simp: get_rift_def)
  next
    case ne: False
    show ?thesis
    proof (cases "sint pos < src (es ! 0)")
      case True
      have "sint (re_source (es ! 0) - 1) = src (es ! 0) - 1"
        using True sint_bounds(1) [of pos] by (intro sint_pred) simp
      moreover have "off = rift_entry_offset (last es)" "brk = re_source (es ! 0) - 1"
        using g True ne by (simp_all add: get_rift_def Let_def last_conv_nth)
      ultimately show ?thesis using True rift_off_before [OF ne] by auto
    next
      case False
      define i where "i = (case binary_search (map src es) (sint pos) of Inr i \<Rightarrow> i | Inl i \<Rightarrow> i - 1)"
      have c: "covers es pos i" unfolding i_def by (rule search_covers [OF s ne]) (use False in simp)
      have o: "off = rift_entry_offset (es ! i)"
        and b: "brk = (if i + 1 < length es then re_source (es ! (i + 1)) - 1 else i64_max)"
        using g ne False by (simp_all add: get_rift_def Let_def flip: i_def)
      have up: "sint y \<le> sint brk \<Longrightarrow> i < j \<Longrightarrow> j < length es \<Longrightarrow> sint y < src (es ! j)" for y j
      proof -
        assume y: "sint y \<le> sint brk" "i < j" "j < length es"
        have "sint pos < src (es ! (i + 1))" using c y by (auto simp: covers_def)
        then have "sint brk = src (es ! (i + 1)) - 1"
          using b y sint_bounds(1) [of pos] by (simp add: sint_pred)
        moreover have "src (es ! (i + 1)) \<le> src (es ! j)"
          using sorted_nth_mono [OF s, of "i + 1" j] y by simp
        ultimately show ?thesis using y(1) by simp
      qed
      have "sint pos \<le> sint brk"
      proof (cases "i + 1 < length es")
        case True
        then have "sint pos < src (es ! (i + 1))" using c by (auto simp: covers_def)
        then show ?thesis using b True sint_bounds(1) [of pos] by (simp add: sint_pred)
      next
        case False
        then show ?thesis using b sint_bounds(2) [of pos] max by simp
      qed
      moreover have "rift_off es y = off" if "sint pos \<le> sint y" "sint y \<le> sint brk" for y
        unfolding o by (rule rift_off_covers [OF s])
          (use c that up in \<open>auto simp: covers_def\<close>)
      ultimately show ?thesis by blast
    qed
  qed
  then show "sint pos \<le> sint brk" "\<And>y. sint pos \<le> sint y \<Longrightarrow> sint y \<le> sint brk \<Longrightarrow> rift_off es y = off"
    by blast+
qed

section \<open>Composition\<close>

text \<open>
  The walk over the pieces of one segment: the image starts at \<open>img\<close>, the next break of \<open>b\<close> is
  \<open>brk\<close>; \<open>last\<close> is the last source position of the segment. Both loops of \<open>multiply\<close> are this
  walk; the distances are compared as \<open>u64\<close>. It ends because the rest of the segment shrinks.
\<close>

function walk_pieces :: "rift_table \<Rightarrow> i64 \<Rightarrow> i64 \<Rightarrow> i64 \<Rightarrow> i64 \<Rightarrow> rift_table" where
  "walk_pieces b seg_last src_pos img brk =
     (if brk - img < seg_last - src_pos then
        let src_pos = src_pos + 1 + (brk - img);
            img = brk + 1;
            (off, brk) = get_rift b img
        in \<lparr>re_source = src_pos, re_target = off + img\<rparr> # walk_pieces b seg_last src_pos img brk
      else [])"
  by pat_completeness auto
termination
proof (relation "measure (\<lambda>(b, seg_last, src_pos, img, brk). unat (seg_last - src_pos))", goal_cases)
  case (2 b seg_last src_pos img brk x xa p q r)
  define d where "d = seg_last - src_pos"
  define s where "s = brk - img"
  have lt: "s < d" using 2 by (simp add: d_def s_def)
  have "seg_last - x = d - (s + 1)" using 2 by (simp add: d_def s_def)
  moreover have "unat (s + 1) = unat s + 1"   proof -
    have "1 + s \<noteq> 0"
    proof
      assume "1 + s = 0"
      then have "s = - 1" by (simp add: add_eq_0_iff)
      with lt show False by (simp add: word_less_nat_alt) (metis lt not_le word_order.extremum)
    qed
    from unatSuc [OF this] show ?thesis by (simp add: add.commute)
  qed
  moreover from this have "unat (d - (s + 1)) = unat d - (unat s + 1)"
    using lt by (simp add: unat_sub_if' word_less_nat_alt)
  ultimately have "unat (seg_last - x) = unat d - (unat s + 1)" by metis
  moreover have "unat s < unat d" using lt by (simp add: word_less_nat_alt)
  ultimately have "unat (seg_last - x) < unat (seg_last - src_pos)" unfolding d_def by linarith
  then show ?case by simp
qed auto

declare walk_pieces.simps [simp del]

text \<open>The pieces of one segment, the first one included.\<close>

definition segment_pieces :: "rift_table \<Rightarrow> i64 \<Rightarrow> i64 \<Rightarrow> i64 \<Rightarrow> rift_table" where
  "segment_pieces b src_pos img seg_last =
     (let (off, brk) = get_rift b img
      in \<lparr>re_source = src_pos, re_target = off + img\<rparr> # walk_pieces b seg_last src_pos img brk)"

text \<open>The main loop over the segments of \<open>a\<close>; an entry with the same source as the next is skipped.\<close>

fun multiply_segments :: "rift_table \<Rightarrow> rift_table \<Rightarrow> rift_table" where
  "multiply_segments [] b = []"
| "multiply_segments [e] b = segment_pieces b (re_source e) (re_target e) i64_max"
| "multiply_segments (e # e' # es) b =
     (if re_source e' \<noteq> re_source e
      then segment_pieces b (re_source e) (re_target e) (re_source e' - 1)
      else []) @ multiply_segments (e' # es) b"

definition rift_multiply :: "rift_table \<Rightarrow> rift_table \<Rightarrow> rift_table" where
  "rift_multiply a b =
     (if a = [] then b
      else if b = [] then a
      else
        let a_first = re_source (a ! 0);
            wrapped = (if sint i64_min < sint a_first
              then segment_pieces b i64_min (rift_entry_offset (last a) + i64_min) (a_first - 1)
              else [])
        in rift_sort (wrapped @ multiply_segments a b))"

text \<open>
  \<open>pieces\<close>: the entries of \<open>out\<close> describe the map \<open>F\<close> from \<open>lo\<close> to \<open>hi\<close>: their sources ascend
  from \<open>lo\<close> and each holds up to the next (the last up to \<open>hi\<close>).
\<close>

fun pieces :: "(i64 \<Rightarrow> i64) \<Rightarrow> int \<Rightarrow> int \<Rightarrow> rift_table \<Rightarrow> bool" where
  "pieces F lo hi [] \<longleftrightarrow> lo = hi + 1"
| "pieces F lo hi (e # es) \<longleftrightarrow> src e = lo \<and> (\<exists>m. lo \<le> m \<and> m \<le> hi
     \<and> (\<forall>x. lo \<le> sint x \<longrightarrow> sint x \<le> m \<longrightarrow> x + rift_entry_offset e = F x) \<and> pieces F (m + 1) hi es)"

lemma sint_add_small:
  assumes "sint (x :: i64) + int n < 2 ^ 63"
  shows "sint (x + of_nat n) = sint x + int n"
proof -
  have "- (2 ^ 63) \<le> sint x + int n" using sint_bounds(1) [of x] by simp
  then have "signed_take_bit 63 (sint x + int n) = sint x + int n"
    using assms by (intro signed_take_bit_int_eq_self) auto
  moreover have "x + of_nat n = word_of_int (sint x + int n)"
    by simp
  ultimately show ?thesis by (simp only: signed_of_int) simp
qed

lemma uint_diff_sint:
  assumes "sint a \<le> sint (b :: i64)"
  shows "uint (b - a) = sint b - sint a"
proof -
  have eq: "b - a = word_of_int (sint b - sint a)" by simp
  have "uint (b - a) = take_bit LENGTH(64) (sint b - sint a)"
    by (subst eq) (rule uint_word_of_int_eq)
  also have "\<dots> = sint b - sint a"
    using assms sint_bounds [of a] sint_bounds [of b] by (intro take_bit_int_eq_self) auto
  finally show ?thesis .
qed

text \<open>Within the distance to the break, the image keeps the offset.\<close>

lemma image_in_segment:
  assumes b: "rift_sorted b" and g: "get_rift b img = (off, brk)"
    and x: "x - s \<le> brk - img"
  shows "rift_off b (img + (x - s)) = off"
proof -
  note S = get_rift_segment [OF b g]
  define t where "t = unat (x - s)"
  have ut: "int t = uint (x - s)" by (simp add: t_def)
  have "uint (x - s) \<le> uint (brk - img)" using x by (simp only: word_le_def)
  then have t: "sint img + int t \<le> sint brk" unfolding ut uint_diff_sint [OF S(1)] by linarith
  have "x - s = of_nat t" by (simp add: t_def)
  moreover have "sint (img + of_nat t) = sint img + int t"
    using t sint_bounds(2) [of brk] by (intro sint_add_small) linarith
  ultimately show ?thesis using S(2) [of "img + of_nat t"] t by simp
qed

lemma walk_pieces_spec:
  assumes "rift_sorted b" "get_rift b img = (off, brk)" "img = src_pos + k" "sint src_pos \<le> sint seg_last"
  shows "pieces (\<lambda>x. rift_apply b (x + k)) (sint src_pos) (sint seg_last)
    (\<lparr>re_source = src_pos, re_target = off + img\<rparr> # walk_pieces b seg_last src_pos img brk)"
  using assms
proof (induction b seg_last src_pos img brk arbitrary: off rule: walk_pieces.induct)
  case (1 b seg_last src_pos img brk)
  note g = "1.prems"(2) and img = "1.prems"(3) and le = "1.prems"(4)
  have off: "x + rift_entry_offset \<lparr>re_source = src_pos, re_target = off + img\<rparr> = rift_apply b (x + k)"
    if "x - src_pos \<le> brk - img" for x
    using image_in_segment [OF "1.prems"(1) g that] img
    by (simp add: rift_entry_offset_def rift_apply_def algebra_simps)
  have dist: "uint (x - src_pos) = sint x - sint src_pos" if "sint src_pos \<le> sint x" for x
    by (rule uint_diff_sint [OF that])
  show ?case
  proof (cases "brk - img < seg_last - src_pos")
    case False
    have "x - src_pos \<le> brk - img" if "sint src_pos \<le> sint x" "sint x \<le> sint seg_last" for x
    proof -
      have "uint (x - src_pos) \<le> uint (seg_last - src_pos)"
        unfolding dist [OF that(1)] dist [OF le] using that(2) by linarith
      with False show ?thesis unfolding word_le_def word_less_def by linarith
    qed
    with off have all: "\<forall>x. sint src_pos \<le> sint x \<longrightarrow> sint x \<le> sint seg_last \<longrightarrow>
          x + rift_entry_offset \<lparr>re_source = src_pos, re_target = off + img\<rparr> = rift_apply b (x + k)"
      by blast
    have "walk_pieces b seg_last src_pos img brk = []"
      by (subst walk_pieces.simps) (simp only: False if_False)
    with all show ?thesis using le by (auto intro: exI [of _ "sint seg_last"])
  next
    case True
    define s where "s = unat (brk - img)"
    have s: "int s < sint seg_last - sint src_pos"
      using True dist [OF le] by (simp add: s_def word_less_def)
    define src' where "src' = src_pos + 1 + (brk - img)"
    obtain off' brk' where g': "get_rift b (brk + 1) = (off', brk')" by (cases "get_rift b (brk + 1)")
    have src': "src' = src_pos + of_nat (s + 1)" by (simp add: src'_def s_def algebra_simps)
    have ss: "sint src' = sint src_pos + int (s + 1)"
      unfolding src' by (rule sint_add_small) (use s sint_bounds(2) [of seg_last] in simp)
    have im: "brk + 1 = src' + k" by (simp add: src'_def img algebra_simps)
    have w: "walk_pieces b seg_last src_pos img brk
        = \<lparr>re_source = src', re_target = off' + (brk + 1)\<rparr> # walk_pieces b seg_last src' (brk + 1) brk'"
      by (subst walk_pieces.simps) (simp add: True Let_def g' src'_def)
    have IH: "pieces (\<lambda>x. rift_apply b (x + k)) (sint src') (sint seg_last)
        (walk_pieces b seg_last src_pos img brk)"
      unfolding w
      by (rule "1.IH" [OF True src'_def refl g' [symmetric] refl "1.prems"(1) g' im]) (use ss s in simp)
    have "x - src_pos \<le> brk - img" if "sint src_pos \<le> sint x" "sint x \<le> sint src_pos + int s" for x
      using dist [OF that(1)] that(2) by (simp add: word_le_def s_def)
    with off have all: "\<forall>x. sint src_pos \<le> sint x \<longrightarrow> sint x \<le> sint src_pos + int s \<longrightarrow>
          x + rift_entry_offset \<lparr>re_source = src_pos, re_target = off + img\<rparr> = rift_apply b (x + k)"
      by blast
    have "sint src_pos + int s + 1 = sint src'" unfolding ss by simp
    with IH all s show ?thesis
      unfolding pieces.simps rift_entry.simps
      by (intro conjI exI [of _ "sint src_pos + int s"]) auto
  qed
qed

lemma segment_pieces_spec:
  assumes "rift_sorted b" "sint src_pos \<le> sint seg_last"
  shows "pieces (\<lambda>x. rift_apply b (x + k)) (sint src_pos) (sint seg_last)
    (segment_pieces b src_pos (src_pos + k) seg_last)"
proof -
  obtain off brk where g: "get_rift b (src_pos + k) = (off, brk)" by (cases "get_rift b (src_pos + k)")
  show ?thesis using walk_pieces_spec [OF assms(1) g refl assms(2)] by (simp add: segment_pieces_def g)
qed

lemma pieces_cong:
  "(\<And>x. lo \<le> sint x \<Longrightarrow> sint x \<le> hi \<Longrightarrow> F x = G x) \<Longrightarrow> pieces F lo hi es \<Longrightarrow> pieces G lo hi es"
proof (induction es arbitrary: lo)
  case (Cons e es)
  from Cons.prems(2) obtain m where m: "src e = lo" "lo \<le> m" "m \<le> hi"
    "\<And>x. lo \<le> sint x \<Longrightarrow> sint x \<le> m \<Longrightarrow> x + rift_entry_offset e = F x" "pieces F (m + 1) hi es" by auto
  have "pieces G (m + 1) hi es" by (rule Cons.IH [OF _ m(5)]) (use Cons.prems(1) m in auto)
  with m Cons.prems(1) show ?case by (auto intro!: exI [of _ m])
qed simp

lemma pieces_append:
  "pieces F lo m xs \<Longrightarrow> pieces F (m + 1) hi ys \<Longrightarrow> m \<le> hi \<Longrightarrow> pieces F lo hi (xs @ ys)"
proof (induction xs arbitrary: lo)
  case (Cons e xs)
  then obtain m' where m': "src e = lo" "lo \<le> m'" "m' \<le> m" "pieces F (m' + 1) m xs"
    "\<And>x. lo \<le> sint x \<Longrightarrow> sint x \<le> m' \<Longrightarrow> x + rift_entry_offset e = F x" by auto
  with Cons.IH [OF m'(4) Cons.prems(2,3)] Cons.prems(3) show ?case
    by (auto intro!: exI [of _ m'])
qed simp

lemma pieces_sorted: "pieces F lo hi es \<Longrightarrow> rift_sorted es \<and> (\<forall>e\<in>set es. lo \<le> src e \<and> src e \<le> hi)"
proof (induction es arbitrary: lo)
  case (Cons e es)
  then obtain m where m: "src e = lo" "lo \<le> m" "m \<le> hi" "pieces F (m + 1) hi es" by auto
  from Cons.IH [OF m(4)] m show ?case by force
qed simp

lemma covers_Cons: "covers es pos i \<Longrightarrow> covers (e # es) pos (Suc i)"
  unfolding covers_def by (auto simp: nth_Cons split: nat.splits)

lemma pieces_lookup:
  "pieces F lo hi es \<Longrightarrow> lo \<le> sint x \<Longrightarrow> sint x \<le> hi \<Longrightarrow>
    \<exists>i. covers es x i \<and> x + rift_entry_offset (es ! i) = F x"
proof (induction es arbitrary: lo)
  case (Cons e es)
  then obtain m where m: "src e = lo" "lo \<le> m" "m \<le> hi" "pieces F (m + 1) hi es"
    "\<And>x. lo \<le> sint x \<Longrightarrow> sint x \<le> m \<Longrightarrow> x + rift_entry_offset e = F x" by auto
  show ?case
  proof (cases "sint x \<le> m")
    case True
    have "sint x < src e'" if "e' \<in> set es" for e' using pieces_sorted [OF m(4)] that True by force
    then have "covers (e # es) x 0" using m(1) Cons.prems(2) by (auto simp: covers_def nth_Cons split: nat.splits)
    then show ?thesis using m(5) [OF Cons.prems(2) True] by (intro exI [of _ 0]) simp
  next
    case False
    then obtain i where "covers es x i" "x + rift_entry_offset (es ! i) = F x"
      using Cons.IH [OF m(4)] Cons.prems(3) by auto
    then show ?thesis using covers_Cons by (intro exI [of _ "Suc i"]) simp
  qed
qed simp

lemma pieces_apply:
  assumes "pieces F (- (2 ^ 63)) (2 ^ 63 - 1) es"
  shows "rift_apply es x = F x"
proof -
  have "sint x \<le> 2 ^ 63 - 1" using sint_bounds(2) [of x] by simp
  then obtain i where i: "covers es x i" "x + rift_entry_offset (es ! i) = F x"
    using pieces_lookup [OF assms sint_bounds(1)] by auto
  have "rift_sorted es" using pieces_sorted [OF assms] by simp
  then show ?thesis using rift_off_covers [OF _ i(1)] i(2) by (simp add: rift_apply_def)
qed

lemma rift_off_tail:
  assumes "rift_sorted (e # es)" "es \<noteq> []" "src (hd es) \<le> sint x"
  shows "rift_off (e # es) x = rift_off es x"
proof -
  have s: "rift_sorted es" using assms(1) by simp
  obtain i where i: "covers es x i"
    using covers_ex [OF s assms(2)] assms(2,3) by (metis hd_conv_nth)
  show ?thesis using rift_off_covers [OF s i] rift_off_covers [OF assms(1) covers_Cons [OF i]] by simp
qed

lemma rift_off_head:
  assumes "rift_sorted (e # es)" "src e \<le> sint x" "es = [] \<or> sint x < src (hd es)"
  shows "rift_off (e # es) x = rift_entry_offset e"
proof -
  have "sint x < src (es ! j)" if "j < length es" for j
  proof -
    have "src (hd es) \<le> src (es ! j)"
      using assms(1) that sorted_nth_mono [of "map src es" 0 j] by (cases es) (auto simp: nth_Cons split: nat.splits)
    then show ?thesis using assms(3) that by auto
  qed
  then have "covers (e # es) x 0" using assms(2) by (auto simp: covers_def nth_Cons split: nat.splits)
  from rift_off_covers [OF assms(1) this] show ?thesis by simp
qed

lemma multiply_segments_spec:
  "rift_sorted b \<Longrightarrow> a \<noteq> [] \<Longrightarrow> rift_sorted a \<Longrightarrow>
    pieces (\<lambda>x. rift_apply b (rift_apply a x)) (src (hd a)) (2 ^ 63 - 1) (multiply_segments a b)"
proof (induction a b rule: multiply_segments.induct)
  case (2 e b)
  have "pieces (\<lambda>x. rift_apply b (x + rift_entry_offset e)) (src e) (sint i64_max) (multiply_segments [e] b)"
    using segment_pieces_spec [OF "2.prems"(1), of "re_source e" i64_max "rift_entry_offset e"]
      sint_bounds(2) [of "re_source e"] by (simp add: rift_entry_offset_def)
  then have "pieces (\<lambda>x. rift_apply b (rift_apply [e] x)) (src e) (sint i64_max) (multiply_segments [e] b)"
    by (rule pieces_cong [rotated]) (simp add: rift_apply_def rift_off_head)
  then show ?case by simp
next
  case (3 e e' es b)
  let ?a = "e # e' # es"
  have s: "rift_sorted (e' # es)" "src e \<le> src e'" using "3.prems"(3) by auto
  have "pieces (\<lambda>x. rift_apply b (rift_apply (e' # es) x)) (src e') (2 ^ 63 - 1) (multiply_segments (e' # es) b)"
    using "3.IH" [OF "3.prems"(1) _ s(1)] by simp
  then have tail: "pieces (\<lambda>x. rift_apply b (rift_apply ?a x)) (src e') (2 ^ 63 - 1) (multiply_segments (e' # es) b)"
    by (rule pieces_cong [rotated]) (use "3.prems"(3) rift_off_tail [of e "e' # es"] in \<open>simp add: rift_apply_def\<close>)
  show ?case
  proof (cases "re_source e' = re_source e")
    case True
    then show ?thesis using tail by simp
  next
    case False
    then have lt: "src e < src e'" using s(2) by (metis order_le_less signed_word_eqI)
    have p: "sint (re_source e' - 1) = src e' - 1"
      using lt sint_bounds(1) [of "re_source e"] by (intro sint_pred) simp
    have "pieces (\<lambda>x. rift_apply b (x + rift_entry_offset e)) (src e) (src e' - 1)
        (segment_pieces b (re_source e) (re_target e) (re_source e' - 1))"
      using segment_pieces_spec [OF "3.prems"(1), of "re_source e" "re_source e' - 1" "rift_entry_offset e"] lt p
      by (simp add: rift_entry_offset_def)
    then have "pieces (\<lambda>x. rift_apply b (rift_apply ?a x)) (src e) (src e' - 1)
        (segment_pieces b (re_source e) (re_target e) (re_source e' - 1))"
      by (rule pieces_cong [rotated]) (use "3.prems"(3) in \<open>simp add: rift_apply_def rift_off_head\<close>)
    from pieces_append [OF this] tail False show ?thesis
      using sint_bounds(2) [of "re_source e'"] by simp
  qed
qed simp

text \<open>\<open>multiply\<close> is composition, for every position and every pair of sorted tables.\<close>

lemma rift_multiply_apply:
  assumes a: "rift_sorted a" and b: "rift_sorted b"
  shows "rift_apply (rift_multiply a b) x = rift_apply b (rift_apply a x)"
proof (cases "a = [] \<or> b = []")
  case True
  then show ?thesis by (auto simp: rift_multiply_def rift_apply_def)
next
  case False
  then have ne: "a \<noteq> []" "b \<noteq> []" by auto
  let ?F = "\<lambda>x. rift_apply b (rift_apply a x)"
  let ?f = "re_source (a ! 0)"
  have main: "pieces ?F (sint ?f) (2 ^ 63 - 1) (multiply_segments a b)"
    using multiply_segments_spec [OF b ne(1) a] by (simp add: hd_conv_nth ne(1))
  have min: "sint i64_min = - (2 ^ 63)" by simp
  have "\<exists>out. rift_multiply a b = rift_sort out \<and> pieces ?F (- (2 ^ 63)) (2 ^ 63 - 1) out"
  proof (cases "sint i64_min < sint ?f")
    case True
    have p: "sint (?f - 1) = sint ?f - 1" using True by (intro sint_pred) simp
    let ?w = "segment_pieces b i64_min (rift_entry_offset (last a) + i64_min) (?f - 1)"
    have "pieces (\<lambda>x. rift_apply b (x + rift_entry_offset (last a))) (sint i64_min) (sint (?f - 1)) ?w"
      using segment_pieces_spec [OF b, of i64_min "?f - 1" "rift_entry_offset (last a)"] True p
      by (simp add: add.commute)
    then have "pieces ?F (sint i64_min) (sint (?f - 1)) ?w"
      by (rule pieces_cong [rotated]) (use ne(1) p in \<open>simp add: rift_apply_def rift_off_before\<close>)
    then have "pieces ?F (- (2 ^ 63)) (2 ^ 63 - 1) (?w @ multiply_segments a b)"
      using main p sint_bounds(2) [of ?f] by (intro pieces_append [where m = "sint ?f - 1"]) auto
    then show ?thesis using ne True by (auto simp: rift_multiply_def Let_def)
  next
    case f: False
    then have "sint ?f = - (2 ^ 63)" using sint_bounds(1) [of ?f] min by linarith
    then show ?thesis using ne f main by (auto simp: rift_multiply_def Let_def)
  qed
  then obtain out where out: "rift_multiply a b = rift_sort out" "pieces ?F (- (2 ^ 63)) (2 ^ 63 - 1) out" by blast
  have "rift_sort out = out"
    using pieces_sorted [OF out(2)] by (simp add: rift_sort_def sort_key_id_if_sorted)
  then show ?thesis using pieces_apply [OF out(2)] out(1) by simp
qed

section \<open>Entries that change nothing\<close>

definition dedup_offsets_step :: "rift_table \<Rightarrow> rift_entry \<Rightarrow> rift_table" where
  "dedup_offsets_step kept e =
     (if kept = [] then [e]
      else
        let prev = last kept
        in if re_source prev = re_source e \<or> rift_entry_offset prev = rift_entry_offset e
           then if re_source prev = re_source e then butlast kept @ [e] else kept
           else kept @ [e])"

definition dedup_offsets :: "rift_table \<Rightarrow> rift_table" where
  "dedup_offsets es = (if length es < 2 then es else foldl dedup_offsets_step [] es)"

definition dedup_same_source_step :: "rift_table \<Rightarrow> rift_entry \<Rightarrow> rift_table" where
  "dedup_same_source_step kept e =
     (if kept \<noteq> [] \<and> re_source (last kept) = re_source e then butlast kept @ [e] else kept @ [e])"

definition dedup_same_source :: "rift_table \<Rightarrow> rift_table" where
  "dedup_same_source es = (if length es < 2 then es else foldl dedup_same_source_step [] es)"

abbreviation strict_sorted :: "rift_table \<Rightarrow> bool" where
  "strict_sorted es \<equiv> sorted_wrt (<) (map src es)"

lemma strict_sorted_sorted: "strict_sorted es \<Longrightarrow> rift_sorted es"
  by (rule strict_sorted_imp_sorted)

lemma covers_append: "covers es x i \<Longrightarrow> sint x < src e \<Longrightarrow> covers (es @ [e]) x i"
  unfolding covers_def by (auto simp: nth_append less_Suc_eq)

lemma rift_off_snoc:
  assumes s: "rift_sorted (es @ [e])" and ne: "es \<noteq> []"
  shows "rift_off (es @ [e]) x =
    (if src e \<le> sint x \<or> sint x < src (hd es) then rift_entry_offset e else rift_off es x)"
proof -
  have s': "rift_sorted es" using s by (simp add: sorted_append)
  consider "src e \<le> sint x" | "sint x < src e" "sint x < src (hd es)"
    | "sint x < src e" "src (hd es) \<le> sint x" by linarith
  then show ?thesis
  proof cases
    case 1
    have "covers (es @ [e]) x (length es)" using 1 by (auto simp: covers_def nth_append)
    from rift_off_covers [OF s this] show ?thesis using 1 by simp
  next
    case 2
    have "rift_off (es @ [e]) x = rift_entry_offset (last (es @ [e]))"
      by (rule rift_off_before) (use 2 ne in \<open>auto simp: nth_append hd_conv_nth\<close>)
    then show ?thesis using 2 by simp
  next
    case 3
    obtain i where i: "covers es x i" using covers_ex [OF s' ne] 3 by (metis hd_conv_nth ne)
    show ?thesis
      using rift_off_covers [OF s covers_append [OF i 3(1)]] rift_off_covers [OF s' i] i 3
      by (simp add: nth_append covers_def)
  qed
qed

lemma rift_off_single: "rift_off [e] x = rift_entry_offset e"
proof (cases "sint x < src e")
  case True
  then show ?thesis by (simp add: rift_off_before)
next
  case False
  then show ?thesis by (simp add: rift_off_head)
qed

text \<open>The invariant of the folds over strictly sorted tables.\<close>

definition same_map :: "rift_table \<Rightarrow> rift_table \<Rightarrow> bool" where
  "same_map kept es \<longleftrightarrow> strict_sorted kept \<and> (kept = [] \<longleftrightarrow> es = []) \<and>
     (es \<noteq> [] \<longrightarrow> src (hd kept) = src (hd es) \<and> src (last kept) \<le> src (last es)
        \<and> rift_entry_offset (last kept) = rift_entry_offset (last es))
     \<and> (\<forall>x. rift_off kept x = rift_off es x)"

lemma strict_sorted_snoc:
  "strict_sorted (es @ [e]) \<longleftrightarrow> strict_sorted es \<and> (es = [] \<or> src (last es) < src e)"
proof (induction es)
  case (Cons a es)
  then show ?case by (cases es rule: rev_cases) (auto simp: sorted_wrt_append)
qed simp

lemma rift_off_keep:
  assumes "rift_sorted kept" "kept \<noteq> []" "src (last kept) \<le> sint x \<or> sint x < src (hd kept)"
  shows "rift_off kept x = rift_entry_offset (last kept)"
proof (cases kept rule: rev_cases)
  case (snoc es e)
  then show ?thesis
    using rift_off_snoc [of es e x] assms rift_off_single [of e x] by (cases "es = []") auto
qed (use assms in simp)

lemma same_map_push:
  assumes m: "same_map kept es" and s: "strict_sorted (es @ [e])"
  shows "same_map (kept @ [e]) (es @ [e])"
proof (cases "es = []")
  case True
  then show ?thesis using m by (simp add: same_map_def)
next
  case False
  then have k: "kept \<noteq> []" "strict_sorted kept" "src (hd kept) = src (hd es)" "src (last kept) \<le> src (last es)"
    "\<And>x. rift_off kept x = rift_off es x"
    using m by (auto simp: same_map_def)
  have "src (last es) < src e" using s False strict_sorted_snoc by blast
  then have sk: "strict_sorted (kept @ [e])" using k strict_sorted_snoc by fastforce
  have "rift_off (kept @ [e]) x = rift_off (es @ [e]) x" for x
    using rift_off_snoc [OF strict_sorted_sorted [OF sk] k(1), of x]
      rift_off_snoc [OF strict_sorted_sorted [OF s] False, of x] k by simp
  with sk k False show ?thesis by (simp add: same_map_def)
qed

lemma same_map_skip:
  assumes m: "same_map kept es" and s: "strict_sorted (es @ [e])" and ne: "es \<noteq> []"
    and o: "rift_entry_offset (last kept) = rift_entry_offset e"
  shows "same_map kept (es @ [e])"
proof -
  have k: "kept \<noteq> []" "strict_sorted kept" "src (hd kept) = src (hd es)" "src (last kept) \<le> src (last es)"
    "\<And>x. rift_off kept x = rift_off es x"
    using m ne by (auto simp: same_map_def)
  have lt: "src (last es) < src e" using s ne strict_sorted_snoc by blast
  have "rift_off kept x = rift_off (es @ [e]) x" for x
    using rift_off_keep [OF strict_sorted_sorted [OF k(2)] k(1), of x]
      rift_off_snoc [OF strict_sorted_sorted [OF s] ne, of x] k o lt by auto
  with k ne o lt show ?thesis by (simp add: same_map_def)
qed

lemma dedup_offsets_same_map:
  "strict_sorted es \<Longrightarrow> same_map (foldl dedup_offsets_step [] es) es"
proof (induction es rule: rev_induct)
  case Nil
  then show ?case by (simp add: same_map_def)
next
  case (snoc e es)
  let ?k = "foldl dedup_offsets_step [] es"
  have IH: "same_map ?k es" using snoc strict_sorted_snoc by blast
  show ?case
  proof (cases "es = []")
    case True
    then show ?thesis using same_map_push [OF IH snoc.prems] by (simp add: dedup_offsets_step_def)
  next
    case False
    then have k: "?k \<noteq> []" "src (last ?k) \<le> src (last es)" using IH by (auto simp: same_map_def)
    have "src (last es) < src e" using snoc.prems False strict_sorted_snoc by blast
    then have "re_source (last ?k) \<noteq> re_source e" using k(2) by auto
    then have "foldl dedup_offsets_step [] (es @ [e])
        = (if rift_entry_offset (last ?k) = rift_entry_offset e then ?k else ?k @ [e])"
      using k(1) by (simp add: dedup_offsets_step_def Let_def)
    then show ?thesis
      using same_map_push [OF IH snoc.prems] same_map_skip [OF IH snoc.prems False] by simp
  qed
qed

lemma dedup_offsets_map:
  "strict_sorted es \<Longrightarrow> rift_off (dedup_offsets es) x = rift_off es x"
  using dedup_offsets_same_map [of es] by (simp add: dedup_offsets_def same_map_def)

section \<open>Sum\<close>

definition rift_sum :: "rift_table \<Rightarrow> rift_table \<Rightarrow> rift_table" where
  "rift_sum a b =
     (if a = [] then b
      else if b = [] then a
      else
        let breaks = remdups_adj (sort_key sint (map re_source a @ map re_source b));
            out = map (\<lambda>s. \<lparr>re_source = s,
                    re_target = s + fst (get_rift a s) + fst (get_rift b s)\<rparr>) breaks
        in dedup_offsets (rift_sort out))"

lemma rift_off_stable:
  assumes s: "rift_sorted es" and le: "sint p \<le> sint x"
    and none: "\<And>e. e \<in> set es \<Longrightarrow> \<not> (sint p < src e \<and> src e \<le> sint x)"
  shows "rift_off es x = rift_off es p"
proof (cases "es = []")
  case False
  have h: "es ! 0 \<in> set es" using False by simp
  show ?thesis
  proof (cases "sint p < src (es ! 0)")
    case True
    then have "sint x < src (es ! 0)" using none [OF h] by auto
    with True show ?thesis using rift_off_before [OF False] by simp
  next
    case ge: False
    obtain i where i: "covers es p i" using covers_ex [OF s False, of p] ge by auto
    have "covers es x i"
      using i le none by (auto simp: covers_def) (metis nth_mem not_le)
    with i show ?thesis using rift_off_covers [OF s] by metis
  qed
qed simp

lemma remdups_adj_sort_strict:
  "sorted_wrt (<) (map sint (remdups_adj (sort_key sint (xs :: i64 list))))"
proof -
  have s: "sorted (map sint (sort_key sint xs))" by simp
  have "sorted_wrt (<) (map sint (remdups_adj ys))" if "sorted (map sint ys)" for ys :: "i64 list"
    using that
  proof (induction ys rule: remdups_adj.induct)
    case (3 x y ys)
    show ?case
    proof (cases "x = y")
      case True
      then show ?thesis using 3 by simp
    next
      case False
      have IH: "sorted_wrt (<) (map sint (remdups_adj (y # ys)))" using 3(2) [OF False] 3(3) by simp
      have "sint x < sint y" using False 3(3) by (auto simp: order_le_less dest: signed_word_eqI)
      moreover have "sint y \<le> sint z" if "z \<in> set (y # ys)" for z using 3(3) that by auto
      ultimately have "sint x < sint z" if "z \<in> set (remdups_adj (y # ys))" for z
        using that by fastforce
      then show ?thesis using False IH by simp
    qed
  qed auto
  from this [OF s] show ?thesis .
qed

lemma rift_sum_off:
  assumes a: "rift_sorted a" and b: "rift_sorted b"
  shows "rift_off (rift_sum a b) x = rift_off a x + rift_off b x"
proof (cases "a = [] \<or> b = []")
  case True
  then show ?thesis by (auto simp: rift_sum_def)
next
  case False
  then have ne: "a \<noteq> []" "b \<noteq> []" by auto
  define ks where "ks = remdups_adj (sort_key sint (map re_source a @ map re_source b))"
  define out where "out = map (\<lambda>s. \<lparr>re_source = s,
                    re_target = s + fst (get_rift a s) + fst (get_rift b s)\<rparr>) ks"
  have kset: "set ks = re_source ` (set a \<union> set b)" by (simp add: ks_def image_Un)
  have kne: "ks \<noteq> []" using kset ne by auto
  have ssrc: "map src out = map sint ks" by (simp add: out_def comp_def)
  then have strict: "strict_sorted out" using remdups_adj_sort_strict by (simp add: ks_def)
  note so = strict_sorted_sorted [OF strict]
  have eq: "rift_sum a b = dedup_offsets out"
    using ne so by (simp add: rift_sum_def out_def ks_def Let_def rift_sort_def sort_key_id_if_sorted)
  have off: "rift_entry_offset (out ! i) = rift_off a (ks ! i) + rift_off b (ks ! i)" if "i < length ks" for i
    using that by (simp add: out_def rift_entry_offset_def rift_off_def)
  have sorted_ks: "sorted (map sint ks)" using so ssrc by simp
  have stable: "rift_off t x = rift_off t (ks ! i)"
    if t: "t \<in> {a, b}" and i: "i < length ks" "sint (ks ! i) \<le> sint x"
      "\<And>j. i < j \<Longrightarrow> j < length ks \<Longrightarrow> sint x < sint (ks ! j)" for t i
  proof (rule rift_off_stable)
    show "rift_sorted t" using t a b by auto
    show "sint (ks ! i) \<le> sint x" by (rule i)
    fix e assume "e \<in> set t"
    then have "re_source e \<in> set ks" using t kset by auto
    then obtain j where j: "j < length ks" "re_source e = ks ! j" by (auto simp: in_set_conv_nth)
    show "\<not> (sint (ks ! i) < src e \<and> src e \<le> sint x)"
    proof
      assume h: "sint (ks ! i) < src e \<and> src e \<le> sint x"
      have "\<not> j \<le> i" using sorted_nth_mono [OF sorted_ks, of j i] h j i(1) by auto
      then show False using i(3) [of j] j h by simp
    qed
  qed
  have "rift_off out x = rift_off a x + rift_off b x"
  proof (cases "sint x < src (out ! 0)")
    case True
    let ?l = "length ks - 1"
    have lt: "?l < length ks" using kne by simp
    have lo: "length out = length ks" by (simp add: out_def)
    have before: "rift_off t x = rift_off t (ks ! ?l)" if t: "t \<in> {a, b}" for t
    proof -
      have tn: "t \<noteq> []" "rift_sorted t" using t ne a b by auto
      have ts: "src e \<in> set (map sint ks)" if "e \<in> set t" for e using t kset that by auto
      have "sint (ks ! 0) \<le> src (t ! 0)"
      proof -
        have "t ! 0 \<in> set t" using tn by simp
        from ts [OF this] obtain j where "j < length ks" "map sint ks ! j = src (t ! 0)"
          by (auto simp: in_set_conv_nth)
        then show ?thesis using sorted_nth_mono [OF sorted_ks, of 0 j] kne by simp
      qed
      moreover have "src (out ! 0) = sint (ks ! 0)" using kne by (simp add: out_def)
      ultimately have bx: "rift_off t x = rift_entry_offset (last t)"
        using True tn by (intro rift_off_before) auto
      have "src e \<le> sint (ks ! ?l)" if "e \<in> set t" for e
        using ts [OF that] sorted_nth_mono [OF sorted_ks, of _ ?l] lt by (auto simp: in_set_conv_nth)
      then have "rift_off t (ks ! ?l) = rift_entry_offset (last t)"
        using tn by (intro rift_off_keep) auto
      with bx show ?thesis by simp
    qed
    have "rift_off out x = rift_entry_offset (last out)"
      using True kne by (intro rift_off_before) (auto simp: out_def)
    also have "last out = out ! ?l" using kne lo by (simp add: last_conv_nth out_def)
    finally show ?thesis using off [OF lt] before by simp
  next
    case ge: False
    have one: "out \<noteq> []" using kne by (simp add: out_def)
    obtain i where i: "covers out x i"
      by (rule covers_ex [OF so one, of x]) (use ge in auto)
    have ki: "i < length ks" "sint (ks ! i) \<le> sint x"
      "\<And>j. i < j \<Longrightarrow> j < length ks \<Longrightarrow> sint x < sint (ks ! j)"
      using i by (auto simp: covers_def out_def)
    have "rift_off out x = rift_entry_offset (out ! i)" by (rule rift_off_covers [OF so i])
    then show ?thesis using off [OF ki(1)] stable [OF _ ki, of a] stable [OF _ ki, of b] by simp
  qed
  then show ?thesis by (simp add: eq dedup_offsets_map [OF strict])
qed

section \<open>Reduction of vector maps\<close>

definition reset_vector :: "nat \<Rightarrow> rift_table" where
  "reset_vector n = map (\<lambda>s. \<lparr>re_source = of_nat s, re_target = rift_vector_unset_target\<rparr>) [0..<n]"

definition set_vector_entry :: "rift_table \<Rightarrow> i64 \<Rightarrow> i64 \<Rightarrow> rift_table" where
  "set_vector_entry es source target =
     (if sint source < 0 then es
      else
        let i = unat source
        in if i < length es \<and> re_source (es ! i) = source
           then es[i := (es ! i)\<lparr>re_target := target\<rparr>] else es)"
















section \<open>The table of the decompressor\<close>

definition offset_table :: "rift_table \<Rightarrow> (i64 \<times> i64) list" where
  "offset_table es =
     (if es = [] then [(0, 0)]
      else (0, rift_entry_offset (last es)) # map (\<lambda>e. (re_source e, rift_entry_offset e)) es)"

definition offset_at :: "(i64 \<times> i64) list \<Rightarrow> i64 \<Rightarrow> i64" where
  "offset_at es pos =
     (case binary_search (map (\<lambda>(p, _). sint p) es) (sint pos) of
        Inr i \<Rightarrow> snd (es ! i)
      | Inl 0 \<Rightarrow> snd (es ! 0)
      | Inl (Suc i) \<Rightarrow> snd (es ! i))"

definition segment_at :: "(i64 \<times> i64) list \<Rightarrow> i64 \<Rightarrow> i64 \<times> i64" where
  "segment_at es pos =
     (let idx = (case binary_search (map (\<lambda>(p, _). sint p) es) (sint pos) of
                   Inr i \<Rightarrow> i | Inl 0 \<Rightarrow> 0 | Inl (Suc i) \<Rightarrow> i);
          off = snd (es ! idx);
          nxt = (if idx + 1 < length es then fst (es ! (idx + 1)) else i64_max)
      in (off, nxt))"

lemma segment_at_offset: "fst (segment_at es pos) = offset_at es pos"
  by (simp add: segment_at_def offset_at_def Let_def split: sum.split nat.split)

text \<open>For non-negative sources the decompressor's lookup is \<open>get_rift\<close>.\<close>

lemma offset_at_get_rift:
  assumes s: "rift_sorted es" and nn: "\<forall>e\<in>set es. 0 \<le> src e" and pos: "0 \<le> sint pos"
  shows "offset_at (offset_table es) pos = rift_off es pos"
proof (cases "es = []")
  case True
  then show ?thesis by (simp add: offset_table_def offset_at_def split: sum.split nat.split)
    (auto simp: binary_search_def search_loop.simps Let_def split: if_splits)
next
  case False
  define e0 where "e0 = \<lparr>re_source = 0, re_target = rift_entry_offset (last es)\<rparr>"
  have o0: "rift_entry_offset e0 = rift_entry_offset (last es)" by (simp add: e0_def rift_entry_offset_def)
  have tab: "offset_table es = map (\<lambda>e. (re_source e, rift_entry_offset e)) (e0 # es)"
    using False by (simp add: offset_table_def e0_def rift_entry_offset_def)
  have keys: "map (\<lambda>(p, _). sint p) (offset_table es) = map src (e0 # es)" by (simp add: tab)
  have so: "rift_sorted (e0 # es)" using s nn by (auto simp: e0_def)
  have ge: "src ((e0 # es) ! 0) \<le> sint pos" using pos by (simp add: e0_def)
  note c = search_covers [OF so _ ge, simplified]
  obtain i where i: "covers (e0 # es) pos i"
    "(case binary_search (map src (e0 # es)) (sint pos) of Inr i \<Rightarrow> i | Inl i \<Rightarrow> i - 1) = i"
    using search_covers [OF so _ ge] by auto
  have "offset_at (offset_table es) pos = rift_entry_offset ((e0 # es) ! i)"
  proof -
    have il: "i < length (e0 # es)" using i(1) by (simp add: covers_def)
    then have n: "snd (offset_table es ! i) = rift_entry_offset ((e0 # es) ! i)"
      unfolding tab by (subst nth_map) auto
    show ?thesis
      using i(2) n unfolding offset_at_def keys
      by (auto split: sum.split nat.split)
  qed
  also have "\<dots> = rift_off (e0 # es) pos" using rift_off_covers [OF so i(1)] by simp
  also have "\<dots> = rift_off es pos"
  proof (cases "src (hd es) \<le> sint pos")
    case True
    then show ?thesis by (rule rift_off_tail [OF so False])
  next
    case lt: False
    then have "rift_off (e0 # es) pos = rift_entry_offset e0"
      using pos by (intro rift_off_head [OF so]) (auto simp: e0_def)
    moreover have "rift_off es pos = rift_entry_offset (last es)"
      using lt False by (intro rift_off_before) (auto simp: hd_conv_nth)
    ultimately show ?thesis using o0 by simp
  qed
  finally show ?thesis .
qed

section \<open>Properties of the rift operations\<close>

text \<open>
  C4. \<open>RiftTable::multiply\<close> is the composition of the two maps: at every 64-bit position,
  also the ones before the first entry and the ones whose image wraps, mapping through the
  product is mapping through the first table and then through the second.
\<close>

theorem multiply_composes:
  assumes "rift_sorted a" "rift_sorted b"
  shows "rift_apply (rift_multiply a b) x = rift_apply b (rift_apply a x)"
  by (rule rift_multiply_apply [OF assms])

theorem multiply_composes_witness:
  "rift_apply (rift_multiply [\<lparr>re_source = 0, re_target = 16\<rparr>, \<lparr>re_source = 32, re_target = 8\<rparr>]
      [\<lparr>re_source = 4, re_target = 0\<rparr>]) 40
    = rift_apply [\<lparr>re_source = 4, re_target = 0\<rparr>]
        (rift_apply [\<lparr>re_source = 0, re_target = 16\<rparr>, \<lparr>re_source = 32, re_target = 8\<rparr>] 40)"
  by (rule multiply_composes) simp_all

text \<open>
  C17. \<open>RiftTable::sum\<close> adds the displacements of its operands at every position, through the
  merge of the break points, the sort and the removal of redundant entries.
\<close>

theorem sum_adds_offsets:
  assumes "rift_sorted a" "rift_sorted b"
  shows "rift_off (rift_sum a b) x = rift_off a x + rift_off b x"
  by (rule rift_sum_off [OF assms])

theorem sum_adds_offsets_witness:
  "rift_off (rift_sum [\<lparr>re_source = 0, re_target = 16\<rparr>, \<lparr>re_source = 32, re_target = 8\<rparr>]
      [\<lparr>re_source = 32, re_target = 0\<rparr>]) 40
    = rift_off [\<lparr>re_source = 0, re_target = 16\<rparr>, \<lparr>re_source = 32, re_target = 8\<rparr>] 40
      + rift_off [\<lparr>re_source = 32, re_target = 0\<rparr>] 40"
  by (rule sum_adds_offsets) simp_all



text \<open>
  C16. The decompressor's \<open>offset_table\<close> and its lookups \<open>offset_at\<close> and \<open>segment_at\<close> are an
  optimised \<open>get_rift\<close>: for non-negative sources and positions they return the same displacement.
\<close>

theorem decoder_lookup_is_get_rift:
  assumes "rift_sorted es" "\<forall>e\<in>set es. 0 \<le> src e" "0 \<le> sint pos"
  shows "offset_at (offset_table es) pos = fst (get_rift es pos)
    \<and> fst (segment_at (offset_table es) pos) = fst (get_rift es pos)"
  using offset_at_get_rift [OF assms] by (simp add: segment_at_offset rift_off_def)

theorem decoder_lookup_is_get_rift_witness:
  "offset_at (offset_table [\<lparr>re_source = 0, re_target = 16\<rparr>, \<lparr>re_source = 32, re_target = 8\<rparr>]) 33
      = fst (get_rift [\<lparr>re_source = 0, re_target = 16\<rparr>, \<lparr>re_source = 32, re_target = 8\<rparr>] 33)
    \<and> fst (segment_at (offset_table [\<lparr>re_source = 0, re_target = 16\<rparr>, \<lparr>re_source = 32, re_target = 8\<rparr>]) 33)
      = fst (get_rift [\<lparr>re_source = 0, re_target = 16\<rparr>, \<lparr>re_source = 32, re_target = 8\<rparr>] 33)"
  by (rule decoder_lookup_is_get_rift) simp_all

end
