(* ===== verification/RiftCodec.thy ===== *)
theory RiftCodec
  imports IntFormat RiftTable
begin

text \<open>
  Rift tables on the bit stream (\<open>RiftTable::from_reader\<close>, \<open>to_writer\<close> and the variants with
  caller-owned formats, \<open>src/lzx/rift.rs\<close>): delta-coded sources and offsets in two \<open>IntFormat\<close>s.
\<close>

fun read_entries ::
  "int_format \<Rightarrow> int_format \<Rightarrow> nat \<Rightarrow> i64 \<Rightarrow> i64 \<Rightarrow> bit_reader \<Rightarrow> (rift_table \<times> bit_reader) result" where
  "read_entries fmt_src fmt_dst 0 src_acc dst_acc r = Inr ([], r)"
| "read_entries fmt_src fmt_dst (Suc n) src_acc dst_acc r =
     rbind (read_number fmt_src r) (\<lambda>(src_delta, r).
       let src_acc = src_acc + src_delta in
     rbind (read_number fmt_dst r) (\<lambda>(dst_delta, r).
       let dst_acc = dst_acc + dst_delta in
     rbind (read_entries fmt_src fmt_dst n src_acc dst_acc r) (\<lambda>(es, r).
       Inr (\<lparr>re_source = src_acc, re_target = dst_acc + src_acc\<rparr> # es, r))))"

definition rift_from_reader_with_formats ::
  "int_format \<Rightarrow> int_format \<Rightarrow> bit_reader \<Rightarrow> (rift_table \<times> bit_reader) result" where
  "rift_from_reader_with_formats fmt_src fmt_dst r =
     rbind (read_i64 r) (\<lambda>(count, r).
       if sint count < 0 \<or> unat count > remaining r
       then Inl (Malformed ''rift table entry count exceeds available input'')
       else rbind (read_entries fmt_src fmt_dst (unat count) 0 0 r) (\<lambda>(es, r).
              Inr (rift_sort es, r)))"

definition rift_from_reader :: "bit_reader \<Rightarrow> (rift_table \<times> bit_reader) result" where
  "rift_from_reader r =
     rbind (read_bits r 1) (\<lambda>(flag, r).
       if flag = 0 then Inr ([], r)
       else
         rbind (int_format_from_reader r) (\<lambda>(fmt_src, r).
         rbind (int_format_from_reader r) (\<lambda>(fmt_dst, r).
           rift_from_reader_with_formats fmt_src fmt_dst r)))"

fun entry_deltas :: "i64 \<Rightarrow> i64 \<Rightarrow> rift_table \<Rightarrow> (i64 \<times> i64) list" where
  "entry_deltas src_acc dst_acc [] = []"
| "entry_deltas src_acc dst_acc (e # es) =
     (re_source e - src_acc, re_target e - re_source e - dst_acc)
       # entry_deltas (re_source e) (re_target e - re_source e) es"

definition write_deltas :: "int_format \<Rightarrow> int_format \<Rightarrow> bit_writer \<Rightarrow> (i64 \<times> i64) list \<Rightarrow> bit_writer" where
  "write_deltas fmt_src fmt_dst w ds =
     foldl (\<lambda>w (sd, dd). write_number fmt_dst (write_number fmt_src w sd) dd) w ds"

definition rift_to_writer_with_formats :: "int_format \<Rightarrow> int_format \<Rightarrow> bit_writer \<Rightarrow> rift_table \<Rightarrow> bit_writer" where
  "rift_to_writer_with_formats fmt_src fmt_dst w es =
     write_deltas fmt_src fmt_dst (write_i64 w (of_nat (length es))) (entry_deltas 0 0 es)"

definition rift_to_writer :: "bit_writer \<Rightarrow> rift_table \<Rightarrow> bit_writer result" where
  "rift_to_writer w es =
     (if es = [] then Inr (write_bits w 0 1)
      else
        let w = write_bits w 1 1;
            ds = entry_deltas 0 0 es
        in rbind (int_format_from_values (map fst ds)) (\<lambda>fmt_src.
           rbind (int_format_from_values (map snd ds)) (\<lambda>fmt_dst.
             let w = int_format_to_writer fmt_src w;
                 w = int_format_to_writer fmt_dst w;
                 w = write_i64 w (of_nat (length es))
             in Inr (write_deltas fmt_src fmt_dst w ds))))"

section \<open>Round trip\<close>

text \<open>A source delta and an offset delta, one codec after the other.\<close>

interpretation delta_pair: codec_pair
  "write_number fs" "read_number fs" "\<lambda>_. enc_number fs" "\<lambda>_. int_format_ok fs"
  "write_number fd" "read_number fd" "\<lambda>_. enc_number fd" "\<lambda>_. int_format_ok fd"
  for fs fd
  by unfold_locales

definition enc_deltas :: "int_format \<Rightarrow> int_format \<Rightarrow> (i64 \<times> i64) list \<Rightarrow> bool list" where
  "enc_deltas fs fd ds = concat (map (\<lambda>(sd, dd). enc_number fs sd @ enc_number fd dd) ds)"

lemma enc_list_deltas: "delta_pair.pair.enc_list fs fd n ds = enc_deltas fs fd ds"
  by (induction ds arbitrary: n) (auto simp: enc_deltas_def)

fun undelta :: "i64 \<Rightarrow> i64 \<Rightarrow> (i64 \<times> i64) list \<Rightarrow> rift_table" where
  "undelta src_acc dst_acc [] = []"
| "undelta src_acc dst_acc ((sd, dd) # ds) =
     \<lparr>re_source = src_acc + sd, re_target = dst_acc + dd + (src_acc + sd)\<rparr>
       # undelta (src_acc + sd) (dst_acc + dd) ds"

lemma undelta_deltas: "undelta sa da (entry_deltas sa da es) = es"
  by (induction sa da es rule: entry_deltas.induct) simp_all

lemma read_entries_get_list:
  "read_entries fs fd n sa da r =
     rbind (delta_pair.pair.get_list fs fd n r) (\<lambda>(ds, r). Inr (undelta sa da ds, r))"
proof (induction n arbitrary: sa da r)
  case (Suc n)
  show ?case
    by (cases "read_number fs r"; simp; clarsimp)
      (auto simp: rbind_def Suc Let_def split: sum.splits prod.splits)
qed simp


lemma enc_number_pos:
  assumes "int_format_ok f"
  shows "0 < length (enc_number f v)"
proof -
  obtain s e k where v: "value_to_symbol v = (s, e, k)" by (metis prod.exhaust)
  have "0 < ht_lengths (if_table f) ! s"
    using assms value_to_symbol_spec(1) [OF v] by (simp add: int_format_ok_def Let_def)
  then show ?thesis by (simp add: enc_number_def v code_stream_def Let_def)
qed

lemma enc_deltas_length:
  assumes "int_format_ok fs" "int_format_ok fd"
  shows "length ds \<le> length (enc_deltas fs fd ds)"
proof (induction ds)
  case (Cons d ds)
  obtain sd dd where d: "d = (sd, dd)" by (cases d)
  have "Suc 0 \<le> length (enc_number fs sd)" by (rule Suc_leI) (rule enc_number_pos [OF assms(1)])
  with Cons show ?case unfolding enc_deltas_def d
    by (simp del: length_greater_0_conv length_0_conv Suc_le_eq One_nat_def)
qed simp

lemma length_entry_deltas [simp]: "length (entry_deltas sa da es) = length es"
  by (induction sa da es rule: entry_deltas.induct) simp_all

lemma write_deltas_spec:
  assumes "writer_ok w" "int_format_ok fs" "int_format_ok fd"
  shows "writer_ok (write_deltas fs fd w ds)"
    "wr_stream (write_deltas fs fd w ds) = wr_stream w @ enc_deltas fs fd ds"
proof -
  have "list_all (\<lambda>(x, y). int_format_ok fs \<and> int_format_ok fd) ds"
    using assms by (simp add: list_all_iff case_prod_beta)
  from delta_pair.pair.put_list_enc [OF assms(1) this]
  show "writer_ok (write_deltas fs fd w ds)"
    "wr_stream (write_deltas fs fd w ds) = wr_stream w @ enc_deltas fs fd ds"
    by (simp_all add: write_deltas_def enc_list_deltas case_prod_beta)
qed

definition enc_rift_body :: "int_format \<Rightarrow> int_format \<Rightarrow> rift_table \<Rightarrow> bool list" where
  "enc_rift_body fs fd es = enc_i64 (of_nat (length es)) @ enc_deltas fs fd (entry_deltas 0 0 es)"

text \<open>The tables a reader gives back unchanged: sorted, with a length that fits an \<open>i64\<close>.\<close>

definition rift_ok :: "rift_table \<Rightarrow> bool" where
  "rift_ok es \<longleftrightarrow> rift_sorted es \<and> length es < 2 ^ 63"

lemma rift_with_formats_delivers:
  assumes f: "int_format_ok fs" "int_format_ok fd" and es: "rift_ok es"
    and ok: "reader_ok r" and st: "rd_stream r = enc_rift_body fs fd es @ rest"
    and al: "8 dvd n + length (rd_stream r)" and pad: "rd_padding r \<le> length rest"
  shows "delivers (rift_from_reader_with_formats fs fd r) es rest (rd_padding r)"
proof -
  let ?ds = "entry_deltas 0 0 es" and ?c = "of_nat (length es) :: i64"
  have len: "length es < 2 ^ 63" using es by (simp add: rift_ok_def)
  have uc: "unat ?c = length es" using len by (simp add: unat_of_nat)
  have sc: "sint ?c = int (length es)" by (rule sint_of_nat_small) (use len in simp)
  obtain r1 where r1: "read_i64 r = Inr (?c, r1)" "reader_ok r1" "rd_padding r1 = rd_padding r"
    "rd_stream r1 = enc_deltas fs fd ?ds @ rest"
  proof -
    have "delivers (read_i64 r) ?c (enc_deltas fs fd ?ds @ rest) (rd_padding r)"
      by (rule varint.get_enc [OF ok _ _ al]) (use st pad in \<open>simp_all add: enc_rift_body_def\<close>)
    then show thesis using that by (auto simp: delivers_def)
  qed
  have "length es \<le> remaining r1"
    using remaining_eq [OF r1(2)] r1(3,4) pad enc_deltas_length [OF f, of ?ds] by simp
  obtain r2 where r2: "delta_pair.pair.get_list fs fd (length es) r1 = Inr (?ds, r2)" "reader_ok r2"
    "rd_stream r2 = rest" "rd_padding r2 = rd_padding r"
  proof -
    define m where "m = (8 - length (rd_stream r1) mod 8) mod 8"
    have m: "8 dvd m + length (rd_stream r1)"
      using align_len(2) [of "length (rd_stream r1)"] by (simp add: m_def align_len_def add.commute)
    have "delivers (delta_pair.pair.get_list fs fd (length ?ds) r1) ?ds rest (rd_padding r1)"
      by (rule delta_pair.pair.get_list_enc [OF r1(2) _ _ m])
        (use f r1 pad in \<open>simp_all add: enc_list_deltas list_all_iff case_prod_beta\<close>)
    then show thesis using that r1(3) by (auto simp: delivers_def)
  qed
  have srt: "rift_sort es = es" using es by (simp add: rift_sort_def rift_ok_def sort_key_id_if_sorted)
  have "rift_from_reader_with_formats fs fd r = Inr (es, r2)"
    using \<open>length es \<le> remaining r1\<close> sc
    by (simp add: rift_from_reader_with_formats_def r1(1) uc read_entries_get_list r2(1) undelta_deltas srt)
  then show ?thesis using r2 by (simp add: delivers_def)
qed

interpretation rift_body: bit_codec "rift_to_writer_with_formats fs fd" "rift_from_reader_with_formats fs fd"
  "\<lambda>_. enc_rift_body fs fd" "\<lambda>es. int_format_ok fs \<and> int_format_ok fd \<and> rift_ok es" for fs fd
proof (unfold_locales, goal_cases)
  case (1 w es)
  then show ?case by (simp add: rift_to_writer_with_formats_def write_deltas_spec write_i64_spec)
next
  case (2 w es)
  then show ?case
    by (simp add: rift_to_writer_with_formats_def write_deltas_spec write_i64_spec enc_rift_body_def)
next
  case (3 r es n rest)
  then show ?case using rift_with_formats_delivers by blast
qed

text \<open>The self-contained table, whose formats the writer builds from the deltas.\<close>

definition delta_formats :: "rift_table \<Rightarrow> int_format \<times> int_format" where
  "delta_formats es =
     (let ds = entry_deltas 0 0 es
      in (projr (int_format_from_values (map fst ds)), projr (int_format_from_values (map snd ds))))"

definition enc_rift :: "rift_table \<Rightarrow> bool list" where
  "enc_rift es =
     (if es = [] then word_bits (0 :: u64) 1
      else case delta_formats es of (fs, fd) \<Rightarrow>
        word_bits (1 :: u64) 1 @ enc_int_format fs @ enc_int_format fd @ enc_rift_body fs fd es)"

lemma delta_formats_ok:
  assumes "delta_formats es = (fs, fd)"
  shows "int_format_ok fs" "int_format_ok fd"
    "int_format_from_values (map fst (entry_deltas 0 0 es)) = Inr fs"
    "int_format_from_values (map snd (entry_deltas 0 0 es)) = Inr fd"
  using int_format_from_values_ok [of "map fst (entry_deltas 0 0 es)"]
    int_format_from_values_ok [of "map snd (entry_deltas 0 0 es)"] assms
  by (auto simp: delta_formats_def Let_def)

lemma rift_to_writer_spec:
  assumes "writer_ok w"
  shows "\<exists>w'. rift_to_writer w es = Inr w' \<and> writer_ok w' \<and> wr_stream w' = wr_stream w @ enc_rift es"
proof (cases "es = []")
  case True
  then show ?thesis using assms by (simp add: rift_to_writer_def enc_rift_def write_bits_spec)
next
  case False
  obtain fs fd where f: "delta_formats es = (fs, fd)" by (cases "delta_formats es")
  note F = delta_formats_ok [OF f]
  have w1: "writer_ok (write_bits w 1 1)" "wr_stream (write_bits w 1 1) = wr_stream w @ word_bits (1 :: u64) 1"
    using assms by (simp_all add: write_bits_spec)
  note w2 = int_format_to_writer_spec [OF w1(1) F(1)]
  note w3 = int_format_to_writer_spec [OF w2(1) F(2)]
  show ?thesis using False w1 w2 w3 F
    by (simp add: rift_to_writer_def enc_rift_def f Let_def write_deltas_spec write_i64_spec enc_rift_body_def)
qed

lemma rift_from_reader_delivers:
  assumes es: "rift_ok es" and ok: "reader_ok r" and st: "rd_stream r = enc_rift es @ rest"
    and pad: "rd_padding r \<le> length rest"
  shows "delivers (rift_from_reader r) es rest (rd_padding r)"
proof (cases "es = []")
  case True
  have "delivers (read_bits r 1) 0 rest (rd_padding r)"
    using read_bits_delivers [OF ok, of 1] st True by (simp add: enc_rift_def bits_val_word_bits)
  then show ?thesis using True by (auto simp: rift_from_reader_def delivers_def)
next
  case False
  obtain fs fd where f: "delta_formats es = (fs, fd)" by (cases "delta_formats es")
  note F = delta_formats_ok [OF f]
  have st': "rd_stream r = word_bits (1 :: u64) 1 @ enc_int_format fs @ enc_int_format fd
      @ enc_rift_body fs fd es @ rest"
    using st False by (simp add: enc_rift_def f)
  have one: "take_bit 1 (1 :: u64) = 1" by (simp add: take_bit_eq_mask mask_eq_exp_minus_1)
  obtain r1 where r1: "read_bits r 1 = Inr (1, r1)" "reader_ok r1" "rd_padding r1 = rd_padding r"
    "rd_stream r1 = enc_int_format fs @ enc_int_format fd @ enc_rift_body fs fd es @ rest"
    using read_bits_delivers [OF ok, of 1] st' one by (auto simp: delivers_def bits_val_word_bits)
  obtain r2 where r2: "int_format_from_reader r1 = Inr (fs, r2)" "reader_ok r2" "rd_padding r2 = rd_padding r"
    "rd_stream r2 = enc_int_format fd @ enc_rift_body fs fd es @ rest"
    using int_format_from_reader_delivers [OF r1(2) F(1) r1(4)] r1(3) by (auto simp: delivers_def)
  obtain r3 where r3: "int_format_from_reader r2 = Inr (fd, r3)" "reader_ok r3" "rd_padding r3 = rd_padding r"
    "rd_stream r3 = enc_rift_body fs fd es @ rest"
    using int_format_from_reader_delivers [OF r2(2) F(2) r2(4)] r2(3) by (auto simp: delivers_def)
  have "8 dvd align_len (length (rd_stream r3)) + length (rd_stream r3)"
    using align_len(2) [of "length (rd_stream r3)"] by (simp add: add.commute)
  from rift_with_formats_delivers [OF F(1,2) es r3(2,4) this] pad r3(3)
  have "delivers (rift_from_reader_with_formats fs fd r3) es rest (rd_padding r)" by simp
  moreover have "rift_from_reader r = rift_from_reader_with_formats fs fd r3"
    unfolding rift_from_reader_def r1(1) rbind_Inr prod.case
    by (simp add: r2(1) [unfolded One_nat_def] r3(1))
  ultimately show ?thesis by simp
qed

interpretation rift: bit_codec "\<lambda>w es. projr (rift_to_writer w es)" rift_from_reader
  "\<lambda>_. enc_rift" rift_ok
proof (unfold_locales, goal_cases)
  case (1 w es)
  then show ?case using rift_to_writer_spec [of w es] by auto
next
  case (2 w es)
  then show ?case using rift_to_writer_spec [of w es] by auto
next
  case (3 r es n rest)
  then show ?case using rift_from_reader_delivers by blast
qed

section \<open>Properties of the rift codec\<close>

lemma enc_rift_length: "length (enc_rift es) \<le> 2400 + 154 * length es"
proof (cases "es = []")
  case False
  obtain fs fd where f: "delta_formats es = (fs, fd)" by (cases "delta_formats es")
  note F = delta_formats_ok [OF f]
  have "length (enc_deltas fs fd ds) \<le> 154 * length ds" for ds
  proof (induction ds)
    case (Cons d ds)
    then show ?case
      using enc_number_length [OF F(1), of "fst d"] enc_number_length [OF F(2), of "snd d"]
      by (cases d) (simp add: enc_deltas_def)
  qed (simp add: enc_deltas_def)
  from this [of "entry_deltas 0 0 es"] show ?thesis
    using False enc_int_format_length [OF F(1)] enc_int_format_length [OF F(2)]
      enc_i64_length [of "of_nat (length es)"]
    by (simp add: enc_rift_def f enc_rift_body_def)
qed (simp add: enc_rift_def)

text \<open>
  C5. \<open>RiftTable::to_writer\<close> succeeds and \<open>RiftTable::from_reader\<close> reads the same table back from
  the finished bytes, for every sorted table of up to \<open>2 ^ 20\<close> entries: the deltas, the two
  integer formats built for them and the entry count survive, with differences that wrap.
\<close>

theorem rift_round_trip:
  assumes "rift_sorted es" "length es \<le> 2 ^ 20"
  shows "\<exists>w r r'. rift_to_writer writer_new es = Inr w
    \<and> reader_new (writer_finish w) = Inr r \<and> rift_from_reader r = Inr (es, r')"
proof -
  have "rift_ok es" using assms by (simp add: rift_ok_def)
  moreover have "length (enc_rift es) < 2 ^ 31" using enc_rift_length [of es] assms(2) by simp
  moreover obtain w where "rift_to_writer writer_new es = Inr w"
    using rift_to_writer_spec [OF writer_new_spec(1)] by blast
  ultimately show ?thesis using rift.round_trip [of es] by simp
qed

theorem rift_round_trip_witness:
  "\<exists>w r r'. rift_to_writer writer_new [\<lparr>re_source = 0, re_target = 16\<rparr>, \<lparr>re_source = 32, re_target = -8\<rparr>] = Inr w
    \<and> reader_new (writer_finish w) = Inr r
    \<and> rift_from_reader r = Inr ([\<lparr>re_source = 0, re_target = 16\<rparr>, \<lparr>re_source = 32, re_target = -8\<rparr>], r')"
  by (rule rift_round_trip) simp_all

end
