(* ===== verification/LzxFormat.thy ===== *)
theory LzxFormat
  imports HuffmanBuild
begin

text \<open>
  \<open>src/lzx/format.rs\<close> and \<open>src/lzx/ops.rs\<close>: the alphabets of the codec, the flat code lengths of
  the simple mode, the tables of a segment, the match operations and the queue of recent
  distances.
\<close>

section \<open>Alphabets and flat codes\<close>

definition main_symbols :: nat where "main_symbols = 600"
definition length_symbols :: nat where "length_symbols = 256"
definition aligned_symbols :: nat where "aligned_symbols = 16"
definition total_lengths :: nat where "total_lengths = main_symbols + length_symbols + aligned_symbols"
definition pretree_symbols :: nat where "pretree_symbols = 39"

lemmas alphabet_defs = main_symbols_def length_symbols_def aligned_symbols_def total_lengths_def
  pretree_symbols_def

fun ilog2 :: "nat \<Rightarrow> nat" where
  "ilog2 n = (if n < 2 then 0 else Suc (ilog2 (n div 2)))"

declare ilog2.simps [simp del]

definition flat_code_lengths :: "nat \<Rightarrow> nat list" where
  "flat_code_lengths count =
     (if count = 0 then []
      else if count \<le> 2 then replicate count 1
      else
        let bits_needed = ilog2 (count - 1) + 1;
            full_count = 2 ^ bits_needed;
            short_count = full_count - count
        in replicate short_count (bits_needed - 1) @ replicate (count - short_count) bits_needed)"

record segment_tables =
  st_main :: huffman_table
  st_lengths :: huffman_table
  st_aligned :: huffman_table

definition segment_tables_from_flat :: "segment_tables result" where
  "segment_tables_from_flat =
     rbind (from_lengths (flat_code_lengths main_symbols)) (\<lambda>main.
     rbind (from_lengths (flat_code_lengths length_symbols)) (\<lambda>lengths.
     rbind (from_lengths (flat_code_lengths aligned_symbols)) (\<lambda>aligned.
       Inr \<lparr>st_main = main, st_lengths = lengths, st_aligned = aligned\<rparr>)))"

definition segment_tables_from_lengths :: "nat list \<Rightarrow> segment_tables result" where
  "segment_tables_from_lengths all_lengths =
     (if length all_lengths \<noteq> total_lengths then Inl (Malformed ''wrong total compression lengths'')
      else
        rbind (from_lengths (take main_symbols all_lengths)) (\<lambda>main.
        rbind (from_lengths (subrange main_symbols (main_symbols + length_symbols) all_lengths)) (\<lambda>lengths.
        rbind (from_lengths (drop (main_symbols + length_symbols) all_lengths)) (\<lambda>aligned.
          Inr \<lparr>st_main = main, st_lengths = lengths, st_aligned = aligned\<rparr>))))"

record composite_format =
  cf_segments :: "segment_tables list"
  cf_boundaries :: "u64 list"

section \<open>Flat codes are complete\<close>

lemma ilog2_bounds: "0 < n \<Longrightarrow> 2 ^ ilog2 n \<le> n \<and> n < 2 ^ (ilog2 n + 1)"
proof (induction n rule: ilog2.induct)
  case (1 n)
  show ?case
  proof (cases "n < 2")
    case True
    then show ?thesis using 1 by (subst (1 2) ilog2.simps) simp
  next
    case False
    then have "2 ^ ilog2 (n div 2) \<le> n div 2 \<and> n div 2 < 2 ^ (ilog2 (n div 2) + 1)" using 1 by simp
    moreover have "ilog2 n = Suc (ilog2 (n div 2))" using False by (subst ilog2.simps) simp
    ultimately show ?thesis by auto
  qed
qed

lemma length_flat_code_lengths [simp]: "length (flat_code_lengths n) = n"
proof (cases "n \<le> 2")
  case False
  then have "n - 1 < 2 ^ (ilog2 (n - 1) + 1)" "2 ^ ilog2 (n - 1) \<le> n - 1"
    using ilog2_bounds [of "n - 1"] by auto
  then have "2 ^ (ilog2 (n - 1) + 1) - n \<le> n" by simp
  with False show ?thesis by (simp add: flat_code_lengths_def Let_def)
qed (auto simp: flat_code_lengths_def)

lemma kraft_append: "kraft m (xs @ ys) = kraft m xs + kraft m ys"
  by (simp add: kraft_def)

lemma kraft_replicate: "0 < l \<Longrightarrow> kraft m (replicate n l) = n * 2 ^ (m - l)"
  by (simp add: kraft_def sum_list_replicate)

lemma flat_code_lengths_complete:
  assumes "2 \<le> n" "n \<le> 2 ^ 16"
  shows "complete (flat_code_lengths n)" "s < n \<Longrightarrow> 0 < flat_code_lengths n ! s"
proof -
  have "complete (flat_code_lengths n) \<and> (\<forall>l\<in>set (flat_code_lengths n). 0 < l)"
  proof (cases "n = 2")
    case True
    then show ?thesis by (simp add: flat_code_lengths_def complete_def kraft_replicate)
  next
    case False
    define b where "b = ilog2 (n - 1) + 1"
    define s where "s = 2 ^ b - n"
    have B: "2 ^ (b - 1) \<le> n - 1" "n - 1 < 2 ^ b" using ilog2_bounds [of "n - 1"] assms by (simp_all add: b_def)
    have b16: "b \<le> 16"
    proof (rule ccontr)
      assume "\<not> b \<le> 16"
      then have "(2::nat) ^ 16 \<le> 2 ^ (b - 1)" by (intro power_increasing) auto
      with B(1) assms show False by linarith
    qed
    have b2: "2 \<le> b"
    proof (rule ccontr)
      assume "\<not> 2 \<le> b"
      then have "b \<le> 1" by simp
      then have "(2::nat) ^ b \<le> 2 ^ 1" by (intro power_increasing) auto
      with B(2) False assms show False by simp
    qed
    have fl: "flat_code_lengths n = replicate s (b - 1) @ replicate (n - s) b"
      using False assms by (simp add: flat_code_lengths_def b_def s_def Let_def)
    have p: "(2::nat) ^ b = 2 * 2 ^ (b - 1)" using b2 by (simp flip: power_Suc)
    have sn: "s + n = 2 ^ b" "s \<le> n" using B p by (auto simp: s_def)
    have q: "(2::nat) ^ (16 - (b - 1)) = 2 * 2 ^ (16 - b)" using b16 b2 by (simp add: Suc_diff_le flip: power_Suc)
    have "kraft 16 (flat_code_lengths n) = s * 2 ^ (16 - (b - 1)) + (n - s) * 2 ^ (16 - b)"
      using b2 by (simp add: fl kraft_append kraft_replicate)
    also have "\<dots> = (s + n) * 2 ^ (16 - b)" unfolding q using sn(2) by (simp add: algebra_simps)
    also have "\<dots> = 2 ^ 16" unfolding sn(1) using b16 by (simp flip: power_add)
    finally show ?thesis using b16 b2 by (auto simp: complete_def fl)
  qed
  then show "complete (flat_code_lengths n)" "s < n \<Longrightarrow> 0 < flat_code_lengths n ! s" by auto
qed

section \<open>Match operations\<close>

definition source_copy :: u32 where "source_copy = 0x54000"
definition lru_base :: u32 where "lru_base = 0x54001"
definition raw_offset_base :: u32 where "raw_offset_base = 0x54003"
definition offset_bias :: u32 where "offset_bias = 0x2a000"

lemmas wire_defs = source_copy_def lru_base_def raw_offset_base_def offset_bias_def

datatype copy_offset = SourceCopy | Lru u8 | Distance i64

datatype match_op = Literal u8 | Copy copy_offset u32

definition copy_offset_from_raw :: "u32 \<Rightarrow> copy_offset" where
  "copy_offset_from_raw raw =
     (if raw = source_copy then SourceCopy
      else if lru_base \<le> raw \<and> raw < lru_base + 3 then Lru (ucast (raw - lru_base))
      else if raw \<ge> raw_offset_base then Distance (ucast (raw - raw_offset_base))
      else Distance (ucast raw - ucast offset_bias))"

definition copy_offset_to_raw :: "copy_offset \<Rightarrow> u32" where
  "copy_offset_to_raw c =
     (case c of
        SourceCopy \<Rightarrow> source_copy
      | Lru idx \<Rightarrow> lru_base + ucast idx
      | Distance dist \<Rightarrow>
          (if sint dist \<ge> 0 then ucast dist + raw_offset_base
           else ucast (dist + ucast offset_bias)))"

text \<open>The three-element queue; an index out of range is a panic.\<close>

type_synonym lru_queue = "i64 \<times> i64 \<times> i64"

definition lru_new :: lru_queue where
  "lru_new = (0, 0, 0)"

definition lru_get :: "lru_queue \<Rightarrow> nat \<Rightarrow> i64 result" where
  "lru_get q i = (case q of (a, b, c) \<Rightarrow> index [a, b, c] i)"

definition copy_offset_resolve :: "copy_offset \<Rightarrow> lru_queue \<Rightarrow> nat \<Rightarrow> i64 result" where
  "copy_offset_resolve c q ref_len =
     (case c of
        SourceCopy \<Rightarrow> Inr (of_nat ref_len)
      | Lru idx \<Rightarrow> lru_get q (unat idx)
      | Distance d \<Rightarrow> Inr d)"

definition lru_update :: "lru_queue \<Rightarrow> i64 \<Rightarrow> lru_queue" where
  "lru_update q distance =
     (case q of (a, b, c) \<Rightarrow>
        if a \<noteq> distance then (distance, a, if b \<noteq> distance then b else c) else q)"

lemma lru_update_front: "fst (lru_update q d) = d"
  by (auto simp: lru_update_def split: prod.splits)

text \<open>
  The raw values of the queue end where the raw distances begin, so the third queue entry and
  the distance zero share the value \<open>0x54003\<close>; it reads as the queue entry.
\<close>

definition copy_offset_ok :: "copy_offset \<Rightarrow> bool" where
  "copy_offset_ok c =
     (case c of
        SourceCopy \<Rightarrow> True
      | Lru idx \<Rightarrow> unat idx < 3
      | Distance d \<Rightarrow> (- 0x2a000 \<le> sint d \<and> sint d < 0) \<or> (0 < sint d \<and> sint d + 0x54003 < 2 ^ 32))"

lemma copy_offset_lru:
  assumes "unat (idx :: u8) < 3"
  shows "copy_offset_from_raw (copy_offset_to_raw (Lru idx)) = Lru idx"
proof -
  define k where "k = unat idx"
  have "k = 0 \<or> k = 1 \<or> k = 2" using assms unfolding k_def by linarith
  moreover have "idx = of_nat k" by (simp add: k_def)
  ultimately have "idx = 0 \<or> idx = 1 \<or> idx = 2" by auto
  then show ?thesis by (auto simp: copy_offset_to_raw_def copy_offset_from_raw_def wire_defs)
qed

lemma sint_nonneg_uint: "0 \<le> sint (w :: i64) \<Longrightarrow> uint w = sint w"
  using uint_sint [of w] sint_less [of w] by (simp add: take_bit_int_eq_self)

lemma copy_offset_positive:
  assumes "0 < sint d" "sint d + 0x54003 < 2 ^ 32"
  shows "copy_offset_from_raw (copy_offset_to_raw (Distance d)) = Distance d"
proof -
  define n where "n = unat d"
  have un: "int n = sint d" using sint_nonneg_uint [of d] assms(1) by (simp add: n_def)
  have "int n + 344067 < 4294967296" using un assms(2) by simp
  then have n: "0 < n" "n + 0x54003 < 2 ^ 32" using un assms(1) by simp_all
  define raw where "raw = copy_offset_to_raw (Distance d)"
  have raw: "raw = of_nat (n + 0x54003)"
    using assms(1) by (simp add: raw_def copy_offset_to_raw_def wire_defs n_def)
  then have ur: "unat raw = n + 0x54003" using n(2) by (simp add: unat_of_nat del: of_nat_add)
  then have big: "raw_offset_base \<le> raw" using n(1) by (simp add: word_le_nat_alt wire_defs)
  have "\<not> raw < lru_base + 3" "raw \<noteq> source_copy"
    using ur n(1) by (auto simp: word_less_nat_alt wire_defs)
  moreover have "raw - raw_offset_base = of_nat n" by (simp add: raw wire_defs)
  then have "ucast (raw - raw_offset_base) = d"
    using n(2) by (intro word_unat_eq_iff [THEN iffD2])
      (simp add: n_def unsigned_ucast_eq unsigned_take_bit_eq take_bit_nat_eq_self)
  ultimately show ?thesis using big unfolding raw_def [symmetric]
    by (simp add: copy_offset_from_raw_def)
qed

lemma copy_offset_negative:
  assumes "- 0x2a000 \<le> sint d" "sint d < 0"
  shows "copy_offset_from_raw (copy_offset_to_raw (Distance d)) = Distance d"
proof -
  define n where "n = nat (sint d + 0x2a000)"
  have n: "int n = sint d + 0x2a000" "n < 0x2a000" using assms by (simp_all add: n_def)
  have dn: "d = of_nat n - 0x2a000"
  proof -
    have "d = word_of_int (int n - 0x2a000)" using n(1) by simp
    then show ?thesis by simp
  qed
  define raw where "raw = copy_offset_to_raw (Distance d)"
  have raw: "raw = of_nat n"
    using assms(2) n(2) unfolding raw_def
    by (simp add: copy_offset_to_raw_def wire_defs dn unsigned_of_nat take_bit_nat_eq_self)
  then have ur: "unat raw = n" using n(2) by (simp add: unat_of_nat)
  have "\<not> lru_base \<le> raw" "raw \<noteq> source_copy" "\<not> raw_offset_base \<le> raw"
    using ur n(2) by (auto simp: word_le_nat_alt wire_defs)
  moreover have "ucast raw - ucast offset_bias = d"
    using n(2) by (simp add: raw dn wire_defs unsigned_of_nat take_bit_nat_eq_self)
  ultimately show ?thesis unfolding raw_def [symmetric]
    by (simp add: copy_offset_from_raw_def)
qed

lemma copy_offset_raw:
  "copy_offset_ok c \<Longrightarrow> copy_offset_from_raw (copy_offset_to_raw c) = c"
proof (cases c)
  case SourceCopy
  then show ?thesis by (simp add: copy_offset_to_raw_def copy_offset_from_raw_def)
next
  case (Lru idx)
  moreover assume "copy_offset_ok c"
  ultimately show ?thesis using copy_offset_lru by (simp add: copy_offset_ok_def)
next
  case (Distance d)
  moreover assume "copy_offset_ok c"
  ultimately show ?thesis using copy_offset_negative copy_offset_positive by (auto simp: copy_offset_ok_def)
qed

section \<open>Properties of the wire constants\<close>

text \<open>
  \<open>flat_code_lengths\<close> gives a usable code for every alphabet: with at least two symbols the
  lengths are all positive and fill the code space, so \<open>HuffmanTable::from_lengths\<close> accepts them.
\<close>

lemma flat_lengths_usable:
  assumes "2 \<le> n" "n \<le> 2 ^ 16"
  shows "complete (flat_code_lengths n) \<and> (\<forall>s<n. 0 < flat_code_lengths n ! s)
    \<and> (\<exists>t. from_lengths (flat_code_lengths n) = Inr t)"
  using flat_code_lengths_complete [OF assms] from_lengths_complete by blast

lemma flat_lengths_usable_instance:
  "complete (flat_code_lengths 600) \<and> (\<exists>t. from_lengths (flat_code_lengths 600) = Inr t)"
  using flat_lengths_usable [of 600] by simp

text \<open>
  \<open>CopyOffset::from_raw\<close> undoes \<open>CopyOffset::to_raw\<close> on every copy that has a wire
  value of its own: the source copy, the three queue entries, the negative distances down to the
  bias and the positive distances that fit 32 bits (distance zero shares \<open>0x54003\<close> with entry 2).
\<close>

lemma copy_offset_round_trip:
  assumes "copy_offset_ok c"
  shows "copy_offset_from_raw (copy_offset_to_raw c) = c"
  by (rule copy_offset_raw [OF assms])

lemma copy_offset_round_trip_instance:
  "copy_offset_from_raw (copy_offset_to_raw (Distance 5)) = Distance 5"
  by (rule copy_offset_round_trip) (simp add: copy_offset_ok_def)

end
