(* ===== verification/LzxSymbols.thy ===== *)
theory LzxSymbols
  imports LzxFormat IntFormat
begin

text \<open>
  One symbol of the compressed stream: \<open>read_symbol\<close>, \<open>decode_offset\<close> and \<open>decode_extra_value\<close>
  of \<open>src/lzx/decode.rs\<close>, \<open>encode_match\<close> and the symbol statistics of \<open>src/lzx/encode.rs\<close>.
  Raw offsets and lengths (\<open>u32\<close> in the source) are natural numbers; the overflow checks of the
  source are written out, and the signed bands of the delta offsets are integers.
\<close>

abbreviation source_copy_n :: nat where "source_copy_n \<equiv> 0x54000"
abbreviation lru_base_n :: nat where "lru_base_n \<equiv> 0x54001"
abbreviation raw_offset_base_n :: nat where "raw_offset_base_n \<equiv> 0x54003"
abbreviation offset_bias_n :: int where "offset_bias_n \<equiv> 0x2a000"

section \<open>Decoding\<close>

definition decode_extra_value :: "nat \<Rightarrow> bit_reader \<Rightarrow> (nat \<times> bit_reader) result" where
  "decode_extra_value adj_slot r =
     (if adj_slot \<noteq> 0 then Inr (adj_slot, r)
      else
        rbind (read_bits r 1) (\<lambda>(b, r).
          if b = 0 then rbind (read_bits r 2) (\<lambda>(v, r). Inr (unat v + 0x24, r))
          else
            rbind (read_bits r 1) (\<lambda>(b, r).
              if b = 0 then rbind (read_bits r 3) (\<lambda>(v, r). Inr (unat v + 4 + 0x24, r))
              else rbind (read_bits r 4) (\<lambda>(v, r). Inr (unat v + 8 + 4 + 0x24, r)))))"

definition decode_delta :: "nat \<Rightarrow> nat \<Rightarrow> int" where
  "decode_delta slot raw =
     (if slot = 0 then int raw mod 0x4000 - 0x2000
      else if slot = 1 then (if raw < 0x8000 then int raw - 0xA000 else int raw - 0x6000)
      else (if raw \<ge> 0x20000 then int raw - 0x16000 else int raw - 0x2A000))"

definition decode_distance :: "segment_tables \<Rightarrow> nat \<Rightarrow> bit_reader \<Rightarrow> (nat \<times> bit_reader) result" where
  "decode_distance t extra_val r =
     (if extra_val \<le> 3 then Inr (extra_val, r)
      else
        let base = extra_val mod 2 + 2;
            half = extra_val div 2 - 1
        in if half < 4 then
             let shifted = push_bit half base
             in if half = 0 then Inr (shifted OR 0, r)
                else rbind (read_bits r half) (\<lambda>(extra, r). Inr (shifted OR unat extra, r))
           else
             let high_bits = half - 4
             in rbind
                  (if high_bits > 0
                   then rbind (read_bits r high_bits) (\<lambda>(extra, r).
                     Inr (push_bit high_bits base OR unat extra, r))
                   else Inr (base, r))
                  (\<lambda>(val, r).
                    rbind (read_symbol (st_aligned t) r) (\<lambda>(aligned, r).
                      Inr (push_bit 4 val OR unat aligned, r))))"

definition decode_offset :: "nat \<Rightarrow> segment_tables \<Rightarrow> bit_reader \<Rightarrow> (nat \<times> bit_reader) result" where
  "decode_offset slot t r =
     (if slot < 3 then
        rbind (read_bits r (14 + 2 * slot)) (\<lambda>(raw, r).
          Inr (nat (decode_delta slot (unat raw) + offset_bias_n), r))
      else if slot < 7 then Inr (slot + 0x53FFD, r)
      else
        rbind (decode_extra_value (slot - 7) r) (\<lambda>(extra_val, r).
          if extra_val > 63 then Inl (Malformed ''offset extra value too large'')
          else
            rbind (decode_distance t extra_val r) (\<lambda>(dist, r).
              if dist + raw_offset_base_n < 2 ^ 32 then Inr (dist + raw_offset_base_n, r)
              else Inl (Malformed ''LZX offset overflow''))))"

definition decode_length :: "nat \<Rightarrow> segment_tables \<Rightarrow> bit_reader \<Rightarrow> (nat \<times> bit_reader) result" where
  "decode_length length_slot t r =
     (if length_slot = 0 then
        rbind (read_symbol (st_lengths t) r) (\<lambda>(len_sym, r).
          if len_sym = 0 then
            rbind (read_u32_number r) (\<lambda>(big_len, r).
              if unat big_len < 256 then Inl (Malformed ''ReadNumber returned value < 256'')
              else if unat big_len + 7 < 2 ^ 32 then Inr (unat big_len + 7, r)
              else Inl (Malformed ''LZX match length overflow''))
          else Inr (unat len_sym + 7, r))
      else Inr (length_slot, r))"

definition lzx_read_symbol :: "segment_tables \<Rightarrow> bit_reader \<Rightarrow> ((nat \<times> nat) \<times> bit_reader) result" where
  "lzx_read_symbol t r =
     rbind (read_symbol (st_main t) r) (\<lambda>(raw, r).
       if unat raw < 0x100 then Inr ((unat raw, 1), r)
       else
         let idx = unat raw - 0x100;
             length_slot = idx mod 8;
             offset_slot = idx div 8
         in rbind (decode_offset offset_slot t r) (\<lambda>(offset, r).
            rbind (decode_length length_slot t r) (\<lambda>(l, r).
              if l + 1 < 2 ^ 32 then Inr ((offset, l + 1), r)
              else Inl (Malformed ''LZX match length overflow''))))"

section \<open>Encoding\<close>

text \<open>
  The loop over the distance slots: the slot and the fields of a distance above three. A field is
  a value and its width; the value \<open>u64::MAX\<close> stands for the symbol of the aligned table.
\<close>

definition aligned_field :: "u64 \<times> nat" where
  "aligned_field = (- 1, 0)"

definition try_slot :: "nat \<Rightarrow> nat \<Rightarrow> (u64 \<times> nat) list option" where
  "try_slot dist try_adj =
     (let base = try_adj mod 2 + 2;
          half = try_adj div 2 - 1
      in if half < 4 then
           let shifted = push_bit half base
           in if shifted \<le> dist \<and> dist < shifted + 2 ^ half
              then Some (if half > 0 then [(of_nat (dist - shifted), half)] else [])
              else None
         else
           let high_bits = half - 4;
               base_val = (if high_bits > 0 then push_bit high_bits base else base);
               max_high = (if high_bits > 0 then 2 ^ high_bits - 1 else 0);
               mn = push_bit 4 base_val;
               mx = push_bit 4 (base_val OR max_high) OR 15
           in if mn \<le> dist \<and> dist \<le> mx
              then Some ((if high_bits > 0 then [(of_nat (drop_bit 4 dist AND max_high), high_bits)] else [])
                @ [aligned_field])
              else None)"

fun find_slot :: "nat \<Rightarrow> nat list \<Rightarrow> (nat \<times> (u64 \<times> nat) list) option" where
  "find_slot dist [] = None"
| "find_slot dist (a # as) =
     (case try_slot dist a of Some flds \<Rightarrow> Some (a, flds) | None \<Rightarrow> find_slot dist as)"

definition offset_fields :: "nat \<Rightarrow> (nat \<times> (u64 \<times> nat) list) result" where
  "offset_fields raw_offset =
     (if raw_offset = source_copy_n then Inr (3, [])
      else if lru_base_n \<le> raw_offset \<and> raw_offset < lru_base_n + 3 then Inr (raw_offset - 0x53FFD, [])
      else if raw_offset \<ge> raw_offset_base_n then
        let dist = raw_offset - raw_offset_base_n
        in if dist = 0 then Inl (Malformed ''zero distance not supported'')
           else if dist \<le> 3 then Inr (dist + 7, [])
           else (case find_slot dist [4..<64] of
                   None \<Rightarrow> Inl (Malformed ''could not encode distance'')
                 | Some (adj, flds) \<Rightarrow> Inr (adj + 7, flds))
      else
        let signed_dist = int raw_offset - offset_bias_n
        in if - 0x2000 \<le> signed_dist \<and> signed_dist < 0x2000
           then Inr (0, [(of_int (signed_dist + 0x2000), 14)])
           else if - 0xA000 \<le> signed_dist \<and> signed_dist < 0xA000
           then Inr (1, [(of_int (if signed_dist < - 0x2000 then signed_dist + 0xA000
                                  else signed_dist + 0x6000), 16)])
           else Inr (2, [(of_int ((if signed_dist \<ge> 0x6000 then signed_dist + 0x16000
                                   else signed_dist + 0x2A000) mod 0x40000), 18)]))"

definition length_fields :: "nat \<Rightarrow> nat \<times> nat option" where
  "length_fields l =
     (if l > 1 \<and> l - 1 \<le> 7 then (l - 1, None)
      else
        let len_sym = l - 1 - 7
        in (0, Some (if len_sym > 0 \<and> len_sym \<le> 255 then len_sym else 0)))"

definition write_field :: "segment_tables \<Rightarrow> nat \<Rightarrow> bit_writer \<Rightarrow> u64 \<times> nat \<Rightarrow> bit_writer" where
  "write_field t raw_offset w f =
     (if fst f = - 1 then
        write_symbol (st_aligned t) w (of_nat ((raw_offset - raw_offset_base_n) mod 16))
      else if snd f > 0 then write_bits w (fst f) (snd f)
      else w)"

definition encode_match :: "segment_tables \<Rightarrow> bit_writer \<Rightarrow> nat \<times> nat \<Rightarrow> bit_writer result" where
  "encode_match t w m =
     (case m of (raw_offset, l) \<Rightarrow>
        rbind (offset_fields raw_offset) (\<lambda>(offset_slot, flds).
          let (length_slot, length_extra) = length_fields l;
              main_sym = 0x100 + 8 * offset_slot + length_slot
          in if main_sym \<ge> length (ht_lengths (st_main t))
             then Inl (Malformed ''main symbol out of range'')
             else
               let w = write_symbol (st_main t) w (of_nat main_sym);
                   w = foldl (write_field t raw_offset) w flds
               in Inr (case length_extra of
                    None \<Rightarrow> w
                  | Some len_sym \<Rightarrow>
                      let w = write_symbol (st_lengths t) w (of_nat len_sym)
                      in if len_sym = 0
                         then write_u32_number w (of_nat (max (l - 1 - 7) 256))
                         else w)))"

text \<open>A literal or a match, as the symbol loops of \<open>compress_inner\<close> write it.\<close>

definition write_lzx_symbol :: "segment_tables \<Rightarrow> bit_writer \<Rightarrow> nat \<times> nat \<Rightarrow> bit_writer result" where
  "write_lzx_symbol t w m =
     (if snd m = 1 \<and> fst m < 256 then Inr (write_symbol (st_main t) w (of_nat (fst m)))
      else encode_match t w m)"

section \<open>What the statistics count\<close>

text \<open>
  \<open>compute_symbol_info\<close>, \<open>compute_length_slot\<close> and \<open>compute_length_extra\<close> of the frequency pass,
  and \<open>match_fits_table\<close>, the guard of the match finder.
\<close>

fun find_info :: "nat \<Rightarrow> nat list \<Rightarrow> (nat \<times> nat \<times> bool) option" where
  "find_info dist [] = None"
| "find_info dist (try_adj # as) =
     (let base = try_adj mod 2 + 2;
          half = try_adj div 2 - 1
      in if half < 4 then
           let shifted = push_bit half base
           in if shifted \<le> dist \<and> dist < shifted + 2 ^ half
              then Some (try_adj + 7, half, False)
              else find_info dist as
         else
           let high_bits = half - 4;
               base_val = (if high_bits > 0 then push_bit high_bits base else base);
               max_high = (if high_bits > 0 then 2 ^ high_bits - 1 else 0);
               mn = push_bit 4 base_val;
               mx = push_bit 4 (base_val OR max_high) OR 15
           in if mn \<le> dist \<and> dist \<le> mx then Some (try_adj + 7, high_bits, True)
              else find_info dist as)"

definition compute_symbol_info :: "nat \<Rightarrow> nat \<times> nat \<times> bool" where
  "compute_symbol_info raw_offset =
     (if raw_offset = source_copy_n then (3, 0, False)
      else if lru_base_n \<le> raw_offset \<and> raw_offset < lru_base_n + 3 then (raw_offset - 0x53FFD, 0, False)
      else if raw_offset \<ge> raw_offset_base_n then
        let dist = raw_offset - raw_offset_base_n
        in if dist \<le> 3 then (dist + 7, 0, False)
           else (case find_info dist [4..<64] of None \<Rightarrow> (7, 0, False) | Some info \<Rightarrow> info)
      else
        let signed_dist = int raw_offset - offset_bias_n
        in (if - 0x2000 \<le> signed_dist \<and> signed_dist < 0x2000 then 0
            else if - 0xA000 \<le> signed_dist \<and> signed_dist < 0xA000 then 1 else 2, 0, False))"

definition compute_length_slot :: "nat \<Rightarrow> nat" where
  "compute_length_slot l = (if l > 1 \<and> l - 1 \<le> 7 then l - 1 else 0)"

definition compute_length_extra :: "nat \<Rightarrow> nat" where
  "compute_length_extra l =
     (let len_sym = l - 1 - 7 in if len_sym > 0 \<and> len_sym \<le> 255 then len_sym else 0)"

definition match_fits_table :: "nat \<Rightarrow> bool" where
  "match_fits_table raw_offset =
     (if raw_offset < 0x100 \<or> raw_offset = source_copy_n
         \<or> (lru_base_n \<le> raw_offset \<and> raw_offset < lru_base_n + 3) then True
      else if raw_offset \<ge> raw_offset_base_n then
        let dist = raw_offset - raw_offset_base_n
        in if dist = 0 then False
           else
             let slot = (if dist \<le> 3 then dist + 7
                         else
                           let high = ilog2 dist;
                               adj = 2 * high + (drop_bit (high - 1) dist AND 1)
                           in adj + 7)
             in 0x100 + 8 * slot < main_symbols
      else True)"

section \<open>Tables that decode what they encode\<close>

definition tab_ok :: "huffman_table \<Rightarrow> nat \<Rightarrow> bool" where
  "tab_ok tb n \<longleftrightarrow> complete (ht_lengths tb) \<and> length (ht_lengths tb) = n
     \<and> tb = table_of (Max (set (ht_lengths tb))) (ht_lengths tb)"

definition tables_ok :: "segment_tables \<Rightarrow> bool" where
  "tables_ok t \<longleftrightarrow> tab_ok (st_main t) main_symbols \<and> tab_ok (st_lengths t) length_symbols
     \<and> tab_ok (st_aligned t) aligned_symbols"

definition has_code :: "huffman_table \<Rightarrow> nat \<Rightarrow> bool" where
  "has_code tb s \<longleftrightarrow> s < length (ht_lengths tb) \<and> 0 < ht_lengths tb ! s"

definition code_of :: "huffman_table \<Rightarrow> nat \<Rightarrow> bool list" where
  "code_of tb s = code_stream (codes_of (ht_lengths tb)) (ht_lengths tb) s"

lemma tab_ok_table_of: "complete lens \<Longrightarrow> tab_ok (table_of (Max (set lens)) lens) (length lens)"
  by (simp add: tab_ok_def)

lemma code_of_length: "tab_ok tb n \<Longrightarrow> has_code tb s \<Longrightarrow> length (code_of tb s) \<le> 16"
  unfolding tab_ok_def has_code_def code_of_def using code_stream_16 by blast

lemma read_code:
  assumes t: "tab_ok tb n" "has_code tb s" and r: "reader_ok r" "rd_stream r = code_of tb s @ rest"
    "rd_padding r \<le> length rest"
  shows "delivers (read_symbol tb r) (of_nat s) rest (rd_padding r)"
proof -
  have "delivers (read_symbol (table_of (Max (set (ht_lengths tb))) (ht_lengths tb)) r) (of_nat s) rest (rd_padding r)"
    using t r unfolding tab_ok_def has_code_def code_of_def by (intro read_symbol_delivers) auto
  then show ?thesis using t(1) by (simp add: tab_ok_def)
qed

lemma write_code:
  assumes t: "tab_ok tb n" "has_code tb s" "n \<le> 2 ^ 16" and w: "writer_ok w"
  shows "writer_ok (write_symbol tb w (of_nat s))"
    "wr_stream (write_symbol tb w (of_nat s)) = wr_stream w @ code_of tb s"
proof -
  let ?l = "ht_lengths tb"
  have u: "unat (of_nat s :: u16) = s" using t by (simp add: unat_of_nat tab_ok_def has_code_def)
  have v: "complete ?l \<and> unat (of_nat s :: u16) < length ?l \<and> 0 < ?l ! unat (of_nat s :: u16)"
    using t by (simp add: u tab_ok_def has_code_def)
  have tb: "table_of (Max (set ?l)) ?l = tb" using t(1) by (simp add: tab_ok_def)
  show "writer_ok (write_symbol tb w (of_nat s))"
    "wr_stream (write_symbol tb w (of_nat s)) = wr_stream w @ code_of tb s"
    using symbol.put_ok [OF w v] symbol.put_enc [OF w v] unfolding tb u code_of_def by simp_all
qed

section \<open>Distances\<close>

definition enc_field :: "segment_tables \<Rightarrow> nat \<Rightarrow> u64 \<times> nat \<Rightarrow> bool list" where
  "enc_field t dist f = (if fst f = - 1 then code_of (st_aligned t) (dist mod 16)
     else word_bits (fst f) (snd f))"

definition enc_fields :: "segment_tables \<Rightarrow> nat \<Rightarrow> (u64 \<times> nat) list \<Rightarrow> bool list" where
  "enc_fields t dist flds = concat (map (enc_field t dist) flds)"

definition fields_ok :: "segment_tables \<Rightarrow> nat \<Rightarrow> (u64 \<times> nat) list \<Rightarrow> bool" where
  "fields_ok t dist flds \<longleftrightarrow> (\<forall>f\<in>set flds.
     if fst f = - 1 then has_code (st_aligned t) (dist mod 16)
     else 0 < snd f \<and> snd f \<le> 64)"

lemma enc_fields_simps [simp]:
  "enc_fields t d [] = []"
  "enc_fields t d (f # fs) = enc_field t d f @ enc_fields t d fs"
  by (simp_all add: enc_fields_def)

lemma write_fields:
  assumes "tables_ok t" "fields_ok t (raw - raw_offset_base_n) flds" "writer_ok w"
  shows "writer_ok (foldl (write_field t raw) w flds) \<and>
    wr_stream (foldl (write_field t raw) w flds) = wr_stream w @ enc_fields t (raw - raw_offset_base_n) flds"
  using assms(2,3)
proof (induction flds arbitrary: w)
  case (Cons f fs)
  have al: "tab_ok (st_aligned t) 16" using assms(1) by (simp add: tables_ok_def alphabet_defs)
  have "writer_ok (write_field t raw w f) \<and>
      wr_stream (write_field t raw w f) = wr_stream w @ enc_field t (raw - raw_offset_base_n) f"
  proof (cases "fst f = - 1")
    case True
    then show ?thesis using Cons.prems write_code [OF al _ _ Cons.prems(2)]
      by (simp add: write_field_def enc_field_def fields_ok_def)
  next
    case False
    then show ?thesis using Cons.prems
      by (simp add: write_field_def enc_field_def fields_ok_def write_bits_spec)
  qed
  moreover have "fields_ok t (raw - raw_offset_base_n) fs" using Cons.prems(1) by (simp add: fields_ok_def)
  ultimately show ?case using Cons.IH [of "write_field t raw w f"] by simp
qed simp

lemma push_bit_or: "x < 2 ^ n \<Longrightarrow> push_bit n a OR x = a * 2 ^ n + (x :: nat)"
proof -
  assume x: "x < 2 ^ n"
  then have t: "take_bit n x = x" by (rule take_bit_nat_eq_self)
  have "push_bit n a AND take_bit n x = 0" by (rule bit_eqI) (auto simp: bit_simps)
  then have "push_bit n a AND x = 0" unfolding t .
  then have "push_bit n a OR x = push_bit n a + x" by (simp add: disjunctive_add_eq_or)
  then show ?thesis by (simp add: push_bit_eq_mult)
qed


text \<open>A slot that covers the distance, and what the decoder makes of its fields.\<close>

lemma of_nat_field:
  assumes "x < 2 ^ k" "k < 64"
  shows "take_bit k (of_nat x :: u64) = of_nat x" "unat (of_nat x :: u64) = x" "(of_nat x :: u64) \<noteq> - 1"
proof -
  have le: "(2::nat) ^ k \<le> 2 ^ 63" using assms(2) by (intro power_increasing) auto
  with assms have x: "x < 2 ^ 63" by linarith
  then show u: "unat (of_nat x :: u64) = x" by (simp add: unat_of_nat)
  show "take_bit k (of_nat x :: u64) = of_nat x"
    by (rule word_unat_eq_iff [THEN iffD2]) (use assms x in \<open>simp add: unsigned_take_bit_eq u take_bit_nat_eq_self\<close>)
  show "(of_nat x :: u64) \<noteq> - 1"
  proof
    assume "(of_nat x :: u64) = - 1"
    then have "unat (of_nat x :: u64) = 2 ^ 64 - 1" by (simp add: unsigned_minus_1_eq_mask mask_eq_exp_minus_1)
    with u x show False by simp
  qed
qed

lemma try_slot_decodes:
  assumes s: "try_slot dist adj = Some flds" and adj: "4 \<le> adj" "adj < 64"
    and t: "tables_ok t" "fields_ok t dist flds"
    and r: "reader_ok r" "rd_stream r = enc_fields t dist flds @ rest" "rd_padding r \<le> length rest"
  shows "delivers (decode_distance t adj r) dist rest (rd_padding r)"
proof -
  define base where "base = adj mod 2 + 2"
  define half where "half = adj div 2 - 1"
  have half: "1 \<le> half" "half \<le> 30" and b: "2 \<le> base" using adj by (auto simp: half_def base_def)
  have d: "\<not> adj \<le> 3" using adj by simp
  show ?thesis
  proof (cases "half < 4")
    case True
    have rng: "base * 2 ^ half \<le> dist" "dist < base * 2 ^ half + 2 ^ half"
      and f: "flds = [(of_nat (dist - base * 2 ^ half), half)]"
      using s True half(1) unfolding try_slot_def base_def [symmetric] half_def [symmetric] Let_def
      by (auto simp: push_bit_eq_mult split: if_splits)
    define x where "x = dist - base * 2 ^ half"
    have x: "x < 2 ^ half" "half < 64" using rng True by (simp_all add: x_def)
    note X = of_nat_field [OF x]
    have "delivers (read_bits r half) (of_nat x :: u64) rest (rd_padding r)"
      using r f X x by (intro read_field) (simp_all add: enc_field_def flip: x_def)
    then have "delivers (rbind (read_bits r half) (\<lambda>(extra, r). Inr (push_bit half base OR unat extra, r)))
        dist rest (rd_padding r)"
      by (rule delivers_bind) (use X(2) x(1) rng in \<open>simp add: deliversI push_bit_or x_def\<close>)
    then show ?thesis
      using d True half unfolding decode_distance_def base_def [symmetric] half_def [symmetric] Let_def by simp
  next
    case False
    define hb where "hb = half - 4"
    have hb: "hb \<le> 26" using half by (simp add: hb_def)
    have base_val: "(if hb > 0 then push_bit hb base else base) = base * 2 ^ hb"
      by (auto simp: push_bit_eq_mult)
    have max_high: "(if hb > 0 then 2 ^ hb - 1 else 0) = (2::nat) ^ hb - 1" by auto
    have mx: "push_bit 4 (base * 2 ^ hb OR (2 ^ hb - 1)) OR 15 = (base * 2 ^ hb + 2 ^ hb - 1) * 16 + (15::nat)"
      using push_bit_or [of "2 ^ hb - 1" hb base] push_bit_or [of 15 4 "base * 2 ^ hb OR (2 ^ hb - 1)"]
      by (simp add: push_bit_eq_mult)
    have rng: "base * 2 ^ hb * 16 \<le> dist" "dist \<le> (base * 2 ^ hb + 2 ^ hb - 1) * 16 + 15"
      and f: "flds = (if hb > 0 then [(of_nat (drop_bit 4 dist AND (2 ^ hb - 1)), hb)] else []) @ [aligned_field]"
      using s False unfolding try_slot_def base_def [symmetric] half_def [symmetric] Let_def
        hb_def [symmetric] base_val max_high mx
      by (auto simp: push_bit_eq_mult max_high split: if_splits)
    define x where "x = drop_bit 4 dist AND (2 ^ hb - 1)"
    note f = f [folded x_def]
    have x_mod: "x = (dist div 16) mod 2 ^ hb"
      unfolding x_def drop_bit_eq_div mask_eq_exp_minus_1 [symmetric] take_bit_eq_mask [symmetric]
      by (simp add: take_bit_eq_mod)
    have q: "base * 2 ^ hb \<le> dist div 16" "dist div 16 < base * 2 ^ hb + 2 ^ hb"
      using rng one_le_power [of "2::nat" hb] by linarith+
    have qx: "dist div 16 = base * 2 ^ hb + x"
    proof -
      have "dist div 16 = base * 2 ^ hb + (dist div 16 - base * 2 ^ hb)" using q by simp
      moreover have "(base * 2 ^ hb + (dist div 16 - base * 2 ^ hb)) mod 2 ^ hb = dist div 16 - base * 2 ^ hb"
        using q by (subst mod_mult_self3) simp
      ultimately show ?thesis using x_mod by simp
    qed
    have x: "x < 2 ^ hb" "hb < 64" using hb by (simp_all add: x_mod)
    note X = of_nat_field [OF x]
    let ?al = "code_of (st_aligned t) (dist mod 16)"
    have al: "tab_ok (st_aligned t) 16" "has_code (st_aligned t) (dist mod 16)"
      using t f by (auto simp: tables_ok_def alphabet_defs fields_ok_def aligned_field_def)
    have hi: "delivers (if hb > 0 then rbind (read_bits r hb) (\<lambda>(extra, r). Inr (push_bit hb base OR unat extra, r))
        else Inr (base, r)) (dist div 16) (?al @ rest) (rd_padding r)"
    proof (cases "hb > 0")
      case True
      have "delivers (read_bits r hb) (of_nat x :: u64) (?al @ rest) (rd_padding r)"
        using r f X x True by (intro read_field) (simp_all add: enc_field_def aligned_field_def)
      then have "delivers (rbind (read_bits r hb) (\<lambda>(extra, r). Inr (push_bit hb base OR unat extra, r)))
          (dist div 16) (?al @ rest) (rd_padding r)"
        by (rule delivers_bind) (use X(2) x(1) qx in \<open>simp add: deliversI push_bit_or\<close>)
      then show ?thesis using True by simp
    next
      case False
      then show ?thesis using r f qx x by (simp add: deliversI enc_field_def aligned_field_def)
    qed
    have "dist mod 16 < 2 ^ 4" by simp
    note low = push_bit_or [OF this, of "dist div 16"]
    have "delivers (rbind (if hb > 0 then rbind (read_bits r hb) (\<lambda>(extra, r). Inr (push_bit hb base OR unat extra, r))
        else Inr (base, r)) (\<lambda>(val, r). rbind (read_symbol (st_aligned t) r)
           (\<lambda>(aligned, r). Inr (push_bit 4 val OR unat aligned, r)))) dist rest (rd_padding r)"
    proof (rule delivers_bind [OF hi], unfold prod.case)
      fix r1 assume r1: "reader_ok r1" "rd_stream r1 = ?al @ rest" "rd_padding r1 = rd_padding r"
      have "delivers (read_symbol (st_aligned t) r1) (of_nat (dist mod 16)) rest (rd_padding r1)"
        using r1 r(3) al by (intro read_code) auto
      then have "delivers (rbind (read_symbol (st_aligned t) r1)
           (\<lambda>(aligned, r). Inr (push_bit 4 (dist div 16) OR unat aligned, r))) dist rest (rd_padding r1)"
        by (rule delivers_bind) (simp add: deliversI low unat_of_nat)
      then show "delivers (rbind (read_symbol (st_aligned t) r1)
           (\<lambda>(aligned, r). Inr (push_bit 4 (dist div 16) OR unat aligned, r))) dist rest (rd_padding r)"
        unfolding r1(3) .
    qed
    then show ?thesis
      using d False half unfolding decode_distance_def base_def [symmetric] half_def [symmetric]
        hb_def [symmetric] Let_def by simp
  qed
qed

lemma find_slot_SomeD: "find_slot dist as = Some (adj, flds) \<Longrightarrow> adj \<in> set as \<and> try_slot dist adj = Some flds"
  by (induction as) (auto split: option.splits)

lemma delta_decodes:
  assumes v: "0 \<le> v" "v < 2 ^ k" and k: "k = 14 + 2 * slot" "slot < 3" and d: "decode_delta slot (nat v) = int raw - offset_bias_n"
    and r: "reader_ok r" "rd_stream r = enc_fields t dist [(of_int v, k)] @ rest"
  shows "delivers (decode_offset slot t r) raw rest (rd_padding r)"
proof -
  have x: "nat v < 2 ^ k" "k < 64" using v k by (simp_all add: nat_less_iff)
  note X = of_nat_field [OF x]
  have o: "of_int v = (of_nat (nat v) :: u64)" using v(1) by simp
  have "delivers (read_bits r k) (of_nat (nat v) :: u64) rest (rd_padding r)"
    using r(1) r(2) [unfolded o] X x(2) by (intro read_field) (simp_all add: enc_field_def)
  then have "delivers (rbind (read_bits r k) (\<lambda>(raw, r). Inr (nat (decode_delta slot (unat raw) + offset_bias_n), r)))
      raw rest (rd_padding r)"
    by (rule delivers_bind) (use X(2) d in \<open>simp add: deliversI\<close>)
  then show ?thesis using k by (simp add: decode_offset_def)
qed

lemma offset_decodes:
  assumes e: "offset_fields raw = Inr (slot, flds)" and slot: "slot < 43" and raw: "raw < 2 ^ 32"
    and t: "tables_ok t" "fields_ok t (raw - raw_offset_base_n) flds"
    and r: "reader_ok r" "rd_stream r = enc_fields t (raw - raw_offset_base_n) flds @ rest"
      "rd_padding r \<le> length rest"
  shows "delivers (decode_offset slot t r) raw rest (rd_padding r)"
proof -
  consider (sc) "raw = source_copy_n" | (lru) "lru_base_n \<le> raw" "raw < lru_base_n + 3"
    | (near) "raw_offset_base_n + 1 \<le> raw" "raw \<le> raw_offset_base_n + 3" "\<not> raw < lru_base_n + 3"
    | (far) "raw_offset_base_n + 4 \<le> raw" | (delta) "raw < source_copy_n"
    by linarith
  then show ?thesis
  proof cases
    case sc
    then show ?thesis using e r by (simp add: offset_fields_def decode_offset_def deliversI)
  next
    case lru
    then have "slot = raw - 0x53FFD" "flds = []" using e by (simp_all add: offset_fields_def)
    moreover have "raw = 0x54001 \<or> raw = 0x54002 \<or> raw = 0x54003" using lru by linarith
    ultimately show ?thesis using r by (auto simp: decode_offset_def deliversI)
  next
    case near
    define d where "d = raw - raw_offset_base_n"
    have d: "raw = d + raw_offset_base_n" "1 \<le> d" "d \<le> 3" using near by (simp_all add: d_def)
    have "\<not> raw < lru_base_n + 3" "raw \<noteq> source_copy_n" "raw_offset_base_n \<le> raw" "d \<noteq> 0"
      using d by simp_all
    then have "slot = d + 7" "flds = []"
      using e d(3) by (simp_all add: offset_fields_def Let_def flip: d_def)
    then show ?thesis using r d raw
      by (simp add: decode_offset_def decode_extra_value_def decode_distance_def deliversI)
  next
    case far
    define dist where "dist = raw - raw_offset_base_n"
    have dist: "4 \<le> dist" "raw = dist + raw_offset_base_n" using far by (simp_all add: dist_def)
    have "\<not> dist \<le> 3" "dist \<noteq> 0" using dist by simp_all
    with e far obtain adj where f: "find_slot dist [4..<64] = Some (adj, flds)" "slot = adj + 7"
      by (auto simp: offset_fields_def Let_def simp flip: dist_def simp del: upt_rec_numeral split: option.splits)
    from find_slot_SomeD [OF f(1)] have a: "4 \<le> adj" "adj < 64" "try_slot dist adj = Some flds" by auto
    have "delivers (decode_distance t adj r) dist rest (rd_padding r)"
      using try_slot_decodes [OF a(3,1,2) t(1)] t(2) r by (simp add: dist_def)
    then have "delivers (rbind (decode_distance t adj r) (\<lambda>(dist, r).
        if dist + raw_offset_base_n < 2 ^ 32 then Inr (dist + raw_offset_base_n, r)
        else Inl (Malformed ''LZX offset overflow''))) raw rest (rd_padding r)"
      by (rule delivers_bind) (use raw dist in \<open>simp add: deliversI\<close>)
    then show ?thesis using a f(2) by (simp add: decode_offset_def decode_extra_value_def)
  next
    case delta
    define s where "s = int raw - offset_bias_n"
    have s: "- 0x2a000 \<le> s" "s < 0x2a000" using delta by (simp_all add: s_def)
    have ne: "raw \<noteq> source_copy_n" "\<not> lru_base_n \<le> raw" "\<not> raw_offset_base_n \<le> raw" using delta by simp_all
    consider (s0) "- 0x2000 \<le> s" "s < 0x2000" | (s1) "- 0xA000 \<le> s" "s < 0xA000" "\<not> (- 0x2000 \<le> s \<and> s < 0x2000)"
      | (s2) "\<not> (- 0xA000 \<le> s \<and> s < 0xA000)" "\<not> (- 0x2000 \<le> s \<and> s < 0x2000)" by linarith
    then show ?thesis
    proof cases
      case s0
      then have f: "slot = 0" "flds = [(of_int (s + 0x2000), 14)]"
        using e ne by (simp_all add: offset_fields_def Let_def flip: s_def)
      show ?thesis
        by (rule delta_decodes [where v = "s + 0x2000" and k = 14])
          (use s0 f r in \<open>simp_all add: decode_delta_def flip: s_def\<close>)
    next
      case s1
      then have f: "slot = 1" "flds = [(of_int (if s < - 0x2000 then s + 0xA000 else s + 0x6000), 16)]"
        using e ne by (auto simp: offset_fields_def Let_def simp flip: s_def)
      show ?thesis
        by (rule delta_decodes [where v = "if s < - 0x2000 then s + 0xA000 else s + 0x6000" and k = 16])
          (use s1 f r in \<open>auto simp: decode_delta_def nat_less_iff simp flip: s_def\<close>)
    next
      case s2
      let ?v = "(if s \<ge> 0x6000 then s + 0x16000 else s + 0x2A000) mod 0x40000"
      have v: "?v = (if s \<ge> 0x6000 then s + 0x16000 else s + 0x2A000)" using s s2 by auto
      have f: "slot = 2" "flds = [(of_int ?v, 18)]"
        using e ne s2 by (auto simp: offset_fields_def Let_def simp flip: s_def)
      show ?thesis
        by (rule delta_decodes [where v = "?v" and k = 18])
          (use s s2 f r v in \<open>auto simp: decode_delta_def nat_less_iff simp flip: s_def\<close>)
    qed
  qed
qed

section \<open>Symbols\<close>

definition is_literal :: "nat \<times> nat \<Rightarrow> bool" where
  "is_literal m \<longleftrightarrow> snd m = 1 \<and> fst m < 256"

definition enc_length :: "segment_tables \<Rightarrow> nat \<Rightarrow> bool list" where
  "enc_length t l =
     (case snd (length_fields l) of
        None \<Rightarrow> []
      | Some s \<Rightarrow> code_of (st_lengths t) s
          @ (if s = 0 then enc_u32_number (of_nat (max (l - 1 - 7) 256)) else []))"

definition match_symbol :: "nat \<times> nat \<Rightarrow> nat" where
  "match_symbol m = 0x100 + 8 * fst (projr (offset_fields (fst m))) + fst (length_fields (snd m))"

definition match_fields :: "nat \<times> nat \<Rightarrow> (u64 \<times> nat) list" where
  "match_fields m = snd (projr (offset_fields (fst m)))"

definition enc_lzx :: "segment_tables \<Rightarrow> nat \<times> nat \<Rightarrow> bool list" where
  "enc_lzx t m =
     (if is_literal m then code_of (st_main t) (fst m)
      else code_of (st_main t) (match_symbol m)
        @ enc_fields t (fst m - raw_offset_base_n) (match_fields m) @ enc_length t (snd m))"

text \<open>The symbols the encoder emits, and the tables that have codes for them.\<close>

definition symbol_fits :: "nat \<times> nat \<Rightarrow> bool" where
  "symbol_fits m \<longleftrightarrow> is_literal m \<or>
     (2 \<le> snd m \<and> snd m < 2 ^ 32 \<and> fst m < 2 ^ 32
      \<and> (\<exists>slot flds. offset_fields (fst m) = Inr (slot, flds) \<and> slot < 43))"

definition symbol_coded :: "segment_tables \<Rightarrow> nat \<times> nat \<Rightarrow> bool" where
  "symbol_coded t m \<longleftrightarrow>
     (if is_literal m then has_code (st_main t) (fst m)
      else has_code (st_main t) (match_symbol m)
        \<and> fields_ok t (fst m - raw_offset_base_n) (match_fields m)
        \<and> (case snd (length_fields (snd m)) of None \<Rightarrow> True | Some s \<Rightarrow> has_code (st_lengths t) s))"

lemma length_fields_cases:
  assumes "2 \<le> l" "l < 2 ^ 32"
  obtains (short) "l \<le> 8" "length_fields l = (l - 1, None)"
    | (mid) s where "1 \<le> s" "s \<le> 255" "l = s + 8" "length_fields l = (0, Some s)"
    | (big) n where "256 \<le> n" "n + 8 < 2 ^ 32" "l = n + 8" "length_fields l = (0, Some 0)"
proof -
  consider "l \<le> 8" | "9 \<le> l" "l \<le> 263" | "264 \<le> l" by linarith
  then show thesis
  proof cases
    case 1
    then show thesis using short assms(1) by (simp add: length_fields_def)
  next
    case 2
    then have "\<not> l - 1 \<le> 7" "l - 1 - 7 = l - 8" by linarith+
    with 2 show thesis using mid [of "l - 8"] by (simp add: length_fields_def Let_def del: diff_diff_left One_nat_def)
  next
    case 3
    then have "\<not> l - 1 \<le> 7" "l - 1 - 7 = l - 8" by linarith+
    with 3 show thesis using big [of "l - 8"] assms(2)
      by (simp add: length_fields_def Let_def del: diff_diff_left One_nat_def)
  qed
qed

lemma length_slot_le: "2 \<le> l \<Longrightarrow> l < 2 ^ 32 \<Longrightarrow> fst (length_fields l) < 8"
  by (erule (1) length_fields_cases) simp_all

lemma write_lzx_spec:
  assumes t: "tables_ok t" and m: "symbol_fits m" "symbol_coded t m" and w: "writer_ok w"
  shows "\<exists>w'. write_lzx_symbol t w m = Inr w' \<and> writer_ok w' \<and> wr_stream w' = wr_stream w @ enc_lzx t m"
proof (cases "is_literal m")
  case True
  have mt: "tab_ok (st_main t) 600" "has_code (st_main t) (fst m)"
    using t m(2) True by (simp_all add: tables_ok_def alphabet_defs symbol_coded_def)
  show ?thesis using True write_code [OF mt _ w]
    by (simp add: write_lzx_symbol_def is_literal_def enc_lzx_def)
next
  case False
  obtain slot flds where o: "offset_fields (fst m) = Inr (slot, flds)" "slot < 43"
    and l: "2 \<le> snd m" "snd m < 2 ^ 32" using m(1) False by (auto simp: symbol_fits_def)
  obtain ls le where lf: "length_fields (snd m) = (ls, le)" by (cases "length_fields (snd m)")
  have sym: "match_symbol m = 0x100 + 8 * slot + ls" "match_fields m = flds"
    by (simp_all add: match_symbol_def match_fields_def o(1) lf)
  have mt: "tab_ok (st_main t) 600" "has_code (st_main t) (0x100 + 8 * slot + ls)"
    and lt: "tab_ok (st_lengths t) 256" and ln: "length (ht_lengths (st_main t)) = 600"
    and fk: "fields_ok t (fst m - raw_offset_base_n) flds"
    and lc: "case le of None \<Rightarrow> True | Some s \<Rightarrow> has_code (st_lengths t) s"
    using t m(2) False sym lf by (simp_all add: tables_ok_def tab_ok_def alphabet_defs symbol_coded_def)
  have rng: "\<not> 0x100 + 8 * slot + ls \<ge> length (ht_lengths (st_main t))"
    using mt(2) by (simp add: has_code_def)
  define w1 where "w1 = write_symbol (st_main t) w (of_nat (0x100 + 8 * slot + ls))"
  have w1: "writer_ok w1" "wr_stream w1 = wr_stream w @ code_of (st_main t) (0x100 + 8 * slot + ls)"
    using write_code [OF mt _ w] by (simp_all add: w1_def)
  define w2 where "w2 = foldl (write_field t (fst m)) w1 flds"
  have w2: "writer_ok w2" "wr_stream w2 = wr_stream w1 @ enc_fields t (fst m - raw_offset_base_n) flds"
    using write_fields [OF t fk w1(1)] by (simp_all add: w2_def)
  define w3 where "w3 = (case le of None \<Rightarrow> w2
                  | Some len_sym \<Rightarrow>
                      let w = write_symbol (st_lengths t) w2 (of_nat len_sym)
                      in if len_sym = 0
                         then write_u32_number w (of_nat (max (snd m - 1 - 7) 256))
                         else w)"
  have w3: "writer_ok w3 \<and> wr_stream w3 = wr_stream w2 @ enc_length t (snd m)"
  proof (cases le)
    case None
    then show ?thesis using w2 by (simp add: w3_def enc_length_def lf)
  next
    case (Some s)
    have c: "has_code (st_lengths t) s" using lc Some by simp
    note W = write_code [OF lt c _ w2(1)]
    have big: "s = 0 \<Longrightarrow> 256 \<le> (of_nat (max (snd m - 1 - 7) 256) :: u32)"
      using l(2) by (simp add: word_le_nat_alt unat_of_nat)
    show ?thesis
    proof (cases "s = 0")
      case True
      show ?thesis using Some True W write_u32_number_spec [OF W(1) big [OF True]]
        by (simp add: w3_def enc_length_def lf)
    next
      case False
      then show ?thesis using Some W by (simp add: w3_def enc_length_def lf)
    qed
  qed
  have "encode_match t w m = Inr w3"
    using rng by (cases m; cases le) (use o lf in \<open>simp_all add: encode_match_def Let_def w3_def w2_def w1_def\<close>)
  moreover have "write_lzx_symbol t w m = encode_match t w m"
    using False by (auto simp: write_lzx_symbol_def is_literal_def)
  ultimately show ?thesis using False w1 w2 w3 by (simp add: enc_lzx_def sym)
qed

lemma decode_length_delivers:
  assumes t: "tables_ok t" and l: "2 \<le> l" "l < 2 ^ 32"
    and c: "case snd (length_fields l) of None \<Rightarrow> True | Some s \<Rightarrow> has_code (st_lengths t) s"
    and r: "reader_ok r" "rd_stream r = enc_length t l @ rest" "rd_padding r \<le> length rest"
  shows "delivers (decode_length (fst (length_fields l)) t r) (l - 1) rest (rd_padding r)"
  using l
proof (cases rule: length_fields_cases)
  case short
  then show ?thesis using r l by (simp add: enc_length_def decode_length_def deliversI)
next
  case (mid s)
  have lt: "tab_ok (st_lengths t) 256" "has_code (st_lengths t) s"
    using t c mid by (simp_all add: tables_ok_def alphabet_defs)
  have "delivers (read_symbol (st_lengths t) r) (of_nat s) rest (rd_padding r)"
    using r mid by (intro read_code [OF lt]) (simp_all add: enc_length_def)
  then have "delivers (rbind (read_symbol (st_lengths t) r) (\<lambda>(len_sym, r).
          if len_sym = 0 then
            rbind (read_u32_number r) (\<lambda>(big_len, r).
              if unat big_len < 256 then Inl (Malformed ''ReadNumber returned value < 256'')
              else if unat big_len + 7 < 2 ^ 32 then Inr (unat big_len + 7, r)
              else Inl (Malformed ''LZX match length overflow''))
          else Inr (unat len_sym + 7, r))) (l - 1) rest (rd_padding r)"
  proof (rule delivers_bind, unfold prod.case)
    fix r1 assume r1: "reader_ok r1" "rd_stream r1 = rest" "rd_padding r1 = rd_padding r"
    have u: "unat (of_nat s :: u16) = s" using mid by (simp add: unat_of_nat)
    moreover from u mid have "(of_nat s :: u16) \<noteq> 0" by auto
    ultimately show "delivers (if (of_nat s :: u16) = 0 then
            rbind (read_u32_number r1) (\<lambda>(big_len, r).
              if unat big_len < 256 then Inl (Malformed ''ReadNumber returned value < 256'')
              else if unat big_len + 7 < 2 ^ 32 then Inr (unat big_len + 7, r)
              else Inl (Malformed ''LZX match length overflow''))
          else Inr (unat (of_nat s :: u16) + 7, r1)) (l - 1) rest (rd_padding r)"
      using mid r1 by (simp add: deliversI add.commute)
  qed
  then show ?thesis using mid by (simp add: decode_length_def)
next
  case (big n)
  have lt: "tab_ok (st_lengths t) 256" "has_code (st_lengths t) 0"
    using t c big by (simp_all add: tables_ok_def alphabet_defs)
  let ?e = "enc_u32_number (of_nat n)"
  have "delivers (read_symbol (st_lengths t) r) (of_nat 0) (?e @ rest) (rd_padding r)"
    using r big by (intro read_code [OF lt]) (simp_all add: enc_length_def)
  then have "delivers (rbind (read_symbol (st_lengths t) r) (\<lambda>(len_sym, r).
          if len_sym = 0 then
            rbind (read_u32_number r) (\<lambda>(big_len, r).
              if unat big_len < 256 then Inl (Malformed ''ReadNumber returned value < 256'')
              else if unat big_len + 7 < 2 ^ 32 then Inr (unat big_len + 7, r)
              else Inl (Malformed ''LZX match length overflow''))
          else Inr (unat len_sym + 7, r))) (l - 1) rest (rd_padding r)"
  proof (rule delivers_bind, unfold prod.case)
    fix r1 assume r1: "reader_ok r1" "rd_stream r1 = ?e @ rest" "rd_padding r1 = rd_padding r"
    have n: "256 \<le> (of_nat n :: u32)" "unat (of_nat n :: u32) = n"
      using big by (simp_all add: word_le_nat_alt unat_of_nat)
    have "delivers (read_u32_number r1) (of_nat n) rest (rd_padding r1)"
      using align_len(2) [of "length (rd_stream r1)"] r(3) r1(3)
      by (intro number.get_enc [OF r1(1) n(1) r1(2), of "align_len (length (rd_stream r1))"])
        (simp_all add: add.commute)
    then have "delivers (rbind (read_u32_number r1) (\<lambda>(big_len, r).
              if unat big_len < 256 then Inl (Malformed ''ReadNumber returned value < 256'')
              else if unat big_len + 7 < 2 ^ 32 then Inr (unat big_len + 7, r)
              else Inl (Malformed ''LZX match length overflow''))) (l - 1) rest (rd_padding r)"
      unfolding r1(3) by (rule delivers_bind) (use n big in \<open>simp add: deliversI add.commute\<close>)
    then show "delivers (if (of_nat 0 :: u16) = 0 then
            rbind (read_u32_number r1) (\<lambda>(big_len, r).
              if unat big_len < 256 then Inl (Malformed ''ReadNumber returned value < 256'')
              else if unat big_len + 7 < 2 ^ 32 then Inr (unat big_len + 7, r)
              else Inl (Malformed ''LZX match length overflow''))
          else Inr (unat (of_nat 0 :: u16) + 7, r1)) (l - 1) rest (rd_padding r)"
      unfolding semiring_1_class.of_nat_0 if_P [OF refl] .
  qed
  then show ?thesis using big by (simp add: decode_length_def)
qed

lemma read_lzx_delivers:
  assumes t: "tables_ok t" and m: "symbol_fits m" "symbol_coded t m"
    and r: "reader_ok r" "rd_stream r = enc_lzx t m @ rest" "rd_padding r \<le> length rest"
  shows "delivers (lzx_read_symbol t r) m rest (rd_padding r)"
proof (cases "is_literal m")
  case True
  then have m1: "m = (fst m, 1)" "fst m < 256" by (auto simp: is_literal_def prod_eq_iff)
  have mt: "tab_ok (st_main t) 600" "has_code (st_main t) (fst m)"
    using t m(2) True by (simp_all add: tables_ok_def alphabet_defs symbol_coded_def)
  have "delivers (read_symbol (st_main t) r) (of_nat (fst m)) rest (rd_padding r)"
    using r True by (intro read_code [OF mt]) (simp_all add: enc_lzx_def)
  then obtain r1 where "read_symbol (st_main t) r = Inr (of_nat (fst m), r1)" "reader_ok r1"
    "rd_stream r1 = rest" "rd_padding r1 = rd_padding r" by (auto simp: delivers_def)
  moreover have "unat (of_nat (fst m) :: u16) = fst m" using m1(2) by (simp add: unat_of_nat)
  ultimately show ?thesis using m1 by (simp add: lzx_read_symbol_def delivers_def prod_eq_iff)
next
  case False
  obtain slot flds where o: "offset_fields (fst m) = Inr (slot, flds)" "slot < 43"
    and l: "2 \<le> snd m" "snd m < 2 ^ 32" and raw: "fst m < 2 ^ 32"
    using m(1) False by (auto simp: symbol_fits_def)
  define ls where "ls = fst (length_fields (snd m))"
  have ls: "ls < 8" using length_slot_le [OF l] by (simp add: ls_def)
  define s where "s = 0x100 + 8 * slot + ls"
  have sym: "match_symbol m = s" "match_fields m = flds"
    by (simp_all add: match_symbol_def match_fields_def o(1) s_def ls_def)
  have mt: "tab_ok (st_main t) 600" "has_code (st_main t) s"
    and fk: "fields_ok t (fst m - raw_offset_base_n) flds"
    and lc: "case snd (length_fields (snd m)) of None \<Rightarrow> True | Some s \<Rightarrow> has_code (st_lengths t) s"
    using t m(2) False sym by (simp_all add: tables_ok_def alphabet_defs symbol_coded_def)
  have s600: "s < 600" using mt by (simp add: tab_ok_def has_code_def)
  have us: "unat (of_nat s :: u16) = s" using s600 by (simp add: unat_of_nat)
  have split: "\<not> s < 0x100" "(s - 0x100) mod 8 = ls" "(s - 0x100) div 8 = slot"
    using ls by (simp_all add: s_def)
  let ?of = "enc_fields t (fst m - raw_offset_base_n) flds"
  have "delivers (read_symbol (st_main t) r) (of_nat s) (?of @ enc_length t (snd m) @ rest) (rd_padding r)"
    using r False sym by (intro read_code [OF mt]) (simp_all add: enc_lzx_def)
  then obtain r1 where r1: "read_symbol (st_main t) r = Inr (of_nat s, r1)" "reader_ok r1"
    "rd_stream r1 = ?of @ enc_length t (snd m) @ rest" "rd_padding r1 = rd_padding r"
    by (auto simp: delivers_def)
  have "delivers (decode_offset slot t r1) (fst m) (enc_length t (snd m) @ rest) (rd_padding r1)"
    using r1 r(3) by (intro offset_decodes [OF o raw t fk]) simp_all
  then obtain r2 where r2: "decode_offset slot t r1 = Inr (fst m, r2)" "reader_ok r2"
    "rd_stream r2 = enc_length t (snd m) @ rest" "rd_padding r2 = rd_padding r"
    using r1(4) by (auto simp: delivers_def)
  have "delivers (decode_length ls t r2) (snd m - 1) rest (rd_padding r2)"
    unfolding ls_def using r2 r(3) by (intro decode_length_delivers [OF t l lc]) simp_all
  then obtain r3 where r3: "decode_length ls t r2 = Inr (snd m - 1, r3)" "reader_ok r3"
    "rd_stream r3 = rest" "rd_padding r3 = rd_padding r"
    using r2(4) by (auto simp: delivers_def)
  have "lzx_read_symbol t r = Inr ((fst m, snd m - 1 + 1), r3)"
    unfolding lzx_read_symbol_def r1(1) rbind_Inr prod.case us if_not_P [OF split(1)] Let_def
      split(2,3) r2(1) r3(1) using l by simp
  then show ?thesis using l r3 by (simp add: delivers_def)
qed

interpretation lzx_symbol: bit_codec "\<lambda>w m. projr (write_lzx_symbol t w m)" "lzx_read_symbol t"
  "\<lambda>_. enc_lzx t" "\<lambda>m. tables_ok t \<and> symbol_fits m \<and> symbol_coded t m" for t
proof (unfold_locales, goal_cases)
  case (1 w m)
  then show ?case using write_lzx_spec by fastforce
next
  case (2 w m)
  then show ?case using write_lzx_spec by fastforce
next
  case (3 r m n rest)
  then show ?case using read_lzx_delivers by blast
qed

section \<open>Every distance of the window has a slot\<close>

lemma try_slot_covers:
  assumes d: "4 \<le> dist" and adj: "adj = 2 * ilog2 dist + (drop_bit (ilog2 dist - 1) dist AND 1)"
    "adj < 64"
  shows "try_slot dist adj \<noteq> None"
proof -
  define h where "h = ilog2 dist"
  have hb: "2 ^ h \<le> dist" "dist < 2 ^ (h + 1)" using ilog2_bounds [of dist] d by (auto simp: h_def)
  have h2: "2 \<le> h"
  proof (rule ccontr)
    assume "\<not> 2 \<le> h"
    then have "(2::nat) ^ (h + 1) \<le> 2 ^ 2" by (intro power_increasing) auto
    with hb d show False by simp
  qed
  define k where "k = h - 1"
  have k: "1 \<le> k" "h = k + 1" using h2 by (simp_all add: k_def)
  define b where "b = dist div 2 ^ k"
  have b: "b = 2 \<or> b = 3"
  proof -
    have "2 * 2 ^ k \<le> dist" "dist < 4 * 2 ^ k" using hb k(2) by simp_all
    then have "2 \<le> b" "b < 4" by (simp_all add: b_def less_eq_div_iff_mult_less_eq div_less_iff_less_mult)
    then show ?thesis by linarith
  qed
  have bm: "b * 2 ^ k \<le> dist" "dist < b * 2 ^ k + 2 ^ k"
    using div_times_less_eq_dividend [of dist "2 ^ k"] dividend_less_div_times [of "2 ^ k" dist]
    by (simp_all add: b_def add.commute)
  have "drop_bit (h - 1) dist AND 1 = b mod 2" by (simp add: b_def drop_bit_eq_div k(2) and_one_eq)
  then have a: "adj = 2 * (k + 1) + b mod 2" using adj(1) k(2) by (simp flip: h_def)
  then have base: "adj mod 2 + 2 = b" "adj div 2 - 1 = k" using b by auto
  show ?thesis
  proof (cases "k < 4")
    case True
    then show ?thesis using bm unfolding try_slot_def base Let_def by (simp add: push_bit_eq_mult)
  next
    case False
    define hb where "hb = k - 4"
    have k4: "2 ^ k = 2 ^ hb * (16::nat)" using False power_add [of "2::nat" hb 4] by (simp add: hb_def)
    have base_val: "(if hb > 0 then push_bit hb b else b) = b * 2 ^ hb"
      by (auto simp: push_bit_eq_mult)
    have max_high: "(if hb > 0 then 2 ^ hb - 1 else 0) = (2::nat) ^ hb - 1" by auto
    have mx: "push_bit 4 (b * 2 ^ hb OR (2 ^ hb - 1)) OR 15 = (b * 2 ^ hb + 2 ^ hb - 1) * 16 + (15::nat)"
      using push_bit_or [of "2 ^ hb - 1" hb b] push_bit_or [of 15 4 "b * 2 ^ hb OR (2 ^ hb - 1)"]
      by (simp add: push_bit_eq_mult)
    have "b * 2 ^ hb * 16 \<le> dist" "dist < (b * 2 ^ hb + 2 ^ hb) * 16"
      using bm unfolding k4 by (simp_all add: algebra_simps)
    moreover have "0 < (2::nat) ^ hb" by simp
    ultimately have "push_bit 4 (b * 2 ^ hb) \<le> dist" "dist \<le> (b * 2 ^ hb + 2 ^ hb - 1) * 16 + 15"
      by (simp_all add: push_bit_eq_mult)
    then show ?thesis using False
      unfolding try_slot_def base Let_def hb_def [symmetric] base_val max_high mx by simp
  qed
qed


lemma ilog2_4: "4 \<le> d \<Longrightarrow> 2 \<le> ilog2 d"
proof (rule ccontr)
  assume d: "4 \<le> d" and "\<not> 2 \<le> ilog2 d"
  then have "(2::nat) ^ (ilog2 d + 1) \<le> 2 ^ 2" by (intro power_increasing) auto
  with ilog2_bounds [of d] d show False by simp
qed

lemma find_slot_le:
  "sorted as \<Longrightarrow> a \<in> set as \<Longrightarrow> try_slot dist a \<noteq> None \<Longrightarrow>
    \<exists>adj flds. find_slot dist as = Some (adj, flds) \<and> adj \<le> a"
  by (induction as) (auto split: option.splits)

text \<open>The guard of the match finder lets only encodable offsets through.\<close>

lemma match_fits_offset:
  assumes "match_fits_table raw"
  obtains slot flds where "offset_fields raw = Inr (slot, flds)" "slot < 43"
proof -
  have "\<exists>slot flds. offset_fields raw = Inr (slot, flds) \<and> slot < 43"
  proof (cases "raw_offset_base_n + 1 \<le> raw")
    case False
    then have "raw = source_copy_n \<or> lru_base_n \<le> raw \<and> raw < lru_base_n + 3 \<or> raw < source_copy_n" by linarith
    then show ?thesis by (auto simp: offset_fields_def Let_def)
  next
    case True
    define dist where "dist = raw - raw_offset_base_n"
    have raw: "raw = dist + raw_offset_base_n" "1 \<le> dist" using True by (simp_all add: dist_def)
    show ?thesis
    proof (cases "dist \<le> 3")
      case True
      then show ?thesis using raw by (simp add: offset_fields_def)
    next
      case False
      define adj where "adj = 2 * ilog2 dist + (drop_bit (ilog2 dist - 1) dist AND 1)"
      have "0x100 + 8 * (adj + 7) < (600 :: nat)"
        using assms raw False unfolding match_fits_table_def Let_def adj_def
        by (simp add: alphabet_defs)
      then have a36: "adj < 36" by simp
      have a4: "4 \<le> adj" using ilog2_4 [of dist] False by (simp add: adj_def)
      have "try_slot dist adj \<noteq> None"
        by (rule try_slot_covers) (use False a36 in \<open>simp_all add: adj_def\<close>)
      with find_slot_le [of "[4..<64]" adj dist] a4 a36 obtain a flds where
        f: "find_slot dist [4..<64] = Some (a, flds)" "a \<le> adj"
        by (auto simp del: upt_rec_numeral)
      have "offset_fields raw = Inr (a + 7, flds)"
        using False raw f(1) by (simp add: offset_fields_def del: upt_rec_numeral)
      then show ?thesis using f(2) a36 by auto
    qed
  qed
  then show thesis using that by blast
qed

text \<open>The statistics count the symbols that are written.\<close>

lemma try_slot_fields:
  assumes "try_slot dist adj = Some flds" "4 \<le> adj" "adj < 64"
  shows "(aligned_field \<in> set flds \<longleftrightarrow> 4 \<le> adj div 2 - 1)
    \<and> (\<forall>f\<in>set flds. fst f = - 1 \<longrightarrow> f = aligned_field)
    \<and> (\<forall>f\<in>set flds. fst f \<noteq> - 1 \<longrightarrow> 0 < snd f \<and> snd f \<le> 64)"
proof -
  define half where "half = adj div 2 - 1"
  have half: "1 \<le> half" "half \<le> 30" using assms(2,3) by (auto simp: half_def)
  show ?thesis
  proof (cases "half < 4")
    case True
    define x where "x = dist - push_bit half (adj mod 2 + 2)"
    have f: "flds = [(of_nat x, half)]" "x < 2 ^ half"
      using assms(1) True half(1) unfolding try_slot_def half_def [symmetric] Let_def x_def
      by (auto split: if_splits)
    have ne: "(of_nat x :: u64) \<noteq> - 1" using of_nat_field(3) [OF f(2)] half by simp
    show ?thesis unfolding half_def [symmetric] using True half f(1) ne by (simp add: aligned_field_def)
  next
    case False
    define x where "x = drop_bit 4 dist AND (2 ^ (half - 4) - 1)"
    have f: "flds = (if half - 4 > 0 then [(of_nat x, half - 4)] else []) @ [aligned_field]"
      using assms(1) False unfolding try_slot_def half_def [symmetric] Let_def x_def
      by (auto split: if_splits)
    have x: "x < 2 ^ (half - 4)"
      unfolding x_def drop_bit_eq_div mask_eq_exp_minus_1 [symmetric] take_bit_eq_mask [symmetric]
      by simp
    have ne: "(of_nat x :: u64) \<noteq> - 1" using of_nat_field(3) [OF x] half by simp
    show ?thesis unfolding half_def [symmetric] using False half f ne by (auto simp: aligned_field_def)
  qed
qed

lemma find_info_slot:
  assumes "\<forall>a\<in>set as. 4 \<le> a \<and> a < 64"
  shows "map_option (\<lambda>(s, e, na). (s, na)) (find_info dist as)
    = map_option (\<lambda>(adj, flds). (adj + 7, 4 \<le> adj div 2 - 1)) (find_slot dist as)"
  using assms
proof (induction as)
  case (Cons a as)
  show ?case
  proof (cases "a div 2 - 1 < 4")
    case True
    then show ?thesis using Cons by (simp add: try_slot_def Let_def)
  next
    case False
    then show ?thesis using Cons by (simp add: try_slot_def Let_def)
  qed
qed simp

end
