(* ===== verification/LzxDecode.thy ===== *)
theory LzxDecode
  imports LzxSymbols RiftCodec
begin

text \<open>
  The decompressor of \<open>src/lzx/decode.rs\<close>: the composite format with its delta-coded code
  lengths, the copies, the walk over the rift segments and the symbol loop. Positions of the
  virtual buffer (reference, then output) are natural numbers below \<open>2 ^ 63\<close>; distances are
  \<open>i64\<close> with the wrap-around of the source. The copy-source map is carried as an optional list
  next to the output, as the source does.
\<close>

section \<open>Code lengths\<close>

text \<open>One pre-tree symbol applied to the lengths decoded so far.\<close>

definition run_count :: "nat \<Rightarrow> bit_reader \<Rightarrow> (nat \<times> bit_reader) result" where
  "run_count run_slot r =
     (if run_slot < 3 then Inr (run_slot + 1, r)
      else
        let extra_bits = run_slot - 1
        in rbind (read_bits r extra_bits) (\<lambda>(extra, r). Inr (push_bit extra_bits 1 OR unat extra, r)))"

definition length_step ::
  "nat list \<Rightarrow> nat list \<Rightarrow> nat \<Rightarrow> bit_reader \<Rightarrow> (nat list \<times> bit_reader) result" where
  "length_step prev res s r =
     (let i = length res
      in if s \<le> 16 then Inr (res @ [s], r)
         else if s < 23 then
           let delta = s - 17
           in rbind (index prev i) (\<lambda>p.
                Inr (res @ [if delta < 3 then (p + delta + 1) mod 256 else (p + 256 - (delta - 2)) mod 256], r))
         else
           let run_sym = s - 23
           in rbind (run_count (run_sym mod 8) r) (\<lambda>(count, r).
                if i + count > total_lengths then Inl (Malformed ''run-length exceeds total lengths'')
                else if run_sym < 8 then
                  (if i = 0 then Inl (Malformed ''run-length at start of lengths'')
                   else Inr (res @ replicate count (last res), r))
                else rbind (index prev (i + count - 1)) (\<lambda>_. Inr (res @ subrange i (i + count) prev, r))))"

lemma length_step_grows: "length_step prev res s r = Inr (res', r') \<Longrightarrow> length res < length res'"
proof -
  have "1 \<le> count" if "run_count k r = Inr (count, r'')" for k count r''
    using that by (auto simp: run_count_def Let_def rbind_eq_Inr push_bit_eq_mult Suc_le_eq or_eq_0_iff
      simp flip: neq0_conv split: if_splits)
  then show "length_step prev res s r = Inr (res', r') \<Longrightarrow> length res < length res'"
    by (fastforce simp: length_step_def Let_def rbind_eq_Inr index_def split: if_splits)
qed

function read_lengths_loop ::
  "huffman_table \<Rightarrow> nat list \<Rightarrow> nat list \<Rightarrow> bit_reader \<Rightarrow> (nat list \<times> bit_reader) result" where
  "read_lengths_loop pretree prev res r =
     (if length res < total_lengths then
        rbind (read_symbol pretree r) (\<lambda>(s, r).
        rbind (length_step prev res (unat s) r) (\<lambda>(res, r). read_lengths_loop pretree prev res r))
      else Inr (res, r))"
  by pat_completeness auto
termination
  by (relation "measure (\<lambda>(p, prev, res, r). total_lengths - length res)")
    (auto dest!: length_step_grows)

declare read_lengths_loop.simps [simp del]

definition read_compression_lengths ::
  "bit_reader \<Rightarrow> huffman_table \<Rightarrow> nat list \<Rightarrow> (nat list \<times> bit_reader) result" where
  "read_compression_lengths r pretree prev =
     rbind (read_lengths_loop pretree prev [] r) (\<lambda>(res, r).
       if \<exists>l\<in>set res. l > 16 then Inl (Malformed ''code length exceeds maximum'') else Inr (res, r))"

section \<open>Composite format\<close>

definition i64_fits :: "int \<Rightarrow> bool" where
  "i64_fits x \<longleftrightarrow> - (2 ^ 63) \<le> x \<and> x < 2 ^ 63"

fun read_boundaries :: "nat \<Rightarrow> i64 \<Rightarrow> bit_reader \<Rightarrow> (u64 list \<times> bit_reader) result" where
  "read_boundaries 0 acc r = Inr ([], r)"
| "read_boundaries (Suc n) acc r =
     rbind (read_i64 r) (\<lambda>(delta, r).
       if i64_fits (sint acc + sint delta) then
         rbind (read_boundaries n (acc + delta) r) (\<lambda>(bs, r). Inr ((acc + delta) # bs, r))
       else Inl (Malformed ''segment boundary overflow''))"

fun read_pretree_lengths :: "nat \<Rightarrow> bit_reader \<Rightarrow> (nat list \<times> bit_reader) result" where
  "read_pretree_lengths 0 r = Inr ([], r)"
| "read_pretree_lengths (Suc n) r =
     rbind (read_bits r 4) (\<lambda>(l, r).
     rbind (read_pretree_lengths n r) (\<lambda>(ls, r). Inr (unat l # ls, r)))"

fun read_segments ::
  "huffman_table \<Rightarrow> nat \<Rightarrow> nat list \<Rightarrow> bit_reader \<Rightarrow> (segment_tables list \<times> bit_reader) result" where
  "read_segments pretree 0 prev r = Inr ([], r)"
| "read_segments pretree (Suc n) prev r =
     rbind (read_compression_lengths r pretree prev) (\<lambda>(lens, r).
     rbind (segment_tables_from_lengths lens) (\<lambda>tables.
     rbind (read_segments pretree n lens r) (\<lambda>(ts, r). Inr (tables # ts, r))))"

definition read_composite_format :: "bit_reader \<Rightarrow> (composite_format \<times> bit_reader) result" where
  "read_composite_format r =
     rbind (read_i64 r) (\<lambda>(num, r).
       let num_segments = unat num
       in if num_segments = 0 \<or> num_segments > 1024 then Inl (Malformed ''invalid segment count'')
          else
            rbind (read_boundaries num_segments 0 r) (\<lambda>(boundaries, r).
            rbind (read_pretree_lengths pretree_symbols r) (\<lambda>(lens, r).
            rbind (from_lengths lens) (\<lambda>pretree.
            rbind (read_segments pretree num_segments (replicate total_lengths 0) r) (\<lambda>(segments, r).
              Inr (\<lparr>cf_segments = segments, cf_boundaries = boundaries\<rparr>, r))))))"

section \<open>Copies\<close>

type_synonym lz_output = "bytes \<times> i64 list option"

abbreviation extend_src :: "i64 list option \<Rightarrow> i64 list \<Rightarrow> i64 list option" where
  "extend_src srcs xs \<equiv> map_option (\<lambda>p. p @ xs) srcs"

text \<open>The byte-by-byte loops: each byte may be one the loop itself has pushed.\<close>

fun copy_forward :: "nat \<Rightarrow> nat \<Rightarrow> 'a list \<Rightarrow> 'a list result" where
  "copy_forward 0 idx out = Inr out"
| "copy_forward (Suc n) idx out =
     rbind (index out idx) (\<lambda>b. copy_forward n (idx + 1) (out @ [b]))"

definition src_result :: "('a list \<Rightarrow> 'a list result) \<Rightarrow> 'a list option \<Rightarrow> 'a list option result" where
  "src_result f srcs = (case srcs of None \<Rightarrow> Inr None | Some p \<Rightarrow> rbind (f p) (\<lambda>p. Inr (Some p)))"

fun copy_from_start :: "nat \<Rightarrow> nat \<Rightarrow> lz_output \<Rightarrow> lz_output result" where
  "copy_from_start 0 i st = Inr st"
| "copy_from_start (Suc n) i (out, srcs) =
     (if i \<ge> length out then Inl (Malformed ''back-reference out of output bounds'')
      else rbind (src_result (copy_forward 1 i) srcs) (\<lambda>srcs.
             copy_from_start n (i + 1) (out @ [out ! i], srcs)))"

definition copy_one ::
  "bytes \<Rightarrow> nat \<Rightarrow> nat \<Rightarrow> i64 \<Rightarrow> nat \<Rightarrow> lz_output \<Rightarrow> lz_output result" where
  "copy_one reference ref_len dst_pos distance len = (\<lambda>(out, srcs).
     let src_start = unat (of_nat dst_pos - distance)
     in if src_start + len < 2 ^ 64 \<and> src_start + len \<le> ref_len then
          if src_start + len > length reference then Inl (Malformed ''source copy out of reference bounds'')
          else Inr (out @ subrange src_start (src_start + len) reference,
                    extend_src srcs (map of_nat [src_start..<src_start + len]))
        else if src_start \<ge> ref_len then
          let out_start = src_start - ref_len
          in if out_start \<ge> length out then Inl (Malformed ''back-reference out of output bounds'')
             else if out_start + len \<le> length out then
               Inr (out @ subrange out_start (out_start + len) out,
                    map_option (\<lambda>p. p @ subrange out_start (out_start + len) p) srcs)
             else
               rbind (copy_forward len out_start out) (\<lambda>out'.
               rbind (src_result (copy_forward len out_start) srcs) (\<lambda>srcs'. Inr (out', srcs')))
        else
          let ref_bytes = ref_len - src_start;
              out_bytes = len - ref_bytes
          in copy_from_start out_bytes 0
               (out @ subrange src_start ref_len reference,
                extend_src srcs (map of_nat [src_start..<ref_len])))"

text \<open>A source copy is re-anchored at every break of the rift table inside it.\<close>

function source_walk ::
  "(i64 \<times> i64) list \<Rightarrow> bytes \<Rightarrow> nat \<Rightarrow> nat \<Rightarrow> nat \<Rightarrow> lz_output \<Rightarrow> lz_output result" where
  "source_walk ort reference ref_len p rest st =
     (if rest > 0 then
        let (seg_off, next_bp) = segment_at ort (of_nat p);
            avail = max (unat next_bp - p) 1;
            chunk = min rest avail
        in rbind (copy_one reference ref_len p (- seg_off) chunk st)
             (\<lambda>st. source_walk ort reference ref_len (p + chunk) (rest - chunk) st)
      else Inr st)"
  by pat_completeness auto
termination
  by (relation "measure (\<lambda>(ort, reference, ref_len, p, rest, st). rest)") auto

declare source_walk.simps [simp del]

section \<open>Symbols\<close>

record lz_state =
  lz_out :: lz_output
  lz_lru :: lru_queue
  lz_pos :: nat

definition symbol_distance :: "nat \<Rightarrow> i64 \<Rightarrow> lru_queue \<Rightarrow> i64 result" where
  "symbol_distance raw_offset rift_offset lru =
     (if raw_offset = source_copy_n then Inr (- rift_offset)
      else if raw_offset < source_copy_n then Inr (of_nat raw_offset - 0x2a000 - rift_offset)
      else if lru_base_n \<le> raw_offset \<and> raw_offset < lru_base_n + 3 then lru_get lru (raw_offset - lru_base_n)
      else Inr (of_nat (raw_offset - raw_offset_base_n)))"

definition apply_symbol ::
  "(i64 \<times> i64) list \<Rightarrow> bytes \<Rightarrow> nat \<Rightarrow> nat \<times> nat \<Rightarrow> lz_state \<Rightarrow> lz_state result" where
  "apply_symbol ort reference end_pos m st =
     (case m of (raw_offset, match_len) \<Rightarrow>
        let pos = lz_pos st; (out, srcs) = lz_out st
        in if match_len = 1 \<and> raw_offset < 256 then
             Inr (st\<lparr>lz_out := (out @ [of_nat raw_offset], extend_src srcs [- 1]), lz_pos := pos + 1\<rparr>)
           else
             let copy_len = min match_len (end_pos - pos);
                 rift_offset = offset_at ort (of_nat pos);
                 ref_len = length reference
             in rbind (symbol_distance raw_offset rift_offset (lz_lru st)) (\<lambda>distance.
                rbind (if raw_offset = source_copy_n
                       then source_walk ort reference ref_len pos copy_len (lz_out st)
                       else copy_one reference ref_len pos distance copy_len (lz_out st)) (\<lambda>out.
                  Inr (st\<lparr>lz_out := out, lz_lru := lru_update (lz_lru st) distance, lz_pos := pos + copy_len\<rparr>))))"

function advance_segment :: "composite_format \<Rightarrow> nat \<Rightarrow> nat \<Rightarrow> nat" where
  "advance_segment f pos seg_idx =
     (if seg_idx + 1 < length (cf_segments f) \<and> seg_idx + 1 < length (cf_boundaries f)
         \<and> pos \<ge> unat (cf_boundaries f ! (seg_idx + 1))
      then advance_segment f pos (seg_idx + 1) else seg_idx)"
  by pat_completeness auto
termination
  by (relation "measure (\<lambda>(f, pos, i). length (cf_segments f) - i)") auto

declare advance_segment.simps [simp del]

lemma lzx_read_symbol_length: "lzx_read_symbol t r = Inr ((raw, l), r') \<Longrightarrow> 1 \<le> l"
  by (auto simp: lzx_read_symbol_def Let_def rbind_eq_Inr split: if_splits)

lemma apply_symbol_pos:
  "apply_symbol ort reference end_pos (raw, l) st = Inr st' \<Longrightarrow>
    lz_pos st' = lz_pos st + (if l = 1 \<and> raw < 256 then 1 else min l (end_pos - lz_pos st))"
  by (auto simp: apply_symbol_def Let_def rbind_eq_Inr split: if_splits prod.splits)

function decompress_loop ::
  "(i64 \<times> i64) list \<Rightarrow> bytes \<Rightarrow> composite_format \<Rightarrow> nat \<Rightarrow> nat \<Rightarrow> lz_state \<Rightarrow> bit_reader \<Rightarrow> lz_state result" where
  "decompress_loop ort reference f end_pos seg_idx st r =
     (if lz_pos st < end_pos then
        if remaining r = 0 then Inl (Malformed ''bitstream exhausted before target filled'')
        else
          let seg_idx = advance_segment f (lz_pos st) seg_idx
          in rbind (index (cf_segments f) seg_idx) (\<lambda>tables.
             rbind (lzx_read_symbol tables r) (\<lambda>(m, r).
             rbind (apply_symbol ort reference end_pos m st) (\<lambda>st.
               decompress_loop ort reference f end_pos seg_idx st r)))
      else Inr st)"
  by pat_completeness auto
termination
proof (relation "measure (\<lambda>(ort, reference, f, e, i, st, r). e - lz_pos st)", goal_cases)
  case (2 ort reference f e i st r j t p m r' st')
  obtain raw l where m: "m = (raw, l)" by (cases m)
  have "1 \<le> l" using 2 m lzx_read_symbol_length by blast
  moreover have "lz_pos st' = lz_pos st + (if l = 1 \<and> raw < 256 then 1 else min l (e - lz_pos st))"
    using 2 m apply_symbol_pos by blast
  ultimately show ?case using 2(1) by auto
qed simp

declare decompress_loop.simps [simp del]

section \<open>The whole\<close>

definition merged_table :: "rift_table \<Rightarrow> rift_table option \<Rightarrow> nat \<Rightarrow> (i64 \<times> i64) list" where
  "merged_table own caller_rift ref_len =
     offset_table (rift_sort (own @ (case caller_rift of None \<Rightarrow> [] | Some es \<Rightarrow> es)
       @ [\<lparr>re_source = of_nat ref_len, re_target = 0\<rparr>]))"

definition decompress_into ::
  "bytes \<Rightarrow> bytes \<Rightarrow> nat \<Rightarrow> rift_table option \<Rightarrow> lz_output \<Rightarrow> lz_output result" where
  "decompress_into reference patch_data out_size caller_rift output =
     (if patch_data = [] then
        if out_size = 0 then Inr output
        else Inl (Malformed ''empty patch data for non-zero target'')
      else
        rbind (reader_new patch_data) (\<lambda>r.
        rbind (rift_from_reader r) (\<lambda>(rift, r).
          let ref_len = length reference;
              ort = merged_table rift caller_rift ref_len
          in rbind (read_bits r 1) (\<lambda>(cf_simple, r).
             rbind (if cf_simple \<noteq> 0
                    then rbind segment_tables_from_flat (\<lambda>t.
                      Inr (\<lparr>cf_segments = [t], cf_boundaries = [- 1]\<rparr>, r))
                    else read_composite_format r) (\<lambda>(f, r).
             rbind (decompress_loop ort reference f (ref_len + out_size) 0
                      \<lparr>lz_out = output, lz_lru = lru_new, lz_pos = ref_len\<rparr> r) (\<lambda>st.
               if length (fst (lz_out st)) \<noteq> out_size then Inl (Malformed ''output size mismatch'')
               else Inr (lz_out st)))))))"

definition decompress_with_rift :: "bytes \<Rightarrow> bytes \<Rightarrow> nat \<Rightarrow> rift_table option \<Rightarrow> bytes result" where
  "decompress_with_rift reference patch_data out_size caller_rift =
     rbind (decompress_into reference patch_data out_size caller_rift ([], None)) (\<lambda>(out, _). Inr out)"

definition decompress_with_copy_source ::
  "bytes \<Rightarrow> bytes \<Rightarrow> nat \<Rightarrow> rift_table option \<Rightarrow> (bytes \<times> i64 list) result" where
  "decompress_with_copy_source reference patch_data out_size caller_rift =
     rbind (decompress_into reference patch_data out_size caller_rift ([], Some [])) (\<lambda>(out, srcs).
       Inr (out, the srcs))"

definition decompress :: "bytes \<Rightarrow> bytes \<Rightarrow> nat \<Rightarrow> bytes result" where
  "decompress reference patch_data out_size = decompress_with_rift reference patch_data out_size None"

section \<open>Copies as equations of the virtual buffer\<close>

lemma copy_forward_spec:
  "idx < length out \<Longrightarrow> \<exists>out'. copy_forward n idx out = Inr out' \<and> length out' = length out + n
     \<and> take (length out) out' = out \<and> (\<forall>k<n. out' ! (length out + k) = out' ! (idx + k))"
proof (induction n arbitrary: idx out)
  case (Suc n)
  define o1 where "o1 = out @ [out ! idx]"
  from Suc.IH [of "idx + 1" o1] Suc.prems obtain out' where
    o: "copy_forward n (idx + 1) o1 = Inr out'" "length out' = length o1 + n" "take (length o1) out' = o1"
      "\<forall>k<n. out' ! (length o1 + k) = out' ! (idx + 1 + k)" by (auto simp: o1_def)
  have at: "out' ! j = o1 ! j" if "j < length o1" for j
    using o(3) that by (metis nth_take)
  have "take (length out) out' = take (length out) (take (length o1) out')" by (simp add: o1_def)
  then have "take (length out) out' = out" unfolding o(3) by (simp add: o1_def)
  moreover have "out' ! (length out + k) = out' ! (idx + k)" if "k < Suc n" for k
  proof (cases k)
    case 0
    then show ?thesis using at [of "length out"] at [of idx] Suc.prems by (simp add: o1_def nth_append)
  next
    case (Suc j)
    then show ?thesis using o(4) that by (simp add: o1_def)
  qed
  ultimately show ?case using o Suc.prems by (auto simp: o1_def)
qed simp

lemma src_result_ok: "(\<And>p. srcs = Some p \<Longrightarrow> \<exists>p'. f p = Inr p') \<Longrightarrow> \<exists>s. src_result f srcs = Inr s"
  by (cases srcs) (auto simp: src_result_def)

abbreviation src_len :: "lz_output \<Rightarrow> bool" where
  "src_len st \<equiv> (case snd st of None \<Rightarrow> True | Some p \<Rightarrow> length p = length (fst st))"

lemma copy_from_start_spec:
  "i < length out \<Longrightarrow> src_len (out, srcs) \<Longrightarrow>
    \<exists>srcs'. copy_from_start n i (out, srcs) = rbind (copy_forward n i out) (\<lambda>out'. Inr (out', srcs'))"
proof (induction n arbitrary: i out srcs)
  case 0
  then show ?case by simp
next
  case (Suc n)
  obtain s1 where s1: "src_result (copy_forward 1 i) srcs = Inr s1"
    "s1 = (case srcs of None \<Rightarrow> None | Some p \<Rightarrow> Some (p @ [p ! i]))"
    using Suc.prems by (cases srcs) (auto simp: src_result_def)
  have "src_len (out @ [out ! i], s1)" using Suc.prems s1(2) by (auto split: option.splits)
  from Suc.IH [OF _ this, of "i + 1"] Suc.prems(1) s1(1) show ?case by auto
qed

text \<open>
  What a copy of \<open>len\<close> bytes from \<open>start\<close> means: every new byte equals the byte \<open>pos - start\<close>
  before it, in the reference or in the output.
\<close>

definition window_copy :: "bytes \<Rightarrow> bytes \<Rightarrow> nat \<Rightarrow> nat \<Rightarrow> bytes \<Rightarrow> bool" where
  "window_copy reference out start len out' \<longleftrightarrow>
     length out' = length out + len \<and> take (length out) out' = out
     \<and> (\<forall>k<len. out' ! (length out + k) = (reference @ out') ! (start + k))"

lemma window_copyI:
  "length ext = len \<Longrightarrow> (\<And>k. k < len \<Longrightarrow> ext ! k = (reference @ out @ ext) ! (start + k)) \<Longrightarrow>
    window_copy reference out start len (out @ ext)"
  by (simp add: window_copy_def)

lemma src_start_eq:
  assumes "start \<le> pos" "pos < 2 ^ 63"
  shows "unat (of_nat pos - of_nat (pos - start) :: u64) = start"
proof -
  have "(of_nat pos - of_nat (pos - start) :: u64) = of_nat start"
    using assms(1) by (simp add: of_nat_diff)
  then show ?thesis using assms by (simp add: unat_of_nat)
qed

lemma copy_one_window:
  assumes pos: "pos = length reference + length out" "pos + len < 2 ^ 63" and start: "start < pos"
    and sl: "src_len (out, srcs)"
  shows "\<exists>out' srcs'. copy_one reference (length reference) pos (of_nat (pos - start)) len (out, srcs) = Inr (out', srcs')
    \<and> window_copy reference out start len out'"
proof -
  let ?R = "length reference"
  have ss: "unat (of_nat pos - of_nat (pos - start) :: u64) = start"
    by (rule src_start_eq) (use pos start in auto)
  have sm: "start + len < 2 ^ 64" using pos start by simp
  consider (ref) "start + len \<le> ?R" | (out) "?R \<le> start" "\<not> start + len \<le> ?R"
    | (span) "start < ?R" "\<not> start + len \<le> ?R" by linarith
  then show ?thesis
  proof cases
    case ref
    then have "window_copy reference out start len (out @ subrange start (start + len) reference)"
      by (intro window_copyI) (auto simp: nth_append nth_subrange)
    then show ?thesis using ref sm by (simp add: copy_one_def ss Let_def)
  next
    case out
    define o0 where "o0 = start - ?R"
    have o0: "start = ?R + o0" "o0 < length out" using out(1) start pos(1) by (simp_all add: o0_def)
    show ?thesis
    proof (cases "o0 + len \<le> length out")
      case True
      have "window_copy reference out start len (out @ subrange o0 (o0 + len) out)"
        using True o0 by (intro window_copyI) (auto simp: nth_append nth_subrange)
      then show ?thesis using out True o0(2) by (simp add: copy_one_def ss Let_def flip: o0_def)
    next
      case False
      obtain out' where c: "copy_forward len o0 out = Inr out'" "length out' = length out + len"
        "take (length out) out' = out" "\<forall>k<len. out' ! (length out + k) = out' ! (o0 + k)"
        using copy_forward_spec [OF o0(2)] by blast
      have "\<exists>s. src_result (copy_forward len o0) srcs = Inr s"
      proof (rule src_result_ok)
        fix p assume "srcs = Some p"
        then have "o0 < length p" using sl o0(2) by simp
        then show "\<exists>p'. copy_forward len o0 p = Inr p'" using copy_forward_spec by blast
      qed
      then obtain s where "src_result (copy_forward len o0) srcs = Inr s" by blast
      moreover have "window_copy reference out start len out'"
        using c o0(1) by (simp add: window_copy_def nth_append)
      ultimately show ?thesis using out False o0(2) c(1) by (simp add: copy_one_def ss Let_def flip: o0_def)
    qed
  next
    case span
    define rb where "rb = ?R - start"
    define o1 where "o1 = out @ subrange start ?R reference"
    define s1 where "s1 = extend_src srcs (map of_nat [start..<?R])"
    have rb: "0 < rb" "rb < len" "start + rb = ?R" using span by (simp_all add: rb_def)
    have l1: "length o1 = length out + rb" using span(1) by (simp add: o1_def rb_def)
    have "src_len (o1, s1)" using sl l1 by (auto simp: s1_def rb_def split: option.splits)
    moreover obtain out' where c: "copy_forward (len - rb) 0 o1 = Inr out'" "length out' = length o1 + (len - rb)"
        "take (length o1) out' = o1" "\<forall>k<len - rb. out' ! (length o1 + k) = out' ! k"
      using copy_forward_spec [of 0 o1 "len - rb"] l1 rb(1) by auto
    ultimately obtain s where "copy_from_start (len - rb) 0 (o1, s1) = Inr (out', s)"
      using copy_from_start_spec [of 0 o1 s1 "len - rb"] l1 rb(1) by auto
    moreover have "window_copy reference out start len out'"
      unfolding window_copy_def
    proof (intro conjI allI impI)
      show "length out' = length out + len" using c(2) l1 rb by simp
      have "take (length out) (take (length o1) out') = take (length out) o1" using c(3) by simp
      then show "take (length out) out' = out" by (simp add: l1 o1_def)
      fix k assume k: "k < len"
      show "out' ! (length out + k) = (reference @ out') ! (start + k)"
      proof (cases "k < rb")
        case True
        have "out' ! (length out + k) = o1 ! (length out + k)"
          using c(3) True l1 by (metis add_less_cancel_left nth_take)
        then show ?thesis using True rb by (simp add: o1_def nth_append nth_subrange)
      next
        case False
        then have "k - rb < len - rb" using k by simp
        then have "out' ! (length o1 + (k - rb)) = out' ! (k - rb)" using c(4) by blast
        moreover have "length o1 + (k - rb) = length out + k" "start + k = ?R + (k - rb)"
          using False l1 rb(3) by linarith+
        ultimately show ?thesis by simp
      qed
    qed
    ultimately show ?thesis using span sm
      by (simp add: copy_one_def ss Let_def flip: rb_def s1_def o1_def)
  qed
qed

text \<open>Such a copy reproduces a target that repeats itself in the same way.\<close>

lemma window_copy_target:
  assumes w: "window_copy reference (take i target) start len out'"
    and i: "i + len \<le> length target" "start < length reference + i"
    and rep: "\<And>k. k < len \<Longrightarrow> (reference @ target) ! (length reference + i + k) = (reference @ target) ! (start + k)"
  shows "out' = take (i + len) target"
proof -
  have ti: "length (take i target) = i" using i by simp
  have W: "length out' = i + len" "take i out' = take i target"
    "\<And>k. k < len \<Longrightarrow> out' ! (i + k) = (reference @ out') ! (start + k)"
    using w unfolding window_copy_def ti by blast+
  have "j < i + len \<longrightarrow> out' ! j = target ! j" for j
  proof (induction j rule: less_induct)
    case (less j)
    show ?case
    proof (intro impI, cases "j < i")
      case True
      then show "out' ! j = target ! j" using W(2) by (metis nth_take)
    next
      case False
      assume j: "j < i + len"
      define k where "k = j - i"
      have k: "j = i + k" "k < len" using False j by (simp_all add: k_def)
      have "out' ! j = (reference @ out') ! (start + k)" using W(3) k by simp
      also have "\<dots> = (reference @ target) ! (start + k)"
        using less.IH [of "start + k - length reference"] k i(2) j by (auto simp: nth_append)
      also have "\<dots> = target ! j" using rep [OF k(2)] k(1) by (simp add: nth_append)
      finally show "out' ! j = target ! j" .
    qed
  qed
  then show ?thesis using W(1) i(1) by (intro nth_equalityI) auto
qed

section \<open>Provenance\<close>

text \<open>
  Every entry of the copy-source map is \<open>-1\<close> or the offset of a reference byte equal to the
  output byte; the map is as long as the output.
\<close>

definition from_ref :: "bytes \<Rightarrow> u8 \<Rightarrow> i64 \<Rightarrow> bool" where
  "from_ref reference b s \<longleftrightarrow> s = - 1 \<or> (\<exists>k<length reference. s = of_nat k \<and> reference ! k = b)"

definition prov_ok :: "bytes \<Rightarrow> lz_output \<Rightarrow> bool" where
  "prov_ok reference st \<longleftrightarrow> (case snd st of None \<Rightarrow> False | Some p \<Rightarrow> list_all2 (from_ref reference) (fst st) p)"

lemma prov_ok_len: "prov_ok reference st \<Longrightarrow> src_len st"
  by (auto simp: prov_ok_def list_all2_lengthD split: option.splits)

lemma prov_ref:
  assumes "b \<le> length reference"
  shows "list_all2 (from_ref reference) (subrange a b reference) (map of_nat [a..<b])"
proof (rule list_all2_all_nthI)
  fix i assume "i < length (subrange a b reference)"
  then have "a + i < length reference" "subrange a b reference ! i = reference ! (a + i)"
    "map of_nat [a..<b] ! i = (of_nat (a + i) :: i64)"
    using assms by (simp_all add: nth_subrange)
  then show "from_ref reference (subrange a b reference ! i) (map of_nat [a..<b] ! i)"
    unfolding from_ref_def by metis
qed (use assms in simp)

lemma prov_sub: "list_all2 P xs ys \<Longrightarrow> list_all2 P (subrange a b xs) (subrange a b ys)"
  by (simp add: subrange_def list_all2_takeI list_all2_dropI)

lemma prov_forward:
  "list_all2 P out p \<Longrightarrow> copy_forward n i out = Inr out' \<Longrightarrow>
    \<exists>p'. copy_forward n i p = Inr p' \<and> list_all2 P out' p'"
proof (induction n arbitrary: i out p)
  case (Suc n)
  then have i: "i < length out" "i < length p"
    by (auto simp: index_def list_all2_lengthD dest: list_all2_lengthD split: if_splits)
  have "list_all2 P (out @ [out ! i]) (p @ [p ! i])"
    using Suc.prems(1) i by (auto intro: list_all2_appendI list_all2_nthD)
  with Suc.IH [of "out @ [out ! i]" "p @ [p ! i]" "i + 1"] Suc.prems(2) i show ?case by simp
qed simp

lemma prov_from_start:
  "prov_ok reference st \<Longrightarrow> copy_from_start n i st = Inr st' \<Longrightarrow> prov_ok reference st'"
proof (induction n i st rule: copy_from_start.induct)
  case (2 n i out srcs)
  then have i: "i < length out" by (auto split: if_splits)
  show ?case
  proof (cases srcs)
    case None
    then show ?thesis using 2 i by (auto simp: src_result_def prov_ok_def)
  next
    case (Some p)
    then have "list_all2 (from_ref reference) out p" using 2 by (simp add: prov_ok_def)
    then have "i < length p" "list_all2 (from_ref reference) (out @ [out ! i]) (p @ [p ! i])"
      using i by (auto intro: list_all2_appendI list_all2_nthD dest: list_all2_lengthD)
    then show ?thesis using 2 i Some by (auto simp: src_result_def prov_ok_def)
  qed
qed simp

lemma copy_one_prov:
  assumes ok: "prov_ok reference st" and c: "copy_one reference (length reference) pos d len st = Inr st'"
  shows "prov_ok reference st'"
proof -
  obtain out srcs where st: "st = (out, srcs)" by (cases st)
  let ?R = "length reference"
  define s where "s = unat (of_nat pos - d)"
  consider (ref) "s + len < 2 ^ 64 \<and> s + len \<le> ?R"
    | (out) "\<not> (s + len < 2 ^ 64 \<and> s + len \<le> ?R)" "?R \<le> s"
    | (span) "\<not> (s + len < 2 ^ 64 \<and> s + len \<le> ?R)" "\<not> ?R \<le> s" by blast
  then show ?thesis
  proof cases
    case ref
    then have "st' = (out @ subrange s (s + len) reference, extend_src srcs (map of_nat [s..<s + len]))"
      using c by (simp add: st copy_one_def Let_def flip: s_def)
    then show ?thesis using ok ref prov_ref [of "s + len" reference s]
      by (cases srcs) (auto simp: st prov_ok_def list_all2_appendI)
  next
    case out
    define o0 where "o0 = s - ?R"
    have e: "copy_one reference ?R pos d len st = (if o0 \<ge> length out then Inl (Malformed ''back-reference out of output bounds'')
             else if o0 + len \<le> length out then
               Inr (out @ subrange o0 (o0 + len) out, map_option (\<lambda>p. p @ subrange o0 (o0 + len) p) srcs)
             else
               rbind (copy_forward len o0 out) (\<lambda>out'.
               rbind (src_result (copy_forward len o0) srcs) (\<lambda>src'. Inr (out', src'))))"
      using out unfolding st copy_one_def prod.case Let_def s_def [symmetric] o0_def [symmetric]
      by (simp only: if_False if_True)
    show ?thesis
    proof (cases srcs)
      case None
      then show ?thesis using ok by (simp add: st prov_ok_def)
    next
      case (Some p)
      then have ap: "list_all2 (from_ref reference) out p" using ok by (simp add: st prov_ok_def)
      have lo: "\<not> length out \<le> o0" using c unfolding e by (auto split: if_splits)
      show ?thesis
      proof (cases "o0 + len \<le> length out")
        case True
        then show ?thesis using c lo Some prov_sub [OF ap, of o0 "o0 + len"] ap
          unfolding e by (auto simp: prov_ok_def list_all2_appendI)
      next
        case False
        with c lo obtain out' where o: "copy_forward len o0 out = Inr out'"
          unfolding e by (auto elim!: rbind_eq_InrE)
        from prov_forward [OF ap o] c lo False o Some show ?thesis
          unfolding e by (auto simp: prov_ok_def src_result_def)
      qed
    qed
  next
    case span
    have "copy_from_start (len - (?R - s)) 0 (out @ subrange s ?R reference, extend_src srcs (map of_nat [s..<?R])) = Inr st'"
      using c span unfolding st copy_one_def prod.case Let_def s_def [symmetric] by (simp only: if_False)
    moreover have "prov_ok reference (out @ subrange s ?R reference, extend_src srcs (map of_nat [s..<?R]))"
      using ok prov_ref [of ?R reference s] by (cases srcs) (auto simp: st prov_ok_def list_all2_appendI)
    ultimately show ?thesis by (rule prov_from_start [rotated])
  qed
qed

lemma source_walk_prov:
  "prov_ok reference st \<Longrightarrow> source_walk ort reference (length reference) p n st = Inr st' \<Longrightarrow> prov_ok reference st'"
proof (induction n arbitrary: p st rule: less_induct)
  case (less rest)
  show ?case
  proof (cases "rest > 0")
    case False
    then show ?thesis using less.prems by (simp add: source_walk.simps)
  next
    case True
    obtain off bp where s: "segment_at ort (of_nat p) = (off, bp)" by (cases "segment_at ort (of_nat p)")
    define chunk where "chunk = min rest (max (unat bp - p) 1)"
    obtain st1 where c: "copy_one reference (length reference) p (- off) chunk st = Inr st1"
      "source_walk ort reference (length reference) (p + chunk) (rest - chunk) st1 = Inr st'"
      using less.prems(2) True by (subst (asm) source_walk.simps) (auto simp: s Let_def chunk_def elim!: rbind_eq_InrE)
    have "prov_ok reference st1" by (rule copy_one_prov [OF less.prems(1) c(1)])
    moreover have "rest - chunk < rest" using True by (simp add: chunk_def)
    ultimately show ?thesis using less.IH c(2) by blast
  qed
qed

lemma apply_symbol_prov:
  assumes ok: "prov_ok reference (lz_out st)" and a: "apply_symbol ort reference e m st = Inr st'"
  shows "prov_ok reference (lz_out st')"
proof -
  obtain raw l where m: "m = (raw, l)" by (cases m)
  obtain out srcs where o: "lz_out st = (out, srcs)" by (cases "lz_out st")
  show ?thesis
  proof (cases "l = 1 \<and> raw < 256")
    case True
    then have "lz_out st' = (out @ [of_nat raw], extend_src srcs [- 1])"
      using a by (auto simp: apply_symbol_def m o Let_def)
    then show ?thesis using ok by (cases srcs) (auto simp: prov_ok_def o from_ref_def list_all2_appendI)
  next
    case False
    let ?n = "min l (e - lz_pos st)"
    obtain d where "(if raw = source_copy_n
        then source_walk ort reference (length reference) (lz_pos st) ?n (lz_out st)
        else copy_one reference (length reference) (lz_pos st) d ?n (lz_out st)) = Inr (lz_out st')"
      using a False by (auto simp: apply_symbol_def m o Let_def elim!: rbind_eq_InrE)
    then show ?thesis using source_walk_prov [OF ok] copy_one_prov [OF ok] by (auto split: if_splits)
  qed
qed

lemma decompress_loop_prov:
  "prov_ok reference (lz_out st) \<Longrightarrow> decompress_loop ort reference f e i st r = Inr st' \<Longrightarrow>
    prov_ok reference (lz_out st')"
proof (induction ort reference f e i st r rule: decompress_loop.induct)
  case (1 ort reference f e i st r)
  show ?case
  proof (cases "lz_pos st < e")
    case False
    then show ?thesis using 1 by (simp add: decompress_loop.simps)
  next
    case True
    let ?i = "advance_segment f (lz_pos st) i"
    obtain t m r1 st1 where s: "remaining r \<noteq> 0" "index (cf_segments f) ?i = Inr t"
      "lzx_read_symbol t r = Inr (m, r1)" "apply_symbol ort reference e m st = Inr st1"
      "decompress_loop ort reference f e ?i st1 r1 = Inr st'"
      using "1.prems"(2) True by (subst (asm) decompress_loop.simps)
        (auto simp: Let_def elim!: rbind_eq_InrE split: if_splits)
    have "prov_ok reference (lz_out st1)" by (rule apply_symbol_prov [OF "1.prems"(1) s(4)])
    then show ?thesis using "1.IH" [OF True s(1) refl s(2,3) refl s(4)] s(5) by blast
  qed
qed

lemma decompress_into_prov:
  assumes ok: "prov_ok reference out" and d: "decompress_into reference patch n rift out = Inr out'"
  shows "prov_ok reference out'" "length (fst out') = n \<or> patch = []"
proof -
  show "prov_ok reference out'"
  proof (cases "patch = []")
    case True
    then show ?thesis using ok d by (simp add: decompress_into_def split: if_splits)
  next
    case False
    with d obtain ort f e r st' where "decompress_loop ort reference f e 0
        \<lparr>lz_out = out, lz_lru = lru_new, lz_pos = length reference\<rparr> r = Inr st'" "lz_out st' = out'"
      by (auto simp: decompress_into_def Let_def elim!: rbind_eq_InrE split: if_splits)
    then show ?thesis using decompress_loop_prov [of reference "\<lparr>lz_out = out, lz_lru = lru_new, lz_pos = length reference\<rparr>"] ok
      by auto
  qed
  show "length (fst out') = n \<or> patch = []"
    using d by (auto simp: decompress_into_def Let_def elim!: rbind_eq_InrE split: if_splits)
qed

section \<open>The map does not influence the output\<close>

abbreviation without_src :: "lz_output \<Rightarrow> lz_output" where
  "without_src st \<equiv> (fst st, None)"

abbreviation drop_src :: "lz_state \<Rightarrow> lz_state" where
  "drop_src st \<equiv> st\<lparr>lz_out := without_src (lz_out st)\<rparr>"

definition same_output :: "lz_output result \<Rightarrow> lz_output result \<Rightarrow> bool" where
  "same_output x y \<longleftrightarrow> (case x of Inl e \<Rightarrow> y = Inl e | Inr a \<Rightarrow> src_len a \<and> y = Inr (without_src a))"

lemma same_output_simps [simp]:
  "same_output (Inl e) y \<longleftrightarrow> y = Inl e"
  "same_output (Inr a) y \<longleftrightarrow> src_len a \<and> y = Inr (without_src a)"
  by (auto simp: same_output_def)

lemma from_start_same:
  "src_len st \<Longrightarrow> same_output (copy_from_start n i st) (copy_from_start n i (without_src st))"
proof (induction n i st rule: copy_from_start.induct)
  case (2 n i out srcs)
  show ?case
  proof (cases "i < length out")
    case True
    obtain s' where "src_result (copy_forward 1 i) srcs = Inr s'" "src_len (out @ [out ! i], s')"
      using True "2.prems" by (cases srcs) (auto simp: src_result_def)
    with "2.IH" [of s'] True show ?thesis by (simp add: src_result_def)
  qed simp
qed simp

lemma copy_one_same:
  assumes st: "src_len st" and rl: "rl = length reference"
  shows "same_output (copy_one reference rl pos d len st) (copy_one reference rl pos d len (without_src st))"
proof -
  obtain out srcs where o: "st = (out, srcs)" by (cases st)
  define s where "s = unat (of_nat pos - d)"
  define o0 where "o0 = s - rl"
  note eq = copy_one_def prod.case Let_def s_def [symmetric] o0_def [symmetric] o fst_conv
  consider (ref) "s + len < 2 ^ 64 \<and> s + len \<le> rl"
    | (out) "\<not> (s + len < 2 ^ 64 \<and> s + len \<le> rl)" "rl \<le> s"
    | (span) "\<not> (s + len < 2 ^ 64 \<and> s + len \<le> rl)" "\<not> rl \<le> s" by blast
  then show ?thesis
  proof cases
    case ref
    then show ?thesis using st unfolding eq
      by (cases srcs) (simp_all add: length_subrange)
  next
    case out
    consider (bad) "o0 \<ge> length out" | (sub) "\<not> o0 \<ge> length out" "o0 + len \<le> length out"
      | (fwd) "\<not> o0 \<ge> length out" "\<not> o0 + len \<le> length out" by blast
    then show ?thesis
    proof cases
      case sub
      then show ?thesis using out st unfolding eq
        by (simp only: if_not_P if_P) (cases srcs; simp add: length_subrange)
    next
      case fwd
      obtain out' where O: "copy_forward len o0 out = Inr out'" "length out' = length out + len"
        using copy_forward_spec [of o0 out len] fwd by auto
      have "\<exists>s'. src_result (copy_forward len o0) srcs = Inr s' \<and> src_len (out', s')"
      proof (cases srcs)
        case (Some a)
        then have "o0 < length a" "length a = length out" using fwd st o by simp_all
        with copy_forward_spec [of o0 a len] Some O(2) show ?thesis by (auto simp: src_result_def)
      qed (simp add: src_result_def)
      then obtain s' where "src_result (copy_forward len o0) srcs = Inr s'" "src_len (out', s')" by blast
      moreover have "src_result (copy_forward len o0) (None :: i64 list option) = Inr None" by (simp add: src_result_def)
      ultimately show ?thesis using out fwd O unfolding eq
        by (simp only: if_not_P if_P) (simp split: option.splits)
    qed (use out in \<open>unfold eq, auto\<close>)
  next
    case span
    have "src_len (out @ subrange s rl reference, extend_src srcs (map of_nat [s..<rl]))"
      using st span rl by (cases srcs) (simp_all add: o length_subrange)
    from from_start_same [OF this, of "len - (rl - s)" 0] show ?thesis using span unfolding eq
      by (simp only: if_False) simp
  qed
qed

lemma same_output_bind:
  assumes "same_output x y" "\<And>a. src_len a \<Longrightarrow> same_output (f a) (g (without_src a))"
  shows "same_output (rbind x f) (rbind y g)"
  using assms by (cases x) auto

lemma source_walk_same:
  "src_len st \<Longrightarrow> rl = length reference \<Longrightarrow>
    same_output (source_walk ort reference rl p n st) (source_walk ort reference rl p n (without_src st))"
proof (induction n arbitrary: p st rule: less_induct)
  case (less rest)
  show ?case
  proof (cases "rest > 0")
    case False
    then show ?thesis using less.prems by (simp add: source_walk.simps)
  next
    case True
    obtain off bp where s: "segment_at ort (of_nat p) = (off, bp)" by (cases "segment_at ort (of_nat p)")
    define chunk where "chunk = min rest (max (unat bp - p) 1)"
    have w: "source_walk ort reference rl p rest st =
        rbind (copy_one reference rl p (- off) chunk st) (\<lambda>st. source_walk ort reference rl (p + chunk) (rest - chunk) st)" for st
      using True by (subst source_walk.simps) (simp add: s Let_def chunk_def)
    have "rest - chunk < rest" using True by (simp add: chunk_def)
    with less show ?thesis unfolding w by (intro same_output_bind copy_one_same) simp_all
  qed
qed

definition same_state :: "lz_state result \<Rightarrow> lz_state result \<Rightarrow> bool" where
  "same_state x y \<longleftrightarrow> (case x of Inl e \<Rightarrow> y = Inl e | Inr a \<Rightarrow> src_len (lz_out a) \<and> y = Inr (drop_src a))"

lemma same_state_simps [simp]:
  "same_state (Inl e) y \<longleftrightarrow> y = Inl e"
  "same_state (Inr a) y \<longleftrightarrow> src_len (lz_out a) \<and> y = Inr (drop_src a)"
  by (auto simp: same_state_def)

lemma same_state_bind:
  assumes "same_output x y" "\<And>a. src_len a \<Longrightarrow> same_state (f a) (g (without_src a))"
  shows "same_state (rbind x f) (rbind y g)"
  using assms by (cases x) auto

lemma apply_match_eq:
  "\<not> (l = 1 \<and> raw < 256) \<Longrightarrow> apply_symbol ort reference e (raw, l) st =
     rbind (symbol_distance raw (offset_at ort (of_nat (lz_pos st))) (lz_lru st)) (\<lambda>distance.
       rbind (if raw = source_copy_n
              then source_walk ort reference (length reference) (lz_pos st) (min l (e - lz_pos st)) (lz_out st)
              else copy_one reference (length reference) (lz_pos st) distance (min l (e - lz_pos st)) (lz_out st))
         (\<lambda>out. Inr (st\<lparr>lz_out := out, lz_lru := lru_update (lz_lru st) distance,
            lz_pos := lz_pos st + min l (e - lz_pos st)\<rparr>)))"
  by (cases "lz_out st") (auto simp: apply_symbol_def Let_def)

lemma apply_symbol_same:
  assumes st: "src_len (lz_out st)"
  shows "same_state (apply_symbol ort reference e m st) (apply_symbol ort reference e m (drop_src st))"
proof -
  obtain raw l where m: "m = (raw, l)" by (cases m)
  obtain out srcs where o: "lz_out st = (out, srcs)" by (cases "lz_out st")
  show ?thesis
  proof (cases "l = 1 \<and> raw < 256")
    case True
    then show ?thesis using st by (cases srcs) (auto simp: apply_symbol_def m o Let_def)
  next
    case False
    let ?n = "min l (e - lz_pos st)"
    have sw: "same_output (source_walk ort reference (length reference) (lz_pos st) ?n (lz_out st))
        (source_walk ort reference (length reference) (lz_pos st) ?n (without_src (lz_out st)))"
      by (rule source_walk_same [OF st refl])
    have co: "same_output (copy_one reference (length reference) (lz_pos st) d ?n (lz_out st))
        (copy_one reference (length reference) (lz_pos st) d ?n (without_src (lz_out st)))" for d
      by (rule copy_one_same [OF st refl])
    show ?thesis unfolding m apply_match_eq [OF False]
      by (cases "symbol_distance raw (offset_at ort (of_nat (lz_pos st))) (lz_lru st)")
        (auto intro!: same_state_bind sw co split: option.splits)
  qed
qed

lemma decompress_loop_same:
  "src_len (lz_out st) \<Longrightarrow>
    same_state (decompress_loop ort reference f e i st r) (decompress_loop ort reference f e i (drop_src st) r)"
proof (induction ort reference f e i st r rule: decompress_loop.induct)
  case (1 ort reference f e i st r)
  show ?case
  proof (cases "lz_pos st < e \<and> remaining r \<noteq> 0")
    case False
    then show ?thesis using "1.prems" by (subst (1 2) decompress_loop.simps) auto
  next
    case True
    let ?i = "advance_segment f (lz_pos st) i"
    have u: "decompress_loop ort reference f e i s r = rbind (index (cf_segments f) ?i) (\<lambda>t.
        rbind (lzx_read_symbol t r) (\<lambda>(m, r). rbind (apply_symbol ort reference e m s) (\<lambda>s.
          decompress_loop ort reference f e ?i s r)))" if "lz_pos s = lz_pos st" for s
      using True that by (subst decompress_loop.simps) (simp add: Let_def)
    show ?thesis
    proof (cases "index (cf_segments f) ?i")
      case (Inr t)
      show ?thesis
      proof (cases "lzx_read_symbol t r")
        case R: (Inr p)
        obtain m r1 where p: "p = (m, r1)" by (cases p)
        note A = apply_symbol_same [OF "1.prems", of ort reference e m]
        show ?thesis
        proof (cases "apply_symbol ort reference e m st")
          case S: (Inr st1)
          have "src_len (lz_out st1)" "apply_symbol ort reference e m (drop_src st) = Inr (drop_src st1)"
            using A by (simp_all add: S)
          with "1.IH" [OF conjunct1 [OF True] conjunct2 [OF True] refl Inr R p [symmetric] S] show ?thesis
            by (simp add: u Inr R p S)
        qed (use A in \<open>simp add: u Inr R p\<close>)
      qed (simp add: u Inr)
    qed (simp add: u)
  qed
qed

lemma decompress_into_same:
  assumes st: "src_len out"
  shows "same_output (decompress_into reference patch n rift out) (decompress_into reference patch n rift (without_src out))"
proof (cases "patch = []")
  case True
  then show ?thesis using st by (simp add: decompress_into_def)
next
  case False
  have loop: "same_state (decompress_loop ort reference f e 0 \<lparr>lz_out = out, lz_lru = lru_new, lz_pos = p\<rparr> r)
      (decompress_loop ort reference f e 0 \<lparr>lz_out = without_src out, lz_lru = lru_new, lz_pos = p\<rparr> r)" for ort f e p r
    using decompress_loop_same [of "\<lparr>lz_out = out, lz_lru = lru_new, lz_pos = p\<rparr>"] st
    by (cases "snd out") simp_all
  have fin: "same_output
      (rbind (decompress_loop ort reference f e 0 \<lparr>lz_out = out, lz_lru = lru_new, lz_pos = p\<rparr> r) (\<lambda>st.
        if length (fst (lz_out st)) \<noteq> n then Inl msg else Inr (lz_out st)))
      (rbind (decompress_loop ort reference f e 0 \<lparr>lz_out = without_src out, lz_lru = lru_new, lz_pos = p\<rparr> r) (\<lambda>st.
        if length (fst (lz_out st)) \<noteq> n then Inl msg else Inr (lz_out st)))" for ort f e p r msg
    using loop [of ort f e p r] by (auto simp: same_state_def split: sum.splits)
  have bind: "same_output (rbind a f) (rbind a g)" if "\<And>x. same_output (f x) (g x)"
    for a :: "'c result" and f g :: "'c \<Rightarrow> lz_output result"
    using that by (cases a) simp_all
  show ?thesis unfolding decompress_into_def if_not_P [OF False] Let_def
    by (intro bind) (auto split: prod.split intro!: bind fin)
qed

section \<open>A parse of the target and its stream\<close>

text \<open>
  A match is right at output index \<open>i\<close> when its distance, as the decoder resolves it, leads to
  an earlier byte of the buffer \<open>reference @ target\<close> from which the next \<open>len\<close> bytes repeat, and
  a source copy ends within its rift segment.
\<close>

definition match_right ::
  "(i64 \<times> i64) list \<Rightarrow> bytes \<Rightarrow> bytes \<Rightarrow> nat \<Rightarrow> lru_queue \<Rightarrow> nat \<times> nat \<Rightarrow> i64 \<Rightarrow> bool" where
  "match_right ort reference target i lru m dist \<longleftrightarrow>
     (let pos = length reference + i
      in 2 \<le> snd m \<and> i + snd m \<le> length target
         \<and> symbol_distance (fst m) (offset_at ort (of_nat pos)) lru = Inr dist
         \<and> (fst m = source_copy_n \<longrightarrow> pos + snd m \<le> unat (snd (segment_at ort (of_nat pos))))
         \<and> (\<exists>start<pos. dist = of_nat (pos - start)
              \<and> (\<forall>k. k < snd m \<longrightarrow> (reference @ target) ! (pos + k) = (reference @ target) ! (start + k))))"

fun parses ::
  "(i64 \<times> i64) list \<Rightarrow> bytes \<Rightarrow> bytes \<Rightarrow> nat \<Rightarrow> lru_queue \<Rightarrow> (nat \<times> nat) list \<Rightarrow> bool" where
  "parses ort reference target i lru [] \<longleftrightarrow> i = length target"
| "parses ort reference target i lru (m # ms) \<longleftrightarrow>
     (if is_literal m then i < length target \<and> target ! i = of_nat (fst m) \<and> parses ort reference target (i + 1) lru ms
      else \<exists>dist. match_right ort reference target i lru m dist
        \<and> parses ort reference target (i + snd m) (lru_update lru dist) ms)"

text \<open>The tables change with the position: the bits of a parse, and that all of it is coded.\<close>

fun enc_parse :: "composite_format \<Rightarrow> nat \<Rightarrow> nat \<Rightarrow> (nat \<times> nat) list \<Rightarrow> bool list" where
  "enc_parse f seg pos [] = []"
| "enc_parse f seg pos (m # ms) =
     (let seg = advance_segment f pos seg
      in enc_lzx (cf_segments f ! seg) m @ enc_parse f seg (pos + snd m) ms)"

fun parse_coded :: "composite_format \<Rightarrow> nat \<Rightarrow> nat \<Rightarrow> (nat \<times> nat) list \<Rightarrow> bool" where
  "parse_coded f seg pos [] \<longleftrightarrow> True"
| "parse_coded f seg pos (m # ms) \<longleftrightarrow>
     (let seg = advance_segment f pos seg; t = cf_segments f ! seg
      in seg < length (cf_segments f) \<and> tables_ok t \<and> symbol_fits m \<and> symbol_coded t m
         \<and> parse_coded f seg (pos + snd m) ms)"

lemma enc_lzx_pos: "symbol_coded t m \<Longrightarrow> 1 \<le> length (enc_lzx t m)"
  by (auto simp: symbol_coded_def enc_lzx_def has_code_def code_of_def code_stream_def
    simp del: length_greater_0_conv split: if_splits)

lemma apply_literal:
  assumes "is_literal m" "target ! i = of_nat (fst m)" "i < length target"
    and "lz_out st = (take i target, None)"
  shows "apply_symbol ort reference e m st = Inr (st\<lparr>lz_out := (take (i + 1) target, None), lz_pos := lz_pos st + 1\<rparr>)"
  using assms by (cases m) (simp add: apply_symbol_def is_literal_def Let_def take_Suc_conv_app_nth)

lemma copy_one_target:
  assumes i: "i + len \<le> length target" "length reference + length target < 2 ^ 63"
    and start: "start < length reference + i" "pos = length reference + i"
    and rep: "\<And>k. k < len \<Longrightarrow> (reference @ target) ! (pos + k) = (reference @ target) ! (start + k)"
  shows "copy_one reference (length reference) pos (of_nat (pos - start)) len (take i target, None)
    = Inr (take (i + len) target, None)"
proof -
  have P: "length (take i target) = i" "length reference + i + len < 2 ^ 63" "src_len (take i target, None)"
    using i by simp_all
  obtain out' s where c: "copy_one reference (length reference) pos (of_nat (pos - start)) len (take i target, None) = Inr (out', s)"
    "window_copy reference (take i target) start len out'"
    using copy_one_window [of pos reference "take i target" len start None] start(1)
    using P start(2) by auto
  have "same_output (Inr (out', s)) (Inr (out', s))"
    using copy_one_same [OF P(3) refl, of reference "length reference + i" "of_nat (pos - start)" len] c(1) start(2) by simp
  then have "s = None" by simp
  moreover have "out' = take (i + len) target"
    using window_copy_target [OF c(2) i(1) start(1)] rep start(2) by simp
  ultimately show ?thesis using c(1) by simp
qed

lemma apply_match:
  assumes m: "match_right ort reference target i lru m dist" "\<not> is_literal m"
    and fit: "length reference + length target < 2 ^ 63"
    and st: "lz_out st = (take i target, None)" "lz_lru st = lru" "lz_pos st = length reference + i"
  shows "apply_symbol ort reference (length reference + length target) m st
    = Inr (st\<lparr>lz_out := (take (i + snd m) target, None), lz_lru := lru_update lru dist,
        lz_pos := length reference + i + snd m\<rparr>)"
proof -
  obtain raw l where ml: "m = (raw, l)" by (cases m)
  let ?R = "length reference"
  define pos where "pos = ?R + i"
  obtain start where M: "2 \<le> l" "i + l \<le> length target"
    "symbol_distance raw (offset_at ort (of_nat pos)) lru = Inr dist"
    "raw = source_copy_n \<longrightarrow> pos + l \<le> unat (snd (segment_at ort (of_nat pos)))"
    "start < pos" "dist = of_nat (pos - start)"
    "\<And>k. k < l \<Longrightarrow> (reference @ target) ! (pos + k) = (reference @ target) ! (start + k)"
    using m(1) by (auto simp: match_right_def ml Let_def pos_def)
  have c: "copy_one reference ?R pos dist l (take i target, None) = Inr (take (i + l) target, None)"
    unfolding M(6) by (rule copy_one_target [OF M(2) fit _ pos_def M(7)]) (use M(5) in \<open>simp_all add: pos_def\<close>)
  have walk: "source_walk ort reference ?R pos l (take i target, None) = Inr (take (i + l) target, None)"
    if sc: "raw = source_copy_n"
  proof -
    obtain off bp where s: "segment_at ort (of_nat pos) = (off, bp)" by (cases "segment_at ort (of_nat pos)")
    have "off = offset_at ort (of_nat pos)" using segment_at_offset [of ort "of_nat pos"] by (simp add: s)
    then have d: "- off = dist" using M(3) sc by (simp add: symbol_distance_def)
    have "min l (max (unat bp - pos) 1) = l" using M(4) sc M(1) by (simp add: s)
    then show ?thesis using M(1) c by (subst source_walk.simps) (simp add: s d source_walk.simps)
  qed
  have "min l (?R + length target - pos) = l" using M(2) by (simp add: pos_def)
  then show ?thesis
    using M(1,3) c walk st
    unfolding ml by (subst apply_match_eq) (simp_all flip: pos_def)
qed

text \<open>The decompressor's loop reads the parse back and rebuilds the target.\<close>

lemma decompress_loop_parse:
  assumes fit: "length reference + length target < 2 ^ 63"
  shows "parses ort reference target i lru ms \<Longrightarrow> parse_coded f seg (length reference + i) ms \<Longrightarrow>
    reader_ok r \<Longrightarrow> rd_stream r = enc_parse f seg (length reference + i) ms @ rest \<Longrightarrow>
    rd_padding r \<le> length rest \<Longrightarrow> i \<le> length target \<Longrightarrow>
    lz_out st = (take i target, None) \<Longrightarrow> lz_lru st = lru \<Longrightarrow> lz_pos st = length reference + i \<Longrightarrow>
    \<exists>st'. decompress_loop ort reference f (length reference + length target) seg st r = Inr st'
      \<and> lz_out st' = (target, None)"
proof (induction ms arbitrary: i lru seg r st)
  case Nil
  then show ?case by (simp add: decompress_loop.simps)
next
  case (Cons m ms)
  let ?R = "length reference"
  define sg where "sg = advance_segment f (?R + i) seg"
  define t where "t = cf_segments f ! sg"
  have C: "sg < length (cf_segments f)" "tables_ok t" "symbol_fits m" "symbol_coded t m"
    "parse_coded f sg (?R + i + snd m) ms"
    using Cons.prems(2) by (simp_all add: Let_def sg_def t_def)
  have s: "rd_stream r = enc_lzx t m @ enc_parse f sg (?R + i + snd m) ms @ rest"
    using Cons.prems(4) by (simp add: Let_def sg_def t_def)
  obtain r1 where r1: "lzx_read_symbol t r = Inr (m, r1)" "reader_ok r1" "rd_padding r1 = rd_padding r"
    "rd_stream r1 = enc_parse f sg (?R + i + snd m) ms @ rest"
    using read_lzx_delivers [OF C(2,3,4) Cons.prems(3) s] Cons.prems(5) by (auto simp: delivers_def)
  have "remaining r \<noteq> 0"
    using remaining_eq [OF Cons.prems(3)] enc_lzx_pos [OF C(4)] Cons.prems(5) arg_cong [OF s, of length]
    by simp
  then have step: "decompress_loop ort reference f (?R + length target) seg st r =
      rbind (apply_symbol ort reference (?R + length target) m st) (\<lambda>st.
        decompress_loop ort reference f (?R + length target) sg st r1)" if "i < length target"
    using that Cons.prems(9) C(1) r1(1)
    by (subst decompress_loop.simps) (simp add: Let_def flip: sg_def t_def)
  show ?case
  proof (cases "is_literal m")
    case True
    then have l1: "snd m = 1" by (simp add: is_literal_def)
    have P: "i < length target" "target ! i = of_nat (fst m)" "parses ort reference target (i + 1) lru ms"
      using Cons.prems(1) True by simp_all
    note A = apply_literal [OF True P(2,1) Cons.prems(7), of ort reference "?R + length target"]
    have "\<exists>st'. decompress_loop ort reference f (?R + length target) sg
        (st\<lparr>lz_out := (take (i + 1) target, None), lz_pos := lz_pos st + 1\<rparr>) r1 = Inr st' \<and> lz_out st' = (target, None)"
      by (rule Cons.IH [OF P(3)]) (use C(5) r1 l1 P(1) Cons.prems in \<open>simp_all add: add.assoc\<close>)
    then show ?thesis using step [OF P(1)] A by simp
  next
    case False
    then obtain dist where P: "match_right ort reference target i lru m dist"
      "parses ort reference target (i + snd m) (lru_update lru dist) ms" using Cons.prems(1) by auto
    have i: "2 \<le> snd m" "i + snd m \<le> length target" using P(1) by (simp_all add: match_right_def Let_def)
    note A = apply_match [OF P(1) False fit Cons.prems(7,8,9)]
    have "\<exists>st'. decompress_loop ort reference f (?R + length target) sg
        (st\<lparr>lz_out := (take (i + snd m) target, None), lz_lru := lru_update lru dist,
          lz_pos := ?R + i + snd m\<rparr>) r1 = Inr st' \<and> lz_out st' = (target, None)"
      by (rule Cons.IH [OF P(2)]) (use C(5) r1 i Cons.prems in \<open>simp_all add: add.assoc\<close>)
    then show ?thesis using step A i by simp
  qed
qed

end
