(* ===== verification/LzxEncode.thy ===== *)
theory LzxEncode
  imports LzxDecode HuffmanBuild
begin

text \<open>
  The compressor of \<open>src/lzx/encode.rs\<close>: the hash chains, the match finder with its lazy
  one-byte lookahead, the symbol statistics, the code lengths and their run-length coding, the
  composite headers and the choice between flat and custom tables. Positions and lengths are
  natural numbers, distances \<open>i64\<close>; a chain link is an option in place of \<open>u32::MAX\<close>.
\<close>

section \<open>Hash chains\<close>

definition hash3 :: "bytes \<Rightarrow> nat \<Rightarrow> nat" where
  "hash3 d pos =
     (if pos + 2 \<ge> length d then 0
      else
        let h = (ucast (d ! pos) :: u64) OR push_bit 8 (ucast (d ! (pos + 1)))
                  OR push_bit 16 (ucast (d ! (pos + 2)))
        in unat (drop_bit 16 (h * 0x9E3779B1)))"

definition hash_slot :: "bytes \<Rightarrow> nat \<Rightarrow> nat" where
  "hash_slot d pos = hash3 d pos mod 2 ^ 16"

record hash_chains =
  hc_table :: "nat option list"
  hc_chain :: "nat option list"

definition chains_new :: "nat \<Rightarrow> hash_chains" where
  "chains_new n = \<lparr>hc_table = replicate (2 ^ 16) None, hc_chain = replicate n None\<rparr>"

definition chain_insert :: "bytes \<Rightarrow> nat \<Rightarrow> hash_chains \<Rightarrow> hash_chains" where
  "chain_insert d p c =
     (let h = hash_slot d p
      in c\<lparr>hc_chain := (hc_chain c)[p := hc_table c ! h], hc_table := (hc_table c)[h := Some p]\<rparr>)"

definition index_reference :: "bytes \<Rightarrow> nat \<Rightarrow> hash_chains" where
  "index_reference d ref_len = fold (chain_insert d) [0..<ref_len - 2] (chains_new (length d))"

section \<open>The match finder\<close>

definition max_match :: nat where "max_match = 2 ^ 26"

function match_length :: "bytes \<Rightarrow> nat \<Rightarrow> nat \<Rightarrow> nat \<Rightarrow> nat \<Rightarrow> nat \<Rightarrow> nat" where
  "match_length d i tlen pos cp n =
     (if i + n < tlen \<and> cp + n < length d \<and> d ! (cp + n) = d ! (pos + n) then
        if n + 1 \<ge> max_match then n + 1 else match_length d i tlen pos cp (n + 1)
      else n)"
  by pat_completeness auto
termination
  by (relation "measure (\<lambda>(d, i, tlen, pos, cp, n). tlen - (i + n))") auto

declare match_length.simps [simp del]

definition signed_delta_raw :: "i64 \<Rightarrow> i64 \<Rightarrow> nat option" where
  "signed_delta_raw distance rift_offset =
     (let raw = distance + 0x2a000 + rift_offset
      in if 0 \<le> sint raw \<and> sint raw < 0x54000 then Some (nat (sint raw)) else None)"

definition offset_extra_bits :: "nat \<Rightarrow> nat" where
  "offset_extra_bits raw_offset =
     (if raw_offset = source_copy_n \<or> (lru_base_n \<le> raw_offset \<and> raw_offset < lru_base_n + 3) then 0
      else if raw_offset < source_copy_n then
        let sd = int raw_offset - offset_bias_n
        in if - 0x2000 \<le> sd \<and> sd < 0x2000 then 14
           else if - 0xA000 \<le> sd \<and> sd < 0xA000 then 16 else 18
      else case compute_symbol_info raw_offset of (_, extra, needs_aligned) \<Rightarrow>
        extra + (if needs_aligned then 3 else 0))"

definition classify :: "nat \<Rightarrow> nat \<Rightarrow> nat \<Rightarrow> i64 \<Rightarrow> lru_queue \<Rightarrow> nat" where
  "classify ref_len cp d rift_offset lru =
     (let distance = of_nat d
      in if cp < ref_len \<and> distance = - rift_offset then source_copy_n
         else if fst lru = distance then lru_base_n
         else if fst (snd lru) = distance then lru_base_n + 1
         else if snd (snd lru) = distance then lru_base_n + 2
         else (case signed_delta_raw distance rift_offset of
                 Some delta \<Rightarrow> delta
               | None \<Rightarrow> (d mod 2 ^ 32 + raw_offset_base_n) mod 2 ^ 32))"

record best_match =
  bm_value :: int
  bm_len :: nat
  bm_offset :: nat
  bm_distance :: i64

definition no_match :: best_match where
  "no_match = \<lparr>bm_value = - (2 ^ 63), bm_len = 0, bm_offset = 0, bm_distance = 0\<rparr>"

definition consider_candidate ::
  "bytes \<Rightarrow> nat \<Rightarrow> nat \<Rightarrow> nat \<Rightarrow> i64 \<Rightarrow> lru_queue \<Rightarrow> nat \<Rightarrow> best_match \<Rightarrow> best_match" where
  "consider_candidate d i tlen ref_len rift_offset lru cp best =
     (let pos = ref_len + i;
          n = match_length d i tlen pos cp 0
      in if n \<ge> 3 then
           let raw = classify ref_len cp (pos - cp) rift_offset lru;
               val = int n * 8 - int (offset_extra_bits raw)
           in if val > bm_value best \<or> (val = bm_value best \<and> n > bm_len best)
              then \<lparr>bm_value = val, bm_len = n, bm_offset = raw, bm_distance = of_nat (pos - cp)\<rparr>
              else best
         else best)"

fun chain_search ::
  "nat \<Rightarrow> hash_chains \<Rightarrow> (nat \<Rightarrow> best_match \<Rightarrow> best_match) \<Rightarrow> nat option \<Rightarrow> best_match \<Rightarrow> best_match" where
  "chain_search 0 c f link best = best"
| "chain_search (Suc depth) c f link best =
     (case link of
        None \<Rightarrow> best
      | Some cp \<Rightarrow>
          let best = f cp best
          in if bm_len best \<ge> 2048 then best else chain_search depth c f (hc_chain c ! cp) best)"

definition cap_source_copy :: "(i64 \<times> i64) list \<Rightarrow> nat \<Rightarrow> best_match \<Rightarrow> nat" where
  "cap_source_copy ort pos best =
     (if bm_offset best = source_copy_n then
        let cap = snd (segment_at ort (of_nat pos)) - of_nat pos
        in if sint cap > 0 \<and> int (bm_len best) > sint cap then nat (sint cap mod 2 ^ 32) else bm_len best
      else bm_len best)"

definition best_match_at ::
  "bytes \<Rightarrow> nat \<Rightarrow> nat \<Rightarrow> nat \<Rightarrow> hash_chains \<Rightarrow> lru_queue \<Rightarrow> (i64 \<times> i64) list \<Rightarrow> nat \<times> nat \<times> i64" where
  "best_match_at d i tlen ref_len c lru ort =
     (if i + 2 \<ge> tlen then (0, 0, 0)
      else
        let pos = ref_len + i;
            rift_offset = offset_at ort (of_nat pos);
            best = chain_search 128 c (consider_candidate d i tlen ref_len rift_offset lru)
              (hc_table c ! hash_slot d pos) no_match;
            best_len = cap_source_copy ort pos best
        in if best_len \<ge> 2 \<and> match_fits_table (bm_offset best)
           then (best_len, bm_offset best, bm_distance best) else (0, 0, 0))"

section \<open>The parse\<close>

text \<open>The positions a committed match covers are indexed too.\<close>

definition index_match :: "bytes \<Rightarrow> nat \<Rightarrow> nat \<Rightarrow> hash_chains \<Rightarrow> hash_chains" where
  "index_match d pos len c =
     fold (\<lambda>j c. if pos + j + 2 < length d then chain_insert d (pos + j) c else c) [1..<len] c"

function parse_loop ::
  "bytes \<Rightarrow> bytes \<Rightarrow> nat \<Rightarrow> (i64 \<times> i64) list \<Rightarrow> nat \<Rightarrow> hash_chains \<Rightarrow> lru_queue \<Rightarrow> (nat \<times> nat) list" where
  "parse_loop d target ref_len ort i c lru =
     (if i < length target then
        let pos = ref_len + i;
            (len0, off0, dist0) = best_match_at d i (length target) ref_len c lru ort;
            c = (if i + 2 < length target then chain_insert d pos c else c);
            take_match = (len0 \<ge> 2 \<and>
              fst (best_match_at d (i + 1) (length target) ref_len c lru ort) \<le> len0)
        in if take_match then
             (off0, len0) # parse_loop d target ref_len ort (i + len0) (index_match d pos len0 c) (lru_update lru dist0)
           else (unat (target ! i), 1) # parse_loop d target ref_len ort (i + 1) c lru
      else [])"
  by pat_completeness auto
termination
  by (relation "measure (\<lambda>(d, target, ref_len, ort, i, c, lru). length target - i)") auto

declare parse_loop.simps [simp del]

definition parse_target :: "bytes \<Rightarrow> bytes \<Rightarrow> (i64 \<times> i64) list \<Rightarrow> (nat \<times> nat) list" where
  "parse_target reference target ort =
     (let d = reference @ target; ref_len = length reference
      in parse_loop d target ref_len ort 0 (index_reference d ref_len) lru_new)"

section \<open>Statistics and tables\<close>

record symbol_counts =
  sc_main :: "nat list"
  sc_lengths :: "nat list"
  sc_aligned :: "nat list"

definition bump :: "nat \<Rightarrow> nat list \<Rightarrow> nat list" where
  "bump s fs = (if s < length fs then fs[s := fs ! s + 1] else fs)"

definition counts_new :: symbol_counts where
  "counts_new = \<lparr>sc_main = replicate main_symbols 0, sc_lengths = replicate length_symbols 0,
     sc_aligned = replicate aligned_symbols 0\<rparr>"

definition count_symbol :: "nat \<times> nat \<Rightarrow> symbol_counts \<Rightarrow> symbol_counts" where
  "count_symbol m fs =
     (case m of (raw_offset, l) \<Rightarrow>
        if l = 1 \<and> raw_offset < 256 then fs\<lparr>sc_main := bump raw_offset (sc_main fs)\<rparr>
        else
          case compute_symbol_info raw_offset of (offset_slot, _, needs_aligned) \<Rightarrow>
            let length_slot = compute_length_slot l
            in fs\<lparr>sc_main := bump (0x100 + 8 * offset_slot + length_slot) (sc_main fs),
                  sc_lengths := (if length_slot = 0 then bump (compute_length_extra l) (sc_lengths fs)
                    else sc_lengths fs),
                  sc_aligned := (if needs_aligned
                    then bump ((raw_offset - raw_offset_base_n) mod 16) (sc_aligned fs)
                    else sc_aligned fs)\<rparr>)"

definition count_symbols_of :: "(nat \<times> nat) list \<Rightarrow> symbol_counts" where
  "count_symbols_of ms = fold count_symbol ms counts_new"

definition used :: "nat list \<Rightarrow> nat" where
  "used fs = length (filter (\<lambda>f. f > 0) fs)"

text \<open>The fix-up of the single-segment path, and the one of the other.\<close>

fun fill_from :: "nat \<Rightarrow> bool \<Rightarrow> nat list \<Rightarrow> nat list" where
  "fill_from nonzero later [] = []"
| "fill_from nonzero later (f # fs) =
     (if f = 0 \<and> nonzero + (if later then 1 else 0) \<ge> 2 then f # fs
      else (if f = 0 then 1 else f) # fill_from nonzero True fs)"

definition ensure_two :: "nat list \<Rightarrow> nat list" where
  "ensure_two fs = (if used fs < 2 then fill_from (used fs) False fs else fs)"

definition ensure_first_two :: "nat list \<Rightarrow> nat list" where
  "ensure_first_two fs =
     (if used fs < 2 then map (\<lambda>(i, f). if f = 0 \<and> i < 2 then 1 else f) (enumerate 0 fs) else fs)"

definition tables_from_counts :: "symbol_counts \<Rightarrow> segment_tables result" where
  "tables_from_counts fs =
     rbind (from_frequencies (sc_main fs) 15) (\<lambda>main.
     rbind (from_frequencies (sc_lengths fs) 15) (\<lambda>lengths.
     rbind (from_frequencies (sc_aligned fs) 15) (\<lambda>aligned.
       Inr \<lparr>st_main = main, st_lengths = lengths, st_aligned = aligned\<rparr>)))"

definition fix_counts :: "(nat list \<Rightarrow> nat list) \<Rightarrow> symbol_counts \<Rightarrow> symbol_counts" where
  "fix_counts f fs = \<lparr>sc_main = f (sc_main fs), sc_lengths = f (sc_lengths fs), sc_aligned = f (sc_aligned fs)\<rparr>"

section \<open>Code lengths\<close>

text \<open>A pre-tree symbol, with the value and width of its extra bits.\<close>

type_synonym pretree_symbol = "nat \<times> (nat \<times> nat) option"

definition encode_run_count :: "nat \<Rightarrow> pretree_symbol" where
  "encode_run_count count =
     (if count = 1 then (0, None)
      else if count = 2 then (1, None)
      else if count = 3 then (2, None)
      else if 4 \<le> count \<and> count \<le> 7 then (3, Some (count - 4, 2))
      else if 8 \<le> count \<and> count \<le> 15 then (4, Some (count - 8, 3))
      else if 16 \<le> count \<and> count \<le> 31 then (5, Some (count - 16, 4))
      else if 32 \<le> count \<and> count \<le> 63 then (6, Some (count - 32, 5))
      else (7, Some (min (count - 64) 63, 6)))"

definition run_while :: "(nat \<Rightarrow> bool) \<Rightarrow> nat \<Rightarrow> nat \<Rightarrow> nat" where
  "run_while P i cap = length (takeWhile (\<lambda>k. P (i + k)) [0..<min 127 (cap - i)])"

definition encode_length_at :: "nat list \<Rightarrow> nat list \<Rightarrow> nat \<Rightarrow> pretree_symbol \<times> nat" where
  "encode_length_at lens prev i =
     (let run_end_cap = length lens - 1;
          prev_run = (if i + 3 < length lens then run_while (\<lambda>k. lens ! k = prev ! k) i run_end_cap else 0);
          fill_run = (if i > 0 then run_while (\<lambda>k. lens ! k = lens ! (i - 1)) i run_end_cap else 0)
      in if prev_run \<ge> 4 then
           (case encode_run_count prev_run of (base, extra) \<Rightarrow> ((base + 8 + 23, extra), prev_run))
         else if fill_run \<ge> 4 then
           (case encode_run_count fill_run of (base, extra) \<Rightarrow> ((base + 23, extra), fill_run))
         else
           let diff = int (lens ! i) - int (prev ! i)
           in ((if diff = 1 then 17 else if diff = 2 then 18 else if diff = 3 then 19
                else if diff = - 1 then 20 else if diff = - 2 then 21 else if diff = - 3 then 22
                else lens ! i, None), 1))"

lemma encode_length_at_progress: "0 < snd (encode_length_at lens prev i)"
  by (simp add: encode_length_at_def Let_def split: prod.split)

function encode_lengths_from :: "nat list \<Rightarrow> nat list \<Rightarrow> nat \<Rightarrow> pretree_symbol list" where
  "encode_lengths_from lens prev i =
     (if i < length lens then
        case encode_length_at lens prev i of (s, n) \<Rightarrow> s # encode_lengths_from lens prev (i + n)
      else [])"
  by pat_completeness auto
termination
proof (relation "measure (\<lambda>(lens, prev, i). length lens - i)", goal_cases)
  case (2 lens prev i s n)
  then have "0 < n" using encode_length_at_progress [of lens prev i] by (simp flip: 2(2))
  with 2(1) show ?case by simp
qed simp

declare encode_lengths_from.simps [simp del]

definition encode_compression_lengths :: "nat list \<Rightarrow> nat list \<Rightarrow> pretree_symbol list" where
  "encode_compression_lengths lens prev = encode_lengths_from lens prev 0"

definition write_pretree_symbol :: "huffman_table \<Rightarrow> bit_writer \<Rightarrow> pretree_symbol \<Rightarrow> bit_writer" where
  "write_pretree_symbol pretree w s =
     (let w = write_symbol pretree w (of_nat (fst s))
      in case snd s of None \<Rightarrow> w | Some (v, bits) \<Rightarrow> write_bits w (of_nat v) bits)"

definition pretree_counts :: "pretree_symbol list \<Rightarrow> nat list" where
  "pretree_counts syms = fold (\<lambda>s. bump (fst s)) syms (replicate pretree_symbols 0)"

definition all_lengths :: "segment_tables \<Rightarrow> nat list" where
  "all_lengths t = ht_lengths (st_main t) @ ht_lengths (st_lengths t) @ ht_lengths (st_aligned t)"

definition write_pretree :: "huffman_table \<Rightarrow> bit_writer \<Rightarrow> bit_writer" where
  "write_pretree pretree w =
     foldl (\<lambda>w i. write_bits w (of_nat (ht_lengths pretree ! i)) 4) w [0..<pretree_symbols]"

definition write_composite_format :: "bit_writer \<Rightarrow> segment_tables \<Rightarrow> nat \<Rightarrow> bit_writer result" where
  "write_composite_format w tables boundary =
     (let w = write_i64 (write_i64 w 1) (of_nat boundary);
          syms = encode_compression_lengths (all_lengths tables) (replicate total_lengths 0)
      in rbind (from_frequencies (pretree_counts syms) 15) (\<lambda>pretree.
           Inr (foldl (write_pretree_symbol pretree) (write_pretree pretree w) syms)))"

fun segment_symbols :: "segment_tables list \<Rightarrow> nat list \<Rightarrow> pretree_symbol list list" where
  "segment_symbols [] prev = []"
| "segment_symbols (t # ts) prev =
     encode_compression_lengths (all_lengths t) prev # segment_symbols ts (all_lengths t)"

fun write_boundaries :: "bit_writer \<Rightarrow> i64 \<Rightarrow> nat list \<Rightarrow> bit_writer" where
  "write_boundaries w prev [] = w"
| "write_boundaries w prev (b # bs) = write_boundaries (write_i64 w (of_nat b - prev)) (of_nat b) bs"

definition write_composite_format_multi ::
  "bit_writer \<Rightarrow> segment_tables list \<Rightarrow> nat list \<Rightarrow> bit_writer result" where
  "write_composite_format_multi w segments boundaries =
     (let w = write_boundaries (write_i64 w (of_nat (length segments))) 0 boundaries;
          syms = segment_symbols segments (replicate total_lengths 0)
      in rbind (from_frequencies (pretree_counts (concat syms)) 15) (\<lambda>pretree.
           Inr (foldl (write_pretree_symbol pretree) (write_pretree pretree w) (concat syms))))"

section \<open>The compressor\<close>

fun write_symbols :: "segment_tables \<Rightarrow> bit_writer \<Rightarrow> (nat \<times> nat) list \<Rightarrow> bit_writer result" where
  "write_symbols t w [] = Inr w"
| "write_symbols t w (m # ms) = rbind (write_lzx_symbol t w m) (\<lambda>w. write_symbols t w ms)"

definition write_no_rift :: "bit_writer \<Rightarrow> bit_writer" where
  "write_no_rift w = write_bits w 0 1"

definition segment_size :: nat where "segment_size = 256 * 1024"

text \<open>The cuts of the symbol list: the boundary positions and the indices behind the first ones.\<close>

fun split_symbols ::
  "nat \<Rightarrow> (nat \<times> nat) list \<Rightarrow> nat \<Rightarrow> nat \<Rightarrow> nat \<Rightarrow> nat list \<Rightarrow> nat list \<Rightarrow> nat list \<times> nat list" where
  "split_symbols ref_len [] si cumulative seg_output bounds splits = (bounds, splits)"
| "split_symbols ref_len (m # ms) si cumulative seg_output bounds splits =
     (let cumulative = cumulative + snd m;
          seg_output = seg_output + snd m
      in if seg_output \<ge> segment_size \<and> length splits < 8
         then split_symbols ref_len ms (si + 1) cumulative 0 (bounds @ [ref_len + cumulative]) (splits @ [si + 1])
         else split_symbols ref_len ms (si + 1) cumulative seg_output bounds splits)"

fun windows2 :: "'a list \<Rightarrow> ('a \<times> 'a) list" where
  "windows2 (a # b # xs) = (a, b) # windows2 (b # xs)"
| "windows2 xs = []"

function seg_of :: "nat list \<Rightarrow> nat \<Rightarrow> nat \<Rightarrow> nat" where
  "seg_of splits si seg_idx =
     (if seg_idx + 1 < length splits - 1 \<and> si \<ge> splits ! (seg_idx + 1)
      then seg_of splits si (seg_idx + 1) else seg_idx)"
  by pat_completeness auto
termination
  by (relation "measure (\<lambda>(splits, si, i). length splits - i)") auto

declare seg_of.simps [simp del]

fun result_map :: "('a \<Rightarrow> 'b result) \<Rightarrow> 'a list \<Rightarrow> 'b list result" where
  "result_map f [] = Inr []"
| "result_map f (x # xs) = rbind (f x) (\<lambda>y. rbind (result_map f xs) (\<lambda>ys. Inr (y # ys)))"

fun write_split_symbols ::
  "segment_tables list \<Rightarrow> nat list \<Rightarrow> nat \<Rightarrow> nat \<Rightarrow> bit_writer \<Rightarrow> (nat \<times> nat) list \<Rightarrow> bit_writer result" where
  "write_split_symbols ts splits si seg_idx w [] = Inr w"
| "write_split_symbols ts splits si seg_idx w (m # ms) =
     (let seg_idx = seg_of splits si seg_idx
      in rbind (index ts seg_idx) (\<lambda>t.
         rbind (write_lzx_symbol t w m) (\<lambda>w. write_split_symbols ts splits (si + 1) seg_idx w ms)))"

definition compress_segments :: "nat \<Rightarrow> (nat \<times> nat) list \<Rightarrow> bytes result" where
  "compress_segments ref_len symbols =
     (let (bounds, splits) = split_symbols ref_len symbols 0 0 0 [ref_len] [0];
          splits = splits @ [length symbols]
      in rbind (result_map (\<lambda>(a, b). tables_from_counts
                  (fix_counts ensure_first_two (count_symbols_of (subrange a b symbols)))) (windows2 splits)) (\<lambda>ts.
         let w = write_bits (write_no_rift writer_new) 0 1
         in rbind (write_composite_format_multi w ts bounds) (\<lambda>w.
            rbind (write_split_symbols ts splits 0 0 w symbols) (\<lambda>w. Inr (writer_finish w)))))"

definition compress_single :: "nat \<Rightarrow> (nat \<times> nat) list \<Rightarrow> bytes result" where
  "compress_single ref_len symbols =
     rbind (tables_from_counts (fix_counts ensure_two (count_symbols_of symbols))) (\<lambda>complex_tables.
     rbind (write_composite_format (write_bits (write_no_rift writer_new) 0 1) complex_tables ref_len) (\<lambda>w.
     rbind (write_symbols complex_tables w symbols) (\<lambda>w.
       let complex_out = writer_finish w
       in rbind segment_tables_from_flat (\<lambda>flat_tables.
          rbind (write_symbols flat_tables (write_bits (write_no_rift writer_new) 1 1) symbols) (\<lambda>w.
            let simple_out = writer_finish w
            in Inr (if length simple_out \<le> length complex_out then simple_out else complex_out))))))"

definition compress_inner :: "bytes \<Rightarrow> bytes \<Rightarrow> rift_table option \<Rightarrow> bytes result" where
  "compress_inner reference target rift =
     (let ref_len = length reference;
          ort = merged_table [] rift ref_len;
          symbols = parse_target reference target ort
      in if length target > segment_size * 2 then compress_segments ref_len symbols
         else compress_single ref_len symbols)"

definition compress :: "bytes \<Rightarrow> bytes \<Rightarrow> bytes result" where
  "compress reference target = compress_inner reference target None"

definition compress_with_rift :: "bytes \<Rightarrow> bytes \<Rightarrow> rift_table \<Rightarrow> bytes result" where
  "compress_with_rift reference target rift = compress_inner reference target (Some rift)"

section \<open>The match finder finds matches\<close>

lemma match_length_spec:
  "match_length d i tlen pos cp n = n' \<Longrightarrow> i + n \<le> tlen \<Longrightarrow>
    n \<le> n' \<and> i + n' \<le> tlen \<and> (\<forall>k. n \<le> k \<longrightarrow> k < n' \<longrightarrow> d ! (cp + k) = d ! (pos + k))"
proof (induction d i tlen pos cp n rule: match_length.induct)
  case (1 d i tlen pos cp n)
  show ?case
  proof (cases "i + n < tlen \<and> cp + n < length d \<and> d ! (cp + n) = d ! (pos + n)")
    case False
    then have "n' = n" using "1.prems"(1) by (subst (asm) match_length.simps) (simp only: if_False)
    then show ?thesis using "1.prems"(2) by simp
  next
    case True
    show ?thesis
    proof (cases "max_match \<le> n + 1")
      case t: True
      then have "n' = n + 1" using "1.prems"(1) True by (subst (asm) match_length.simps) simp
      then show ?thesis using True by (auto simp: less_Suc_eq)
    next
      case False
      then have e: "match_length d i tlen pos cp (n + 1) = n'"
        using "1.prems"(1) True by (subst (asm) match_length.simps) simp
      have "i + (n + 1) \<le> tlen" using True by simp
      from "1.IH" [OF True False e this] True show ?thesis
        by (auto simp: Suc_le_eq) (metis le_neq_implies_less)
    qed
  qed
qed

text \<open>A candidate that became the best match: a repetition behind \<open>cp\<close>.\<close>

definition best_ok :: "bytes \<Rightarrow> nat \<Rightarrow> nat \<Rightarrow> nat \<Rightarrow> i64 \<Rightarrow> lru_queue \<Rightarrow> best_match \<Rightarrow> bool" where
  "best_ok d i tlen ref_len rift_offset lru b \<longleftrightarrow> bm_len b = 0 \<or>
     (\<exists>cp<ref_len + i. i + bm_len b \<le> tlen \<and> bm_distance b = of_nat (ref_len + i - cp)
        \<and> bm_offset b = classify ref_len cp (ref_len + i - cp) rift_offset lru
        \<and> (\<forall>k<bm_len b. d ! (ref_len + i + k) = d ! (cp + k)))"

lemma consider_candidate_ok:
  assumes "best_ok d i tlen ref_len rift_offset lru b" "cp < ref_len + i" "i \<le> tlen"
  shows "best_ok d i tlen ref_len rift_offset lru (consider_candidate d i tlen ref_len rift_offset lru cp b)"
proof -
  note M = match_length_spec [of d i tlen "ref_len + i" cp 0, OF refl]
  show ?thesis using assms M
    by (auto simp: consider_candidate_def Let_def best_ok_def)
qed

definition chains_below :: "nat \<Rightarrow> hash_chains \<Rightarrow> bool" where
  "chains_below n c \<longleftrightarrow> (\<forall>p. Some p \<in> set (hc_table c) \<union> set (hc_chain c) \<longrightarrow> p < n \<and> p < length (hc_chain c))
     \<and> length (hc_table c) = 2 ^ 16"

lemma chains_below_mono: "chains_below n c \<Longrightarrow> n \<le> m \<Longrightarrow> chains_below m c"
  by (auto simp: chains_below_def)

lemma hash_slot_less: "hash_slot d p < 2 ^ 16"
  by (simp add: hash_slot_def)

lemma chain_search_ok:
  assumes f: "\<And>cp b. P b \<Longrightarrow> cp < n \<Longrightarrow> P (f cp b)" and c: "chains_below n c"
  shows "P b \<Longrightarrow> (\<forall>cp. link = Some cp \<longrightarrow> cp < n \<and> cp < length (hc_chain c)) \<Longrightarrow> P (chain_search depth c f link b)"
proof (induction depth arbitrary: link b)
  case (Suc depth)
  show ?case
  proof (cases link)
    case None
    then show ?thesis using Suc.prems(1) by simp
  next
    case (Some cp)
    then have cp: "cp < n" "cp < length (hc_chain c)" using Suc.prems(2) by auto
    have "hc_chain c ! cp \<in> set (hc_chain c)" using cp(2) by simp
    then have "\<forall>q. hc_chain c ! cp = Some q \<longrightarrow> q < n \<and> q < length (hc_chain c)"
      using c by (fastforce simp: chains_below_def)
    then show ?thesis using Suc.IH f [OF Suc.prems(1) cp(1)] Some by (simp add: Let_def)
  qed
qed simp

text \<open>The class of a distance, as the decoder resolves it.\<close>

lemma classify_resolves:
  assumes d: "1 \<le> d" "d < 2 ^ 31"
  shows "symbol_distance (classify ref_len cp d rift_offset lru) rift_offset lru = Inr (of_nat d)"
    and "classify ref_len cp d rift_offset lru < 2 ^ 32"
proof -
  obtain l0 l1 l2 where lru: "lru = (l0, l1, l2)" by (cases lru) auto
  let ?d = "of_nat d :: i64"
  have "symbol_distance (classify ref_len cp d rift_offset lru) rift_offset lru = Inr ?d
    \<and> classify ref_len cp d rift_offset lru < 2 ^ 32"
  proof (cases "cp < ref_len \<and> ?d = - rift_offset \<or> l0 = ?d \<or> l1 = ?d \<or> l2 = ?d")
    case True
    then show ?thesis by (auto simp: classify_def symbol_distance_def lru_get_def lru Let_def)
  next
    case no: False
    show ?thesis
    proof (cases "signed_delta_raw ?d rift_offset")
      case None
      then have "classify ref_len cp d rift_offset lru = d + raw_offset_base_n"
        using no d by (auto simp: classify_def lru Let_def)
      then show ?thesis using d by (simp add: symbol_distance_def)
    next
      case (Some r)
      define w where "w = ?d + 0x2a000 + rift_offset"
      have r: "r = nat (sint w)" "0 \<le> sint w" "sint w < 0x54000"
        using Some by (auto simp: signed_delta_raw_def Let_def w_def split: if_splits)
      have "(of_nat r :: i64) = w"
        unfolding r(1) of_nat_nat [OF r(2)] by simp
      then have "of_nat r - 0x2a000 - rift_offset = ?d" by (simp add: w_def)
      moreover have "classify ref_len cp d rift_offset lru = r" using no Some by (auto simp: classify_def lru Let_def)
      moreover have "r < source_copy_n" using r by (simp add: nat_less_iff)
      ultimately show ?thesis by (simp add: symbol_distance_def)
    qed
  qed
  then show "symbol_distance (classify ref_len cp d rift_offset lru) rift_offset lru = Inr (of_nat d)"
    "classify ref_len cp d rift_offset lru < 2 ^ 32" by auto
qed

lemma classify_source_copy:
  assumes "1 \<le> d" "d < 2 ^ 31" "classify ref_len cp d rift_offset lru = source_copy_n"
  shows "cp < ref_len"
proof (rule ccontr)
  assume "\<not> cp < ref_len"
  moreover have "d mod 2 ^ 32 = d" "(d + raw_offset_base_n) mod 2 ^ 32 = d + raw_offset_base_n"
    using assms(2) by simp_all
  moreover have "signed_delta_raw x y \<noteq> Some source_copy_n" for x y
    by (auto simp: signed_delta_raw_def Let_def nat_eq_iff)
  ultimately show False using assms(3) by (auto simp: classify_def Let_def split: if_splits option.splits)
qed

lemma cap_le: "cap_source_copy ort pos b \<le> bm_len b"
proof -
  have "nat (x mod 2 ^ 32) \<le> n" if "0 < x" "x < int n" for x n
    using that zmod_le_nonneg_dividend [of x "2 ^ 32"] by simp
  then show ?thesis by (simp add: cap_source_copy_def Let_def)
qed

lemma cap_source_copy_segment:
  assumes "bm_offset b = source_copy_n" "int pos < sint (snd (segment_at ort (of_nat pos)))"
  shows "pos + cap_source_copy ort pos b \<le> unat (snd (segment_at ort (of_nat pos)))"
proof -
  define nxt where "nxt = snd (segment_at ort (of_nat pos))"
  have p: "sint (of_nat pos :: i64) = int pos"
    using assms(2) sint_bounds(2) [of nxt] by (intro sint_of_nat_small) (simp add: nxt_def)
  have n: "int (unat nxt) = sint nxt" using sint_nonneg_uint [of nxt] assms(2) by (simp add: nxt_def)
  have s: "sint (nxt - of_nat pos) = sint nxt - int pos"
    using assms(2) sint_bounds(2) [of nxt] unfolding nxt_def [symmetric]
    by (simp add: p sint_word_ariths signed_take_bit_int_eq_self)
  define x where "x = sint nxt - int pos"
  have x: "0 < x" using assms(2) by (simp add: x_def nxt_def)
  have "int (cap_source_copy ort pos b) \<le> x"
    using assms(1) x zmod_le_nonneg_dividend [of x "2 ^ 32"] unfolding cap_source_copy_def Let_def
      nxt_def [symmetric] s x_def [symmetric] by auto
  then show ?thesis using n unfolding x_def nxt_def [symmetric] by linarith
qed

text \<open>The rift segment of every output position ends behind it.\<close>

definition segments_ahead :: "(i64 \<times> i64) list \<Rightarrow> nat \<Rightarrow> nat \<Rightarrow> bool" where
  "segments_ahead ort lo hi \<longleftrightarrow> (\<forall>pos. 0 < lo \<longrightarrow> lo \<le> pos \<longrightarrow> pos < hi \<longrightarrow>
     int pos < sint (snd (segment_at ort (of_nat pos))))"

lemma best_match_at_right:
  assumes b: "best_match_at (reference @ target) i (length target) (length reference) c lru ort = (len, off, dist)"
    and len: "2 \<le> len" and c: "chains_below (length reference + i) c"
    and fit: "length reference + length target < 2 ^ 31"
    and seg: "segments_ahead ort (length reference) (length reference + length target)"
  shows "match_right ort reference target i lru (off, len) dist \<and> symbol_fits (off, len)"
proof -
  let ?d = "reference @ target" and ?R = "length reference" and ?T = "length target"
  define pos where "pos = ?R + i"
  define rift where "rift = offset_at ort (of_nat pos)"
  define best where "best = chain_search 128 c (consider_candidate ?d i ?T ?R rift lru)
              (hc_table c ! hash_slot ?d pos) no_match"
  have i: "i + 2 < ?T" using b len by (auto simp: best_match_at_def split: if_splits)
  have ni: "\<not> ?T \<le> i + 2" using i by simp
  have bb: "(if cap_source_copy ort pos best \<ge> 2 \<and> match_fits_table (bm_offset best)
      then (cap_source_copy ort pos best, bm_offset best, bm_distance best) else (0, 0, 0)) = (len, off, dist)"
    using b unfolding best_match_at_def Let_def pos_def [symmetric] rift_def [symmetric] best_def [symmetric]
      if_not_P [OF ni] .
  have e: "len = cap_source_copy ort pos best" "off = bm_offset best" "dist = bm_distance best"
    "match_fits_table off"
    using bb len by (auto split: if_splits)
  have tab: "\<forall>cp. hc_table c ! hash_slot ?d pos = Some cp \<longrightarrow> cp < pos \<and> cp < length (hc_chain c)"
  proof (intro allI impI)
    fix cp assume "hc_table c ! hash_slot ?d pos = Some cp"
    then have "Some cp \<in> set (hc_table c)"
      using hash_slot_less [of ?d pos] c by (metis chains_below_def nth_mem)
    then show "cp < pos \<and> cp < length (hc_chain c)" using c by (simp add: chains_below_def pos_def)
  qed
  have "best_ok ?d i ?T ?R rift lru best" unfolding best_def
  proof (rule chain_search_ok [where n = pos and P = "best_ok ?d i ?T ?R rift lru", OF _ c [folded pos_def] _ tab])
    show "best_ok ?d i ?T ?R rift lru no_match" by (simp add: best_ok_def no_match_def)
  qed (use i in \<open>simp add: consider_candidate_ok pos_def\<close>)
  moreover have le: "len \<le> bm_len best" unfolding e(1) by (rule cap_le)
  ultimately obtain cp where cp: "cp < pos" "i + bm_len best \<le> ?T" "dist = of_nat (pos - cp)"
    "off = classify ?R cp (pos - cp) rift lru" "\<forall>k<bm_len best. ?d ! (pos + k) = ?d ! (cp + k)"
    using len e by (auto simp: best_ok_def pos_def)
  have d: "1 \<le> pos - cp" "pos - cp < 2 ^ 31" using cp(1) i fit by (auto simp: pos_def)
  note R = classify_resolves [OF d, of ?R cp rift lru, folded cp(3,4)]
  have walk: "pos + len \<le> unat (snd (segment_at ort (of_nat pos)))" if sc: "off = source_copy_n"
  proof -
    have "cp < ?R" using classify_source_copy [OF d] cp(4) sc by metis
    then have "0 < ?R" "?R \<le> pos" "pos < ?R + ?T" using i by (auto simp: pos_def)
    then have "int pos < sint (snd (segment_at ort (of_nat pos)))"
      using seg unfolding segments_ahead_def by blast
    then show ?thesis using cap_source_copy_segment [of best pos ort] sc e(1,2) by simp
  qed
  have "match_right ort reference target i lru (off, len) dist"
    unfolding match_right_def Let_def pos_def [symmetric] rift_def [symmetric]
    using len le cp R(1) walk by auto
  moreover obtain slot flds where "offset_fields off = Inr (slot, flds)" "slot < 43"
    using match_fits_offset [OF e(4)] by blast
  moreover have "len < 2 ^ 32" using le cp(2) fit by simp
  ultimately show ?thesis using len R(2) by (auto simp: symbol_fits_def)
qed


section \<open>The parse is right\<close>

lemma chain_insert_below:
  assumes c: "chains_below n c" and p: "n \<le> p" "p < length (hc_chain c)"
  shows "chains_below (p + 1) (chain_insert d p c)" "length (hc_chain (chain_insert d p c)) = length (hc_chain c)"
proof -
  have h: "hash_slot d p < length (hc_table c)" using c hash_slot_less by (simp add: chains_below_def)
  show "length (hc_chain (chain_insert d p c)) = length (hc_chain c)" by (simp add: chain_insert_def Let_def)
  have sub: "set (hc_table (chain_insert d p c)) \<union> set (hc_chain (chain_insert d p c))
      \<subseteq> insert (Some p) (set (hc_table c) \<union> set (hc_chain c))"
    using set_update_subset_insert [of "hc_chain c" p] set_update_subset_insert [of "hc_table c" "hash_slot d p"] h nth_mem [OF h]
    unfolding chain_insert_def Let_def by (fastforce simp: subset_iff)
  have "q < p + 1 \<and> q < length (hc_chain c)"
    if "Some q \<in> set (hc_table (chain_insert d p c)) \<union> set (hc_chain (chain_insert d p c))" for q
  proof -
    from that sub have "q = p \<or> Some q \<in> set (hc_table c) \<union> set (hc_chain c)" by blast
    then show ?thesis using c p by (fastforce simp: chains_below_def)
  qed
  moreover have "length (hc_table (chain_insert d p c)) = 2 ^ 16"
    using c by (simp add: chain_insert_def Let_def chains_below_def)
  moreover have "length (hc_chain (chain_insert d p c)) = length (hc_chain c)" by (simp add: chain_insert_def Let_def)
  ultimately show "chains_below (p + 1) (chain_insert d p c)" unfolding chains_below_def by simp
qed

lemma chains_new_below: "chains_below 0 (chains_new n)"
  by (auto simp: chains_below_def chains_new_def)

lemma index_reference_below:
  "chains_below ref_len (index_reference d ref_len) \<and> length (hc_chain (index_reference d ref_len)) = length d"
  if "ref_len \<le> length d"
proof -
  have "chains_below m (fold (chain_insert d) [0..<m] (chains_new (length d)))
      \<and> length (hc_chain (fold (chain_insert d) [0..<m] (chains_new (length d)))) = length d"
    if "m \<le> length d" for m
    using that
  proof (induction m)
    case 0
    then show ?case using chains_new_below [of "length d"] by (simp add: chains_new_def)
  next
    case (Suc m)
    then show ?case using chain_insert_below [of m _ m d] by simp
  qed
  from this [of "ref_len - 2"] show ?thesis
    using that chains_below_mono [of "ref_len - 2" _ ref_len] by (auto simp: index_reference_def)
qed

lemma index_match_below:
  assumes "chains_below (pos + 1) c" "1 \<le> len" "length (hc_chain c) = length d"
  shows "chains_below (pos + len) (index_match d pos len c) \<and> length (hc_chain (index_match d pos len c)) = length d"
proof -
  have "chains_below (pos + m) (fold (\<lambda>j c. if pos + j + 2 < length d then chain_insert d (pos + j) c else c) [1..<m] c)
      \<and> length (hc_chain (fold (\<lambda>j c. if pos + j + 2 < length d then chain_insert d (pos + j) c else c) [1..<m] c)) = length d"
    if "1 \<le> m" for m
    using that
  proof (induction m rule: dec_induct)
    case base
    then show ?case using assms by simp
  next
    case (step m)
    define c1 where "c1 = fold (\<lambda>j c. if pos + j + 2 < length d then chain_insert d (pos + j) c else c) [1..<m] c"
    have c1: "chains_below (pos + m) c1" "length (hc_chain c1) = length d" using step.IH by (simp_all add: c1_def)
    have e: "fold (\<lambda>j c. if pos + j + 2 < length d then chain_insert d (pos + j) c else c) [1..<Suc m] c
        = (if pos + m + 2 < length d then chain_insert d (pos + m) c1 else c1)"
      using step.hyps by (simp add: c1_def)
    show ?case unfolding e using c1 chain_insert_below [OF c1(1), of "pos + m" d] chains_below_mono [OF c1(1)]
      by auto
  qed
  from this [OF assms(2)] show ?thesis by (simp add: index_match_def)
qed

lemma parse_loop_right:
  assumes fit: "length reference + length target < 2 ^ 31"
    and seg: "segments_ahead ort (length reference) (length reference + length target)"
  shows "i \<le> length target \<Longrightarrow> chains_below (length reference + i) c \<Longrightarrow>
    length (hc_chain c) = length reference + length target \<Longrightarrow>
    parses ort reference target i lru (parse_loop (reference @ target) target (length reference) ort i c lru)
    \<and> list_all symbol_fits (parse_loop (reference @ target) target (length reference) ort i c lru)"
proof (induction "length target - i" arbitrary: i c lru rule: less_induct)
  case less
  let ?d = "reference @ target" and ?R = "length reference" and ?T = "length target"
  show ?case
  proof (cases "i < ?T")
    case False
    then show ?thesis using less.prems(1) by (simp add: parse_loop.simps)
  next
    case True
    obtain len0 off0 dist0 where b: "best_match_at ?d i ?T ?R c lru ort = (len0, off0, dist0)"
      by (metis prod.exhaust)
    define c1 where "c1 = (if i + 2 < ?T then chain_insert ?d (?R + i) c else c)"
    have c1: "chains_below (?R + i + 1) c1" "length (hc_chain c1) = ?R + ?T"
      using chain_insert_below [OF less.prems(2), of "?R + i" ?d] less.prems chains_below_mono [OF less.prems(2)]
      by (auto simp: c1_def)
    define take_match where "take_match \<longleftrightarrow> len0 \<ge> 2 \<and> fst (best_match_at ?d (i + 1) ?T ?R c1 lru ort) \<le> len0"
    have p: "parse_loop ?d target ?R ort i c lru =
       (if take_match then
          (off0, len0) # parse_loop ?d target ?R ort (i + len0) (index_match ?d (?R + i) len0 c1) (lru_update lru dist0)
        else (unat (target ! i), 1) # parse_loop ?d target ?R ort (i + 1) c1 lru)"
      using True by (subst parse_loop.simps) (simp add: b Let_def c1_def take_match_def)
    show ?thesis
    proof (cases take_match)
      case t: True
      then have len0: "2 \<le> len0" by (simp add: take_match_def)
      note M = best_match_at_right [OF b len0 less.prems(2) fit seg]
      have i': "i + len0 \<le> ?T" using M by (simp add: match_right_def Let_def)
      have im: "chains_below (?R + (i + len0)) (index_match ?d (?R + i) len0 c1)"
        "length (hc_chain (index_match ?d (?R + i) len0 c1)) = ?R + ?T"
        using index_match_below [OF c1(1), of len0 ?d] len0 c1(2) by (simp_all add: add.assoc)
      have "?T - (i + len0) < ?T - i" using True len0 by simp
      from less.hyps [OF this i' im] have
        "parses ort reference target (i + len0) (lru_update lru dist0)
          (parse_loop ?d target ?R ort (i + len0) (index_match ?d (?R + i) len0 c1) (lru_update lru dist0))"
        "list_all symbol_fits (parse_loop ?d target ?R ort (i + len0) (index_match ?d (?R + i) len0 c1) (lru_update lru dist0))"
        by blast+
      moreover have "\<not> is_literal (off0, len0)" using len0 by (simp add: is_literal_def)
      ultimately show ?thesis unfolding p if_P [OF t] using M by auto
    next
      case f: False
      have lit: "is_literal (unat (target ! i), 1)"
        using unsigned_less [of "target ! i"] by (simp add: is_literal_def)
      have "?T - (i + 1) < ?T - i" using True by simp
      from less.hyps [OF this _ _ c1(2)] c1(1) True have
        "parses ort reference target (i + 1) lru (parse_loop ?d target ?R ort (i + 1) c1 lru)"
        "list_all symbol_fits (parse_loop ?d target ?R ort (i + 1) c1 lru)"
        by (auto simp: add.assoc)
      then show ?thesis unfolding p if_not_P [OF f] using lit True by (simp add: symbol_fits_def)
    qed
  qed
qed

lemma parse_target_right:
  assumes "length reference + length target < 2 ^ 31"
    and "segments_ahead ort (length reference) (length reference + length target)"
  shows "parses ort reference target 0 lru_new (parse_target reference target ort)"
    "list_all symbol_fits (parse_target reference target ort)"
  using parse_loop_right [OF assms, of 0 "index_reference (reference @ target) (length reference)" lru_new]
    index_reference_below [of "length reference" "reference @ target"]
  by (simp_all add: parse_target_def Let_def)

section \<open>Code lengths survive\<close>

definition enc_extra :: "(nat \<times> nat) option \<Rightarrow> bool list" where
  "enc_extra e = (case e of None \<Rightarrow> [] | Some (v, b) \<Rightarrow> word_bits (of_nat v :: u64) b)"

definition extra_ok :: "(nat \<times> nat) option \<Rightarrow> bool" where
  "extra_ok e \<longleftrightarrow> (case e of None \<Rightarrow> True | Some (v, b) \<Rightarrow> v < 2 ^ b \<and> b \<le> 6)"

lemma run_while_spec:
  "(\<forall>k<run_while P i cap. P (i + k)) \<and> run_while P i cap \<le> 127 \<and> run_while P i cap \<le> cap - i"
proof -
  let ?t = "takeWhile (\<lambda>k. P (i + k)) [0..<min 127 (cap - i)]"
  have l: "length ?t \<le> min 127 (cap - i)" using length_takeWhile_le [of _ "[0..<min 127 (cap - i)]"] by simp
  have "P (i + k)" if "k < length ?t" for k
  proof -
    have "?t ! k = k" using that l by (simp add: takeWhile_nth)
    then show ?thesis using that nth_mem [of k ?t] set_takeWhileD by fastforce
  qed
  then show ?thesis using l by (simp add: run_while_def)
qed

lemma encode_run_count_spec:
  assumes "4 \<le> n" "n \<le> 127"
  obtains base v where "encode_run_count n = (base, Some (v, base - 1))" "3 \<le> base" "base \<le> 7"
    "v < 2 ^ (base - 1)" "2 ^ (base - 1) + v = n"
proof -
  consider "n \<le> 7" | "8 \<le> n" "n \<le> 15" | "16 \<le> n" "n \<le> 31" | "32 \<le> n" "n \<le> 63" | "64 \<le> n"
    by linarith
  then show thesis
  proof cases
    case 1 show thesis by (rule that [of 3 "n - 4"]) (use 1 assms in \<open>auto simp: encode_run_count_def\<close>)
  next
    case 2 show thesis by (rule that [of 4 "n - 8"]) (use 2 assms in \<open>auto simp: encode_run_count_def\<close>)
  next
    case 3 show thesis by (rule that [of 5 "n - 16"]) (use 3 assms in \<open>auto simp: encode_run_count_def\<close>)
  next
    case 4 show thesis by (rule that [of 6 "n - 32"]) (use 4 assms in \<open>auto simp: encode_run_count_def\<close>)
  next
    case 5 show thesis by (rule that [of 7 "n - 64"]) (use 5 assms in \<open>auto simp: encode_run_count_def\<close>)
  qed
qed

lemma run_count_delivers:
  assumes b: "3 \<le> base" "base \<le> 7" "v < 2 ^ (base - 1)"
    and r: "reader_ok r" "rd_stream r = word_bits (of_nat v :: u64) (base - 1) @ rest"
  shows "delivers (run_count base r) (2 ^ (base - 1) + v) rest (rd_padding r)"
proof -
  have k: "base - 1 < 64" using b by simp
  note V = of_nat_field [OF b(3) k]
  have "delivers (read_bits r (base - 1)) (of_nat v) rest (rd_padding r)"
    using k V by (intro read_field [OF r]) auto
  then have "delivers (rbind (read_bits r (base - 1)) (\<lambda>(extra, r). Inr (push_bit (base - 1) 1 OR unat extra, r)))
      (2 ^ (base - 1) + v) rest (rd_padding r)"
  proof (rule delivers_bind, unfold prod.case V(2) push_bit_or [OF b(3)] mult_1)
  qed (rule deliversI)
  then show ?thesis unfolding run_count_def Let_def using b(1) by (simp only: if_not_P not_less)
qed

text \<open>What the encoder emits at an index is undone by the decoder's step.\<close>

lemma encode_length_at_step:
  assumes e: "encode_length_at lens prev i = (s, n)" and i: "i < length lens"
    and lens: "length lens = total_lengths" "\<forall>l\<in>set lens. l \<le> 16"
    and prev: "length prev = total_lengths" "\<forall>l\<in>set prev. l \<le> 16"
    and r: "reader_ok r" "rd_stream r = enc_extra (snd s) @ rest" "rd_padding r \<le> length rest"
  shows "fst s < 39 \<and> extra_ok (snd s) \<and> i + n \<le> length lens \<and> 0 < n
    \<and> delivers (length_step prev (take i lens) (fst s) r) (take (i + n) lens) rest (rd_padding r)"
proof -
  define pr where "pr = (if i + 3 < length lens then run_while (\<lambda>k. lens ! k = prev ! k) i (length lens - 1) else 0)"
  define fr where "fr = (if i > 0 then run_while (\<lambda>k. lens ! k = lens ! (i - 1)) i (length lens - 1) else 0)"
  have pr: "\<forall>k<pr. lens ! (i + k) = prev ! (i + k)" "pr \<le> 127" "pr \<le> length lens - 1 - i"
    using run_while_spec [of "\<lambda>k. lens ! k = prev ! k" i "length lens - 1"] by (auto simp: pr_def)
  have fr: "\<forall>k<fr. lens ! (i + k) = lens ! (i - 1)" "fr \<le> 127" "fr \<le> length lens - 1 - i"
    using run_while_spec [of "\<lambda>k. lens ! k = lens ! (i - 1)" i "length lens - 1"] by (auto simp: fr_def)
  have ti: "length (take i lens) = i" using i by simp
  note E = e [unfolded encode_length_at_def Let_def, folded pr_def fr_def]
  consider (prev) "4 \<le> pr" | (fill) "\<not> 4 \<le> pr" "4 \<le> fr" | (one) "\<not> 4 \<le> pr" "\<not> 4 \<le> fr" by blast
  then show ?thesis
  proof cases
    case prev
    obtain base v where c: "encode_run_count pr = (base, Some (v, base - 1))" "3 \<le> base" "base \<le> 7"
      "v < 2 ^ (base - 1)" "2 ^ (base - 1) + v = pr"
      using encode_run_count_spec [OF prev pr(2)] by blast
    have s: "s = (base + 8 + 23, Some (v, base - 1))" "n = pr"
      using E prev c(1) by simp_all
    have "delivers (run_count base r) pr rest (rd_padding r)"
      using run_count_delivers [OF c(2,3,4) r(1), of rest] r(2) c(5) by (simp add: s enc_extra_def)
    then obtain r1 where r1: "run_count base r = Inr (pr, r1)" "reader_ok r1" "rd_stream r1 = rest"
      "rd_padding r1 = rd_padding r" by (auto simp: delivers_def)
    have rng: "i + pr < total_lengths" using pr(3) i prev lens(1) by simp
    have "take i lens @ subrange i (i + pr) prev = take (i + pr) lens"
    proof (rule nth_equalityI)
      show "length (take i lens @ subrange i (i + pr) prev) = length (take (i + pr) lens)"
        using rng lens(1) prev assms(5) by simp
      fix k assume "k < length (take i lens @ subrange i (i + pr) prev)"
      then have "k < i + pr" using ti by simp
      then show "(take i lens @ subrange i (i + pr) prev) ! k = take (i + pr) lens ! k"
        using pr(1) [rule_format, of "k - i"] rng assms(5) lens(1)
        by (cases "k < i") (auto simp: nth_append nth_subrange)
    qed
    moreover have "(base + 8 + 23 - 23) mod 8 = base mod 8" "base < 8 \<or> base = 8" "\<not> base + 8 < 8" using c(3) by auto
    moreover have "base mod 8 = base" using c(3) by simp
    ultimately have "length_step prev (take i lens) (fst s) r = Inr (take (i + n) lens, r1)"
      using r1(1) rng assms(5) prev ti s c(2,3) by (simp add: length_step_def Let_def)
    then show ?thesis using r1 s c rng prev lens(1) by (simp add: extra_ok_def delivers_def)
  next
    case fill
    obtain base v where c: "encode_run_count fr = (base, Some (v, base - 1))" "3 \<le> base" "base \<le> 7"
      "v < 2 ^ (base - 1)" "2 ^ (base - 1) + v = fr"
      using encode_run_count_spec [OF fill(2) fr(2)] by blast
    have s: "s = (base + 23, Some (v, base - 1))" "n = fr"
      using E fill c(1) by simp_all
    have "delivers (run_count base r) fr rest (rd_padding r)"
      using run_count_delivers [OF c(2,3,4) r(1), of rest] r(2) c(5) by (simp add: s enc_extra_def)
    then obtain r1 where r1: "run_count base r = Inr (fr, r1)" "reader_ok r1" "rd_stream r1 = rest"
      "rd_padding r1 = rd_padding r" by (auto simp: delivers_def)
    have rng: "i + fr < total_lengths" using fr(3) i fill lens(1) by simp
    have i0: "0 < i" using fill(2) by (simp add: fr_def split: if_splits)
    have la: "last (take i lens) = lens ! (i - 1)"
    proof -
      have "take i lens \<noteq> []" using i0 i by auto
      then show ?thesis using i0 i by (simp add: last_conv_nth)
    qed
    have "take i lens @ replicate fr (lens ! (i - 1)) = take (i + fr) lens"
    proof (rule nth_equalityI)
      show "length (take i lens @ replicate fr (lens ! (i - 1))) = length (take (i + fr) lens)"
        using rng lens(1) by simp
      fix k assume "k < length (take i lens @ replicate fr (lens ! (i - 1)))"
      then have "k < i + fr" using ti by simp
      then show "(take i lens @ replicate fr (lens ! (i - 1))) ! k = take (i + fr) lens ! k"
        using fr(1) [rule_format, of "k - i"] rng lens(1)
        by (cases "k < i") (auto simp: nth_append)
    qed
    then have "length_step prev (take i lens) (fst s) r = Inr (take (i + n) lens, r1)"
      using r1(1) rng la ti s c(2,3) i0 by (simp add: length_step_def Let_def)
    then show ?thesis using r1 s c rng fill lens(1) by (simp add: extra_ok_def delivers_def)
  next
    case one
    define diff where "diff = int (lens ! i) - int (prev ! i)"
    have b: "lens ! i \<le> 16" "prev ! i \<le> 16" using lens prev i by (auto simp: all_set_conv_all_nth)
    have n: "n = 1" "snd s = None" and s: "fst s = (if diff = 1 then 17 else if diff = 2 then 18 else if diff = 3 then 19
                else if diff = - 1 then 20 else if diff = - 2 then 21 else if diff = - 3 then 22 else lens ! i)"
      using E [folded diff_def] one by auto
    have ix: "index prev i = Inr (prev ! i)" using i lens(1) prev(1) by simp
    have t1: "take (i + 1) lens = take i lens @ [lens ! i]" using i by (simp add: take_Suc_conv_app_nth)
    have "diff = - 1 \<Longrightarrow> prev ! i = lens ! i + 1" "diff = - 2 \<Longrightarrow> prev ! i = lens ! i + 2"
      "diff = - 3 \<Longrightarrow> prev ! i = lens ! i + 3" by (simp_all add: diff_def)
    then have "diff = - 1 \<Longrightarrow> (255 + prev ! i) mod 256 = lens ! i" "diff = - 2 \<Longrightarrow> (254 + prev ! i) mod 256 = lens ! i"
      "diff = - 3 \<Longrightarrow> (253 + prev ! i) mod 256 = lens ! i" using b(1) by simp_all
    moreover have "diff = 1 \<Longrightarrow> lens ! i = prev ! i + 1" "diff = 2 \<Longrightarrow> lens ! i = prev ! i + 2"
      "diff = 3 \<Longrightarrow> lens ! i = prev ! i + 3" by (simp_all add: diff_def)
    ultimately have "length_step prev (take i lens) (fst s) r = Inr (take i lens @ [lens ! i], r)"
      using b s ix ti by (auto simp: length_step_def Let_def split: if_splits)
    moreover have "fst s < 39" using b(1) by (simp add: s)
    ultimately show ?thesis using n r i t1 by (simp add: extra_ok_def enc_extra_def delivers_def)
  qed
qed


definition enc_pretree_symbol :: "huffman_table \<Rightarrow> pretree_symbol \<Rightarrow> bool list" where
  "enc_pretree_symbol pt s = code_of pt (fst s) @ enc_extra (snd s)"

definition enc_pretree_symbols :: "huffman_table \<Rightarrow> pretree_symbol list \<Rightarrow> bool list" where
  "enc_pretree_symbols pt syms = concat (map (enc_pretree_symbol pt) syms)"

definition pretree_codes :: "huffman_table \<Rightarrow> pretree_symbol list \<Rightarrow> bool" where
  "pretree_codes pt syms \<longleftrightarrow> tab_ok pt pretree_symbols
     \<and> (\<forall>s\<in>set syms. has_code pt (fst s) \<and> extra_ok (snd s))"

lemma write_pretree_symbols_spec:
  assumes "pretree_codes pt syms" "writer_ok w"
  shows "writer_ok (foldl (write_pretree_symbol pt) w syms) \<and>
    wr_stream (foldl (write_pretree_symbol pt) w syms) = wr_stream w @ enc_pretree_symbols pt syms"
  using assms
proof (induction syms arbitrary: w)
  case (Cons s syms)
  obtain v e where s: "s = (v, e)" by (cases s)
  have pt: "tab_ok pt 39" "has_code pt v" "extra_ok e"
    using Cons.prems(1) by (simp_all add: pretree_codes_def pretree_symbols_def s)
  have W: "writer_ok (write_symbol pt w (of_nat v))"
    "wr_stream (write_symbol pt w (of_nat v)) = wr_stream w @ code_of pt v"
    using write_code [OF pt(1,2) _ Cons.prems(2)] by simp_all
  have "writer_ok (write_pretree_symbol pt w s) \<and>
      wr_stream (write_pretree_symbol pt w s) = wr_stream w @ enc_pretree_symbol pt s"
  proof (cases e)
    case None
    then show ?thesis using W by (simp add: write_pretree_symbol_def s enc_pretree_symbol_def enc_extra_def)
  next
    case (Some p)
    then have "snd p \<le> 64" using pt(3) by (auto simp: extra_ok_def)
    with W Some show ?thesis
      by (cases p) (simp add: write_pretree_symbol_def s enc_pretree_symbol_def enc_extra_def write_bits_spec)
  qed
  moreover have "pretree_codes pt syms" using Cons.prems(1) by (simp add: pretree_codes_def)
  ultimately show ?case using Cons.IH [of "write_pretree_symbol pt w s"]
    by (simp add: enc_pretree_symbols_def)
qed (simp add: enc_pretree_symbols_def)

definition lengths_ok :: "nat list \<Rightarrow> bool" where
  "lengths_ok lens \<longleftrightarrow> length lens = total_lengths \<and> (\<forall>l\<in>set lens. l \<le> 16)"

lemma read_lengths_loop_delivers:
  assumes l: "lengths_ok lens" "lengths_ok prev"
  shows "pretree_codes pt (encode_lengths_from lens prev i) \<Longrightarrow> i \<le> length lens \<Longrightarrow> reader_ok r \<Longrightarrow>
    rd_stream r = enc_pretree_symbols pt (encode_lengths_from lens prev i) @ rest \<Longrightarrow>
    rd_padding r \<le> length rest \<Longrightarrow>
    delivers (read_lengths_loop pt prev (take i lens) r) lens rest (rd_padding r)"
proof (induction "length lens - i" arbitrary: i r rule: less_induct)
  case less
  have L: "length lens = total_lengths" "\<forall>l\<in>set lens. l \<le> 16" "length prev = total_lengths" "\<forall>l\<in>set prev. l \<le> 16"
    using l by (simp_all add: lengths_ok_def)
  show ?case
  proof (cases "i < length lens")
    case False
    then have "rd_stream r = rest" "take i lens = lens" using less.prems(4)
      by (simp_all add: encode_lengths_from.simps enc_pretree_symbols_def)
    then show ?thesis using less.prems L(1) by (subst read_lengths_loop.simps) (simp add: deliversI)
  next
    case True
    obtain s n where e: "encode_length_at lens prev i = (s, n)" by (metis prod.exhaust)
    have f: "encode_lengths_from lens prev i = s # encode_lengths_from lens prev (i + n)"
      using True e by (subst encode_lengths_from.simps) simp
    have pt: "tab_ok pt pretree_symbols" "has_code pt (fst s)" "pretree_codes pt (encode_lengths_from lens prev (i + n))"
      using less.prems(1) unfolding f by (simp_all add: pretree_codes_def)
    let ?tl = "enc_pretree_symbols pt (encode_lengths_from lens prev (i + n)) @ rest"
    have st: "rd_stream r = code_of pt (fst s) @ enc_extra (snd s) @ ?tl"
      using less.prems(4) unfolding f by (simp add: enc_pretree_symbols_def enc_pretree_symbol_def)
    have "delivers (read_symbol pt r) (of_nat (fst s)) (enc_extra (snd s) @ ?tl) (rd_padding r)"
      using less.prems(3,5) by (intro read_code [OF pt(1,2)] st) simp_all
    then obtain r1 where r1: "read_symbol pt r = Inr (of_nat (fst s), r1)" "reader_ok r1"
      "rd_stream r1 = enc_extra (snd s) @ ?tl" "rd_padding r1 = rd_padding r" by (auto simp: delivers_def)
    have "rd_padding r1 \<le> length ?tl" using r1(4) less.prems(5) by simp
    note S = encode_length_at_step [OF e True L r1(2,3) this]
    have us: "unat (of_nat (fst s) :: u16) = fst s" using S by (simp add: unat_of_nat)
    obtain r2 where r2: "length_step prev (take i lens) (fst s) r1 = Inr (take (i + n) lens, r2)" "reader_ok r2"
      "rd_stream r2 = ?tl" "rd_padding r2 = rd_padding r" using S r1(4) by (auto simp: delivers_def)
    have "0 < n" using S by blast
    then have "length lens - (i + n) < length lens - i" using True by linarith
    from less.hyps [OF this pt(3) _ r2(2,3)] S r2(4) less.prems(5)
    have "delivers (read_lengths_loop pt prev (take (i + n) lens) r2) lens rest (rd_padding r)" by simp
    moreover have "read_lengths_loop pt prev (take i lens) r = read_lengths_loop pt prev (take (i + n) lens) r2"
      using True L(1) r1(1) us r2(1) by (subst read_lengths_loop.simps) simp
    ultimately show ?thesis by simp
  qed
qed

lemma read_compression_lengths_delivers:
  assumes "lengths_ok lens" "lengths_ok prev" "pretree_codes pt (encode_compression_lengths lens prev)"
    and "reader_ok r" "rd_stream r = enc_pretree_symbols pt (encode_compression_lengths lens prev) @ rest"
    and "rd_padding r \<le> length rest"
  shows "delivers (read_compression_lengths r pt prev) lens rest (rd_padding r)"
proof -
  have "delivers (read_lengths_loop pt prev [] r) lens rest (rd_padding r)"
    using read_lengths_loop_delivers [OF assms(1,2), of pt 0 r rest] assms(3-6)
    by (simp add: encode_compression_lengths_def)
  then have "delivers (rbind (read_lengths_loop pt prev [] r) (\<lambda>(res, r).
       if \<exists>l\<in>set res. l > 16 then Inl (Malformed ''code length exceeds maximum'') else Inr (res, r)))
      lens rest (rd_padding r)"
    by (rule delivers_bind) (use assms(1) in \<open>auto simp: lengths_ok_def not_less intro!: deliversI\<close>)
  then show ?thesis by (simp add: read_compression_lengths_def)
qed

section \<open>The composite header\<close>

lemma from_lengths_tab: "tab_ok tb n \<Longrightarrow> from_lengths (ht_lengths tb) = Inr tb"
  using from_lengths_complete [of "ht_lengths tb"] by (simp add: tab_ok_def)

lemma all_lengths_ok: "tables_ok t \<Longrightarrow> lengths_ok (all_lengths t)"
  by (auto simp: tables_ok_def tab_ok_def lengths_ok_def all_lengths_def complete_def alphabet_defs)

lemma segment_tables_all_lengths: "tables_ok t \<Longrightarrow> segment_tables_from_lengths (all_lengths t) = Inr t"
proof -
  assume t: "tables_ok t"
  have l: "length (ht_lengths (st_main t)) = 600" "length (ht_lengths (st_lengths t)) = 256"
    "length (ht_lengths (st_aligned t)) = 16"
    and ok: "tab_ok (st_main t) 600" "tab_ok (st_lengths t) 256" "tab_ok (st_aligned t) 16"
    using t by (simp_all add: tables_ok_def tab_ok_def alphabet_defs)
  have "take 600 (all_lengths t) = ht_lengths (st_main t)"
    "subrange 600 856 (all_lengths t) = ht_lengths (st_lengths t)"
    "drop 856 (all_lengths t) = ht_lengths (st_aligned t)" "length (all_lengths t) = 872"
    using l by (simp_all add: all_lengths_def subrange_def)
  then show ?thesis using from_lengths_tab [OF ok(1)] from_lengths_tab [OF ok(2)] from_lengths_tab [OF ok(3)]
    by (simp add: segment_tables_from_lengths_def alphabet_defs)
qed

lemma read_segments_delivers:
  assumes "list_all tables_ok ts" "lengths_ok prev"
    and "pretree_codes pt (concat (segment_symbols ts prev))"
    and "reader_ok r" "rd_stream r = enc_pretree_symbols pt (concat (segment_symbols ts prev)) @ rest"
    and "rd_padding r \<le> length rest"
  shows "delivers (read_segments pt (length ts) prev r) ts rest (rd_padding r)"
  using assms
proof (induction ts arbitrary: prev r)
  case Nil
  then show ?case by (simp add: enc_pretree_symbols_def deliversI)
next
  case (Cons t ts)
  let ?s = "encode_compression_lengths (all_lengths t) prev"
  let ?tl = "enc_pretree_symbols pt (concat (segment_symbols ts (all_lengths t))) @ rest"
  have t: "tables_ok t" "list_all tables_ok ts" using Cons.prems(1) by simp_all
  have pc: "pretree_codes pt ?s" "pretree_codes pt (concat (segment_symbols ts (all_lengths t)))"
    using Cons.prems(3) by (auto simp: pretree_codes_def)
  have "rd_stream r = enc_pretree_symbols pt ?s @ ?tl"
    using Cons.prems(5) by (simp add: enc_pretree_symbols_def)
  then obtain r1 where r1: "read_compression_lengths r pt prev = Inr (all_lengths t, r1)" "reader_ok r1"
    "rd_stream r1 = ?tl" "rd_padding r1 = rd_padding r"
    using read_compression_lengths_delivers [OF all_lengths_ok [OF t(1)] Cons.prems(2) pc(1) Cons.prems(4), of ?tl] Cons.prems(6)
    by (auto simp: delivers_def)
  have "delivers (read_segments pt (length ts) (all_lengths t) r1) ts rest (rd_padding r)"
    using Cons.IH [OF t(2) all_lengths_ok [OF t(1)] pc(2) r1(2,3)] Cons.prems(6) r1(4) by simp
  then show ?case using r1(1) segment_tables_all_lengths [OF t(1)] by (auto simp: delivers_def)
qed

fun boundary_deltas :: "i64 \<Rightarrow> nat list \<Rightarrow> i64 list" where
  "boundary_deltas prev [] = []"
| "boundary_deltas prev (b # bs) = (of_nat b - prev) # boundary_deltas (of_nat b) bs"

lemma write_boundaries_spec:
  "writer_ok w \<Longrightarrow> writer_ok (write_boundaries w prev bs) \<and>
    wr_stream (write_boundaries w prev bs) = wr_stream w @ concat (map enc_i64 (boundary_deltas prev bs))"
  by (induction bs arbitrary: w prev) (simp_all add: write_i64_spec)

lemma read_varint:
  assumes "reader_ok r" "rd_stream r = enc_i64 v @ rest" "rd_padding r \<le> length rest"
  shows "delivers (read_i64 r) v rest (rd_padding r)"
  using varint.get_enc [OF assms(1) TrueI assms(2), of "align_len (length (rd_stream r))"] assms(3)
    align_len(2) [of "length (rd_stream r)"] by (simp add: add.commute)

lemma read_boundaries_delivers:
  assumes "\<forall>b\<in>set bs. b < 2 ^ 62" "p < 2 ^ 62"
    and "reader_ok r" "rd_stream r = concat (map enc_i64 (boundary_deltas (of_nat p) bs)) @ rest"
    and "rd_padding r \<le> length rest"
  shows "delivers (read_boundaries (length bs) (of_nat p) r) (map of_nat bs) rest (rd_padding r)"
  using assms
proof (induction bs arbitrary: p r)
  case Nil
  then show ?case by (simp add: deliversI)
next
  case (Cons b bs)
  let ?tl = "concat (map enc_i64 (boundary_deltas (of_nat b) bs)) @ rest"
  have b: "b < 2 ^ 62" using Cons.prems(1) by simp
  obtain r1 where r1: "read_i64 r = Inr (of_nat b - of_nat p, r1)" "reader_ok r1" "rd_stream r1 = ?tl"
    "rd_padding r1 = rd_padding r"
    using read_varint [OF Cons.prems(3), of "of_nat b - of_nat p" ?tl] Cons.prems(4,5) by (auto simp: delivers_def)
  have s: "sint (of_nat p :: i64) = int p" "sint (of_nat b :: i64) = int b"
    using b Cons.prems(2) by (simp_all add: sint_of_nat_small)
  have "sint (of_nat b - of_nat p :: i64) = int b - int p"
    using b Cons.prems(2) by (simp add: s sint_word_ariths signed_take_bit_int_eq_self)
  then have fits: "i64_fits (sint (of_nat p :: i64) + sint (of_nat b - of_nat p :: i64))"
    using b by (simp add: s i64_fits_def)
  have "delivers (read_boundaries (length bs) (of_nat b) r1) (map of_nat bs) rest (rd_padding r)"
    using Cons.IH [of b r1] b r1 Cons.prems(1,5) by simp
  then show ?case using r1(1) fits by (auto simp: delivers_def)
qed

lemma write_pretree_spec:
  assumes "tab_ok pt pretree_symbols" "writer_ok w"
  shows "writer_ok (write_pretree pt w) \<and> wr_stream (write_pretree pt w)
    = wr_stream w @ concat (map (\<lambda>l. word_bits (of_nat l :: u64) 4) (ht_lengths pt))"
proof -
  have A: "writer_ok (foldl (\<lambda>w i. write_bits w (of_nat (ht_lengths pt ! i)) 4) w is) \<and>
    wr_stream (foldl (\<lambda>w i. write_bits w (of_nat (ht_lengths pt ! i)) 4) w is)
      = wr_stream w @ concat (map (\<lambda>l. word_bits (of_nat l :: u64) 4) (map ((!) (ht_lengths pt)) is))" for "is"
    using assms(2) by (induction "is" arbitrary: w) (simp_all add: write_bits_spec)
  have B: "map ((!) (ht_lengths pt)) [0..<pretree_symbols] = ht_lengths pt"
    using assms(1) map_nth [of "ht_lengths pt"] by (simp add: tab_ok_def)
  show ?thesis using A [of "[0..<pretree_symbols]", unfolded B] by (simp add: write_pretree_def)
qed

lemma read_pretree_lengths_delivers:
  assumes "\<forall>l\<in>set ls. l < 16" "reader_ok r"
    and "rd_stream r = concat (map (\<lambda>l. word_bits (of_nat l :: u64) 4) ls) @ rest"
  shows "delivers (read_pretree_lengths (length ls) r) ls rest (rd_padding r)"
  using assms
proof (induction ls arbitrary: r)
  case Nil
  then show ?case by (simp add: deliversI)
next
  case (Cons l ls)
  have l: "l < 2 ^ 4" using Cons.prems(1) by simp
  note L = of_nat_field [OF l]
  obtain r1 where r1: "read_bits r 4 = Inr (of_nat l, r1)" "reader_ok r1" "rd_padding r1 = rd_padding r"
    "rd_stream r1 = concat (map (\<lambda>l. word_bits (of_nat l :: u64) 4) ls) @ rest"
    using read_field [OF Cons.prems(2), of "of_nat l" 4] L Cons.prems(3) by (auto simp: delivers_def)
  have "delivers (read_pretree_lengths (length ls) r1) ls rest (rd_padding r1)"
    using Cons.IH [OF _ r1(2,4)] Cons.prems(1) by simp
  then show ?case using r1 L by (auto simp: delivers_def)
qed

text \<open>The bits of the header and that it reads back as the tables it was written from.\<close>

definition enc_composite :: "huffman_table \<Rightarrow> segment_tables list \<Rightarrow> nat list \<Rightarrow> bool list" where
  "enc_composite pt ts bounds =
     enc_i64 (of_nat (length ts)) @ concat (map enc_i64 (boundary_deltas 0 bounds))
     @ concat (map (\<lambda>l. word_bits (of_nat l :: u64) 4) (ht_lengths pt))
     @ enc_pretree_symbols pt (concat (segment_symbols ts (replicate total_lengths 0)))"

lemma read_composite_delivers:
  assumes ts: "list_all tables_ok ts" "ts \<noteq> []" "length ts \<le> 1024" "length bounds = length ts" "\<forall>b\<in>set bounds. b < 2 ^ 62"
    and pt: "pretree_codes pt (concat (segment_symbols ts (replicate total_lengths 0)))" "\<forall>l\<in>set (ht_lengths pt). l < 16"
    and r: "reader_ok r" "rd_stream r = enc_composite pt ts bounds @ rest" "rd_padding r \<le> length rest"
  shows "delivers (read_composite_format r) \<lparr>cf_segments = ts, cf_boundaries = map of_nat bounds\<rparr> rest (rd_padding r)"
proof -
  let ?s3 = "enc_pretree_symbols pt (concat (segment_symbols ts (replicate total_lengths 0))) @ rest"
  let ?s2 = "concat (map (\<lambda>l. word_bits (of_nat l :: u64) 4) (ht_lengths pt)) @ ?s3"
  let ?s1 = "concat (map enc_i64 (boundary_deltas (of_nat 0) bounds)) @ ?s2"
  obtain r1 where r1: "read_i64 r = Inr (of_nat (length ts), r1)" "reader_ok r1" "rd_stream r1 = ?s1"
    "rd_padding r1 = rd_padding r"
    using read_varint [OF r(1), of "of_nat (length ts)" ?s1] r(2,3) by (auto simp: delivers_def enc_composite_def)
  obtain r2 where r2: "read_boundaries (length ts) 0 r1 = Inr (map of_nat bounds, r2)" "reader_ok r2" "rd_stream r2 = ?s2"
    "rd_padding r2 = rd_padding r"
    using read_boundaries_delivers [OF ts(5) _ r1(2,3)] r(3) r1(4) ts(4) by (auto simp: delivers_def)
  have lp: "length (ht_lengths pt) = pretree_symbols" and tp: "tab_ok pt pretree_symbols"
    using pt(1) by (simp_all add: pretree_codes_def tab_ok_def)
  obtain r3 where r3: "read_pretree_lengths pretree_symbols r2 = Inr (ht_lengths pt, r3)" "reader_ok r3"
    "rd_stream r3 = ?s3" "rd_padding r3 = rd_padding r"
    using read_pretree_lengths_delivers [OF pt(2) r2(2,3)] r2(4) by (auto simp: delivers_def lp)
  have z: "lengths_ok (replicate total_lengths 0)" by (simp add: lengths_ok_def)
  obtain r4 where r4: "read_segments pt (length ts) (replicate total_lengths 0) r3 = Inr (ts, r4)" "reader_ok r4"
    "rd_stream r4 = rest" "rd_padding r4 = rd_padding r"
    using read_segments_delivers [OF ts(1) z pt(1) r3(2,3)] r3(4) r(3) by (auto simp: delivers_def)
  have u: "unat (of_nat (length ts) :: i64) = length ts" using ts(3) by (simp add: unat_of_nat)
  have "\<not> (length ts = 0 \<or> length ts > 1024)" using ts(2,3) by simp
  then have "read_composite_format r = Inr (\<lparr>cf_segments = ts, cf_boundaries = map of_nat bounds\<rparr>, r4)"
    unfolding read_composite_format_def Let_def r1(1) rbind_Inr prod.case u r2(1) r3(1)
      from_lengths_tab [OF tp] r4(1) by (simp only: if_False)
  then show ?thesis using r4 by (simp add: delivers_def)
qed

section \<open>Every symbol of the parse has a code\<close>

lemma set_list_update_le: "\<forall>x\<in>set xs. x \<le> (b::nat) \<Longrightarrow> y \<le> b \<Longrightarrow> \<forall>x\<in>set (xs[i := y]). x \<le> b"
  using set_update_subset_insert [of xs i y] by auto

lemma frequency_lengths_single_le:
  assumes "length (active_symbols freqs) = 1"
  shows "\<forall>l\<in>set (frequency_lengths freqs ml). l \<le> 1"
proof -
  have "active_symbols freqs \<noteq> []" using assms by auto
  moreover have "\<forall>l\<in>set ((replicate (length freqs) (0::nat))[a := 1]). l \<le> 1" for a
    by (rule set_list_update_le) simp_all
  moreover from this have "\<forall>l\<in>set ((replicate (length freqs) (0::nat))[a := 1, b := 1]). l \<le> 1" for a b
    by (intro set_list_update_le) simp_all
  ultimately show ?thesis using assms
    by (simp add: frequency_lengths_def Let_def split: option.split)
qed

lemma from_frequencies_limited:
  assumes n: "2 \<le> length freqs" "length freqs \<le> 2 ^ 10" and act: "s < length freqs" "0 < freqs ! s"
  obtains tb where "from_frequencies freqs 15 = Inr tb" "tab_ok tb (length freqs)"
    "\<And>s. s < length freqs \<Longrightarrow> 0 < freqs ! s \<Longrightarrow> has_code tb s" "\<forall>l\<in>set (ht_lengths tb). l < 16"
proof -
  let ?a = "active_symbols freqs" and ?l = "frequency_lengths freqs 15"
  have a: "1 \<le> length ?a" "length ?a \<le> 2 ^ 10"
    using length_pos_if_in_set [of s ?a] active_symbols_iff [of s freqs] act n(2)
      length_filter_le [of "\<lambda>i. freqs ! i > 0" "[0..<length freqs]"]
    by (simp_all add: active_symbols_def Suc_le_eq)
  have l: "complete ?l \<and> length ?l = length freqs \<and> (\<forall>s<length freqs. 0 < freqs ! s \<longrightarrow> 0 < ?l ! s) \<and> (\<forall>l\<in>set ?l. l \<le> 15)"
  proof (cases "length ?a = 1")
    case True
    then show ?thesis using frequency_lengths_single [OF True n(1), of 15] frequency_lengths_single_le [OF True, of 15]
      by (meson le_trans numeral_le_one_iff one_le_numeral)
  next
    case False
    then have "2 \<le> length ?a" "length ?a \<le> 2 ^ 15" "length ?a * 15 < 1000000" using a by simp_all
    from frequency_lengths_full [OF this(1,2) _ _ this(3)] show ?thesis by simp
  qed
  then have tb: "from_frequencies freqs 15 = Inr (table_of (Max (set ?l)) ?l)"
    using from_lengths_complete [of ?l] n(1) by (auto simp: from_frequencies_def)
  show thesis
  proof (rule that [OF tb])
    show "tab_ok (table_of (Max (set ?l)) ?l) (length freqs)" using l tab_ok_table_of [of ?l] by simp
    show "has_code (table_of (Max (set ?l)) ?l) s" if "s < length freqs" "0 < freqs ! s" for s
      using l that by (simp add: has_code_def)
    show "\<forall>l\<in>set (ht_lengths (table_of (Max (set ?l)) ?l)). l < 16" using l by fastforce
  qed
qed

lemma length_bump [simp]: "length (bump s fs) = length fs"
  by (simp add: bump_def)

lemma bump_mono: "fs ! j \<le> bump s fs ! j"
  by (simp add: bump_def nth_list_update_any)

lemma bump_pos: "s < length fs \<Longrightarrow> 0 < bump s fs ! s"
  by (simp add: bump_def)

text \<open>The fields of an offset and what the statistics say about it.\<close>

lemma offset_fields_shape:
  assumes e: "offset_fields raw = Inr (slot, flds)"
  shows "(\<exists>x. compute_symbol_info raw = (slot, x, aligned_field \<in> set flds))
    \<and> (\<forall>f\<in>set flds. fst f \<noteq> - 1 \<longrightarrow> 0 < snd f \<and> snd f \<le> 64)
    \<and> (\<forall>f\<in>set flds. fst f = - 1 \<longrightarrow> f = aligned_field)"
proof -
  consider (sc) "raw = source_copy_n" | (lru) "lru_base_n \<le> raw" "raw < lru_base_n + 3"
    | (base) "raw_offset_base_n + 1 \<le> raw" | (delta) "raw < source_copy_n"
    by linarith
  then show ?thesis
  proof cases
    case sc
    then show ?thesis using e by (simp add: offset_fields_def compute_symbol_info_def)
  next
    case lru
    then show ?thesis using e by (simp add: offset_fields_def compute_symbol_info_def)
  next
    case base
    define dist where "dist = raw - raw_offset_base_n"
    have ne: "raw \<noteq> source_copy_n" "\<not> (lru_base_n \<le> raw \<and> raw < lru_base_n + 3)" "raw_offset_base_n \<le> raw" "dist \<noteq> 0"
      using base by (simp_all add: dist_def)
    show ?thesis
    proof (cases "dist \<le> 3")
      case True
      then show ?thesis using e ne
        by (simp add: offset_fields_def compute_symbol_info_def Let_def del: upt_rec_numeral flip: dist_def)
    next
      case False
      obtain adj where f: "find_slot dist [4..<64] = Some (adj, flds)" "slot = adj + 7"
        using e False ne by (auto simp: offset_fields_def Let_def simp flip: dist_def simp del: upt_rec_numeral
          split: option.splits)
      from find_slot_SomeD [OF f(1)] have a: "4 \<le> adj" "adj < 64" "try_slot dist adj = Some flds" by auto
      note F = try_slot_fields [OF a(3,1,2)]
      have "map_option (\<lambda>(s, e, na). (s, na)) (find_info dist [4..<64]) = Some (adj + 7, 4 \<le> adj div 2 - 1)"
        using find_info_slot [of "[4..<64]" dist] f(1) by (simp del: upt_rec_numeral)
      then obtain x where "find_info dist [4..<64] = Some (adj + 7, x, 4 \<le> adj div 2 - 1)" by auto
      then have "compute_symbol_info raw = (adj + 7, x, 4 \<le> adj div 2 - 1)"
        using False ne by (simp add: compute_symbol_info_def Let_def del: upt_rec_numeral flip: dist_def)
      then show ?thesis using F f(2) by auto
    qed
  next
    case delta
    define s where "s = int raw - offset_bias_n"
    have s: "- 0x2a000 \<le> s" "s < 0x2a000" using delta by (simp_all add: s_def)
    have ne: "raw \<noteq> source_copy_n" "\<not> lru_base_n \<le> raw" "\<not> raw_offset_base_n \<le> raw" using delta by simp_all
    have fld: "(of_int v :: u64) \<noteq> - 1" if "0 \<le> v" "v < 2 ^ 18" for v
    proof -
      have "(of_int v :: u64) = of_nat (nat v)" using that(1) by simp
      moreover have "nat v < 2 ^ 18" using that by (simp add: nat_less_iff)
      ultimately show ?thesis using of_nat_field(3) [of "nat v" 18] by simp
    qed
    consider (s0) "- 0x2000 \<le> s" "s < 0x2000" | (s1) "- 0xA000 \<le> s" "s < 0xA000" "\<not> (- 0x2000 \<le> s \<and> s < 0x2000)"
      | (s2) "\<not> (- 0xA000 \<le> s \<and> s < 0xA000)" "\<not> (- 0x2000 \<le> s \<and> s < 0x2000)" by linarith
    then show ?thesis
    proof cases
      case s0
      then have "slot = 0" "flds = [(of_int (s + 0x2000), 14)]" "compute_symbol_info raw = (0, 0, False)"
        using e ne by (simp_all add: offset_fields_def compute_symbol_info_def Let_def flip: s_def)
      then show ?thesis using fld [of "s + 0x2000"] s0 by (simp add: aligned_field_def)
    next
      case s1
      let ?v = "if s < - 0x2000 then s + 0xA000 else s + 0x6000"
      have "slot = 1" "flds = [(of_int ?v, 16)]" "compute_symbol_info raw = (1, 0, False)"
        using e ne s1 by (auto simp: offset_fields_def compute_symbol_info_def Let_def simp flip: s_def)
      then show ?thesis using fld [of ?v] s1 by (simp add: aligned_field_def split: if_splits)
    next
      case s2
      let ?v = "(if s \<ge> 0x6000 then s + 0x16000 else s + 0x2A000) mod 0x40000"
      have "slot = 2" "flds = [(of_int ?v, 18)]" "compute_symbol_info raw = (2, 0, False)"
        using e ne s2 by (auto simp: offset_fields_def compute_symbol_info_def Let_def simp flip: s_def)
      moreover have "0 \<le> ?v" "?v < 2 ^ 18" by simp_all
      ultimately show ?thesis using fld [of ?v] by (simp add: aligned_field_def)
    qed
  qed
qed


text \<open>The counters a symbol raises.\<close>

definition counted :: "symbol_counts \<Rightarrow> nat \<times> nat \<Rightarrow> bool" where
  "counted fs m \<longleftrightarrow>
     (if is_literal m then 0 < sc_main fs ! fst m
      else 0 < sc_main fs ! match_symbol m
        \<and> (aligned_field \<in> set (match_fields m) \<longrightarrow> 0 < sc_aligned fs ! ((fst m - raw_offset_base_n) mod 16))
        \<and> (case snd (length_fields (snd m)) of None \<Rightarrow> True | Some s \<Rightarrow> 0 < sc_lengths fs ! s))"

definition counts_shape :: "symbol_counts \<Rightarrow> bool" where
  "counts_shape fs \<longleftrightarrow> length (sc_main fs) = 600 \<and> length (sc_lengths fs) = 256 \<and> length (sc_aligned fs) = 16"

definition counts_le :: "symbol_counts \<Rightarrow> symbol_counts \<Rightarrow> bool" where
  "counts_le a b \<longleftrightarrow> (\<forall>j. sc_main a ! j \<le> sc_main b ! j) \<and> (\<forall>j. sc_lengths a ! j \<le> sc_lengths b ! j)
     \<and> (\<forall>j. sc_aligned a ! j \<le> sc_aligned b ! j)"

lemma counted_mono: "counted a m \<Longrightarrow> counts_le a b \<Longrightarrow> counted b m"
  by (auto simp: counted_def counts_le_def split: if_splits option.splits intro: less_le_trans)

lemma count_symbol_shape: "counts_shape fs \<Longrightarrow> counts_shape (count_symbol m fs)"
  by (auto simp: counts_shape_def count_symbol_def Let_def split: prod.split)

lemma count_symbol_le: "counts_le fs (count_symbol m fs)"
  by (auto simp: counts_le_def count_symbol_def Let_def bump_mono split: prod.split)

lemma length_fields_info:
  assumes "2 \<le> l" "l < 2 ^ 32"
  shows "compute_length_slot l = fst (length_fields l) \<and>
    (case snd (length_fields l) of None \<Rightarrow> compute_length_slot l \<noteq> 0
     | Some s \<Rightarrow> compute_length_slot l = 0 \<and> compute_length_extra l = s \<and> s < 256)"
proof -
  have "compute_length_slot l = fst (length_fields l)"
    by (simp add: compute_length_slot_def length_fields_def Let_def)
  moreover have "case snd (length_fields l) of None \<Rightarrow> fst (length_fields l) \<noteq> 0
     | Some s \<Rightarrow> fst (length_fields l) = 0 \<and> compute_length_extra l = s \<and> s < 256"
    by (cases rule: length_fields_cases [OF assms]) (use assms in \<open>simp_all add: compute_length_extra_def Let_def\<close>)
  ultimately show ?thesis by (auto split: option.splits)
qed

lemma count_symbol_counted:
  assumes "symbol_fits m" "counts_shape fs"
  shows "counted (count_symbol m fs) m"
proof (cases "is_literal m")
  case True
  then show ?thesis using assms(2)
    by (cases m) (auto simp: counted_def is_literal_def count_symbol_def counts_shape_def bump_pos)
next
  case False
  obtain raw l where m: "m = (raw, l)" by (cases m)
  obtain slot flds where o: "offset_fields raw = Inr (slot, flds)" "slot < 43" and l: "2 \<le> l" "l < 2 ^ 32"
    using assms(1) False by (auto simp: symbol_fits_def m)
  obtain x where i: "compute_symbol_info raw = (slot, x, aligned_field \<in> set flds)"
    using offset_fields_shape [OF o(1)] by blast
  note L = length_fields_info [OF l]
  have s: "match_symbol m = 0x100 + 8 * slot + compute_length_slot l" "match_fields m = flds"
    using L by (simp_all add: match_symbol_def match_fields_def m o(1))
  have "fst (length_fields l) < 8" by (rule length_slot_le [OF l])
  then have s600: "match_symbol m < 600" using o(2) L s(1) by simp
  have nl: "\<not> (l = 1 \<and> raw < 256)" using False by (simp add: is_literal_def m)
  have c: "count_symbol m fs = fs\<lparr>sc_main := bump (match_symbol m) (sc_main fs),
      sc_lengths := (if compute_length_slot l = 0 then bump (compute_length_extra l) (sc_lengths fs) else sc_lengths fs),
      sc_aligned := (if aligned_field \<in> set flds then bump ((raw - raw_offset_base_n) mod 16) (sc_aligned fs)
         else sc_aligned fs)\<rparr>"
    unfolding count_symbol_def m prod.case i if_not_P [OF nl] Let_def s(1) [unfolded m] ..
  show ?thesis using False [unfolded m] assms(2) s600 [unfolded m] L s(2) [unfolded m] unfolding m
    by (auto simp: counted_def c [unfolded m] counts_shape_def bump_pos split: option.splits)
qed

lemma count_symbols_of_counted:
  assumes "list_all symbol_fits ms"
  shows "counts_shape (count_symbols_of ms) \<and> (\<forall>m\<in>set ms. counted (count_symbols_of ms) m)"
proof -
  have base: "counts_shape counts_new" by (simp add: counts_shape_def counts_new_def alphabet_defs)
  have "counts_shape (fold count_symbol ms fs) \<and> counts_le fs (fold count_symbol ms fs)
      \<and> (\<forall>m\<in>set ms. counted (fold count_symbol ms fs) m)" if "counts_shape fs" for fs
    using that assms
  proof (induction ms arbitrary: fs)
    case Nil
    then show ?case by (simp add: counts_le_def)
  next
    case (Cons m ms)
    let ?f1 = "count_symbol m fs"
    have IH: "counts_shape (fold count_symbol ms ?f1)" "counts_le ?f1 (fold count_symbol ms ?f1)"
      "\<forall>m\<in>set ms. counted (fold count_symbol ms ?f1) m"
      using Cons.IH [OF count_symbol_shape [OF Cons.prems(1)]] Cons.prems(2) by auto
    have "counted ?f1 m" using count_symbol_counted Cons.prems by simp
    then have "counted (fold count_symbol ms ?f1) m" by (rule counted_mono [OF _ IH(2)])
    moreover have "counts_le fs (fold count_symbol ms ?f1)"
      using count_symbol_le [of fs m] IH(2) unfolding counts_le_def by (meson order_trans)
    ultimately show ?case using IH by simp
  qed
  from this [OF base] show ?thesis by (simp add: count_symbols_of_def)
qed

text \<open>The fix-ups keep what was counted and leave no table empty.\<close>

definition fixes_counts :: "(nat list \<Rightarrow> nat list) \<Rightarrow> bool" where
  "fixes_counts f \<longleftrightarrow> (\<forall>fs. length (f fs) = length fs \<and> (\<forall>j<length fs. 0 < fs ! j \<longrightarrow> 0 < f fs ! j)
     \<and> (fs \<noteq> [] \<longrightarrow> (\<exists>s<length fs. 0 < f fs ! s)))"

lemma used_pos: "0 < used fs \<longleftrightarrow> (\<exists>s<length fs. 0 < fs ! s)"
  unfolding used_def length_greater_0_conv filter_empty_conv by (metis in_set_conv_nth)

lemma fill_from_keeps: "length (fill_from k b fs) = length fs \<and> (\<forall>j<length fs. 0 < fs ! j \<longrightarrow> 0 < fill_from k b fs ! j)"
proof (induction k b fs rule: fill_from.induct)
  case (2 k b f fs)
  show ?case
  proof (cases "f = 0 \<and> k + (if b then 1 else 0) \<ge> 2")
    case False
    then show ?thesis using 2 [OF False] by (auto simp: nth_Cons split: nat.splits)
  qed simp
qed simp

lemma ensure_two_fixes: "fixes_counts ensure_two"
  unfolding fixes_counts_def
proof (rule allI, intro conjI)
  fix fs
  show "length (ensure_two fs) = length fs" "\<forall>j<length fs. 0 < fs ! j \<longrightarrow> 0 < ensure_two fs ! j"
    using fill_from_keeps [of "used fs" False fs] by (simp_all add: ensure_two_def)
  show "fs \<noteq> [] \<longrightarrow> (\<exists>s<length fs. 0 < ensure_two fs ! s)"
  proof (intro impI, cases "0 < used fs")
    case True
    then show "\<exists>s<length fs. 0 < ensure_two fs ! s"
      using fill_from_keeps [of "used fs" False fs] by (auto simp: used_pos ensure_two_def)
  next
    case False
    assume "fs \<noteq> []"
    then obtain f r where "fs = f # r" by (cases fs) auto
    then show "\<exists>s<length fs. 0 < ensure_two fs ! s" using False by (auto simp: ensure_two_def intro!: exI [of _ 0])
  qed
qed

lemma ensure_first_two_fixes: "fixes_counts ensure_first_two"
  unfolding fixes_counts_def
proof (rule allI, intro conjI)
  fix fs :: "nat list"
  let ?m = "map (\<lambda>(i, f). if f = 0 \<and> i < 2 then 1 else f) (enumerate 0 fs)"
  have nth: "?m ! j = (if fs ! j = 0 \<and> j < 2 then 1 else fs ! j)" if "j < length fs" for j
    using that by (simp add: nth_enumerate_eq)
  show "length (ensure_first_two fs) = length fs" by (simp add: ensure_first_two_def)
  show keep: "\<forall>j<length fs. 0 < fs ! j \<longrightarrow> 0 < ensure_first_two fs ! j"
    using nth by (auto simp: ensure_first_two_def)
  show "fs \<noteq> [] \<longrightarrow> (\<exists>s<length fs. 0 < ensure_first_two fs ! s)"
  proof (intro impI, cases "0 < used fs")
    case True
    then show "\<exists>s<length fs. 0 < ensure_first_two fs ! s" using keep by (auto simp: used_pos)
  next
    case False
    assume "fs \<noteq> []"
    then show "\<exists>s<length fs. 0 < ensure_first_two fs ! s" using False nth [of 0]
      by (auto simp: ensure_first_two_def intro!: exI [of _ 0])
  qed
qed

lemma tables_from_counts_ok:
  assumes f: "fixes_counts f" and ms: "list_all symbol_fits ms"
  obtains t where "tables_from_counts (fix_counts f (count_symbols_of ms)) = Inr t" "tables_ok t"
    "\<forall>m\<in>set ms. symbol_coded t m"
proof -
  define fs where "fs = count_symbols_of ms"
  have C: "counts_shape fs" "\<forall>m\<in>set ms. counted fs m" using count_symbols_of_counted [OF ms] by (simp_all add: fs_def)
  have one: "\<exists>tb. from_frequencies (f xs) 15 = Inr tb \<and> tab_ok tb n \<and> (\<forall>s<n. 0 < xs ! s \<longrightarrow> has_code tb s)"
    if len: "length xs = n" "2 \<le> n" "n \<le> 1024" for xs n
  proof -
    have "xs \<noteq> []" using len by auto
    then have F: "length (f xs) = n" "\<forall>j<n. 0 < xs ! j \<longrightarrow> 0 < f xs ! j" "\<exists>s<n. 0 < f xs ! s"
      using f len by (auto simp: fixes_counts_def)
    then obtain s where s: "s < length (f xs)" "0 < f xs ! s" by auto
    obtain tb where "from_frequencies (f xs) 15 = Inr tb" "tab_ok tb n"
      "\<And>s. s < n \<Longrightarrow> 0 < f xs ! s \<Longrightarrow> has_code tb s"
      by (rule from_frequencies_limited [OF _ _ s]) (use len F in auto)
    then show ?thesis using F(2) by blast
  qed
  obtain mt lt al where T: "from_frequencies (f (sc_main fs)) 15 = Inr mt" "tab_ok mt 600"
      "\<forall>s<600. 0 < sc_main fs ! s \<longrightarrow> has_code mt s"
      "from_frequencies (f (sc_lengths fs)) 15 = Inr lt" "tab_ok lt 256"
      "\<forall>s<256. 0 < sc_lengths fs ! s \<longrightarrow> has_code lt s"
      "from_frequencies (f (sc_aligned fs)) 15 = Inr al" "tab_ok al 16"
      "\<forall>s<16. 0 < sc_aligned fs ! s \<longrightarrow> has_code al s"
    using one [of "sc_main fs" 600] one [of "sc_lengths fs" 256] one [of "sc_aligned fs" 16] C(1)
    by (auto simp: counts_shape_def)
  define t where "t = \<lparr>st_main = mt, st_lengths = lt, st_aligned = al\<rparr>"
  have "symbol_coded t m" if "m \<in> set ms" for m
  proof -
    have fit: "symbol_fits m" and c: "counted fs m" using ms C(2) that by (auto simp: list_all_iff)
    show ?thesis
    proof (cases "is_literal m")
      case True
      then show ?thesis using c T(3) by (simp add: symbol_coded_def counted_def t_def is_literal_def)
    next
      case False
      obtain raw l where m: "m = (raw, l)" by (cases m)
      obtain slot flds where o: "offset_fields raw = Inr (slot, flds)" "slot < 43" and l: "2 \<le> l" "l < 2 ^ 32"
        using fit False by (auto simp: symbol_fits_def m)
      note S = offset_fields_shape [OF o(1)]
      have mf: "match_fields m = flds" by (simp add: match_fields_def m o(1))
      have "match_symbol m < 600"
        using o(2) length_slot_le [OF l] by (simp add: match_symbol_def m o(1))
      moreover have "(raw - raw_offset_base_n) mod 16 < 16" by simp
      moreover have "case snd (length_fields l) of None \<Rightarrow> True | Some s \<Rightarrow> s < 256"
        using length_fields_info [OF l] by (auto split: option.splits)
      moreover have "fields_ok t (raw - raw_offset_base_n) flds"
        unfolding fields_ok_def
      proof (intro ballI)
        fix fl assume f: "fl \<in> set flds"
        show "if fst fl = - 1 then has_code (st_aligned t) ((raw - raw_offset_base_n) mod 16)
          else 0 < snd fl \<and> snd fl \<le> 64"
          using S f c [unfolded m] False [unfolded m] T(9) by (auto simp: counted_def mf [unfolded m] t_def)
      qed
      ultimately show ?thesis using False c T(3,6)
        unfolding m by (auto simp: symbol_coded_def counted_def t_def mf [unfolded m] split: option.splits)
    qed
  qed
  moreover have "tables_ok t" using T(2,5,8) by (simp add: tables_ok_def t_def alphabet_defs)
  moreover have "tables_from_counts (fix_counts f (count_symbols_of ms)) = Inr t"
    using T(1,4,7) by (simp add: tables_from_counts_def fix_counts_def t_def flip: fs_def)
  ultimately show thesis using that by blast
qed

end
