(* ===== verification/LzxRoundTrip.thy ===== *)
theory LzxRoundTrip
  imports LzxEncode
begin

text \<open>
  The round trip of the PseudoLzx codec: what \<open>src/lzx/encode.rs\<close> writes, \<open>src/lzx/decode.rs\<close> decompresses to
  the target again.
\<close>

section \<open>Rift tables and their segments\<close>

definition nonneg_rift :: "rift_table option \<Rightarrow> bool" where
  "nonneg_rift rift \<longleftrightarrow> (case rift of None \<Rightarrow> True | Some es \<Rightarrow> \<forall>e\<in>set es. 0 \<le> src e)"

lemma segment_at_ahead:
  assumes s: "sorted (map (\<lambda>(p, _). sint p) es)" and ne: "es \<noteq> []" "sint (fst (es ! 0)) \<le> sint pos"
    and max: "sint pos < sint i64_max"
  shows "sint pos < sint (snd (segment_at es pos))"
proof -
  define ks where "ks = map (\<lambda>(p, _). sint p) es"
  have k: "length ks = length es" "\<And>j. j < length es \<Longrightarrow> ks ! j = sint (fst (es ! j))"
    by (simp_all add: ks_def case_prod_beta)
  define idx where "idx = (case binary_search ks (sint pos) of Inr i \<Rightarrow> i | Inl 0 \<Rightarrow> 0 | Inl (Suc i) \<Rightarrow> i)"
  have late: "sint pos < ks ! j" if j: "idx < j" "j < length ks" for j
  proof (cases "binary_search ks (sint pos)")
    case (Inr i)
    then show ?thesis using binary_search_spec(1) [OF s [folded ks_def] Inr] j by (simp add: idx_def)
  next
    case (Inl i)
    note B = binary_search_spec(2) [OF s [folded ks_def] Inl]
    have "i \<noteq> 0" using B ne k by (metis le0 length_greater_0_conv not_le)
    then have "idx + 1 = i" using Inl by (auto simp: idx_def split: nat.split)
    then show ?thesis using B j by simp
  qed
  have "snd (segment_at es pos) = (if idx + 1 < length es then fst (es ! (idx + 1)) else i64_max)"
    by (simp add: segment_at_def Let_def idx_def ks_def)
  then show ?thesis using late [of "idx + 1"] k max by auto
qed

lemma merged_segments_ahead:
  assumes r: "nonneg_rift rift" and R: "R < 2 ^ 62" "hi < 2 ^ 62"
  shows "segments_ahead (merged_table [] rift R) R hi"
  unfolding segments_ahead_def
proof (intro allI impI)
  fix pos assume pos: "0 < R" "R \<le> pos" "pos < hi"
  define es where "es = rift_sort ((case rift of None \<Rightarrow> [] | Some es \<Rightarrow> es) @ [\<lparr>re_source = of_nat R, re_target = 0\<rparr>])"
  have "length es > 0" by (simp add: es_def rift_sort_def)
  then have ne: "es \<noteq> []" by auto
  have nn: "\<forall>e\<in>set es. 0 \<le> src e"
    using r R by (auto simp: es_def rift_sort_def nonneg_rift_def sint_of_nat_small split: option.splits)
  have so: "rift_sorted es" by (simp add: es_def rift_sort_def)
  have T: "merged_table [] rift R = (0, rift_entry_offset (last es)) # map (\<lambda>e. (re_source e, rift_entry_offset e)) es"
    using ne by (simp add: merged_table_def offset_table_def flip: es_def)
  have p: "sint (of_nat pos :: i64) = int pos" using pos R by (intro sint_of_nat_small) simp
  have "sint (of_nat pos :: i64) < sint (snd (segment_at (merged_table [] rift R) (of_nat pos)))"
  proof (rule segment_at_ahead)
    show "sorted (map (\<lambda>(p, _). sint p) (merged_table [] rift R))"
      using so nn unfolding T by (auto simp: comp_def)
    show "merged_table [] rift R \<noteq> []" by (simp add: T)
    show "sint (fst (merged_table [] rift R ! 0)) \<le> sint (of_nat pos :: i64)" by (simp add: T p)
    show "sint (of_nat pos :: i64) < sint i64_max" using pos R by (simp add: p)
  qed
  then show "int pos < sint (snd (segment_at (merged_table [] rift R) (of_nat pos)))" by (simp add: p)
qed

section \<open>The streams of the two modes\<close>

definition enc_symbols :: "segment_tables \<Rightarrow> (nat \<times> nat) list \<Rightarrow> bool list" where
  "enc_symbols t ms = concat (map (enc_lzx t) ms)"

lemma write_symbols_spec:
  assumes "tables_ok t" "list_all symbol_fits ms" "\<forall>m\<in>set ms. symbol_coded t m" "writer_ok w"
  shows "\<exists>w'. write_symbols t w ms = Inr w' \<and> writer_ok w' \<and> wr_stream w' = wr_stream w @ enc_symbols t ms"
  using assms
proof (induction ms arbitrary: w)
  case (Cons m ms)
  obtain w1 where w1: "write_lzx_symbol t w m = Inr w1" "writer_ok w1" "wr_stream w1 = wr_stream w @ enc_lzx t m"
    using write_lzx_spec [OF Cons.prems(1) _ _ Cons.prems(4), of m] Cons.prems(2,3) by auto
  from Cons.IH [OF Cons.prems(1) _ _ w1(2)] Cons.prems(2,3) w1 show ?case by (auto simp: enc_symbols_def)
qed (simp add: enc_symbols_def)

lemma advance_single: "cf_segments f = [t] \<Longrightarrow> advance_segment f pos 0 = 0"
  by (subst advance_segment.simps) simp

lemma single_segment:
  assumes "cf_segments f = [t]"
  shows "enc_parse f 0 pos ms = enc_symbols t ms"
    "tables_ok t \<Longrightarrow> list_all symbol_fits ms \<Longrightarrow> \<forall>m\<in>set ms. symbol_coded t m \<Longrightarrow> parse_coded f 0 pos ms"
  using assms by (induction ms arbitrary: pos) (simp_all add: advance_single enc_symbols_def)

definition read_format :: "bit_reader \<Rightarrow> (composite_format \<times> bit_reader) result" where
  "read_format r = rbind (read_bits r 1) (\<lambda>(cf_simple, r).
     if cf_simple \<noteq> 0
     then rbind segment_tables_from_flat (\<lambda>t. Inr (\<lparr>cf_segments = [t], cf_boundaries = [- 1]\<rparr>, r))
     else read_composite_format r)"

lemma decompress_into_format:
  "decompress_into reference patch_data out_size caller_rift output =
     (if patch_data = [] then
        if out_size = 0 then Inr output
        else Inl (Malformed ''empty patch data for non-zero target'')
      else
        rbind (reader_new patch_data) (\<lambda>r.
        rbind (rift_from_reader r) (\<lambda>(rift, r).
        rbind (read_format r) (\<lambda>(f, r).
        rbind (decompress_loop (merged_table rift caller_rift (length reference)) reference f (length reference + out_size) 0
                 \<lparr>lz_out = output, lz_lru = lru_new, lz_pos = length reference\<rparr> r) (\<lambda>st.
          if length (fst (lz_out st)) \<noteq> out_size then Inl (Malformed ''output size mismatch'')
          else Inr (lz_out st))))))"
proof -
  have "rbind (rbind a (\<lambda>(x, r). F x r)) g = rbind a (\<lambda>(x, r). rbind (F x r) g)" for a :: "(u64 \<times> bit_reader) result"
    and F :: "u64 \<Rightarrow> bit_reader \<Rightarrow> (composite_format \<times> bit_reader) result"
    and g :: "composite_format \<times> bit_reader \<Rightarrow> lz_output result"
    by (cases a) auto
  then show ?thesis by (simp only: decompress_into_def read_format_def Let_def)
qed

text \<open>
  The decompressor on a finished stream: no rift table of its own, a format and the parse.
\<close>

lemma decompress_stream:
  assumes w: "writer_ok w" "wr_stream w = [False, False, False] @ [False] @ fmt @ enc_parse f 0 (length reference) ms"
    and len: "length fmt + length (enc_parse f 0 (length reference) ms) + 4 < 2 ^ 31"
    and fmt: "\<And>r rest. reader_ok r \<Longrightarrow> rd_stream r = fmt @ rest \<Longrightarrow> rd_padding r \<le> length rest \<Longrightarrow>
      delivers (read_format r) f rest (rd_padding r)"
    and ms: "parses (merged_table [] rift (length reference)) reference target 0 lru_new ms"
      "parse_coded f 0 (length reference) ms"
    and fit: "length reference + length target < 2 ^ 63"
  shows "decompress_with_rift reference (writer_finish w) (length target) rift = Inr target"
proof -
  let ?p = "enc_parse f 0 (length reference) ms"
  let ?s = "[False] @ fmt @ ?p"
  let ?z = "replicate (align_len (3 + length ?s)) False"
  have w2: "wr_stream w = [False, False, False] @ ?s" using w(2) by simp
  have l: "length ?s < 2 ^ 31" using len by simp
  show ?thesis
  proof (rule reopen [OF w(1) w2 l])
    fix r assume r: "reader_new (writer_finish w) = Inr r" "reader_ok r" "rd_stream r = ?s @ ?z"
      "rd_padding r = align_len (3 + length ?s)"
    have z: "(0 :: u64) = bits_val [False]" by simp
    have "delivers (read_bits r 1) 0 (fmt @ ?p @ ?z) (rd_padding r)"
      using read_field [OF r(2), of 0 1 "fmt @ ?p @ ?z"] r(3) by (simp add: word_bits_def)
    then obtain r1 where r1: "read_bits r 1 = Inr (0, r1)" "reader_ok r1" "rd_stream r1 = fmt @ ?p @ ?z"
      "rd_padding r1 = rd_padding r" by (auto simp: delivers_def)
    have "rift_from_reader r = Inr ([], r1)" using r1(1) by (simp add: rift_from_reader_def)
    moreover obtain r2 where r2: "read_format r1 = Inr (f, r2)" "reader_ok r2" "rd_stream r2 = ?p @ ?z"
      "rd_padding r2 = rd_padding r"
      using fmt [OF r1(2,3)] r1(4) r(4) by (auto simp: delivers_def)
    moreover obtain st' where "decompress_loop (merged_table [] rift (length reference)) reference f
        (length reference + length target) 0 \<lparr>lz_out = ([], None), lz_lru = lru_new, lz_pos = length reference\<rparr> r2 = Inr st'"
      "lz_out st' = (target, None)"
      using decompress_loop_parse [OF fit ms(1), of f 0 r2 ?z "\<lparr>lz_out = ([], None), lz_lru = lru_new, lz_pos = length reference\<rparr>"]
        ms(2) r2 r(4) by auto
    moreover have "writer_finish w \<noteq> []" using r(1) by (auto simp: reader_new_def)
    ultimately show ?thesis using r(1) by (simp add: decompress_with_rift_def decompress_into_format)
  qed
qed

section \<open>How long the streams are\<close>

lemma try_slot_size:
  assumes "adj < 64" "try_slot dist adj = Some flds"
  shows "length flds \<le> 2 \<and> (\<forall>f\<in>set flds. snd f \<le> 30)"
proof -
  have "adj div 2 - 1 \<le> 30" "adj div 2 - 1 - 4 \<le> 30" using assms(1) by linarith+
  with assms(2) show ?thesis
    by (auto simp: try_slot_def aligned_field_def Let_def simp del: diff_diff_left One_nat_def split: if_splits)
qed

lemma find_slot_size:
  "find_slot dist as = Some (adj, flds) \<Longrightarrow> \<forall>a\<in>set as. a < 64 \<Longrightarrow> length flds \<le> 2 \<and> (\<forall>f\<in>set flds. snd f \<le> 30)"
  by (induction as) (auto split: option.splits dest: try_slot_size)

lemma offset_fields_size:
  assumes "offset_fields raw = Inr (slot, flds)"
  shows "length flds \<le> 2 \<and> (\<forall>f\<in>set flds. snd f \<le> 30)"
  using assms find_slot_size [of "raw - raw_offset_base_n" "[4..<64]"]
  by (auto simp: offset_fields_def Let_def simp del: upt_rec_numeral split: if_splits option.splits)

lemma enc_u32_number_length: "length (enc_u32_number v) \<le> 64"
proof -
  show ?thesis by (simp add: enc_u32_number_def Let_def)
qed

lemma enc_fields_size:
  assumes "tables_ok t" "fields_ok t d flds" "\<forall>f\<in>set flds. snd f \<le> 30"
  shows "length (enc_fields t d flds) \<le> 30 * length flds"
  using assms(2,3)
proof (induction flds)
  case (Cons f flds)
  have "fst f = - 1 \<Longrightarrow> length (code_of (st_aligned t) (d mod 16)) \<le> 16"
    using Cons.prems(1) assms(1) by (auto simp: fields_ok_def tables_ok_def intro: code_of_length)
  then have "length (enc_field t d f) \<le> 30" using Cons.prems by (auto simp: enc_field_def)
  moreover have "fields_ok t d flds" using Cons.prems(1) by (simp add: fields_ok_def)
  ultimately show ?case using Cons by simp
qed simp

lemma enc_lzx_size:
  assumes t: "tables_ok t" and m: "symbol_fits m" "symbol_coded t m"
  shows "length (enc_lzx t m) \<le> 100 * snd m"
proof (cases "is_literal m")
  case True
  then show ?thesis using t m(2) code_of_length [of "st_main t" main_symbols "fst m"]
    by (simp add: enc_lzx_def symbol_coded_def is_literal_def tables_ok_def)
next
  case False
  obtain slot flds where o: "offset_fields (fst m) = Inr (slot, flds)" and l: "2 \<le> snd m" "snd m < 2 ^ 32"
    using m(1) False by (auto simp: symbol_fits_def)
  have mf: "match_fields m = flds" by (simp add: match_fields_def o)
  have C: "has_code (st_main t) (match_symbol m)" "fields_ok t (fst m - raw_offset_base_n) flds"
    "case snd (length_fields (snd m)) of None \<Rightarrow> True | Some s \<Rightarrow> has_code (st_lengths t) s"
    using m(2) False by (simp_all add: symbol_coded_def mf)
  have "length (code_of (st_main t) (match_symbol m)) \<le> 16"
    using t C(1) by (auto simp: tables_ok_def intro: code_of_length)
  moreover have "length (enc_fields t (fst m - raw_offset_base_n) flds) \<le> 60"
    using enc_fields_size [OF t C(2)] offset_fields_size [OF o] by fastforce
  moreover have "length (enc_length t (snd m)) \<le> 80"
  proof (cases "snd (length_fields (snd m))")
    case (Some s)
    then have "length (code_of (st_lengths t) s) \<le> 16"
      using t C(3) by (auto simp: tables_ok_def intro: code_of_length)
    moreover have "length (enc_length t (snd m))
        \<le> length (code_of (st_lengths t) s) + length (enc_u32_number (of_nat (max (snd m - 1 - 7) 256)))"
      using Some by (simp add: enc_length_def)
    ultimately show ?thesis using enc_u32_number_length [of "of_nat (max (snd m - 1 - 7) 256)"] by linarith
  qed (simp add: enc_length_def)
  ultimately have "length (enc_lzx t m) \<le> 156" using False by (simp add: enc_lzx_def mf)
  then show ?thesis using l(1) by linarith
qed

lemma parse_total: "parses ort reference target i lru ms \<Longrightarrow> i + sum_list (map snd ms) = length target"
proof (induction ms arbitrary: i lru)
  case (Cons m ms)
  show ?case
  proof (cases "is_literal m")
    case True
    then have "parses ort reference target (i + 1) lru ms" using Cons.prems by simp
    from Cons.IH [OF this] show ?thesis using True by (simp add: is_literal_def)
  next
    case False
    then obtain dist where "parses ort reference target (i + snd m) (lru_update lru dist) ms" using Cons.prems by auto
    from Cons.IH [OF this] show ?thesis by simp
  qed
qed simp

lemma enc_parse_size:
  "parse_coded f seg pos ms \<Longrightarrow> length (enc_parse f seg pos ms) \<le> 100 * sum_list (map snd ms)"
proof (induction ms arbitrary: seg pos)
  case (Cons m ms)
  define sg where "sg = advance_segment f pos seg"
  have C: "tables_ok (cf_segments f ! sg)" "symbol_fits m" "symbol_coded (cf_segments f ! sg) m"
    "parse_coded f sg (pos + snd m) ms" using Cons.prems by (simp_all add: Let_def sg_def)
  have "enc_parse f seg pos (m # ms) = enc_lzx (cf_segments f ! sg) m @ enc_parse f sg (pos + snd m) ms"
    by (simp add: Let_def sg_def)
  then show ?case using enc_lzx_size [OF C(1-3)] Cons.IH [OF C(4)] by simp
qed simp

lemma encode_length_at_shape:
  assumes "encode_length_at lens prev i = (s, n)" "i < length lens" "\<forall>l\<in>set lens. l \<le> 16"
  shows "fst s < 39 \<and> extra_ok (snd s) \<and> 0 < n"
proof -
  define pr where "pr = (if i + 3 < length lens then run_while (\<lambda>k. lens ! k = prev ! k) i (length lens - 1) else 0)"
  define fr where "fr = (if i > 0 then run_while (\<lambda>k. lens ! k = lens ! (i - 1)) i (length lens - 1) else 0)"
  have le: "pr \<le> 127" "fr \<le> 127"
    using run_while_spec [of "\<lambda>k. lens ! k = prev ! k" i "length lens - 1"]
      run_while_spec [of "\<lambda>k. lens ! k = lens ! (i - 1)" i "length lens - 1"] by (auto simp: pr_def fr_def)
  have b: "lens ! i \<le> 16" using assms(2,3) by simp
  note E = assms(1) [unfolded encode_length_at_def Let_def, folded pr_def fr_def]
  have run: "fst (encode_run_count k) \<le> 7 \<and> extra_ok (snd (encode_run_count k))" if k: "4 \<le> k" "k \<le> 127" for k
  proof -
    obtain base v where "encode_run_count k = (base, Some (v, base - 1))" "3 \<le> base" "base \<le> 7" "v < 2 ^ (base - 1)"
      using encode_run_count_spec [OF k] by blast
    then show ?thesis by (simp add: extra_ok_def)
  qed
  have "extra_ok None" by (simp add: extra_ok_def)
  then show ?thesis using E le b run [of pr] run [of fr]
    by (auto split: if_splits prod.splits)
qed



section \<open>The composite header\<close>

lemma encode_lengths_shape:
  assumes "\<forall>l\<in>set lens. l \<le> 16"
  shows "(\<forall>s\<in>set (encode_lengths_from lens prev i). fst s < 39 \<and> extra_ok (snd s))
    \<and> length (encode_lengths_from lens prev i) \<le> length lens - i"
proof (induction "length lens - i" arbitrary: i rule: less_induct)
  case less
  show ?case
  proof (cases "i < length lens")
    case True
    obtain s n where e: "encode_length_at lens prev i = (s, n)" by (metis prod.exhaust)
    note S = encode_length_at_shape [OF e True assms]
    have f: "encode_lengths_from lens prev i = s # encode_lengths_from lens prev (i + n)"
      using True e by (subst encode_lengths_from.simps) simp
    have "length lens - (i + n) < length lens - i" using S True by linarith
    from less [OF this] S True show ?thesis by (auto simp: f)
  qed (subst encode_lengths_from.simps, subst encode_lengths_from.simps, simp)
qed

lemma segment_symbols_shape:
  assumes "list_all tables_ok ts"
  shows "(\<forall>s\<in>set (concat (segment_symbols ts prev)). fst s < 39 \<and> extra_ok (snd s))
    \<and> length (concat (segment_symbols ts prev)) \<le> 872 * length ts"
  using assms
proof (induction ts arbitrary: prev)
  case (Cons t ts)
  have "lengths_ok (all_lengths t)" using Cons.prems by (simp add: all_lengths_ok)
  then have l: "length (all_lengths t) = 872" "\<forall>l\<in>set (all_lengths t). l \<le> 16"
    by (simp_all add: lengths_ok_def alphabet_defs)
  have "list_all tables_ok ts" using Cons.prems by simp
  from Cons.IH [OF this, of "all_lengths t"] encode_lengths_shape [OF l(2), of prev 0] l(1) show ?case
    by (auto simp: encode_compression_lengths_def)
qed simp

lemma pretree_counts_spec:
  assumes "\<forall>s\<in>set syms. fst s < 39"
  shows "length (pretree_counts syms) = 39" "\<forall>s\<in>set syms. 0 < pretree_counts syms ! fst s"
proof -
  have "length (fold (\<lambda>s. bump (fst s)) syms fs) = length fs
      \<and> (\<forall>j. fs ! j \<le> fold (\<lambda>s. bump (fst s)) syms fs ! j)
      \<and> (\<forall>s\<in>set syms. 0 < fold (\<lambda>s. bump (fst s)) syms fs ! fst s)" if "length fs = 39" for fs
    using that assms
  proof (induction syms arbitrary: fs)
    case (Cons s syms)
    let ?f = "bump (fst s) fs"
    have IH: "length (fold (\<lambda>s. bump (fst s)) syms ?f) = length ?f"
      "\<forall>j. ?f ! j \<le> fold (\<lambda>s. bump (fst s)) syms ?f ! j"
      "\<forall>s\<in>set syms. 0 < fold (\<lambda>s. bump (fst s)) syms ?f ! fst s"
      using Cons.IH [of ?f] Cons.prems by auto
    have "0 < ?f ! fst s" using Cons.prems by (simp add: bump_pos)
    then have "0 < fold (\<lambda>s. bump (fst s)) syms ?f ! fst s" using IH(2) less_le_trans by blast
    moreover have "\<forall>j. fs ! j \<le> fold (\<lambda>s. bump (fst s)) syms ?f ! j" using IH(2) bump_mono order_trans by blast
    ultimately show ?case using IH by simp
  qed simp
  from this [of "replicate pretree_symbols 0"]
  show "length (pretree_counts syms) = 39" "\<forall>s\<in>set syms. 0 < pretree_counts syms ! fst s"
    by (simp_all add: pretree_counts_def pretree_symbols_def)
qed

lemma enc_pretree_size:
  assumes "pretree_codes pt syms"
  shows "length (enc_pretree_symbols pt syms) \<le> 22 * length syms"
proof -
  have t: "tab_ok pt pretree_symbols" using assms by (simp add: pretree_codes_def)
  have "length (enc_pretree_symbol pt s) \<le> 22" if "s \<in> set syms" for s
  proof -
    have "length (code_of pt (fst s)) \<le> 16" "extra_ok (snd s)"
      using assms that code_of_length [OF t] by (auto simp: pretree_codes_def)
    then show ?thesis by (auto simp: enc_pretree_symbol_def enc_extra_def extra_ok_def split: option.splits)
  qed
  then have "length (concat (map (enc_pretree_symbol pt) ss)) \<le> 22 * length ss" if "set ss \<subseteq> set syms" for ss
    using that
  proof (induction ss)
    case (Cons s ss)
    have "length (enc_pretree_symbol pt s) \<le> 22" using Cons by simp
    moreover have "length (concat (map (enc_pretree_symbol pt) ss)) \<le> 22 * length ss" using Cons by simp
    ultimately show ?case by simp
  qed simp
  from this [of syms] show ?thesis by (simp add: enc_pretree_symbols_def)
qed

lemma length_enc_boundaries: "length (concat (map enc_i64 (boundary_deltas p bs))) \<le> 80 * length bs"
proof (induction bs arbitrary: p)
  case (Cons b bs)
  have "length (enc_i64 (of_nat b - p)) + length (concat (map enc_i64 (boundary_deltas (of_nat b) bs))) \<le> 80 + 80 * length bs"
    by (intro add_mono enc_i64_length Cons.IH)
  then show ?case by simp
qed simp

lemma pretree_table:
  assumes s: "\<forall>s\<in>set syms. fst s < 39 \<and> extra_ok (snd s)" and ne: "syms \<noteq> []"
  shows "\<exists>pt. from_frequencies (pretree_counts syms) 15 = Inr pt \<and> pretree_codes pt syms \<and> (\<forall>l\<in>set (ht_lengths pt). l < 16)"
proof -
  note C = pretree_counts_spec [of syms]
  have c: "length (pretree_counts syms) = 39" using C s by blast
  obtain s0 where s0: "s0 \<in> set syms" using ne by (cases syms) auto
  then have "fst s0 < length (pretree_counts syms)" "0 < pretree_counts syms ! fst s0" using C s c by simp_all
  from from_frequencies_limited [OF _ _ this] c obtain pt where
    "from_frequencies (pretree_counts syms) 15 = Inr pt" "tab_ok pt pretree_symbols"
      "\<And>s. s < 39 \<Longrightarrow> 0 < pretree_counts syms ! s \<Longrightarrow> has_code pt s" "\<forall>l\<in>set (ht_lengths pt). l < 16"
    by (auto simp: pretree_symbols_def)
  then show ?thesis using s C by (auto simp: pretree_codes_def)
qed

lemma write_composite_multi:
  assumes ts: "list_all tables_ok ts" "ts \<noteq> []" and b: "length bounds = length ts" and w: "writer_ok w"
  obtains pt w' where "write_composite_format_multi w ts bounds = Inr w'" "writer_ok w'"
    "wr_stream w' = wr_stream w @ enc_composite pt ts bounds"
    "pretree_codes pt (concat (segment_symbols ts (replicate total_lengths 0)))" "\<forall>l\<in>set (ht_lengths pt). l < 16"
    "length (enc_composite pt ts bounds) \<le> 236 + 19264 * length ts"
proof -
  define syms where "syms = concat (segment_symbols ts (replicate total_lengths 0))"
  note S = segment_symbols_shape [OF ts(1), of "replicate total_lengths 0", folded syms_def]
  obtain t r where "ts = t # r" using ts(2) by (cases ts) auto
  moreover from this have "length (all_lengths t) = 872" using ts(1) all_lengths_ok [of t]
    by (simp add: lengths_ok_def alphabet_defs)
  moreover from this have "encode_compression_lengths (all_lengths t) p \<noteq> []" for p
    by (simp add: encode_compression_lengths_def encode_lengths_from.simps split: prod.split)
  ultimately have "syms \<noteq> []" by (simp add: syms_def)
  then obtain pt where pt: "from_frequencies (pretree_counts syms) 15 = Inr pt" "pretree_codes pt syms"
    "\<forall>l\<in>set (ht_lengths pt). l < 16" using pretree_table [of syms] S by blast
  have tp: "tab_ok pt pretree_symbols" using pt(2) by (simp add: pretree_codes_def)
  define w1 where "w1 = write_boundaries (write_i64 w (of_nat (length ts))) 0 bounds"
  have W1: "writer_ok w1" "wr_stream w1 = wr_stream w @ enc_i64 (of_nat (length ts)) @ concat (map enc_i64 (boundary_deltas 0 bounds))"
    using write_i64_spec [OF w] write_boundaries_spec [of "write_i64 w (of_nat (length ts))" 0 bounds] by (simp_all add: w1_def)
  note W2 = write_pretree_spec [OF tp W1(1)]
  note W3 = write_pretree_symbols_spec [OF pt(2) conjunct1 [OF W2]]
  show thesis
  proof (rule that)
    show "write_composite_format_multi w ts bounds = Inr (foldl (write_pretree_symbol pt) (write_pretree pt w1) syms)"
      by (simp add: write_composite_format_multi_def Let_def pt(1) flip: syms_def w1_def)
    show "writer_ok (foldl (write_pretree_symbol pt) (write_pretree pt w1) syms)" using W3 by blast
    show "wr_stream (foldl (write_pretree_symbol pt) (write_pretree pt w1) syms) = wr_stream w @ enc_composite pt ts bounds"
      using W1 W2 W3 by (simp add: enc_composite_def flip: syms_def)
    show "pretree_codes pt (concat (segment_symbols ts (replicate total_lengths 0)))" using pt(2) by (simp add: syms_def)
    have "length (concat (map (\<lambda>l. word_bits (of_nat l :: u64) 4) (ht_lengths pt))) = 4 * length (ht_lengths pt)"
      by (induction "ht_lengths pt") (simp_all add: length_concat comp_def sum_list_triv)
    moreover have "length (ht_lengths pt) = 39" using tp by (simp add: tab_ok_def pretree_symbols_def)
    ultimately show "length (enc_composite pt ts bounds) \<le> 236 + 19264 * length ts"
      using enc_pretree_size [OF pt(2)] S length_enc_boundaries [of 0 bounds] enc_i64_length [of "of_nat (length ts)"] b
      by (simp add: enc_composite_def flip: syms_def)
  qed (rule pt(3))
qed

lemma write_composite_single: "write_composite_format w t b = write_composite_format_multi w [t] [b]"
  by (simp add: write_composite_format_def write_composite_format_multi_def Let_def)


section \<open>Segments\<close>

text \<open>The cut behind the first \<open>k\<close> symbols, as a position of the buffer \<open>reference @ target\<close>.\<close>

definition cut :: "nat \<Rightarrow> (nat \<times> nat) list \<Rightarrow> nat \<Rightarrow> nat" where
  "cut ref_len ms k = ref_len + sum_list (map snd (take k ms))"

definition splits_ok :: "nat \<Rightarrow> nat list \<Rightarrow> bool" where
  "splits_ok n splits \<longleftrightarrow> splits \<noteq> [] \<and> splits ! 0 = 0 \<and> sorted_wrt (<) splits \<and> (\<forall>s\<in>set splits. s \<le> n) \<and> length splits \<le> 8"

lemma splits_ok_snoc:
  assumes "splits_ok n splits" "length splits < 8"
  shows "splits_ok (Suc n) (splits @ [Suc n])"
  using assms by (auto simp: splits_ok_def sorted_wrt_append nth_append le_Suc_eq)

lemma splits_ok_mono: "splits_ok n splits \<Longrightarrow> n \<le> m \<Longrightarrow> splits_ok m splits"
  by (auto simp: splits_ok_def intro: order_trans)

lemma split_symbols_spec:
  assumes "split_symbols R ms (length pre) (sum_list (map snd pre)) so bounds splits = (bs, ss)"
    and "splits_ok (length pre) splits" "bounds = map (cut R (pre @ ms)) splits"
  shows "splits_ok (length (pre @ ms)) ss \<and> bs = map (cut R (pre @ ms)) ss"
  using assms
proof (induction ms arbitrary: pre so bounds splits)
  case (Cons m ms)
  have c: "R + (sum_list (map snd pre) + snd m) = cut R (pre @ m # ms) (Suc (length pre))" by (simp add: cut_def)
  show ?case
  proof (cases "so + snd m \<ge> segment_size \<and> length splits < 8")
    case True
    then have "split_symbols R ms (length (pre @ [m])) (sum_list (map snd (pre @ [m]))) 0
        (bounds @ [R + (sum_list (map snd pre) + snd m)]) (splits @ [Suc (length pre)]) = (bs, ss)"
      using Cons.prems(1) by (simp add: Let_def)
    from Cons.IH [OF this] splits_ok_snoc [OF Cons.prems(2)] True Cons.prems(3) c show ?thesis by simp
  next
    case False
    then have "split_symbols R ms (length (pre @ [m])) (sum_list (map snd (pre @ [m]))) (so + snd m) bounds splits = (bs, ss)"
      using Cons.prems(1) [unfolded split_symbols.simps Let_def if_not_P [OF False]] by simp
    from Cons.IH [OF this] splits_ok_mono [OF Cons.prems(2)] Cons.prems(3) show ?thesis by simp
  qed
qed simp

lemma length_windows2: "length (windows2 xs) = length xs - 1"
  by (induction xs rule: windows2.induct) simp_all

lemma nth_windows2: "Suc j < length xs \<Longrightarrow> windows2 xs ! j = (xs ! j, xs ! Suc j)"
  by (induction xs arbitrary: j rule: windows2.induct) (auto simp: nth_Cons split: nat.split)

lemma result_map_spec:
  assumes "\<And>x. x \<in> set xs \<Longrightarrow> \<exists>y. f x = Inr y \<and> P x y"
  shows "\<exists>ys. result_map f xs = Inr ys \<and> length ys = length xs \<and> (\<forall>j<length xs. P (xs ! j) (ys ! j))"
  using assms
proof (induction xs)
  case (Cons x xs)
  obtain y where y: "f x = Inr y" "P x y" using Cons.prems by auto
  obtain ys where "result_map f xs = Inr ys" "length ys = length xs" "\<forall>j<length xs. P (xs ! j) (ys ! j)"
    using Cons.IH Cons.prems by auto
  then show ?case using y by (intro exI [of _ "y # ys"]) (auto simp: nth_Cons split: nat.split)
qed simp

lemma cut_less:
  assumes "\<forall>m\<in>set ms. 0 < snd m" "j < k" "j < length ms"
  shows "cut R ms j < cut R ms k"
proof -
  have "sum_list (map snd (take k ms)) = sum_list (map snd (take j ms)) + sum_list (map snd (drop j (take k ms)))"
  proof -
    have "take k ms = take j ms @ drop j (take k ms)"
      using append_take_drop_id [of j "take k ms"] assms(2) by simp
    then show ?thesis by (metis map_append sum_list_append)
  qed
  moreover have "drop j (take k ms) = ms ! j # drop (Suc j) (take k ms)"
    using Cons_nth_drop_Suc [of j "take k ms"] assms(2,3) by simp
  moreover have "0 < snd (ms ! j)" using assms by simp
  ultimately show ?thesis by (simp add: cut_def)
qed

lemma cut_le_iff:
  assumes "\<forall>m\<in>set ms. 0 < snd m" "j \<le> length ms" "k \<le> length ms"
  shows "cut R ms j \<le> cut R ms k \<longleftrightarrow> j \<le> k"
  using cut_less [OF assms(1), of j k R] cut_less [OF assms(1), of k j R] assms(2,3)
  by (metis le_neq_implies_less linorder_not_less order_less_imp_le order_refl less_le_trans)

text \<open>Both walks over the segments take the same steps.\<close>

lemma seg_of_advance:
  assumes ms: "\<forall>m\<in>set ms. 0 < snd m" "k < length ms" "cut R ms (length ms) < 2 ^ 62"
    and sp: "splits_ok (length ms) splits" "length (cf_segments f) = length splits"
      "cf_boundaries f = map (\<lambda>s. of_nat (cut R ms s)) splits"
  shows "advance_segment f (cut R ms k) seg = seg_of (splits @ [length ms]) k seg"
proof (induction "length splits - seg" arbitrary: seg rule: less_induct)
  case less
  have iff: "unat (cf_boundaries f ! (seg + 1)) \<le> cut R ms k \<longleftrightarrow> (splits @ [length ms]) ! (seg + 1) \<le> k"
    if "seg + 1 < length splits"
  proof -
    have s: "splits ! (seg + 1) \<le> length ms" using that sp(1) by (simp add: splits_ok_def)
    then have "cut R ms (splits ! (seg + 1)) \<le> cut R ms (length ms)" using cut_le_iff [OF ms(1)] by simp
    then have "unat (of_nat (cut R ms (splits ! (seg + 1))) :: u64) = cut R ms (splits ! (seg + 1))"
      using ms(3) by (simp add: unat_of_nat)
    then show ?thesis using that sp(3) cut_le_iff [OF ms(1) s, of k R] ms(2) by (simp add: nth_append)
  qed
  show ?case
  proof (cases "seg + 1 < length splits \<and> (splits @ [length ms]) ! (seg + 1) \<le> k")
    case True
    then have "length splits - (seg + 1) < length splits - seg" by linarith
    from less [OF this] True iff sp show ?thesis
      by (subst advance_segment.simps, subst seg_of.simps) simp
  next
    case False
    then show ?thesis using iff sp
      by (subst advance_segment.simps, subst seg_of.simps) auto
  qed
qed


lemma seg_of_spec:
  assumes "splits ! seg \<le> k" "seg < length splits" "k < n" "splits_ok n splits"
  shows "seg_of (splits @ [n]) k seg < length splits
    \<and> splits ! seg_of (splits @ [n]) k seg \<le> k \<and> k < (splits @ [n]) ! (seg_of (splits @ [n]) k seg + 1)"
  using assms
proof (induction "length splits - seg" arbitrary: seg rule: less_induct)
  case less
  show ?case
  proof (cases "seg + 1 < length splits \<and> (splits @ [n]) ! (seg + 1) \<le> k")
    case True
    then have "length splits - (seg + 1) < length splits - seg" "splits ! (seg + 1) \<le> k" by (auto simp: nth_append)
    from less.hyps [OF this _ less.prems(3,4)] True show ?thesis
      by (subst seg_of.simps, subst (2) seg_of.simps, subst (3) seg_of.simps) simp
  next
    case False
    then have "seg_of (splits @ [n]) k seg = seg" by (subst seg_of.simps) auto
    moreover have "k < (splits @ [n]) ! (seg + 1)"
    proof (cases "seg + 1 < length splits")
      case len: False
      then have "seg + 1 = length splits" using less.prems(2) by simp
      then show ?thesis using less.prems(3) by (simp add: nth_append)
    qed (use False in simp)
    ultimately show ?thesis using less.prems by simp
  qed
qed

lemma write_split_symbols_spec:
  assumes ms: "\<forall>m\<in>set ms. 0 < snd m" "list_all symbol_fits ms" "cut R ms (length ms) < 2 ^ 62"
    and f: "splits_ok (length ms) splits" "length ts = length splits" "list_all tables_ok ts"
    and coded: "\<And>j k. j < length splits \<Longrightarrow> splits ! j \<le> k \<Longrightarrow> k < (splits @ [length ms]) ! (j + 1) \<Longrightarrow> k < length ms \<Longrightarrow>
      symbol_coded (ts ! j) (ms ! k)"
    and fm: "fm = \<lparr>cf_segments = ts, cf_boundaries = map of_nat (map (cut R ms) splits)\<rparr>"
  shows "ms = pre @ rest \<Longrightarrow> writer_ok w \<Longrightarrow> seg < length splits \<Longrightarrow> splits ! seg \<le> length pre \<Longrightarrow>
    parse_coded fm seg (cut R ms (length pre)) rest \<and>
    (\<exists>w'. write_split_symbols ts (splits @ [length ms]) (length pre) seg w rest = Inr w' \<and> writer_ok w'
      \<and> wr_stream w' = wr_stream w @ enc_parse fm seg (cut R ms (length pre)) rest)"
proof (induction rest arbitrary: pre w seg)
  case (Cons m rest)
  define sg where "sg = seg_of (splits @ [length ms]) (length pre) seg"
  have k: "length pre < length ms" and mk: "ms ! length pre = m" using Cons.prems(1) by simp_all
  have sg: "sg < length splits" "splits ! sg \<le> length pre" "length pre < (splits @ [length ms]) ! (sg + 1)"
    using seg_of_spec [OF Cons.prems(4,3) k f(1)] by (simp_all add: sg_def)
  have adv: "advance_segment fm (cut R ms (length pre)) seg = sg"
    using seg_of_advance [OF ms(1) k ms(3) f(1)] f(2) by (simp add: fm sg_def comp_def)
  have t: "tables_ok (ts ! sg)" "symbol_coded (ts ! sg) m"
    using f(2,3) coded [OF sg k] sg(1) mk by (simp_all add: list_all_length)
  have fit: "symbol_fits m" using ms(2) Cons.prems(1) by simp
  obtain w1 where w1: "write_lzx_symbol (ts ! sg) w m = Inr w1" "writer_ok w1" "wr_stream w1 = wr_stream w @ enc_lzx (ts ! sg) m"
    using write_lzx_spec [OF t(1) fit t(2) Cons.prems(2)] by auto
  have c: "cut R ms (length pre) + snd m = cut R ms (length (pre @ [m]))" using Cons.prems(1) by (simp add: cut_def)
  have "ms = (pre @ [m]) @ rest" "splits ! sg \<le> length (pre @ [m])" using Cons.prems(1) sg(2) by simp_all
  note IH = Cons.IH [OF this(1) w1(2) sg(1) this(2)]
  have ix: "index ts sg = Inr (ts ! sg)" using sg(1) f(2) by simp
  have cs: "cf_segments fm = ts" by (simp add: fm)
  show ?case using IH t fit sg(1) f(2) w1 ix
    by (auto simp: Let_def adv c cs simp flip: sg_def)
qed simp


section \<open>The compressor's streams\<close>

definition stream_of :: "nat \<Rightarrow> (nat \<times> nat) list \<Rightarrow> bytes \<Rightarrow> bool" where
  "stream_of R ms patch \<longleftrightarrow> (\<exists>w fmt f. patch = writer_finish w \<and> writer_ok w
     \<and> wr_stream w = [False, False, False] @ [False] @ fmt @ enc_parse f 0 R ms
     \<and> parse_coded f 0 R ms \<and> length fmt \<le> 155000
     \<and> (\<forall>r rest. reader_ok r \<longrightarrow> rd_stream r = fmt @ rest \<longrightarrow> rd_padding r \<le> length rest \<longrightarrow>
          delivers (read_format r) f rest (rd_padding r)))"

lemma read_format_complex:
  assumes ts: "list_all tables_ok ts" "ts \<noteq> []" "length ts \<le> 1024" "length bounds = length ts" "\<forall>b\<in>set bounds. b < 2 ^ 62"
    and pt: "pretree_codes pt (concat (segment_symbols ts (replicate total_lengths 0)))" "\<forall>l\<in>set (ht_lengths pt). l < 16"
    and r: "reader_ok r" "rd_stream r = (False # enc_composite pt ts bounds) @ rest" "rd_padding r \<le> length rest"
  shows "delivers (read_format r) \<lparr>cf_segments = ts, cf_boundaries = map of_nat bounds\<rparr> rest (rd_padding r)"
proof -
  have "delivers (read_bits r 1) 0 (enc_composite pt ts bounds @ rest) (rd_padding r)"
    using read_field [OF r(1), of 0 1] r(2) by (simp add: word_bits_def)
  then obtain r1 where r1: "read_bits r 1 = Inr (0, r1)" "reader_ok r1" "rd_stream r1 = enc_composite pt ts bounds @ rest"
    "rd_padding r1 = rd_padding r" by (auto simp: delivers_def)
  have "delivers (read_composite_format r1) \<lparr>cf_segments = ts, cf_boundaries = map of_nat bounds\<rparr> rest (rd_padding r1)"
    using r1(4) r(3) by (intro read_composite_delivers [OF ts pt r1(2,3)]) simp
  then show ?thesis using r1(1,4) by (simp add: read_format_def)
qed

lemma write_mode:
  "writer_ok (write_bits (write_no_rift writer_new) 0 1)"
  "wr_stream (write_bits (write_no_rift writer_new) 0 1) = [False, False, False] @ [False, False]"
  "writer_ok (write_bits (write_no_rift writer_new) 1 1)"
  "wr_stream (write_bits (write_no_rift writer_new) 1 1) = [False, False, False] @ [False, True]"
  by (simp_all add: write_no_rift_def write_bits_spec writer_new_spec word_bits_def)

lemma compress_segments_stream:
  assumes ms: "\<forall>m\<in>set ms. 0 < snd m" "list_all symbol_fits ms" "R + sum_list (map snd ms) < 2 ^ 62"
  shows "\<exists>patch. compress_segments R ms = Inr patch \<and> stream_of R ms patch"
proof -
  obtain bs ss where sp: "split_symbols R ms 0 0 0 [R] [0] = (bs, ss)" by (metis prod.exhaust)
  have S: "splits_ok (length ms) ss" "bs = map (cut R ms) ss"
  proof -
    have "splits_ok (length ([] :: (nat \<times> nat) list)) [0]" "[R] = map (cut R ([] @ ms)) [0]"
      by (simp_all add: splits_ok_def cut_def)
    from split_symbols_spec [OF _ this, of 0 bs ss] sp show "splits_ok (length ms) ss" "bs = map (cut R ms) ss"
      by simp_all
  qed
  let ?f = "\<lambda>(a, b). tables_from_counts (fix_counts ensure_first_two (count_symbols_of (subrange a b ms)))"
  let ?P = "\<lambda>(a, b) t. tables_ok t \<and> (\<forall>m\<in>set (subrange a b ms). symbol_coded t m)"
  have "\<exists>t. ?f ab = Inr t \<and> ?P ab t" for ab
  proof -
    obtain a b where ab: "ab = (a, b)" by (cases ab)
    have "list_all symbol_fits (subrange a b ms)"
      using ms(2) by (auto simp: list_all_iff subrange_def dest!: in_set_takeD in_set_dropD)
    from tables_from_counts_ok [OF ensure_first_two_fixes this] show ?thesis by (auto simp: ab)
  qed
  from result_map_spec [of "windows2 (ss @ [length ms])" ?f ?P] this obtain ts where
    ts: "result_map ?f (windows2 (ss @ [length ms])) = Inr ts" "length ts = length ss"
      "\<forall>j<length ss. ?P (windows2 (ss @ [length ms]) ! j) (ts ! j)" by (auto simp: length_windows2)
  have W: "windows2 (ss @ [length ms]) ! j = (ss ! j, (ss @ [length ms]) ! (j + 1))" if "j < length ss" for j
    using nth_windows2 [of j "ss @ [length ms]"] that by (simp add: nth_append)
  have tok: "list_all tables_ok ts" using ts W by (auto simp: list_all_length)
  have coded: "symbol_coded (ts ! j) (ms ! k)"
    if "j < length ss" "ss ! j \<le> k" "k < (ss @ [length ms]) ! (j + 1)" "k < length ms" for j k
  proof -
    have "ms ! k \<in> set (subrange (ss ! j) ((ss @ [length ms]) ! (j + 1)) ms)"
      using that by (auto simp: in_set_conv_nth subrange_def intro!: exI [of _ "k - ss ! j"])
    then show ?thesis using ts(3) W that(1) by auto
  qed
  have ne: "ss \<noteq> []" "length ss \<le> 8" "ss ! 0 = 0" using S(1) by (auto simp: splits_ok_def)
  have cl: "cut R ms (length ms) < 2 ^ 62" using ms(3) by (simp add: cut_def)
  have "\<forall>s\<in>set ss. cut R ms s \<le> cut R ms (length ms)"
    using S(1) cut_le_iff [OF ms(1)] by (simp add: splits_ok_def)
  then have bb: "\<forall>b\<in>set bs. b < 2 ^ 62" using cl S(2) by (auto intro: le_less_trans)
  have nets: "ts \<noteq> []" using ts(2) ne by auto
  obtain pt w where w: "write_composite_format_multi (write_bits (write_no_rift writer_new) 0 1) ts bs = Inr w" "writer_ok w"
    "wr_stream w = [False, False, False] @ [False, False] @ enc_composite pt ts bs"
    and pt: "pretree_codes pt (concat (segment_symbols ts (replicate total_lengths 0)))" "\<forall>l\<in>set (ht_lengths pt). l < 16"
    and sz: "length (enc_composite pt ts bs) \<le> 236 + 19264 * length ts"
    using write_composite_multi [OF tok nets _ write_mode(1), of bs] S(2) ts(2) unfolding write_mode(2)
    by (metis append.assoc length_map)
  define fm where "fm = \<lparr>cf_segments = ts, cf_boundaries = map of_nat bs\<rparr>"
  have "fm = \<lparr>cf_segments = ts, cf_boundaries = map of_nat (map (cut R ms) ss)\<rparr>" by (simp only: fm_def S(2))
  from write_split_symbols_spec [OF ms(1,2) cl S(1) ts(2) tok coded this, of "[]" ms w 0] w(2) ne
  obtain w2 where w2: "write_split_symbols ts (ss @ [length ms]) 0 0 w ms = Inr w2" "writer_ok w2"
    "wr_stream w2 = wr_stream w @ enc_parse fm 0 R ms" "parse_coded fm 0 R ms" by (auto simp: cut_def)
  have "stream_of R ms (writer_finish w2)"
    unfolding stream_of_def
  proof (intro exI conjI allI impI)
    show "wr_stream w2 = [False, False, False] @ [False] @ (False # enc_composite pt ts bs) @ enc_parse fm 0 R ms"
      using w2(3) w(3) by simp
    show "length (False # enc_composite pt ts bs) \<le> 155000" using sz ts(2) ne by simp
    show "delivers (read_format r) fm rest (rd_padding r)"
      if "reader_ok r" "rd_stream r = (False # enc_composite pt ts bs) @ rest" "rd_padding r \<le> length rest" for r rest
      unfolding fm_def using that ts(2) ne S(2)
      by (intro read_format_complex [OF tok nets _ _ bb pt]) simp_all
  qed (use w2 in simp_all)
  then show ?thesis using w(1) w2(1) ts(1) by (simp add: compress_segments_def sp Let_def)
qed

lemma flat_tables:
  obtains t where "segment_tables_from_flat = Inr t" "tables_ok t"
    "\<And>m. symbol_fits m \<Longrightarrow> symbol_coded t m"
proof -
  have F: "from_lengths (flat_code_lengths n) = Inr (table_of (Max (set (flat_code_lengths n))) (flat_code_lengths n))
      \<and> tab_ok (table_of (Max (set (flat_code_lengths n))) (flat_code_lengths n)) n
      \<and> (\<forall>s<n. has_code (table_of (Max (set (flat_code_lengths n))) (flat_code_lengths n)) s)"
    if "2 \<le> n" "n \<le> 1024" for n
    using flat_code_lengths_complete [of n] that from_lengths_complete [of "flat_code_lengths n"]
      tab_ok_table_of [of "flat_code_lengths n"]
    by (auto simp: has_code_def length_flat_code_lengths)
  define tb where "tb n = table_of (Max (set (flat_code_lengths n))) (flat_code_lengths n)" for n
  define t where "t = \<lparr>st_main = tb main_symbols, st_lengths = tb length_symbols, st_aligned = tb aligned_symbols\<rparr>"
  have T: "tab_ok (tb 600) 600" "tab_ok (tb 256) 256" "tab_ok (tb 16) 16"
    "s < 600 \<Longrightarrow> has_code (tb 600) s" "s < 256 \<Longrightarrow> has_code (tb 256) s" "s < 16 \<Longrightarrow> has_code (tb 16) s" for s
    using F by (simp_all add: tb_def)
  show thesis
  proof (rule that [of t])
    show "segment_tables_from_flat = Inr t"
      using F [of 600] F [of 256] F [of 16] by (simp add: segment_tables_from_flat_def t_def tb_def alphabet_defs)
    show "tables_ok t" using T(1-3) by (simp add: tables_ok_def t_def alphabet_defs)
    show "symbol_coded t m" if fit: "symbol_fits m" for m
    proof (cases "is_literal m")
      case True
      then show ?thesis using T(4) [of "fst m"] by (simp add: symbol_coded_def t_def is_literal_def alphabet_defs)
    next
      case False
      obtain slot flds where o: "offset_fields (fst m) = Inr (slot, flds)" "slot < 43" and l: "2 \<le> snd m" "snd m < 2 ^ 32"
        using fit False by (auto simp: symbol_fits_def)
      have "match_symbol m < 600" using o(2) length_slot_le [OF l] by (simp add: match_symbol_def o(1))
      moreover have "fields_ok t (fst m - raw_offset_base_n) flds"
        unfolding fields_ok_def
      proof (intro ballI)
        fix fl assume "fl \<in> set flds"
        then show "if fst fl = - 1 then has_code (st_aligned t) ((fst m - raw_offset_base_n) mod 16)
          else 0 < snd fl \<and> snd fl \<le> 64"
          using offset_fields_shape [OF o(1)] T(6) [of "(fst m - raw_offset_base_n) mod 16"] by (simp add: t_def alphabet_defs)
      qed
      moreover have "has_code (st_lengths t) s" if "snd (length_fields (snd m)) = Some s" for s
        using length_fields_info [OF l] T(5) [of s] that by (simp add: t_def alphabet_defs)
      ultimately show ?thesis using False T(4) [of "match_symbol m"]
        by (simp add: symbol_coded_def match_fields_def o(1) t_def alphabet_defs split: option.split)
    qed
  qed
qed

lemma compress_single_stream:
  assumes ms: "list_all symbol_fits ms" "R < 2 ^ 62"
  shows "\<exists>patch. compress_single R ms = Inr patch \<and> stream_of R ms patch"
proof -
  obtain t where t: "tables_from_counts (fix_counts ensure_two (count_symbols_of ms)) = Inr t" "tables_ok t"
    "\<forall>m\<in>set ms. symbol_coded t m" by (rule tables_from_counts_ok [OF ensure_two_fixes ms(1)])
  obtain pt w where w: "write_composite_format (write_bits (write_no_rift writer_new) 0 1) t R = Inr w" "writer_ok w"
    "wr_stream w = [False, False, False] @ [False, False] @ enc_composite pt [t] [R]"
    and pt: "pretree_codes pt (concat (segment_symbols [t] (replicate total_lengths 0)))" "\<forall>l\<in>set (ht_lengths pt). l < 16"
    and sz: "length (enc_composite pt [t] [R]) \<le> 236 + 19264 * length [t]"
    using write_composite_multi [of "[t]" "[R]", OF _ _ _ write_mode(1)] t(2) unfolding write_mode(2) write_composite_single
    by (metis append.assoc length_Cons list.distinct(1) list.size(3) list.pred_inject)
  obtain w2 where w2: "write_symbols t w ms = Inr w2" "writer_ok w2" "wr_stream w2 = wr_stream w @ enc_symbols t ms"
    using write_symbols_spec [OF t(2) ms(1) t(3) w(2)] by auto
  define fm where "fm = \<lparr>cf_segments = [t], cf_boundaries = map of_nat [R]\<rparr>"
  have cs: "cf_segments fm = [t]" by (simp add: fm_def)
  have "stream_of R ms (writer_finish w2)"
    unfolding stream_of_def
  proof (intro exI conjI allI impI)
    show "wr_stream w2 = [False, False, False] @ [False] @ (False # enc_composite pt [t] [R]) @ enc_parse fm 0 R ms"
      using w2(3) w(3) single_segment(1) [OF cs] by simp
    show "parse_coded fm 0 R ms" using single_segment(2) [OF cs t(2) ms(1) t(3)] .
    show "length (False # enc_composite pt [t] [R]) \<le> 155000" using sz by simp
    show "delivers (read_format r) fm rest (rd_padding r)"
      if "reader_ok r" "rd_stream r = (False # enc_composite pt [t] [R]) @ rest" "rd_padding r \<le> length rest" for r rest
      unfolding fm_def using that t(2) ms(2) by (intro read_format_complex [OF _ _ _ _ _ pt]) simp_all
  qed (use w2 in simp_all)
  moreover obtain ft where ft: "segment_tables_from_flat = Inr ft" "tables_ok ft" "\<And>m. symbol_fits m \<Longrightarrow> symbol_coded ft m"
    using flat_tables by blast
  have fc: "\<forall>m\<in>set ms. symbol_coded ft m" using ft(3) ms(1) by (auto simp: list_all_iff)
  obtain w3 where w3: "write_symbols ft (write_bits (write_no_rift writer_new) 1 1) ms = Inr w3" "writer_ok w3"
    "wr_stream w3 = [False, False, False] @ [False, True] @ enc_symbols ft ms"
    using write_symbols_spec [OF ft(2) ms(1) fc write_mode(3)] write_mode(4) by auto
  define fs where "fs = \<lparr>cf_segments = [ft], cf_boundaries = [- 1 :: u64]\<rparr>"
  have cs: "cf_segments fs = [ft]" by (simp add: fs_def)
  have "stream_of R ms (writer_finish w3)"
    unfolding stream_of_def
  proof (intro exI conjI allI impI)
    show "wr_stream w3 = [False, False, False] @ [False] @ [True] @ enc_parse fs 0 R ms"
      using w3(3) single_segment(1) [OF cs] by simp
    show "parse_coded fs 0 R ms" using single_segment(2) [OF cs ft(2) ms(1) fc] .
    show "delivers (read_format r) fs rest (rd_padding r)"
      if "reader_ok r" "rd_stream r = [True] @ rest" "rd_padding r \<le> length rest" for r rest
    proof -
      have "delivers (read_bits r 1) 1 rest (rd_padding r)"
        using read_field [OF that(1), of 1 1] that(2) by (simp add: word_bits_def)
      then show ?thesis by (auto simp: read_format_def fs_def delivers_def ft(1))
    qed
  qed (use w3 in simp_all)
  ultimately show ?thesis by (simp add: compress_single_def Let_def ft(1) t(1) w(1) w2(1) w3(1) del: One_nat_def)
qed

lemma stream_decompresses:
  assumes s: "stream_of (length reference) ms patch"
    and ms: "parses (merged_table [] rift (length reference)) reference target 0 lru_new ms"
    and fit: "length reference < 2 ^ 62" "length target \<le> 2 ^ 24"
  shows "decompress_with_rift reference patch (length target) rift = Inr target"
proof -
  obtain w fmt f where w: "patch = writer_finish w" "writer_ok w"
     "wr_stream w = [False, False, False] @ [False] @ fmt @ enc_parse f 0 (length reference) ms"
    and c: "parse_coded f 0 (length reference) ms" and l: "length fmt \<le> 155000"
    and d: "\<And>r rest. reader_ok r \<Longrightarrow> rd_stream r = fmt @ rest \<Longrightarrow> rd_padding r \<le> length rest \<Longrightarrow>
          delivers (read_format r) f rest (rd_padding r)"
    using s unfolding stream_of_def by blast
  have "length (enc_parse f 0 (length reference) ms) \<le> 100 * length target"
    using enc_parse_size [OF c] parse_total [OF ms] by simp
  then have "length fmt + length (enc_parse f 0 (length reference) ms) + 4 < 2 ^ 31" using fit(2) l by simp
  from decompress_stream [OF w(2,3) this d ms c] fit show ?thesis unfolding w(1) by simp
qed

lemma compress_inner_stream:
  assumes r: "nonneg_rift rift" and fit: "length reference + length target < 2 ^ 31"
  obtains patch ms where "compress_inner reference target rift = Inr patch"
    "stream_of (length reference) ms patch"
    "parses (merged_table [] rift (length reference)) reference target 0 lru_new ms"
proof -
  define ort where "ort = merged_table [] rift (length reference)"
  define ms where "ms = parse_target reference target ort"
  have "segments_ahead ort (length reference) (length reference + length target)"
    unfolding ort_def using fit by (intro merged_segments_ahead [OF r]) simp_all
  note P = parse_target_right [OF fit(1) this, folded ms_def]
  have total: "sum_list (map snd ms) = length target" using parse_total [OF P(1)] by simp
  have pos: "\<forall>m\<in>set ms. 0 < snd m"
    using P(2) by (fastforce simp: list_all_iff symbol_fits_def is_literal_def)
  have "\<exists>patch. compress_inner reference target rift = Inr patch \<and> stream_of (length reference) ms patch"
    using compress_segments_stream [OF pos P(2), of "length reference"] compress_single_stream [OF P(2), of "length reference"]
      total fit(1) unfolding compress_inner_def Let_def ort_def [symmetric] ms_def [symmetric]
    by (cases "length target > segment_size * 2") simp_all
  with that P(1) show thesis unfolding ort_def by blast
qed

lemma compress_inner_decompresses:
  assumes r: "nonneg_rift rift" and fit: "length reference + length target < 2 ^ 31" "length target \<le> 2 ^ 24"
  shows "\<exists>patch. compress_inner reference target rift = Inr patch
    \<and> decompress_with_rift reference patch (length target) rift = Inr target"
proof -
  obtain patch ms where p: "compress_inner reference target rift = Inr patch"
    "stream_of (length reference) ms patch"
    "parses (merged_table [] rift (length reference)) reference target 0 lru_new ms"
    by (rule compress_inner_stream [OF r fit(1)])
  from stream_decompresses [OF p(2,3)] p(1) fit show ?thesis by auto
qed

section \<open>Properties\<close>

text \<open>
  C1. For every reference and every target of at most 16 MiB (the two together below 2 GiB) and every rift
  table with nonnegative sources, the compressor returns a patch, on the single-segment path as on the
  segmented one and whichever of the two modes it picks, and the decompressor that is given the
  same rift table rebuilds exactly the target from it.
\<close>

theorem lzx_round_trip:
  assumes "nonneg_rift rift" "length reference + length target < 2 ^ 31" "length target \<le> 2 ^ 24"
  shows "\<exists>patch. compress_inner reference target rift = Inr patch
    \<and> decompress_with_rift reference patch (length target) rift = Inr target"
  by (rule compress_inner_decompresses [OF assms])

theorem lzx_round_trip_witness:
  "\<exists>patch. compress_inner [7, 1, 2, 3, 4, 5, 6] [1, 2, 3, 4, 9, 1, 2, 3, 4]
      (Some [\<lparr>re_source = 0, re_target = 1\<rparr>]) = Inr patch
    \<and> decompress_with_rift [7, 1, 2, 3, 4, 5, 6] patch (length [1, 2, 3, 4, 9, 1, 2, 3, 4 :: u8])
      (Some [\<lparr>re_source = 0, re_target = 1\<rparr>]) = Inr [1, 2, 3, 4, 9, 1, 2, 3, 4]"
  by (rule lzx_round_trip) (simp_all add: nonneg_rift_def)

text \<open>
  C8. The copy-source map: when \<open>decompress_with_copy_source\<close> succeeds, on any bytes whatever, the
  output and the map have exactly the requested size, and every entry is either -1 or the offset of
  a byte of the reference that equals the output byte, also behind back-references and copies that span
  the end of the reference.
\<close>

theorem copy_source_map:
  assumes "decompress_with_copy_source reference patch n rift = Inr (out, srcs)"
  shows "length out = n \<and> length srcs = n \<and> (\<forall>k. k < n \<longrightarrow> from_ref reference (out ! k) (srcs ! k))"
proof -
  obtain s where d: "decompress_into reference patch n rift ([], Some []) = Inr (out, s)" "srcs = the s"
    using assms by (auto simp: decompress_with_copy_source_def elim!: rbind_eq_InrE)
  have ok: "prov_ok reference ([], Some [])" by (simp add: prov_ok_def)
  have sl: "src_len ([], Some [])" by simp
  have "length out = n"
  proof (cases "patch = []")
    case True
    then show ?thesis using d(1) by (auto simp: decompress_into_def split: if_splits)
  next
    case False
    then show ?thesis using decompress_into_prov(2) [OF ok d(1)] by simp
  qed
  moreover obtain p where "s = Some p" "list_all2 (from_ref reference) out p"
    using decompress_into_prov(1) [OF ok d(1)] by (auto simp: prov_ok_def split: option.splits)
  ultimately show ?thesis using d(2) by (simp add: list_all2_conv_all_nth)
qed


theorem copy_source_map_witness:
  "\<exists>patch out srcs. compress [1, 2, 3, 4, 5] [2, 3, 4, 5, 9] = Inr patch
    \<and> decompress_with_copy_source [1, 2, 3, 4, 5] patch 5 None = Inr (out, srcs)
    \<and> length srcs = 5 \<and> from_ref [1, 2, 3, 4, 5] (out ! 3) (srcs ! 3)"
proof -
  have "\<exists>patch. compress_inner [1, 2, 3, 4, 5] [2, 3, 4, 5, 9] None = Inr patch
      \<and> decompress_with_rift [1, 2, 3, 4, 5] patch (length [2, 3, 4, 5, 9 :: u8]) None = Inr [2, 3, 4, 5, 9]"
    by (rule compress_inner_decompresses) (simp_all add: nonneg_rift_def)
  moreover have "length [2, 3, 4, 5, 9 :: u8] = 5" by simp
  ultimately obtain patch where p: "compress [1, 2, 3, 4, 5] [2, 3, 4, 5, 9] = Inr patch"
    "decompress_with_rift [1, 2, 3, 4, 5] patch 5 None = Inr [2, 3, 4, 5, 9]"
    unfolding compress_def by metis
  then obtain out srcs where "decompress_with_copy_source [1, 2, 3, 4, 5] patch 5 None = Inr (out, srcs)"
    using decompress_into_same [of "([], Some [])" "[1, 2, 3, 4, 5]" patch 5 None]
    by (auto simp: decompress_with_rift_def decompress_with_copy_source_def same_output_def elim!: rbind_eq_InrE
        split: sum.splits)
  with copy_source_map [OF this] p(1) show ?thesis by auto
qed

text \<open>
  C9. Recording the copy-source map changes nothing: on every input \<open>decompress_with_rift\<close> returns
  the output of \<open>decompress_with_copy_source\<close>, and where one fails the other fails with the same error.
\<close>

theorem copy_source_transparent:
  "decompress_with_rift reference patch n rift =
     rbind (decompress_with_copy_source reference patch n rift) (\<lambda>(out, srcs). Inr out)"
  using decompress_into_same [of "([], Some [])" reference patch n rift]
  by (auto simp: decompress_with_rift_def decompress_with_copy_source_def same_output_def split: sum.splits)

text \<open>
  Symbols: every list of literals and matches the encoder accepts, written with the flat tables of
  the simple mode, is read back symbol by symbol - source copies, the three recent distances, signed
  deltas of all widths, absolute distances with verbatim and aligned bits, and lengths up to the
  32-bit numbers behind the escape.
\<close>

lemma flat_symbols_round_trip:
  assumes "list_all symbol_fits ms" "100 * sum_list (map snd ms) < 2 ^ 31"
  shows "\<exists>t w r r'. segment_tables_from_flat = Inr t \<and> write_symbols t writer_new ms = Inr w
    \<and> reader_new (writer_finish w) = Inr r \<and> lzx_symbol.get_list t (length ms) r = Inr (ms, r')"
proof -
  obtain t where t: "segment_tables_from_flat = Inr t" "tables_ok t" "\<And>m. symbol_fits m \<Longrightarrow> symbol_coded t m"
    using flat_tables by blast
  have v: "\<forall>m\<in>set ms. tables_ok t \<and> symbol_fits m \<and> symbol_coded t m" using assms(1) t by (auto simp: list_all_iff)
  have w: "write_symbols t w ms = Inr (foldl (\<lambda>w m. projr (write_lzx_symbol t w m)) w ms)" if "writer_ok w" for w
    using that v
  proof (induction ms arbitrary: w)
    case (Cons m ms)
    then show ?case using write_lzx_spec [of t m w] by fastforce
  qed simp
  have "length (lzx_symbol.enc_list t n ms) \<le> 100 * sum_list (map snd ms)" for n
    using v
  proof (induction ms arbitrary: n)
    case (Cons m ms)
    have "length (enc_lzx t m) \<le> 100 * snd m" using enc_lzx_size Cons.prems by simp
    moreover have "length (lzx_symbol.enc_list t (n + length (enc_lzx t m)) ms) \<le> 100 * sum_list (map snd ms)"
      using Cons by simp
    ultimately show ?case by simp
  qed simp
  from order_le_less_trans [OF this assms(2)] lzx_symbol.list_round_trip [where xs = ms and t = t] v t(1) w [OF writer_new_spec(1)]
  show ?thesis by (fastforce simp: list_all_iff)
qed

lemma flat_symbols_round_trip_instance:
  "\<exists>t w r r'. segment_tables_from_flat = Inr t
    \<and> write_symbols t writer_new [(65, 1), (0x54000, 5), (0x54002, 9), (0x2a005, 300), (0x54006, 2)] = Inr w
    \<and> reader_new (writer_finish w) = Inr r
    \<and> lzx_symbol.get_list t (length [(65, 1), (0x54000, 5), (0x54002, 9), (0x2a005, 300), (0x54006 :: nat, 2 :: nat)]) r
      = Inr ([(65, 1), (0x54000, 5), (0x54002, 9), (0x2a005, 300), (0x54006, 2)], r')"
  by (rule flat_symbols_round_trip [of "[(65, 1), (0x54000, 5), (0x54002, 9), (0x2a005, 300), (0x54006, 2 :: nat)]"]) (simp_all add: symbol_fits_def is_literal_def offset_fields_def)

text \<open>
  C14. Code lengths: the run-length symbols of \<open>encode_compression_lengths\<close>, coded with the pre-tree of their own
  frequencies, are read back by \<open>read_compression_lengths\<close> as the 872 lengths they were made from,
  whatever the lengths of the segment before were - runs of up to 127 copied or repeated lengths,
  differences and literal lengths.
\<close>

theorem code_lengths_round_trip:
  assumes "length lens = total_lengths" "\<forall>l\<in>set lens. l \<le> 16" "length prev = total_lengths" "\<forall>l\<in>set prev. l \<le> 16"
  shows "\<exists>pt r r'. from_frequencies (pretree_counts (encode_compression_lengths lens prev)) 15 = Inr pt
    \<and> reader_new (writer_finish (foldl (write_pretree_symbol pt) writer_new (encode_compression_lengths lens prev))) = Inr r
    \<and> read_compression_lengths r pt prev = Inr (lens, r')"
proof -
  let ?syms = "encode_compression_lengths lens prev"
  have l: "length lens = 872" "lengths_ok lens" "lengths_ok prev" using assms by (simp_all add: lengths_ok_def alphabet_defs)
  have S: "\<forall>s\<in>set ?syms. fst s < 39 \<and> extra_ok (snd s)" "length ?syms \<le> 872"
    using encode_lengths_shape [OF assms(2), of prev 0] l(1) by (simp_all add: encode_compression_lengths_def)
  have "?syms \<noteq> []" using l(1) by (simp add: encode_compression_lengths_def encode_lengths_from.simps split: prod.split)
  then obtain pt where pt: "from_frequencies (pretree_counts ?syms) 15 = Inr pt" "pretree_codes pt ?syms"
    using pretree_table S(1) by blast
  let ?e = "enc_pretree_symbols pt ?syms"
  have W: "writer_ok (foldl (write_pretree_symbol pt) writer_new ?syms)"
    "wr_stream (foldl (write_pretree_symbol pt) writer_new ?syms) = [False, False, False] @ ?e"
    using write_pretree_symbols_spec [OF pt(2) writer_new_spec(1)] by (simp_all add: writer_new_spec(2))
  have "length ?e < 2 ^ 31" using enc_pretree_size [OF pt(2)] S(2) by simp
  from reopen [OF W this] obtain r where r:
    "reader_new (writer_finish (foldl (write_pretree_symbol pt) writer_new ?syms)) = Inr r" "reader_ok r"
    "rd_stream r = ?e @ replicate (align_len (3 + length ?e)) False" "rd_padding r = align_len (3 + length ?e)" .
  from read_compression_lengths_delivers [OF l(2,3) pt(2) r(2,3)] r(4)
  have "delivers (read_compression_lengths r pt prev) lens (replicate (align_len (3 + length ?e)) False) (rd_padding r)" by simp
  with pt(1) r(1) show ?thesis by (auto simp: delivers_def)
qed

theorem code_lengths_round_trip_witness:
  "\<exists>pt r r'. from_frequencies (pretree_counts (encode_compression_lengths (replicate 600 9 @ replicate 272 3) (replicate 872 9))) 15 = Inr pt
    \<and> reader_new (writer_finish (foldl (write_pretree_symbol pt) writer_new
         (encode_compression_lengths (replicate 600 9 @ replicate 272 3) (replicate 872 9)))) = Inr r
    \<and> read_compression_lengths r pt (replicate 872 9) = Inr (replicate 600 9 @ replicate 272 3, r')"
  by (rule code_lengths_round_trip) (auto simp: alphabet_defs)

text \<open>
  C13. The composite header: what \<open>write_composite_format_multi\<close> writes for up to 1024 segments - their count, the
  boundaries as differences, the 4-bit pre-tree and the code lengths of every segment relative to the one before -
  is read by \<open>read_composite_format\<close> as the same tables and the same boundaries.
\<close>

theorem composite_format_round_trip:
  assumes "list_all tables_ok ts" "0 < length ts" "length ts \<le> 1024"
    and "length bounds = length ts" "\<forall>b\<in>set bounds. b < 2 ^ 62"
  shows "\<exists>w r r'. write_composite_format_multi writer_new ts bounds = Inr w
    \<and> reader_new (writer_finish w) = Inr r
    \<and> read_composite_format r = Inr (\<lparr>cf_segments = ts, cf_boundaries = map of_nat bounds\<rparr>, r')"
proof -
  have ne: "ts \<noteq> []" using assms(2) by auto
  obtain pt w where w: "write_composite_format_multi writer_new ts bounds = Inr w" "writer_ok w"
    "wr_stream w = [False, False, False] @ enc_composite pt ts bounds"
    and pt: "pretree_codes pt (concat (segment_symbols ts (replicate total_lengths 0)))" "\<forall>l\<in>set (ht_lengths pt). l < 16"
    and sz: "length (enc_composite pt ts bounds) \<le> 236 + 19264 * length ts"
    using write_composite_multi [OF assms(1) ne assms(4) writer_new_spec(1)] unfolding writer_new_spec(2) by metis
  let ?e = "enc_composite pt ts bounds"
  have "length ?e < 2 ^ 31" using sz assms(3) by simp
  from reopen [OF w(2,3) this] obtain r where r: "reader_new (writer_finish w) = Inr r" "reader_ok r"
    "rd_stream r = ?e @ replicate (align_len (3 + length ?e)) False" "rd_padding r = align_len (3 + length ?e)" .
  from read_composite_delivers [OF assms(1) ne assms(3-5) pt r(2,3)] r(4)
  have "delivers (read_composite_format r) \<lparr>cf_segments = ts, cf_boundaries = map of_nat bounds\<rparr>
    (replicate (align_len (3 + length ?e)) False) (rd_padding r)" by simp
  with w(1) r(1) show ?thesis by (auto simp: delivers_def)
qed

theorem composite_format_round_trip_witness:
  "\<exists>t w r r'. segment_tables_from_flat = Inr t \<and> write_composite_format_multi writer_new [t, t] [7, 900] = Inr w
    \<and> reader_new (writer_finish w) = Inr r
    \<and> read_composite_format r = Inr (\<lparr>cf_segments = [t, t], cf_boundaries = map of_nat [7, 900]\<rparr>, r')"
proof -
  obtain t where t: "segment_tables_from_flat = Inr t" "tables_ok t" using flat_tables by blast
  with composite_format_round_trip [of "[t, t]" "[7, 900]"] show ?thesis by fastforce
qed

end
