(* ===== verification/Bsdiff.thy ===== *)
theory Bsdiff
  imports Prelude "HOL-Library.List_Lexorder" "HOL-Library.Product_Lexorder" "HOL-Library.Multiset"
begin

text \<open>
  The BsDiff codec (\<open>src/bsdiff/mod.rs\<close>): the sign-magnitude integers, \<open>bspatch\<close> with its control
  triples, the suffix array by prefix doubling, the binary search for the longest match, and
  \<open>bscreate\<close>. The \<open>i64\<close> positions are 64-bit words (release arithmetic wraps); the loop of \<open>bscreate\<close>
  is a partial function, and that it returns is a theorem.
\<close>

section \<open>Integers\<close>

definition bs_read_i64 :: "bytes \<Rightarrow> i64 result" where
  "bs_read_i64 data =
     (if length data < 8 then Inl Truncated
      else
        let sign = data ! 7 AND 0x80 \<noteq> 0;
            magnitude = push_bit 48 (ucast (data ! 7) AND 0x7F) OR push_bit 40 (ucast (data ! 6))
              OR push_bit 32 (ucast (data ! 5)) OR push_bit 24 (ucast (data ! 4)) OR push_bit 16 (ucast (data ! 3))
              OR push_bit 8 (ucast (data ! 2)) OR ucast (data ! 1);
            val = magnitude * 256 + ucast (data ! 0)
        in Inr (if sign then - val else val))"

definition bs_write_i64 :: "i64 \<Rightarrow> bytes" where
  "bs_write_i64 val =
     (let (magnitude, sign) = (if sint val < 0 then (- val, True) else (val, False))
      in [ucast (magnitude AND 0xFF), ucast (drop_bit 8 magnitude AND 0xFF), ucast (drop_bit 16 magnitude AND 0xFF),
          ucast (drop_bit 24 magnitude AND 0xFF), ucast (drop_bit 32 magnitude AND 0xFF),
          ucast (drop_bit 40 magnitude AND 0xFF), ucast (drop_bit 48 magnitude AND 0xFF),
          ucast (drop_bit 56 magnitude AND 0x7F) OR (if sign then 0x80 else 0)])"

section \<open>Applying a patch\<close>

definition source_byte :: "bytes \<Rightarrow> i64 \<Rightarrow> u8" where
  "source_byte source sp = (if 0 \<le> sint sp \<and> unat sp < length source then source ! unat sp else 0)"

record bspatch_state =
  bp_target :: bytes
  bp_patch_pos :: nat
  bp_old_pos :: i64
  bp_new_pos :: nat

text \<open>One block: the three control values, the differences, the literals.\<close>

definition bspatch_block :: "bytes \<Rightarrow> nat \<Rightarrow> bytes \<Rightarrow> bspatch_state \<Rightarrow> bspatch_state result" where
  "bspatch_block source out_size patch st =
     (let pp = bp_patch_pos st
      in if pp + 24 > length patch then Inl Truncated
         else
           rbind (bs_read_i64 (drop pp patch)) (\<lambda>a.
           rbind (bs_read_i64 (drop (pp + 8) patch)) (\<lambda>b.
           rbind (bs_read_i64 (drop (pp + 16) patch)) (\<lambda>seek_dist.
             let add_len = unat a; insert_len = unat b; pp = pp + 24; new_pos = bp_new_pos st
             in if add_len > 0x7FFFFFFF \<or> insert_len > 0x7FFFFFFF then Inl (Malformed ''control value too large'')
                else if new_pos + add_len > out_size then Inl (Malformed ''add_len exceeds target size'')
                else if pp + add_len > length patch then Inl Truncated
                else
                  let target = write_at new_pos
                        (map (\<lambda>i. patch ! (pp + i) + source_byte source (bp_old_pos st + of_nat i)) [0..<add_len])
                        (bp_target st);
                      pp = pp + add_len;
                      new_pos = new_pos + add_len
                  in if new_pos + insert_len > out_size then Inl (Malformed ''insert_len exceeds target size'')
                     else if pp + insert_len > length patch then Inl Truncated
                     else Inr \<lparr>bp_target = write_at new_pos (subrange pp (pp + insert_len) patch) target,
                                bp_patch_pos = pp + insert_len,
                                bp_old_pos = bp_old_pos st + (seek_dist + of_nat add_len),
                                bp_new_pos = new_pos + insert_len\<rparr>))))"

lemma bspatch_block_progress:
  "bspatch_block source n patch st = Inr st' \<Longrightarrow>
    bp_patch_pos st + 24 \<le> bp_patch_pos st' \<and> bp_patch_pos st' \<le> length patch"
  by (auto simp: bspatch_block_def Let_def elim!: rbind_eq_InrE split: if_splits)

function bspatch_loop :: "bytes \<Rightarrow> nat \<Rightarrow> bytes \<Rightarrow> bspatch_state \<Rightarrow> bytes result" where
  "bspatch_loop source out_size patch st =
     (if bp_new_pos st < out_size
      then rbind (bspatch_block source out_size patch st) (bspatch_loop source out_size patch)
      else Inr (bp_target st))"
  by pat_completeness auto
termination
proof (relation "measure (\<lambda>(source, n, patch, st). length patch - bp_patch_pos st)", goal_cases)
  case (2 source n patch st st')
  then show ?case using bspatch_block_progress by fastforce
qed simp

declare bspatch_loop.simps [simp del]

definition bspatch :: "bytes \<Rightarrow> nat \<Rightarrow> bytes \<Rightarrow> bytes result" where
  "bspatch source out_size patch =
     (if out_size > 64 * 1024 * 1024 then Inl (Malformed ''bspatch: target size exceeds 256 MB limit'')
      else bspatch_loop source out_size patch
        \<lparr>bp_target = replicate out_size 0, bp_patch_pos = 0, bp_old_pos = 0, bp_new_pos = 0\<rparr>)"

section \<open>The suffix array\<close>

definition rank2 :: "nat \<Rightarrow> nat \<Rightarrow> int list \<Rightarrow> nat \<Rightarrow> int" where
  "rank2 n k r a = (if a + k < n then r ! (a + k) else - 1)"

definition same_class :: "nat \<Rightarrow> nat \<Rightarrow> int list \<Rightarrow> nat \<Rightarrow> nat \<Rightarrow> bool" where
  "same_class n k r prev cur \<longleftrightarrow> r ! prev = r ! cur
     \<and> (prev + k \<ge> n \<and> cur + k \<ge> n \<or> prev + k < n \<and> cur + k < n \<and> r ! (prev + k) = r ! (cur + k))"

text \<open>The new rank of a position: one more than the one before it in the array, or the same.\<close>

fun rerank :: "nat \<Rightarrow> nat \<Rightarrow> int list \<Rightarrow> nat list \<Rightarrow> int list \<Rightarrow> int list" where
  "rerank n k r (prev # cur # sa) tmp =
     rerank n k r (cur # sa) (tmp[cur := tmp ! prev + (if same_class n k r prev cur then 0 else 1)])"
| "rerank n k r sa tmp = tmp"

text \<open>A round sorts by the ranks at \<open>a\<close> and \<open>a + k\<close>; \<open>k\<close> doubles until all ranks differ.\<close>

function doubling :: "nat \<Rightarrow> nat \<Rightarrow> nat list \<Rightarrow> int list \<Rightarrow> int list \<Rightarrow> nat list" where
  "doubling n k sa rank tmp =
     (if 0 < k \<and> k < n then
        let sa = sort_key (\<lambda>a. (rank ! a, rank2 n k rank a)) sa;
            tmp = rerank n k rank sa (tmp[sa ! 0 := 0]);
            rank = tmp
        in if rank ! (sa ! (n - 1)) = int (n - 1) then sa else doubling n (2 * k) sa rank tmp
      else sa)"
  by pat_completeness auto
termination
  by (relation "measure (\<lambda>(n, k, sa, rank, tmp). n - k)") auto

declare doubling.simps [simp del]

definition suffix_array :: "bytes \<Rightarrow> nat list" where
  "suffix_array data =
     doubling (length data) 1 [0..<length data] (map uint data) (replicate (length data) 0)"


section \<open>The longest match\<close>

function bs_match_len :: "bytes \<Rightarrow> nat \<Rightarrow> bytes \<Rightarrow> nat \<Rightarrow> nat \<Rightarrow> nat" where
  "bs_match_len a apos b bpos i =
     (if i < min (length a - apos) (length b - bpos) \<and> a ! (apos + i) = b ! (bpos + i)
      then bs_match_len a apos b bpos (i + 1) else i)"
  by pat_completeness auto
termination
  by (relation "measure (\<lambda>(a, apos, b, bpos, i). length a - apos - i)") auto

declare bs_match_len.simps [simp del]

definition compare_less :: "bytes \<Rightarrow> nat \<Rightarrow> bytes \<Rightarrow> bool" where
  "compare_less source pos target =
     (let slen = length source - pos;
          cmp_len = min slen (length target);
          a = take cmp_len (drop pos source); b = take cmp_len target
      in if a = b then slen < length target else a < b)"

text \<open>The better of the best match so far and the match at a position of the array.\<close>

definition better_match :: "bytes \<Rightarrow> bytes \<Rightarrow> nat \<Rightarrow> nat \<times> nat \<Rightarrow> nat \<times> nat" where
  "better_match source target pos best =
     (let ml = bs_match_len source pos target 0 0 in if ml > snd best then (pos, ml) else best)"

function bisect :: "nat list \<Rightarrow> bytes \<Rightarrow> bytes \<Rightarrow> nat \<Rightarrow> nat \<Rightarrow> nat \<times> nat \<Rightarrow> nat \<times> (nat \<times> nat)" where
  "bisect sa source target lo hi best =
     (if lo < hi then
        let mid = lo + (hi - lo) div 2;
            pos = sa ! mid;
            best = better_match source target pos best
        in if compare_less source pos target then bisect sa source target (mid + 1) hi best
           else bisect sa source target lo mid best
      else (lo, best))"
  by pat_completeness auto
termination
  by (relation "measure (\<lambda>(sa, source, target, lo, hi, best). hi - lo)") auto

declare bisect.simps [simp del]

definition find_match :: "nat list \<Rightarrow> bytes \<Rightarrow> bytes \<Rightarrow> nat \<times> nat" where
  "find_match sa source target =
     (if sa = [] \<or> target = [] then (0, 0)
      else
        let n = length sa;
            (lo, best) = bisect sa source target 0 (n - 1) (0, 0)
        in fold (\<lambda>idx best. if idx < n then better_match source target (sa ! idx) best else best) [lo, lo - 1] best)"

section \<open>Creating a patch\<close>

text \<open>Does the source byte at an \<open>i64\<close> position exist and equal the target byte?\<close>

definition eq_at :: "bytes \<Rightarrow> bytes \<Rightarrow> i64 \<Rightarrow> nat \<Rightarrow> bool" where
  "eq_at source target sp j \<longleftrightarrow> 0 \<le> sint sp \<and> unat sp < length source \<and> source ! unat sp = target ! j"

definition old_score :: "bytes \<Rightarrow> bytes \<Rightarrow> nat \<Rightarrow> i64 \<Rightarrow> nat \<Rightarrow> nat" where
  "old_score source target scan last_offset best_len =
     length (filter (\<lambda>i. eq_at source target (of_nat scan + last_offset + of_nat i) (scan + i))
       [0..<min best_len (length target - scan)])"

definition min_match :: nat where "min_match = 8"

function search_match ::
  "bytes \<Rightarrow> nat list \<Rightarrow> bytes \<Rightarrow> i64 \<Rightarrow> nat \<Rightarrow> nat \<times> nat \<Rightarrow> nat \<times> (nat \<times> nat)" where
  "search_match source sa target last_offset scan best =
     (if scan < length target then
        let (best_pos, best_len) = find_match sa source (drop scan target)
        in if best_len > old_score source target scan last_offset best_len + min_match
           then (scan, (best_pos, best_len))
           else search_match source sa target last_offset (scan + 1) (best_pos, best_len)
      else (scan, best))"
  by pat_completeness auto
termination
  by (relation "measure (\<lambda>(source, sa, target, last_offset, scan, best). length target - scan)") auto

declare search_match.simps [simp del]

text \<open>The extension loops: the longest prefix more than half of which agrees.\<close>

definition extend_step :: "(nat \<Rightarrow> bool) \<Rightarrow> nat \<Rightarrow> nat \<times> nat \<times> nat \<Rightarrow> nat \<times> nat \<times> nat" where
  "extend_step agrees n = (\<lambda>(s, best_s, len).
     let s = (if agrees n then s + 1 else s)
     in if s * 2 > n \<and> s > best_s then (s, s, n) else (s, best_s, len))"

definition forward_extension :: "bytes \<Rightarrow> bytes \<Rightarrow> nat \<Rightarrow> nat \<Rightarrow> i64 \<Rightarrow> nat" where
  "forward_extension source target scan last_scan last_pos =
     snd (snd (fold (extend_step (\<lambda>n. eq_at source target (last_pos + of_nat (n - 1)) (last_scan + (n - 1))))
       [1..<scan - last_scan + 1] (0, 0, 0)))"

definition backward_extension :: "bytes \<Rightarrow> bytes \<Rightarrow> nat \<Rightarrow> nat \<Rightarrow> nat \<Rightarrow> nat \<Rightarrow> nat" where
  "backward_extension source target scan last_scan lens_f best_pos =
     snd (snd (fold (extend_step (\<lambda>n. eq_at source target (of_nat best_pos - of_nat n) (scan - n)))
       [1..<scan - (last_scan + lens_f) + 1] (0, 0, 0)))"

definition diff_bytes :: "bytes \<Rightarrow> bytes \<Rightarrow> nat \<Rightarrow> i64 \<Rightarrow> nat \<Rightarrow> bytes" where
  "diff_bytes source target last_scan last_pos add_len =
     map (\<lambda>i. target ! (last_scan + i) - source_byte source (last_pos + of_nat i)) [0..<add_len]"

record bscreate_state =
  bc_scan :: nat
  bc_last_scan :: nat
  bc_last_pos :: i64
  bc_last_offset :: i64
  bc_patch :: bytes

text \<open>One round of the outer loop; \<open>None\<close> when it breaks or ends.\<close>

definition bscreate_round :: "bytes \<Rightarrow> nat list \<Rightarrow> bytes \<Rightarrow> bscreate_state \<Rightarrow> bscreate_state option" where
  "bscreate_round source sa target st =
     (if bc_scan st < length target then
        let (scan, (best_pos, best_len)) =
              search_match source sa target (bc_last_offset st) (bc_scan st + 1) (0, 0);
            last_scan = bc_last_scan st; last_pos = bc_last_pos st
        in if scan \<ge> length target then None
           else
             let lens_f = forward_extension source target scan last_scan last_pos;
                 lenb = backward_extension source target scan last_scan lens_f best_pos;
                 add_len = lens_f;
                 insert_start = last_scan + lens_f;
                 insert_end = scan - lenb;
                 insert_len = insert_end - insert_start;
                 new_pos = of_nat best_pos - of_nat lenb;
                 seek = new_pos - (last_pos + of_nat add_len);
                 patch = bc_patch st @ bs_write_i64 (of_nat add_len) @ bs_write_i64 (of_nat insert_len)
                   @ bs_write_i64 seek @ diff_bytes source target last_scan last_pos add_len
                   @ (if insert_len > 0 then subrange insert_start (insert_start + insert_len) target else [])
             in Some \<lparr>bc_scan = scan - lenb + best_len, bc_last_scan = scan - lenb, bc_last_pos = new_pos,
                      bc_last_offset = of_nat best_pos - of_nat scan, bc_patch = patch\<rparr>
      else None)"

partial_function (option) bscreate_loop ::
  "bytes \<Rightarrow> nat list \<Rightarrow> bytes \<Rightarrow> bscreate_state \<Rightarrow> bscreate_state option" where
  "bscreate_loop source sa target st =
     (case bscreate_round source sa target st of
        None \<Rightarrow> Some st
      | Some st' \<Rightarrow> bscreate_loop source sa target st')"

text \<open>The block behind the last match.\<close>

definition bscreate_tail :: "bytes \<Rightarrow> bytes \<Rightarrow> bscreate_state \<Rightarrow> bytes" where
  "bscreate_tail source target st =
     (if bc_last_scan st < length target then
        let add_len = length target - bc_last_scan st
        in bc_patch st @ bs_write_i64 (of_nat add_len) @ bs_write_i64 0 @ bs_write_i64 0
           @ diff_bytes source target (bc_last_scan st) (bc_last_pos st) add_len
      else bc_patch st)"

definition bscreate :: "bytes \<Rightarrow> bytes \<Rightarrow> bytes option" where
  "bscreate source target =
     (if target = [] then Some []
      else map_option (bscreate_tail source target)
        (bscreate_loop source (suffix_array source) target
          \<lparr>bc_scan = 0, bc_last_scan = 0, bc_last_pos = 0, bc_last_offset = 0, bc_patch = []\<rparr>))"

section \<open>Integers survive\<close>

lemma and_low: "(x :: u64) AND 0xFF = take_bit 8 x" "(x :: u64) AND 0x7F = take_bit 7 x"
  by (simp_all add: take_bit_eq_mask mask_eq_exp_minus_1)

lemma magnitude_bytes:
  fixes m :: u64
  assumes "\<not> bit m 63"
  shows "(push_bit 48 (take_bit 7 (ucast (ucast (drop_bit 56 m) :: u8))) OR push_bit 40 (ucast (ucast (drop_bit 48 m) :: u8))
    OR push_bit 32 (ucast (ucast (drop_bit 40 m) :: u8)) OR push_bit 24 (ucast (ucast (drop_bit 32 m) :: u8))
    OR push_bit 16 (ucast (ucast (drop_bit 24 m) :: u8)) OR push_bit 8 (ucast (ucast (drop_bit 16 m) :: u8))
    OR ucast (ucast (drop_bit 8 m) :: u8)) = drop_bit 8 m" (is "?l = _")
proof (rule bit_word_eqI)
  fix n assume "n < LENGTH(64)"
  then consider "n < 8" | "8 \<le> n" "n < 16" | "16 \<le> n" "n < 24" | "24 \<le> n" "n < 32" | "32 \<le> n" "n < 40"
    | "40 \<le> n" "n < 48" | "48 \<le> n" "n < 55" | "n = 55" | "56 \<le> n" by fastforce
  then show "bit ?l n \<longleftrightarrow> bit (drop_bit 8 m) n"
    using assms \<open>n < LENGTH(64)\<close> by cases (auto simp: bit_simps less_diff_conv2 dest: bit_imp_le_length)
qed

lemma sign_byte:
  fixes b :: u8
  shows "(take_bit 7 b OR (if s then 0x80 else 0)) AND 0x80 \<noteq> 0 \<longleftrightarrow> s"
    "take_bit 7 (ucast (take_bit 7 b OR (if s then 0x80 else 0)) :: u64) = take_bit 7 (ucast b)"
proof -
  have h: "(0x80 :: u8) = push_bit 7 1" by simp
  have "bit ((take_bit 7 b OR (if s then 0x80 else 0)) AND 0x80) n \<longleftrightarrow> s \<and> n = 7" for n
    unfolding h by (auto simp: bit_simps simp del: push_bit_numeral push_bit_of_1 push_bit_of_Suc_0)
  then show "(take_bit 7 b OR (if s then 0x80 else 0)) AND 0x80 \<noteq> 0 \<longleftrightarrow> s"
    by (metis bit_0_eq bot_apply bot_bool_def bit_eqI)
  show "take_bit 7 (ucast (take_bit 7 b OR (if s then 0x80 else 0)) :: u64) = take_bit 7 (ucast b)"
    unfolding h by (rule bit_word_eqI) (auto simp: bit_simps simp del: push_bit_numeral push_bit_of_1 push_bit_of_Suc_0)
qed

lemma magnitude_positive:
  assumes "(v :: i64) \<noteq> - (2 ^ 63)"
  shows "\<not> bit (if sint v < 0 then - v else v) 63"
proof -
  have "sint v \<noteq> - (2 ^ 63)"
  proof
    assume "sint v = - (2 ^ 63)"
    then have "of_int (sint v) = (of_int (- (2 ^ 63)) :: i64)" by simp
    then show False using assms by simp
  qed
  moreover have "- (2 ^ 63) \<le> sint v" "sint v < 2 ^ 63" using sint_range_size [of v] by (simp_all add: word_size)
  ultimately have "sint v < 0 \<Longrightarrow> sint (- v) = - sint v"
    by (simp add: sint_word_ariths signed_take_bit_int_eq_self)
  then have "0 \<le> sint (if sint v < 0 then - v else v)" by auto
  then show ?thesis using bit_last_iff [of "if sint v < 0 then - v else v"] by simp
qed

lemma read_write_i64:
  assumes "v \<noteq> - (2 ^ 63)"
  shows "bs_read_i64 (bs_write_i64 v @ rest) = Inr v"
proof -
  define m where "m = (if sint v < 0 then - v else v)"
  define b where "b k = (ucast (drop_bit k m) :: u8)" for k
  note m = magnitude_positive [OF assms, folded m_def]
  have ff: "(ucast (drop_bit k m AND 0xFF) :: u8) = b k" for k
    unfolding and_low b_def by (rule bit_word_eqI) (simp add: bit_simps)
  have t7: "(ucast (drop_bit 56 m AND 0x7F) :: u8) = take_bit 7 (b 56)"
    unfolding and_low b_def by (rule bit_word_eqI) (auto simp: bit_simps)
  have w: "bs_write_i64 v = [b 0, b 8, b 16, b 24, b 32, b 40, b 48, take_bit 7 (b 56) OR (if sint v < 0 then 0x80 else 0)]"
  proof -
    have "(if sint v < 0 then (- v, True) else (v, False)) = (m, sint v < 0)" by (simp add: m_def)
    then show ?thesis using ff [of 0] by (simp add: bs_write_i64_def ff t7)
  qed
  have val: "drop_bit 8 m * 256 + ucast (b 0) = m"
  proof -
    have "drop_bit 8 m * 256 = push_bit 8 (drop_bit 8 m)" by (simp add: push_bit_eq_mult)
    moreover have "(ucast (b 0) :: u64) = take_bit 8 m" unfolding b_def by (rule bit_word_eqI) (simp add: bit_simps)
    moreover have "push_bit 8 (drop_bit 8 m) + take_bit 8 m = m" by (simp add: bits_ident)
    ultimately show ?thesis by simp
  qed
  have "bs_read_i64 (bs_write_i64 v @ rest) = Inr (if sint v < 0 then - m else m)"
    using magnitude_bytes [OF m] val
    unfolding w bs_read_i64_def
    by (simp add: Let_def nth_Cons sign_byte and_low flip: b_def)
  then show ?thesis by (simp add: m_def)
qed

lemma length_bs_write_i64 [simp]: "length (bs_write_i64 v) = 8"
  by (simp add: bs_write_i64_def Let_def case_prod_beta)

section \<open>One block\<close>

lemma write_at_append:
  "length a = p \<Longrightarrow> length b = length bs \<Longrightarrow> write_at p bs (a @ b @ c) = a @ bs @ c"
  by (simp add: write_at_def)

definition patch_block :: "nat \<Rightarrow> nat \<Rightarrow> i64 \<Rightarrow> bytes \<Rightarrow> bytes \<Rightarrow> bytes" where
  "patch_block a b seek diffs lits =
     bs_write_i64 (of_nat a) @ bs_write_i64 (of_nat b) @ bs_write_i64 seek @ diffs @ lits"

lemma read_control:
  assumes "k < 2 ^ 31"
  shows "bs_read_i64 (bs_write_i64 (of_nat k) @ rest) = Inr (of_nat k)" "unat (of_nat k :: i64) = k"
proof -
  have u: "unat (of_nat k :: i64) = k" using assms by (simp add: unat_of_nat)
  have "(of_nat k :: i64) \<noteq> - (2 ^ 63)"
  proof
    assume "(of_nat k :: i64) = - (2 ^ 63)"
    then have "k = unat (- (2 ^ 63) :: i64)" using u by simp
    then show False using assms by simp
  qed
  then show "bs_read_i64 (bs_write_i64 (of_nat k) @ rest) = Inr (of_nat k)" by (rule read_write_i64)
  show "unat (of_nat k :: i64) = k" by (rule u)
qed

lemma bspatch_block_eq:
  assumes p: "patch = pre @ patch_block a b seek diffs lits @ rest" "bp_patch_pos st = length pre"
    and len: "length diffs = a" "length lits = b" "a < 2 ^ 31" "b < 2 ^ 31" "seek \<noteq> - (2 ^ 63)"
    and fit: "bp_new_pos st + a + b \<le> n"
  shows "bspatch_block source n patch st = Inr
    \<lparr>bp_target = write_at (bp_new_pos st + a) lits (write_at (bp_new_pos st)
         (map (\<lambda>i. diffs ! i + source_byte source (bp_old_pos st + of_nat i)) [0..<a]) (bp_target st)),
     bp_patch_pos = length (pre @ patch_block a b seek diffs lits),
     bp_old_pos = bp_old_pos st + (seek + of_nat a), bp_new_pos = bp_new_pos st + a + b\<rparr>"
proof -
  let ?pp = "length pre"
  have lp: "length patch = ?pp + 24 + a + b + length rest" using len by (simp add: p(1) patch_block_def)
  have r: "bs_read_i64 (drop ?pp patch) = Inr (of_nat a)" "bs_read_i64 (drop (?pp + 8) patch) = Inr (of_nat b)"
    "bs_read_i64 (drop (?pp + 16) patch) = Inr seek"
    using read_control(1) [OF len(3)] read_control(1) [OF len(4)] read_write_i64 [OF len(5)]
    by (simp_all add: p(1) patch_block_def)
  have d: "patch ! (?pp + 24 + i) = diffs ! i" if "i < a" for i
  proof -
    have "patch = (pre @ bs_write_i64 (of_nat a) @ bs_write_i64 (of_nat b) @ bs_write_i64 seek) @ diffs @ lits @ rest"
      by (simp add: p(1) patch_block_def)
    then have "patch ! (length (pre @ bs_write_i64 (of_nat a) @ bs_write_i64 (of_nat b) @ bs_write_i64 seek) + i)
        = (diffs @ lits @ rest) ! i" by (simp only: nth_append_length_plus)
    then show ?thesis using that len(1) by (simp add: nth_append add.assoc)
  qed
  have l: "subrange (?pp + 24 + a) (?pp + 24 + a + b) patch = lits"
    using len by (simp add: subrange_def p(1) patch_block_def)
  have m: "map (\<lambda>i. patch ! (?pp + 24 + i) + source_byte source (bp_old_pos st + of_nat i)) [0..<a]
      = map (\<lambda>i. diffs ! i + source_byte source (bp_old_pos st + of_nat i)) [0..<a]"
    using d by (intro map_cong) auto
  have c: "\<not> ?pp + 24 > length patch" "\<not> (a > 0x7FFFFFFF \<or> b > 0x7FFFFFFF)" "\<not> bp_new_pos st + a > n"
    "\<not> ?pp + 24 + a > length patch" "\<not> bp_new_pos st + a + b > n" "\<not> ?pp + 24 + a + b > length patch"
    using lp fit len(3,4) by simp_all
  show ?thesis
    unfolding bspatch_block_def Let_def p(2) if_not_P [OF c(1)] r rbind_Inr read_control(2) [OF len(3)] read_control(2) [OF len(4)]
      if_not_P [OF c(2)] if_not_P [OF c(3)] if_not_P [OF c(4)] if_not_P [OF c(5)] if_not_P [OF c(6)] m l
    using len by (simp add: patch_block_def)
qed

section \<open>The extension loops\<close>

lemma extend_spec:
  fixes agrees :: "nat \<Rightarrow> bool"
  defines "run m \<equiv> fold (extend_step agrees) [1..<m + 1] (0, 0, 0)"
  shows "snd (snd (run m)) \<le> m \<and> (0 < snd (snd (run m)) \<longrightarrow> agrees (snd (snd (run m))))
    \<and> (0 < m \<longrightarrow> agrees 1 \<longrightarrow> 0 < snd (snd (run m)))"
proof -
  have "case run m of (s, b, l) \<Rightarrow> l \<le> m \<and> (0 < l \<longrightarrow> agrees l) \<and> (2 * s > m \<longrightarrow> s \<le> b)
    \<and> (0 < m \<longrightarrow> agrees 1 \<longrightarrow> 0 < l) \<and> (l = 0 \<longrightarrow> b = 0)"
  proof (induction m)
    case 0
    then show ?case by (simp add: run_def)
  next
    case (Suc m)
    obtain s b l where r: "run m = (s, b, l)" by (cases "run m") auto
    have "run (Suc m) = extend_step agrees (Suc m) (run m)" by (simp add: run_def)
    then have "run (Suc m) = extend_step agrees (Suc m) (s, b, l)" by (simp only: r)
    then show ?case using Suc [unfolded r prod.case]
      by (cases "agrees (Suc m)"; cases "m = 0") (auto simp: extend_step_def Let_def)
  qed
  then show ?thesis by (auto split: prod.splits)
qed

section \<open>Matches\<close>

lemma bs_match_len_spec:
  "(\<forall>k<bs_match_len a apos b bpos i - i. a ! (apos + i + k) = b ! (bpos + i + k)) \<and> i \<le> bs_match_len a apos b bpos i
    \<and> (i \<le> min (length a - apos) (length b - bpos) \<longrightarrow> bs_match_len a apos b bpos i \<le> min (length a - apos) (length b - bpos))"
proof (induction a apos b bpos i rule: bs_match_len.induct)
  case (1 a apos b bpos i)
  show ?case
  proof (cases "i < min (length a - apos) (length b - bpos) \<and> a ! (apos + i) = b ! (bpos + i)")
    case False
    then show ?thesis by (subst (1 2 3) bs_match_len.simps) auto
  next
    case True
    let ?r = "bs_match_len a apos b bpos (i + 1)"
    note IH = "1.IH" [OF True]
    have e: "bs_match_len a apos b bpos i = ?r" using True by (subst bs_match_len.simps) simp
    have "a ! (apos + i + k) = b ! (bpos + i + k)" if "k < ?r - i" for k
      using True IH that by (cases k) auto
    then show ?thesis using IH True unfolding e by auto
  qed
qed

definition match_ok :: "bytes \<Rightarrow> bytes \<Rightarrow> nat \<times> nat \<Rightarrow> bool" where
  "match_ok source target m \<longleftrightarrow> snd m = 0 \<or>
     fst m < length source \<and> fst m + snd m \<le> length source \<and> snd m \<le> length target
       \<and> (\<forall>k. k < snd m \<longrightarrow> source ! (fst m + k) = target ! k)"

lemma better_match_ok: "match_ok source target m \<Longrightarrow> match_ok source target (better_match source target pos m)"
  using bs_match_len_spec [of source pos target 0 0] by (auto simp: better_match_def Let_def match_ok_def)

lemma bisect_ok: "match_ok source target best \<Longrightarrow> match_ok source target (snd (bisect sa source target lo hi best))"
proof (induction sa source target lo hi best rule: bisect.induct)
  case (1 sa source target lo hi best)
  then show ?case by (subst bisect.simps) (simp add: Let_def better_match_ok)
qed

lemma find_match_ok: "match_ok source target (find_match sa source target)"
proof -
  have "match_ok source target (snd (bisect sa source target 0 (length sa - 1) (0, 0)))"
    by (rule bisect_ok) (simp add: match_ok_def)
  then show ?thesis
    by (auto simp: find_match_def Let_def case_prod_beta better_match_ok match_ok_def [of _ _ "(0, 0)"])
qed

lemma search_match_spec:
  assumes "search_match source sa target off scan best = (scan', (pos, len))" "scan' < length target"
  shows "scan \<le> scan' \<and> min_match < len \<and> match_ok source (drop scan' target) (pos, len)"
  using assms
proof (induction source sa target off scan best rule: search_match.induct)
  case (1 source sa target off scan best)
  obtain p l where f: "find_match sa source (drop scan target) = (p, l)" by (cases "find_match sa source (drop scan target)")
  have lt: "scan < length target" using "1.prems" by (subst (asm) search_match.simps) (auto split: if_splits)
  show ?case
  proof (cases "l > old_score source target scan off l + min_match")
    case True
    then have "(scan', (pos, len)) = (scan, (p, l))" using "1.prems"(1) lt f by (subst (asm) search_match.simps) simp
    then show ?thesis using True f find_match_ok [of source "drop scan target" sa] by simp
  next
    case False
    then have "search_match source sa target off (scan + 1) (p, l) = (scan', (pos, len))"
      using "1.prems"(1) lt f by (subst (asm) search_match.simps) simp
    with "1.IH" [OF lt f [symmetric] refl False] "1.prems"(2) show ?thesis by auto
  qed
qed

section \<open>The loop of \<open>bscreate\<close>\<close>

definition fresh :: "nat \<Rightarrow> bspatch_state" where
  "fresh n = \<lparr>bp_target = replicate n 0, bp_patch_pos = 0, bp_old_pos = 0, bp_new_pos = 0\<rparr>"

definition covered :: "bytes \<Rightarrow> nat \<Rightarrow> i64 \<Rightarrow> nat \<Rightarrow> bspatch_state" where
  "covered target k old pp = \<lparr>bp_target = take k target @ replicate (length target - k) 0,
     bp_patch_pos = pp, bp_old_pos = old, bp_new_pos = k\<rparr>"

text \<open>
  The invariant: on any patch that begins with what has been written, \<open>bspatch\<close> gets to the state
  in which exactly the first \<open>bc_last_scan\<close> bytes of the target are in place.
\<close>

definition written :: "bytes \<Rightarrow> bytes \<Rightarrow> bscreate_state \<Rightarrow> bool" where
  "written source target st \<longleftrightarrow> bc_last_scan st \<le> length target \<and> bc_last_scan st \<le> bc_scan st
     \<and> - (2 ^ 32) \<le> sint (bc_last_pos st) \<and> sint (bc_last_pos st) < 2 ^ 62
     \<and> (\<forall>rest. bspatch_loop source (length target) (bc_patch st @ rest) (fresh (length target))
          = bspatch_loop source (length target) (bc_patch st @ rest)
              (covered target (bc_last_scan st) (bc_last_pos st) (length (bc_patch st))))"

text \<open>The round before ended on a match, so the next forward extension is not empty.\<close>

definition anchored :: "bytes \<Rightarrow> bytes \<Rightarrow> bscreate_state \<Rightarrow> bool" where
  "anchored source target st \<longleftrightarrow> bc_last_scan st < bc_scan st
     \<and> eq_at source target (bc_last_pos st) (bc_last_scan st)"

lemma covered_block:
  assumes ks: "k + a + b \<le> length target" "a < 2 ^ 31" "b < 2 ^ 31" "seek \<noteq> - (2 ^ 63)" "k < length target"
    and pre: "length pre = pp"
  shows "bspatch_loop source (length target)
      (pre @ patch_block a b seek (diff_bytes source target k old a) (subrange (k + a) (k + a + b) target) @ rest)
      (covered target k old pp)
    = bspatch_loop source (length target)
      (pre @ patch_block a b seek (diff_bytes source target k old a) (subrange (k + a) (k + a + b) target) @ rest)
      (covered target (k + a + b) (old + (seek + of_nat a))
         (length (pre @ patch_block a b seek (diff_bytes source target k old a) (subrange (k + a) (k + a + b) target))))"
proof -
  let ?d = "diff_bytes source target k old a" and ?l = "subrange (k + a) (k + a + b) target"
  let ?p = "pre @ patch_block a b seek ?d ?l @ rest"
  have ld: "length ?d = a" "length ?l = b" using ks by (simp_all add: diff_bytes_def length_subrange)
  have "map (\<lambda>i. ?d ! i + source_byte source (old + of_nat i)) [0..<a] = subrange k (k + a) target"
    using ks(1) by (intro nth_equalityI) (simp_all add: diff_bytes_def length_subrange nth_subrange)
  moreover have "write_at (k + a) ?l (write_at k (subrange k (k + a) target) (take k target @ replicate (length target - k) 0))
      = take (k + a + b) target @ replicate (length target - (k + a + b)) 0"
  proof -
    have r: "replicate (length target - k) (0::u8) = replicate a 0 @ replicate b 0 @ replicate (length target - (k + a + b)) 0"
      using ks(1) by (simp flip: replicate_add)
    have t: "take (k + a) target = take k target @ subrange k (k + a) target"
      "take (k + a + b) target = take (k + a) target @ subrange (k + a) (k + a + b) target"
    proof -
      have "take (p + q) target = take p target @ subrange p (p + q) target" for p q
        by (simp add: subrange_def take_add)
      then show "take (k + a) target = take k target @ subrange k (k + a) target"
        "take (k + a + b) target = take (k + a) target @ subrange (k + a) (k + a + b) target" by blast+
    qed
    have "write_at k (subrange k (k + a) target) (take k target @ replicate (length target - k) 0)
        = take (k + a) target @ replicate b 0 @ replicate (length target - (k + a + b)) 0"
      unfolding r t(1) using ks(1) by (subst write_at_append) (simp_all add: length_subrange)
    then show ?thesis unfolding t(2) using ks(1) ld(2) by (simp add: write_at_append)
  qed
  moreover have "bp_patch_pos (covered target k old pp) = length pre" "bp_new_pos (covered target k old pp) + a + b \<le> length target"
    using pre ks(1) by (simp_all add: covered_def)
  note bspatch_block_eq [OF refl this(1) ld ks(2-4) this(2), where rest = rest and source = source]
  ultimately have "bspatch_block source (length target) ?p (covered target k old pp)
    = Inr (covered target (k + a + b) (old + (seek + of_nat a)) (length (pre @ patch_block a b seek ?d ?l)))"
    by (simp add: covered_def)
  moreover have "bp_new_pos (covered target k old pp) < length target" using ks(5) by (simp add: covered_def)
  ultimately show ?thesis by (subst bspatch_loop.simps) simp
qed


lemma sint_of_nat_i64: "n < 2 ^ 62 \<Longrightarrow> sint (of_nat n :: i64) = int n"
  by (rule sint_of_nat_small) simp

lemma bscreate_round_written:
  assumes w: "written source target st" and r: "bscreate_round source sa target st = Some st'"
    and fit: "length source < 2 ^ 62" "length target \<le> 2 ^ 26"
  shows "written source target st' \<and> anchored source target st' \<and> bc_last_scan st' < length target
    \<and> bc_last_scan st \<le> bc_last_scan st'
    \<and> (anchored source target st \<longrightarrow> bc_last_scan st < bc_last_scan st')"
proof -
  obtain scan pos len where s: "search_match source sa target (bc_last_offset st) (bc_scan st + 1) (0, 0) = (scan, (pos, len))"
    by (metis prod.exhaust)
  have lt: "bc_scan st < length target" "scan < length target"
    using r s by (auto simp: bscreate_round_def Let_def split: if_splits)
  note S = search_match_spec [OF s lt(2)]
  define k where "k = bc_last_scan st"
  define a where "a = forward_extension source target scan k (bc_last_pos st)"
  define bk where "bk = backward_extension source target scan k a pos"
  define b where "b = scan - bk - (k + a)"
  define new_pos where "new_pos = (of_nat pos - of_nat bk :: i64)"
  define seek where "seek = new_pos - (bc_last_pos st + of_nat a)"
  have k: "k \<le> bc_scan st" "k < scan" using w S by (simp_all add: written_def k_def)
  note F = extend_spec [of "\<lambda>n. eq_at source target (bc_last_pos st + of_nat (n - 1)) (k + (n - 1))" "scan - k",
      folded forward_extension_def [of source target scan k "bc_last_pos st"], folded a_def]
  note B = extend_spec [of "\<lambda>n. eq_at source target (of_nat pos - of_nat n) (scan - n)" "scan - (k + a)",
      folded backward_extension_def [of source target scan k a pos], folded bk_def]
  have a: "a \<le> scan - k" using F by blast
  have bk: "bk \<le> scan - (k + a)" using B by blast
  have kab: "k + a + b = scan - bk" using a bk k by (simp add: b_def)
  have m: "match_ok source (drop scan target) (pos, len)" "8 < len" using S by (simp_all add: min_match_def)
  then have pos: "pos < length source" "source ! pos = target ! scan" using lt(2) by (auto simp: match_ok_def)
  have sm: "scan < 2 ^ 26" using lt(2) fit(2) by simp
  have np: "sint new_pos = int pos - int bk"
    using pos(1) fit(1) bk sm by (simp add: new_pos_def sint_word_ariths sint_of_nat_i64 signed_take_bit_int_eq_self)
  have old: "- (2 ^ 32) \<le> sint (bc_last_pos st)" "sint (bc_last_pos st) < 2 ^ 62" using w by (simp_all add: written_def)
  have sk: "sint seek = sint new_pos - (sint (bc_last_pos st) + int a)"
    using np old pos(1) fit(1) a bk sm
    by (simp add: seek_def sint_word_ariths sint_of_nat_i64 signed_take_bit_int_eq_self)
  have "sint (- (2 ^ 63) :: i64) = - (2 ^ 63)" by simp
  then have seek: "seek \<noteq> - (2 ^ 63)" using sk np old pos(1) fit(1) a bk sm by auto
  let ?blk = "patch_block a b seek (diff_bytes source target k (bc_last_pos st) a) (subrange (k + a) (k + a + b) target)"
  have st': "st' = \<lparr>bc_scan = scan - bk + len, bc_last_scan = scan - bk, bc_last_pos = new_pos,
      bc_last_offset = of_nat pos - of_nat scan, bc_patch = bc_patch st @ ?blk\<rparr>"
  proof -
    have "(if b > 0 then subrange (k + a) (k + a + b) target else []) = subrange (k + a) (k + a + b) target"
      by (simp add: subrange_def)
    moreover have "\<not> scan \<ge> length target" using lt(2) by simp
    ultimately show ?thesis using r lt(1)
      unfolding bscreate_round_def s prod.case Let_def if_P [OF lt(1)] k_def [symmetric] a_def [symmetric]
        bk_def [symmetric] b_def [symmetric] new_pos_def [symmetric] seek_def [symmetric]
      by (simp add: patch_block_def)
  qed
  have cov: "bspatch_loop source (length target) ((bc_patch st @ ?blk) @ rest) (fresh (length target))
      = bspatch_loop source (length target) ((bc_patch st @ ?blk) @ rest)
          (covered target (scan - bk) new_pos (length (bc_patch st @ ?blk)))" for rest
  proof -
    have "bspatch_loop source (length target) (bc_patch st @ (?blk @ rest)) (fresh (length target))
        = bspatch_loop source (length target) (bc_patch st @ (?blk @ rest))
            (covered target k (bc_last_pos st) (length (bc_patch st)))"
      using w unfolding written_def k_def by blast
    moreover have "bc_last_pos st + (seek + of_nat a) = new_pos" by (simp add: seek_def)
    ultimately show ?thesis
      using covered_block [of k a b target seek "bc_patch st" "length (bc_patch st)" source "bc_last_pos st" rest]
        seek kab lt(2) a sm k(2) by simp
  qed
  have "eq_at source target new_pos (scan - bk)"
  proof (cases "bk = 0")
    case True
    then show ?thesis using pos fit(1) by (simp add: eq_at_def new_pos_def sint_of_nat_i64 unat_of_nat)
  next
    case False
    then show ?thesis using B by (simp add: new_pos_def)
  qed
  then have "anchored source target st'" using m(2) by (simp add: anchored_def st')
  moreover have "written source target st'"
  proof -
    have "scan - bk \<le> length target" "scan - bk \<le> scan - bk + len" using lt(2) by simp_all
    moreover have "- (2 ^ 32) \<le> sint new_pos" "sint new_pos < 2 ^ 62" using np pos(1) fit(1) bk sm by simp_all
    ultimately show ?thesis using cov by (simp add: written_def st')
  qed
  moreover have "k \<le> scan - bk" using kab by simp
  moreover have "k < scan - bk" if "anchored source target st"
  proof -
    have "0 < a" using F k(2) that by (simp add: anchored_def k_def)
    then show ?thesis using kab by simp
  qed
  ultimately show ?thesis using lt(2) by (simp add: st' flip: k_def)
qed

lemma bscreate_loop_returns:
  assumes "written source target st" "anchored source target st \<or> bc_last_scan st = 0"
    and "length source < 2 ^ 62" "length target \<le> 2 ^ 26"
  shows "\<exists>st'. bscreate_loop source sa target st = Some st' \<and> written source target st'"
proof -
  have A: "\<exists>st'. bscreate_loop source sa target st = Some st' \<and> written source target st'"
    if "written source target st" "anchored source target st" for st
    using that
  proof (induction "length target - bc_last_scan st" arbitrary: st rule: less_induct)
    case less
    show ?case
    proof (cases "bscreate_round source sa target st")
      case None
      then show ?thesis using less.prems by (subst bscreate_loop.simps) simp
    next
      case (Some st')
      note R = bscreate_round_written [OF less.prems(1) Some assms(3,4)]
      have "length target - bc_last_scan st' < length target - bc_last_scan st" using R less.prems(2) by auto
      from less.hyps [OF this] R Some show ?thesis by (subst bscreate_loop.simps) simp
    qed
  qed
  show ?thesis
  proof (cases "bscreate_round source sa target st")
    case None
    then show ?thesis using assms(1) by (subst bscreate_loop.simps) simp
  next
    case (Some st')
    then show ?thesis using A [of st'] bscreate_round_written [OF assms(1) Some assms(3,4)]
      by (subst bscreate_loop.simps) simp
  qed
qed

lemma bspatch_fresh:
  "length patch_target \<le> 64 * 1024 * 1024 \<Longrightarrow>
    bspatch source (length patch_target) patch = bspatch_loop source (length patch_target) patch (fresh (length patch_target))"
  by (simp add: bspatch_def fresh_def)

lemma written_start: "written source target
    \<lparr>bc_scan = 0, bc_last_scan = 0, bc_last_pos = 0, bc_last_offset = 0, bc_patch = []\<rparr>"
  by (simp add: written_def fresh_def covered_def)

lemma written_tail:
  assumes w: "written source target st" and fit: "length target \<le> 2 ^ 26"
  shows "bspatch_loop source (length target) (bscreate_tail source target st) (fresh (length target)) = Inr target"
proof -
  define k where "k = bc_last_scan st"
  let ?n = "length target"
  have W: "bspatch_loop source ?n (bc_patch st @ rest) (fresh ?n)
      = bspatch_loop source ?n (bc_patch st @ rest) (covered target k (bc_last_pos st) (length (bc_patch st)))" for rest
    using w unfolding written_def k_def by blast
  have fin: "bspatch_loop source ?n patch (covered target ?n old pp) = Inr target" for patch old pp
    by (subst bspatch_loop.simps) (simp add: covered_def)
  show ?thesis
  proof (cases "k < ?n")
    case True
    define blk where "blk = patch_block (?n - k) 0 0 (diff_bytes source target k (bc_last_pos st) (?n - k))
      (subrange (k + (?n - k)) (k + (?n - k) + 0) target)"
    have t: "bscreate_tail source target st = bc_patch st @ blk @ []"
      using True by (simp add: bscreate_tail_def Let_def blk_def patch_block_def subrange_def flip: k_def)
    have "k + (?n - k) + 0 \<le> ?n" "?n - k < 2 ^ 31" "(0::nat) < 2 ^ 31" "(0 :: i64) \<noteq> - (2 ^ 63)"
      using True fit by simp_all
    from covered_block [OF this True refl, of source "bc_patch st" "bc_last_pos st" "[]", folded blk_def]
    have "bspatch_loop source ?n (bc_patch st @ blk @ []) (covered target k (bc_last_pos st) (length (bc_patch st)))
      = bspatch_loop source ?n (bc_patch st @ blk @ [])
          (covered target ?n (bc_last_pos st + (0 + of_nat (?n - k))) (length (bc_patch st @ blk)))"
      using True by simp
    then show ?thesis unfolding t W fin .
  next
    case False
    then have "k = ?n" using w by (simp add: written_def k_def)
    then show ?thesis using W [of "[]"] fin by (simp add: bscreate_tail_def k_def)
  qed
qed

lemma bscreate_applies:
  assumes "length source < 2 ^ 62" "length target \<le> 64 * 1024 * 1024"
  shows "\<exists>patch. bscreate source target = Some patch \<and> bspatch source (length target) patch = Inr target"
proof (cases "target = []")
  case True
  then show ?thesis by (simp add: bscreate_def bspatch_def bspatch_loop.simps)
next
  case False
  have fit: "length target \<le> 2 ^ 26" using assms(2) by simp
  let ?st = "\<lparr>bc_scan = 0, bc_last_scan = 0, bc_last_pos = 0, bc_last_offset = 0, bc_patch = []\<rparr>"
  have "anchored source target ?st \<or> bc_last_scan ?st = 0" by simp
  from bscreate_loop_returns [OF written_start this assms(1) fit] obtain st' where
    "bscreate_loop source (suffix_array source) target ?st = Some st'" "written source target st'" by blast
  then show ?thesis using written_tail [of source target st'] fit False bspatch_fresh [OF assms(2)]
    by (simp add: bscreate_def)
qed

section \<open>Properties\<close>

text \<open>
  C2. For every source and every target of at most 64 MiB \<open>bscreate\<close> returns - its scanning loop ends although
  a round may move the scan position backwards - and \<open>bspatch\<close> applied to the patch and the same source gives exactly the
  target, whatever matches the suffix array search has picked.
\<close>

theorem bsdiff_round_trip:
  assumes "length source < 2 ^ 62" "length target \<le> 64 * 1024 * 1024"
  shows "\<exists>patch. bscreate source target = Some patch \<and> bspatch source (length target) patch = Inr target"
  by (rule bscreate_applies [OF assms])

theorem bsdiff_round_trip_witness:
  "\<exists>patch. bscreate [1, 2, 3, 4, 5, 6, 7, 8, 9, 10, 11, 12] [0, 1, 2, 3, 4, 5, 6, 7, 8, 9, 10, 77, 12, 9] = Some patch
    \<and> bspatch [1, 2, 3, 4, 5, 6, 7, 8, 9, 10, 11, 12] (length [0, 1, 2, 3, 4, 5, 6, 7, 8, 9, 10, 77, 12, 9 :: u8]) patch
      = Inr [0, 1, 2, 3, 4, 5, 6, 7, 8, 9, 10, 77, 12, 9]"
  by (rule bsdiff_round_trip) simp_all

text \<open>
  The sign-magnitude integers of the format: every 64-bit value but the least one is read back from the
  eight bytes \<open>write_i64\<close> makes of it, whatever follows them.
\<close>

lemma bs_i64_round_trip:
  assumes "v \<noteq> - (2 ^ 63)"
  shows "bs_read_i64 (bs_write_i64 v @ rest) = Inr v"
  by (rule read_write_i64 [OF assms])

lemma bs_i64_round_trip_instance: "bs_read_i64 (bs_write_i64 (- 300) @ [7]) = Inr (- 300)"
  by (rule bs_i64_round_trip) simp

text \<open>
  C20. Safety of \<open>bspatch\<close> on arbitrary bytes: a successful result has exactly the requested size, which is at most
  64 MiB; every other input is an error, and the loop always ends.
\<close>

theorem bspatch_size:
  assumes "bspatch source n patch = Inr out"
  shows "length out = n \<and> n \<le> 64 * 1024 * 1024"
proof -
  have blk: "length (bp_target st') = n" if "bspatch_block source n patch st = Inr st'" "length (bp_target st) = n"
    for source patch n st st'
    using that by (auto simp: bspatch_block_def Let_def write_at_def length_subrange elim!: rbind_eq_InrE split: if_splits)
  have "length out = n" if "bspatch_loop source n patch st = Inr out" "length (bp_target st) = n" for st
    using that
  proof (induction source n patch st rule: bspatch_loop.induct)
    case (1 source n patch st)
    show ?case
    proof (cases "bp_new_pos st < n")
      case False
      then show ?thesis using "1.prems" by (subst (asm) bspatch_loop.simps) simp
    next
      case True
      then obtain st' where s: "bspatch_block source n patch st = Inr st'" "bspatch_loop source n patch st' = Inr out"
        using "1.prems"(1) by (subst (asm) bspatch_loop.simps) (auto elim!: rbind_eq_InrE)
      then show ?thesis using "1.IH" [OF True s(1) s(2) blk [OF s(1) "1.prems"(2)]] by simp
    qed
  qed
  then show ?thesis using assms by (auto simp: bspatch_def split: if_splits)
qed

theorem bspatch_size_witness:
  "\<exists>patch out. bspatch [10, 20, 30] 4 patch = Inr out \<and> out = [11, 20, 99, 7] \<and> length out = 4"
proof -
  have "\<exists>patch. bscreate [10, 20, 30] [11, 20, 99, 7] = Some patch
      \<and> bspatch [10, 20, 30] (length [11, 20, 99, 7 :: u8]) patch = Inr [11, 20, 99, 7]"
    by (rule bscreate_applies) simp_all
  moreover have "length [11, 20, 99, 7 :: u8] = 4" by simp
  ultimately obtain patch where p: "bspatch [10, 20, 30] 4 patch = Inr [11, 20, 99, 7]" by metis
  with bspatch_size [OF p] show ?thesis by blast
qed

end
