(* ===== verification/BsdiffSearch.thy ===== *)
theory BsdiffSearch
  imports Bsdiff
begin

text \<open>
  The search of \<open>src/bsdiff/mod.rs\<close> is right: prefix doubling yields the suffix array, and the binary search
  on a suffix array finds a longest match.
\<close>

section \<open>Lists in lexicographic order\<close>

lemma lex_extend:
  fixes x y :: "'a::linorder list"
  assumes "x < y" "length x < length y \<Longrightarrow> x' = []"
  shows "x @ x' < y @ y'"
proof (cases "length x < length y")
  case True
  have "y \<le> y @ y'"
  proof (cases y')
    case (Cons b bs)
    then have "(y, y @ y') \<in> lexord {(u, v). u < v}" by (simp add: lexord_append_rightI)
    then show ?thesis by (simp add: list_le_def list_less_def)
  qed simp
  with assms True show ?thesis by (simp add: less_le_trans)
next
  case False
  then show ?thesis using assms(1) lexord_sufI [of x y "{(u, v). u < v}" x' y'] by (simp add: list_less_def)
qed

lemma lex_same_prefix: "x @ x' < x @ (y' :: 'a::linorder list) \<longleftrightarrow> x' < y'"
  unfolding list_less_def by (rule lexord_same_pref_if_irrefl) (simp add: irrefl_def)

lemma take_less:
  fixes xs ys :: "'a::linorder list"
  assumes "take m xs < take m ys"
  shows "xs < ys"
proof -
  have "length (take m xs) < length (take m ys) \<Longrightarrow> drop m xs = []" by auto
  from lex_extend [OF assms this, of "drop m ys"] show ?thesis by (simp only: append_take_drop_id)
qed

section \<open>Ranks\<close>

definition ranked :: "bytes \<Rightarrow> nat \<Rightarrow> int list \<Rightarrow> bool" where
  "ranked d k r \<longleftrightarrow> length r = length d \<and> (\<forall>a<length d. 0 \<le> r ! a)
     \<and> (\<forall>a<length d. \<forall>b<length d. r ! a < r ! b \<longleftrightarrow> take k (drop a d) < take k (drop b d))"

lemma ranked_eq:
  assumes "ranked d k r" "a < length d" "b < length d"
  shows "r ! a = r ! b \<longleftrightarrow> take k (drop a d) = take k (drop b d)"
proof -
  have "r ! a < r ! b \<longleftrightarrow> take k (drop a d) < take k (drop b d)" "r ! b < r ! a \<longleftrightarrow> take k (drop b d) < take k (drop a d)"
    using assms by (simp_all add: ranked_def)
  then show ?thesis by (metis linorder_neq_iff)
qed

lemma ranked_initial: "ranked d 1 (map uint d)"
proof -
  have "take 1 (drop a d) = [d ! a]" if "a < length d" for a
    using that by (simp add: take_Suc_conv_app_nth [of 0] Cons_nth_drop_Suc [symmetric])
  then show ?thesis by (simp add: ranked_def word_less_def)
qed

definition key :: "nat \<Rightarrow> nat \<Rightarrow> int list \<Rightarrow> nat \<Rightarrow> int \<times> int" where
  "key n k r a = (r ! a, rank2 n k r a)"

lemma rank2_less:
  assumes r: "ranked d k r" and k: "0 < k" and a: "a < length d" "b < length d"
  shows "rank2 (length d) k r a < rank2 (length d) k r b \<longleftrightarrow> take k (drop (a + k) d) < take k (drop (b + k) d)"
proof -
  have nn: "0 \<le> r ! (a + k)" if "a + k < length d" using r that by (simp add: ranked_def)
  have nb: "0 \<le> r ! (b + k)" if "b + k < length d" using r that by (simp add: ranked_def)
  show ?thesis
  proof (cases "a + k < length d"; cases "b + k < length d")
    assume "a + k < length d" "b + k < length d"
    then show ?thesis using r by (simp add: rank2_def ranked_def)
  next
    assume h: "\<not> a + k < length d" "b + k < length d"
    then have "take k (drop (b + k) d) \<noteq> []" using k by simp
    then have "[] < take k (drop (b + k) d)" by (cases "take k (drop (b + k) d)") simp_all
    then show ?thesis using h nb by (simp add: rank2_def)
  next
    assume h: "a + k < length d" "\<not> b + k < length d"
    then show ?thesis using nn by (simp add: rank2_def)
  qed (simp add: rank2_def)
qed

lemma key_less:
  assumes r: "ranked d k r" and k: "0 < k" and a: "a < length d" "b < length d"
  shows "key (length d) k r a < key (length d) k r b \<longleftrightarrow> take (2 * k) (drop a d) < take (2 * k) (drop b d)"
proof -
  let ?x = "take k (drop a d)" and ?y = "take k (drop b d)"
  let ?x' = "take k (drop (a + k) d)" and ?y' = "take k (drop (b + k) d)"
  have e: "take (2 * k) (drop c d) = take k (drop c d) @ take k (drop (c + k) d)" for c
    using take_add [of k k "drop c d"] by (simp add: mult_2 add.commute)
  have sh: "length ?x < length ?y \<Longrightarrow> ?x' = []" "length ?y < length ?x \<Longrightarrow> ?y' = []" by auto
  consider "?x < ?y" | "?x = ?y" | "?y < ?x" by (rule linorder_cases)
  then show ?thesis
  proof cases
    case 1
    then have "r ! a < r ! b" using r a by (simp add: ranked_def)
    then show ?thesis using lex_extend [OF 1 sh(1)] by (simp add: e key_def)
  next
    case 2
    then have "r ! a = r ! b" using ranked_eq [OF r a] by simp
    then show ?thesis using 2 rank2_less [OF r k a] by (simp add: e key_def lex_same_prefix)
  next
    case 3
    then have "r ! b < r ! a" using r a by (simp add: ranked_def)
    moreover have "?y @ ?y' < ?x @ ?x'" by (rule lex_extend [OF 3 sh(2)])
    ultimately show ?thesis by (auto simp: e key_def)
  qed
qed

lemma same_class_key:
  assumes r: "ranked d k r" and a: "a < length d" "b < length d"
  shows "same_class (length d) k r a b \<longleftrightarrow> key (length d) k r a = key (length d) k r b"
proof -
  have "0 \<le> r ! c" if "c < length d" for c using r that by (simp add: ranked_def)
  from this [of "a + k"] this [of "b + k"] show ?thesis by (auto simp: same_class_def key_def rank2_def)
qed


section \<open>A round of the doubling\<close>

lemma rerank_spec:
  assumes "distinct (p # sa)" "\<forall>a\<in>set (p # sa). a < length tmp"
  shows "length (rerank n k r (p # sa) tmp) = length tmp
    \<and> (\<forall>a. a \<notin> set sa \<longrightarrow> rerank n k r (p # sa) tmp ! a = tmp ! a)
    \<and> (\<forall>i<length sa. rerank n k r (p # sa) tmp ! (sa ! i)
         = rerank n k r (p # sa) tmp ! ((p # sa) ! i) + (if same_class n k r ((p # sa) ! i) (sa ! i) then 0 else 1))"
  using assms
proof (induction sa arbitrary: p tmp)
  case (Cons c sa)
  let ?t = "tmp[c := tmp ! p + (if same_class n k r p c then 0 else 1)]"
  let ?r = "rerank n k r (c # sa) ?t"
  have IH: "length ?r = length ?t" "\<forall>a. a \<notin> set sa \<longrightarrow> ?r ! a = ?t ! a"
    "\<forall>i<length sa. ?r ! (sa ! i) = ?r ! ((c # sa) ! i) + (if same_class n k r ((c # sa) ! i) (sa ! i) then 0 else 1)"
    using Cons.IH [of c ?t] Cons.prems by auto
  have e: "rerank n k r (p # c # sa) tmp = ?r" by simp
  have c: "?r ! c = tmp ! p + (if same_class n k r p c then 0 else 1)" "?r ! p = tmp ! p"
    using IH(2) Cons.prems by auto
  have "?r ! ((c # sa) ! i) = ?r ! ((p # c # sa) ! i) + (if same_class n k r ((p # c # sa) ! i) ((c # sa) ! i) then 0 else 1)"
    if "i < length (c # sa)" for i
    using that IH(3) c by (cases i) auto
  moreover have "\<forall>a. a \<notin> set (c # sa) \<longrightarrow> ?r ! a = tmp ! a" using IH(2) by auto
  ultimately show ?case unfolding e using IH(1) by simp
qed simp

text \<open>The new ranks count the classes in front of a position of the sorted array.\<close>

lemma rerank_ranks:
  assumes r: "ranked d k r" "0 < k" and sa: "mset sa = mset [0..<length d]" "sorted (map (key (length d) k r) sa)"
    and ne: "d \<noteq> []" and tmp: "length tmp = length d"
  defines "t \<equiv> rerank (length d) k r sa (tmp[sa ! 0 := 0])"
  shows "ranked d (2 * k) t" "t ! (sa ! 0) = 0"
    "i \<le> j \<Longrightarrow> j < length d \<Longrightarrow> 0 \<le> t ! (sa ! j) - t ! (sa ! i) \<and> t ! (sa ! j) - t ! (sa ! i) \<le> int (j - i)
      \<and> (t ! (sa ! i) = t ! (sa ! j) \<longleftrightarrow> key (length d) k r (sa ! i) = key (length d) k r (sa ! j))"
proof -
  let ?n = "length d" and ?K = "key (length d) k r"
  have perm: "length sa = ?n" "set sa = {0..<?n}" "distinct sa"
    using sa(1) mset_eq_length [OF sa(1)] mset_eq_setD [OF sa(1)] mset_eq_imp_distinct_iff [OF sa(1)] by simp_all
  then obtain p s where ps: "sa = p # s" using ne by (cases sa) auto
  have "distinct (p # s)" "\<forall>a\<in>set (p # s). a < length (tmp[sa ! 0 := 0])" using perm tmp by (auto simp: ps)
  note R = rerank_spec [OF this, of ?n k r, folded ps, folded t_def]
  have lt: "length t = ?n" using R tmp by simp
  have "p \<notin> set s" "p < ?n" using perm(2,3) by (auto simp: ps)
  then show t0: "t ! (sa ! 0) = 0" using R tmp perm by (auto simp: ps)
  have step: "t ! (sa ! Suc i) = t ! (sa ! i) + (if ?K (sa ! i) = ?K (sa ! Suc i) then 0 else 1)" if "Suc i < ?n" for i
  proof -
    have "sa ! i < ?n" "sa ! Suc i < ?n" using perm that nth_mem [of i sa] nth_mem [of "Suc i" sa] by auto
    from same_class_key [OF r(1) this] show ?thesis using R that perm(1) by (auto simp: ps)
  qed
  have srt: "?K (sa ! i) \<le> ?K (sa ! j)" if "i \<le> j" "j < ?n" for i j
    using sorted_nth_mono [OF sa(2), of i j] that perm(1) by simp
  have main: "0 \<le> t ! (sa ! j) - t ! (sa ! i) \<and> t ! (sa ! j) - t ! (sa ! i) \<le> int (j - i)
      \<and> (t ! (sa ! i) = t ! (sa ! j) \<longleftrightarrow> ?K (sa ! i) = ?K (sa ! j))" if "i \<le> j" "j < ?n" for i j
    using that
  proof (induction "j - i" arbitrary: j)
    case (Suc m)
    obtain j' where j: "j = Suc j'" "i \<le> j'" using Suc by (cases j) auto
    have IH: "0 \<le> t ! (sa ! j') - t ! (sa ! i)" "t ! (sa ! j') - t ! (sa ! i) \<le> int (j' - i)"
      "t ! (sa ! i) = t ! (sa ! j') \<longleftrightarrow> ?K (sa ! i) = ?K (sa ! j')"
      using Suc.hyps(1) [of j'] Suc.hyps(2) Suc.prems j by auto
    have "?K (sa ! i) \<le> ?K (sa ! j')" "?K (sa ! j') \<le> ?K (sa ! Suc j')" using srt j Suc.prems by simp_all
    then have "?K (sa ! i) = ?K (sa ! Suc j') \<longleftrightarrow> ?K (sa ! i) = ?K (sa ! j') \<and> ?K (sa ! j') = ?K (sa ! Suc j')" by auto
    note K = this [folded j(1)]
    have tj: "t ! (sa ! j) = t ! (sa ! j') + (if ?K (sa ! j') = ?K (sa ! j) then 0 else 1)"
      using step [of j'] Suc.prems j by simp
    have d: "int (j - i) = int (j' - i) + 1" using j by simp
    show ?case
    proof (cases "?K (sa ! j') = ?K (sa ! j)")
      case True
      then have "t ! (sa ! j) = t ! (sa ! j')" using tj by simp
      moreover have "?K (sa ! i) = ?K (sa ! j) \<longleftrightarrow> ?K (sa ! i) = ?K (sa ! j')" using K True by blast
      ultimately show ?thesis using IH d by (intro conjI) (linarith, linarith, metis)
    next
      case False
      then have "t ! (sa ! j) = t ! (sa ! j') + 1" using tj by simp
      moreover from this have "t ! (sa ! i) \<noteq> t ! (sa ! j)" using IH(1) by linarith
      moreover have "?K (sa ! i) \<noteq> ?K (sa ! j)" using K False by blast
      ultimately show ?thesis using IH(1,2) d by (intro conjI) (linarith, linarith, blast)
    qed
  qed simp
  then show "i \<le> j \<Longrightarrow> j < length d \<Longrightarrow> 0 \<le> t ! (sa ! j) - t ! (sa ! i) \<and> t ! (sa ! j) - t ! (sa ! i) \<le> int (j - i)
      \<and> (t ! (sa ! i) = t ! (sa ! j) \<longleftrightarrow> ?K (sa ! i) = ?K (sa ! j))" .
  have order: "t ! a < t ! b \<longleftrightarrow> ?K a < ?K b" if ab: "a < ?n" "b < ?n" for a b
  proof -
    obtain i j where ij: "i < ?n" "j < ?n" "a = sa ! i" "b = sa ! j"
    proof -
      have "a \<in> set sa" "b \<in> set sa" using ab perm(2) by simp_all
      then show thesis using that perm(1) by (auto simp: in_set_conv_nth)
    qed
    show ?thesis
    proof (cases "i \<le> j")
      case True
      then show ?thesis using main [OF True ij(2)] srt [OF True ij(2)] ij by auto
    next
      case False
      then have ji: "j \<le> i" by simp
      show ?thesis using main [OF ji ij(1)] srt [OF ji ij(1)] ij by auto
    qed
  qed
  have "0 \<le> t ! a" if "a < ?n" for a
  proof -
    have "a \<in> set sa" using that perm(2) by simp
    then obtain i where "i < ?n" "a = sa ! i" using perm(1) by (auto simp: in_set_conv_nth)
    then show ?thesis using main [of 0 i] t0 by simp
  qed
  then show "ranked d (2 * k) t" using lt order key_less [OF r] by (simp add: ranked_def)
qed

section \<open>The suffix array\<close>

abbreviation suffixes_sorted :: "bytes \<Rightarrow> nat list \<Rightarrow> bool" where
  "suffixes_sorted d sa \<equiv> sorted_wrt (\<lambda>a b. drop a d < drop b d) sa"

lemma suffixes_strict:
  assumes "mset sa = mset [0..<length d]" "sorted (map (\<lambda>a. drop a d) sa)"
  shows "suffixes_sorted d sa"
proof -
  have "drop (sa ! i) d < drop (sa ! j) d" if "i < j" "j < length sa" for i j
  proof -
    have "distinct sa" "\<forall>a\<in>set sa. a < length d"
      using mset_eq_imp_distinct_iff [OF assms(1)] mset_eq_setD [OF assms(1)] by auto
    then have "sa ! i \<noteq> sa ! j" "sa ! i < length d" "sa ! j < length d" using that by (auto simp: nth_eq_iff_index_eq)
    then have "length (drop (sa ! i) d) \<noteq> length (drop (sa ! j) d)" by auto
    then have "drop (sa ! i) d \<noteq> drop (sa ! j) d" by metis
    moreover have "drop (sa ! i) d \<le> drop (sa ! j) d" using sorted_nth_mono [OF assms(2), of i j] that by simp
    ultimately show ?thesis by simp
  qed
  then show ?thesis by (simp add: sorted_wrt_iff_nth_less)
qed

lemma doubling_sorts:
  assumes "ranked d k r" "0 < k" "mset sa = mset [0..<length d]" "length tmp = length d"
    and "k = 1 \<or> sorted (map (\<lambda>a. take k (drop a d)) sa)"
  shows "mset (doubling (length d) k sa r tmp) = mset [0..<length d]
    \<and> suffixes_sorted d (doubling (length d) k sa r tmp)"
  using assms
proof (induction "length d - k" arbitrary: k sa r tmp rule: less_induct)
  case less
  let ?n = "length d"
  show ?case
  proof (cases "k < ?n")
    case False
    then have "doubling ?n k sa r tmp = sa" by (simp add: doubling.simps)
    moreover have "suffixes_sorted d sa"
    proof (cases "?n \<le> 1")
      case True
      then have "length sa \<le> 1" using mset_eq_length [OF less.prems(3)] by simp
      then show ?thesis by (cases sa) auto
    next
      case big: False
      then have "k \<noteq> 1" using False by simp
      moreover have "take k (drop a d) = drop a d" for a using False by simp
      ultimately have "sorted (map (\<lambda>a. drop a d) sa)" using less.prems(5) by simp
      then show ?thesis by (rule suffixes_strict [OF less.prems(3)])
    qed
    ultimately show ?thesis using less.prems(3) by simp
  next
    case True
    define s where "s = sort_key (key ?n k r) sa"
    define t where "t = rerank ?n k r s (tmp[s ! 0 := 0])"
    have s: "mset s = mset [0..<?n]" "sorted (map (key ?n k r) s)" using less.prems(3) by (simp_all add: s_def)
    have ne: "d \<noteq> []" using True by auto
    note T = rerank_ranks [OF less.prems(1,2) s ne less.prems(4), folded t_def]
    have ls: "length s = ?n" using mset_eq_length [OF s(1)] by simp
    have mem: "s ! i < ?n" if "i < ?n" for i using mset_eq_setD [OF s(1)] nth_mem [of i s] that ls by simp
    have fold: "sort_key (\<lambda>a. (r ! a, rank2 ?n k r a)) sa = s" by (simp add: s_def key_def [abs_def])
    have D: "doubling ?n k sa r tmp = (if t ! (s ! (?n - 1)) = int (?n - 1) then s else doubling ?n (2 * k) s t t)"
      using True less.prems(2) by (subst doubling.simps) (simp add: Let_def fold t_def)
    have srt2: "take (2 * k) (drop (s ! i) d) \<le> take (2 * k) (drop (s ! j) d)" if "i \<le> j" "j < ?n" for i j
      using sorted_nth_mono [OF s(2), of i j] that ls key_less [OF less.prems(1,2) mem mem, of j i] by (simp add: not_less [symmetric])
    show ?thesis
    proof (cases "t ! (s ! (?n - 1)) = int (?n - 1)")
      case fin: True
      have "drop (s ! i) d < drop (s ! j) d" if ij: "i < j" "j < ?n" for i j
      proof -
        have b: "t ! (s ! i) - t ! (s ! 0) \<le> int (i - 0)" "t ! (s ! (?n - 1)) - t ! (s ! j) \<le> int (?n - 1 - j)"
          using T(3) [of 0 i] T(3) [of j "?n - 1"] ij by auto
        have "t ! (s ! i) < t ! (s ! j)" using b fin T(2) ij by simp
        then have "take (2 * k) (drop (s ! i) d) < take (2 * k) (drop (s ! j) d)"
          using T(1) mem ij by (simp add: ranked_def)
        then show ?thesis by (rule take_less)
      qed
      then show ?thesis using fin D s(1) ls by (simp add: sorted_wrt_iff_nth_less)
    next
      case False
      have "sorted (map (\<lambda>a. take (2 * k) (drop a d)) s)"
        using srt2 ls by (simp add: sorted_iff_nth_mono)
      moreover have "length t = ?n" using T(1) by (simp add: ranked_def)
      moreover have "?n - 2 * k < ?n - k" using True less.prems(2) by simp
      ultimately show ?thesis using less.hyps [of "2 * k" t s t] T(1) less.prems(2) s(1) False D by simp
    qed
  qed
qed

lemma suffix_array_spec:
  "mset (suffix_array d) = mset [0..<length d]" "suffixes_sorted d (suffix_array d)"
  using doubling_sorts [OF ranked_initial, of "[0..<length d]" d "replicate (length d) 0"]
  by (simp_all add: suffix_array_def)

section \<open>The search in a suffix array\<close>

fun common :: "bytes \<Rightarrow> bytes \<Rightarrow> nat" where
  "common (x # xs) (y # ys) = (if x = y then Suc (common xs ys) else 0)"
| "common xs ys = 0"

lemma bs_match_len_common: "bs_match_len a apos b bpos i = i + common (drop (apos + i) a) (drop (bpos + i) b)"
proof (induction a apos b bpos i rule: bs_match_len.induct)
  case (1 a apos b bpos i)
  show ?case
  proof (cases "i < min (length a - apos) (length b - bpos)")
    case True
    then have "drop (apos + i) a = a ! (apos + i) # drop (apos + (i + 1)) a"
      "drop (bpos + i) b = b ! (bpos + i) # drop (bpos + (i + 1)) b" using Cons_nth_drop_Suc [of "apos + i" a] Cons_nth_drop_Suc [of "bpos + i" b] by (simp_all add: less_diff_conv add.commute)
    then show ?thesis using 1 True by (subst bs_match_len.simps) simp
  next
    case False
    then have "drop (apos + i) a = [] \<or> drop (bpos + i) b = []" by auto
    then show ?thesis using False by (subst bs_match_len.simps) (auto simp: not_less)
  qed
qed

lemma common_between:
  "(x :: bytes) \<le> y \<Longrightarrow> y \<le> z \<Longrightarrow> common x z \<le> common y z"
  "(x :: bytes) \<le> y \<Longrightarrow> y \<le> z \<Longrightarrow> common z x \<le> common y x"
proof (induction x z arbitrary: y rule: common.induct)
  case (1 a xs c zs)
  { case 1 then show ?case using "1.IH" by (cases y) auto }
  { case 2 then show ?case using "1.IH" by (cases y) auto }
qed (auto elim: common.elims)

lemma common_ge:
  "n \<le> length xs \<Longrightarrow> n \<le> length ys \<Longrightarrow> (\<And>k. k < n \<Longrightarrow> xs ! k = ys ! k) \<Longrightarrow> n \<le> common xs ys"
proof (induction xs ys arbitrary: n rule: common.induct)
  case (1 x xs y ys)
  show ?case
  proof (cases n)
    case (Suc m)
    have "x = y" using "1.prems"(3) [of 0] Suc by simp
    moreover have "m \<le> common xs ys"
      using "1.IH" [of m] "1.prems" Suc \<open>x = y\<close> by fastforce
    ultimately show ?thesis using Suc by simp
  qed simp
qed simp_all

lemma compare_less_drop: "compare_less source pos target \<longleftrightarrow> drop pos source < target"
proof -
  define s where "s = drop pos source"
  define m where "m = min (length s) (length target)"
  have e: "compare_less source pos target \<longleftrightarrow>
      (if take m s = take m target then length s < length target else take m s < take m target)"
    by (simp add: compare_less_def Let_def s_def m_def)
  show ?thesis
  proof (cases "take m s = take m target")
    case True
    show ?thesis
    proof (cases "length s < length target")
      case lt: True
      then have "s = take m target" using True by (simp add: m_def)
      moreover have "drop m target \<noteq> []" using lt by (simp add: m_def)
      ultimately have "s < target" using lexord_append_rightI [of "drop m target" s] append_take_drop_id [of m target]
        by (metis list_less_def ex_in_conv list.exhaust lexord_append_rightI)
      then show ?thesis using e True lt by (simp add: s_def)
    next
      case ge: False
      then have "target = take m s" using True by (simp add: m_def)
      then have "target \<le> s" by (metis append_take_drop_id lex_same_prefix append.right_neutral not_less Nil_less_Cons not_less_Nil)
      then show ?thesis using e True ge by (simp add: s_def)
    qed
  next
    case False
    have "take m s < take m target \<longleftrightarrow> s < target"
    proof
      assume "s < target"
      then have "\<not> take m target < take m s" using take_less [of m target s] by auto
      then show "take m s < take m target" using False by auto
    qed (rule take_less)
    then show ?thesis using e False by (simp add: s_def)
  qed
qed

text \<open>What the search needs of the array.\<close>

locale suffix_index =
  fixes source :: bytes and sa :: "nat list"
  assumes perm: "mset sa = mset [0..<length source]"
    and order: "suffixes_sorted source sa"
begin

lemma size: "length sa = length source"
  using mset_eq_length [OF perm] by simp

lemma covers: "p < length source \<Longrightarrow> \<exists>i<length sa. sa ! i = p"
  using mset_eq_setD [OF perm] by (simp add: set_eq_iff in_set_conv_nth)

lemma mono: "i \<le> j \<Longrightarrow> j < length sa \<Longrightarrow> drop (sa ! i) source \<le> drop (sa ! j) source"
  using order by (cases "i = j") (auto simp: sorted_wrt_iff_nth_less intro: less_imp_le)

text \<open>The place of a target: what lies below it is smaller, what lies from it on is not - unless all are smaller.\<close>

lemma bisect_place:
  assumes "\<forall>i<lo. drop (sa ! i) source < target" "hi < length sa" "lo \<le> hi"
    and "\<forall>i<length sa. hi \<le> i \<longrightarrow> target \<le> drop (sa ! i) source \<or> i = length sa - 1"
  shows "fst (bisect sa source target lo hi best) < length sa
    \<and> (\<forall>i<fst (bisect sa source target lo hi best). drop (sa ! i) source < target)
    \<and> (\<forall>i<length sa. fst (bisect sa source target lo hi best) \<le> i \<longrightarrow> target \<le> drop (sa ! i) source \<or> i = length sa - 1)"
  using assms
proof (induction "hi - lo" arbitrary: lo hi best rule: less_induct)
  case less
  show ?case
  proof (cases "lo < hi")
    case False
    then show ?thesis using less.prems by (subst (1 2 3) bisect.simps) auto
  next
    case True
    define mid where "mid = lo + (hi - lo) div 2"
    have mid: "lo \<le> mid" "mid < hi" "mid < length sa" using True less.prems(2) by (auto simp: mid_def)
    define b where "b = better_match source target (sa ! mid) best"
    have B: "bisect sa source target lo hi best
        = (if drop (sa ! mid) source < target then bisect sa source target (mid + 1) hi b else bisect sa source target lo mid b)"
      using True by (subst bisect.simps) (simp add: Let_def compare_less_drop b_def flip: mid_def)
    show ?thesis
    proof (cases "drop (sa ! mid) source < target")
      case below: True
      have "\<forall>i<mid + 1. drop (sa ! i) source < target"
        using mono [OF _ mid(3)] below by (auto simp: less_Suc_eq_le intro: le_less_trans)
      moreover have "hi - (mid + 1) < hi - lo" "mid + 1 \<le> hi" using mid by simp_all
      ultimately show ?thesis using less.hyps [of hi "mid + 1" b] less.prems(2,4) below unfolding B by simp
    next
      case above: False
      have "\<forall>i<length sa. mid \<le> i \<longrightarrow> target \<le> drop (sa ! i) source"
        using mono [of mid] above by (auto simp: not_less intro: order_trans)
      moreover have "mid - lo < hi - lo" using mid by simp
      ultimately show ?thesis using less.hyps [of mid lo b] less.prems(1) mid above unfolding B by simp
    qed
  qed
qed

lemma better_match_grows:
  "snd best \<le> snd (better_match source target p best)"
  "common (drop p source) target \<le> snd (better_match source target p best)"
  by (simp_all add: better_match_def Let_def bs_match_len_common)

lemma find_match_longest:
  assumes "p < length source"
  shows "common (drop p source) target \<le> snd (find_match sa source target)"
proof (cases "target = []")
  case True
  then show ?thesis by (cases "drop p source") simp_all
next
  case False
  have n: "0 < length sa" using assms size by linarith
  obtain lo best where B: "bisect sa source target 0 (length sa - 1) (0, 0) = (lo, best)"
    by (metis prod.exhaust)
  have "\<forall>i<0. drop (sa ! i) source < target" "length sa - 1 < length sa" "0 \<le> length sa - 1"
    "\<forall>i<length sa. length sa - 1 \<le> i \<longrightarrow> target \<le> drop (sa ! i) source \<or> i = length sa - 1" using n by auto
  note P = bisect_place [OF this, of "(0, 0)", unfolded B fst_conv]
  have F: "find_match sa source target = better_match source target (sa ! (lo - 1)) (better_match source target (sa ! lo) best)"
  proof -
    have "lo < length sa" "lo - 1 < length sa" using P by auto
    then show ?thesis using False n by (simp add: find_match_def Let_def B del: One_nat_def)
  qed
  have at: "common (drop (sa ! lo) source) target \<le> snd (find_match sa source target)"
    "common (drop (sa ! (lo - 1)) source) target \<le> snd (find_match sa source target)"
    unfolding F using better_match_grows order_trans by blast+
  obtain i where i: "i < length sa" "sa ! i = p" using covers [OF assms] by blast
  show ?thesis
  proof (cases "i < lo")
    case True
    then have "drop (sa ! i) source \<le> drop (sa ! (lo - 1)) source" "drop (sa ! (lo - 1)) source \<le> target"
      using mono [of i "lo - 1"] P by (auto intro: less_imp_le)
    from common_between(1) [OF this] show ?thesis using at(2) i(2) by simp
  next
    case False
    then have "lo \<le> i" by simp
    show ?thesis
    proof (cases "target \<le> drop (sa ! lo) source")
      case True
      from common_between(2) [OF this mono [OF \<open>lo \<le> i\<close> i(1)]] show ?thesis using at(1) i(2) by simp
    next
      case below: False
      then have "lo = length sa - 1" using P by auto
      then have "i = lo" using \<open>lo \<le> i\<close> i(1) by simp
      then show ?thesis using at(1) i(2) by simp
    qed
  qed
qed

end

interpretation sa: suffix_index source "suffix_array source" for source
  by unfold_locales (rule suffix_array_spec)+

section \<open>Properties\<close>

text \<open>
  C6. Prefix doubling sorts: \<open>suffix_array\<close> returns every position of the data exactly once, in the strict
  lexicographic order of the suffixes that begin there - also when the loop stops early because all ranks differ.
\<close>

theorem suffix_array_sorted:
  "mset (suffix_array data) = mset [0..<length data]
    \<and> sorted_wrt (\<lambda>a b. drop a data < drop b data) (suffix_array data)"
  using suffix_array_spec [of data] by blast

text \<open>
  C7. On the suffix array of the source the binary search of \<open>find_match\<close> finds a longest match: its length is reached at
  the position it returns, and no position of the source agrees with the target on more bytes.
\<close>

theorem find_match_is_longest:
  assumes "find_match (suffix_array source) source target = (pos, len)" "p < length source"
  shows "bs_match_len source p target 0 0 \<le> len \<and> (0 < len \<longrightarrow> bs_match_len source pos target 0 0 = len)"
proof -
  have "bs_match_len source p target 0 0 \<le> len"
    using sa.find_match_longest [OF assms(2), of target] assms(1) by (simp add: bs_match_len_common)
  moreover have "bs_match_len source pos target 0 0 = len" if "0 < len"
  proof -
    have m: "match_ok source target (pos, len)" using find_match_ok assms(1) by metis
    then have "pos < length source" using that by (simp add: match_ok_def)
    then have "bs_match_len source pos target 0 0 \<le> len"
      using sa.find_match_longest [of pos source target] assms(1) by (simp add: bs_match_len_common)
    moreover have "len \<le> common (drop pos source) target"
    proof (rule common_ge)
      show "len \<le> length (drop pos source)" "len \<le> length target" using m that by (auto simp: match_ok_def)
      show "drop pos source ! k = target ! k" if "k < len" for k
        using m that by (simp add: match_ok_def)
    qed
    ultimately show ?thesis by (simp add: bs_match_len_common)
  qed
  ultimately show ?thesis by blast
qed


theorem find_match_is_longest_witness:
  "\<exists>pos len. find_match (suffix_array [1, 2, 3, 4, 1, 2, 3, 9]) [1, 2, 3, 4, 1, 2, 3, 9] [2, 3, 9, 9] = (pos, len)
    \<and> bs_match_len [1, 2, 3, 4, 1, 2, 3, 9] 5 [2, 3, 9, 9] 0 0 \<le> len"
proof -
  obtain pos len where "find_match (suffix_array [1, 2, 3, 4, 1, 2, 3, 9]) [1, 2, 3, 4, 1, 2, 3, 9] [2, 3, 9, 9] = (pos, len)"
    by (metis prod.exhaust)
  with find_match_is_longest [OF this, of 5] show ?thesis by auto
qed

end
