(* ===== verification/RiftReverse.thy ===== *)
theory RiftReverse imports RiftTable begin

text \<open>
  \<open>RiftTable::reverse\<close> of \<open>src/lzx/rift.rs\<close>: the inverse of a position map whose segments may
  overlap or leave gaps. The working buffer is the pair of arrays of interval starts and ends;
  \<open>i64::MIN\<close> as an end stands for the end of the address space. Every index into the buffer is
  checked, an index outside of it is a panic. The outer loop ends at a given segment, so it is a
  partial function; that it ends, for every table, is proved.
\<close>

section \<open>The working buffer\<close>

type_synonym interval_arrays = "i64 list \<times> i64 list"

definition move_slot :: "nat \<Rightarrow> nat \<Rightarrow> interval_arrays \<Rightarrow> interval_arrays result" where
  "move_slot dst from_slot = (\<lambda>(starts, ends).
     rbind (index starts from_slot) (\<lambda>s.
     rbind (store_at starts dst s) (\<lambda>starts.
     rbind (index ends from_slot) (\<lambda>e.
     rbind (store_at ends dst e) (\<lambda>ends. Inr (starts, ends))))))"

fun open_slot :: "nat \<Rightarrow> nat \<Rightarrow> interval_arrays \<Rightarrow> interval_arrays result" where
  "open_slot insert_at 0 buf = Inr buf"
| "open_slot insert_at (Suc j) buf =
     (if insert_at < Suc j
      then rbind (move_slot (Suc j) j buf) (open_slot insert_at j)
      else Inr buf)"

function close_slots :: "nat \<Rightarrow> nat \<Rightarrow> nat \<Rightarrow> nat \<Rightarrow> interval_arrays \<Rightarrow> interval_arrays result" where
  "close_slots insert_at overlap_end count j buf =
     (if j < count
      then rbind (move_slot (j + insert_at + 1 - overlap_end) j buf)
             (close_slots insert_at overlap_end count (j + 1))
      else Inr buf)"
  by pat_completeness auto
termination by (relation "measure (\<lambda>(i, o', count, j, buf). count - j)") auto

declare close_slots.simps [simp del]

definition shift_for_insert :: "interval_arrays \<Rightarrow> nat \<Rightarrow> nat \<Rightarrow> nat \<Rightarrow> interval_arrays result" where
  "shift_for_insert buf insert_at overlap_end count =
     (if insert_at = overlap_end then
        if insert_at < count then open_slot insert_at count buf else Inr buf
      else if insert_at + 1 \<noteq> overlap_end \<and> overlap_end < count
      then close_slots insert_at overlap_end count overlap_end buf
      else Inr buf)"

definition replace_reverse_interval ::
    "interval_arrays \<times> nat \<Rightarrow> nat \<Rightarrow> nat \<Rightarrow> i64 \<Rightarrow> i64 \<Rightarrow> (interval_arrays \<times> nat) result" where
  "replace_reverse_interval = (\<lambda>(buf, count) insert_at overlap_end new_start new_end.
     rbind (shift_for_insert buf insert_at overlap_end count) (\<lambda>(starts, ends).
     rbind (store_at starts insert_at new_start) (\<lambda>starts.
     rbind (store_at ends insert_at new_end) (\<lambda>ends.
       Inr ((starts, ends), count + insert_at + 1 - overlap_end)))))"

section \<open>One span of a segment\<close>

record reverse_state =
  rv_out :: rift_table
  rv_buf :: interval_arrays
  rv_count :: nat
  rv_cursor :: i64

definition rift_add :: "rift_table \<Rightarrow> i64 \<Rightarrow> i64 \<Rightarrow> rift_table" where
  "rift_add es s t = es @ [\<lparr>re_source = s, re_target = t\<rparr>]"

function scan_first :: "i64 list \<Rightarrow> nat \<Rightarrow> i64 \<Rightarrow> nat \<Rightarrow> nat result" where
  "scan_first ends count image_start k =
     (if k < count then
        rbind (index ends k) (\<lambda>key.
          if image_start <=s key \<or> key = i64_min then Inr k
          else scan_first ends count image_start (k + 1))
      else Inr k)"
  by pat_completeness auto
termination by (relation "measure (\<lambda>(ends, count, image_start, k). count - k)") auto

function scan_end :: "i64 list \<Rightarrow> nat \<Rightarrow> i64 \<Rightarrow> nat \<Rightarrow> nat result" where
  "scan_end starts count image_end k =
     (if k < count then
        rbind (index starts k) (\<lambda>key.
          if image_end \<noteq> i64_min \<and> image_end <s key then Inr k
          else scan_end starts count image_end (k + 1))
      else Inr k)"
  by pat_completeness auto
termination by (relation "measure (\<lambda>(starts, count, image_end, k). count - k)") auto

declare scan_first.simps [simp del] scan_end.simps [simp del]

fun interior_adds :: "i64 list \<Rightarrow> i64 \<Rightarrow> nat \<Rightarrow> nat \<Rightarrow> rift_table \<Rightarrow> rift_table result" where
  "interior_adds ends segment_offset idx 0 out = Inr out"
| "interior_adds ends segment_offset idx (Suc n) out =
     rbind (index ends idx) (\<lambda>boundary.
       interior_adds ends segment_offset (Suc idx) n
         (rift_add out boundary (boundary - segment_offset)))"

definition replace_in ::
    "reverse_state \<Rightarrow> rift_table \<Rightarrow> nat \<Rightarrow> nat \<Rightarrow> i64 \<Rightarrow> i64 \<Rightarrow> reverse_state result" where
  "replace_in st out insert_at past new_start new_end =
     rbind (replace_reverse_interval (rv_buf st, rv_count st) insert_at past new_start new_end)
       (\<lambda>(buf, count). Inr (st\<lparr>rv_out := out, rv_buf := buf, rv_count := count\<rparr>))"

definition merge_overlap ::
    "reverse_state \<Rightarrow> i64 \<Rightarrow> i64 \<Rightarrow> i64 \<Rightarrow> nat \<Rightarrow> nat \<Rightarrow> reverse_state result" where
  "merge_overlap st segment_offset image_start image_end first past =
     (let (starts, ends) = rv_buf st in
      rbind (index starts first) (\<lambda>overlapped_start.
        let leads = image_start <s overlapped_start;
            out = (if leads then rift_add (rv_out st) image_start (rv_cursor st) else rv_out st);
            merged_start = (if leads then image_start else overlapped_start)
        in rbind (interior_adds ends segment_offset first (past - 1 - first) out) (\<lambda>out.
           rbind (index ends (past - 1)) (\<lambda>last_end.
             let extends = last_end \<noteq> i64_min \<and> (image_end = i64_min \<or> last_end <s image_end);
                 out = (if extends then rift_add out last_end (last_end - segment_offset) else out);
                 new_end = (if extends then image_end else last_end)
             in replace_in st out first past merged_start new_end))))"

definition cover_span :: "reverse_state \<Rightarrow> i64 \<Rightarrow> i64 \<Rightarrow> i64 \<Rightarrow> reverse_state result" where
  "cover_span st segment_offset image_start image_end =
     rbind (scan_first (snd (rv_buf st)) (rv_count st) image_start 0) (\<lambda>first.
       if first < rv_count st then
         rbind (scan_end (fst (rv_buf st)) (rv_count st) image_end first) (\<lambda>past.
           if first = past
           then replace_in st (rift_add (rv_out st) image_start (rv_cursor st)) first past
                  image_start image_end
           else merge_overlap st segment_offset image_start image_end first past)
       else replace_in st (rift_add (rv_out st) image_start (rv_cursor st)) first first
              image_start image_end)"

definition source_span :: "i64 \<Rightarrow> i64 \<Rightarrow> i64 \<Rightarrow> i64" where
  "source_span segment_offset boundary cursor =
     (let span = boundary - cursor;
          image_start = segment_offset + cursor;
          clamped = (i64_min - segment_offset) - cursor
      in if image_start \<noteq> i64_min \<and> clamped < span then clamped else span)"

definition reverse_span :: "rift_table \<Rightarrow> nat \<Rightarrow> nat \<Rightarrow> reverse_state \<Rightarrow> reverse_state result" where
  "reverse_span es active boundary st =
     (let segment_offset = re_target (es ! active) - re_source (es ! active);
          span = source_span segment_offset (re_source (es ! boundary)) (rv_cursor st);
          image_start = segment_offset + rv_cursor st
      in rbind (if span \<noteq> 0 then cover_span st segment_offset image_start (image_start + span) else Inr st)
           (\<lambda>st. Inr (st\<lparr>rv_cursor := rv_cursor st + span\<rparr>)))"

lemma replace_in_cursor: "replace_in st out i k s e = Inr st' \<Longrightarrow> rv_cursor st' = rv_cursor st"
  by (auto simp: replace_in_def)

lemma cover_span_cursor: "cover_span st off a b = Inr st' \<Longrightarrow> rv_cursor st' = rv_cursor st"
  by (auto simp: cover_span_def merge_overlap_def Let_def replace_in_cursor split: if_splits prod.splits)

lemma source_span_zero: "source_span off b c = 0 \<Longrightarrow> b = c"
  by (auto simp: source_span_def Let_def algebra_simps split: if_splits)

lemma source_span_le: "source_span off b c \<le> b - c"
  by (auto simp: source_span_def Let_def)

lemma reverse_span_cursor:
  "reverse_span es active boundary st = Inr st' \<Longrightarrow> rv_cursor st' = rv_cursor st +
     source_span (re_target (es ! active) - re_source (es ! active)) (re_source (es ! boundary)) (rv_cursor st)"
  by (auto simp: reverse_span_def Let_def cover_span_cursor split: if_splits)

lemma reverse_span_progress:
  assumes "reverse_span es active boundary st = Inr st'"
    "rv_cursor st' \<noteq> re_source (es ! boundary)"
  shows "unat (re_source (es ! boundary) - rv_cursor st') < unat (re_source (es ! boundary) - rv_cursor st)"
proof -
  define b where "b = re_source (es ! boundary)"
  define s where "s = source_span (re_target (es ! active) - re_source (es ! active)) b (rv_cursor st)"
  have c: "rv_cursor st' = rv_cursor st + s" using reverse_span_cursor [OF assms(1)] by (simp add: s_def b_def)
  have "s \<noteq> 0" using source_span_zero [of _ b "rv_cursor st"] c assms(2) by (auto simp: s_def b_def)
  then have "0 < unat s" by (simp add: unat_gt_0)
  moreover have le: "s \<le> b - rv_cursor st" unfolding s_def by (rule source_span_le)
  moreover have "b - rv_cursor st' = (b - rv_cursor st) - s" by (simp add: c algebra_simps)
  then have "unat (b - rv_cursor st') = unat (b - rv_cursor st) - unat s"
    by (simp only: unat_sub [OF le])
  ultimately show ?thesis by (simp add: word_le_nat_alt flip: b_def)
qed

section \<open>The walk over the segments\<close>

function reverse_segment :: "rift_table \<Rightarrow> nat \<Rightarrow> nat \<Rightarrow> reverse_state \<Rightarrow> reverse_state result" where
  "reverse_segment es active boundary st =
     rbind (reverse_span es active boundary st) (\<lambda>st.
       if rv_cursor st = re_source (es ! boundary) then Inr st
       else reverse_segment es active boundary st)"
  by pat_completeness auto
termination
  by (relation "measure (\<lambda>(es, active, boundary, st). unat (re_source (es ! boundary) - rv_cursor st))")
    (simp_all add: reverse_span_progress)

declare reverse_segment.simps [simp del]

partial_function (option) reverse_segments ::
    "rift_table \<Rightarrow> nat \<Rightarrow> nat \<Rightarrow> nat \<Rightarrow> reverse_state \<Rightarrow> reverse_state result option" where
  "reverse_segments es stop active boundary st =
     (case reverse_segment es active boundary st of
        Inl e \<Rightarrow> Some (Inl e)
      | Inr st \<Rightarrow>
          if stop \<noteq> boundary
          then reverse_segments es stop boundary (if boundary + 1 < length es then boundary + 1 else 0) st
          else Some (Inr st))"

function first_positive :: "rift_table \<Rightarrow> nat \<Rightarrow> nat" where
  "first_positive es k =
     (if k < length es \<and> \<not> 0 <s re_source (es ! k) then first_positive es (k + 1) else k)"
  by pat_completeness auto
termination by (relation "measure (\<lambda>(es, k). length es - k)") auto

declare first_positive.simps [simp del]

definition reverse_walk :: "rift_table \<Rightarrow> reverse_state result option" where
  "reverse_walk es =
     (let n = length es;
          first = (let k = first_positive es 0 in if k = 0 then n else k);
          stop = first - 1
      in reverse_segments es stop stop (if first < n then first else 0)
           \<lparr>rv_out = [], rv_buf = (replicate (2 * n) 0, replicate (2 * n) 0), rv_count = 0, rv_cursor = 0\<rparr>)"

definition rift_reverse :: "rift_table \<Rightarrow> rift_table result option" where
  "rift_reverse es =
     (if es = [] then Some (Inr [])
      else if \<forall>e \<in> set es. re_source e = re_source (es ! 0)
      then Some (Inr (rift_add [] 0 (re_target (es ! 0) - re_source (es ! 0))))
      else map_option (\<lambda>r. rbind r (\<lambda>st.
             Inr (dedup_same_source
               (filter (\<lambda>e. re_source e \<noteq> i64_min \<and> re_target e \<noteq> i64_min) (rift_sort (rv_out st))))))
           (reverse_walk es))"

section \<open>The buffer moves are a splice\<close>

definition live :: "interval_arrays \<times> nat \<Rightarrow> (i64 \<times> i64) list" where
  "live = (\<lambda>((starts, ends), count). take count (zip starts ends))"

lemma move_slot_ok:
  "dst < length starts \<Longrightarrow> k < length starts \<Longrightarrow> length ends = length starts \<Longrightarrow>
    move_slot dst k (starts, ends) = Inr (starts[dst := starts ! k], ends[dst := ends ! k])"
  by (simp add: move_slot_def store_at_def)

lemma open_slot_spec:
  "j < length starts \<Longrightarrow> length ends = length starts \<Longrightarrow> insert_at \<le> j \<Longrightarrow>
    \<exists>starts' ends'. open_slot insert_at j (starts, ends) = Inr (starts', ends')
      \<and> length starts' = length starts \<and> length ends' = length starts
      \<and> (\<forall>k. k < length starts \<longrightarrow> (starts' ! k, ends' ! k)
            = (let k' = (if insert_at < k \<and> k \<le> j then k - 1 else k) in (starts ! k', ends ! k')))"
proof (induction j arbitrary: starts ends)
  case (Suc j)
  show ?case
  proof (cases "insert_at < Suc j")
    case True
    let ?s = "starts[Suc j := starts ! j]" and ?e = "ends[Suc j := ends ! j]"
    obtain s' e' where *: "open_slot insert_at j (?s, ?e) = Inr (s', e')"
      "length s' = length starts" "length e' = length starts"
      "\<And>k. k < length starts \<Longrightarrow> (s' ! k, e' ! k)
            = (let k' = (if insert_at < k \<and> k \<le> j then k - 1 else k) in (?s ! k', ?e ! k'))"
      using Suc.IH [of ?s ?e] Suc.prems True by auto
    have "(s' ! k, e' ! k) = (let k' = (if insert_at < k \<and> k \<le> Suc j then k - 1 else k) in (starts ! k', ends ! k'))"
      if k: "k < length starts" for k
      using *(4) [OF k] k True Suc.prems by (auto simp: Let_def nth_list_update split: if_splits)
    with *(1-3) True Suc.prems show ?thesis by (simp add: move_slot_ok)
  next
    case False
    with Suc.prems have "insert_at = Suc j" by simp
    then show ?thesis using Suc.prems by auto
  qed
qed auto

lemma close_slots_spec:
  "count \<le> length starts \<Longrightarrow> length ends = length starts \<Longrightarrow> insert_at + 1 < past \<Longrightarrow> past \<le> j \<Longrightarrow>
    \<exists>starts' ends'. close_slots insert_at past count j (starts, ends) = Inr (starts', ends')
      \<and> length starts' = length starts \<and> length ends' = length starts
      \<and> (\<forall>k. k < length starts \<longrightarrow> (starts' ! k, ends' ! k)
            = (let k' = (if j + insert_at + 1 - past \<le> k \<and> k + past < count + insert_at + 1
                         then k + past - insert_at - 1 else k) in (starts ! k', ends ! k')))"
proof (induction "count - j" arbitrary: j starts ends)
  case 0
  then show ?case by (subst close_slots.simps) (auto simp: Let_def)
next
  case (Suc n)
  define d where "d = j + insert_at + 1 - past"
  have d: "d < j" "d + past = j + insert_at + 1" and j: "j < count" using Suc by (auto simp: d_def)
  have n: "n = count - (j + 1)" using Suc.hyps(2) by simp
  have d': "Suc (j + insert_at) - past = d" by (simp add: d_def)
  let ?s = "starts[d := starts ! j]" and ?e = "ends[d := ends ! j]"
  have eq: "close_slots insert_at past count j (starts, ends) = close_slots insert_at past count (j + 1) (?s, ?e)"
    using j d Suc.prems by (subst close_slots.simps) (simp add: move_slot_ok d')
  obtain s' e' where *: "close_slots insert_at past count (j + 1) (?s, ?e) = Inr (s', e')"
      "length s' = length starts" "length e' = length starts"
      "\<And>k. k < length starts \<Longrightarrow> (s' ! k, e' ! k)
            = (let k' = (if j + 1 + insert_at + 1 - past \<le> k \<and> k + past < count + insert_at + 1
                         then k + past - insert_at - 1 else k) in (?s ! k', ?e ! k'))"
    using Suc(1) [of "j + 1" ?s ?e] n Suc.prems by auto
  have "(s' ! k, e' ! k) = (let k' = (if d \<le> k \<and> k + past < count + insert_at + 1
                         then k + past - insert_at - 1 else k) in (starts ! k', ends ! k'))"
    if k: "k < length starts" for k
  proof -
    consider "k = d" | "k < d" | "d < k" by linarith
    then show ?thesis
    proof cases
      case 1
      then have "k + past - insert_at - 1 = j" "k + past < count + insert_at + 1"
        "\<not> j + 1 + insert_at + 1 - past \<le> k" using d j by auto
      then show ?thesis using *(4) [OF k] k 1 d Suc.prems by (simp add: Let_def)
    next
      case 2
      then show ?thesis using *(4) [OF k] d by (auto simp: Let_def)
    next
      case 3
      then have "j + 1 + insert_at + 1 - past \<le> k" using d by simp
      moreover have "k + past - insert_at - 1 \<noteq> d" "k \<noteq> d" using 3 Suc.prems by auto
      ultimately show ?thesis using *(4) [OF k] 3 d by (simp add: Let_def)
    qed
  qed
  with * show ?case unfolding eq d_def by blast
qed

lemma replace_splice:
  assumes "length ends = length starts" "count \<le> length starts" "insert_at \<le> past" "past \<le> count"
    and room: "insert_at = past \<longrightarrow> count < length starts"
  shows "\<exists>buf'. replace_reverse_interval ((starts, ends), count) insert_at past s e
      = Inr (buf', count + insert_at + 1 - past)
    \<and> live (buf', count + insert_at + 1 - past)
      = take insert_at (live ((starts, ends), count)) @ (s, e) # drop past (live ((starts, ends), count))
    \<and> length (fst buf') = length starts \<and> length (snd buf') = length starts"
proof -
  define f where "f k = (if k < insert_at then k else k + past - insert_at - 1)" for k
  have "\<exists>starts' ends'. shift_for_insert (starts, ends) insert_at past count = Inr (starts', ends')
      \<and> length starts' = length starts \<and> length ends' = length starts
      \<and> (\<forall>k. k < count + insert_at + 1 - past \<longrightarrow> k \<noteq> insert_at \<longrightarrow>
            (starts' ! k, ends' ! k) = (starts ! f k, ends ! f k))"
  proof -
    consider (grow) "insert_at = past" "insert_at < count" | (append) "insert_at = past" "insert_at = count"
      | (same) "insert_at + 1 = past" | (drop) "insert_at + 1 < past" "past < count"
      | (cut) "insert_at + 1 < past" "past = count"
      using assms by linarith
    then show ?thesis
    proof cases
      case grow
      with open_slot_spec [of count starts ends insert_at] assms show ?thesis
        by (fastforce simp: shift_for_insert_def f_def Let_def)
    next
      case drop
      with close_slots_spec [of count starts ends insert_at past past] assms show ?thesis
        by (fastforce simp: shift_for_insert_def f_def Let_def)
    qed (use assms in \<open>auto simp: shift_for_insert_def f_def\<close>)
  qed
  then obtain starts' ends' where sh: "shift_for_insert (starts, ends) insert_at past count = Inr (starts', ends')"
    and len: "length starts' = length starts" "length ends' = length starts"
    and nth: "\<And>k. k < count + insert_at + 1 - past \<Longrightarrow> k \<noteq> insert_at \<Longrightarrow>
            (starts' ! k, ends' ! k) = (starts ! f k, ends ! f k)" by auto
  have i: "insert_at < length starts" using assms by auto
  let ?buf = "(starts'[insert_at := s], ends'[insert_at := e])" and ?n = "count + insert_at + 1 - past"
  have n: "?n \<le> length starts" using assms by (cases "insert_at = past") auto
  have "live (?buf, ?n) = take insert_at (live ((starts, ends), count)) @ (s, e) # drop past (live ((starts, ends), count))"
  proof (rule nth_equalityI)
    show "length (live (?buf, ?n))
        = length (take insert_at (live ((starts, ends), count)) @ (s, e) # drop past (live ((starts, ends), count)))"
      using assms n len by (simp add: live_def)
    fix k assume "k < length (live (?buf, ?n))"
    then have k: "k < ?n" using n len by (simp add: live_def)
    show "live (?buf, ?n) ! k
        = (take insert_at (live ((starts, ends), count)) @ (s, e) # drop past (live ((starts, ends), count))) ! k"
    proof (cases "k = insert_at")
      case True
      then show ?thesis using i k n len assms by (simp add: live_def nth_append)
    next
      case False
      then show ?thesis using nth [OF k False] k n len assms
        by (auto simp: live_def nth_append nth_Cons' f_def add.commute)
    qed
  qed
  with sh i len show ?thesis
    by (auto simp: replace_reverse_interval_def store_at_def)
qed

section \<open>The covered intervals\<close>

definition upper :: "i64 \<Rightarrow> int" where
  "upper e = (if e = i64_min then 2 ^ 63 else sint e)"

definition rv_live :: "reverse_state \<Rightarrow> (i64 \<times> i64) list" where
  "rv_live st = live (rv_buf st, rv_count st)"

definition rv_fits :: "nat \<Rightarrow> reverse_state \<Rightarrow> bool" where
  "rv_fits cap st \<longleftrightarrow> length (fst (rv_buf st)) = cap \<and> length (snd (rv_buf st)) = cap \<and> rv_count st \<le> cap"

lemma length_live: "rv_fits cap st \<Longrightarrow> length (rv_live st) = rv_count st"
  by (auto simp: rv_fits_def rv_live_def live_def split: prod.splits)

lemma live_nth:
  "rv_fits cap st \<Longrightarrow> k < rv_count st \<Longrightarrow> rv_live st ! k = (fst (rv_buf st) ! k, snd (rv_buf st) ! k)"
  by (auto simp: rv_fits_def rv_live_def live_def split: prod.splits)

lemma le_upper: "image_start <=s key \<or> key = i64_min \<longleftrightarrow> sint image_start \<le> upper key"
  using sint_bounds(2) [of image_start] by (auto simp: upper_def word_sle_eq)

lemma upper_less: "image_end \<noteq> i64_min \<and> image_end <s key \<longleftrightarrow> upper image_end < sint key"
  using sint_bounds(2) [of key] by (auto simp: upper_def word_sless_alt)

lemma upper_extends:
  "past_end \<noteq> i64_min \<and> (image_end = i64_min \<or> past_end <s image_end) \<longleftrightarrow> upper past_end < upper image_end"
  using sint_bounds(2) [of past_end] sint_bounds(2) [of image_end]
  by (auto simp: upper_def word_sless_alt)

lemma scan_first_spec:
  "count \<le> length ends \<Longrightarrow> k \<le> count \<Longrightarrow> \<exists>f. scan_first ends count image_start k = Inr f \<and> k \<le> f \<and> f \<le> count
    \<and> (\<forall>j. k \<le> j \<longrightarrow> j < f \<longrightarrow> upper (ends ! j) < sint image_start)
    \<and> (f < count \<longrightarrow> sint image_start \<le> upper (ends ! f))"
proof (induction "count - k" arbitrary: k)
  case 0
  then show ?case by (subst scan_first.simps) auto
next
  case (Suc n)
  then have k: "k < count" "k < length ends" by auto
  show ?case
  proof (cases "sint image_start \<le> upper (ends ! k)")
    case True
    with k show ?thesis
      by (subst scan_first.simps) (auto simp: le_upper)
  next
    case False
    have step: "P k \<Longrightarrow> (\<forall>j. k + 1 \<le> j \<longrightarrow> j < f \<longrightarrow> P j) \<Longrightarrow> k \<le> j \<Longrightarrow> j < f \<Longrightarrow> P j" for P and j f :: nat
      by (cases "j = k") auto
    have eq: "scan_first ends count image_start k = scan_first ends count image_start (k + 1)"
      using k False by (subst scan_first.simps) (simp add: le_upper)
    have "n = count - (k + 1)" "k + 1 \<le> count" using Suc.hyps(2) k by auto
    from Suc(1) [OF this(1) Suc.prems(1) this(2)] show ?thesis
      unfolding eq using step [of "\<lambda>j. upper (ends ! j) < sint image_start"] False by fastforce
  qed
qed

lemma scan_end_spec:
  "count \<le> length starts \<Longrightarrow> k \<le> count \<Longrightarrow> \<exists>f. scan_end starts count image_end k = Inr f \<and> k \<le> f \<and> f \<le> count
    \<and> (\<forall>j. k \<le> j \<longrightarrow> j < f \<longrightarrow> sint (starts ! j) \<le> upper image_end)
    \<and> (f < count \<longrightarrow> upper image_end < sint (starts ! f))"
proof (induction "count - k" arbitrary: k)
  case 0
  then show ?case by (subst scan_end.simps) auto
next
  case (Suc n)
  then have k: "k < count" "k < length starts" by auto
  show ?case
  proof (cases "upper image_end < sint (starts ! k)")
    case True
    with k show ?thesis
      by (subst scan_end.simps) (auto simp: upper_less)
  next
    case False
    have step: "P k \<Longrightarrow> (\<forall>j. k + 1 \<le> j \<longrightarrow> j < f \<longrightarrow> P j) \<Longrightarrow> k \<le> j \<Longrightarrow> j < f \<Longrightarrow> P j" for P and j f :: nat
      by (cases "j = k") auto
    have eq: "scan_end starts count image_end k = scan_end starts count image_end (k + 1)"
      using k False by (subst scan_end.simps) (simp add: upper_less)
    have "n = count - (k + 1)" "k + 1 \<le> count" using Suc.hyps(2) k by auto
    from Suc(1) [OF this(1) Suc.prems(1) this(2)] show ?thesis
      unfolding eq using step [of "\<lambda>j. sint (starts ! j) \<le> upper image_end"] False by fastforce
  qed
qed

text \<open>The entry for a point of the image, and the entries of a list of points.\<close>

definition point :: "i64 \<Rightarrow> i64 \<Rightarrow> rift_entry" where
  "point off p = \<lparr>re_source = p, re_target = p - off\<rparr>"

lemma interior_adds_eq:
  "idx + n \<le> length ends \<Longrightarrow>
    interior_adds ends off idx n out = Inr (out @ map (\<lambda>k. point off (ends ! k)) [idx..<idx + n])"
  by (induction n arbitrary: idx out) (simp_all add: rift_add_def point_def upt_conv_Cons del: upt_Suc)

lemma replace_in_spec:
  assumes "rv_fits cap st" "rv_count st < cap" "first \<le> past" "past \<le> rv_count st"
  shows "\<exists>st'. replace_in st out first past s e = Inr st' \<and> rv_fits cap st' \<and> rv_out st' = out
    \<and> rv_count st' \<le> rv_count st + 1 \<and> rv_cursor st' = rv_cursor st
    \<and> rv_live st' = take first (rv_live st) @ (s, e) # drop past (rv_live st)"
proof -
  obtain starts ends where buf: "rv_buf st = (starts, ends)" by (cases "rv_buf st")
  have len: "length starts = cap" "length ends = cap" using assms(1) buf by (auto simp: rv_fits_def)
  obtain buf' where "replace_reverse_interval ((starts, ends), rv_count st) first past s e
      = Inr (buf', rv_count st + first + 1 - past)"
    "live (buf', rv_count st + first + 1 - past)
      = take first (live ((starts, ends), rv_count st)) @ (s, e) # drop past (live ((starts, ends), rv_count st))"
    "length (fst buf') = cap" "length (snd buf') = cap"
    using replace_splice [of ends starts "rv_count st" first past s e] assms len by auto
  then show ?thesis using assms(2-4)
    by (auto simp: replace_in_def buf rv_fits_def rv_live_def)
qed

text \<open>
  The effect of one span on the live intervals and on the entries, as list operations: the
  intervals that end before the span stay, those that touch it are merged, and there is an
  entry at every point of the span where its uncovered pieces begin.
\<close>

definition lo :: "i64 \<times> i64 \<Rightarrow> int" where
  "lo i = sint (fst i)"

definition hi :: "i64 \<times> i64 \<Rightarrow> int" where
  "hi i = upper (snd i)"

fun gap_starts :: "i64 \<Rightarrow> i64 \<Rightarrow> (i64 \<times> i64) list \<Rightarrow> i64 list" where
  "gap_starts a b [] = (if sint a < upper b then [a] else [])"
| "gap_starts a b (i # is) = (if sint a < lo i then [a] else []) @
     (if hi i < upper b then gap_starts (snd i) b is else [])"

definition merged :: "i64 \<Rightarrow> i64 \<Rightarrow> (i64 \<times> i64) list \<Rightarrow> i64 \<times> i64" where
  "merged a b mid = (if mid = [] then (a, b)
     else (if sint a < lo (hd mid) then a else fst (hd mid),
           if hi (last mid) < upper b then b else snd (last mid)))"

definition touches :: "i64 \<Rightarrow> i64 \<Rightarrow> nat \<Rightarrow> nat \<Rightarrow> (i64 \<times> i64) list \<Rightarrow> bool" where
  "touches a b first past L \<longleftrightarrow> first \<le> past \<and> past \<le> length L \<and>
     (\<forall>j. j < first \<longrightarrow> hi (L ! j) < sint a) \<and> (first < length L \<longrightarrow> sint a \<le> hi (L ! first)) \<and>
     (\<forall>j. first \<le> j \<longrightarrow> j < past \<longrightarrow> lo (L ! j) \<le> upper b) \<and>
     (past < length L \<longrightarrow> upper b < lo (L ! past))"

definition simple_adds :: "i64 \<Rightarrow> i64 \<Rightarrow> (i64 \<times> i64) list \<Rightarrow> i64 list" where
  "simple_adds a b mid = (if mid = [] then [a]
     else (if sint a < lo (hd mid) then [a] else []) @ map snd (butlast mid) @
          (if hi (last mid) < upper b then [snd (last mid)] else []))"

lemma cover_span_spec:
  assumes fits: "rv_fits cap st" and room: "rv_count st < cap"
    and cursor: "rv_cursor st = a - off"
  shows "\<exists>st' first past. cover_span st off a b = Inr st' \<and> rv_fits cap st'
    \<and> rv_count st' \<le> rv_count st + 1 \<and> rv_cursor st' = rv_cursor st
    \<and> touches a b first past (rv_live st)
    \<and> rv_live st' = take first (rv_live st) @ merged a b (subrange first past (rv_live st)) # drop past (rv_live st)
    \<and> rv_out st' = rv_out st @ map (point off) (simple_adds a b (subrange first past (rv_live st)))"
proof -
  obtain starts ends where buf: "rv_buf st = (starts, ends)" by (cases "rv_buf st")
  have len: "length starts = cap" "length ends = cap" "rv_count st \<le> cap"
    using fits buf by (auto simp: rv_fits_def)
  let ?L = "rv_live st" and ?n = "rv_count st"
  have L: "length ?L = ?n" by (rule length_live [OF fits])
  have nth: "?L ! k = (starts ! k, ends ! k)" if "k < ?n" for k
    using live_nth [OF fits that] buf by simp
  obtain f where f: "scan_first ends ?n a 0 = Inr f" "f \<le> ?n" "\<forall>j. j < f \<longrightarrow> upper (ends ! j) < sint a"
    "f < ?n \<longrightarrow> sint a \<le> upper (ends ! f)"
    using scan_first_spec [of ?n ends 0 a] len by auto
  show ?thesis
  proof (cases "f < ?n")
    case False
    then have f': "f = ?n" using f(2) by simp
    obtain st' where st': "replace_in st (rift_add (rv_out st) a (rv_cursor st)) f f a b = Inr st'" "rv_fits cap st'"
      "rv_out st' = rift_add (rv_out st) a (rv_cursor st)" "rv_count st' \<le> ?n + 1"
      "rv_cursor st' = rv_cursor st" "rv_live st' = take f ?L @ (a, b) # drop f ?L"
      using replace_in_spec [OF fits room, of f f "rift_add (rv_out st) a (rv_cursor st)" a b] f(2) by auto
    have "touches a b f f ?L" using f f' nth L by (auto simp: touches_def hi_def)
    moreover have "cover_span st off a b = Inr st'" using f' f(1) st'(1) by (simp add: cover_span_def buf)
    ultimately show ?thesis using st' L f'
      by (intro exI [of _ st'] exI [of _ f])
        (simp add: subrange_def merged_def simple_adds_def rift_add_def point_def cursor)
  next
    case True
    obtain p where p: "scan_end starts ?n b f = Inr p" "f \<le> p" "p \<le> ?n"
      "\<forall>j. f \<le> j \<longrightarrow> j < p \<longrightarrow> sint (starts ! j) \<le> upper b" "p < ?n \<longrightarrow> upper b < sint (starts ! p)"
      using scan_end_spec [of ?n starts f b] len f(2) by auto
    have t: "touches a b f p ?L" using f p True nth L by (auto simp: touches_def hi_def lo_def)
    show ?thesis
    proof (cases "f = p")
      case same: True
      obtain st' where st': "replace_in st (rift_add (rv_out st) a (rv_cursor st)) f p a b = Inr st'" "rv_fits cap st'"
        "rv_out st' = rift_add (rv_out st) a (rv_cursor st)" "rv_count st' \<le> ?n + 1"
        "rv_cursor st' = rv_cursor st" "rv_live st' = take f ?L @ (a, b) # drop p ?L"
        using replace_in_spec [OF fits room, of f p "rift_add (rv_out st) a (rv_cursor st)" a b] p by auto
      have "cover_span st off a b = Inr st'" using True f(1) p(1) same st'(1) by (simp add: cover_span_def buf)
      with t st' same show ?thesis
        by (intro exI [of _ st'] exI [of _ f] exI [of _ p])
          (simp add: subrange_def merged_def simple_adds_def rift_add_def point_def cursor)
    next
      case False
      define mid where "mid = subrange f p ?L"
      have fp: "f < p" using False p(2) by simp
      have lm: "length mid = p - f" using p(3) L by (simp add: mid_def)
      then have ne: "mid \<noteq> []" using fp by auto
      have mid: "mid ! k = (starts ! (f + k), ends ! (f + k))" if "k < p - f" for k
        using that p(3) L nth by (simp add: mid_def nth_subrange)
      have hd: "hd mid = (starts ! f, ends ! f)" using mid [of 0] fp ne by (simp add: hd_conv_nth)
      have lst: "last mid = (starts ! (p - 1), ends ! (p - 1))"
        using mid [of "p - f - 1"] fp ne lm by (simp add: last_conv_nth)
      have inner: "map (\<lambda>k. point off (ends ! k)) [f..<f + (p - 1 - f)] = map (point off) (map snd (butlast mid))"
        by (rule nth_equalityI) (use mid lm in \<open>auto simp: nth_butlast\<close>)
      have radd: "rift_add es x (x - off) = es @ [point off x]" for es x
        by (simp add: rift_add_def point_def)
      define pts where "pts = simple_adds a b mid"
      define out where "out = rv_out st @ map (point off) pts"
      obtain st' where st': "replace_in st out f p (fst (merged a b mid)) (snd (merged a b mid)) = Inr st'"
        "rv_fits cap st'" "rv_out st' = out" "rv_count st' \<le> ?n + 1" "rv_cursor st' = rv_cursor st"
        "rv_live st' = take f ?L @ merged a b mid # drop p ?L"
        using replace_in_spec [OF fits room, of f p out "fst (merged a b mid)" "snd (merged a b mid)"] p by auto
      have bounds: "f < length starts" "f + (p - 1 - f) \<le> length ends" "p - 1 < length ends"
        using fp p(3) len by auto
      have m: "merged a b mid = (if a <s starts ! f then a else starts ! f,
          if upper (ends ! (p - 1)) < upper b then b else ends ! (p - 1))"
        using ne by (simp add: merged_def hd lst lo_def hi_def word_sless_alt)
      have "merge_overlap st off a b f p = replace_in st out f p (fst (merged a b mid)) (snd (merged a b mid))"
        unfolding merge_overlap_def Let_def buf prod.case index_ok [OF bounds(1)] rbind_Inr
          interior_adds_eq [OF bounds(2)] index_ok [OF bounds(3)] upper_extends m inner cursor radd
        using ne by (simp add: out_def pts_def simple_adds_def hd lst lo_def hi_def word_sless_alt)
      then have "cover_span st off a b = Inr st'"
        using True f(1) p(1) False st'(1) by (simp add: cover_span_def buf)
      with t st' show ?thesis
        by (intro exI [of _ st'] exI [of _ f] exI [of _ p]) (simp add: out_def pts_def mid_def)
    qed
  qed
qed

section \<open>The walk returns\<close>

lemma reverse_span_total:
  assumes "rv_fits cap st" "rv_count st < cap"
  shows "\<exists>st'. reverse_span es active boundary st = Inr st' \<and> rv_fits cap st' \<and> rv_count st' \<le> rv_count st + 1"
proof -
  let ?off = "re_target (es ! active) - re_source (es ! active)"
  let ?a = "?off + rv_cursor st"
  let ?s = "source_span ?off (re_source (es ! boundary)) (rv_cursor st)"
  have c: "rv_cursor st = ?a - ?off" by simp
  from cover_span_spec [OF assms c, of "?a + ?s"]
  obtain st' where "cover_span st ?off ?a (?a + ?s) = Inr st'" "rv_fits cap st'" "rv_count st' \<le> rv_count st + 1"
    by blast
  then show ?thesis using assms by (auto simp: reverse_span_def Let_def rv_fits_def)
qed

lemma source_span_clamped:
  assumes "source_span off b c \<noteq> b - c"
  shows "off + (c + source_span off b c) = i64_min" "off + c \<noteq> i64_min"
    "source_span off b c = i64_min - off - c"
  using assms by (auto simp: source_span_def Let_def split: if_splits)

lemma source_span_at_min: "off + c = i64_min \<Longrightarrow> source_span off b c = b - c"
  by (simp add: source_span_def Let_def)

text \<open>At most two spans per segment: the second starts at the least position of the image.\<close>

lemma reverse_segment_total:
  assumes fits: "rv_fits cap st" and room: "rv_count st + 2 \<le> cap"
  shows "\<exists>st'. reverse_segment es active boundary st = Inr st' \<and> rv_fits cap st'
    \<and> rv_count st' \<le> rv_count st + 2 \<and> rv_cursor st' = re_source (es ! boundary)"
proof -
  let ?off = "re_target (es ! active) - re_source (es ! active)" and ?b = "re_source (es ! boundary)"
  obtain st1 where s1: "reverse_span es active boundary st = Inr st1" "rv_fits cap st1"
    "rv_count st1 \<le> rv_count st + 1"
    using reverse_span_total [OF fits, of es active boundary] room by auto
  note c1 = reverse_span_cursor [OF s1(1)]
  show ?thesis
  proof (cases "rv_cursor st1 = ?b")
    case True
    with s1 show ?thesis by (subst reverse_segment.simps) simp
  next
    case False
    then have "source_span ?off ?b (rv_cursor st) \<noteq> ?b - rv_cursor st" using c1 by auto
    from source_span_clamped(1) [OF this] have at: "?off + rv_cursor st1 = i64_min" by (simp add: c1)
    obtain st2 where s2: "reverse_span es active boundary st1 = Inr st2" "rv_fits cap st2"
      "rv_count st2 \<le> rv_count st1 + 1"
      using reverse_span_total [OF s1(2), of es active boundary] room s1(3) by auto
    have "rv_cursor st2 = ?b"
      using reverse_span_cursor [OF s2(1)] source_span_at_min [OF at] by simp
    then have "reverse_segment es active boundary st = Inr st2"
      using s1(1) s2(1) False by (subst reverse_segment.simps, simp, subst reverse_segment.simps) simp
    with s2 s1 \<open>rv_cursor st2 = ?b\<close> show ?thesis by auto
  qed
qed

definition next_segment :: "rift_table \<Rightarrow> nat \<Rightarrow> nat" where
  "next_segment es k = (if k + 1 < length es then k + 1 else 0)"

definition segments_left :: "rift_table \<Rightarrow> nat \<Rightarrow> nat \<Rightarrow> nat" where
  "segments_left es stop k = (if k \<le> stop then stop - k + 1 else length es - k + stop + 1)"

lemma segments_left_next:
  assumes "k < length es" "stop < length es" "k \<noteq> stop"
  shows "segments_left es stop k = Suc (segments_left es stop (next_segment es k))" "next_segment es k < length es"
  using assms by (auto simp: segments_left_def next_segment_def)

lemma reverse_segments_total:
  assumes "stop < length es"
  shows "rv_fits cap st \<Longrightarrow> boundary < length es \<Longrightarrow> rv_count st + 2 * segments_left es stop boundary \<le> cap \<Longrightarrow>
    \<exists>st'. reverse_segments es stop active boundary st = Some (Inr st')"
proof (induction "segments_left es stop boundary" arbitrary: active boundary st)
  case 0
  then show ?case by (simp add: segments_left_def split: if_splits)
next
  case (Suc n)
  have "rv_count st + 2 \<le> cap" using Suc.prems(3) Suc.hyps(2) by linarith
  then obtain st1 where s1: "reverse_segment es active boundary st = Inr st1" "rv_fits cap st1"
    "rv_count st1 \<le> rv_count st + 2"
    using reverse_segment_total [OF Suc.prems(1), of es active boundary] by auto
  show ?case
  proof (cases "stop = boundary")
    case True
    with s1 show ?thesis by (subst reverse_segments.simps) simp
  next
    case False
    note nx = segments_left_next [OF Suc.prems(2) assms False [symmetric]]
    have eq: "reverse_segments es stop active boundary st = reverse_segments es stop boundary (next_segment es boundary) st1"
      using s1(1) False by (subst reverse_segments.simps) (simp add: next_segment_def)
    show ?thesis unfolding eq
      by (rule Suc(1) [OF _ s1(2)]) (use nx Suc.hyps(2) Suc.prems(3) s1(3) in auto)
  qed
qed

lemma first_positive_spec:
  "k \<le> length es \<Longrightarrow> k \<le> first_positive es k \<and> first_positive es k \<le> length es
    \<and> (\<forall>j. k \<le> j \<longrightarrow> j < first_positive es k \<longrightarrow> src (es ! j) \<le> 0)
    \<and> (first_positive es k < length es \<longrightarrow> 0 < src (es ! first_positive es k))"
proof (induction es k rule: first_positive.induct)
  case (1 es k)
  show ?case
  proof (cases "k < length es \<and> \<not> 0 <s re_source (es ! k)")
    case True
    then have eq: "first_positive es k = first_positive es (k + 1)" by (subst first_positive.simps) simp
    have p: "src (es ! k) \<le> 0" using True by (simp add: word_sless_alt)
    have "src (es ! j) \<le> 0" if "k \<le> j" "j < first_positive es k" for j
      using that 1(1) [OF True] True p eq by (cases "j = k") auto
    with 1(1) [OF True] True eq show ?thesis by auto
  next
    case False
    then have "first_positive es k = k" by (subst first_positive.simps) (simp only: if_False)
    with False 1(2) show ?thesis by (auto simp: word_sless_alt)
  qed
qed

definition stop_segment :: "rift_table \<Rightarrow> nat" where
  "stop_segment es = (let k = first_positive es 0 in if k = 0 then length es else k) - 1"

lemma stop_segment_less: "es \<noteq> [] \<Longrightarrow> stop_segment es < length es"
  using first_positive_spec [of 0 es] by (auto simp: stop_segment_def Let_def)

definition reverse_start :: "rift_table \<Rightarrow> reverse_state" where
  "reverse_start es = \<lparr>rv_out = [], rv_buf = (replicate (2 * length es) 0, replicate (2 * length es) 0),
     rv_count = 0, rv_cursor = 0\<rparr>"

lemma reverse_walk_eq:
  "es \<noteq> [] \<Longrightarrow> reverse_walk es = reverse_segments es (stop_segment es) (stop_segment es)
     (next_segment es (stop_segment es)) (reverse_start es)"
  using first_positive_spec [of 0 es]
  by (auto simp: reverse_walk_def Let_def stop_segment_def next_segment_def reverse_start_def)

lemma reverse_walk_total: "es \<noteq> [] \<Longrightarrow> \<exists>st. reverse_walk es = Some (Inr st)"
proof -
  assume ne: "es \<noteq> []"
  have n: "next_segment es (stop_segment es) < length es" using ne by (auto simp: next_segment_def)
  have "segments_left es (stop_segment es) (next_segment es (stop_segment es)) \<le> length es"
    using stop_segment_less [OF ne] by (auto simp: segments_left_def next_segment_def)
  then show ?thesis unfolding reverse_walk_eq [OF ne]
    by (intro reverse_segments_total [OF stop_segment_less [OF ne], where cap = "2 * length es"] n)
      (simp_all add: reverse_start_def rv_fits_def)
qed

lemma dedup_same_source_strict:
  assumes "rift_sorted es"
  shows "strict_sorted (dedup_same_source es) \<and> set (dedup_same_source es) \<subseteq> set es"
proof -
  have step: "strict_sorted kept \<Longrightarrow> (kept = [] \<or> src (last kept) \<le> src e) \<Longrightarrow>
      strict_sorted (dedup_same_source_step kept e) \<and> last (dedup_same_source_step kept e) = e
      \<and> dedup_same_source_step kept e \<noteq> [] \<and> set (dedup_same_source_step kept e) \<subseteq> insert e (set kept)" for kept e
  proof (cases kept rule: rev_cases)
    case (snoc ks k)
    assume "strict_sorted kept" "kept = [] \<or> src (last kept) \<le> src e"
    with snoc have k: "strict_sorted (ks @ [k])" "src k \<le> src e" by simp_all
    show ?thesis
    proof (cases "re_source k = re_source e")
      case True
      with k have "strict_sorted (ks @ [e])" by simp
      with True snoc show ?thesis by (auto simp: dedup_same_source_step_def)
    next
      case False
      with k have "strict_sorted (kept @ [e])"
        unfolding strict_sorted_snoc snoc by (auto simp: order_le_less dest: signed_word_eqI)
      with False snoc show ?thesis by (auto simp: dedup_same_source_step_def)
    qed
  qed (simp add: dedup_same_source_step_def)
  have "strict_sorted (foldl dedup_same_source_step kept xs)
      \<and> set (foldl dedup_same_source_step kept xs) \<subseteq> set kept \<union> set xs"
    if "strict_sorted kept" "rift_sorted xs" "kept = [] \<or> xs = [] \<or> src (last kept) \<le> src (hd xs)" for kept xs
    using that
  proof (induction xs arbitrary: kept)
    case (Cons x xs)
    let ?k = "dedup_same_source_step kept x"
    have s: "strict_sorted ?k" "last ?k = x" "set ?k \<subseteq> insert x (set kept)"
      using step [of kept x] Cons.prems by auto
    have "strict_sorted (foldl dedup_same_source_step ?k xs)
      \<and> set (foldl dedup_same_source_step ?k xs) \<subseteq> set ?k \<union> set xs"
      by (rule Cons.IH) (use Cons.prems s in \<open>(cases xs; simp)+\<close>)
    with s show ?case by auto
  qed simp
  from this [of "[]" es] show ?thesis
    using assms by (cases es; cases "tl es") (auto simp: dedup_same_source_def)
qed

text \<open>
  C26. \<open>RiftTable::reverse\<close> returns on every table, sorted or not: neither of its loops runs
  for ever and no access leaves the working buffer of twice the number of entries. Its
  result has strictly increasing sources, and no source is \<open>i64::MIN\<close>.
\<close>

theorem reverse_returns:
  "\<exists>r. rift_reverse es = Some (Inr r) \<and> strict_sorted r \<and> i64_min \<notin> re_source ` set r"
proof (cases "es = [] \<or> (\<forall>e \<in> set es. re_source e = re_source (es ! 0))")
  case True
  then consider "es = []" | "es \<noteq> []" "\<forall>e \<in> set es. re_source e = re_source (es ! 0)" by blast
  then show ?thesis
  proof cases
    case 1
    then show ?thesis by (simp add: rift_reverse_def)
  next
    case 2
    then have "rift_reverse es = Some (Inr (rift_add [] 0 (re_target (es ! 0) - re_source (es ! 0))))"
      unfolding rift_reverse_def by (auto simp only: if_P if_False)
    then show ?thesis by (simp add: rift_add_def)
  qed
next
  case False
  then obtain st where st: "reverse_walk es = Some (Inr st)" using reverse_walk_total by blast
  let ?kept = "filter (\<lambda>e. re_source e \<noteq> i64_min \<and> re_target e \<noteq> i64_min) (rift_sort (rv_out st))"
  have "rift_sorted ?kept" by (simp add: rift_sort_def sorted_filter)
  note s = dedup_same_source_strict [OF this]
  have "es \<noteq> []" "\<not> (\<forall>e \<in> set es. re_source e = re_source (es ! 0))" using False by blast+
  then have "rift_reverse es = Some (Inr (dedup_same_source ?kept))"
    unfolding rift_reverse_def st by (simp only: if_False option.map rbind_Inr)
  moreover have "i64_min \<notin> re_source ` set (dedup_same_source ?kept)"
    using s by (auto simp del: set_filter dest!: subsetD) simp
  ultimately show ?thesis using s by blast
qed

text \<open>
  With one distinct source the result is no inverse: the reversed table of a single shift by
  \<open>d\<close> shifts by \<open>d\<close> again.
\<close>

lemma reverse_of_one_entry:
  "\<exists>r. rift_reverse [\<lparr>re_source = s, re_target = s + d\<rparr>] = Some (Inr r)
    \<and> (\<forall>x. rift_apply r (rift_apply [\<lparr>re_source = s, re_target = s + d\<rparr>] x) = x + d + d)"
  by (simp add: rift_reverse_def rift_add_def rift_apply_def rift_off_single rift_entry_offset_def)

section \<open>The intervals stay apart\<close>

definition cov :: "(i64 \<times> i64) list \<Rightarrow> int set" where
  "cov L = {x. \<exists>i \<in> set L. lo i \<le> x \<and> x < hi i}"

definition apart :: "(i64 \<times> i64) list \<Rightarrow> bool" where
  "apart L \<longleftrightarrow> (\<forall>i \<in> set L. lo i < hi i) \<and> sorted_wrt (\<lambda>i j. hi i < lo j) L"

lemma cov_simps [simp]: "cov [] = {}" "cov (i # L) = {lo i..<hi i} \<union> cov L" "cov (K @ L) = cov K \<union> cov L"
  by (auto simp: cov_def)

lemma apart_append:
  "apart (K @ L) \<longleftrightarrow> apart K \<and> apart L \<and> (\<forall>i \<in> set K. \<forall>j \<in> set L. hi i < lo j)"
  by (auto simp: apart_def sorted_wrt_append)

lemma apart_Cons: "apart (i # L) \<longleftrightarrow> lo i < hi i \<and> apart L \<and> (\<forall>j \<in> set L. hi i < lo j)"
  by (auto simp: apart_def)

lemma apart_nth: "apart L \<Longrightarrow> j < k \<Longrightarrow> k < length L \<Longrightarrow> hi (L ! j) < lo (L ! k)"
  by (auto simp: apart_def sorted_wrt_iff_nth_less)

lemma apart_order:
  assumes "apart L" "j \<le> k" "k < length L"
  shows "hi (L ! j) \<le> hi (L ! k)" "lo (L ! j) \<le> lo (L ! k)"
proof -
  have "lo (L ! j) < hi (L ! j)" "lo (L ! k) < hi (L ! k)" using assms by (auto simp: apart_def)
  then show "hi (L ! j) \<le> hi (L ! k)" "lo (L ! j) \<le> lo (L ! k)"
    using assms apart_nth [of L j k] by (cases "j = k"; simp)+
qed

lemma apart_ends:
  assumes "apart L" "i \<in> set L"
  shows "lo (hd L) \<le> lo i \<and> hi i \<le> hi (last L)"
proof -
  obtain k where "k < length L" "i = L ! k" using assms(2) by (auto simp: in_set_conv_nth)
  with apart_order [OF assms(1), of 0 k] apart_order [OF assms(1), of k "length L - 1"] show ?thesis
    by (cases "L = []") (simp_all add: hd_conv_nth last_conv_nth)
qed

text \<open>The three parts of a list that a span \<open>[a, b)\<close> touches in the middle.\<close>

lemma touches_split:
  assumes t: "touches a b first past L" and ap: "apart L" and ab: "sint a < upper b"
  defines "pre \<equiv> take first L" and "mid \<equiv> subrange first past L" and "post \<equiv> drop past L"
  shows "L = pre @ mid @ post" "\<And>i. i \<in> set pre \<Longrightarrow> hi i < sint a"
    "\<And>i. i \<in> set mid \<Longrightarrow> sint a \<le> hi i \<and> lo i \<le> upper b" "\<And>i. i \<in> set post \<Longrightarrow> upper b < lo i"
proof -
  have fp: "first \<le> past" "past \<le> length L" using t by (auto simp: touches_def)
  show "L = pre @ mid @ post"
    using fp by (simp add: pre_def mid_def post_def subrange_def)
      (metis append_assoc append_take_drop_id le_add_diff_inverse take_add)
  show "hi i < sint a" if "i \<in> set pre" for i
    using that t by (auto simp: pre_def touches_def in_set_conv_nth)
  show "sint a \<le> hi i \<and> lo i \<le> upper b" if i: "i \<in> set mid" for i
  proof -
    obtain k where k: "k < past - first" "i = L ! (first + k)"
      using i fp by (auto simp: mid_def in_set_conv_nth nth_subrange)
    then have "sint a \<le> hi (L ! first)" "lo i \<le> upper b" using t fp by (auto simp: touches_def)
    moreover have "hi (L ! first) \<le> hi i" using apart_order(1) [OF ap, of first "first + k"] k fp by simp
    ultimately show ?thesis by simp
  qed
  show "upper b < lo i" if i: "i \<in> set post" for i
  proof -
    obtain k where "k < length post" "i = post ! k" using i by (auto simp: in_set_conv_nth)
    then have k: "past + k < length L" "i = L ! (past + k)" by (auto simp: post_def)
    then have "upper b < lo (L ! past)" using t by (auto simp: touches_def)
    with apart_order(2) [OF ap, of past "past + k"] k show ?thesis by simp
  qed
qed

lemma merged_cov:
  assumes ap: "apart mid" and ab: "sint a < upper b"
    and t: "\<And>i. i \<in> set mid \<Longrightarrow> sint a \<le> hi i \<and> lo i \<le> upper b"
  shows "{lo (merged a b mid)..<hi (merged a b mid)} = cov mid \<union> {sint a..<upper b}"
    "lo (merged a b mid) = (if mid = [] then sint a else min (sint a) (lo (hd mid)))"
    "hi (merged a b mid) = (if mid = [] then upper b else max (upper b) (hi (last mid)))"
proof -
  show lo: "lo (merged a b mid) = (if mid = [] then sint a else min (sint a) (lo (hd mid)))"
    and hi: "hi (merged a b mid) = (if mid = [] then upper b else max (upper b) (hi (last mid)))"
    by (auto simp: merged_def lo_def hi_def)
  show "{lo (merged a b mid)..<hi (merged a b mid)} = cov mid \<union> {sint a..<upper b}"
  proof (cases "mid = []")
    case False
    note ends = apart_ends [OF ap]
    have f1: "x \<in> cov mid \<union> {sint a..<upper b}"
      if x: "min (sint a) (lo (hd mid)) \<le> x" "x < max (upper b) (hi (last mid))" for x
    proof (cases "x < sint a")
      case True
      then have "lo (hd mid) \<le> x" "x < hi (hd mid)" using x t [of "hd mid"] False by auto
      then show ?thesis using False by (auto simp: cov_def intro!: bexI [of _ "hd mid"])
    next
      case ge: False
      show ?thesis
      proof (cases "x < upper b")
        case True with ge show ?thesis by simp
      next
        case f: False
        then have "lo (last mid) \<le> x" "x < hi (last mid)" using x t [of "last mid"] False by auto
        then show ?thesis using False by (auto simp: cov_def intro!: bexI [of _ "last mid"])
      qed
    qed
    have f2: "min (sint a) (lo (hd mid)) \<le> x \<and> x < max (upper b) (hi (last mid))"
      if "x \<in> cov mid \<union> {sint a..<upper b}" for x
      using that ends by (fastforce simp: cov_def)
    show ?thesis
    proof (rule set_eqI)
      fix x
      show "x \<in> {lo (merged a b mid)..<hi (merged a b mid)} \<longleftrightarrow> x \<in> cov mid \<union> {sint a..<upper b}"
        unfolding lo hi if_not_P [OF False] atLeastLessThan_iff using f1 [of x] f2 [of x] by blast
    qed
  qed (simp add: merged_def lo_def hi_def)
qed

lemma splice_cov:
  assumes t: "touches a b first past L" and ap: "apart L" and ab: "sint a < upper b"
  defines "L' \<equiv> take first L @ merged a b (subrange first past L) # drop past L"
  shows "apart L'" "cov L' = cov L \<union> {sint a..<upper b}"
proof -
  let ?pre = "take first L" and ?mid = "subrange first past L" and ?post = "drop past L"
  note S = touches_split [OF t ap ab]
  have ap3: "apart ?pre" "apart ?mid" "apart ?post" "\<And>i j. i \<in> set ?pre \<Longrightarrow> j \<in> set ?mid \<Longrightarrow> hi i < lo j"
    "\<And>i j. i \<in> set ?mid \<Longrightarrow> j \<in> set ?post \<Longrightarrow> hi i < lo j" "\<And>i j. i \<in> set ?pre \<Longrightarrow> j \<in> set ?post \<Longrightarrow> hi i < lo j"
    using ap [unfolded arg_cong [OF S(1), of apart]] by (auto simp: apart_append)
  note m = merged_cov [OF ap3(2) ab S(3)]
  have covL: "cov L = cov ?pre \<union> cov ?mid \<union> cov ?post" using arg_cong [OF S(1), of cov] by (simp add: Un_assoc)
  show "cov L' = cov L \<union> {sint a..<upper b}"
    unfolding L'_def cov_simps covL using m(1) by blast
  have "hi i < lo (merged a b ?mid)" if "i \<in> set ?pre" for i
    using S(2) [OF that] ap3(4) [OF that] by (auto simp: m(2))
  moreover have "hi (merged a b ?mid) < lo j" if "j \<in> set ?post" for j
    using S(4) [OF that] ap3(5) [OF _ that] by (auto simp: m(3))
  moreover have "lo (merged a b ?mid) < hi (merged a b ?mid)"
    using ab by (auto simp: m(2,3))
  ultimately show "apart L'" using ap3 by (auto simp: L'_def apart_append apart_Cons)
qed

text \<open>The points that get an entry: uncovered, and before every uncovered position of the span.\<close>

lemma simple_adds_uncovered:
  assumes t: "touches a b first past L" and ap: "apart L" and ab: "sint a < upper b"
    and p: "p \<in> set (simple_adds a b (subrange first past L))"
  shows "sint a \<le> sint p \<and> sint p < upper b \<and> sint p \<notin> cov L"
proof -
  let ?pre = "take first L" and ?mid = "subrange first past L" and ?post = "drop past L"
  note S = touches_split [OF t ap ab]
  have apm: "apart ?mid" using ap [unfolded arg_cong [OF S(1), of apart]] by (simp add: apart_append)
  have covL: "cov L = cov ?pre \<union> cov ?mid \<union> cov ?post" using arg_cong [OF S(1), of cov] by (simp add: Un_assoc)
  have "sint a \<le> sint p \<and> sint p < upper b \<and> sint p \<notin> cov ?mid"
  proof -
    consider (lead) "p = a" "?mid = [] \<or> sint a < lo (hd ?mid)"
      | (inner) k where "k + 1 < length ?mid" "p = snd (?mid ! k)"
      | (tail) "?mid \<noteq> []" "p = snd (last ?mid)" "hi (last ?mid) < upper b"
    proof (cases "?mid = []")
      case False
      have "\<exists>k. k + 1 < length ?mid \<and> p = snd (?mid ! k)" if pm: "p \<in> snd ` set (butlast ?mid)"
      proof -
        obtain i where "i \<in> set (butlast ?mid)" "p = snd i" using pm by blast
        then obtain k where "k < length (butlast ?mid)" "p = snd (butlast ?mid ! k)" by (auto simp only: in_set_conv_nth)
        then show ?thesis by (intro exI [of _ k]) (simp add: nth_butlast del: length_subrange)
      qed
      with p False that show ?thesis by (auto simp: simple_adds_def split: if_splits)
    qed (use p that in \<open>simp add: simple_adds_def\<close>)
    then show ?thesis
    proof cases
      case lead
      have "sint a < lo i" if i: "i \<in> set ?mid" for i
        using apart_ends [OF apm i] lead(2) i by (cases ?mid) auto
      with lead ab show ?thesis by (force simp: cov_def)
    next
      case inner
      have h: "hi (?mid ! k) < lo (?mid ! (k + 1))" using apart_nth [OF apm, of k "k + 1"] inner by simp
      have m1: "?mid ! (k + 1) \<in> set ?mid" "?mid ! k \<in> set ?mid" using inner(1) by (auto intro!: nth_mem)
      have "lo (?mid ! (k + 1)) < 2 ^ 63" using sint_bounds(2) by (simp add: lo_def)
      with h have sp: "sint p = hi (?mid ! k)" by (auto simp: hi_def inner(2) upper_def split: if_splits)
      have "\<not> (lo i \<le> hi (?mid ! k) \<and> hi (?mid ! k) < hi i)" if i: "i \<in> set ?mid" for i
      proof -
        obtain j where j: "j < length ?mid" "i = ?mid ! j" using i by (auto simp: in_set_conv_nth)
        have "lo (?mid ! k) < hi (?mid ! k)" "lo i < hi i" using apm m1 i by (auto simp: apart_def)
        with j apart_nth [OF apm, of j k] apart_nth [OF apm, of k j] inner(1) show ?thesis
          by (cases j k rule: linorder_cases) auto
      qed
      with h sp S(3) m1 show ?thesis by (fastforce simp: cov_def)
    next
      case tail
      have b63: "upper b \<le> 2 ^ 63" using sint_bounds(2) [of b] by (simp add: upper_def)
      with tail have sp: "sint p = hi (last ?mid)" by (auto simp: hi_def upper_def split: if_splits)
      have "hi i \<le> hi (last ?mid)" if "i \<in> set ?mid" for i using apart_ends [OF apm that] by simp
      then have "sint p \<notin> cov ?mid" unfolding cov_def sp by fastforce
      with tail sp S(3) [OF last_in_set [OF tail(1)]] show ?thesis by simp
    qed
  qed
  moreover have "sint p \<notin> cov ?pre" if "sint a \<le> sint p" using S(2) that by (force simp: cov_def)
  moreover have "sint p \<notin> cov ?post" if "sint p < upper b" using S(4) that by (force simp: cov_def)
  ultimately show ?thesis unfolding covL by blast
qed

lemma simple_adds_reach:
  assumes t: "touches a b first past L" and ap: "apart L" and ab: "sint a < upper b"
    and x: "sint a \<le> x" "x < upper b" "x \<notin> cov L"
  shows "\<exists>p \<in> set (simple_adds a b (subrange first past L)). sint p \<le> x \<and> {sint p..x} \<inter> cov L = {}"
proof -
  let ?pre = "take first L" and ?mid = "subrange first past L" and ?post = "drop past L"
  note S = touches_split [OF t ap ab]
  have apm: "apart ?mid" using ap [unfolded arg_cong [OF S(1), of apart]] by (simp add: apart_append)
  have covL: "cov L = cov ?pre \<union> cov ?mid \<union> cov ?post" using arg_cong [OF S(1), of cov] by (simp add: Un_assoc)
  have outer: "y \<notin> cov ?pre \<and> y \<notin> cov ?post" if "sint a \<le> y" "y \<le> x" for y
    using S(2,4) that x(2) by (force simp: cov_def)
  have "\<exists>p \<in> set (simple_adds a b ?mid). sint a \<le> sint p \<and> sint p \<le> x \<and> {sint p..x} \<inter> cov ?mid = {}"
  proof (cases "\<exists>i \<in> set ?mid. hi i \<le> x")
    case False
    have above: "x < lo i" if "i \<in> set ?mid" for i using False that x(3) covL by (force simp: cov_def)
    have "x < lo (hd ?mid)" if "?mid \<noteq> []" using that by (intro above list.set_sel(1))
    then have "a \<in> set (simple_adds a b ?mid)"
      using x(1) by (cases "?mid = []") (auto simp: simple_adds_def)
    with above x(1) show ?thesis by (force simp: cov_def)
  next
    case True
    define k where "k = (GREATEST k. k < length ?mid \<and> hi (?mid ! k) \<le> x)"
    have ex: "\<exists>k. k < length ?mid \<and> hi (?mid ! k) \<le> x" using True by (metis in_set_conv_nth)
    have k: "k < length ?mid" "hi (?mid ! k) \<le> x"
      using GreatestI_ex_nat [OF ex, of "length ?mid"] by (auto simp: k_def)
    have above: "x < hi (?mid ! j)" if "k < j" "j < length ?mid" for j
    proof (rule ccontr)
      assume "\<not> x < hi (?mid ! j)"
      with that(2) have "j < length ?mid \<and> hi (?mid ! j) \<le> x" by simp
      then have "j \<le> k" unfolding k_def by (rule Greatest_le_nat [where b = "length ?mid"]) simp
      with that(1) show False by simp
    qed
    have m: "?mid ! j \<in> set ?mid" if "j < length ?mid" for j using that by (rule nth_mem)
    have b63: "upper b \<le> 2 ^ 63" using sint_bounds(2) [of b] by (simp add: upper_def)
    with k(2) x(2) have sp: "sint (snd (?mid ! k)) = hi (?mid ! k)" by (auto simp: hi_def upper_def split: if_splits)
    have "snd (?mid ! k) \<in> set (simple_adds a b ?mid)"
    proof (cases "k = length ?mid - 1")
      case True
      have ne: "?mid \<noteq> []" using k(1) by (cases "?mid = []") simp_all
      have l: "?mid ! k = last ?mid" unfolding True by (rule last_conv_nth [OF ne, symmetric])
      with ne show ?thesis using k(2) x(2) by (simp add: simple_adds_def)
    next
      case False
      then have "k < length (butlast ?mid)" using k(1) by (simp del: length_subrange)
      then have "?mid ! k \<in> set (butlast ?mid)" by (metis nth_butlast nth_mem)
      then show ?thesis using m [OF k(1)] by (auto simp: simple_adds_def)
    qed
    moreover have "y \<notin> cov ?mid" if y: "hi (?mid ! k) \<le> y" "y \<le> x" for y
    proof
      assume "y \<in> cov ?mid"
      then obtain j where j: "j < length ?mid" "lo (?mid ! j) \<le> y" "y < hi (?mid ! j)"
        by (auto simp: cov_def in_set_conv_nth simp del: length_subrange)
      have "k < j" using apart_order(1) [OF apm, of j k] j k(1) y(1) by (meson not_le le_less_trans order.trans)
      then have "x < hi (?mid ! j)" using above j(1) by blast
      then have "x \<in> cov ?mid" using j(2) y(2) m [OF j(1)] unfolding cov_def
        by (intro CollectI bexI [of _ "?mid ! j"]) simp_all
      with x(3) covL show False by blast
    qed
    ultimately show ?thesis using S(3) [OF m [OF k(1)]] k(2) sp by (intro bexI [of _ "snd (?mid ! k)"]) auto
  qed
  then obtain p where p: "p \<in> set (simple_adds a b ?mid)" "sint a \<le> sint p" "sint p \<le> x"
    "{sint p..x} \<inter> cov ?mid = {}" by blast
  then have "{sint p..x} \<inter> cov L = {}" unfolding covL using outer by auto
  with p show ?thesis by blast
qed

section \<open>The reversed table is a right inverse\<close>

text \<open>
  The invariant: at every covered position \<open>x\<close> the last entry at or below it leads to a source
  position that the map takes to \<open>x\<close>, and sources of entries are covered.
\<close>

definition best_entry :: "rift_table \<Rightarrow> int \<Rightarrow> rift_entry \<Rightarrow> bool" where
  "best_entry out x e \<longleftrightarrow> e \<in> set out \<and> src e \<le> x \<and> (\<forall>e' \<in> set out. src e' \<le> x \<longrightarrow> src e' \<le> src e)"

definition inverts :: "(i64 \<Rightarrow> i64) \<Rightarrow> (i64 \<times> i64) list \<Rightarrow> rift_table \<Rightarrow> bool" where
  "inverts A L out \<longleftrightarrow> apart L \<and> (\<forall>e \<in> set out. src e \<in> cov L) \<and>
     (\<forall>x \<in> cov L. (\<exists>e \<in> set out. src e \<le> x \<and> {src e..x} \<subseteq> cov L) \<and>
        (\<forall>e. best_entry out x e \<longrightarrow> A (re_target e + of_int (x - src e)) = of_int x))"

lemma inverts_span:
  assumes inv: "inverts A L out" and t: "touches a b first past L" and ab: "sint a < upper b"
    and A: "\<And>x. sint a \<le> x \<Longrightarrow> x < upper b \<Longrightarrow> A (of_int x - off) = of_int x"
  defines "L' \<equiv> take first L @ merged a b (subrange first past L) # drop past L"
  defines "out' \<equiv> out @ map (point off) (simple_adds a b (subrange first past L))"
  shows "inverts A L' out'" "cov L' = cov L \<union> {sint a..<upper b}"
proof -
  let ?adds = "simple_adds a b (subrange first past L)"
  have ap: "apart L" using inv by (simp add: inverts_def)
  note C = splice_cov [OF t ap ab, folded L'_def]
  note U = simple_adds_uncovered [OF t ap ab]
  note R = simple_adds_reach [OF t ap ab]
  show "cov L' = cov L \<union> {sint a..<upper b}" by (rule C(2))
  have new: "e \<in> point off ` set ?adds \<or> e \<in> set out" if "e \<in> set out'" for e using that by (auto simp: out'_def)
  have old_src: "src e \<in> cov L" if "e \<in> set out" for e using inv that by (simp add: inverts_def)
  have new_src: "sint a \<le> src e \<and> src e < upper b \<and> src e \<notin> cov L" if e: "e \<in> point off ` set ?adds" for e
  proof -
    obtain p where "p \<in> set ?adds" "src e = sint p" using e by (auto simp: point_def)
    with U show ?thesis by simp
  qed
  have srcs: "src e \<in> cov L'" if "e \<in> set out'" for e
    using new [OF that] old_src [of e] new_src [of e] unfolding C(2) by auto
  have x: "(\<exists>e \<in> set out'. src e \<le> x \<and> {src e..x} \<subseteq> cov L') \<and>
        (\<forall>e. best_entry out' x e \<longrightarrow> A (re_target e + of_int (x - src e)) = of_int x)" if x: "x \<in> cov L'" for x
  proof (cases "x \<in> cov L")
    case True
    with inv have old: "\<exists>e \<in> set out. src e \<le> x \<and> {src e..x} \<subseteq> cov L"
      and best: "\<forall>e. best_entry out x e \<longrightarrow> A (re_target e + of_int (x - src e)) = of_int x"
      unfolding inverts_def by simp_all
    from old obtain e0 where e0: "e0 \<in> set out" "src e0 \<le> x" "{src e0..x} \<subseteq> cov L" by (elim bexE conjE)
    have "best_entry out x e" if b: "best_entry out' x e" for e
    proof -
      have e: "e \<in> set out'" "src e \<le> x" using b by (simp_all add: best_entry_def)
      have "e0 \<in> set out'" using e0(1) by (simp add: out'_def)
      then have e0e: "src e0 \<le> src e" using b e0(2) by (simp add: best_entry_def)
      have "e \<notin> point off ` set ?adds"
      proof
        assume "e \<in> point off ` set ?adds"
        then have "src e \<notin> cov L" using new_src by blast
        moreover have "src e \<in> {src e0..x}" using e e0e by simp
        ultimately show False using e0(3) by blast
      qed
      then have "e \<in> set out" using new [OF e(1)] by blast
      moreover have "set out \<subseteq> set out'" by (simp add: out'_def)
      ultimately show ?thesis using b unfolding best_entry_def by blast
    qed
    moreover have "\<exists>e \<in> set out'. src e \<le> x \<and> {src e..x} \<subseteq> cov L'"
    proof (intro bexI conjI)
      show "e0 \<in> set out'" using e0(1) by (simp add: out'_def)
      show "{src e0..x} \<subseteq> cov L'" unfolding C(2) using e0(3) by blast
    qed (rule e0(2))
    ultimately show ?thesis using best by blast
  next
    case False
    with x have xab: "sint a \<le> x" "x < upper b" unfolding C(2) by simp_all
    obtain p where p: "p \<in> set ?adds" "sint p \<le> x" "{sint p..x} \<inter> cov L = {}" using R [OF xab False] by blast
    have pp: "point off p \<in> set out'" "src (point off p) = sint p" using p(1) by (auto simp: out'_def point_def)
    have "{sint p..x} \<subseteq> cov L'"
      unfolding C(2) using U [OF p(1)] xab(2) by (intro subsetI UnI2) simp
    then have ex: "\<exists>e \<in> set out'. src e \<le> x \<and> {src e..x} \<subseteq> cov L'" 
      using pp p(2) by (intro bexI [of _ "point off p"]) simp_all
    have "A (re_target e + of_int (x - src e)) = of_int x" if b: "best_entry out' x e" for e
    proof -
      have e: "e \<in> set out'" "src e \<le> x" "sint p \<le> src e"
        using b bspec [OF _ pp(1), of "\<lambda>e'. src e' \<le> x \<longrightarrow> src e' \<le> src e"] pp(2) p(2)
        by (simp_all add: best_entry_def)
      have "e \<notin> set out"
      proof
        assume "e \<in> set out"
        then have "src e \<in> {sint p..x} \<inter> cov L" using old_src e by simp
        with p(3) show False by blast
      qed
      then obtain q where q: "e = point off q" using new [OF e(1)] by auto
      have "re_target e + of_int (x - src e) = of_int x - off" by (simp add: q point_def)
      then show ?thesis by (simp only: A [OF xab])
    qed
    with ex show ?thesis by blast
  qed
  show "inverts A L' out'" unfolding inverts_def using C(1) srcs x by (intro conjI ballI) simp_all
qed

text \<open>The source positions from \<open>c\<close> up to \<open>b\<close>, around the end of the address space if need be.\<close>

definition arc :: "i64 \<Rightarrow> i64 \<Rightarrow> i64 set" where
  "arc c b = {y. unat (y - c) < unat (b - c)}"

lemma arc_split:
  assumes "s \<le> b - c"
  shows "arc c b = arc c (c + s) \<union> arc (c + s) b"
proof -
  have "unat (y - c) < unat (b - c) \<longleftrightarrow> unat (y - c) < unat s \<or> unat (y - (c + s)) < unat (b - (c + s))" for y
  proof -
    have e: "b - (c + s) = (b - c) - s" "y - (c + s) = (y - c) - s" by (simp_all add: algebra_simps)
    have "unat ((b - c) - s) = unat (b - c) - unat s" using assms by (rule unat_sub)
    moreover have "unat ((y - c) - s) = unat (y - c) - unat s" if "\<not> unat (y - c) < unat s"
      using that by (intro unat_sub) (simp add: word_le_nat_alt)
    ultimately show ?thesis unfolding e using assms
      by (cases "unat (y - c) < unat s") (auto simp: word_le_nat_alt)
  qed
  then show ?thesis by (auto simp: arc_def)
qed

definition tracks :: "rift_table \<Rightarrow> nat \<Rightarrow> reverse_state \<Rightarrow> bool" where
  "tracks es cap st \<longleftrightarrow> rv_fits cap st \<and> inverts (rift_apply es) (rv_live st) (rv_out st)"

definition covered :: "rift_table \<Rightarrow> reverse_state \<Rightarrow> i64 set" where
  "covered es st = {y. sint (rift_apply es y) \<in> cov (rv_live st)}"

lemma span_positions:
  fixes off cursor b :: i64
  defines "span \<equiv> source_span off b cursor"
  assumes "span \<noteq> 0"
  shows "upper (off + cursor + span) = sint (off + cursor) + uint span" "sint (off + cursor) < upper (off + cursor + span)"
proof -
  let ?a = "off + cursor"
  have le: "uint span \<le> 2 ^ 63 - sint ?a"
  proof (cases "?a = i64_min")
    case True
    then have "sint ?a = - (2 ^ 63)" by simp
    then show ?thesis using uint_lt2p [of span] by simp
  next
    case False
    then have "span \<le> i64_min - ?a"
      unfolding span_def source_span_def Let_def by (auto simp: diff_diff_eq add.commute)
    then have "uint span \<le> uint (i64_min - ?a)" by (simp add: word_le_def)
    also have "uint (i64_min - ?a) = 2 ^ 63 - sint ?a"
    proof -
      have e: "i64_min - ?a = word_of_int (2 ^ 63 - sint ?a)" by simp
      have "0 \<le> 2 ^ 63 - sint ?a" "2 ^ 63 - sint ?a < 2 ^ 64"
      proof -
        have "sint ?a \<noteq> - (2 ^ 63)"
        proof
          assume "sint ?a = - (2 ^ 63)"
          then have "sint ?a = sint i64_min" by simp
          then have "?a = i64_min" by (rule signed_word_eqI)
          with False show False by contradiction
        qed
        with sint_bounds [of ?a] show "0 \<le> 2 ^ 63 - sint ?a" "2 ^ 63 - sint ?a < 2 ^ 64" by simp_all
      qed
      then show ?thesis unfolding e by (simp add: unsigned_of_int take_bit_int_eq_self del: of_int_diff)
    qed
    finally show ?thesis .
  qed
  have "0 < uint span" using assms(2) by (simp add: word_neq_0_conv [symmetric] unsigned_eq_0_iff order_less_le)
  have s: "?a + span = word_of_int (sint ?a + uint span)" by simp
  show "upper (?a + span) = sint ?a + uint span"
  proof (cases "sint ?a + uint span = 2 ^ 63")
    case True
    then have "?a + span = i64_min" unfolding s by simp
    with True show ?thesis by (simp add: upper_def)
  next
    case False
    with le have lt: "sint ?a + uint span < 2 ^ 63" by simp
    then have si: "sint (?a + span) = sint ?a + uint span"
      using sint_bounds(1) [of ?a] \<open>0 < uint span\<close> unfolding s
      by (simp add: signed_of_int signed_take_bit_int_eq_self del: of_int_add)
    moreover have "?a + span \<noteq> i64_min"
    proof
      assume "?a + span = i64_min"
      then have "sint (?a + span) = - (2 ^ 63)" by simp
      with si sint_bounds(1) [of ?a] \<open>0 < uint span\<close> show False by simp
    qed
    ultimately show ?thesis by (simp add: upper_def)
  qed
  then show "sint ?a < upper (?a + span)" using \<open>0 < uint span\<close> by simp
qed

lemma reverse_span_tracks:
  fixes es :: rift_table and active boundary :: nat
  assumes tr: "tracks es cap st" and room: "rv_count st < cap"
  defines "off \<equiv> re_target (es ! active) - re_source (es ! active)" and "b \<equiv> re_source (es ! boundary)"
  assumes A: "\<And>y. y \<in> arc (rv_cursor st) b \<Longrightarrow> rift_apply es y = y + off"
  shows "\<exists>st'. reverse_span es active boundary st = Inr st' \<and> tracks es cap st'
    \<and> rv_count st' \<le> rv_count st + 1 \<and> covered es st \<subseteq> covered es st'
    \<and> arc (rv_cursor st) (rv_cursor st') \<subseteq> covered es st'"
proof -
  define c where "c = rv_cursor st"
  define span where "span = source_span off b c"
  define a where "a = off + c"
  have fits: "rv_fits cap st" and inv: "inverts (rift_apply es) (rv_live st) (rv_out st)"
    using tr by (auto simp: tracks_def)
  show ?thesis
  proof (cases "span = 0")
    case True
    then have "reverse_span es active boundary st = Inr st"
      by (simp add: reverse_span_def Let_def flip: off_def b_def c_def span_def)
    then show ?thesis using tr by (auto simp: arc_def)
  next
    case False
    have up: "upper (a + span) = sint a + uint span" and ab: "sint a < upper (a + span)"
      using span_positions [of off b c] False by (simp_all add: a_def span_def)
    obtain st1 first past where st1: "cover_span st off a (a + span) = Inr st1" "rv_fits cap st1"
      "rv_count st1 \<le> rv_count st + 1" "rv_cursor st1 = c" and t: "touches a (a + span) first past (rv_live st)"
      and live: "rv_live st1 = take first (rv_live st) @ merged a (a + span) (subrange first past (rv_live st)) # drop past (rv_live st)"
      and out: "rv_out st1 = rv_out st @ map (point off) (simple_adds a (a + span) (subrange first past (rv_live st)))"
      using cover_span_spec [OF fits room, of a off "a + span"] by (auto simp: c_def a_def)
    have pos: "rift_apply es (of_int x - off) = of_int x" if x: "sint a \<le> x" "x < upper (a + span)" for x
    proof -
      define k where "k = x - sint a"
      have k: "0 \<le> k" "k < uint span" using x up by (auto simp: k_def)
      have y: "of_int x = c + of_int k + off" by (simp add: k_def a_def)
      have "k < 2 ^ 64" using k(2) uint_lt2p [of span] by simp
      then have "uint (of_int k :: i64) = k" using k(1) by (simp add: unsigned_of_int take_bit_int_eq_self)
      moreover have "uint span \<le> uint (b - c)" using source_span_le [of off b c] by (simp add: span_def word_le_def)
      ultimately have "uint (c + of_int k - c) < uint (b - c)" using k(2) by simp
      then have "c + of_int k \<in> arc c b" by (simp add: arc_def flip: word_less_nat_alt add: word_less_def)
      then have "rift_apply es (c + of_int k) = c + of_int k + off" by (intro A) (simp add: c_def)
      then show ?thesis unfolding y by simp
    qed
    note I = inverts_span [OF inv t ab pos, folded live out]
    define st' where "st' = st1\<lparr>rv_cursor := c + span\<rparr>"
    have same: "rv_live st' = rv_live st1" "rv_out st' = rv_out st1" "rv_fits cap st' = rv_fits cap st1"
      "rv_count st' = rv_count st1" "rv_cursor st' = c + span"
      by (simp_all add: st'_def rv_live_def rv_fits_def)
    have "reverse_span es active boundary st = Inr st'"
      using False st1(1,4) by (simp add: reverse_span_def Let_def st'_def a_def flip: off_def b_def c_def span_def)
    moreover have "tracks es cap st'" using I(1) st1(2) by (simp add: tracks_def same)
    moreover have "covered es st \<subseteq> covered es st'" using I(2) by (auto simp: covered_def same)
    moreover have "arc c (c + span) \<subseteq> covered es st'"
    proof
      fix y assume y: "y \<in> arc c (c + span)"
      then have lt: "uint (y - c) < uint span"
        by (simp add: arc_def word_less_nat_alt flip: word_less_def)
      have "arc c (c + span) \<subseteq> arc c b"
        using arc_split [of span b c] source_span_le [of off b c] by (auto simp: span_def)
      with y A have "rift_apply es y = y + off" by (auto simp: c_def)
      also have "y + off = word_of_int (sint a + uint (y - c))" by (simp add: a_def)
      finally have ry: "rift_apply es y = word_of_int (sint a + uint (y - c))" .
      have "sint a + uint (y - c) < 2 ^ 63"
        using lt up sint_bounds(2) [of "a + span"] by (auto simp: upper_def split: if_splits)
      moreover have "- (2 ^ 63) \<le> sint a + uint (y - c)" using sint_bounds(1) [of a] by (simp add: add_increasing2)
      ultimately have "sint (rift_apply es y) = sint a + uint (y - c)"
        unfolding ry by (simp add: signed_of_int signed_take_bit_int_eq_self del: of_int_add)
      then have "sint (rift_apply es y) \<in> {sint a..<upper (a + span)}" using lt up by simp
      then show "y \<in> covered es st'" using I(2) by (auto simp: covered_def same)
    qed
    ultimately show ?thesis using st1(3) same c_def by (intro exI [of _ st']) simp
  qed
qed

lemma reverse_segment_tracks:
  fixes es :: rift_table and active boundary :: nat
  assumes tr: "tracks es cap st" and room: "rv_count st + 2 \<le> cap"
  defines "off \<equiv> re_target (es ! active) - re_source (es ! active)" and "b \<equiv> re_source (es ! boundary)"
  assumes A: "\<And>y. y \<in> arc (rv_cursor st) b \<Longrightarrow> rift_apply es y = y + off"
  shows "\<exists>st'. reverse_segment es active boundary st = Inr st' \<and> tracks es cap st'
    \<and> rv_count st' \<le> rv_count st + 2 \<and> rv_cursor st' = b \<and> covered es st \<subseteq> covered es st'
    \<and> arc (rv_cursor st) b \<subseteq> covered es st'"
proof -
  obtain st1 where s1: "reverse_span es active boundary st = Inr st1" "tracks es cap st1"
    "rv_count st1 \<le> rv_count st + 1" "covered es st \<subseteq> covered es st1"
    "arc (rv_cursor st) (rv_cursor st1) \<subseteq> covered es st1"
    using reverse_span_tracks [OF tr, of boundary active] room A by (auto simp: off_def b_def)
  note c1 = reverse_span_cursor [OF s1(1), folded off_def b_def]
  show ?thesis
  proof (cases "rv_cursor st1 = b")
    case True
    then have "reverse_segment es active boundary st = Inr st1"
      using s1(1) by (subst reverse_segment.simps) (simp add: b_def)
    with s1 True show ?thesis by (intro exI [of _ st1]) simp
  next
    case False
    define s where "s = source_span off b (rv_cursor st)"
    have split: "arc (rv_cursor st) b = arc (rv_cursor st) (rv_cursor st1) \<union> arc (rv_cursor st1) b"
      unfolding c1 by (rule arc_split [OF source_span_le])
    have "source_span off b (rv_cursor st) \<noteq> b - rv_cursor st" using c1 False by auto
    from source_span_clamped(1) [OF this] have at: "off + rv_cursor st1 = i64_min" by (simp add: c1)
    obtain st2 where s2: "reverse_span es active boundary st1 = Inr st2" "tracks es cap st2"
      "rv_count st2 \<le> rv_count st1 + 1" "covered es st1 \<subseteq> covered es st2"
      "arc (rv_cursor st1) (rv_cursor st2) \<subseteq> covered es st2"
      using reverse_span_tracks [OF s1(2), of boundary active] room A s1(3) split by (auto simp: off_def b_def)
    have c2: "rv_cursor st2 = b"
      using reverse_span_cursor [OF s2(1), folded off_def b_def] source_span_at_min [OF at] by simp
    have "reverse_segment es active boundary st1 = Inr st2"
      using s2(1) c2 by (subst reverse_segment.simps) (simp add: b_def)
    then have "reverse_segment es active boundary st = Inr st2"
      using s1(1) False by (subst reverse_segment.simps) (simp add: b_def)
    moreover have "arc (rv_cursor st) b \<subseteq> covered es st2"
      unfolding split using s1(5) s2(4,5) c2 by blast
    ultimately show ?thesis using s2 s1(3,4) c2 by (intro exI [of _ st2]) auto
  qed
qed

definition segment_arc :: "rift_table \<Rightarrow> nat \<Rightarrow> i64 set" where
  "segment_arc es k = arc (re_source (es ! k)) (re_source (es ! next_segment es k))"

definition segments_from :: "rift_table \<Rightarrow> nat \<Rightarrow> nat \<Rightarrow> nat set" where
  "segments_from es stop k = (if k \<le> stop then {k..<stop} else {k..<length es} \<union> {..<stop})"

lemma unat_diff_sint:
  "int (unat (y - c :: i64)) = (if sint c \<le> sint y then sint y - sint c else sint y - sint c + 2 ^ 64)"
proof (cases "sint c \<le> sint y")
  case True
  then show ?thesis using uint_diff_sint [OF True] by simp
next
  case False
  have eq: "y - c = word_of_int (sint y - sint c + 2 ^ 64)" by simp
  have "uint (y - c) = take_bit LENGTH(64) (sint y - sint c + 2 ^ 64)"
    by (subst eq) (rule uint_word_of_int_eq)
  also have "\<dots> = sint y - sint c + 2 ^ 64"
    using False sint_bounds [of c] sint_bounds [of y] by (intro take_bit_int_eq_self) auto
  finally show ?thesis using False by simp
qed

lemma segment_arc_iff:
  assumes s: "strict_sorted es" and n: "2 \<le> length es" and k: "k < length es"
  shows "y \<in> segment_arc es k \<longleftrightarrow> (if k + 1 < length es then src (es ! k) \<le> sint y \<and> sint y < src (es ! (k + 1))
    else src (es ! k) \<le> sint y \<or> sint y < src (es ! 0))"
proof -
  have lt: "src (es ! i) < src (es ! j)" if "i < j" "j < length es" for i j
    using s that by (auto simp: sorted_wrt_iff_nth_less)
  have "y \<in> arc c b \<longleftrightarrow> (if sint c \<le> sint b then sint c \<le> sint y \<and> sint y < sint b
      else sint c \<le> sint y \<or> sint y < sint b)" if "sint c \<noteq> sint b" for c b
    using unat_diff_sint [of y c] unat_diff_sint [of b c] sint_bounds [of y] sint_bounds [of b] sint_bounds [of c] that
    unfolding arc_def by (auto simp: of_nat_less_iff [where 'a = int, symmetric] simp del: of_nat_less_iff)
  note A = this
  show ?thesis
  proof (cases "k + 1 < length es")
    case True
    with lt [of k "k + 1"] show ?thesis
      unfolding segment_arc_def next_segment_def by (simp add: A)
  next
    case False
    with k n lt [of 0 k] show ?thesis
      unfolding segment_arc_def next_segment_def by (simp add: A)
  qed
qed

lemma segment_arc_offset:
  assumes s: "strict_sorted es" and n: "2 \<le> length es" and k: "k < length es" and y: "y \<in> segment_arc es k"
  shows "rift_apply es y = y + (re_target (es ! k) - re_source (es ! k))"
proof -
  have le: "src (es ! i) \<le> src (es ! j)" if "i \<le> j" "j < length es" for i j
    using sorted_nth_mono [OF strict_sorted_sorted [OF s], of i j] that by simp
  have "rift_off es y = rift_entry_offset (es ! k)"
  proof (cases "k + 1 < length es")
    case True
    then have "covers es y k"
      using y k le [of "k + 1"] unfolding segment_arc_iff [OF s n k] covers_def
      by (auto simp: Suc_le_eq intro: less_le_trans)
    then show ?thesis by (rule rift_off_covers [OF strict_sorted_sorted [OF s]])
  next
    case False
    then have l: "k = length es - 1" "es \<noteq> []" using k by auto
    show ?thesis
    proof (cases "src (es ! k) \<le> sint y")
      case True
      then have "covers es y k" using k l by (auto simp: covers_def)
      then show ?thesis by (rule rift_off_covers [OF strict_sorted_sorted [OF s]])
    next
      case f: False
      then have "sint y < src (es ! 0)" using y False unfolding segment_arc_iff [OF s n k] by simp
      from rift_off_before [OF l(2) this] show ?thesis using l by (simp add: last_conv_nth)
    qed
  qed
  then show ?thesis by (simp add: rift_apply_def rift_entry_offset_def)
qed

lemma segment_arcs_cover:
  assumes s: "strict_sorted es" and n: "2 \<le> length es"
  shows "\<exists>k < length es. y \<in> segment_arc es k"
proof (cases "sint y < src (es ! 0)")
  case True
  have "length es - 1 < length es" using n by simp
  with True n show ?thesis by (intro exI [of _ "length es - 1"]) (simp add: segment_arc_iff [OF s n])
next
  case False
  then have ge: "src (es ! 0) \<le> sint y" by simp
  have ne: "es \<noteq> []" using n by auto
  obtain i where "covers es y i" by (rule covers_ex [OF strict_sorted_sorted [OF s] ne ge])
  then show ?thesis by (intro exI [of _ i]) (auto simp: covers_def segment_arc_iff [OF s n])
qed

lemma reverse_segments_tracks:
  assumes s: "strict_sorted es" and n: "2 \<le> length es" and stop: "stop < length es"
  shows "tracks es cap st \<Longrightarrow> active < length es \<Longrightarrow> boundary = next_segment es active \<Longrightarrow>
    rv_cursor st = re_source (es ! active) \<Longrightarrow>
    rv_count st + 2 * segments_left es stop boundary \<le> cap \<Longrightarrow>
    \<exists>st'. reverse_segments es stop active boundary st = Some (Inr st') \<and> tracks es cap st'
      \<and> covered es st \<subseteq> covered es st'
      \<and> (\<forall>k \<in> insert active (segments_from es stop boundary). segment_arc es k \<subseteq> covered es st')"
proof (induction "segments_left es stop boundary" arbitrary: active boundary st)
  case 0
  then show ?case by (simp add: segments_left_def split: if_splits)
next
  case (Suc m)
  have b: "boundary < length es" using Suc.prems(3) n by (auto simp: next_segment_def)
  have room: "rv_count st + 2 \<le> cap" using Suc.prems(5) Suc.hyps(2) by linarith
  obtain st1 where s1: "reverse_segment es active boundary st = Inr st1" "tracks es cap st1"
    "rv_count st1 \<le> rv_count st + 2" "rv_cursor st1 = re_source (es ! boundary)"
    "covered es st \<subseteq> covered es st1" "segment_arc es active \<subseteq> covered es st1"
    using reverse_segment_tracks [OF Suc.prems(1) room, of boundary active]
      segment_arc_offset [OF s n Suc.prems(2)] Suc.prems(3,4) by (auto simp: segment_arc_def)
  show ?case
  proof (cases "stop = boundary")
    case True
    then have "reverse_segments es stop active boundary st = Some (Inr st1)"
      using s1(1) by (subst reverse_segments.simps) simp
    with s1 True show ?thesis by (auto simp: segments_from_def)
  next
    case False
    note nx = segments_left_next [OF b stop False [symmetric]]
    have eq: "reverse_segments es stop active boundary st = reverse_segments es stop boundary (next_segment es boundary) st1"
      using s1(1) False by (subst reverse_segments.simps) (simp add: next_segment_def)
    obtain st2 where s2: "reverse_segments es stop boundary (next_segment es boundary) st1 = Some (Inr st2)"
      "tracks es cap st2" "covered es st1 \<subseteq> covered es st2"
      "\<forall>k \<in> insert boundary (segments_from es stop (next_segment es boundary)). segment_arc es k \<subseteq> covered es st2"
      using Suc(1) [OF _ s1(2) b refl s1(4)] nx Suc.hyps(2) Suc.prems(5) s1(3) by auto
    have "insert active (segments_from es stop boundary)
        \<subseteq> insert active (insert boundary (segments_from es stop (next_segment es boundary)))"
      using b stop False by (auto simp: segments_from_def next_segment_def)
    moreover have "segment_arc es active \<subseteq> covered es st2" using s1(6) s2(3) by blast
    ultimately have "\<forall>k \<in> insert active (segments_from es stop boundary). segment_arc es k \<subseteq> covered es st2"
      using s2(4) by blast
    moreover have "covered es st \<subseteq> covered es st2" using s1(5) s2(3) by blast
    ultimately show ?thesis unfolding eq using s2(1,2) by (intro exI [of _ st2]) simp
  qed
qed

lemma stop_at_zero:
  assumes s: "strict_sorted es" and z: "\<exists>e \<in> set es. re_source e = 0"
  shows "re_source (es ! stop_segment es) = 0"
proof -
  have lt: "src (es ! i) < src (es ! j)" if "i < j" "j < length es" for i j
    using s that by (auto simp: sorted_wrt_iff_nth_less)
  obtain z where z: "z < length es" "re_source (es ! z) = 0" using z by (auto simp: in_set_conv_nth)
  define f where "f = first_positive es 0"
  note F = first_positive_spec [of 0 es, folded f_def]
  have "z < f"
  proof (rule ccontr)
    assume "\<not> z < f"
    then have "0 < src (es ! f)" "src (es ! f) \<le> src (es ! z)" using F z(1) lt [of f z] by (cases "f = z"; simp)+
    with z(2) show False by simp
  qed
  then have f: "stop_segment es = f - 1" "f - 1 < length es" "z \<le> f - 1"
    using F by (simp_all add: stop_segment_def Let_def flip: f_def) auto
  then have "src (es ! (f - 1)) \<le> 0" using F \<open>z < f\<close> by simp
  with lt [of z "f - 1"] f z(2) have "z = f - 1" by (cases "z = f - 1") auto
  with z(2) f(1) show ?thesis by simp
qed

lemma reverse_walk_inverts:
  assumes s: "strict_sorted es" and n: "2 \<le> length es" and z: "\<exists>e \<in> set es. re_source e = 0"
    and w: "reverse_walk es = Some (Inr st)"
  shows "inverts (rift_apply es) (rv_live st) (rv_out st)" "sint (rift_apply es y) \<in> cov (rv_live st)"
proof -
  have ne: "es \<noteq> []" using n by auto
  let ?stop = "stop_segment es"
  note stop = stop_at_zero [OF s z]
  have sl: "?stop < length es" by (rule stop_segment_less [OF ne])
  have tr: "tracks es (2 * length es) (reverse_start es)"
    by (simp add: tracks_def reverse_start_def rv_fits_def rv_live_def live_def inverts_def apart_def cov_def)
  have room: "rv_count (reverse_start es) + 2 * segments_left es ?stop (next_segment es ?stop) \<le> 2 * length es"
    using sl by (auto simp: reverse_start_def segments_left_def next_segment_def)
  have "rv_cursor (reverse_start es) = re_source (es ! ?stop)" by (simp add: reverse_start_def stop)
  from reverse_segments_tracks [OF s n sl tr sl refl this room] w reverse_walk_eq [OF ne]
  have T: "tracks es (2 * length es) st"
    "\<forall>k \<in> insert ?stop (segments_from es ?stop (next_segment es ?stop)). segment_arc es k \<subseteq> covered es st" by auto
  show "inverts (rift_apply es) (rv_live st) (rv_out st)" using T(1) by (simp add: tracks_def)
  obtain k where k: "k < length es" "y \<in> segment_arc es k" using segment_arcs_cover [OF s n] by blast
  have "k \<in> insert ?stop (segments_from es ?stop (next_segment es ?stop))"
    using k(1) sl by (auto simp: segments_from_def next_segment_def)
  with T(2) k(2) have "y \<in> covered es st" by blast
  then show "sint (rift_apply es y) \<in> cov (rv_live st)" by (simp add: covered_def)
qed

lemma dedup_same_source_sources:
  "src ` set (dedup_same_source es) = src ` set es"
proof -
  have "re_source ` set (foldl dedup_same_source_step kept xs) = re_source ` set kept \<union> re_source ` set xs" for kept xs
  proof (induction xs arbitrary: kept)
    case (Cons x xs)
    have "re_source ` set (dedup_same_source_step kept x) = insert (re_source x) (re_source ` set kept)"
      by (cases kept rule: rev_cases) (auto simp: dedup_same_source_step_def)
    with Cons show ?case by auto
  qed simp
  then have "re_source ` set (dedup_same_source es) = re_source ` set es" by (simp add: dedup_same_source_def)
  then show ?thesis by (metis image_image)
qed

text \<open>
  What the walk writes down: sources of entries and ends of intervals are images of segment ends
  or the end of the address space, and the first entry is not at \<open>i64::MIN\<close>.
\<close>

definition bounded_walk :: "i64 set \<Rightarrow> reverse_state \<Rightarrow> bool" where
  "bounded_walk G st \<longleftrightarrow> re_source ` set (rv_out st) \<subseteq> G \<and> snd ` set (rv_live st) \<subseteq> G
     \<and> (rv_live st \<noteq> [] \<longrightarrow> (\<exists>e \<in> set (rv_out st). re_source e \<noteq> i64_min))"

lemma cover_span_bounded:
  assumes fits: "rv_fits cap st" "rv_count st < cap" "rv_cursor st = a - off"
    and b: "bounded_walk G st" and ab: "a \<in> G" "e \<in> G" "rv_live st = [] \<longrightarrow> a \<noteq> i64_min"
    and c: "cover_span st off a e = Inr st'"
  shows "bounded_walk G st' \<and> rv_live st' \<noteq> []"
proof -
  let ?L = "rv_live st"
  obtain first past where st': "touches a e first past ?L"
    "rv_live st' = take first ?L @ merged a e (subrange first past ?L) # drop past ?L"
    "rv_out st' = rv_out st @ map (point off) (simple_adds a e (subrange first past ?L))"
    using cover_span_spec [OF fits, of e] c by auto
  let ?mid = "subrange first past ?L"
  have mid: "set ?mid \<subseteq> set ?L" by (auto simp: subrange_def dest: in_set_takeD in_set_dropD)
  have L: "snd ` set ?L \<subseteq> G" using b by (simp add: bounded_walk_def)
  have midG: "snd i \<in> G" if "i \<in> set ?mid" for i using that mid L by blast
  have lastG: "?mid = [] \<or> snd (last ?mid) \<in> G" using midG last_in_set by blast
  then have m: "snd (merged a e ?mid) \<in> G" using ab(2) by (auto simp: merged_def simp del: length_subrange)
  have adds: "set (simple_adds a e ?mid) \<subseteq> G"
    using ab(1) midG lastG by (auto simp: simple_adds_def simp del: length_subrange dest: in_set_butlastD)
  have out: "\<exists>x \<in> set (rv_out st'). re_source x \<noteq> i64_min"
  proof (cases "?L = []")
    case True
    then have "simple_adds a e ?mid = [a]" by (simp add: simple_adds_def subrange_def)
    then show ?thesis using ab(3) True st'(3) by (simp add: point_def)
  next
    case False
    then show ?thesis using b st'(3) by (auto simp: bounded_walk_def)
  qed
  have "snd ` set (rv_live st') \<subseteq> G"
    unfolding st'(2) using L m by (auto dest!: in_set_takeD in_set_dropD)
  moreover have "re_source ` set (rv_out st') \<subseteq> G"
    unfolding st'(3) using b adds by (auto simp: bounded_walk_def point_def)
  ultimately show ?thesis using out st'(2) by (simp add: bounded_walk_def)
qed

lemma reverse_span_bounded:
  fixes es :: rift_table and active boundary :: nat
  defines "off \<equiv> re_target (es ! active) - re_source (es ! active)" and "b \<equiv> re_source (es ! boundary)"
  assumes fits: "rv_fits cap st" "rv_count st < cap" and bw: "bounded_walk G st"
    and start: "off + rv_cursor st \<in> G" "rv_live st = [] \<longrightarrow> off + rv_cursor st \<noteq> i64_min"
    and ends: "i64_min \<in> G" "off + b \<in> G"
    and sp: "reverse_span es active boundary st = Inr st'"
  shows "bounded_walk G st' \<and> (rv_cursor st' \<noteq> b \<longrightarrow> rv_live st' \<noteq> [])"
proof -
  define s where "s = source_span off b (rv_cursor st)"
  note c = reverse_span_cursor [OF sp, folded off_def b_def s_def]
  show ?thesis
  proof (cases "s = 0")
    case True
    then have "st' = st" "b = rv_cursor st"
      using sp source_span_zero [of off b "rv_cursor st"]
      by (auto simp: reverse_span_def Let_def s_def off_def b_def)
    with bw show ?thesis by simp
  next
    case False
    then obtain st1 where st1: "cover_span st off (off + rv_cursor st) (off + rv_cursor st + s) = Inr st1"
      "st' = st1\<lparr>rv_cursor := rv_cursor st1 + s\<rparr>"
      using sp cover_span_cursor by (auto simp: reverse_span_def Let_def s_def off_def b_def)
    have "off + rv_cursor st + s \<in> G"
    proof (cases "s = b - rv_cursor st")
      case True
      with ends(2) show ?thesis by simp
    next
      case False
      then show ?thesis using source_span_clamped(1) [of off b "rv_cursor st"] ends(1)
        by (simp add: s_def add.assoc)
    qed
    from cover_span_bounded [OF fits _ bw start(1) this start(2) st1(1)]
    have "bounded_walk G st1 \<and> rv_live st1 \<noteq> []" by simp
    then show ?thesis by (simp add: st1(2) bounded_walk_def rv_live_def)
  qed
qed

lemma reverse_segment_bounded:
  fixes es :: rift_table and active boundary :: nat
  defines "off \<equiv> re_target (es ! active) - re_source (es ! active)" and "b \<equiv> re_source (es ! boundary)"
  assumes fits: "rv_fits cap st" "rv_count st + 2 \<le> cap" and bw: "bounded_walk G st"
    and start: "off + rv_cursor st \<in> G" "off + rv_cursor st \<noteq> i64_min"
    and ends: "i64_min \<in> G" "off + b \<in> G"
    and sg: "reverse_segment es active boundary st = Inr st'"
  shows "bounded_walk G st'"
proof -
  obtain st1 where s1: "reverse_span es active boundary st = Inr st1" "rv_fits cap st1" "rv_count st1 \<le> rv_count st + 1"
    using reverse_span_total [OF fits(1), of es active boundary] fits(2) by auto
  note c1 = reverse_span_cursor [OF s1(1), folded off_def b_def]
  have b1: "bounded_walk G st1 \<and> (rv_cursor st1 \<noteq> b \<longrightarrow> rv_live st1 \<noteq> [])"
    using reverse_span_bounded [OF fits(1) _ bw _ _ ends(1) _ s1(1)] fits(2) start ends(2)
    by (simp add: off_def b_def)
  show ?thesis
  proof (cases "rv_cursor st1 = b")
    case True
    then have "st' = st1" using sg s1(1) by (subst (asm) reverse_segment.simps) (simp add: b_def)
    with b1 show ?thesis by simp
  next
    case False
    then have "source_span off b (rv_cursor st) \<noteq> b - rv_cursor st" using c1 by auto
    from source_span_clamped(1) [OF this] have at: "off + rv_cursor st1 = i64_min" by (simp add: c1)
    obtain st2 where s2: "reverse_span es active boundary st1 = Inr st2"
      using reverse_span_total [OF s1(2), of es active boundary] fits(2) s1(3) by auto
    have "rv_cursor st2 = b"
      using reverse_span_cursor [OF s2, folded off_def b_def] source_span_at_min [OF at] by simp
    then have "st' = st2"
      using sg s1(1) s2 False
      by (subst (asm) reverse_segment.simps, simp add: b_def) (subst (asm) reverse_segment.simps, simp)
    moreover have "bounded_walk G st2"
      using reverse_span_bounded [OF s1(2) _ _ _ _ ends(1) _ s2] b1 False at ends s1(3) fits(2)
      by (simp add: off_def b_def)
    ultimately show ?thesis by simp
  qed
qed

lemma reverse_segments_bounded:
  assumes n: "2 \<le> length es" and stop: "stop < length es"
    and G: "i64_min \<in> G" "\<And>k. k < length es \<Longrightarrow> re_target (es ! k) \<in> G \<and> re_target (es ! k) \<noteq> i64_min"
      "\<And>k. k < length es \<Longrightarrow> re_target (es ! k) - re_source (es ! k) + re_source (es ! next_segment es k) \<in> G"
  shows "rv_fits cap st \<Longrightarrow> bounded_walk G st \<Longrightarrow> active < length es \<Longrightarrow> boundary = next_segment es active \<Longrightarrow>
    rv_cursor st = re_source (es ! active) \<Longrightarrow>
    rv_count st + 2 * segments_left es stop boundary \<le> cap \<Longrightarrow>
    reverse_segments es stop active boundary st = Some (Inr st') \<Longrightarrow> bounded_walk G st'"
proof (induction "segments_left es stop boundary" arbitrary: active boundary st)
  case 0
  then show ?case by (simp add: segments_left_def split: if_splits)
next
  case (Suc m)
  have b: "boundary < length es" using Suc.prems(3,4) n by (auto simp: next_segment_def)
  have room: "rv_count st + 2 \<le> cap" using Suc.prems(6) Suc.hyps(2) by linarith
  obtain st1 where s1: "reverse_segment es active boundary st = Inr st1" "rv_fits cap st1"
    "rv_count st1 \<le> rv_count st + 2" "rv_cursor st1 = re_source (es ! boundary)"
    using reverse_segment_total [OF Suc.prems(1) room, of es active boundary] by auto
  have b1: "bounded_walk G st1"
    using reverse_segment_bounded [OF Suc.prems(1) room Suc.prems(2) _ _ G(1) _ s1(1)]
      G(2,3) [OF Suc.prems(3)] Suc.prems(4,5) by simp
  show ?case
  proof (cases "stop = boundary")
    case True
    then have "st' = st1" using s1(1) Suc.prems(7) by (subst (asm) reverse_segments.simps) simp
    with b1 show ?thesis by simp
  next
    case False
    note nx = segments_left_next [OF b stop False [symmetric]]
    have eq: "reverse_segments es stop boundary (next_segment es boundary) st1 = Some (Inr st')"
      using s1(1) False Suc.prems(7) by (subst (asm) reverse_segments.simps) (simp add: next_segment_def)
    show ?thesis
      by (rule Suc(1) [OF _ s1(2) b1 b refl s1(4) _ eq]) (use nx Suc.hyps(2) Suc.prems(6) s1(3) in auto)
  qed
qed

section \<open>Tables of file positions\<close>

text \<open>Positions of files are far from the ends of the address space.\<close>

definition modest :: "rift_table \<Rightarrow> bool" where
  "modest es \<longleftrightarrow> (\<forall>e \<in> set es. \<bar>src e\<bar> < 2 ^ 60 \<and> \<bar>sint (re_target e)\<bar> < 2 ^ 60)"

lemma sint_of_small: "\<bar>v\<bar> < 2 ^ 63 \<Longrightarrow> sint (word_of_int v :: i64) = v"
  by (simp add: signed_of_int signed_take_bit_int_eq_self)

lemma modest_nth: "modest es \<Longrightarrow> k < length es \<Longrightarrow> \<bar>src (es ! k)\<bar> < 2 ^ 60 \<and> \<bar>sint (re_target (es ! k))\<bar> < 2 ^ 60"
  by (simp add: modest_def)

lemma sint_sum3:
  fixes x t c :: i64
  assumes "\<bar>sint x\<bar> < 2 ^ 60" "\<bar>sint t\<bar> < 2 ^ 60" "\<bar>sint c\<bar> < 2 ^ 60"
  shows "\<bar>sint (x + (t - c))\<bar> < 2 ^ 62"
proof -
  have "x + (t - c) = word_of_int (sint x + (sint t - sint c))" by simp
  then have "sint (x + (t - c)) = sint x + (sint t - sint c)"
    using assms by (simp only:) (rule sint_of_small, simp)
  then show ?thesis using assms by simp
qed

definition last_offset :: "rift_table \<Rightarrow> i64" where
  "last_offset es = re_target (es ! (length es - 1)) - re_source (es ! (length es - 1))"

lemma sint_last_offset:
  assumes "modest es" "es \<noteq> []"
  shows "\<bar>sint (last_offset es)\<bar> < 2 ^ 61"
proof -
  let ?e = "es ! (length es - 1)"
  have m: "\<bar>src ?e\<bar> < 2 ^ 60" "\<bar>sint (re_target ?e)\<bar> < 2 ^ 60"
    using modest_nth [OF assms(1), of "length es - 1"] assms(2) by simp_all
  have "last_offset es = word_of_int (sint (re_target ?e) - src ?e)" by (simp add: last_offset_def)
  then have "sint (last_offset es) = sint (re_target ?e) - src ?e"
    using m by (simp only:) (rule sint_of_small, simp)
  then show ?thesis using m by simp
qed

text \<open>Only the last segment, which goes around, reaches the ends of the address space.\<close>

lemma extreme_by_last:
  assumes s: "strict_sorted es" and n: "2 \<le> length es" and m: "modest es"
    and z: "2 ^ 62 \<le> \<bar>sint z\<bar>" and y: "rift_apply es y = z"
  shows "z = y + last_offset es"
proof -
  obtain k where k: "k < length es" "y \<in> segment_arc es k" using segment_arcs_cover [OF s n] by blast
  note off = segment_arc_offset [OF s n k]
  show ?thesis
  proof (cases "k + 1 < length es")
    case True
    then have "\<bar>sint y\<bar> < 2 ^ 60"
      using k(2) modest_nth [OF m k(1)] modest_nth [OF m True] unfolding segment_arc_iff [OF s n k(1)] by auto
    then have "\<bar>sint (rift_apply es y)\<bar> < 2 ^ 62"
      unfolding off using modest_nth [OF m k(1)] by (intro sint_sum3) simp_all
    with z y show ?thesis by simp
  next
    case False
    then have "k = length es - 1" using k(1) by simp
    with off y show ?thesis by (simp add: last_offset_def)
  qed
qed

lemma reaches_top:
  assumes s: "strict_sorted es" and n: "2 \<le> length es" and m: "modest es"
  shows "\<exists>y. rift_apply es y = word_of_int (2 ^ 63 - 1)"
proof -
  have ne: "es \<noteq> []" and l: "length es - 1 < length es" using n by auto
  define v where "v = sint (last_offset es)"
  define y where "y = word_of_int (2 ^ 63 - 1) - last_offset es"
  have v: "\<bar>v\<bar> < 2 ^ 61" unfolding v_def by (rule sint_last_offset [OF m ne])
  have y1: "y = word_of_int (2 ^ 63 - 1 - v)" and y2: "y = word_of_int (2 ^ 63 - 1 - v - 2 ^ 64)"
    by (simp_all add: y_def v_def)
  have sw: "y = word_of_int w \<Longrightarrow> - (2 ^ 63) \<le> w \<Longrightarrow> w < 2 ^ 63 \<Longrightarrow> sint y = w" for w :: int
    by (simp add: signed_of_int signed_take_bit_int_eq_self del: of_int_diff)
  have "sint y = (if 0 \<le> v then 2 ^ 63 - 1 - v else - (2 ^ 63) - 1 - v)"
    using sw [OF y1] sw [OF y2] v by (cases "0 \<le> v") simp_all
  then have "y \<in> segment_arc es (length es - 1)"
    using v modest_nth [OF m l] modest_nth [OF m, of 0] ne
    unfolding segment_arc_iff [OF s n l] by (auto split: if_splits)
  from segment_arc_offset [OF s n l this] show ?thesis
    by (intro exI [of _ y]) (simp add: y_def last_offset_def)
qed

lemma reverse_walk_bounded:
  assumes s: "strict_sorted es" and n: "2 \<le> length es" and z: "\<exists>e \<in> set es. re_source e = 0"
    and m: "modest es" and w: "reverse_walk es = Some (Inr st)"
  shows "bounded_walk {p. p = i64_min \<or> \<bar>sint p\<bar> < 2 ^ 62} st"
proof -
  have ne: "es \<noteq> []" using n by auto
  let ?stop = "stop_segment es" and ?G = "{p :: i64. p = i64_min \<or> \<bar>sint p\<bar> < 2 ^ 62}"
  have sl: "?stop < length es" by (rule stop_segment_less [OF ne])
  have G: "re_target (es ! k) \<in> ?G \<and> re_target (es ! k) \<noteq> i64_min"
    "re_target (es ! k) - re_source (es ! k) + re_source (es ! next_segment es k) \<in> ?G" if k: "k < length es" for k
  proof -
    show "re_target (es ! k) \<in> ?G \<and> re_target (es ! k) \<noteq> i64_min" using modest_nth [OF m k] by auto
    have "next_segment es k < length es" using n ne by (simp add: next_segment_def)
    from modest_nth [OF m this] modest_nth [OF m k]
    show "re_target (es ! k) - re_source (es ! k) + re_source (es ! next_segment es k) \<in> ?G"
      using sint_sum3 [of "re_source (es ! next_segment es k)" "re_target (es ! k)" "re_source (es ! k)"]
      by (simp add: add.commute)
  qed
  have room: "rv_count (reverse_start es) + 2 * segments_left es ?stop (next_segment es ?stop) \<le> 2 * length es"
    using sl by (auto simp: reverse_start_def segments_left_def next_segment_def)
  show ?thesis
    by (rule reverse_segments_bounded [OF n sl _ G _ _ sl refl _ room])
      (use w reverse_walk_eq [OF ne] stop_at_zero [OF s z] in
        \<open>simp_all add: bounded_walk_def reverse_start_def rv_fits_def rv_live_def live_def\<close>)
qed

section \<open>The inverse\<close>

text \<open>The entries that stay: those of the walk whose source is not \<open>i64::MIN\<close>.\<close>

lemma reversed_entries:
  assumes s: "strict_sorted es" and n: "2 \<le> length es" and z: "\<exists>e \<in> set es. re_source e = 0"
    and m: "modest es" and w: "reverse_walk es = Some (Inr st)"
  shows "\<exists>r. rift_reverse es = Some (Inr r) \<and> strict_sorted r \<and> r \<noteq> [] \<and> set r \<subseteq> set (rv_out st)
    \<and> (\<forall>e \<in> set (rv_out st). re_source e \<noteq> i64_min \<longrightarrow> src e \<in> src ` set r)"
proof -
  let ?out = "rv_out st"
  let ?kept = "filter (\<lambda>e. re_source e \<noteq> i64_min \<and> re_target e \<noteq> i64_min) (rift_sort ?out)"
  have ne: "es \<noteq> []" and l: "length es - 1 < length es" using n by auto
  have inv: "inverts (rift_apply es) (rv_live st) ?out" and full: "sint (rift_apply es 0) \<in> cov (rv_live st)"
    using reverse_walk_inverts [OF s n z w] by auto
  note bw = reverse_walk_bounded [OF s n z m w]
  have min_only: "re_source e = i64_min" if e: "e \<in> set ?out" and t: "re_target e = i64_min" for e
  proof -
    have "best_entry ?out (src e) e" using e by (simp add: best_entry_def)
    then have "rift_apply es (re_target e + of_int (src e - src e)) = of_int (src e)"
      using inv e unfolding inverts_def by blast
    then have at: "rift_apply es i64_min = re_source e" by (simp add: t)
    have "sint i64_min < src (es ! 0)" using modest_nth [OF m, of 0] ne by (auto simp: abs_less_iff)
    then have "i64_min \<in> segment_arc es (length es - 1)" using n unfolding segment_arc_iff [OF s n l] by auto
    from segment_arc_offset [OF s n l this] at have eq: "re_source e = i64_min + last_offset es"
      by (simp add: last_offset_def)
    show ?thesis
    proof (rule ccontr)
      assume no: "re_source e \<noteq> i64_min"
      then have b: "\<bar>src e\<bar> < 2 ^ 62" using bw e unfolding bounded_walk_def by blast
      define v where "v = sint (last_offset es)"
      have v: "\<bar>v\<bar> < 2 ^ 61" unfolding v_def by (rule sint_last_offset [OF m ne])
      have v1: "re_source e = word_of_int (- (2 ^ 63) + v)" and v2: "re_source e = word_of_int (2 ^ 63 + v)"
        by (simp_all add: eq v_def)
      have sw: "re_source e = word_of_int q \<Longrightarrow> - (2 ^ 63) \<le> q \<Longrightarrow> q < 2 ^ 63 \<Longrightarrow> src e = q" for q :: int
        by (simp add: signed_of_int signed_take_bit_int_eq_self del: of_int_diff of_int_add)
      show False using sw [OF v1] sw [OF v2] v b by (cases "0 \<le> v") simp_all
    qed
  qed
  have "src (es ! 0) < src (es ! 1)" using s n by (auto simp: sorted_wrt_iff_nth_less)
  moreover have "es ! 1 \<in> set es" using n by (intro nth_mem) simp
  ultimately have "\<not> (\<forall>e \<in> set es. re_source e = re_source (es ! 0))" by (metis less_irrefl)
  then have r: "rift_reverse es = Some (Inr (dedup_same_source ?kept))"
    unfolding rift_reverse_def w by (simp only: ne if_False option.map rbind_Inr)
  have "rift_sorted ?kept" by (simp add: rift_sort_def sorted_filter)
  note D = dedup_same_source_strict [OF this]
  have kept: "src e \<in> src ` set (dedup_same_source ?kept)" if "e \<in> set ?out" "re_source e \<noteq> i64_min" for e
  proof -
    have "e \<in> set ?kept" using that min_only by (auto simp: rift_sort_def)
    then show ?thesis unfolding dedup_same_source_sources by (rule imageI)
  qed
  have "rv_live st \<noteq> []" using full by (auto simp: cov_def)
  then obtain e0 where "e0 \<in> set ?out" "re_source e0 \<noteq> i64_min" using bw by (auto simp: bounded_walk_def)
  then have "dedup_same_source ?kept \<noteq> []" using kept by fastforce
  moreover have "set (dedup_same_source ?kept) \<subseteq> set ?out" using D by (auto simp: rift_sort_def)
  ultimately show ?thesis using r D kept by blast
qed

text \<open>
  C24. \<open>RiftTable::reverse\<close> inverts: for a strictly increasing table of two or more entries, one of
  them at source 0, whose sources and targets are file positions (below \<open>2 ^ 60\<close> in absolute value),
  the call returns a table that is a right inverse everywhere on the image: whatever overlaps and
  gaps the segments have there, every position that the table reaches, also those before the
  first entry of the result, is mapped back to a position that the table maps to it.
\<close>

theorem reverse_right_inverse:
  assumes s: "strict_sorted es" and n: "2 \<le> length es" and z: "\<exists>e \<in> set es. re_source e = 0"
    and m: "modest es"
  shows "\<exists>r. rift_reverse es = Some (Inr r) \<and> (\<forall>x \<in> range (rift_apply es). rift_apply es (rift_apply r x) = x)"
proof -
  have ne: "es \<noteq> []" using n by auto
  obtain st where w: "reverse_walk es = Some (Inr st)" using reverse_walk_total [OF ne] by blast
  let ?out = "rv_out st"
  obtain r where r: "rift_reverse es = Some (Inr r)" "strict_sorted r" "r \<noteq> []" "set r \<subseteq> set ?out"
    and kept: "\<And>e. e \<in> set ?out \<Longrightarrow> re_source e \<noteq> i64_min \<Longrightarrow> src e \<in> src ` set r"
    using reversed_entries [OF s n z m w] by blast
  note sr = strict_sorted_sorted [OF r(2)]
  have inv: "best_entry ?out (sint x) e \<Longrightarrow> sint x \<in> cov (rv_live st) \<Longrightarrow>
      rift_apply es (re_target e + of_int (sint x - src e)) = x" for x e
    using reverse_walk_inverts(1) [OF s n z w] by (auto simp: inverts_def)
  have full: "x \<in> range (rift_apply es) \<Longrightarrow> sint x \<in> cov (rv_live st)" for x
    using reverse_walk_inverts(2) [OF s n z w] by auto
  have best: "best_entry ?out (sint x) e"
    if e: "e \<in> set ?out" "src e \<le> sint x" and top: "\<forall>e' \<in> set r. src e' \<le> sint x \<longrightarrow> src e' \<le> src e" for x e
    unfolding best_entry_def
  proof (intro conjI ballI impI)
    fix e' assume e': "e' \<in> set ?out" "src e' \<le> sint x"
    show "src e' \<le> src e"
    proof (cases "re_source e' = i64_min")
      case True
      then show ?thesis using sint_bounds(1) [of "re_source e"] by simp
    next
      case False
      then obtain e'' where "e'' \<in> set r" "src e'' = src e'" using kept [OF e'(1)] by auto
      with top e'(2) show ?thesis by auto
    qed
  qed (use e in auto)
  have "rift_apply es (rift_apply r x) = x" if x: "x \<in> range (rift_apply es)" for x
  proof (cases "src (r ! 0) \<le> sint x")
    case True
    obtain i where cv: "covers r x i" using covers_ex [OF sr r(3) True] by blast
    have "\<forall>e' \<in> set r. src e' \<le> sint x \<longrightarrow> src e' \<le> src (r ! i)"
    proof (intro ballI impI)
      fix e' assume "e' \<in> set r" "src e' \<le> sint x"
      then obtain j where j: "j < length r" "e' = r ! j" by (auto simp: in_set_conv_nth)
      then have "\<not> i < j" using cv \<open>src e' \<le> sint x\<close> by (auto simp: covers_def)
      then show "src e' \<le> src (r ! i)" using sorted_nth_mono [OF sr, of j i] j cv by (simp add: covers_def)
    qed
    then have "best_entry ?out (sint x) (r ! i)" using cv r(4) by (intro best) (auto simp: covers_def)
    from inv [OF this full [OF x]] have "rift_apply es (re_target (r ! i) + of_int (sint x - src (r ! i))) = x" .
    moreover have "rift_apply r x = re_target (r ! i) + of_int (sint x - src (r ! i))"
      using rift_off_covers [OF sr cv] by (simp add: rift_apply_def rift_entry_offset_def)
    ultimately show ?thesis by simp
  next
    case False
    then have before: "rift_off r x = rift_entry_offset (last r)" by (intro rift_off_before r(3)) simp
    have le: "src e' \<le> src (last r)" "sint x < src e'" if "e' \<in> set r" for e'
    proof -
      obtain j where j: "j < length r" "e' = r ! j" using \<open>e' \<in> set r\<close> by (auto simp: in_set_conv_nth)
      show "src e' \<le> src (last r)"
        using sorted_nth_mono [OF sr, of j "length r - 1"] j r(3) by (simp add: last_conv_nth)
      have "src (r ! 0) \<le> src e'" using sorted_nth_mono [OF sr, of 0 j] j r(3) by simp
      with False show "sint x < src e'" by simp
    qed
    define top :: i64 where "top = word_of_int (2 ^ 63 - 1)"
    have st: "sint top = 2 ^ 63 - 1" by (simp add: top_def)
    have "best_entry ?out (sint top) (last r)"
      using le(1) r(3,4) sint_bounds(2) [of "re_source (last r)"] last_in_set [OF r(3)] by (intro best) (auto simp: st)
    moreover have "sint top \<in> cov (rv_live st)"
      using reaches_top [OF s n m] by (intro full) (auto simp: top_def)
    ultimately have "rift_apply es (re_target (last r) + of_int (sint top - src (last r))) = top" by (rule inv)
    then have "top = re_target (last r) + of_int (sint top - src (last r)) + last_offset es"
      by (intro extreme_by_last [OF s n m]) (simp_all add: st)
    then have off: "rift_entry_offset (last r) = - last_offset es"
      by (simp add: rift_entry_offset_def algebra_simps)
    obtain e0 where e0: "e0 \<in> set ?out" "src e0 \<le> sint x" "src e0 \<in> cov (rv_live st)"
      using reverse_walk_inverts(1) [OF s n z w] full [OF x] by (auto simp: inverts_def)
    have src0: "re_source e0 = i64_min" using kept [OF e0(1)] le(2) e0(2) by fastforce
    have none: "\<forall>e' \<in> set r. src e' \<le> sint y \<longrightarrow> src e' \<le> src e0" if "sint y \<le> sint x" for y
      using le(2) that by fastforce
    have "rift_apply es (re_target e0 + of_int (sint i64_min - src e0)) = i64_min"
      using e0 src0 sint_bounds(1) [of x] by (intro inv best none) simp_all
    from extreme_by_last [OF s n m _ this] have "re_target e0 + last_offset es = i64_min" by (simp add: src0)
    then have t0: "re_target e0 = i64_min - last_offset es" by (metis add_diff_cancel_right')
    have "rift_apply es (re_target e0 + of_int (sint x - src e0)) = x"
      using e0 by (intro inv best none full [OF x]) simp_all
    moreover have "of_int (sint x - src e0) = x - re_source e0" by simp
    moreover have "a - b + (x - a) = x - b" for a b :: i64 by simp
    ultimately have "rift_apply es (x - last_offset es) = x" by (simp only: t0 src0)
    then show ?thesis by (simp add: rift_apply_def [of r] before off)
  qed
  with r(1) show ?thesis by blast
qed

text \<open>Two segments that overlap in the image: [0, 100) onto itself, [100, ..) onto [90, ..).\<close>

theorem reverse_right_inverse_witness:
  "\<exists>r. rift_reverse [\<lparr>re_source = 0, re_target = 0\<rparr>, \<lparr>re_source = 100, re_target = 90\<rparr>] = Some (Inr r)
    \<and> rift_apply [\<lparr>re_source = 0, re_target = 0\<rparr>, \<lparr>re_source = 100, re_target = 90\<rparr>] (rift_apply r 150) = 150"
proof -
  let ?es = "[\<lparr>re_source = 0, re_target = 0\<rparr>, \<lparr>re_source = 100, re_target = 90\<rparr>] :: rift_table"
  have "rift_apply ?es 160 = 150" by code_simp
  then have "150 \<in> range (rift_apply ?es)" by (metis rangeI)
  moreover have "\<exists>r. rift_reverse ?es = Some (Inr r)
      \<and> (\<forall>x \<in> range (rift_apply ?es). rift_apply ?es (rift_apply r x) = x)"
    by (rule reverse_right_inverse) (simp_all add: modest_def)
  ultimately show ?thesis by blast
qed

text \<open>
  C25. The buffer moves of \<open>reverse\<close> refine a splice of the list of live intervals: replacing
  the intervals from \<open>insert_at\<close> up to \<open>overlap_end\<close> shifts the two parallel arrays so that the
  live part is the old one with that range replaced by the new interval, and, as long as there
  is a free slot when nothing is replaced, no index leaves the arrays.
\<close>

theorem replace_interval_splices:
  assumes "length ends = length starts" "count \<le> length starts" "insert_at \<le> past" "past \<le> count"
    and room: "insert_at = past \<longrightarrow> count < length starts"
  shows "\<exists>buf'. replace_reverse_interval ((starts, ends), count) insert_at past s e
      = Inr (buf', count + insert_at + 1 - past)
    \<and> live (buf', count + insert_at + 1 - past)
      = take insert_at (live ((starts, ends), count)) @ (s, e) # drop past (live ((starts, ends), count))
    \<and> length (fst buf') = length starts \<and> length (snd buf') = length starts"
  by (rule replace_splice [OF assms])

theorem replace_interval_splices_witness:
  "\<exists>buf'. replace_reverse_interval (([1, 5, 9, 0], [3, 7, 11, 0]), 3) 0 2 1 8 = Inr (buf', 2)
    \<and> live (buf', 2) = [(1, 8), (9, 11)]"
  using replace_interval_splices [of "[3, 7, 11, 0]" "[1, 5, 9, 0]" 3 0 2 1 8]
  by (auto simp: live_def)

end
