(* ===== verification/Pa19.thy ===== *)
theory Pa19 imports Prelude begin

text \<open>
  The PA19 legacy format, \<open>src/pa19\<close>: the fixed-width header of \<open>header.rs\<close>, the decompression
  wrapper of \<open>lzx.rs\<close>, and \<open>apply\<close> with the CALL translation and the CRC register of
  \<open>mod.rs\<close>. The LZXD decoder of the third-party crate \<open>lzxd\<close> is the parameter
  \<open>lzxd_next\<close>: window size, compressed chunk and output length give the chunk or the text
  of an error. Signed additions wrap, as in a release build.
\<close>

section \<open>Texts of the error messages\<close>

definition hex_digit :: "nat \<Rightarrow> char" where
  "hex_digit n = char_of (if n < 10 then 48 + n else 87 + n)"

function show_radix :: "nat \<Rightarrow> nat \<Rightarrow> string" where
  "show_radix b n = (if n < b \<or> b < 2 then [hex_digit n] else show_radix b (n div b) @ [hex_digit (n mod b)])"
  by auto
termination by (relation "measure snd") auto

declare show_radix.simps [simp del]

section \<open>Header\<close>

record pa19_header =
  old_file_size :: u32
  old_file_crc :: u32
  new_file_size :: u32
  new_file_crc :: u32
  pa19_flags :: u32
  lzx_window_size :: u32
  interleave_count :: u32

definition pa19_magic :: bytes where
  "pa19_magic = [0x50, 0x41, 0x31, 0x39]"

definition u32_le :: "bytes \<Rightarrow> nat \<Rightarrow> u32" where
  "u32_le d off = from_le [d ! off, d ! (off + 1), d ! (off + 2), d ! (off + 3)]"

definition pa19_decode :: "bytes \<Rightarrow> pa19_header result" where
  "pa19_decode patch =
     (if length patch < 28 then Inl Truncated else
      let flags = u32_le patch 4 in
      rbind
        (if flags AND 4 \<noteq> 0 then
           if length patch < 32 then Inl Truncated else
           let exp = u32_le patch 24 in
           if 31 < exp
           then Inl (Pa19 (''invalid LZX window exponent: '' @ show_radix 10 (unat exp)))
           else Inr (push_bit (unat exp) 1)
         else Inr 0x20000)
        (\<lambda>window.
          rbind
            (if flags AND 8 \<noteq> 0 then
               if length patch < 36 then Inl Truncated else Inr (u32_le patch 28)
             else Inr 0)
            (\<lambda>count. Inr
              \<lparr>old_file_size = u32_le patch 8, old_file_crc = u32_le patch 12,
               new_file_size = u32_le patch 16, new_file_crc = u32_le patch 20,
               pa19_flags = flags, lzx_window_size = window, interleave_count = count\<rparr>)))"

definition pa19_header_size :: "bytes \<Rightarrow> nat result" where
  "pa19_header_size patch =
     rbind (pa19_decode patch) (\<lambda>hdr.
       let offset = 24;
           offset = (if pa19_flags hdr AND 4 \<noteq> 0 then offset + 4 else offset);
           offset = (if pa19_flags hdr AND 8 \<noteq> 0
                     then offset + 4 + unat (interleave_count hdr) * 12 else offset)
       in if length patch < offset then Inl Truncated else Inr offset)"

definition pa19_parse_header :: "bytes \<Rightarrow> pa19_header result" where
  "pa19_parse_header patch =
     (if length patch < 4 \<or> take 4 patch \<noteq> pa19_magic then Inl (Malformed ''PA19: bad magic'')
      else pa19_decode patch)"

section \<open>LZX delta\<close>

definition decompress_delta ::
    "(nat \<Rightarrow> bytes \<Rightarrow> nat \<Rightarrow> string + bytes) \<Rightarrow> bytes \<Rightarrow> bytes \<Rightarrow> nat \<Rightarrow> u32 \<Rightarrow> bytes result" where
  "decompress_delta lzxd_next source lzx_data tsize window_size =
     (if lzx_data = [] then
        if tsize = 0 then Inr []
        else Inl (Pa19 ''empty LZX data for non-zero target'')
      else if window_size = 0x8000 \<or> window_size = 0x10000 \<or> window_size = 0x20000 then
        (case lzxd_next (unat window_size) lzx_data tsize of
           Inl e \<Rightarrow> Inl (Pa19 (''LZX decode: '' @ e))
         | Inr result \<Rightarrow> Inr result)
      else Inl (Pa19 (''unsupported LZX window size: 0x'' @ show_radix 16 (unat window_size))))"

section \<open>The CALL translation and the CRC register\<close>

definition e8_relative :: "u32 \<Rightarrow> u32 \<Rightarrow> u32 \<Rightarrow> u32 option" where
  "e8_relative file_size i abs_offset =
     (if 0 <=s abs_offset \<and> abs_offset <s file_size then Some (abs_offset - i)
      else if - abs_offset <=s i then Some (abs_offset + file_size)
      else None)"

function e8_loop :: "nat \<Rightarrow> bytes \<Rightarrow> bytes" where
  "e8_loop i data =
     (if i + 5 \<le> min (length data) 32768 then
        if data ! i = 0xE8 then
          case e8_relative (of_nat (length data)) (of_nat i)
                 (from_le (subrange (i + 1) (i + 5) data)) of
            Some rel \<Rightarrow> e8_loop (i + 5) (write_at (i + 1) (to_le 4 rel) data)
          | None \<Rightarrow> e8_loop (i + 1) data
        else e8_loop (i + 1) data
      else data)"
  by pat_completeness auto
termination by (relation "measure (\<lambda>(i, data). length data - i)") auto

declare e8_loop.simps [simp del]

definition e8_transform_decode :: "bytes \<Rightarrow> bytes" where
  "e8_transform_decode data = e8_loop 0 data"

definition crc32_bit :: "u32 \<Rightarrow> u32" where
  "crc32_bit crc = (if crc AND 1 \<noteq> 0 then drop_bit 1 crc XOR 0xEDB88320 else drop_bit 1 crc)"

definition crc32_byte :: "u32 \<Rightarrow> u8 \<Rightarrow> u32" where
  "crc32_byte crc byte = (crc32_bit ^^ 8) (crc XOR ucast byte)"

definition crc32 :: "bytes \<Rightarrow> u32" where
  "crc32 data = foldl crc32_byte 0xFFFFFFFF data"

definition crc32_signature :: "bytes \<Rightarrow> u32" where
  "crc32_signature data = NOT (crc32 data)"

section \<open>Application\<close>

definition pa19_apply ::
    "(nat \<Rightarrow> bytes \<Rightarrow> nat \<Rightarrow> string + bytes) \<Rightarrow> bytes \<Rightarrow> bytes \<Rightarrow> bytes result" where
  "pa19_apply lzxd_next old_file patch =
     (if length patch < 4 \<or> take 4 patch \<noteq> pa19_magic then Inl (Malformed ''PA19: bad magic'')
      else
        rbind (pa19_decode patch) (\<lambda>hdr.
          if length old_file \<noteq> unat (old_file_size hdr)
          then Inl (Pa19 (''old file size mismatch: expected ''
            @ show_radix 10 (unat (old_file_size hdr)) @ '', got '' @ show_radix 10 (length old_file)))
          else
            rbind (pa19_header_size patch) (\<lambda>delta_offset.
            rbind (decompress_delta lzxd_next old_file (drop delta_offset patch)
                (unat (new_file_size hdr)) (lzx_window_size hdr)) (\<lambda>new_file.
              let new_file = (if pa19_flags hdr AND 2 \<noteq> 0 then e8_transform_decode new_file
                              else new_file)
              in if crc32 new_file \<noteq> new_file_crc hdr then Inl (Malformed ''PA19: CRC mismatch'')
                 else Inr new_file))))"

section \<open>Lemmas\<close>

lemma crc32_bit_inj: "inj crc32_bit"
proof (rule injI)
  fix x y assume e: "crc32_bit x = crc32_bit y"
  have top: "bit (crc32_bit c) 31 = bit c 0" for c
    unfolding crc32_bit_def
    using bit_imp_le_length [of c 32]
    by (auto simp: bit_xor_iff bit_drop_bit_eq and_one_eq bit_0 odd_iff_mod_2_eq_one)
  have low: "bit c (Suc n) = (bit (crc32_bit c) n \<noteq> (bit c 0 \<and> bit (0xEDB88320 :: u32) n))" for c n
    unfolding crc32_bit_def
    by (auto simp: bit_xor_iff bit_drop_bit_eq and_one_eq bit_0 odd_iff_mod_2_eq_one bit_imp_le_length)
  show "x = y"
  proof (rule bit_eqI)
    fix n
    show "bit x n = bit y n"
      using top [of x] top [of y] low [of x] low [of y] e by (cases n) simp_all
  qed
qed

lemma crc32_byte_eq_iff: "crc32_byte x b = crc32_byte y c \<longleftrightarrow> x XOR ucast b = y XOR ucast c"
  using inj_fn [OF crc32_bit_inj, of 8] by (simp add: crc32_byte_def inj_eq)

lemma xor_cancel: "x XOR z = y XOR z \<longleftrightarrow> x = y" "z XOR x = z XOR y \<longleftrightarrow> x = y" for x y z :: "'a::len word"
  by (auto simp: bit_eq_iff bit_xor_iff)

lemma crc32_bytes_eq_iff: "foldl crc32_byte x bs = foldl crc32_byte y bs \<longleftrightarrow> x = y"
proof (induction bs arbitrary: x y)
  case (Cons b bs)
  then show ?case by (simp add: crc32_byte_eq_iff xor_cancel)
qed simp

text \<open>
  C21. The CRC register that \<open>pa19::apply\<close> compares with the header tells any two files apart
  that differ in exactly one byte, wherever the byte is and whatever surrounds it: \<open>apply\<close>
  never accepts a reconstruction with one wrong byte.
\<close>

theorem crc32_detects_byte:
  assumes "k < length data" "b \<noteq> data ! k"
  shows "crc32 (data[k := b]) \<noteq> crc32 data"
proof
  assume e: "crc32 (data[k := b]) = crc32 data"
  have "crc32 (data[k := c])
      = foldl crc32_byte (crc32_byte (foldl crc32_byte 0xFFFFFFFF (take k data)) c) (drop (Suc k) data)" for c
    using assms(1) by (simp add: crc32_def upd_conv_take_nth_drop)
  from this [of b] this [of "data ! k"] e have "(ucast b :: u32) = ucast (data ! k)"
    by (simp add: crc32_bytes_eq_iff crc32_byte_eq_iff xor_cancel)
  moreover have "uint (ucast c :: u32) = uint c" for c :: u8
    using uint_lt2p [of c] by (simp add: take_bit_int_eq_self unsigned_ucast_eq)
  ultimately have "uint b = uint (data ! k)" by metis
  then have "b = data ! k" by (rule word_uint_eqI)
  with assms(2) show False by simp
qed

theorem crc32_detects_byte_witness: "crc32 [1, 7, 3] \<noteq> crc32 [1, 2, 3]"
  using crc32_detects_byte [of 1 "[1, 2, 3]" 7] by simp

text \<open>What the CALL translation leaves alone.\<close>

lemma e8_loop_frame:
  "length (e8_loop i data) = length data
    \<and> (\<forall>k. k < length data \<longrightarrow> k < i \<or> 32768 \<le> k \<longrightarrow> e8_loop i data ! k = data ! k)"
proof (induction i data rule: e8_loop.induct)
  case (1 i data)
  show ?case
  proof (cases "i + 5 \<le> min (length data) 32768")
    case c: True
    show ?thesis
    proof (cases "data ! i = 0xE8")
      case e8: True
      show ?thesis
      proof (cases "e8_relative (of_nat (length data)) (of_nat i)
          (from_le (subrange (i + 1) (i + 5) data))")
        case None
        with 1(1) [OF c e8 None] c e8 show ?thesis by (subst (1 2) e8_loop.simps) auto
      next
        case (Some rel)
        let ?d = "write_at (i + 1) (to_le 4 rel) data"
        have "length ?d = length data" "\<And>k. k < length data \<Longrightarrow> k < i \<or> 32768 \<le> k \<Longrightarrow> ?d ! k = data ! k"
          using c by (auto simp: nth_write_at)
        with 1(2) [OF c e8 Some] c e8 Some show ?thesis
          by (subst (1 2) e8_loop.simps) auto
      qed
    next
      case False
      with 1(3) [OF c False] c show ?thesis by (subst (1 2) e8_loop.simps) auto
    qed
  next
    case False
    then show ?thesis by (subst (1 2) e8_loop.simps) auto
  qed
qed

lemma e8_loop_no_calls: "0xE8 \<notin> set data \<Longrightarrow> e8_loop i data = data"
proof (induction i data rule: e8_loop.induct)
  case (1 i data)
  then have "i < length data \<Longrightarrow> data ! i \<noteq> 0xE8" by (metis nth_mem)
  with 1 show ?case by (subst e8_loop.simps) (auto split: option.splits)
qed

text \<open>
  The second test of the translation is meant for the negative operands that point up to
  \<open>i\<close> bytes back; with \<open>wrapping_neg\<close> it also holds for every operand behind the end of the file.
\<close>

lemma e8_rewrites_past_end:
  assumes "0 \<le> sint i" "0 \<le> sint file_size" "sint file_size \<le> sint abs_offset"
  shows "e8_relative file_size i abs_offset = Some (abs_offset + file_size)"
proof -
  have "sint (- abs_offset) = - sint abs_offset"
  proof -
    have "sint abs_offset < 2 ^ 31" using sint_lt [of abs_offset] by simp
    with assms show ?thesis
      by (simp add: sint_word_ariths signed_take_bit_int_eq_self)
  qed
  with assms show ?thesis by (simp add: e8_relative_def word_sle_eq word_sless_alt)
qed

text \<open>What an accepted patch has passed, and that the content of the old file plays no part.\<close>

lemma pa19_apply_checked:
  assumes "pa19_apply lzxd_next old_file patch = Inr new_file"
  shows "\<exists>hdr off. pa19_decode patch = Inr hdr \<and> pa19_header_size patch = Inr off
    \<and> length old_file = unat (old_file_size hdr) \<and> off \<le> length patch
    \<and> crc32 new_file = new_file_crc hdr"
proof -
  have ok: "length patch \<ge> 4" "take 4 patch = pa19_magic"
    using assms by (auto simp: pa19_apply_def split: if_splits)
  from assms ok obtain hdr where h: "pa19_decode patch = Inr hdr"
    by (auto simp: pa19_apply_def not_less)
  from assms ok h have len: "length old_file = unat (old_file_size hdr)"
    by (auto simp: pa19_apply_def not_less split: if_splits)
  from assms ok h len obtain off new where
    off: "pa19_header_size patch = Inr off"
    and new: "(if crc32 new \<noteq> new_file_crc hdr then Inl (Malformed ''PA19: CRC mismatch'') else Inr new)
      = (Inr new_file :: bytes result)"
    by (auto simp: pa19_apply_def not_less Let_def)
  from off h have "off \<le> length patch"
    by (auto simp: pa19_header_size_def Let_def split: if_splits)
  with h len off new show ?thesis by (auto split: if_splits)
qed

lemma pa19_apply_source_length_only:
  "length old_file = length old_file' \<Longrightarrow>
    pa19_apply lzxd_next old_file patch = pa19_apply lzxd_next old_file' patch"
  unfolding pa19_apply_def decompress_delta_def by (simp cong: if_cong)

end
