(* ===== verification/Xpress.thy ===== *)
theory Xpress imports Prelude begin

text \<open>
  XPRESS Huffman decompression, \<open>src/xpress.rs\<close>: the Compression API container, the canonical
  code table laid out as a binary heap, and the loop that takes one bit per round from 16-bit
  words which share a byte cursor with the raw length fields. A round costs at least one bit of
  input, which bounds every loop. The code of a symbol, the table entries and the positions are
  natural numbers: a code stays below \<open>2 ^ 23\<close>, an entry below \<open>2 ^ 16\<close>.
\<close>

section \<open>The code table\<close>

definition xp_symbols :: "bytes \<Rightarrow> nat list" where
  "xp_symbols table_bytes = concat (map (\<lambda>i.
     let b = table_bytes ! i;
         even = unat (b AND 0x0F);
         odd = unat (drop_bit 4 b)
     in (if even \<noteq> 0 then [push_bit 9 even OR (i * 2)] else []) @
        (if odd \<noteq> 0 then [push_bit 9 odd OR (i * 2 + 1)] else [])) [0..<256])"

definition heap_child :: "nat \<Rightarrow> nat \<Rightarrow> nat" where
  "heap_child node b = 2 * node + b + 1"

fun code_index :: "nat \<Rightarrow> nat \<Rightarrow> nat \<Rightarrow> nat \<Rightarrow> nat result" where
  "code_index entries code 0 node = Inr node"
| "code_index entries code (Suc bp) node =
     (let node = heap_child node (drop_bit bp code mod 2)
      in if entries \<le> node then Inl (Malformed ''xpress: code too long'')
         else code_index entries code bp node)"

definition place_symbol :: "nat list \<times> nat \<times> nat \<Rightarrow> nat \<Rightarrow> (nat list \<times> nat \<times> nat) result" where
  "place_symbol = (\<lambda>(table, code, prev_len) s.
     let len = drop_bit 9 s;
         sym = s AND 511
     in rbind (usize_sub len prev_len) (\<lambda>shift.
          let code = push_bit shift code
          in rbind (code_index (length table) code len 0) (\<lambda>node.
             rbind (store_at table node sym) (\<lambda>table.
               Inr (table, code + 1, len)))))"

fun place_symbols :: "nat list \<Rightarrow> nat list \<times> nat \<times> nat \<Rightarrow> (nat list \<times> nat \<times> nat) result" where
  "place_symbols [] st = Inr st"
| "place_symbols (s # syms) st = rbind (place_symbol st s) (place_symbols syms)"

definition xp_build_table :: "bytes \<Rightarrow> nat list result" where
  "xp_build_table table_bytes =
     rbind (place_symbols (sort (xp_symbols table_bytes)) (replicate (2 ^ 16) 0xFFFF, 0, 0))
       (\<lambda>(table, _). Inr table)"

section \<open>The bit loop\<close>

record xpress_state =
  xp_out :: bytes
  xp_pos :: nat
  xp_bits :: u32
  xp_remaining :: nat
  xp_index :: nat
  xp_length :: nat
  xp_distance :: nat
  xp_dist_bits :: nat

definition xp_u8 :: "bytes \<Rightarrow> nat \<Rightarrow> (u8 \<times> nat) result" where
  "xp_u8 input pos = (if pos < length input then Inr (input ! pos, pos + 1) else Inl Truncated)"

definition xp_u16 :: "bytes \<Rightarrow> nat \<Rightarrow> (u32 \<times> nat) result" where
  "xp_u16 input pos =
     (if length input < pos + 2 then Inl Truncated
      else rbind (slice_at pos (pos + 2) input) (\<lambda>bs. Inr (from_le bs, pos + 2)))"

definition xp_u32 :: "bytes \<Rightarrow> nat \<Rightarrow> (u32 \<times> nat) result" where
  "xp_u32 input pos =
     (if length input < pos + 4 then Inl Truncated
      else rbind (slice_at pos (pos + 4) input) (\<lambda>bs. Inr (from_le bs, pos + 4)))"

definition xp_pull :: "bytes \<Rightarrow> xpress_state \<Rightarrow> xpress_state result" where
  "xp_pull input st =
     (if xp_pos st + 1 < length input then
        rbind (xp_u16 input (xp_pos st)) (\<lambda>(w, pos).
          Inr (st\<lparr>xp_pos := pos, xp_bits := push_bit 16 (xp_bits st) OR w,
                  xp_remaining := xp_remaining st + 16\<rparr>))
      else if xp_pos st < length input then
        rbind (xp_u8 input (xp_pos st)) (\<lambda>(b, pos).
          Inr (st\<lparr>xp_pos := pos, xp_bits := push_bit 8 (xp_bits st) OR ucast b,
                  xp_remaining := xp_remaining st + 8\<rparr>))
      else Inl Truncated)"

text \<open>The length of a match: four bits of the symbol, then raw fields at the byte cursor.\<close>

definition xp_match_length :: "bytes \<Rightarrow> nat \<Rightarrow> nat \<Rightarrow> (nat \<times> nat) result" where
  "xp_match_length input symbol pos =
     (let len = symbol AND 15 in
      if len = 15 then
        rbind (xp_u8 input pos) (\<lambda>(extra, pos).
          let len = len + unat extra in
          if len = 255 + 15 then
            rbind (xp_u16 input pos) (\<lambda>(wide, pos).
              if unat wide = 0 then
                rbind (xp_u32 input pos) (\<lambda>(wider, pos). Inr (unat wider + 3, pos))
              else Inr (unat wide + 3, pos))
          else Inr (len + 3, pos))
      else Inr (len + 3, pos))"

fun xp_copy :: "nat \<Rightarrow> nat \<Rightarrow> bytes \<Rightarrow> bytes result" where
  "xp_copy start 0 out = Inr out"
| "xp_copy start (Suc n) out = rbind (index out start) (\<lambda>v. xp_copy (Suc start) n (out @ [v]))"

definition xp_emit :: "xpress_state \<Rightarrow> xpress_state result" where
  "xp_emit st =
     (if xp_dist_bits st = 0 \<and> xp_length st \<noteq> 0 then
        if xp_distance st = 0 \<or> length (xp_out st) < xp_distance st
        then Inl (Malformed ''xpress: match offset out of range'')
        else rbind (usize_sub (length (xp_out st)) (xp_distance st)) (\<lambda>start.
             rbind (xp_copy start (xp_length st) (xp_out st)) (\<lambda>out.
               Inr (st\<lparr>xp_out := out, xp_length := 0, xp_distance := 0\<rparr>)))
      else Inr st)"

definition xp_symbol_bit :: "bytes \<Rightarrow> nat list \<Rightarrow> nat \<Rightarrow> xpress_state \<Rightarrow> xpress_state result" where
  "xp_symbol_bit input table b st =
     (let node = heap_child (xp_index st) b in
      if length table \<le> node then Inl (Malformed ''xpress: bad code index'')
      else rbind (index table node) (\<lambda>entry.
        if entry = 0xFFFF then Inr (st\<lparr>xp_index := node\<rparr>)
        else
          let symbol = entry AND 511 in
          if symbol < 256
          then Inr (st\<lparr>xp_index := 0, xp_out := xp_out st @ [of_nat symbol]\<rparr>)
          else rbind (xp_match_length input symbol (xp_pos st)) (\<lambda>(len, pos).
            let dist_bits = drop_bit 4 symbol AND 15
            in xp_emit (st\<lparr>xp_index := 0, xp_pos := pos, xp_dist_bits := dist_bits,
                 xp_distance := 2 ^ dist_bits, xp_length := len\<rparr>))))"

definition xp_distance_bit :: "nat \<Rightarrow> xpress_state \<Rightarrow> xpress_state result" where
  "xp_distance_bit b st =
     rbind (usize_sub (xp_dist_bits st) 1) (\<lambda>dist_bits.
       xp_emit (st\<lparr>xp_dist_bits := dist_bits,
         xp_distance := xp_distance st OR push_bit dist_bits b\<rparr>))"

text \<open>One round of the loop; a shift by a negative count would be a panic.\<close>

definition xp_round :: "bytes \<Rightarrow> nat list \<Rightarrow> xpress_state \<Rightarrow> xpress_state result" where
  "xp_round input table st =
     rbind (if xp_remaining st = 16 then xp_pull input st else Inr st) (\<lambda>st.
       if xp_remaining st = 0 then Inl Panic else
       let remaining = xp_remaining st - 1;
           b = of_bool (bit (xp_bits st) remaining);
           st = st\<lparr>xp_remaining := remaining\<rparr>
       in if xp_length st = 0 then xp_symbol_bit input table b st else xp_distance_bit b st)"

definition xp_budget :: "bytes \<Rightarrow> xpress_state \<Rightarrow> nat" where
  "xp_budget input st = 8 * (length input - xp_pos st) + xp_remaining st"

lemma xp_emit_same:
  "xp_emit st = Inr st' \<Longrightarrow> xp_pos st' = xp_pos st \<and> xp_remaining st' = xp_remaining st"
  by (auto simp: xp_emit_def split: if_splits)

lemma xp_match_length_pos:
  "xp_match_length input symbol pos = Inr (len, pos') \<Longrightarrow> pos \<le> pos'"
  unfolding xp_match_length_def xp_u8_def xp_u16_def xp_u32_def Let_def
  by (auto split: if_splits)

lemma xp_pull_budget:
  "xp_pull input st = Inr st' \<Longrightarrow> xp_budget input st' = xp_budget input st \<and> xp_pos st \<le> xp_pos st'"
  unfolding xp_pull_def xp_u8_def xp_u16_def xp_budget_def
  by (auto split: if_splits)

lemma xp_round_budget:
  assumes "xp_round input table st = Inr st'"
  shows "xp_budget input st' < xp_budget input st \<and> xp_pos st \<le> xp_pos st'"
proof -
  obtain s1 where s1: "(if xp_remaining st = 16 then xp_pull input st else Inr st) = Inr s1"
    and r: "xp_remaining s1 \<noteq> 0"
    and s2: "(if xp_length s1 = 0
        then xp_symbol_bit input table (of_bool (bit (xp_bits s1) (xp_remaining s1 - 1)))
               (s1\<lparr>xp_remaining := xp_remaining s1 - 1\<rparr>)
        else xp_distance_bit (of_bool (bit (xp_bits s1) (xp_remaining s1 - 1)))
               (s1\<lparr>xp_remaining := xp_remaining s1 - 1\<rparr>)) = Inr st'"
    using assms by (auto simp: xp_round_def Let_def split: if_splits)
  have "xp_budget input s1 = xp_budget input st \<and> xp_pos st \<le> xp_pos s1"
    using s1 xp_pull_budget by (auto split: if_splits)
  moreover have "xp_pos s1 \<le> xp_pos st' \<and> xp_remaining st' = xp_remaining s1 - 1"
    using s2 unfolding xp_symbol_bit_def xp_distance_bit_def Let_def
    by (auto split: if_splits dest!: xp_emit_same xp_match_length_pos)
  ultimately show ?thesis using r by (auto simp: xp_budget_def)
qed

function xp_block :: "bytes \<Rightarrow> nat list \<Rightarrow> nat \<Rightarrow> xpress_state \<Rightarrow> xpress_state result" where
  "xp_block input table block_end st =
     (if length (xp_out st) < block_end
      then rbind (xp_round input table st) (xp_block input table block_end)
      else Inr st)"
  by pat_completeness auto
termination
  by (relation "measure (\<lambda>(input, table, block_end, st). xp_budget input st)")
    (simp_all add: xp_round_budget)

declare xp_block.simps [simp del]

lemma xp_block_pos: "xp_block input table block_end st = Inr st' \<Longrightarrow> xp_pos st \<le> xp_pos st'"
proof (induction input table block_end st rule: xp_block.induct)
  case (1 input table block_end st)
  show ?case
  proof (cases "length (xp_out st) < block_end")
    case True
    with 1(2) obtain s where "xp_round input table st = Inr s"
      "xp_block input table block_end s = Inr st'"
      by (subst (asm) xp_block.simps) auto
    with 1(1) [OF True this] xp_round_budget show ?thesis by (meson order_trans)
  next
    case False
    with 1(2) show ?thesis by (subst (asm) xp_block.simps) simp
  qed
qed

section \<open>Blocks and chunks\<close>

text \<open>The head of a block: its table and the first 32 bits.\<close>

definition xp_open_block :: "bytes \<Rightarrow> nat \<Rightarrow> bytes \<Rightarrow> (nat list \<times> xpress_state) result" where
  "xp_open_block input pos out =
     (if length input < pos + 256 then Inl Truncated
      else
        rbind (slice_at pos (pos + 256) input) (\<lambda>table_bytes.
        rbind (xp_build_table table_bytes) (\<lambda>table.
        rbind (xp_u16 input (pos + 256)) (\<lambda>(hi, pos).
        rbind (xp_u16 input pos) (\<lambda>(lo, pos).
          Inr (table, \<lparr>xp_out = out, xp_pos = pos, xp_bits = push_bit 16 hi OR lo,
            xp_remaining = 32, xp_index = 0, xp_length = 0, xp_distance = 0, xp_dist_bits = 0\<rparr>))))))"

lemma xp_open_block_pos:
  "xp_open_block input pos out = Inr (table, st) \<Longrightarrow> pos + 256 \<le> length input \<and> pos + 260 = xp_pos st
    \<and> xp_out st = out"
  by (auto simp: xp_open_block_def xp_u16_def split: if_splits)

function xp_stream :: "bytes \<Rightarrow> nat \<Rightarrow> nat \<Rightarrow> bytes \<Rightarrow> bytes result" where
  "xp_stream input target pos out =
     (if length out < target then
        rbind (xp_open_block input pos out) (\<lambda>(table, st).
        rbind (xp_block input table (min (length out + 0x10000) target) st) (\<lambda>st.
          xp_stream input target (xp_pos st) (xp_out st)))
      else Inr out)"
  by pat_completeness auto
termination
proof (relation "measure (\<lambda>(input, target, pos, out). length input - pos)", goal_cases)
  case (2 input target pos out x table st st')
  then have "pos + 256 \<le> length input" "pos + 260 = xp_pos st" "xp_pos st \<le> xp_pos st'"
    by (auto dest: xp_open_block_pos xp_block_pos)
  then show ?case by simp
qed simp

declare xp_stream.simps [simp del]

definition decompress_block_stream :: "bytes \<Rightarrow> nat \<Rightarrow> bytes \<Rightarrow> bytes result" where
  "decompress_block_stream input out_size out = xp_stream input (length out + out_size) 0 out"

definition xp_decompress :: "bytes \<Rightarrow> nat \<Rightarrow> bytes result" where
  "xp_decompress input out_size = decompress_block_stream input out_size []"

definition xp_chunk :: "bytes \<Rightarrow> nat \<Rightarrow> nat \<Rightarrow> nat \<Rightarrow> bytes \<Rightarrow> (bytes \<times> nat) result" where
  "xp_chunk data chunk_size whole cursor out =
     (if length data < cursor + 4 then Inl Truncated
      else rbind (slice_at cursor (cursor + 4) data) (\<lambda>prefix.
        let compressed_size = unat (from_le prefix :: u32);
            cursor = cursor + 4
        in if compressed_size = 0 then Inl (Malformed ''xpress: zero-length chunk'')
           else rbind (usize_sub whole (length out)) (\<lambda>left.
             let chunk_uncompressed = min chunk_size left;
                 finish = cursor + compressed_size
             in if length data < finish then Inl Truncated
                else rbind (slice_at cursor finish data) (\<lambda>payload.
                  if compressed_size = chunk_uncompressed then Inr (out @ payload, finish)
                  else if chunk_uncompressed < compressed_size
                  then Inl (Malformed ''xpress: chunk larger than plaintext'')
                  else rbind (decompress_block_stream payload chunk_uncompressed out) (\<lambda>out.
                    Inr (out, finish))))))"

function xp_chunks :: "bytes \<Rightarrow> nat \<Rightarrow> nat \<Rightarrow> nat \<Rightarrow> bytes \<Rightarrow> bytes result" where
  "xp_chunks data chunk_size whole cursor out =
     (if length out < whole
      then rbind (xp_chunk data chunk_size whole cursor out) (\<lambda>(out, cursor).
        xp_chunks data chunk_size whole cursor out)
      else Inr out)"
  by pat_completeness auto
termination
  by (relation "measure (\<lambda>(data, chunk_size, whole, cursor, out). length data - cursor)")
    (auto simp: xp_chunk_def Let_def split: if_splits)

declare xp_chunks.simps [simp del]

definition xp_decompress_container :: "bytes \<Rightarrow> bytes result" where
  "xp_decompress_container data =
     (if length data < 24 then Inl (Malformed ''xpress: container too short'')
      else rbind (slice_at 0 4 data) (\<lambda>magic.
        if from_le magic \<noteq> (0xC0E5510A :: u32) then Inl (Malformed ''xpress: bad container magic'')
        else rbind (slice_at 4 6 data) (\<lambda>header_bytes.
          let header_size = unat (from_le header_bytes :: u16) in
          if header_size < 24 \<or> length data < header_size
          then Inl (Malformed ''xpress: bad header size'')
          else rbind (index data 7) (\<lambda>algorithm.
            if algorithm \<noteq> 4 then Inl (Malformed ''xpress: not an XPRESS_HUFF container'')
            else rbind (slice_at 8 16 data) (\<lambda>total_bytes.
              let whole = unat (from_le total_bytes :: u64) in
              if whole = 0 then Inr []
              else rbind (slice_at 16 20 data) (\<lambda>chunk_bytes.
                let chunk_size = unat (from_le chunk_bytes :: u32) in
                if chunk_size = 0 \<or> 0x04000000 < chunk_size
                then Inl (Malformed ''xpress: bad chunk size'')
                else xp_chunks data chunk_size whole header_size []))))))"

section \<open>The table is the canonical code\<close>

text \<open>
  Specification: the width of the interval of a symbol of \<open>v\<close> (its length in the upper bits)
  on the scale of fifteen bits, and the bits of a code word, the highest first.
\<close>

definition xp_width :: "nat \<Rightarrow> nat" where
  "xp_width v = 2 ^ (15 - v div 512)"

definition xp_start :: "nat list \<Rightarrow> nat \<Rightarrow> nat" where
  "xp_start syms k = sum_list (map xp_width (take k syms))"

definition xp_code :: "nat list \<Rightarrow> nat \<Rightarrow> nat" where
  "xp_code syms k = xp_start syms k div xp_width (syms ! k)"

definition code_bits :: "nat \<Rightarrow> nat \<Rightarrow> nat list" where
  "code_bits c len = map (\<lambda>bp. c div 2 ^ bp mod 2) (rev [0..<len])"

lemma xp_symbols_range:
  assumes "v \<in> set (xp_symbols tb)"
  shows "1 \<le> v div 512" "v div 512 \<le> 15"
proof -
  have nib: "unat (b AND 0x0F) < 16" "unat (drop_bit 4 b) < 16" for b :: u8
  proof -
    have "b AND 0x0F = take_bit 4 b" by (simp add: take_bit_eq_mask mask_eq_exp_minus_1)
    then show "unat (b AND 0x0F) < 16" using take_bit_nat_less_exp [of 4 "unat b"]
      by (simp add: unsigned_take_bit_eq)
    have "unat (drop_bit 4 b) = unat b div 16" by (simp add: drop_bit_eq_div unat_div)
    moreover have "unat b < 256" using unsigned_less [of b, where ?'a = nat] by simp
    ultimately show "unat (drop_bit 4 b) < 16" by simp
  qed
  have pack: "(push_bit 9 l OR s) div 512 = l" if "s < 512" for l s :: nat
  proof -
    have "drop_bit 9 s = 0" using that by (simp add: drop_bit_eq_div)
    moreover have "drop_bit 9 (push_bit 9 l) = l" by (simp add: drop_bit_eq_div push_bit_eq_mult)
    ultimately have "drop_bit 9 (push_bit 9 l OR s) = l" by (simp add: drop_bit_or)
    then show ?thesis by (simp add: drop_bit_eq_div)
  qed
  from assms obtain l s where "v = push_bit 9 l OR s" "l \<noteq> 0" "l < 16" "s < 512"
    using nib by (fastforce simp: xp_symbols_def Let_def split: if_splits)
  with pack show "1 \<le> v div 512" "v div 512 \<le> 15" by simp_all
qed

lemma code_index_heap:
  "node = 2 ^ m - 1 + code div 2 ^ bp mod 2 ^ m \<Longrightarrow> 2 ^ (m + bp + 1) \<le> Suc entries \<Longrightarrow>
    code_index entries code bp node = Inr (2 ^ (m + bp) - 1 + code mod 2 ^ (m + bp))"
proof (induction bp arbitrary: m node)
  case (Suc bp)
  have d: "code div 2 ^ bp mod 2 ^ Suc m = 2 * (code div 2 ^ Suc bp mod 2 ^ m) + code div 2 ^ bp mod 2"
    by (simp add: mod_mult2_eq flip: div_mult2_eq) (simp add: mult.commute)
  have n: "heap_child node (drop_bit bp code mod 2) = 2 ^ Suc m - 1 + code div 2 ^ bp mod 2 ^ Suc m"
  proof -
    have "1 \<le> (2 :: nat) ^ m" by simp
    then show ?thesis using Suc.prems(1) unfolding d unfolding heap_child_def drop_bit_eq_div power_Suc by linarith
  qed
  moreover have "2 ^ Suc m - 1 + code div 2 ^ bp mod 2 ^ Suc m < entries"
  proof -
    have "code div 2 ^ bp mod 2 ^ Suc m < 2 ^ Suc m" by simp
    moreover have "2 ^ (m + Suc bp + 1) \<ge> (2 :: nat) * 2 ^ Suc m"
      using power_increasing [of "Suc (Suc m)" "m + Suc bp + 1" "2 :: nat"] by simp
    ultimately show ?thesis using Suc.prems(2) by linarith
  qed
  ultimately show ?case
    using Suc.IH [of _ "Suc m"] Suc.prems(2) by (simp add: Let_def)
qed simp

lemma place_symbols_snoc:
  "place_symbols (xs @ [x]) st = rbind (place_symbols xs st) (\<lambda>st. place_symbol st x)"
proof (induction xs arbitrary: st)
  case Nil
  show ?case by (cases "place_symbol st x") simp_all
next
  case (Cons y xs)
  show ?case by (cases "place_symbol st y") (simp_all add: Cons.IH)
qed

lemma place_symbol_eq:
  assumes "length table = 2 ^ 16" "s div 512 \<le> 15" "prev \<le> s div 512"
  shows "place_symbol (table, code, prev) s =
    (let len = s div 512; code = code * 2 ^ (len - prev) in
     Inr (table[2 ^ len - 1 + code mod 2 ^ len := s mod 512], code + 1, len))"
proof -
  have "(2 :: nat) ^ (s div 512 + 1) \<le> 2 ^ 16" by (rule power_increasing) (use assms in auto)
  then have "code_index (2 ^ 16) c (s div 512) 0 = Inr (2 ^ (s div 512) - 1 + c mod 2 ^ (s div 512))" for c
    using code_index_heap [of 0 0 c "s div 512" "2 ^ 16"] by simp
  moreover have "s AND 511 = s mod 512"
    using take_bit_eq_mask [of 9 s] by (simp add: take_bit_eq_mod mask_eq_exp_minus_1)
  moreover have "2 ^ (s div 512) - 1 + c mod 2 ^ (s div 512) < (2 :: nat) ^ 16" for c
  proof -
    have "(2 :: nat) ^ (s div 512) \<le> 32768" using \<open>(2 :: nat) ^ (s div 512 + 1) \<le> 2 ^ 16\<close> by simp
    moreover have "c mod 2 ^ (s div 512) < 2 ^ (s div 512)" by simp
    ultimately have "2 ^ (s div 512) - 1 + c mod 2 ^ (s div 512) < 65536" by linarith
    then show ?thesis by simp
  qed
  ultimately show ?thesis
    using assms(1,3) by (simp add: place_symbol_def Let_def drop_bit_eq_div push_bit_eq_mult)
qed

text \<open>Whatever the lengths are, the table is built: the error branch of the source is dead.\<close>

lemma place_symbols_total:
  "length (fst st) = 2 ^ 16 \<Longrightarrow> \<forall>s \<in> set syms. s div 512 \<le> 15 \<and> snd (snd st) \<le> s div 512 \<Longrightarrow> sorted syms \<Longrightarrow>
    \<forall>v \<in> set (fst st). v = 0xFFFF \<or> v < 512 \<Longrightarrow>
    \<exists>table c p. place_symbols syms st = Inr (table, c, p) \<and> length table = 2 ^ 16
      \<and> (\<forall>v \<in> set table. v = 0xFFFF \<or> v < 512)"
proof (induction syms arbitrary: st)
  case Nil
  then show ?case by (cases st) auto
next
  case (Cons s syms)
  obtain t c p where st: "st = (t, c, p)" by (cases st)
  have *: "place_symbol st s = (let len = s div 512; code = c * 2 ^ (len - p) in
     Inr (t[2 ^ len - 1 + code mod 2 ^ len := s mod 512], code + 1, len))"
    unfolding st by (rule place_symbol_eq) (use Cons.prems st in auto)
  have "\<forall>v \<in> set (t[n := s mod 512]). v = 0xFFFF \<or> v < 512" for n
    using Cons.prems(4) st set_update_subset_insert [of t n "s mod 512"] by fastforce
  with Cons.prems show ?case
    unfolding place_symbols.simps * Let_def rbind_Inr by (intro Cons.IH) (auto simp: st div_le_mono)
qed

lemma xp_build_table_total:
  "\<exists>table. xp_build_table tb = Inr table \<and> length table = 2 ^ 16
    \<and> (\<forall>v \<in> set table. v = 0xFFFF \<or> v < 512)"
proof -
  have "\<exists>table c p. place_symbols (sort (xp_symbols tb)) (replicate (2 ^ 16) 0xFFFF, 0, 0)
      = Inr (table, c, p) \<and> length table = 2 ^ 16 \<and> (\<forall>v \<in> set table. v = 0xFFFF \<or> v < 512)"
    by (rule place_symbols_total) (simp_all add: xp_symbols_range)
  then show ?thesis unfolding xp_build_table_def by (elim exE conjE) simp
qed

definition xp_node :: "nat list \<Rightarrow> nat \<Rightarrow> nat" where
  "xp_node syms k = 2 ^ (syms ! k div 512) - 1 + xp_code syms k"

definition xp_kraft :: "nat list \<Rightarrow> bool" where
  "xp_kraft syms \<longleftrightarrow> sorted syms \<and> (\<forall>v \<in> set syms. 1 \<le> v div 512 \<and> v div 512 \<le> 15)
    \<and> xp_start syms (length syms) \<le> 2 ^ 15"

lemma xp_start_Suc: "k < length syms \<Longrightarrow> xp_start syms (Suc k) = xp_start syms k + xp_width (syms ! k)"
  by (simp add: xp_start_def take_Suc_conv_app_nth)

lemma xp_start_mono: "j \<le> k \<Longrightarrow> xp_start syms j \<le> xp_start syms k"
proof (induction k)
  case (Suc k)
  have "xp_start syms k \<le> xp_start syms (Suc k)"
    by (cases "k < length syms") (simp_all add: xp_start_Suc, simp add: xp_start_def)
  with Suc show ?case by (cases "j = Suc k") auto
qed simp

lemma xp_start_step: "j < k \<Longrightarrow> k \<le> length syms \<Longrightarrow> xp_start syms j + xp_width (syms ! j) \<le> xp_start syms k"
  using xp_start_mono [of "Suc j" k syms] by (simp add: xp_start_Suc)

lemma heap_node_inj:
  assumes "c < 2 ^ l" "d < 2 ^ m" "2 ^ l - 1 + c = 2 ^ m - 1 + (d :: nat)"
  shows "l = m \<and> c = d"
proof -
  have e: "2 ^ l + c = 2 ^ m + d"
    using assms(3) one_le_power [of "2 :: nat" l] one_le_power [of "2 :: nat" m] by linarith
  have "\<not> l < m" if "2 ^ l + c = 2 ^ m + d" "c < 2 ^ l" for l m c d :: nat
  proof
    assume "l < m"
    then have "(2 :: nat) ^ Suc l \<le> 2 ^ m" by (intro power_increasing) auto
    with that show False by simp
  qed
  from this [OF e assms(1)] this [OF e [symmetric] assms(2)] have "l = m" by simp
  with e show ?thesis by simp
qed

lemma xp_code_bounds:
  assumes "xp_kraft syms" "k < length syms"
  shows "xp_code syms k < 2 ^ (syms ! k div 512)"
proof -
  let ?l = "syms ! k div 512"
  from assms have l: "?l \<le> 15" by (simp add: xp_kraft_def)
  have "xp_start syms k + xp_width (syms ! k) \<le> 2 ^ 15"
    using assms xp_start_step [of k "length syms" syms] by (simp add: xp_kraft_def)
  moreover have "(2 :: nat) ^ 15 = 2 ^ ?l * xp_width (syms ! k)"
    using l by (simp add: xp_width_def flip: power_add)
  ultimately have "xp_start syms k < 2 ^ ?l * xp_width (syms ! k)"
    by (simp add: xp_width_def) (metis add.commute less_le_trans less_add_same_cancel1 zero_less_numeral zero_less_power)
  then show ?thesis by (simp add: xp_code_def less_mult_imp_div_less)
qed

lemma place_symbols_inv:
  assumes kr: "xp_kraft syms"
  shows "k \<le> length syms \<Longrightarrow> \<exists>table c p.
    place_symbols (take k syms) (replicate (2 ^ 16) 0xFFFF, 0, 0) = Inr (table, c, p) \<and>
    length table = 2 ^ 16 \<and> p = (if k = 0 then 0 else syms ! (k - 1) div 512) \<and>
    c * 2 ^ (15 - p) = xp_start syms k \<and>
    (\<forall>j. j < k \<longrightarrow> xp_code syms j * xp_width (syms ! j) = xp_start syms j) \<and>
    (\<forall>j. j < k \<longrightarrow> table ! xp_node syms j = syms ! j mod 512) \<and>
    (\<forall>n. n < 2 ^ 16 \<longrightarrow> (\<forall>j. j < k \<longrightarrow> n \<noteq> xp_node syms j) \<longrightarrow> table ! n = 0xFFFF)"
proof (induction k)
  case 0
  show ?case by (intro exI [of _ "replicate (2 ^ 16) 0xFFFF"] exI [of _ 0]) (simp add: xp_start_def)
next
  case (Suc k)
  then have k: "k < length syms" by simp
  define l where "l = syms ! k div 512"
  have l: "1 \<le> l" "l \<le> 15" using kr k by (simp_all add: xp_kraft_def l_def)
  from Suc obtain table c p where
    pl: "place_symbols (take k syms) (replicate (2 ^ 16) 0xFFFF, 0, 0) = Inr (table, c, p)"
    and len: "length table = 2 ^ 16" and p: "p = (if k = 0 then 0 else syms ! (k - 1) div 512)"
    and c: "c * 2 ^ (15 - p) = xp_start syms k"
    and div: "\<forall>j. j < k \<longrightarrow> xp_code syms j * xp_width (syms ! j) = xp_start syms j"
    and set: "\<forall>j. j < k \<longrightarrow> table ! xp_node syms j = syms ! j mod 512"
    and free: "\<forall>n. n < 2 ^ 16 \<longrightarrow> (\<forall>j. j < k \<longrightarrow> n \<noteq> xp_node syms j) \<longrightarrow> table ! n = 0xFFFF"
    by auto
  have pl': "p \<le> l"
  proof (cases "k = 0")
    case False
    have "syms ! (k - 1) \<le> syms ! k"
      using kr k by (auto simp: xp_kraft_def intro: sorted_nth_mono)
    with False p show ?thesis by (simp add: l_def div_le_mono)
  qed (simp add: p)
  define code where "code = c * 2 ^ (l - p)"
  have st: "code * xp_width (syms ! k) = xp_start syms k"
  proof -
    have "(2 :: nat) ^ (l - p) * 2 ^ (15 - l) = 2 ^ (15 - p)" using pl' l by (simp flip: power_add)
    then show ?thesis by (simp add: code_def xp_width_def mult.assoc c flip: l_def)
  qed
  then have code: "code = xp_code syms k" by (metis xp_code_def xp_width_def nonzero_mult_div_cancel_right power_not_zero zero_neq_numeral)
  have lt: "code < 2 ^ l" using xp_code_bounds [OF kr k] by (simp add: code l_def)
  have node: "xp_node syms k = 2 ^ l - 1 + code" by (simp add: xp_node_def code l_def)
  have "(2 :: nat) ^ Suc l \<le> 2 ^ 16" by (rule power_increasing) (use l in auto)
  with lt have n16: "xp_node syms k < 2 ^ 16" by (simp add: node)
  have step: "place_symbols (take (Suc k) syms) (replicate (2 ^ 16) 0xFFFF, 0, 0)
      = Inr (table[xp_node syms k := syms ! k mod 512], code + 1, l)"
    unfolding take_Suc_conv_app_nth [OF k] place_symbols_snoc pl rbind_Inr
      place_symbol_eq [OF len l(2) [unfolded l_def] pl' [unfolded l_def]] Let_def node
    using lt by (simp flip: l_def code_def)
  have ne: "xp_node syms j \<noteq> xp_node syms k" if j: "j < k" for j
  proof
    assume "xp_node syms j = xp_node syms k"
    then have "syms ! j div 512 = syms ! k div 512 \<and> xp_code syms j = xp_code syms k"
      using heap_node_inj xp_code_bounds [OF kr] j k unfolding xp_node_def by (meson order.strict_trans)
    then have "xp_start syms j = xp_start syms k"
      using div j st code by (metis xp_width_def)
    with xp_start_step [OF j, of syms] k show False by (simp add: xp_width_def)
  qed
  show ?case
  proof (intro exI conjI allI impI)
    show "place_symbols (take (Suc k) syms) (replicate (2 ^ 16) 0xFFFF, 0, 0)
      = Inr (table[xp_node syms k := syms ! k mod 512], code + 1, l)" by (rule step)
    show "l = (if Suc k = 0 then 0 else syms ! (Suc k - 1) div 512)" by (simp add: l_def)
    show "(code + 1) * 2 ^ (15 - l) = xp_start syms (Suc k)"
      using st k by (simp add: xp_start_Suc xp_width_def flip: l_def)
    fix j assume j: "j < Suc k"
    show "xp_code syms j * xp_width (syms ! j) = xp_start syms j"
      using j div st code by (cases "j = k") auto
    show "table[xp_node syms k := syms ! k mod 512] ! xp_node syms j = syms ! j mod 512"
    proof (cases "j = k")
      case True
      with n16 len show ?thesis by simp
    next
      case False
      with j have "j < k" by simp
      with set ne [OF this] show ?thesis by simp
    qed
  next
    fix n :: nat assume "n < 2 ^ 16" "\<forall>j. j < Suc k \<longrightarrow> n \<noteq> xp_node syms j"
    with free show "table[xp_node syms k := syms ! k mod 512] ! n = 0xFFFF"
      by (metis less_Suc_eq nth_list_update_neq)
  qed (use len in simp)
qed

lemma code_bits_walk:
  "m \<le> l \<Longrightarrow> foldl heap_child 0 (take m (code_bits c l)) = 2 ^ m - 1 + c div 2 ^ (l - m) mod 2 ^ m"
proof (induction m)
  case (Suc m)
  then have m: "m < l" by simp
  define q where "q = c div 2 ^ (l - Suc m)"
  have "l - m = Suc (l - Suc m)" using m by simp
  then have q: "c div 2 ^ (l - m) = q div 2" by (simp add: q_def flip: div_mult2_eq) (simp add: mult.commute)
  have b: "code_bits c l ! m = q mod 2"
    using m by (simp add: code_bits_def q_def rev_nth)
  have d: "q mod 2 ^ Suc m = 2 * (q div 2 mod 2 ^ m) + q mod 2" by (simp add: mod_mult2_eq)
  have "length (code_bits c l) = l" by (simp add: code_bits_def)
  with m have "take (Suc m) (code_bits c l) = take m (code_bits c l) @ [code_bits c l ! m]"
    by (simp add: take_Suc_conv_app_nth)
  then have "foldl heap_child 0 (take (Suc m) (code_bits c l))
      = heap_child (2 ^ m - 1 + q div 2 mod 2 ^ m) (q mod 2)"
    using Suc.IH m by (simp add: b q)
  moreover have "heap_child (2 ^ m - 1 + x) y = 2 ^ Suc m - 1 + (2 * x + y)" for x y
  proof -
    obtain p where "(2 :: nat) ^ m = Suc p" by (cases "(2 :: nat) ^ m") auto
    then show ?thesis by (simp add: heap_child_def)
  qed
  ultimately show ?case unfolding q_def [symmetric] d by simp
qed simp

lemma no_code_inside:
  assumes kr: "xp_kraft syms" and k: "k < length syms" and m: "m < syms ! k div 512"
    and j: "j < length syms"
    and exact: "\<And>j. j < length syms \<Longrightarrow> xp_code syms j * xp_width (syms ! j) = xp_start syms j"
  shows "2 ^ m - 1 + xp_code syms k div 2 ^ (syms ! k div 512 - m) \<noteq> xp_node syms j"
proof
  let ?l = "syms ! k div 512" and ?c = "xp_code syms k"
  define q where "q = ?c div 2 ^ (?l - m)"
  have l: "?l \<le> 15" using kr k by (simp add: xp_kraft_def)
  have "(2 :: nat) ^ ?l = 2 ^ m * 2 ^ (?l - m)" using m by (simp flip: power_add)
  then have q: "q < 2 ^ m"
    using xp_code_bounds [OF kr k] by (simp add: q_def less_mult_imp_div_less)
  assume "2 ^ m - 1 + ?c div 2 ^ (?l - m) = xp_node syms j"
  then have jm: "syms ! j div 512 = m" and jc: "xp_code syms j = q"
    using heap_node_inj [OF q xp_code_bounds [OF kr j]] by (auto simp: xp_node_def q_def)
  have lt: "?c < (q + 1) * 2 ^ (?l - m)"
    using div_less_iff_less_mult [of "2 ^ (?l - m)" ?c "q + 1"] by (simp add: q_def)
  have w: "xp_width (syms ! j) = 2 ^ (?l - m) * xp_width (syms ! k)"
    using l m jm by (simp add: xp_width_def flip: power_add)
  consider "j < k" | "k \<le> j" by linarith
  then show False
  proof cases
    case 1
    then have "q * xp_width (syms ! j) + xp_width (syms ! j) \<le> ?c * xp_width (syms ! k)"
      using xp_start_step [of j k syms] exact [OF j] exact [OF k] jc k by simp
    then have "(q + 1) * 2 ^ (?l - m) * xp_width (syms ! k) \<le> ?c * xp_width (syms ! k)"
      by (simp add: w algebra_simps)
    with lt show False by (simp add: xp_width_def)
  next
    case 2
    then have "syms ! k \<le> syms ! j" using kr j by (auto simp: xp_kraft_def intro: sorted_nth_mono)
    then have "?l \<le> syms ! j div 512" by (rule div_le_mono)
    with jm m show False by simp
  qed
qed

text \<open>
  C22. \<open>build_table\<close> lays the canonical Huffman code of the 512 nibble lengths out as a tree:
  whenever the lengths do not oversubscribe the code space, the walk of the decoder over the
  bits of a symbol's code (the symbols ordered by length and value, the code of the \<open>k\<close>-th
  being the space the earlier ones fill, in units of its own width) meets only internal nodes
  before its last bit, and the symbol there.
\<close>

theorem build_table_canonical:
  assumes syms: "syms = sort (xp_symbols tb)" and kraft: "xp_start syms (length syms) \<le> 2 ^ 15"
    and k: "k < length syms"
    and bits: "bits = code_bits (xp_code syms k) (syms ! k div 512)"
  shows "\<exists>table. xp_build_table tb = Inr table \<and> table ! foldl heap_child 0 bits = syms ! k mod 512
    \<and> (\<forall>m. m < length bits \<longrightarrow> table ! foldl heap_child 0 (take m bits) = 0xFFFF)"
proof -
  let ?l = "syms ! k div 512"
  have kr: "xp_kraft syms" using xp_symbols_range kraft by (auto simp: xp_kraft_def syms)
  from place_symbols_inv [OF kr, of "length syms"] obtain table c p where
    pl: "place_symbols syms (replicate (2 ^ 16) 0xFFFF, 0, 0) = Inr (table, c, p)"
    and exact: "\<And>j. j < length syms \<Longrightarrow> xp_code syms j * xp_width (syms ! j) = xp_start syms j"
    and set: "\<And>j. j < length syms \<Longrightarrow> table ! xp_node syms j = syms ! j mod 512"
    and free: "\<And>n. n < 2 ^ 16 \<Longrightarrow> (\<forall>j. j < length syms \<longrightarrow> n \<noteq> xp_node syms j) \<Longrightarrow> table ! n = 0xFFFF"
    by (auto simp del: One_nat_def)
  have len: "length bits = ?l" by (simp add: bits code_bits_def)
  have lt: "xp_code syms k < 2 ^ ?l" by (rule xp_code_bounds [OF kr k])
  have "xp_build_table tb = Inr table" unfolding xp_build_table_def pl [unfolded syms] by simp
  moreover have "foldl heap_child 0 bits = xp_node syms k"
    using code_bits_walk [of ?l ?l "xp_code syms k"] lt len by (simp add: bits xp_node_def)
  moreover have "table ! foldl heap_child 0 (take m bits) = 0xFFFF" if m: "m < length bits" for m
  proof -
    have ml: "m < ?l" using m len by simp
    have "(2 :: nat) ^ ?l = 2 ^ m * 2 ^ (?l - m)" using ml by (simp flip: power_add)
    then have q: "xp_code syms k div 2 ^ (?l - m) < 2 ^ m" using lt by (simp add: less_mult_imp_div_less)
    then have n: "foldl heap_child 0 (take m bits) = 2 ^ m - 1 + xp_code syms k div 2 ^ (?l - m)"
      using code_bits_walk [of m ?l] ml by (simp add: bits)
    have "(2 :: nat) ^ Suc m \<le> 2 ^ 16"
      by (rule power_increasing) (use kr k ml in \<open>auto simp: xp_kraft_def dest!: nth_mem\<close>)
    with q have "2 ^ m - 1 + xp_code syms k div 2 ^ (?l - m) < 2 ^ 16" by simp
    then show ?thesis unfolding n
      by (rule free) (use no_code_inside [OF kr k ml _ exact] in auto)
  qed
  ultimately show ?thesis using set [OF k] by auto
qed

text \<open>
  Two codes of one bit and two of two bits oversubscribe the space; one of one bit and two of
  two bits fill it: the last of them has the code 11.
\<close>

theorem build_table_canonical_witness:
  "\<exists>table. xp_build_table ([0x21, 0x02] @ replicate 254 0) = Inr table
    \<and> table ! foldl heap_child 0 [1, 1] = 2
    \<and> (\<forall>m. m < length [1 :: nat, 1] \<longrightarrow> table ! foldl heap_child 0 (take m [1, 1]) = 0xFFFF)"
proof -
  have "xp_symbols ([0x21, 0x02] @ replicate 254 0) = [512, 1025, 1026]"
  proof -
    have "[0..<256] = [0, 1] @ [2..<256 :: nat]"
      using upt_add_eq_append [of 0 2 254] by (simp add: upt_rec)
    moreover have z: "([0x21, 0x02] @ replicate 254 (0 :: u8)) ! i = 0" if "i \<in> set [2..<256]" for i
      using that by (cases i; cases "i - 1") auto
    moreover have "concat (map (\<lambda>i. f (([0x21, 0x02] @ replicate 254 (0 :: u8)) ! i) i) [2..<256]) = []"
      if "\<And>i. f 0 i = []" for f :: "u8 \<Rightarrow> nat \<Rightarrow> nat list"
    proof -
      have "map (\<lambda>i. f (([0x21, 0x02] @ replicate 254 0) ! i) i) [2..<256] = map (\<lambda>i. []) [2..<256]"
        by (rule map_cong [OF refl]) (simp only: z that)
      then show ?thesis by (simp only: concat_eq_Nil_conv set_map) blast
    qed
    ultimately show ?thesis
      unfolding xp_symbols_def Let_def map_append concat_append
      by (simp del: upt_rec_numeral)
  qed
  then have s: "sort (xp_symbols ([0x21, 0x02] @ replicate 254 0)) = [512, 1025, 1026]" by simp
  have e: "[512, 1025, 1026] ! 2 mod 512 = (2 :: nat)" by simp
  show ?thesis
    by (rule build_table_canonical [OF s [symmetric], of 2 "[1, 1]", unfolded e])
      (simp_all add: xp_start_def xp_width_def xp_code_def code_bits_def upt_rec)
qed

section \<open>Safety\<close>

text \<open>
  No access panics. The loop keeps 16 to 32 bits in the accumulator, and a match that waits for its
  distance (a length that is not 0) has distance bits left to read.
\<close>

definition xp_ok :: "xpress_state \<Rightarrow> bool" where
  "xp_ok st \<longleftrightarrow> 16 \<le> xp_remaining st \<and> xp_remaining st \<le> 32 \<and> (xp_length st \<noteq> 0 \<longrightarrow> 0 < xp_dist_bits st)"

lemma rbind_no_panic:
  "m \<noteq> Inl Panic \<Longrightarrow> (\<And>x. m = Inr x \<Longrightarrow> f x \<noteq> Inl Panic) \<Longrightarrow> rbind m f \<noteq> Inl Panic"
  by (cases m) auto

lemma rbind_eq_Inl: "rbind m f = Inl e \<longleftrightarrow> m = Inl e \<or> (\<exists>x. m = Inr x \<and> f x = Inl e)"
  by (cases m) auto

lemma xp_u8_ok: "xp_u8 input pos \<noteq> Inl Panic" and xp_u16_ok: "xp_u16 input pos \<noteq> Inl Panic"
  and xp_u32_ok: "xp_u32 input pos \<noteq> Inl Panic"
  by (simp_all add: xp_u8_def xp_u16_def xp_u32_def)

lemma xp_copy_extends:
  "start < length out \<Longrightarrow> \<exists>ext. xp_copy start n out = Inr (out @ ext) \<and> length ext = n"
proof (induction n arbitrary: start out)
  case (Suc n)
  then have "Suc start < length (out @ [out ! start])" by simp
  from Suc.IH [OF this] Suc.prems show ?case by force
qed simp

definition xp_appends :: "nat \<Rightarrow> bytes \<Rightarrow> xpress_state result \<Rightarrow> bool" where
  "xp_appends r out m = (case m of Inl e \<Rightarrow> e \<noteq> Panic
     | Inr st \<Rightarrow> xp_remaining st = r \<and> (\<exists>ext. xp_out st = out @ ext)
         \<and> (xp_length st \<noteq> 0 \<longrightarrow> 0 < xp_dist_bits st))"

lemma xp_emit_appends:
  assumes "xp_remaining st = r" "xp_out st = out"
  shows "xp_appends r out (xp_emit st)"
proof (cases "xp_dist_bits st = 0 \<and> xp_length st \<noteq> 0 \<and> xp_distance st \<noteq> 0 \<and> xp_distance st \<le> length (xp_out st)")
  case True
  then have "length (xp_out st) - xp_distance st < length (xp_out st)" by arith
  from xp_copy_extends [OF this, of "xp_length st"] True assms show ?thesis
    by (auto simp: xp_emit_def xp_appends_def)
next
  case False
  with assms show ?thesis by (auto simp: xp_emit_def xp_appends_def)
qed

lemma xp_match_length_ok: "xp_match_length input symbol pos \<noteq> Inl Panic"
  by (auto simp: xp_match_length_def Let_def rbind_eq_Inl xp_u8_ok xp_u16_ok xp_u32_ok)

lemma xp_appends_bind:
  assumes "m \<noteq> Inl Panic" "\<And>x. m = Inr x \<Longrightarrow> xp_appends r out (f x)"
  shows "xp_appends r out (rbind m f)"
  using assms by (cases m) (auto simp: xp_appends_def)

lemma xp_symbol_bit_appends:
  assumes "xp_length st = 0"
  shows "xp_appends (xp_remaining st) (xp_out st) (xp_symbol_bit input table b st)"
proof -
  note bind = xp_appends_bind [OF xp_match_length_ok]
  show ?thesis
    unfolding xp_symbol_bit_def Let_def using assms
    by (auto simp: xp_appends_def [where m = "Inl _"] xp_appends_def [where m = "Inr _"]
        intro!: bind xp_emit_appends)
qed

lemma xp_distance_bit_appends:
  assumes "0 < xp_dist_bits st"
  shows "xp_appends (xp_remaining st) (xp_out st) (xp_distance_bit b st)"
  unfolding xp_distance_bit_def using assms by (simp add: xp_emit_appends)

lemma xp_round_spec:
  assumes "xp_ok st"
  shows "case xp_round input table st of Inl e \<Rightarrow> e \<noteq> Panic | Inr st' \<Rightarrow>
    xp_ok st' \<and> (\<exists>ext. xp_out st' = xp_out st @ ext)"
proof -
  let ?pull = "if xp_remaining st = 16 then xp_pull input st else Inr st"
  have pull: "case ?pull of Inl e \<Rightarrow> e \<noteq> Panic | Inr s \<Rightarrow> 17 \<le> xp_remaining s \<and> xp_remaining s \<le> 32
      \<and> xp_out s = xp_out st \<and> (xp_length s \<noteq> 0 \<longrightarrow> 0 < xp_dist_bits s)"
    using assms by (auto simp: xp_ok_def xp_pull_def xp_u8_def xp_u16_def)
  show ?thesis
  proof (cases ?pull)
    case (Inl e)
    then have "xp_round input table st = Inl e" unfolding xp_round_def by simp
    moreover have "e \<noteq> Panic" using pull unfolding Inl by simp
    ultimately show ?thesis by simp
  next
    case (Inr s)
    have s: "17 \<le> xp_remaining s" "xp_remaining s \<le> 32" "xp_out s = xp_out st"
      "xp_length s \<noteq> 0 \<longrightarrow> 0 < xp_dist_bits s"
      using pull unfolding Inr by simp_all
    define s' where "s' = s\<lparr>xp_remaining := xp_remaining s - 1\<rparr>"
    define b :: nat where "b = of_bool (bit (xp_bits s) (xp_remaining s - 1))"
    have "xp_round input table st
        = (if xp_length s = 0 then xp_symbol_bit input table b s' else xp_distance_bit b s')"
      using s(1) unfolding xp_round_def Inr Let_def b_def s'_def by simp
    moreover have "xp_appends (xp_remaining s') (xp_out s') (xp_symbol_bit input table b s')" if "xp_length s = 0"
      using that by (intro xp_symbol_bit_appends) (simp add: s'_def)
    moreover have "xp_appends (xp_remaining s') (xp_out s') (xp_distance_bit b s')" if "xp_length s \<noteq> 0"
      using that s(4) by (intro xp_distance_bit_appends) (simp add: s'_def)
    ultimately have "xp_appends (xp_remaining s') (xp_out s') (xp_round input table st)" by simp
    with s show ?thesis by (auto simp: xp_appends_def xp_ok_def s'_def split: sum.splits)
  qed
qed

lemma xp_block_spec:
  "xp_ok st \<Longrightarrow> case xp_block input table block_end st of Inl e \<Rightarrow> e \<noteq> Panic | Inr st' \<Rightarrow>
    block_end \<le> length (xp_out st') \<and> (\<exists>ext. xp_out st' = xp_out st @ ext)"
proof (induction input table block_end st rule: xp_block.induct)
  case (1 input table block_end st)
  note round = xp_round_spec [OF 1(2), of input table]
  show ?case
  proof (cases "length (xp_out st) < block_end")
    case True
    show ?thesis
    proof (cases "xp_round input table st")
      case (Inl e)
      with round True show ?thesis by (subst xp_block.simps) simp
    next
      case (Inr s)
      then obtain ext where s: "xp_ok s" "xp_out s = xp_out st @ ext" using round by auto
      have eq: "xp_block input table block_end st = xp_block input table block_end s"
        using True Inr by (subst xp_block.simps) simp
      from 1(1) [OF True Inr s(1)] s(2) show ?thesis unfolding eq by (auto split: sum.splits)
    qed
  next
    case False
    then show ?thesis by (subst xp_block.simps) simp
  qed
qed

lemma xp_stream_spec:
  "case xp_stream input target pos out of Inl e \<Rightarrow> e \<noteq> Panic | Inr out' \<Rightarrow>
    target \<le> length out' \<and> (\<exists>ext. out' = out @ ext)"
proof (induction input target pos out rule: xp_stream.induct)
  case (1 input target pos out)
  show ?case
  proof (cases "length out < target")
    case more: True
    let ?goal = "min (length out + 0x10000) target"
    obtain tb where tb: "xp_build_table (subrange pos (pos + 256) input) = Inr tb"
      using xp_build_table_total by blast
    have ok: "xp_open_block input pos out \<noteq> Inl Panic"
      by (auto simp: xp_open_block_def xp_u16_ok tb rbind_eq_Inl)
    show ?thesis
    proof (cases "xp_open_block input pos out")
      case (Inl e)
      with more ok show ?thesis by (subst xp_stream.simps) simp
    next
      case (Inr p)
      then obtain table st where p: "p = (table, st)" by (cases p)
      have st: "xp_ok st" "xp_out st = out"
        using Inr p by (auto simp: xp_open_block_def xp_u16_def xp_ok_def split: if_splits)
      note block = xp_block_spec [OF st(1), where input = input and table = table and block_end = ?goal]
      show ?thesis
      proof (cases "xp_block input table ?goal st")
        case (Inl e)
        with more \<open>xp_open_block input pos out = Inr p\<close> p block show ?thesis
          by (subst xp_stream.simps) simp
      next
        case (Inr st')
        then obtain ext where ext: "xp_out st' = out @ ext" using block st(2) by auto
        have eq: "xp_stream input target pos out = xp_stream input target (xp_pos st') (xp_out st')"
          using more \<open>xp_open_block input pos out = Inr p\<close> p Inr by (subst xp_stream.simps) simp
        from 1 [OF more \<open>xp_open_block input pos out = Inr p\<close> p [symmetric] Inr] ext show ?thesis
          unfolding eq by (auto split: sum.splits)
      qed
    qed
  next
    case False
    then show ?thesis by (subst xp_stream.simps) simp
  qed
qed

lemma xp_stream_ok: "xp_stream input target pos out \<noteq> Inl Panic"
  using xp_stream_spec [where input = input and target = target and pos = pos and out = out] by auto

lemma xp_chunk_ok: "length out \<le> whole \<Longrightarrow> xp_chunk data chunk_size whole cursor out \<noteq> Inl Panic"
  by (auto simp: xp_chunk_def Let_def rbind_eq_Inl decompress_block_stream_def xp_stream_ok)

lemma xp_chunks_spec:
  "case xp_chunks data chunk_size whole cursor out of Inl e \<Rightarrow> e \<noteq> Panic | Inr out' \<Rightarrow> whole \<le> length out'"
proof (induction data chunk_size whole cursor out rule: xp_chunks.induct)
  case (1 data chunk_size whole cursor out)
  show ?case
  proof (cases "length out < whole")
    case True
    then show ?thesis
    proof (cases "xp_chunk data chunk_size whole cursor out")
      case (Inl e)
      then have "e \<noteq> Panic" using xp_chunk_ok [of out whole] True by auto
      with Inl True show ?thesis by (subst xp_chunks.simps) simp
    next
      case (Inr p)
      with 1 [OF True Inr] True show ?thesis by (cases p) (subst xp_chunks.simps, simp)
    qed
  next
    case False
    then show ?thesis by (subst xp_chunks.simps) simp
  qed
qed

text \<open>
  C23. On any bytes at all \<open>decompress_container\<close> returns and never panics: every slice of the input,
  every access to the table and to the output (also those of a match whose distance the input
  gives), every subtraction of positions and every shift count is in range. It fails with an
  error, or returns at least as many bytes as the container announces. (It can return more: the
  length of a match is not cut at the end of its block.)
\<close>

theorem xpress_container_safe:
  "case xp_decompress_container data of
     Inl e \<Rightarrow> e \<noteq> Panic
   | Inr out \<Rightarrow> unat (from_le (subrange 8 16 data) :: u64) \<le> length out"
  using xp_chunks_spec by (simp add: xp_decompress_container_def Let_def)

end
