(* ===== verification/Pa30Header.thy ===== *)
theory Pa30Header imports BitCodec Pa19 begin

text \<open>
  The PA30 and PA31 headers, \<open>src/pa30/header.rs\<close>, with the part of \<open>CreateOptions::execute\<close>
  (\<open>src/pa30/encode.rs\<close>) that writes the container, and the DCM wrapper of \<open>src/dcm.rs\<close>. In
  PA31 the fields sit in a buffer of their own; the preprocess and patch buffers follow in the
  outer stream either way.
\<close>

section \<open>Header types\<close>

datatype format_version = PA19 | PA30 | PA31

record pa31_extra =
  px_field1 :: u32
  px_field2 :: u32
  px_field3 :: u32
  px_extra_hash :: bytes

record header =
  hd_version :: format_version
  hd_target_file_time :: u64
  hd_file_type_set :: i64
  hd_file_type :: i64
  hd_flags :: i64
  hd_target_size :: i64
  hd_hash_alg_id :: u32
  hd_target_hash :: bytes
  hd_pa31_extra :: "pa31_extra option"

record parsed_delta =
  pd_header :: header
  pd_preprocess :: bytes
  pd_patch_data :: bytes

definition pa30_magic :: bytes where
  "pa30_magic = [0x50, 0x41, 0x33, 0x30]"

definition pa31_magic :: bytes where
  "pa31_magic = [0x50, 0x41, 0x33, 0x31]"

definition max_hash_len :: nat where
  "max_hash_len = 33"

section \<open>Parsing\<close>

text \<open>The fields in stream order: file type set, file type, flags, target size, hash algorithm, hash.\<close>

type_synonym header_fields = "i64 \<times> i64 \<times> i64 \<times> i64 \<times> i64 \<times> bytes"

definition read_header_fields :: "bit_reader \<Rightarrow> (header_fields \<times> bit_reader) result" where
  "read_header_fields r =
     rbind (read_i64 r) (\<lambda>(file_type_set, r).
     rbind (read_i64 r) (\<lambda>(file_type, r).
     rbind (read_i64 r) (\<lambda>(flags, r).
     rbind (read_i64 r) (\<lambda>(tsize, r).
     rbind (read_i64 r) (\<lambda>(hash_alg_id, r).
     rbind (read_buffer r) (\<lambda>(target_hash, r).
       Inr ((file_type_set, file_type, flags, tsize, hash_alg_id, target_hash), r)))))))"

definition read_pa31_extra :: "bit_reader \<Rightarrow> (pa31_extra \<times> bit_reader) result" where
  "read_pa31_extra r =
     rbind (read_i64 r) (\<lambda>(f1, r).
     rbind (read_i64 r) (\<lambda>(f2, r).
     rbind (read_i64 r) (\<lambda>(f3, r).
     rbind (read_buffer r) (\<lambda>(extra_hash, r).
       if max_hash_len < length extra_hash
       then Inl (HashTooLarge (length extra_hash) max_hash_len)
       else Inr (\<lparr>px_field1 = ucast f1, px_field2 = ucast f2, px_field3 = ucast f3,
                  px_extra_hash = extra_hash\<rparr>, r)))))"

definition delta_version :: "bytes \<Rightarrow> format_version result" where
  "delta_version magic =
     (if magic = pa30_magic then Inr PA30
      else if magic = pa31_magic then Inr PA31
      else Inl (BadMagic pa30_magic magic))"

definition parse_header_body :: "format_version \<Rightarrow> bytes \<Rightarrow> header result" where
  "parse_header_body version delta =
     rbind (reader_new (drop 12 delta)) (\<lambda>outer_reader.
     rbind (if version = PA31
            then rbind (read_buffer outer_reader) (\<lambda>(buf, _). reader_new buf)
            else Inr outer_reader) (\<lambda>reader.
     rbind (read_header_fields reader) (\<lambda>((file_type_set, file_type, flags, tsize, alg, target_hash), reader).
       if max_hash_len < length target_hash
       then Inl (HashTooLarge (length target_hash) max_hash_len)
       else if tsize <s 0 then Inl (Malformed ''negative target size'')
       else
         rbind (if version = PA31
                then rbind (read_pa31_extra reader) (\<lambda>(extra, _). Inr (Some extra))
                else Inr None) (\<lambda>pa31_extra.
           Inr \<lparr>hd_version = version, hd_target_file_time = from_le (subrange 4 12 delta),
                hd_file_type_set = file_type_set, hd_file_type = file_type, hd_flags = flags,
                hd_target_size = tsize, hd_hash_alg_id = ucast alg, hd_target_hash = target_hash,
                hd_pa31_extra = pa31_extra\<rparr>))))"

definition parse_header :: "bytes \<Rightarrow> header result" where
  "parse_header delta =
     (if length delta < 12 then Inl Truncated
      else
        let magic = take 4 delta in
        if magic = pa19_magic then
          rbind (pa19_decode delta) (\<lambda>pa19_hdr.
            Inr \<lparr>hd_version = PA19, hd_target_file_time = 0, hd_file_type_set = 1, hd_file_type = 1,
                 hd_flags = ucast (pa19_flags pa19_hdr), hd_target_size = ucast (new_file_size pa19_hdr),
                 hd_hash_alg_id = 0, hd_target_hash = [], hd_pa31_extra = None\<rparr>)
        else
          rbind (delta_version magic) (\<lambda>version. parse_header_body version delta))"

definition parse_delta :: "bytes \<Rightarrow> parsed_delta result" where
  "parse_delta delta =
     (if length delta < 12 then Inl Truncated
      else
        let magic = take 4 delta in
        if magic = pa19_magic then Inl (Malformed ''PA19 does not use ParsedDelta format'')
        else
          rbind (delta_version magic) (\<lambda>version.
          rbind (reader_new (drop 12 delta)) (\<lambda>outer_reader.
          rbind (if version = PA31
                 then rbind (read_buffer outer_reader) (\<lambda>(_, r). Inr r)
                 else rbind (read_header_fields outer_reader) (\<lambda>(_, r). Inr r)) (\<lambda>outer_reader.
          rbind (parse_header delta) (\<lambda>header.
            if hd_file_type_set header AND 0x100 \<noteq> 0 then
              rbind (read_buffer outer_reader) (\<lambda>(reversal_data, _).
                Inr \<lparr>pd_header = header, pd_preprocess = [], pd_patch_data = reversal_data\<rparr>)
            else
              rbind (read_buffer outer_reader) (\<lambda>(preprocess, outer_reader).
              rbind (read_buffer outer_reader) (\<lambda>(patch_data, _).
                Inr \<lparr>pd_header = header, pd_preprocess = preprocess, pd_patch_data = patch_data\<rparr>)))))))"

section \<open>Writing\<close>

definition write_header_fields :: "bit_writer \<Rightarrow> header_fields \<Rightarrow> bit_writer" where
  "write_header_fields w = (\<lambda>(file_type_set, file_type, flags, tsize, hash_alg_id, target_hash).
     let w = write_i64 w file_type_set;
         w = write_i64 w file_type;
         w = write_i64 w flags;
         w = write_i64 w tsize;
         w = write_i64 w hash_alg_id
     in write_buffer w target_hash)"

definition write_pa31_extra :: "bit_writer \<Rightarrow> bit_writer" where
  "write_pa31_extra w =
     (let w = write_i64 w 0;
          w = write_i64 w 0;
          w = write_i64 w 0
      in write_buffer w [])"

definition write_delta :: "format_version \<Rightarrow> header_fields \<Rightarrow> bytes \<Rightarrow> bytes \<Rightarrow> bytes" where
  "write_delta version hfields preprocess patch_data =
     (let magic = (if version = PA31 then pa31_magic else pa30_magic);
          outer = (if version = PA31
                   then write_buffer writer_new
                          (writer_finish (write_pa31_extra (write_header_fields writer_new hfields)))
                   else write_header_fields writer_new hfields);
          outer = write_buffer outer preprocess;
          outer = write_buffer outer patch_data
      in magic @ to_le 8 (0 :: u64) @ writer_finish outer)"

section \<open>The DCM wrapper\<close>

definition dcm_magic :: bytes where
  "dcm_magic = [0x44, 0x43, 0x4D, 1]"

definition is_dcm :: "bytes \<Rightarrow> bool" where
  "is_dcm buf \<longleftrightarrow> 4 \<le> length buf \<and> take 4 buf = dcm_magic"

definition dcm_strip :: "bytes \<Rightarrow> bytes result" where
  "dcm_strip buf =
     (if length buf < 4 then Inl Truncated
      else if take 4 buf \<noteq> dcm_magic then Inl (BadMagic dcm_magic (take 4 buf))
      else Inr (drop 4 buf))"

definition dcm_wrap :: "bytes \<Rightarrow> bytes" where
  "dcm_wrap pa30 = dcm_magic @ pa30"

lemma dcm_round_trip: "is_dcm (dcm_wrap pa30) \<and> dcm_strip (dcm_wrap pa30) = Inr pa30"
  by (simp add: is_dcm_def dcm_strip_def dcm_wrap_def dcm_magic_def)

lemma dcm_strip_is_dcm: "is_ok (dcm_strip buf) \<longleftrightarrow> is_dcm buf"
  by (auto simp: dcm_strip_def is_dcm_def)

section \<open>The codecs of the header\<close>

definition enc_fields :: "nat \<Rightarrow> header_fields \<Rightarrow> bool list" where
  "enc_fields n = (\<lambda>(a, b, c, d, e, h).
     let ints = enc_i64 a @ enc_i64 b @ enc_i64 c @ enc_i64 d @ enc_i64 e
     in ints @ enc_buffer (n + length ints) h)"

lemma get_enc_i64:
  assumes "reader_ok r" "rd_stream r = enc_i64 x @ rest" "rd_padding r \<le> length rest"
  shows "delivers (read_i64 r) x rest (rd_padding r)"
proof -
  define n where "n = 8 * length (rd_stream r) - length (rd_stream r)"
  have "8 dvd n + length (rd_stream r)" by (simp add: n_def)
  with varint.get_enc [OF assms(1) TrueI assms(2) _ assms(3)] show ?thesis by blast
qed

lemma delivers_i64:
  assumes "reader_ok r" "rd_stream r = enc_i64 x @ rest" "rd_padding r \<le> length rest"
    and "\<And>r'. reader_ok r' \<Longrightarrow> rd_stream r' = rest \<Longrightarrow> rd_padding r' = rd_padding r \<Longrightarrow>
      delivers (f (x, r')) y rest' p"
  shows "delivers (rbind (read_i64 r) f) y rest' p"
  by (rule delivers_bind [OF get_enc_i64 [OF assms(1-3)]]) (rule assms(4))

interpretation hfields: bit_codec write_header_fields read_header_fields enc_fields
  "\<lambda>(a, b, c, d, e, h). length h < 2 ^ 29"
proof (unfold_locales, goal_cases)
  case (1 w x)
  obtain a b c d e h where x: "x = (a, b, c, d, e, h)" by (cases x)
  from 1 show ?case by (simp add: x write_header_fields_def Let_def write_i64_spec write_buffer_spec)
next
  case (2 w x)
  obtain a b c d e h where x: "x = (a, b, c, d, e, h)" by (cases x)
  from 2 show ?case
    by (simp add: x write_header_fields_def enc_fields_def Let_def write_i64_spec write_buffer_spec add.assoc)
next
  case (3 r x n rest)
  obtain a b c d e h where x: "x = (a, b, c, d, e, h)" by (cases x)
  define k where "k = n + length (enc_i64 a @ enc_i64 b @ enc_i64 c @ enc_i64 d @ enc_i64 e)"
  have h: "length h < 2 ^ 29" using 3(2) by (simp add: x)
  have s: "rd_stream r = enc_i64 a @ enc_i64 b @ enc_i64 c @ enc_i64 d @ enc_i64 e @ enc_buffer k h @ rest"
    using 3(3) by (simp add: x enc_fields_def k_def Let_def)
  have dv: "8 dvd k + length (enc_buffer k h @ rest)" using 3(4) by (simp add: s k_def add.assoc)
  show ?case
    unfolding x read_header_fields_def
  proof (rule delivers_i64 [OF 3(1) s], goal_cases)
    case (2 r1)
    note p1 = this
    show ?case unfolding prod.case
    proof (rule delivers_i64 [OF p1(1,2)], goal_cases)
      case (2 r2)
      note p2 = this
      show ?case unfolding prod.case
      proof (rule delivers_i64 [OF p2(1,2)], goal_cases)
        case (2 r3)
        note p3 = this
        show ?case unfolding prod.case
        proof (rule delivers_i64 [OF p3(1,2)], goal_cases)
          case (2 r4)
          note p4 = this
          show ?case unfolding prod.case
          proof (rule delivers_i64 [OF p4(1,2)], goal_cases)
            case (2 r5)
            note p5 = this
            have "delivers (read_buffer r5) h rest (rd_padding r5)"
              by (rule buffer.get_enc [OF p5(1) h p5(2)]) (use dv p5 p4 p3 p2 p1 3(5) in auto)
            then show ?case unfolding prod.case
              by (rule delivers_bind) (use p5 p4 p3 p2 p1 in \<open>auto intro: deliversI\<close>)
          qed (use p4 p3 p2 p1 3(5) in auto)
        qed (use p3 p2 p1 3(5) in auto)
      qed (use p2 p1 3(5) in auto)
    qed (use p1 3(5) in auto)
  qed (use 3(5) in auto)
qed

definition enc_extra :: "nat \<Rightarrow> bool list" where
  "enc_extra n = (let ints = enc_i64 0 @ enc_i64 0 @ enc_i64 0 in ints @ enc_buffer (n + length ints) [])"

lemma write_pa31_extra_spec:
  "writer_ok w \<Longrightarrow> writer_ok (write_pa31_extra w)
    \<and> wr_stream (write_pa31_extra w) = wr_stream w @ enc_extra (length (wr_stream w))"
  by (simp add: write_pa31_extra_def enc_extra_def Let_def write_i64_spec write_buffer_spec add.assoc)

lemma read_pa31_extra_enc:
  assumes r: "reader_ok r" and s: "rd_stream r = enc_extra n @ rest"
    and d: "8 dvd n + length (rd_stream r)" and p: "rd_padding r \<le> length rest"
  shows "delivers (read_pa31_extra r) \<lparr>px_field1 = 0, px_field2 = 0, px_field3 = 0, px_extra_hash = []\<rparr>
    rest (rd_padding r)"
proof -
  define k where "k = n + length (enc_i64 0 @ enc_i64 0 @ enc_i64 0)"
  have s': "rd_stream r = enc_i64 0 @ enc_i64 0 @ enc_i64 0 @ enc_buffer k [] @ rest"
    using s by (simp add: enc_extra_def k_def Let_def)
  have dv: "8 dvd k + length (enc_buffer k [] @ rest)" using d by (simp add: s' k_def add.assoc)
  show ?thesis
    unfolding read_pa31_extra_def
  proof (rule delivers_i64 [OF r s'], goal_cases)
    case (2 r1)
    note p1 = this
    show ?case unfolding prod.case
    proof (rule delivers_i64 [OF p1(1,2)], goal_cases)
      case (2 r2)
      note p2 = this
      show ?case unfolding prod.case
      proof (rule delivers_i64 [OF p2(1,2)], goal_cases)
        case (2 r3)
        note p3 = this
        have "delivers (read_buffer r3) [] rest (rd_padding r3)"
          by (rule buffer.get_enc [OF p3(1) _ p3(2)]) (use dv p3 p2 p1 p in auto)
        then show ?case unfolding prod.case
          by (rule delivers_bind) (use p3 p2 p1 in \<open>auto simp: max_hash_len_def intro: deliversI\<close>)
      qed (use p2 p1 p in auto)
    qed (use p1 p in auto)
  qed (use p in auto)
qed

section \<open>Reading back what was written\<close>

lemma enc_buffer_length: "length (enc_buffer n d) \<le> 87 + 8 * length d"
  using enc_i64_length [of "of_nat (length d)"] align_len(1) [of "n + length (enc_i64 (of_nat (length d)))"]
  by (simp add: enc_buffer_def Let_def)

lemma enc_fields_length: "length (enc_fields n (a, b, c, d, e, h)) \<le> 487 + 8 * length h"
  using enc_i64_length [of a] enc_i64_length [of b] enc_i64_length [of c] enc_i64_length [of d]
    enc_i64_length [of e] enc_buffer_length
      [of "n + length (enc_i64 a @ enc_i64 b @ enc_i64 c @ enc_i64 d @ enc_i64 e)" h]
  by (simp add: enc_fields_def Let_def)

lemma enc_extra_length: "length (enc_extra n) \<le> 327"
  using enc_i64_length [of 0] enc_buffer_length [of "n + length (enc_i64 0 @ enc_i64 0 @ enc_i64 0)" "[]"]
  by (simp add: enc_extra_def Let_def)

lemma writer_finish_length:
  assumes "writer_ok w" "wr_stream w = [False, False, False] @ s"
  shows "8 * length (writer_finish w) \<le> length s + 10"
proof -
  have "3 \<le> length (wr_stream w)" using assms(2) by simp
  note F = writer_finish_spec [OF assms(1) this]
  have "8 * length (writer_finish w) = length (bytes_bits (writer_finish w))" by simp
  also have "\<dots> \<le> length s + 10" unfolding F(2) using assms(2) align_len(1) [of "length (wr_stream w)"] by simp
  finally show ?thesis .
qed

lemma reopen_aligned:
  assumes "writer_ok w" "wr_stream w = [False, False, False] @ s" "length s < 2 ^ 31"
  obtains r z where "reader_new (writer_finish w) = Inr r" "reader_ok r" "rd_stream r = s @ z"
    "rd_padding r \<le> length z" "8 dvd 3 + length (rd_stream r)"
proof -
  let ?z = "replicate (align_len (3 + length s)) False"
  obtain r where r: "reader_new (writer_finish w) = Inr r" "reader_ok r" "rd_stream r = s @ ?z"
    "rd_padding r = align_len (3 + length s)" by (rule reopen [OF assms])
  show thesis
    by (rule that [of r ?z])
      (use r align_len(2) [of "3 + length s"] in \<open>simp_all add: add.assoc\<close>)
qed

text \<open>The buffer of the PA31 header, opened again.\<close>

definition pa31_header_buffer :: "header_fields \<Rightarrow> bytes" where
  "pa31_header_buffer hf = writer_finish (write_pa31_extra (write_header_fields writer_new hf))"

lemma pa31_header_buffer:
  assumes h: "length h \<le> max_hash_len"
  shows "length (pa31_header_buffer (a, b, c, d, e, h)) \<le> 200"
    "\<exists>r r' r''. reader_new (pa31_header_buffer (a, b, c, d, e, h)) = Inr r
      \<and> read_header_fields r = Inr ((a, b, c, d, e, h), r')
      \<and> read_pa31_extra r' = Inr (\<lparr>px_field1 = 0, px_field2 = 0, px_field3 = 0, px_extra_hash = []\<rparr>, r'')"
proof -
  let ?hf = "(a, b, c, d, e, h)"
  let ?w = "write_pa31_extra (write_header_fields writer_new ?hf)"
  let ?e = "enc_fields 3 ?hf"
  let ?s = "?e @ enc_extra (3 + length ?e)"
  have v: "length h < 2 ^ 29" using h by (simp add: max_hash_len_def)
  have f: "writer_ok (write_header_fields writer_new ?hf)"
    "wr_stream (write_header_fields writer_new ?hf) = [False, False, False] @ ?e"
    using hfields.put_ok [OF writer_new_spec(1), of ?hf] hfields.put_enc [OF writer_new_spec(1), of ?hf] v
    by (simp_all add: writer_new_spec(2) numeral_3_eq_3)
  have w: "writer_ok ?w" "wr_stream ?w = [False, False, False] @ ?s"
    using write_pa31_extra_spec [OF f(1)] f(2) by (simp_all add: numeral_3_eq_3)
  have len: "length ?s \<le> 1100"
    using enc_fields_length [of 3 a b c d e h] enc_extra_length [of "3 + length ?e"] h
    by (simp add: max_hash_len_def)
  show "length (pa31_header_buffer ?hf) \<le> 200"
    using writer_finish_length [OF w] len by (simp add: pa31_header_buffer_def)
  have "length ?s < 2 ^ 31" using len by simp
  then obtain r z where r: "reader_new (writer_finish ?w) = Inr r" "reader_ok r" "rd_stream r = ?s @ z"
    "rd_padding r \<le> length z" "8 dvd 3 + length (rd_stream r)"
    by (rule reopen_aligned [OF w])
  have "delivers (read_header_fields r) ?hf (enc_extra (3 + length ?e) @ z) (rd_padding r)"
    by (rule hfields.get_enc [OF r(2), where n = 3]) (use v r in simp_all)
  then obtain r' where r': "read_header_fields r = Inr (?hf, r')" "reader_ok r'"
    "rd_stream r' = enc_extra (3 + length ?e) @ z" "rd_padding r' = rd_padding r"
    unfolding delivers_def by blast
  have "8 dvd (3 + length ?e) + length (rd_stream r')" using r(3,5) r'(3) by (simp add: add.assoc)
  from read_pa31_extra_enc [OF r'(2,3) this] r(4) r'(4) obtain r'' where
    "read_pa31_extra r' = Inr (\<lparr>px_field1 = 0, px_field2 = 0, px_field3 = 0, px_extra_hash = []\<rparr>, r'')"
    by (auto simp: delivers_def)
  with r(1) r'(1) show "\<exists>r r' r''. reader_new (pa31_header_buffer ?hf) = Inr r
      \<and> read_header_fields r = Inr (?hf, r')
      \<and> read_pa31_extra r' = Inr (\<lparr>px_field1 = 0, px_field2 = 0, px_field3 = 0, px_extra_hash = []\<rparr>, r'')"
    by (auto simp: pa31_header_buffer_def)
qed

lemma two_buffers:
  assumes r: "reader_ok r" and s: "rd_stream r = enc_buffer n p @ enc_buffer (n + length (enc_buffer n p)) q @ z"
    and d: "8 dvd n + length (rd_stream r)" "rd_padding r \<le> length z" and v: "length p < 2 ^ 29" "length q < 2 ^ 29"
  shows "\<exists>r1 r2. read_buffer r = Inr (p, r1) \<and> read_buffer r1 = Inr (q, r2)"
proof -
  have "delivers (read_buffer r) p (enc_buffer (n + length (enc_buffer n p)) q @ z) (rd_padding r)"
    by (rule buffer.get_enc [OF r v(1) s d(1)]) (use d in simp)
  then obtain r1 where r1: "read_buffer r = Inr (p, r1)" "reader_ok r1"
    "rd_stream r1 = enc_buffer (n + length (enc_buffer n p)) q @ z" "rd_padding r1 = rd_padding r"
    unfolding delivers_def by blast
  have "delivers (read_buffer r1) q z (rd_padding r1)"
    by (rule buffer.get_enc [OF r1(2) v(2) r1(3)]) (use d r1 s in \<open>simp_all add: add.assoc\<close>)
  with r1(1) show ?thesis by (auto simp: delivers_def)
qed

lemma two_buffers_spec:
  assumes "writer_ok w" "wr_stream w = [False, False, False] @ s"
  shows "writer_ok (write_buffer (write_buffer w p) q)"
    "wr_stream (write_buffer (write_buffer w p) q) = [False, False, False] @ s @ enc_buffer (3 + length s) p
      @ enc_buffer (3 + length s + length (enc_buffer (3 + length s) p)) q"
  using assms by (simp_all add: write_buffer_spec add.assoc numeral_3_eq_3)

definition written_header :: "format_version \<Rightarrow> header_fields \<Rightarrow> header" where
  "written_header version = (\<lambda>(file_type_set, file_type, flags, tsize, alg, target_hash).
     \<lparr>hd_version = version, hd_target_file_time = 0, hd_file_type_set = file_type_set,
      hd_file_type = file_type, hd_flags = flags, hd_target_size = tsize, hd_hash_alg_id = ucast alg,
      hd_target_hash = target_hash,
      hd_pa31_extra = (if version = PA31
        then Some \<lparr>px_field1 = 0, px_field2 = 0, px_field3 = 0, px_extra_hash = []\<rparr> else None)\<rparr>)"

lemma write_delta_parts:
  assumes "version = PA30 \<or> version = PA31"
  shows "12 \<le> length (write_delta version hf p q)"
    "take 4 (write_delta version hf p q) = (if version = PA31 then pa31_magic else pa30_magic)"
    "from_le (subrange 4 12 (write_delta version hf p q)) = (0 :: u64)"
    "drop 12 (write_delta version hf p q) = writer_finish (write_buffer (write_buffer
       (if version = PA31 then write_buffer writer_new (pa31_header_buffer hf)
        else write_header_fields writer_new hf) p) q)"
proof -
  have l: "length (to_le 8 (0 :: u64)) = 8" by simp
  show "12 \<le> length (write_delta version hf p q)"
    "take 4 (write_delta version hf p q) = (if version = PA31 then pa31_magic else pa30_magic)"
    "drop 12 (write_delta version hf p q) = writer_finish (write_buffer (write_buffer
       (if version = PA31 then write_buffer writer_new (pa31_header_buffer hf)
        else write_header_fields writer_new hf) p) q)"
    by (simp_all add: write_delta_def Let_def pa30_magic_def pa31_magic_def pa31_header_buffer_def)
  have "subrange 4 12 (write_delta version hf p q) = to_le 8 (0 :: u64)"
    by (simp add: write_delta_def Let_def pa30_magic_def pa31_magic_def subrange_def)
  then show "from_le (subrange 4 12 (write_delta version hf p q)) = (0 :: u64)" by simp
qed

lemma delta_round_trip_aux:
  assumes v: "version = PA30 \<or> version = PA31" and h: "length h \<le> max_hash_len"
    and sz: "0 \<le> sint d" and fts: "a AND 0x100 = 0"
    and len: "8 * length p + 8 * length q \<le> 2 ^ 31 - 4000"
  shows "parse_header (write_delta version (a, b, c, d, e, h) p q) = Inr (written_header version (a, b, c, d, e, h))"
    "parse_delta (write_delta version (a, b, c, d, e, h) p q)
      = Inr \<lparr>pd_header = written_header version (a, b, c, d, e, h), pd_preprocess = p, pd_patch_data = q\<rparr>"
proof -
  let ?hf = "(a, b, c, d, e, h)"
  let ?d = "write_delta version ?hf p q"
  note P = write_delta_parts [OF v, of ?hf p q]
  have hl: "length h < 2 ^ 29" using h by (simp add: max_hash_len_def)
  note B = pa31_header_buffer [OF h, of a b c d e]
  have pq: "length p < 2 ^ 29" "length q < 2 ^ 29" using len by simp_all
  have ne: "pa31_magic \<noteq> pa30_magic" "pa30_magic \<noteq> pa19_magic" "pa31_magic \<noteq> pa19_magic"
    by (simp_all add: pa30_magic_def pa31_magic_def pa19_magic_def)
  define w where "w = (if version = PA31 then write_buffer writer_new (pa31_header_buffer ?hf)
        else write_header_fields writer_new ?hf)"
  define s where "s = (if version = PA31 then enc_buffer 3 (pa31_header_buffer ?hf) else enc_fields 3 ?hf)"
  have w: "writer_ok w" "wr_stream w = [False, False, False] @ s"
    using hfields.put_ok [OF writer_new_spec(1), of ?hf] hfields.put_enc [OF writer_new_spec(1), of ?hf] hl
      write_buffer_spec [OF writer_new_spec(1), of "pa31_header_buffer ?hf"]
    by (simp_all add: w_def s_def writer_new_spec(2) numeral_3_eq_3)
  let ?b1 = "enc_buffer (3 + length s) p"
  let ?b2 = "enc_buffer (3 + length s + length ?b1) q"
  have s_len: "length s \<le> 1700"
    using enc_fields_length [of 3 a b c d e h] enc_buffer_length [of 3 "pa31_header_buffer ?hf"] B(1) h
    by (simp add: s_def max_hash_len_def)
  have "length (s @ ?b1 @ ?b2) < 2 ^ 31"
    using s_len enc_buffer_length [of "3 + length s" p] enc_buffer_length [of "3 + length s + length ?b1" q] len by simp
  then obtain r z where r: "reader_new (drop 12 ?d) = Inr r" "reader_ok r" "rd_stream r = (s @ ?b1 @ ?b2) @ z"
    "rd_padding r \<le> length z" "8 dvd 3 + length (rd_stream r)"
    using reopen_aligned [OF two_buffers_spec [OF w, of p q]] unfolding P(4) w_def [symmetric] by metis
  have s: "rd_stream r = s @ ?b1 @ ?b2 @ z" using r(3) by simp
  have time: "from_le (subrange 4 12 ?d) = (0 :: u64)" by (rule P(3))
  have neg: "\<not> d <s 0" using sz by (simp add: word_sless_alt)
  have h33: "\<not> max_hash_len < length h" using h by simp
  have "\<exists>r'. (if version = PA31
                 then rbind (read_buffer r) (\<lambda>(_, r). Inr r)
                 else rbind (read_header_fields r) (\<lambda>(_, r). Inr r)) = (Inr r' :: bit_reader result)
      \<and> reader_ok r' \<and> rd_stream r' = ?b1 @ ?b2 @ z \<and> rd_padding r' = rd_padding r
      \<and> parse_header_body version ?d = Inr (written_header version ?hf)"
  proof (cases "version = PA31")
    case True
    have "delivers (read_buffer r) (pa31_header_buffer ?hf) (?b1 @ ?b2 @ z) (rd_padding r)"
      by (rule buffer.get_enc [OF r(2), where n = 3]) (use B(1) s r(4,5) True in \<open>simp_all add: s_def\<close>)
    then obtain r' where r': "read_buffer r = Inr (pa31_header_buffer ?hf, r')" "reader_ok r'"
      "rd_stream r' = ?b1 @ ?b2 @ z" "rd_padding r' = rd_padding r" unfolding delivers_def by blast
    obtain q0 q1 q2 where q: "reader_new (pa31_header_buffer ?hf) = Inr q0"
      "read_header_fields q0 = Inr (?hf, q1)"
      "read_pa31_extra q1 = Inr (\<lparr>px_field1 = 0, px_field2 = 0, px_field3 = 0, px_extra_hash = []\<rparr>, q2)"
      using B(2) by blast
    have "parse_header_body version ?d = Inr (written_header version ?hf)"
      using True r(1) r'(1) q neg h33 time
      by (simp add: parse_header_body_def written_header_def)
    with True r' show ?thesis by simp
  next
    case False
    have "delivers (read_header_fields r) ?hf (?b1 @ ?b2 @ z) (rd_padding r)"
      by (rule hfields.get_enc [OF r(2), where n = 3]) (use hl s r(4,5) False in \<open>simp_all add: s_def\<close>)
    then obtain r' where r': "read_header_fields r = Inr (?hf, r')" "reader_ok r'"
      "rd_stream r' = ?b1 @ ?b2 @ z" "rd_padding r' = rd_padding r" unfolding delivers_def by blast
    have "parse_header_body version ?d = Inr (written_header version ?hf)"
      using False r(1) r'(1) neg h33 time v
      by (simp add: parse_header_body_def written_header_def)
    with False r' show ?thesis by simp
  qed
  then obtain r' where r': "(if version = PA31
                 then rbind (read_buffer r) (\<lambda>(_, r). Inr r)
                 else rbind (read_header_fields r) (\<lambda>(_, r). Inr r)) = (Inr r' :: bit_reader result)"
      "reader_ok r'" "rd_stream r' = ?b1 @ ?b2 @ z" "rd_padding r' = rd_padding r"
      and body: "parse_header_body version ?d = Inr (written_header version ?hf)" by blast
  have ver: "delta_version (take 4 ?d) = Inr version" "take 4 ?d \<noteq> pa19_magic"
    using v ne unfolding P(2) by (auto simp: delta_version_def)
  have l12: "\<not> length ?d < 12" using P(1) by simp
  show hdr: "parse_header ?d = Inr (written_header version ?hf)"
    unfolding parse_header_def Let_def using l12 ver body by simp
  have "8 dvd (3 + length s) + length (rd_stream r')" using r(5) s r'(3) by (simp add: add.assoc)
  from two_buffers [OF r'(2,3) this _ pq] r(4) r'(4) obtain r1 r2 where
    b: "read_buffer r' = Inr (p, r1)" "read_buffer r1 = Inr (q, r2)" by auto
  have f: "hd_file_type_set (written_header version ?hf) AND 0x100 = 0" using fts by (simp add: written_header_def)
  show "parse_delta ?d = Inr \<lparr>pd_header = written_header version ?hf, pd_preprocess = p, pd_patch_data = q\<rparr>"
    unfolding parse_delta_def Let_def if_not_P [OF l12] if_not_P [OF ver(2)] ver(1) rbind_Inr r(1) r'(1) hdr
    using f b by simp
qed

text \<open>
  C27. The container is read back: \<open>parse_header\<close> and \<open>parse\<close> return, from what the writer of
  \<open>CreateOptions::execute\<close> puts out for PA30 and for PA31, the very header fields (the hash
  algorithm as 32 bits, the extension fields of PA31 as zeros), the preprocess buffer and the
  patch, for any field values with a hash of at most 33 bytes, a nonnegative target size and
  no reversal bit, and buffers of together less than 256 MiB.
\<close>

theorem delta_round_trip:
  assumes "version = PA30 \<or> version = PA31" "length h \<le> max_hash_len" "0 \<le> sint d" "a AND 0x100 = 0"
    "8 * length p + 8 * length q \<le> 2 ^ 31 - 4000"
  shows "parse_header (write_delta version (a, b, c, d, e, h) p q) = Inr (written_header version (a, b, c, d, e, h))
    \<and> parse_delta (write_delta version (a, b, c, d, e, h) p q)
      = Inr \<lparr>pd_header = written_header version (a, b, c, d, e, h), pd_preprocess = p, pd_patch_data = q\<rparr>"
  using delta_round_trip_aux [OF assms] by simp

theorem delta_round_trip_witness:
  "parse_header (write_delta PA31 (0xF, 8, - 1, 5, 0x800C, [1, 2, 3]) [4] [5, 6])
      = Inr (written_header PA31 (0xF, 8, - 1, 5, 0x800C, [1, 2, 3]))
    \<and> parse_delta (write_delta PA31 (0xF, 8, - 1, 5, 0x800C, [1, 2, 3]) [4] [5, 6])
      = Inr \<lparr>pd_header = written_header PA31 (0xF, 8, - 1, 5, 0x800C, [1, 2, 3]), pd_preprocess = [4], pd_patch_data = [5, 6]\<rparr>"
  by (rule delta_round_trip) (simp_all add: max_hash_len_def)

end
