(* ===== verification/Pa30Reverse.thy ===== *)
theory Pa30Reverse imports RiftCodec Xpress Pa30Header begin

text \<open>
  Reverse deltas, \<open>src/pa30/reverse.rs\<close>: the sections of the reversal data (copies out of the
  target, deleted runs, single-byte patches) applied to a zeroed buffer of the source size.
  Positions and lengths of a rift entry are signed; the sections are read until the bit reader
  is exhausted, and every section costs at least five bits.
\<close>

section \<open>Every buffer read consumes input\<close>

definition bit_budget :: "bit_reader \<Rightarrow> nat" where
  "bit_budget r = rd_bits r + 8 * (length (rd_data r) - rd_pos r)"

lemma refill_tail_budget: "bit_budget (refill_tail r) = bit_budget r"
proof (induction r rule: refill_tail.induct)
  case (1 r)
  show ?case
  proof (cases "rd_bits r \<le> 56 \<and> rd_pos r < length (rd_data r)")
    case True
    with 1 [OF True] show ?thesis by (subst refill_tail.simps) (auto simp: bit_budget_def)
  next
    case False
    then have "refill_tail r = r" by (subst refill_tail.simps) (simp only: if_False)
    then show ?thesis by simp
  qed
qed

lemma refill_budget: "bit_budget (refill r) = bit_budget r"
proof -
  have "(64 - rd_bits r) div 8 \<le> 8" by simp
  then show ?thesis using refill_tail_budget [of "r\<lparr>rd_accum := 0\<rparr>"]
    by (auto simp: refill_def Let_def bit_budget_def refill_tail_budget [unfolded bit_budget_def])
qed

lemma ensure_bits_budget:
  "ensure_bits r n = Inr r' \<Longrightarrow> bit_budget r' = bit_budget r \<and> n \<le> rd_bits r'"
  by (auto simp: ensure_bits_def Let_def refill_budget split: if_splits)

lemma consume_budget: "n \<le> rd_bits r \<Longrightarrow> bit_budget (consume_unchecked r n) + n = bit_budget r"
  by (simp add: consume_unchecked_def bit_budget_def)

lemma read_bits_budget: "read_bits r n = Inr (x, r') \<Longrightarrow> bit_budget r' + n = bit_budget r"
proof -
  assume r: "read_bits r n = Inr (x, r')"
  consider "n = 0" | "0 < n" "n \<le> 56" | "56 < n" by linarith
  then show ?thesis
  proof cases
    case 2
    with r obtain r1 where "ensure_bits r n = Inr r1" "r' = consume_unchecked r1 n"
      by (auto simp: read_bits_def)
    then show ?thesis using ensure_bits_budget consume_budget by metis
  next
    case 3
    with r obtain r1 r2 where "ensure_bits r 32 = Inr r1" "ensure_bits (consume_unchecked r1 32) (n - 32) = Inr r2"
      "r' = consume_unchecked r2 (n - 32)"
      by (auto simp: read_bits_def Let_def)
    with ensure_bits_budget [OF this(1)] ensure_bits_budget [OF this(2)] consume_budget [of 32 r1]
      consume_budget [of "n - 32" r2] 3 show ?thesis by simp
  qed (use r in \<open>simp add: read_bits_def\<close>)
qed

lemma read_i64_budget: "read_i64 r = Inr (x, r') \<Longrightarrow> bit_budget r' < bit_budget r"
proof -
  assume r: "read_i64 r = Inr (x, r')"
  obtain r1 where r1: "ensure_bits r (min 17 (remaining r)) = Inr r1"
    using r by (auto simp: read_i64_def)
  define k where "k = trailing_zeros (rd_accum r1 OR 0x10000)"
  have b1: "bit_budget r1 = bit_budget r" using ensure_bits_budget [OF r1] by simp
  show ?thesis
  proof (cases "k + 1 + (k + 1) * 4 > 56")
    case True
    then have w: "read_i64_wide r1 k = Inr (x, r')"
      using r r1 by (auto simp: read_i64_def Let_def k_def split: if_splits)
    then obtain r2 where r2: "ensure_bits r1 (k + 1) = Inr r2"
      by (auto simp: read_i64_wide_def)
    have c: "bit_budget (consume_unchecked r2 (k + 1)) < bit_budget r"
      using ensure_bits_budget [OF r2] consume_budget [of "k + 1" r2] b1 by simp
    have "bit_budget r' \<le> bit_budget (consume_unchecked r2 (k + 1))"
      using w r2 by (auto simp: read_i64_wide_def Let_def dest!: read_bits_budget split: if_splits)
    with c show ?thesis by simp
  next
    case False
    then obtain r2 where r2: "ensure_bits r1 (k + 1 + (k + 1) * 4) = Inr r2"
      and r': "r' = consume_unchecked (consume_unchecked r2 (k + 1)) ((k + 1) * 4)"
      using r r1 by (auto simp: read_i64_def Let_def k_def split: if_splits)
    have e: "bit_budget r2 = bit_budget r1" "k + 1 + (k + 1) * 4 \<le> rd_bits r2" using ensure_bits_budget [OF r2] by auto
    have "(k + 1) * 4 \<le> rd_bits (consume_unchecked r2 (k + 1))" using e(2) by simp
    from consume_budget [OF this] show ?thesis
      using e b1 consume_budget [of "k + 1" r2] unfolding r' by simp
  qed
qed

lemma drain_accum_budget: "drain_accum n r = (buf, k, r') \<Longrightarrow> bit_budget r' \<le> bit_budget r"
proof (induction n arbitrary: r buf k)
  case (Suc n)
  show ?case
  proof (cases "8 \<le> rd_bits r")
    case True
    with Suc.prems obtain buf' where "drain_accum n (consume_unchecked r 8) = (buf', k, r')"
      by (auto split: prod.splits)
    from Suc.IH [OF this] consume_budget [OF True] show ?thesis by simp
  qed (use Suc.prems in simp)
qed simp

lemma read_buffer_budget: "read_buffer r = Inr (x, r') \<Longrightarrow> bit_budget r' < bit_budget r"
proof -
  assume r: "read_buffer r = Inr (x, r')"
  obtain sz r1 where r1: "read_i64 r = Inr (sz, r1)" using r by (auto simp: read_buffer_def)
  define r2 where "r2 = reader_align_to_byte r1"
  have r2: "bit_budget r2 \<le> bit_budget r1"
    by (simp add: r2_def reader_align_to_byte_def Let_def bit_budget_def consume_unchecked_def)
  have "bit_budget r' \<le> bit_budget r2"
  proof (cases "unat sz = 0")
    case True
    then show ?thesis using r r1 by (auto simp: read_buffer_def Let_def r2_def split: if_splits)
  next
    case False
    obtain buf k r3 where d: "drain_accum (unat sz) r2 = (buf, k, r3)" by (cases "drain_accum (unat sz) r2")
    have "r' = r3\<lparr>rd_pos := rd_pos r3 + min k (length (rd_data r3) - rd_pos r3)\<rparr>"
      using r r1 False d by (auto simp: read_buffer_def Let_def r2_def split: if_splits)
    then have "bit_budget r' \<le> bit_budget r3" by (simp add: bit_budget_def)
    with drain_accum_budget [OF d] show ?thesis by simp
  qed
  with r2 read_i64_budget [OF r1] show ?thesis by simp
qed

section \<open>Sections\<close>

definition checked_range :: "i64 \<Rightarrow> int \<Rightarrow> nat \<Rightarrow> (nat \<times> nat) option" where
  "checked_range start len buf_len =
     (if sint start < 0 \<or> len < 0 then None
      else
        let start = nat (sint start);
            finish = start + nat len
        in if buf_len < finish then None else Some (start, finish))"

fun read_lengths :: "int_format \<Rightarrow> nat \<Rightarrow> bit_reader \<Rightarrow> (i64 list \<times> bit_reader) result" where
  "read_lengths fmt 0 r = Inr ([], r)"
| "read_lengths fmt (Suc n) r =
     rbind (read_number fmt r) (\<lambda>(len, r).
     rbind (read_lengths fmt n r) (\<lambda>(lens, r). Inr (len # lens, r)))"

text \<open>One run of type 0: cut to both buffers, skipped when nothing is left.\<close>

definition copy_run :: "bytes \<Rightarrow> bytes \<Rightarrow> rift_entry \<times> i64 \<Rightarrow> bytes" where
  "copy_run tgt out = (\<lambda>(entry, len).
     let left = re_source entry;
         right = re_target entry;
         max_len = min (min (sint len) (int (length out) - max (sint left) 0))
                       (int (length tgt) - max (sint right) 0)
     in if max_len \<le> 0 then out
        else case (checked_range left max_len (length out), checked_range right max_len (length tgt)) of
               (Some (ds, de), Some (ss, se)) \<Rightarrow> write_at ds (subrange ss se tgt) out
             | _ \<Rightarrow> out)"

definition apply_copy :: "bit_reader \<Rightarrow> bytes \<Rightarrow> bytes \<Rightarrow> bytes result" where
  "apply_copy sr tgt out =
     rbind (read_bits sr 32) (\<lambda>(_, sr).
     rbind (rift_from_reader sr) (\<lambda>(rift, sr).
     rbind init_default (\<lambda>fmt.
     rbind (read_lengths fmt (length rift) sr) (\<lambda>(lengths, _).
       Inr (foldl (copy_run tgt) out (zip rift lengths))))))"

fun delete_runs :: "bytes \<Rightarrow> rift_table \<Rightarrow> nat \<Rightarrow> bytes \<Rightarrow> bytes result" where
  "delete_runs blob [] cursor out = Inr out"
| "delete_runs blob (entry # es) cursor out =
     (if sint (re_target entry) < 0 then Inl (Malformed ''reverse delta: negative delete length'')
      else
        let count = nat (sint (re_target entry));
            src_end = cursor + count
        in if length blob < src_end then Inl (Malformed ''reverse delta: delete blob overrun'')
           else case checked_range (re_source entry) (int count) (length out) of
                  None \<Rightarrow> Inl (Malformed ''reverse delta: delete dest out of range'')
                | Some (ds, de) \<Rightarrow>
                    delete_runs blob es src_end (write_at ds (subrange cursor src_end blob) out))"

definition apply_deletes :: "bit_reader \<Rightarrow> bytes \<Rightarrow> bytes result" where
  "apply_deletes sr out =
     rbind (read_bits sr 32) (\<lambda>(_, sr).
     rbind (read_bits sr 32) (\<lambda>(compressed, sr).
     rbind (rift_from_reader sr) (\<lambda>(rift, sr).
     rbind (read_buffer sr) (\<lambda>(blob, _).
     rbind (if compressed \<noteq> 0 then xp_decompress_container blob else Inr blob) (\<lambda>blob.
       delete_runs blob rift 0 out)))))"

definition patch_byte :: "bytes \<Rightarrow> rift_entry \<Rightarrow> bytes" where
  "patch_byte out entry =
     (if 0 \<le> sint (re_source entry) \<and> nat (sint (re_source entry)) < length out
      then out[nat (sint (re_source entry)) := ucast (re_target entry)] else out)"

definition apply_patches :: "bit_reader \<Rightarrow> bytes \<Rightarrow> bytes result" where
  "apply_patches sr out =
     rbind (read_bits sr 32) (\<lambda>(_, sr).
     rbind (rift_from_reader sr) (\<lambda>(rift, _). Inr (foldl patch_byte out (rev rift))))"

definition apply_section :: "bytes \<Rightarrow> bytes \<Rightarrow> bytes \<Rightarrow> bytes result" where
  "apply_section tgt section_data out =
     rbind (reader_new section_data) (\<lambda>sr.
     rbind (read_bits sr 32) (\<lambda>(payload_type, sr).
       if payload_type = 0 then apply_copy sr tgt out
       else if payload_type = 1 then apply_deletes sr out
       else if payload_type = 2 then apply_patches sr out
       else Inl (Malformed ''reverse delta: invalid payload type'')))"

function apply_sections :: "bytes \<Rightarrow> bit_reader \<Rightarrow> bytes \<Rightarrow> bytes result" where
  "apply_sections tgt reader out =
     (if remaining reader > 0 then
        rbind (read_buffer reader) (\<lambda>(section_data, reader).
        rbind (apply_section tgt section_data out) (\<lambda>out.
          apply_sections tgt reader out))
      else Inr out)"
  by pat_completeness auto
termination
  by (relation "measure (\<lambda>(tgt, reader, out). bit_budget reader)") (auto simp: read_buffer_budget)

declare apply_sections.simps [simp del]

definition apply_reversal :: "bytes \<Rightarrow> bytes \<Rightarrow> nat \<Rightarrow> bytes result" where
  "apply_reversal tgt reversal_data ssize =
     rbind (reader_new reversal_data) (\<lambda>reader.
     rbind (read_bits reader 32) (\<lambda>(magic, reader).
       if magic \<noteq> 0x4d535250 then Inl (Malformed ''reverse delta: missing PRSM magic'')
       else rbind (read_bits reader 32) (\<lambda>(_, reader).
              apply_sections tgt reader (replicate ssize 0))))"

section \<open>Size and content\<close>

lemma checked_range_bounds:
  "checked_range start len n = Some (a, b) \<Longrightarrow> a = nat (sint start) \<and> b = a + nat len \<and> b \<le> n \<and> 0 \<le> sint start \<and> 0 \<le> len"
  by (auto simp: checked_range_def Let_def split: if_splits)

definition copy_limit :: "bytes \<Rightarrow> bytes \<Rightarrow> rift_entry \<Rightarrow> i64 \<Rightarrow> int" where
  "copy_limit tgt out e len = min (min (sint len) (int (length out) - max (sint (re_source e)) 0))
                       (int (length tgt) - max (sint (re_target e)) 0)"

lemma copy_run_limit:
  "copy_run tgt out (e, len) =
    (if copy_limit tgt out e len \<le> 0 then out
     else case (checked_range (re_source e) (copy_limit tgt out e len) (length out),
                checked_range (re_target e) (copy_limit tgt out e len) (length tgt)) of
               (Some (ds, de), Some (ss, se)) \<Rightarrow> write_at ds (subrange ss se tgt) out
             | _ \<Rightarrow> out)"
  by (simp only: copy_run_def copy_limit_def prod.case Let_def)

text \<open>The two range checks of a copy never fail for a start inside: the run has been cut before.\<close>

lemma copy_run_spec:
  fixes tgt out :: bytes and len :: i64 and e :: rift_entry
  assumes "0 \<le> sint (re_source e)" "0 \<le> sint (re_target e)"
  defines "l \<equiv> nat (sint (re_source e))" and "t \<equiv> nat (sint (re_target e))"
  defines "m \<equiv> min (min (nat (sint len)) (length out - l)) (length tgt - t)"
  shows "copy_run tgt out (e, len) = write_at l (subrange t (t + m) tgt) out"
proof -
  define k where "k = copy_limit tgt out e len"
  have km: "nat k = m"
  proof -
    have d: "nat (int a - x) = a - nat x" if "0 \<le> x" for a x using that by linarith
    have n: "nat (min x y) = min (nat x) (nat y)" for x y :: int by linarith
    show ?thesis using assms(1,2) by (simp add: k_def copy_limit_def m_def l_def t_def n d)
  qed
  show ?thesis
  proof (cases "k \<le> 0")
    case True
    then have "m = 0" using km by simp
    moreover have "copy_run tgt out (e, len) = out" using True unfolding copy_run_limit k_def by (simp only: if_True)
    ultimately show ?thesis by (simp add: write_at_def subrange_def)
  next
    case False
    then have pos: "0 < m" using km by linarith
    have "m \<le> length out - l" "m \<le> length tgt - t" unfolding m_def by simp_all
    with pos have "l + m \<le> length out" "t + m \<le> length tgt" by linarith+
    then have "checked_range (re_source e) k (length out) = Some (l, l + m)"
      "checked_range (re_target e) k (length tgt) = Some (t, t + m)"
      using assms(1,2) False km by (simp_all add: checked_range_def Let_def l_def t_def)
    then show ?thesis using False unfolding copy_run_limit k_def by (simp only: if_False prod.case option.case)
  qed
qed

lemma copy_run_length: "length (copy_run tgt out el) = length out"
proof -
  obtain e len where el: "el = (e, len)" by (cases el)
  define k where "k = copy_limit tgt out e len"
  show ?thesis
  proof (cases "k \<le> 0 \<or> checked_range (re_source e) k (length out) = None
      \<or> checked_range (re_target e) k (length tgt) = None")
    case True
    then show ?thesis unfolding el copy_run_limit k_def by (auto split: option.splits)
  next
    case False
    then obtain ds de ss se where c: "checked_range (re_source e) k (length out) = Some (ds, de)"
      "checked_range (re_target e) k (length tgt) = Some (ss, se)" "\<not> k \<le> 0" by auto
    have f: "se = ss + nat k" "se \<le> length tgt" using checked_range_bounds [OF c(2)] by blast+
    have "length (subrange ss se tgt) = nat k" using f(2) unfolding f(1) by simp
    then have "ds + length (subrange ss se tgt) \<le> length out" using checked_range_bounds [OF c(1)]
      by (simp del: length_subrange)
    moreover have "copy_run tgt out (e, len) = write_at ds (subrange ss se tgt) out"
      using c unfolding copy_run_limit k_def by simp
    ultimately show ?thesis by (simp add: el length_write_at del: length_subrange)
  qed
qed

lemma delete_runs_length: "delete_runs blob es cursor out = Inr out' \<Longrightarrow> length out' = length out"
proof (induction es arbitrary: cursor out)
  case (Cons e es)
  define c where "c = nat (sint (re_target e))"
  from Cons.prems obtain ds de where cr: "checked_range (re_source e) (int c) (length out) = Some (ds, de)"
    and len: "cursor + c \<le> length blob"
    and rest: "delete_runs blob es (cursor + c) (write_at ds (subrange cursor (cursor + c) blob) out) = Inr out'"
    by (auto simp: Let_def c_def split: if_splits option.splits)
  have "ds + length (subrange cursor (cursor + c) blob) \<le> length out"
    using checked_range_bounds [OF cr] len by simp
  with Cons.IH [OF rest] show ?case by simp
qed simp

lemma patch_byte_length: "length (patch_byte out e) = length out"
  by (simp add: patch_byte_def)

text \<open>Patches run backwards through the table, so the first entry of a byte has the last word.\<close>

lemma patches_length: "length (foldl patch_byte out es) = length out"
  by (induction es arbitrary: out) (simp_all add: patch_byte_length)

lemma patches_first_wins:
  "k < length out \<Longrightarrow> foldl patch_byte out (rev es) ! k
    = (case find (\<lambda>e. sint (re_source e) = int k) es of Some e \<Rightarrow> ucast (re_target e) | None \<Rightarrow> out ! k)"
proof (induction es)
  case (Cons e es)
  define o' where "o' = foldl patch_byte out (rev es)"
  have l: "length o' = length out" by (simp add: o'_def patches_length)
  have "foldl patch_byte out (rev (e # es)) = patch_byte o' e" by (simp add: o'_def)
  moreover have "patch_byte o' e ! k = (if sint (re_source e) = int k then ucast (re_target e) else o' ! k)"
    using Cons.prems l by (auto simp: patch_byte_def nth_list_update)
  ultimately show ?case using Cons.IH [OF Cons.prems] by (simp add: o'_def)
qed simp

lemma copies_length: "length (foldl (copy_run tgt) out els) = length out"
  by (induction els arbitrary: out) (simp_all add: copy_run_length)

lemma apply_section_length: "apply_section tgt section_data out = Inr out' \<Longrightarrow> length out' = length out"
  by (auto simp: apply_section_def apply_copy_def apply_deletes_def apply_patches_def
      patches_length copies_length delete_runs_length split: if_splits)

lemma apply_sections_length: "apply_sections tgt reader out = Inr out' \<Longrightarrow> length out' = length out"
proof (induction tgt reader out rule: apply_sections.induct)
  case (1 tgt reader out)
  show ?case
  proof (cases "0 < remaining reader")
    case True
    with 1(2) obtain section_data reader' out1 where r: "read_buffer reader = Inr (section_data, reader')"
      and s: "apply_section tgt section_data out = Inr out1" and rest: "apply_sections tgt reader' out1 = Inr out'"
      by (subst (asm) apply_sections.simps) auto
    from 1(1) [OF True r refl s rest] apply_section_length [OF s] show ?thesis by simp
  next
    case False
    with 1(2) show ?thesis by (subst (asm) apply_sections.simps) simp
  qed
qed

lemma apply_reversal_length: "apply_reversal tgt reversal_data n = Inr out \<Longrightarrow> length out = n"
proof -
  assume "apply_reversal tgt reversal_data n = Inr out"
  then obtain reader where "apply_sections tgt reader (replicate n 0) = Inr out"
    by (auto simp: apply_reversal_def split: if_splits)
  from apply_sections_length [OF this] show ?thesis by simp
qed

section \<open>A patch section as the writer of tables puts it out\<close>

text \<open>The payload type, the ignored word, then a table: two fields and a rift behind one another.\<close>

interpretation two_words: codec_pair "\<lambda>w v. write_bits w v 32" "\<lambda>r. read_bits r 32"
  "\<lambda>_ v. word_bits v 32" "\<lambda>v. 32 \<le> (64::nat) \<and> take_bit 32 v = v"
  "\<lambda>w v. write_bits w v 32" "\<lambda>r. read_bits r 32" "\<lambda>_ v. word_bits v 32" "\<lambda>v. 32 \<le> (64::nat) \<and> take_bit 32 v = v"
  by (intro codec_pair.intro bits_codec)

interpretation patch_section: codec_pair "\<lambda>w (x, y). write_bits (write_bits w x 32) y 32"
  "\<lambda>r. rbind (read_bits r 32) (\<lambda>(x, r). rbind (read_bits r 32) (\<lambda>(y, r). Inr ((x, y), r)))"
  "\<lambda>n (x, y). word_bits x 32 @ word_bits y 32" "\<lambda>(x, y). (32 \<le> (64::nat) \<and> take_bit 32 x = x) \<and> (32 \<le> (64::nat) \<and> take_bit 32 y = y)"
  "\<lambda>w es. projr (rift_to_writer w es)" rift_from_reader "\<lambda>_. enc_rift" rift_ok
  by (intro codec_pair.intro two_words.pair.bit_codec_axioms rift.bit_codec_axioms)

definition written_patches :: "rift_table \<Rightarrow> bytes" where
  "written_patches es = writer_finish (projr (rift_to_writer (write_bits (write_bits writer_new 2 32) 0 32) es))"

lemma apply_written_patches:
  assumes "rift_sorted es" "length es \<le> 2 ^ 20"
  shows "apply_section tgt (written_patches es) out = Inr (foldl patch_byte out (rev es))"
proof -
  have "rift_ok es" using assms by (simp add: rift_ok_def)
  moreover have "length (enc_rift es) + 64 < 2 ^ 31" using enc_rift_length [of es] assms(2) by simp
  moreover have "take_bit 32 (2 :: u64) = 2" by (simp add: take_bit_eq_mask mask_eq_exp_minus_1)
  ultimately show ?thesis
    using patch_section.pair.round_trip [of "((2, 0), es)"]
    by (auto simp: apply_section_def apply_patches_def written_patches_def elim!: rbind_eq_InrE)
qed

text \<open>
  C28. Patch sections of a reversal: from the finished bytes of a section of type 2 with any
  sorted table, \<open>apply_reversal\<close>'s section step succeeds, keeps the length of the output, and
  sets each byte \<open>k\<close> to the value of the FIRST entry of the table for \<open>k\<close> (the entries are
  applied in reverse order); the bytes without an entry keep their value, and entries below 0
  or past the end change nothing.
\<close>

theorem reversal_patches:
  assumes "rift_sorted es" "length es \<le> 2 ^ 20"
  shows "\<exists>out'. apply_section tgt (written_patches es) out = Inr out' \<and> length out' = length out
    \<and> (\<forall>k. k < length out \<longrightarrow> out' ! k
        = (case find (\<lambda>e. sint (re_source e) = int k) es of Some e \<Rightarrow> ucast (re_target e) | None \<Rightarrow> out ! k))"
  using apply_written_patches [OF assms] by (auto simp: patches_length patches_first_wins)

theorem reversal_patches_witness:
  "\<exists>out'. apply_section [] (written_patches [\<lparr>re_source = 1, re_target = 7\<rparr>, \<lparr>re_source = 1, re_target = 9\<rparr>]) [1, 2, 3] = Inr out'
    \<and> length out' = length [1 :: u8, 2, 3]
    \<and> (\<forall>k. k < length [1 :: u8, 2, 3] \<longrightarrow> out' ! k
        = (case find (\<lambda>e. sint (re_source e) = int k) [\<lparr>re_source = 1, re_target = 7\<rparr>, \<lparr>re_source = 1, re_target = 9\<rparr>] of
             Some e \<Rightarrow> ucast (re_target e) | None \<Rightarrow> [1, 2, 3] ! k))"
  by (rule reversal_patches) simp_all

end
