(* ===== verification/PeImage.thy ===== *)
theory PeImage imports Prelude Pa19 begin

text \<open>
  PE images: the header parser of \<open>src/pe/parse.rs\<close> and the lenient view and field accessors
  of \<open>src/pe/structs.rs\<close>. Fields are read little-endian at byte offsets; an offset is a
  \<open>usize\<close> sum of 32-bit header fields, far below its overflow, and is a natural number here.
  Section names are kept as the bytes before the first NUL. The strict parser
  \<open>goblin::pe::PE::parse\<close> is third-party code: its result is an argument of \<open>pe_parse\<close>.
\<close>

section \<open>Field access\<close>

definition get_field :: "nat \<Rightarrow> bytes \<Rightarrow> nat \<Rightarrow> 'a::len word option" where
  "get_field n data off =
     (if off + n \<le> length data then Some (from_le (subrange off (off + n) data)) else None)"

abbreviation read_u16_opt :: "bytes \<Rightarrow> nat \<Rightarrow> u16 option" where "read_u16_opt \<equiv> get_field 2"
abbreviation read_u32_opt :: "bytes \<Rightarrow> nat \<Rightarrow> u32 option" where "read_u32_opt \<equiv> get_field 4"
abbreviation read_u64_opt :: "bytes \<Rightarrow> nat \<Rightarrow> u64 option" where "read_u64_opt \<equiv> get_field 8"

definition or_zero :: "'a::len word option \<Rightarrow> 'a word" where
  "or_zero v = (case v of None \<Rightarrow> 0 | Some x \<Rightarrow> x)"

definition read_u16 :: "bytes \<Rightarrow> nat \<Rightarrow> u16" where "read_u16 buf off = or_zero (read_u16_opt buf off)"
definition read_u32 :: "bytes \<Rightarrow> nat \<Rightarrow> u32" where "read_u32 buf off = or_zero (read_u32_opt buf off)"
definition read_u64 :: "bytes \<Rightarrow> nat \<Rightarrow> u64" where "read_u64 buf off = or_zero (read_u64_opt buf off)"

definition put_field :: "nat \<Rightarrow> bytes \<Rightarrow> nat \<Rightarrow> 'a::len word \<Rightarrow> bytes" where
  "put_field n buf off v = (if off + n \<le> length buf then write_at off (to_le n v) buf else buf)"

definition write_u16 :: "bytes \<Rightarrow> nat \<Rightarrow> u16 \<Rightarrow> bytes" where "write_u16 = put_field 2"
definition write_u32 :: "bytes \<Rightarrow> nat \<Rightarrow> u32 \<Rightarrow> bytes" where "write_u32 = put_field 4"
definition write_u64 :: "bytes \<Rightarrow> nat \<Rightarrow> u64 \<Rightarrow> bytes" where "write_u64 = put_field 8"

section \<open>Machines, directories, optional headers\<close>

datatype pe_machine = I386 | Ia64 | Amd64 | ArmNt | Arm64 | UnknownMachine u16

definition machine_from_raw :: "u16 \<Rightarrow> pe_machine" where
  "machine_from_raw raw =
     (if raw = 0x014c then I386
      else if raw = 0x0200 then Ia64
      else if raw = 0x8664 then Amd64
      else if raw = 0x01c4 then ArmNt
      else if raw = 0xaa64 then Arm64
      else UnknownMachine raw)"

fun machine_raw :: "pe_machine \<Rightarrow> u16" where
  "machine_raw I386 = 0x014c"
| "machine_raw Ia64 = 0x0200"
| "machine_raw Amd64 = 0x8664"
| "machine_raw ArmNt = 0x01c4"
| "machine_raw Arm64 = 0xaa64"
| "machine_raw (UnknownMachine v) = v"

fun classic_file_type :: "pe_machine \<Rightarrow> i64 option" where
  "classic_file_type I386 = Some 0x2"
| "classic_file_type Ia64 = Some 0x4"
| "classic_file_type Amd64 = Some 0x8"
| "classic_file_type _ = None"

fun cli4_file_type :: "pe_machine \<Rightarrow> i64 option" where
  "cli4_file_type I386 = Some 0x10"
| "cli4_file_type Amd64 = Some 0x20"
| "cli4_file_type ArmNt = Some 0x40"
| "cli4_file_type Arm64 = Some 0x80"
| "cli4_file_type _ = None"

fun supported_create_file_type :: "pe_machine \<Rightarrow> i64 option" where
  "supported_create_file_type I386 = classic_file_type I386"
| "supported_create_file_type Amd64 = classic_file_type Amd64"
| "supported_create_file_type _ = None"

datatype directory_kind =
    DirExport | DirImport | DirResource | DirException | DirCertificate | DirBaseRelocation
  | DirDebug | DirArchitecture | DirGlobalPointer | DirTls | DirLoadConfig | DirBoundImport
  | DirImportAddressTable | DirDelayImport | DirClrRuntimeHeader | DirReserved

definition directory_kinds :: "directory_kind list" where
  "directory_kinds =
     [DirExport, DirImport, DirResource, DirException, DirCertificate, DirBaseRelocation,
      DirDebug, DirArchitecture, DirGlobalPointer, DirTls, DirLoadConfig, DirBoundImport,
      DirImportAddressTable, DirDelayImport, DirClrRuntimeHeader, DirReserved]"

fun dir_index :: "directory_kind \<Rightarrow> nat" where
  "dir_index DirExport = 0" | "dir_index DirImport = 1" | "dir_index DirResource = 2"
| "dir_index DirException = 3" | "dir_index DirCertificate = 4" | "dir_index DirBaseRelocation = 5"
| "dir_index DirDebug = 6" | "dir_index DirArchitecture = 7" | "dir_index DirGlobalPointer = 8"
| "dir_index DirTls = 9" | "dir_index DirLoadConfig = 10" | "dir_index DirBoundImport = 11"
| "dir_index DirImportAddressTable = 12" | "dir_index DirDelayImport = 13"
| "dir_index DirClrRuntimeHeader = 14" | "dir_index DirReserved = 15"

definition dir_from_index :: "nat \<Rightarrow> directory_kind option" where
  "dir_from_index i = (if i < length directory_kinds then Some (directory_kinds ! i) else None)"

datatype optional_kind = Pe32 | Pe32Plus

definition optional_from_magic :: "u16 \<Rightarrow> optional_kind option" where
  "optional_from_magic m = (if m = 0x010b then Some Pe32 else if m = 0x020b then Some Pe32Plus else None)"

fun image_base_relative :: "optional_kind \<Rightarrow> nat" where
  "image_base_relative Pe32 = 0x1c" | "image_base_relative Pe32Plus = 0x18"

fun directory_count_relative :: "optional_kind \<Rightarrow> nat" where
  "directory_count_relative Pe32 = 0x5c" | "directory_count_relative Pe32Plus = 0x6c"

fun directories_relative :: "optional_kind \<Rightarrow> nat" where
  "directories_relative Pe32 = 0x60" | "directories_relative Pe32Plus = 0x70"

section \<open>Sections\<close>

record section_info =
  sec_name :: bytes
  sec_va :: u32
  sec_vsize :: u32
  sec_raw :: u32
  sec_rsize :: u32
  sec_flags :: u32

definition logical_size :: "section_info \<Rightarrow> u32" where
  "logical_size s = max (sec_vsize s) (sec_rsize s)"

text \<open>A checked 32-bit addition.\<close>

definition rva_range :: "section_info \<Rightarrow> (u32 \<times> u32) option" where
  "rva_range s =
     (let n = logical_size s
      in if n = 0 then None else map_option (\<lambda>e. (sec_va s, e)) (checked_add32 (sec_va s) n))"

definition raw_range :: "section_info \<Rightarrow> (nat \<times> nat) option" where
  "raw_range s = (if sec_rsize s = 0 then None
     else Some (unat (sec_raw s), unat (sec_raw s) + unat (sec_rsize s)))"

definition clipped_raw_range :: "section_info \<Rightarrow> nat \<Rightarrow> (nat \<times> nat) option" where
  "clipped_raw_range s file_len =
     (case raw_range s of None \<Rightarrow> None
      | Some (a, b) \<Rightarrow>
          let a = min a file_len; b = min b file_len in if a < b then Some (a, b) else None)"

definition contains_rva :: "section_info \<Rightarrow> u32 \<Rightarrow> bool" where
  "contains_rva s rva = (case rva_range s of None \<Rightarrow> False | Some (a, b) \<Rightarrow> a \<le> rva \<and> rva < b)"

definition contains_file_offset :: "section_info \<Rightarrow> nat \<Rightarrow> bool" where
  "contains_file_offset s off = (case raw_range s of None \<Rightarrow> False | Some (a, b) \<Rightarrow> a \<le> off \<and> off < b)"

definition section_rva_to_offset :: "section_info \<Rightarrow> u32 \<Rightarrow> nat option" where
  "section_rva_to_offset s rva =
     (if sec_rsize s = 0 \<or> \<not> contains_rva s rva then None
      else if rva < sec_va s then None
      else map_option unat (checked_add32 (sec_raw s) (rva - sec_va s)))"

definition section_offset_to_rva :: "section_info \<Rightarrow> nat \<Rightarrow> u32 option" where
  "section_offset_to_rva s off =
     (case raw_range s of None \<Rightarrow> None
      | Some (a, b) \<Rightarrow>
          if \<not> (a \<le> off \<and> off < b) \<or> 2 ^ 32 \<le> off - a then None
          else checked_add32 (sec_va s) (of_nat (off - a)))"

section \<open>The header layout\<close>

record pe_layout =
  pl_nt :: nat
  pl_file :: nat
  pl_optional :: nat
  pl_optional_size :: nat
  pl_kind :: optional_kind
  pl_machine :: pe_machine
  pl_sections :: nat
  pl_directories :: nat

definition or_err :: "'a option \<Rightarrow> string \<Rightarrow> 'a result" where
  "or_err v msg = (case v of None \<Rightarrow> Inl (Malformed msg) | Some x \<Rightarrow> Inr x)"

definition pe_signature :: bytes where
  "pe_signature = [0x50, 0x45, 0, 0]"

definition layout_parse :: "bytes \<Rightarrow> pe_layout result" where
  "layout_parse data =
     (if length data < 0x3c + 4 then Inl (Malformed ''PE: too small'')
      else
        rbind (or_err (read_u32_opt data 0x3c) ''PE: missing e_lfanew'') (\<lambda>lfanew.
        let nt = unat lfanew;
            file = nt + 4;
            opt = file + 20
        in if \<not> (nt + 4 \<le> length data \<and> subrange nt (nt + 4) data = pe_signature)
           then Inl (Malformed ''PE: bad signature'')
           else if length data < opt then Inl (Malformed ''PE: truncated COFF header'')
           else
             rbind (or_err (read_u16_opt data file) ''PE: missing machine'') (\<lambda>machine.
             rbind (or_err (read_u16_opt data (file + 2)) ''PE: missing section count'') (\<lambda>nsec.
             rbind (or_err (read_u16_opt data (file + 16)) ''PE: missing optional-header size'') (\<lambda>osize.
             rbind (or_err (read_u16_opt data opt) ''PE: missing optional header'') (\<lambda>magic.
             rbind (or_err (optional_from_magic magic) ''PE: bad optional magic'') (\<lambda>kind.
             rbind (or_err (read_u32_opt data (opt + directory_count_relative kind))
                 ''PE: missing data-directory count'') (\<lambda>ndir.
               Inr \<lparr>pl_nt = nt, pl_file = file, pl_optional = opt, pl_optional_size = unat osize,
                    pl_kind = kind, pl_machine = machine_from_raw machine,
                    pl_sections = unat nsec, pl_directories = unat ndir\<rparr>))))))))"

abbreviation layout_64bit :: "pe_layout \<Rightarrow> bool" where
  "layout_64bit l \<equiv> pl_kind l = Pe32Plus"

definition timestamp_offset :: "pe_layout \<Rightarrow> nat" where
  "timestamp_offset l = pl_file l + 4"

definition image_base_offset :: "pe_layout \<Rightarrow> nat" where
  "image_base_offset l = pl_optional l + image_base_relative (pl_kind l)"

definition size_of_image_offset :: "pe_layout \<Rightarrow> nat" where
  "size_of_image_offset l = pl_optional l + 0x38"

definition checksum_offset :: "pe_layout \<Rightarrow> nat" where
  "checksum_offset l = pl_optional l + 0x40"

definition data_directory_offset :: "pe_layout \<Rightarrow> directory_kind \<Rightarrow> nat option" where
  "data_directory_offset l kind =
     (if pl_directories l \<le> dir_index kind then None
      else Some (pl_optional l + directories_relative (pl_kind l) + dir_index kind * 8))"

definition layout_directory :: "pe_layout \<Rightarrow> bytes \<Rightarrow> directory_kind \<Rightarrow> (u32 \<times> u32) option" where
  "layout_directory l data kind =
     (case data_directory_offset l kind of None \<Rightarrow> None
      | Some off \<Rightarrow>
          (case (read_u32_opt data off, read_u32_opt data (off + 4)) of
             (Some rva, Some sz) \<Rightarrow> Some (rva, sz)
           | _ \<Rightarrow> None))"

text \<open>One section header of 40 bytes, the name up to its first NUL.\<close>

definition section_at :: "bytes \<Rightarrow> nat \<Rightarrow> section_info option" where
  "section_at data off =
     (if off + 40 \<le> length data then
        Some \<lparr>sec_name = takeWhile (\<lambda>b. b \<noteq> 0) (subrange off (off + 8) data),
              sec_va = read_u32 data (off + 12), sec_vsize = read_u32 data (off + 8),
              sec_raw = read_u32 data (off + 20), sec_rsize = read_u32 data (off + 16),
              sec_flags = read_u32 data (off + 36)\<rparr>
      else None)"

definition layout_section :: "pe_layout \<Rightarrow> bytes \<Rightarrow> nat \<Rightarrow> section_info option" where
  "layout_section l data i =
     (if pl_sections l \<le> i then None
      else section_at data (pl_optional l + pl_optional_size l + i * 40))"

text \<open>The sections up to the first that is missing (\<open>map_while\<close>, or a loop with a break).\<close>

fun take_some :: "'a option list \<Rightarrow> 'a list" where
  "take_some (Some x # xs) = x # take_some xs"
| "take_some _ = []"

section \<open>The lenient view\<close>

record pe_view =
  pv_buf :: bytes
  pv_pe :: nat
  pv_plus :: bool

abbreviation pv_opt :: "pe_view \<Rightarrow> nat" where
  "pv_opt v \<equiv> pv_pe v + 24"

definition pe_header_offset :: "bytes \<Rightarrow> nat option" where
  "pe_header_offset buf =
     (if read_u16 buf 0 \<noteq> 0x5A4D then None
      else let e = unat (read_u32 buf 0x3c)
           in if e + 4 \<le> length buf \<and> subrange e (e + 4) buf = pe_signature then Some e else None)"

definition section_table :: "bytes \<Rightarrow> (nat \<times> nat) option" where
  "section_table buf =
     map_option (\<lambda>e. (e + 24 + unat (read_u16 buf (e + 20)), unat (read_u16 buf (e + 6)))) (pe_header_offset buf)"

definition view_parse :: "bytes \<Rightarrow> pe_view option" where
  "view_parse buf =
     (case pe_header_offset buf of None \<Rightarrow> None
      | Some pe \<Rightarrow>
          (case optional_from_magic (read_u16 buf (pe + 24)) of None \<Rightarrow> None
           | Some kind \<Rightarrow> Some \<lparr>pv_buf = buf, pv_pe = pe, pv_plus = (kind = Pe32Plus)\<rparr>))"

definition view_image_base :: "pe_view \<Rightarrow> u64" where
  "view_image_base v = (if pv_plus v then read_u64 (pv_buf v) (pv_opt v + 24)
     else ucast (read_u32 (pv_buf v) (pv_opt v + 28)))"

definition view_directories :: "pe_view \<Rightarrow> u32" where
  "view_directories v = read_u32 (pv_buf v) (pv_opt v + (if pv_plus v then 108 else 92))"

definition view_directory :: "pe_view \<Rightarrow> nat \<Rightarrow> (u32 \<times> u32) option" where
  "view_directory v i =
     (if unat (view_directories v) \<le> i then None
      else let off = pv_opt v + (if pv_plus v then 112 else 96) + i * 8
           in if off + 8 \<le> length (pv_buf v)
              then Some (read_u32 (pv_buf v) off, read_u32 (pv_buf v) (off + 4)) else None)"

definition view_sections :: "pe_view \<Rightarrow> section_info list" where
  "view_sections v =
     (let base = pv_opt v + unat (read_u16 (pv_buf v) (pv_pe v + 20));
          count = unat (read_u16 (pv_buf v) (pv_pe v + 6))
      in take_some (map (\<lambda>i. section_at (pv_buf v) (base + i * 40)) [0..<count]))"

fun view_rva_to_offset_in :: "section_info list \<Rightarrow> u32 \<Rightarrow> nat option" where
  "view_rva_to_offset_in [] rva = None"
| "view_rva_to_offset_in (s # ss) rva =
     (if sec_raw s \<noteq> 0 \<and> sec_va s \<le> rva \<and> rva < sec_va s + sec_vsize s
      then Some (unat (sec_raw s) + unat (rva - sec_va s))
      else view_rva_to_offset_in ss rva)"

definition view_rva_to_offset :: "pe_view \<Rightarrow> u32 \<Rightarrow> nat option" where
  "view_rva_to_offset v rva = view_rva_to_offset_in (view_sections v) rva"

text \<open>Release arithmetic: the sum of address and distance wraps.\<close>

fun view_offset_to_rva_in :: "section_info list \<Rightarrow> u32 \<Rightarrow> u32 option" where
  "view_offset_to_rva_in [] off = None"
| "view_offset_to_rva_in (s # ss) off =
     (if sec_rsize s \<noteq> 0 \<and> sec_raw s \<le> off \<and> off < sec_raw s + sec_rsize s
      then Some (sec_va s + (off - sec_raw s))
      else view_offset_to_rva_in ss off)"

definition view_offset_to_rva :: "pe_view \<Rightarrow> nat \<Rightarrow> u32 option" where
  "view_offset_to_rva v off =
     (if off < 2 ^ 32 then view_offset_to_rva_in (view_sections v) (of_nat off) else None)"

section \<open>Image information\<close>

record pe_info =
  pi_base :: u64
  pi_image_size :: u32
  pi_timestamp :: u32
  pi_checksum :: u32
  pi_64bit :: bool
  pi_machine :: pe_machine
  pi_sections :: "section_info list"
  pi_directories :: "(u32 \<times> u32) list"

text \<open>The strict parser: what \<open>goblin\<close> returns, its optional header already taken apart.\<close>

record goblin_pe =
  gp_magic :: u16
  gp_base :: u64
  gp_image_size :: u32
  gp_timestamp :: u32
  gp_checksum :: u32
  gp_machine :: u16
  gp_directories :: "(nat \<times> u32 \<times> u32) list"
  gp_sections :: "section_info list"

definition pe_parse :: "(bytes \<Rightarrow> goblin_pe option option) \<Rightarrow> bytes \<Rightarrow> pe_info result" where
  "pe_parse goblin data =
     (case goblin data of None \<Rightarrow> Inl (Malformed ''invalid PE'')
      | Some None \<Rightarrow> Inl (Malformed ''PE: no optional header'')
      | Some (Some g) \<Rightarrow>
          Inr \<lparr>pi_base = gp_base g, pi_image_size = gp_image_size g, pi_timestamp = gp_timestamp g,
               pi_checksum = gp_checksum g, pi_64bit = (gp_magic g = 0x020b),
               pi_machine = machine_from_raw (gp_machine g), pi_sections = gp_sections g,
               pi_directories = foldl (\<lambda>ds (i, d). if i < 16 then ds[i := d] else ds)
                 (replicate 16 (0, 0)) (gp_directories g)\<rparr>)"

text \<open>The walk without validation: the view where it parses, else the layout.\<close>

definition info_of_view :: "pe_view \<Rightarrow> pe_info" where
  "info_of_view v =
     \<lparr>pi_base = view_image_base v, pi_image_size = read_u32 (pv_buf v) (pv_opt v + 56),
      pi_timestamp = read_u32 (pv_buf v) (pv_pe v + 8), pi_checksum = read_u32 (pv_buf v) (pv_opt v + 64),
      pi_64bit = pv_plus v, pi_machine = machine_from_raw (read_u16 (pv_buf v) (pv_pe v + 4)),
      pi_sections = view_sections v,
      pi_directories = map (\<lambda>i. case view_directory v i of None \<Rightarrow> (0, 0) | Some d \<Rightarrow> d) [0..<16]\<rparr>"

definition info_of_layout :: "pe_layout \<Rightarrow> bytes \<Rightarrow> pe_info" where
  "info_of_layout l data =
     \<lparr>pi_base = (if layout_64bit l then read_u64 data (image_base_offset l)
                 else ucast (read_u32 data (image_base_offset l))),
      pi_image_size = read_u32 data (size_of_image_offset l),
      pi_timestamp = read_u32 data (timestamp_offset l),
      pi_checksum = read_u32 data (checksum_offset l),
      pi_64bit = layout_64bit l, pi_machine = pl_machine l,
      pi_sections = take_some (map (layout_section l data) [0..<pl_sections l]),
      pi_directories = map (\<lambda>i.
        if min (pl_directories l) 16 \<le> i then (0, 0)
        else case (case dir_from_index i of None \<Rightarrow> None | Some kind \<Rightarrow> data_directory_offset l kind) of
               None \<Rightarrow> (0, 0)
             | Some off \<Rightarrow> (read_u32 data off, read_u32 data (off + 4))) [0..<16]\<rparr>"

definition parse_lenient :: "bytes \<Rightarrow> pe_info result" where
  "parse_lenient data =
     (case view_parse data of
        Some v \<Rightarrow> Inr (info_of_view v)
      | None \<Rightarrow> rbind (layout_parse data) (\<lambda>l. Inr (info_of_layout l data)))"

definition first_section_rva :: "pe_info \<Rightarrow> u32 option" where
  "first_section_rva pe =
     (case List.map_filter (\<lambda>s. map_option fst (rva_range s)) (pi_sections pe) of
        [] \<Rightarrow> None | x # xs \<Rightarrow> Some (foldl min x xs))"

definition section_containing_rva :: "pe_info \<Rightarrow> u32 \<Rightarrow> section_info option" where
  "section_containing_rva pe rva = find (\<lambda>s. contains_rva s rva) (pi_sections pe)"

definition section_containing_offset :: "pe_info \<Rightarrow> nat \<Rightarrow> section_info option" where
  "section_containing_offset pe off = find (\<lambda>s. contains_file_offset s off) (pi_sections pe)"

definition rva_to_file_offset :: "pe_info \<Rightarrow> u32 \<Rightarrow> nat option" where
  "rva_to_file_offset pe rva =
     (case section_containing_rva pe rva of None \<Rightarrow> None | Some s \<Rightarrow> section_rva_to_offset s rva)"

definition file_offset_to_rva :: "pe_info \<Rightarrow> nat \<Rightarrow> u32 option" where
  "file_offset_to_rva pe off =
     (case section_containing_offset pe off of None \<Rightarrow> None | Some s \<Rightarrow> section_offset_to_rva s off)"

definition same_file_section :: "pe_info \<Rightarrow> nat \<Rightarrow> nat \<Rightarrow> bool" where
  "same_file_section pe a b =
     (case section_containing_offset pe a of None \<Rightarrow> False | Some s \<Rightarrow> contains_file_offset s b)"

definition data_directory :: "pe_info \<Rightarrow> directory_kind \<Rightarrow> (u32 \<times> u32) option" where
  "data_directory pe kind =
     (if dir_index kind < length (pi_directories pe) then Some (pi_directories pe ! dir_index kind) else None)"

definition data_dir :: "pe_info \<Rightarrow> nat \<Rightarrow> (u32 \<times> u32) option" where
  "data_dir pe i =
     (if i < length (pi_directories pe) \<and> fst (pi_directories pe ! i) \<noteq> 0
      then Some (pi_directories pe ! i) else None)"

definition contains_va :: "pe_info \<Rightarrow> u64 \<Rightarrow> bool" where
  "contains_va pe va \<longleftrightarrow> pi_base pe \<le> va \<and> va < pi_base pe + ucast (pi_image_size pe)"

section \<open>Field access, lemmas\<close>

lemma length_put_field [simp]: "length (put_field n buf off v) = length buf"
  by (simp add: put_field_def length_write_at)

lemma length_write_u [simp]:
  "length (write_u16 buf off a) = length buf" "length (write_u32 buf off b) = length buf"
  "length (write_u64 buf off c) = length buf"
  by (simp_all add: write_u16_def write_u32_def write_u64_def)

lemma nth_put_field:
  "k < length buf \<Longrightarrow> put_field n buf off v ! k
    = (if off + n \<le> length buf \<and> off \<le> k \<and> k < off + n then to_le n v ! (k - off) else buf ! k)"
  by (simp add: put_field_def nth_write_at)

lemma read_write_same:
  assumes "off + n \<le> length buf" "LENGTH('a) \<le> 8 * n"
  shows "get_field n (put_field n buf off (v :: 'a::len word)) off = Some v"
proof -
  have "subrange off (off + n) (put_field n buf off v) = to_le n v"
    using assms(1) by (intro nth_equalityI) (simp_all add: nth_subrange nth_put_field)
  then show ?thesis using assms by (simp add: get_field_def)
qed

lemma read_write_apart:
  assumes "off2 + m \<le> off \<or> off + n \<le> off2"
  shows "get_field m (put_field n buf off v) off2 = (get_field m buf off2 :: 'b::len word option)"
proof (cases "off2 + m \<le> length buf")
  case True
  then have "subrange off2 (off2 + m) (put_field n buf off v) = subrange off2 (off2 + m) buf"
    using assms by (intro nth_equalityI) (auto simp: nth_subrange nth_put_field)
  then show ?thesis by (simp add: get_field_def)
qed (simp add: get_field_def)

section \<open>Machines and directories, lemmas\<close>

lemma machine_raw_from_raw: "machine_raw (machine_from_raw raw) = raw"
  by (simp add: machine_from_raw_def)

lemma dir_from_index_index: "dir_from_index (dir_index k) = Some k"
  by (cases k) (simp_all add: dir_from_index_def directory_kinds_def)

section \<open>Addresses\<close>

text \<open>No file offset belongs to two sections of the table.\<close>

definition raw_disjoint :: "section_info list \<Rightarrow> bool" where
  "raw_disjoint ss = sorted_wrt (\<lambda>s t. case (raw_range s, raw_range t) of
     (Some (a, b), Some (c, d)) \<Rightarrow> b \<le> c \<or> d \<le> a | _ \<Rightarrow> True) ss"

lemma raw_disjoint_unique:
  assumes "raw_disjoint ss" "s \<in> set ss" "contains_file_offset s off"
  shows "find (\<lambda>t. contains_file_offset t off) ss = Some s"
  using assms
proof (induction ss)
  case (Cons t ss)
  have tail: "raw_disjoint ss" using Cons.prems(1) by (simp add: raw_disjoint_def)
  show ?case
  proof (cases "contains_file_offset t off")
    case True
    have "s = t"
    proof (rule ccontr)
      assume "s \<noteq> t"
      with Cons.prems have "case (raw_range t, raw_range s) of
         (Some (a, b), Some (c, d)) \<Rightarrow> b \<le> c \<or> d \<le> a | _ \<Rightarrow> True" by (auto simp: raw_disjoint_def)
      with True Cons.prems(3) show False
        by (auto simp: contains_file_offset_def split: option.splits prod.splits)
    qed
    with True show ?thesis by simp
  next
    case False
    then have "s \<in> set ss" using Cons.prems by auto
    with Cons.IH [OF tail] Cons.prems(3) False show ?thesis by simp
  qed
qed simp

lemma section_round_trip:
  assumes c: "contains_rva s rva" and d: "unat (rva - sec_va s) < unat (sec_rsize s)"
    and r: "unat (sec_raw s) + unat (sec_rsize s) \<le> 2 ^ 32"
  shows "section_rva_to_offset s rva = Some (unat (sec_raw s) + unat (rva - sec_va s))"
    "contains_file_offset s (unat (sec_raw s) + unat (rva - sec_va s))"
    "section_offset_to_rva s (unat (sec_raw s) + unat (rva - sec_va s)) = Some rva"
proof -
  define k where "k = unat (rva - sec_va s)"
  have rs: "sec_rsize s \<noteq> 0" using d by auto
  have le: "sec_va s \<le> rva"
    using c by (auto simp: contains_rva_def rva_range_def Let_def split: option.splits if_splits)
  have k32: "k < 2 ^ 32" using unsigned_less [of "rva - sec_va s", where ?'a = nat] by (simp add: k_def)
  have ck: "checked_add32 (sec_raw s) (rva - sec_va s) = Some (sec_raw s + (rva - sec_va s))"
    using d r by (simp add: checked_add32_def)
  have "unat (sec_raw s + (rva - sec_va s)) = unat (sec_raw s) + k"
    using d r by (subst unat_add_lem [THEN iffD1]) (simp_all add: k_def)
  with ck le c rs show "section_rva_to_offset s rva = Some (unat (sec_raw s) + unat (rva - sec_va s))"
    by (simp add: section_rva_to_offset_def k_def)
  show cf: "contains_file_offset s (unat (sec_raw s) + unat (rva - sec_va s))"
    using d rs by (simp add: contains_file_offset_def raw_range_def)
  have "unat (sec_va s) + k = unat rva" using le by (simp add: k_def unat_sub word_le_nat_alt)
  then have "checked_add32 (sec_va s) (of_nat k) = Some rva"
    using unsigned_less [of rva, where ?'a = nat] k32 by (simp add: checked_add32_def k_def unat_of_nat)
  then show "section_offset_to_rva s (unat (sec_raw s) + unat (rva - sec_va s)) = Some rva"
    using rs d k32 by (simp add: section_offset_to_rva_def raw_range_def k_def)
qed

text \<open>
  C29. Addresses of an image: for a section table whose raw ranges are disjoint, an RVA inside the file
  backed part of the section it falls in is mapped by \<open>PeInfo::rva_to_file_offset\<close> to an offset that
  \<open>PeInfo::file_offset_to_rva\<close> maps back to the very same RVA.
\<close>

theorem address_round_trip:
  assumes "raw_disjoint (pi_sections pe)" "section_containing_rva pe rva = Some s"
    and "unat (rva - sec_va s) < unat (sec_rsize s)" "unat (sec_raw s) + unat (sec_rsize s) \<le> 2 ^ 32"
  shows "\<exists>off. rva_to_file_offset pe rva = Some off \<and> file_offset_to_rva pe off = Some rva"
proof -
  have s: "s \<in> set (pi_sections pe)" "contains_rva s rva"
    using assms(2) by (auto simp: section_containing_rva_def find_Some_iff)
  note R = section_round_trip [OF s(2) assms(3,4)]
  from raw_disjoint_unique [OF assms(1) s(1) R(2)] R(1,3) assms(2) show ?thesis
    by (simp add: rva_to_file_offset_def file_offset_to_rva_def section_containing_offset_def)
qed

definition two_section_image :: pe_info where
  "two_section_image =
     \<lparr>pi_base = 0x400000, pi_image_size = 0x4000, pi_timestamp = 0, pi_checksum = 0, pi_64bit = False,
      pi_machine = I386,
      pi_sections =
        [\<lparr>sec_name = [], sec_va = 0x1000, sec_vsize = 0x800, sec_raw = 0x400, sec_rsize = 0x800, sec_flags = 0\<rparr>,
         \<lparr>sec_name = [], sec_va = 0x2000, sec_vsize = 0x100, sec_raw = 0xC00, sec_rsize = 0x200, sec_flags = 0\<rparr>],
      pi_directories = []\<rparr>"

theorem address_round_trip_witness:
  "\<exists>off. rva_to_file_offset two_section_image 0x2010 = Some off
    \<and> file_offset_to_rva two_section_image off = Some 0x2010"
proof (rule address_round_trip)
  show "section_containing_rva two_section_image 0x2010 = Some
      \<lparr>sec_name = [], sec_va = 0x2000, sec_vsize = 0x100, sec_raw = 0xC00, sec_rsize = 0x200, sec_flags = 0\<rparr>"
    by (simp add: section_containing_rva_def two_section_image_def contains_rva_def rva_range_def
        logical_size_def checked_add32_def Let_def)
qed (simp_all add: two_section_image_def raw_disjoint_def raw_range_def)

end
