(* ===== verification/PeTransform.thy ===== *)
theory PeTransform imports PeImage RiftTable begin

text \<open>
  The source transforms of \<open>src/pe/transform.rs\<close>: the image is rewritten in place to what the
  copies of a patch read. An image under work is its bytes and a marker byte per file offset,
  whose bit 0 says that an earlier transform owns the byte. Arithmetic on RVAs is the wrapping
  one of a release build. The passes over x86 branches and the slices of \<open>mark_non_executable\<close>
  check every index and return \<open>Panic\<close> where the code would; the other passes go through
  read and write helpers that test the bounds themselves, as the code does.
\<close>

type_synonym image = "bytes \<times> bytes"

section \<open>Address mapping and markers\<close>

definition map_rva :: "rift_table \<Rightarrow> i64 \<Rightarrow> i64" where
  "map_rva rift rva = rva + rift_map rift rva"

definition rva_to_file_off :: "pe_info \<Rightarrow> i64 \<Rightarrow> nat option" where
  "rva_to_file_off pe rva = (if unat rva < 2 ^ 32 then rva_to_file_offset pe (ucast rva) else None)"

definition first_rva :: "pe_info \<Rightarrow> u32" where
  "first_rva pe = or_zero (first_section_rva pe)"

definition mark_bytes :: "nat \<Rightarrow> nat \<Rightarrow> bytes \<Rightarrow> bytes" where
  "mark_bytes fo n marker =
     map (\<lambda>k. if fo \<le> k \<and> k < fo + n then marker ! k OR 1 else marker ! k) [0..<length marker]"

definition mark_marker_range :: "bytes \<Rightarrow> nat \<Rightarrow> nat \<Rightarrow> u8 \<Rightarrow> bytes" where
  "mark_marker_range marker start n v =
     map (\<lambda>k. if start \<le> k \<and> k < start + n then marker ! k OR v else marker ! k) [0..<length marker]"

definition map_rva_field :: "rift_table \<Rightarrow> nat \<Rightarrow> image \<Rightarrow> image" where
  "map_rva_field rift fo = (\<lambda>(buf, marker).
     let v = ucast (read_u32 buf fo) :: i64
     in (if v \<noteq> 0 then write_u32 buf fo (ucast (map_rva rift v)) else buf, mark_bytes fo 4 marker))"

lemma length_mark_bytes [simp]: "length (mark_bytes fo n marker) = length marker"
  by (simp add: mark_bytes_def)

lemma length_map_rva_field [simp]:
  "length (fst (map_rva_field rift fo im)) = length (fst im)"
  "length (snd (map_rva_field rift fo im)) = length (snd im)"
  by (simp_all add: map_rva_field_def Let_def split: prod.split)

section \<open>Header fields\<close>

definition set_header_image_base :: "u64 \<Rightarrow> bytes \<Rightarrow> bytes" where
  "set_header_image_base target_base buf =
     (case layout_parse buf of Inl _ \<Rightarrow> buf
      | Inr l \<Rightarrow> if layout_64bit l then write_u64 buf (image_base_offset l) target_base
                 else write_u32 buf (image_base_offset l) (ucast target_base))"

definition set_header_timestamp :: "u32 \<Rightarrow> bytes \<Rightarrow> bytes" where
  "set_header_timestamp ts buf =
     (case layout_parse buf of Inl _ \<Rightarrow> buf | Inr l \<Rightarrow> write_u32 buf (timestamp_offset l) ts)"

definition pe_checksum_offset :: "bytes \<Rightarrow> nat option" where
  "pe_checksum_offset data =
     (case layout_parse data of Inl _ \<Rightarrow> None
      | Inr l \<Rightarrow> if checksum_offset l + 4 \<le> length data then Some (checksum_offset l) else None)"

definition zero_pe_checksum :: "bytes \<Rightarrow> bytes" where
  "zero_pe_checksum data =
     (case pe_checksum_offset data of None \<Rightarrow> data | Some off \<Rightarrow> write_u32 data off 0)"

definition pe_timestamp :: "bytes \<Rightarrow> u32" where
  "pe_timestamp data =
     (case layout_parse data of Inl _ \<Rightarrow> 0 | Inr l \<Rightarrow> read_u32 data (timestamp_offset l))"

definition is_managed_pe :: "bytes \<Rightarrow> bool" where
  "is_managed_pe buf =
     (case layout_parse buf of Inl _ \<Rightarrow> False
      | Inr l \<Rightarrow> (case layout_directory l buf DirClrRuntimeHeader of None \<Rightarrow> False
                  | Some (rva, _) \<Rightarrow> rva \<noteq> 0))"

section \<open>Import descriptors\<close>

definition max_import_descriptors :: nat where
  "max_import_descriptors = 4096"

abbreviation ptr_size :: "pe_info \<Rightarrow> nat" where
  "ptr_size pe \<equiv> if pi_64bit pe then 8 else 4"

definition read_thunk :: "pe_info \<Rightarrow> bytes \<Rightarrow> nat \<Rightarrow> u64" where
  "read_thunk pe buf off = (if pi_64bit pe then read_u64 buf off else ucast (read_u32 buf off))"

text \<open>Original first thunk, time stamp, name and first thunk of the descriptor at an offset.\<close>

definition import_descriptor :: "bytes \<Rightarrow> nat \<Rightarrow> (u32 \<times> u32 \<times> u32 \<times> u32) option" where
  "import_descriptor buf off =
     (if off + 20 \<le> length buf
      then Some (read_u32 buf off, read_u32 buf (off + 4), read_u32 buf (off + 12), read_u32 buf (off + 16))
      else None)"

text \<open>The lookup table over the address table, thunk by thunk.\<close>

function copy_thunks :: "pe_info \<Rightarrow> nat \<Rightarrow> nat \<Rightarrow> bytes \<Rightarrow> bytes" where
  "copy_thunks pe s dst buf =
     (if s + ptr_size pe \<le> length buf \<and> dst + ptr_size pe \<le> length buf \<and> read_thunk pe buf s \<noteq> 0
      then copy_thunks pe (s + ptr_size pe) (dst + ptr_size pe)
             (write_at dst (subrange s (s + ptr_size pe) buf) buf)
      else buf)"
  by pat_completeness auto
termination
  by (relation "measure (\<lambda>(pe, s, dst, buf). length buf - s)") auto

declare copy_thunks.simps [simp del]

fun unbind_imports :: "pe_info \<Rightarrow> nat \<Rightarrow> nat \<Rightarrow> bytes \<Rightarrow> bytes" where
  "unbind_imports pe 0 dfo buf = buf"
| "unbind_imports pe (Suc n) dfo buf =
     (case import_descriptor buf dfo of None \<Rightarrow> buf
      | Some (oft, tds, name, ft) \<Rightarrow>
          if oft = 0 \<and> name = 0 \<and> ft = 0 then buf
          else if tds = 0 then unbind_imports pe n (dfo + 20) buf
          else
            let buf = write_u32 (write_u32 buf (dfo + 4) 0) (dfo + 8) 0;
                buf = (case (rva_to_file_off pe (ucast oft), rva_to_file_off pe (ucast ft)) of
                         (Some ilt, Some iat) \<Rightarrow> copy_thunks pe ilt iat buf
                       | _ \<Rightarrow> buf)
            in unbind_imports pe n (dfo + 20) buf)"

definition ascii_lower :: "u8 \<Rightarrow> u8" where
  "ascii_lower c = (if 65 \<le> c \<and> c \<le> 90 then c + 32 else c)"

definition name_eq :: "bytes \<Rightarrow> bytes \<Rightarrow> bool" where
  "name_eq name want \<longleftrightarrow> map ascii_lower (takeWhile (\<lambda>c. c \<noteq> 0) name) = map ascii_lower want"

definition idata_name :: bytes where
  "idata_name = [0x2e, 0x69, 0x64, 0x61, 0x74, 0x61]"

definition mark_idata :: "bytes \<Rightarrow> bytes" where
  "mark_idata buf =
     (case section_table buf of None \<Rightarrow> buf
      | Some (table, count) \<Rightarrow>
          foldl (\<lambda>buf i.
            let sh = table + i * 40
            in if sh + 40 \<le> length buf \<and> name_eq (subrange sh (sh + 8) buf) idata_name
               then write_u32 buf (sh + 36) (read_u32 buf (sh + 36) OR 0xC0000000) else buf)
            buf [0..<count])"

text \<open>The directory of a kind when it has an address, with its file offset.\<close>

definition directory_at :: "pe_info \<Rightarrow> directory_kind \<Rightarrow> (u32 \<times> u32 \<times> nat) option" where
  "directory_at pe kind =
     (case data_directory pe kind of None \<Rightarrow> None
      | Some (rva, sz) \<Rightarrow>
          if rva = 0 then None
          else map_option (\<lambda>fo. (rva, sz, fo)) (rva_to_file_off pe (ucast rva)))"

definition unbind_pe :: "pe_info \<Rightarrow> bytes \<Rightarrow> bytes" where
  "unbind_pe pe buf =
     mark_idata (case directory_at pe DirImport of None \<Rightarrow> buf
                 | Some (_, _, desc0) \<Rightarrow> unbind_imports pe max_import_descriptors desc0 buf)"

definition mark_thunk :: "pe_info \<Rightarrow> nat \<Rightarrow> image \<Rightarrow> image" where
  "mark_thunk pe fo = (\<lambda>(buf, marker). (buf, mark_bytes fo (ptr_size pe) marker))"

text \<open>One thunk: a bound address, the RVA of a name, or an ordinal.\<close>

definition map_thunk :: "pe_info \<Rightarrow> rift_table \<Rightarrow> u64 \<Rightarrow> bool \<Rightarrow> nat \<Rightarrow> image \<Rightarrow> image" where
  "map_thunk pe rift target_base bound fo im =
     (let v = read_thunk pe (fst im) fo
      in if bound then
           let r = v - pi_base pe;
               nv = target_base + r + rift_map rift r
           in mark_thunk pe fo
                ((if pi_64bit pe then write_u64 (fst im) fo nv else write_u32 (fst im) fo (ucast nv)), snd im)
         else if v AND (if pi_64bit pe then push_bit 63 1 else push_bit 31 1) = 0 then
           let im = map_rva_field rift fo im
           in if pi_64bit pe then (fst im, mark_bytes (fo + 4) 4 (snd im)) else im
         else mark_thunk pe fo im)"

lemma length_map_thunk [simp]:
  "length (fst (map_thunk pe rift tb bound fo im)) = length (fst im)"
  "length (snd (map_thunk pe rift tb bound fo im)) = length (snd im)"
  by (cases im, simp add: map_thunk_def mark_thunk_def Let_def)+

function walk_thunks :: "pe_info \<Rightarrow> rift_table \<Rightarrow> u64 \<Rightarrow> bool \<Rightarrow> nat \<Rightarrow> image \<Rightarrow> image" where
  "walk_thunks pe rift target_base bound fo im =
     (if fo + ptr_size pe \<le> length (fst im) \<and> read_thunk pe (fst im) fo \<noteq> 0
      then walk_thunks pe rift target_base bound (fo + ptr_size pe)
             (map_thunk pe rift target_base bound fo im)
      else im)"
  by pat_completeness auto
termination
  by (relation "measure (\<lambda>(pe, rift, tb, bound, fo, im). length (fst im) - fo)") auto

declare walk_thunks.simps [simp del]

definition walk_thunk_array :: "pe_info \<Rightarrow> rift_table \<Rightarrow> u64 \<Rightarrow> u32 \<Rightarrow> bool \<Rightarrow> image \<Rightarrow> image" where
  "walk_thunk_array pe rift target_base arr_rva bound im =
     (if arr_rva = 0 then im
      else case rva_to_file_off pe (ucast arr_rva) of None \<Rightarrow> im
           | Some base \<Rightarrow> walk_thunks pe rift target_base bound base im)"

fun transform_descriptors :: "pe_info \<Rightarrow> rift_table \<Rightarrow> u64 \<Rightarrow> nat \<Rightarrow> nat \<Rightarrow> image \<Rightarrow> image" where
  "transform_descriptors pe rift target_base 0 dfo im = im"
| "transform_descriptors pe rift target_base (Suc n) dfo im =
     (case import_descriptor (fst im) dfo of None \<Rightarrow> im
      | Some (oft, tds, name, ft) \<Rightarrow>
          if oft = 0 \<and> name = 0 \<and> ft = 0 then im
          else
            let im = walk_thunk_array pe rift target_base oft False im;
                im = walk_thunk_array pe rift target_base ft (tds \<noteq> 0) im;
                im = map_rva_field rift (dfo + 12) im;
                im = map_rva_field rift dfo im;
                im = map_rva_field rift (dfo + 16) im
            in transform_descriptors pe rift target_base n (dfo + 20) im)"

definition transform_source_imports :: "pe_info \<Rightarrow> rift_table \<Rightarrow> u64 \<Rightarrow> image \<Rightarrow> image" where
  "transform_source_imports pe rift target_base im =
     (case directory_at pe DirImport of None \<Rightarrow> im
      | Some (_, _, desc0) \<Rightarrow> transform_descriptors pe rift target_base max_import_descriptors desc0 im)"

section \<open>Exports\<close>

definition map_rva_array :: "pe_info \<Rightarrow> rift_table \<Rightarrow> u32 \<times> u32 \<Rightarrow> image \<Rightarrow> image" where
  "map_rva_array pe rift = (\<lambda>(arr_rva, count) im.
     if arr_rva = 0 then im
     else case rva_to_file_off pe (ucast arr_rva) of None \<Rightarrow> im
          | Some base \<Rightarrow> foldl (\<lambda>im i. map_rva_field rift (base + i * 4) im) im [0..<unat count])"

definition transform_source_exports :: "pe_info \<Rightarrow> rift_table \<Rightarrow> image \<Rightarrow> image" where
  "transform_source_exports pe rift im =
     (case directory_at pe DirExport of None \<Rightarrow> im
      | Some (_, _, dfo) \<Rightarrow>
          if length (fst im) < dfo + 40 then im
          else
            let functions = (read_u32 (fst im) (dfo + 28), read_u32 (fst im) (dfo + 20));
                names = (read_u32 (fst im) (dfo + 32), read_u32 (fst im) (dfo + 24));
                im = map_rva_array pe rift functions im;
                im = map_rva_array pe rift names im
            in foldl (\<lambda>im off. map_rva_field rift (dfo + off) im) im [12, 28, 32, 36])"

section \<open>Resources\<close>

definition remap_resource :: "rift_table \<Rightarrow> u32 \<Rightarrow> u32 \<Rightarrow> u32" where
  "remap_resource rift dirbase off =
     ucast (map_rva rift (ucast dirbase + ucast off) - map_rva rift (ucast dirbase))"

text \<open>One directory entry of 8 bytes; the result also has the subdirectories to visit, last first.\<close>

definition resource_entry :: "rift_table \<Rightarrow> u32 \<Rightarrow> nat \<Rightarrow> nat \<Rightarrow> nat \<Rightarrow> image \<Rightarrow> nat list \<times> image" where
  "resource_entry rift dirbase base_fo finish efo im =
     (let name_field = read_u32 (fst im) efo;
          off_field = read_u32 (fst im) (efo + 4);
          off = off_field AND 0x7fffffff;
          (children, im) =
            (if off_field AND 0x80000000 \<noteq> 0 then
               let child_fo = base_fo + unat off
               in (if child_fo + 0x10 \<le> finish \<and> efo < child_fo then [child_fo] else [],
                   (write_u32 (fst im) (efo + 4) (0x80000000 OR (remap_resource rift dirbase off AND 0x7fffffff)),
                    mark_bytes (efo + 4) 4 (snd im)))
             else
               let data_fo = base_fo + unat off
               in ([], if data_fo + 0x10 \<le> finish
                       then (write_u32 (fst im) data_fo (remap_resource rift dirbase (read_u32 (fst im) data_fo)),
                             mark_bytes data_fo 4 (snd im))
                       else im));
          im = (if name_field AND 0x80000000 \<noteq> 0
                then (write_u32 (fst im) efo
                        (0x80000000 OR (remap_resource rift dirbase (name_field AND 0x7fffffff) AND 0x7fffffff)),
                      mark_bytes efo 4 (snd im))
                else im)
      in (children, im))"

fun resource_entries ::
  "rift_table \<Rightarrow> u32 \<Rightarrow> nat \<Rightarrow> nat \<Rightarrow> nat \<Rightarrow> nat \<Rightarrow> nat list \<times> image \<Rightarrow> nat list \<times> image" where
  "resource_entries rift dirbase base_fo finish 0 efo (stack, im) = (stack, im)"
| "resource_entries rift dirbase base_fo finish (Suc n) efo (stack, im) =
     (if length (fst im) < efo + 8 then (stack, im)
      else let (children, im) = resource_entry rift dirbase base_fo finish efo im
           in resource_entries rift dirbase base_fo finish n (efo + 8) (children @ stack, im))"

lemma set_Cons_diff: "A - set (x # xs) = A - set xs - {x}"
  by (simp only: list.simps(15)) (rule Diff_insert)

function resource_walk :: "rift_table \<Rightarrow> u32 \<Rightarrow> nat \<Rightarrow> nat \<Rightarrow> nat list \<Rightarrow> nat list \<Rightarrow> image \<Rightarrow> image" where
  "resource_walk rift dirbase base_fo finish visited [] im = im"
| "resource_walk rift dirbase base_fo finish visited (dir_fo # stack) im =
     (if dir_fo \<in> set visited then resource_walk rift dirbase base_fo finish visited stack im
      else if dir_fo < base_fo \<or> finish < dir_fo + 0x10
      then resource_walk rift dirbase base_fo finish (dir_fo # visited) stack im
      else
        let count = unat (read_u16 (fst im) (dir_fo + 0xc)) + unat (read_u16 (fst im) (dir_fo + 0xe));
            count = min count ((finish - (dir_fo + 0x10)) div 8);
            (stack, im) = resource_entries rift dirbase base_fo finish count (dir_fo + 0x10) (stack, im)
        in resource_walk rift dirbase base_fo finish (dir_fo # visited) stack im)"
  by pat_completeness auto
termination
proof (relation "measures [\<lambda>(rift, dirbase, base_fo, finish, visited, stack, im). card ({0..finish} - set visited),
      \<lambda>(rift, dirbase, base_fo, finish, visited, stack, im). length stack]", goal_cases)
  case (3 rift dirbase base_fo finish visited dir_fo stack im)
  have "card ({0..finish} - set (dir_fo # visited)) \<le> card ({0..finish} - set visited)"
    unfolding set_Cons_diff by (rule card_Diff1_le)
  then show ?case by (simp add: le_less)
next
  case (4 rift dirbase base_fo finish visited dir_fo stack im)
  then have "dir_fo \<in> {0..finish} - set visited" by simp
  then have "card ({0..finish} - set (dir_fo # visited)) < card ({0..finish} - set visited)"
    unfolding set_Cons_diff by (intro card_Diff1_less) simp_all
  then show ?case by simp
qed auto

declare resource_walk.simps(2) [simp del]

definition transform_source_resources :: "pe_info \<Rightarrow> rift_table \<Rightarrow> image \<Rightarrow> image" where
  "transform_source_resources pe rift im =
     (case directory_at pe DirResource of None \<Rightarrow> im
      | Some (rva, sz, base_fo) \<Rightarrow>
          resource_walk rift rva base_fo (min (base_fo + unat sz) (length (fst im))) [] [base_fo] im)"

section \<open>Code sections\<close>

definition executable :: "section_info \<Rightarrow> bool" where
  "executable s \<longleftrightarrow> sec_flags s AND 0x20000000 \<noteq> 0"

text \<open>The file range that a code section fills: start and end, the end cut to the buffer.\<close>

definition code_range :: "section_info \<Rightarrow> nat \<Rightarrow> nat \<times> nat" where
  "code_range s buf_len =
     (let a = unat (sec_raw s) in (a, min (a + unat (min (sec_vsize s) (sec_rsize s))) buf_len))"

text \<open>The slice of a section that starts behind the end of the buffer panics.\<close>

definition unmark_section :: "nat \<Rightarrow> bytes result \<Rightarrow> section_info \<Rightarrow> bytes result" where
  "unmark_section buf_len m s =
     rbind m (\<lambda>marker.
       if \<not> executable s then Inr marker
       else let (a, b) = code_range s buf_len
            in if b < a then Inl Panic
               else Inr (map (\<lambda>k. if a \<le> k \<and> k < b then marker ! k AND NOT 1 else marker ! k) [0..<length marker]))"

definition mark_non_executable :: "bytes \<Rightarrow> pe_info \<Rightarrow> bytes \<Rightarrow> bytes result" where
  "mark_non_executable buf pe marker =
     foldl (unmark_section (length buf)) (Inr (map (\<lambda>m. m OR 1) marker)) (pi_sections pe)"

definition branch_target_reachable :: "pe_info \<Rightarrow> u32 \<Rightarrow> bool" where
  "branch_target_reachable pe target \<longleftrightarrow>
     target \<noteq> 0 \<and> target < pi_image_size pe
     \<and> (target < first_rva pe \<or> (\<exists>s\<in>set (pi_sections pe). contains_rva s target))"

definition target_marker_index :: "pe_info \<Rightarrow> u32 \<Rightarrow> nat" where
  "target_marker_index pe target =
     (if target < first_rva pe then unat target
      else case rva_to_file_off pe (ucast target) of None \<Rightarrow> unat target | Some f \<Rightarrow> f)"

definition marker_set :: "bytes \<Rightarrow> nat \<Rightarrow> bool" where
  "marker_set marker i \<longleftrightarrow> i < length marker \<and> marker ! i AND 1 \<noteq> 0"

text \<open>\<open>(0..n).any(|k| marker[i + k] & 1 != 0)\<close>: it stops at the first hit and panics behind the end.\<close>

fun any_marked :: "bytes \<Rightarrow> nat \<Rightarrow> nat \<Rightarrow> bool result" where
  "any_marked marker i 0 = Inr False"
| "any_marked marker i (Suc n) =
     rbind (index marker i) (\<lambda>m. if m AND 1 \<noteq> 0 then Inr True else any_marked marker (i + 1) n)"

lemma any_marked_iff:
  "i + n \<le> length marker \<Longrightarrow> any_marked marker i n = Inr (\<exists>k\<in>{i..<i + n}. marker ! k AND 1 \<noteq> 0)"
proof (induction n arbitrary: i)
  case (Suc n)
  have "{i..<i + Suc n} = insert i {i + 1..<i + 1 + n}" by auto
  with Suc show ?case by simp
qed simp

text \<open>The displacement of a branch behind the rewriting: the distance of the mapped ends.\<close>

definition new_displacement :: "rift_table \<Rightarrow> u32 \<Rightarrow> u32 \<Rightarrow> u32" where
  "new_displacement rift target site_end = ucast (map_rva rift (ucast target) - map_rva rift (ucast site_end))"

text \<open>
  One step of the call pass: the next position and the buffer. Every index and slice of the two
  branch passes is checked, and panics where the code would.
\<close>

definition call_step ::
  "pe_info \<Rightarrow> rift_table \<Rightarrow> section_info \<Rightarrow> bytes \<Rightarrow> nat \<Rightarrow> bytes \<Rightarrow> (nat \<times> bytes) result" where
  "call_step pe rift s marker i buf =
     rbind (index buf i) (\<lambda>op.
     if op \<noteq> 0xE8 then Inr (i + 1, buf)
     else rbind (any_marked marker i 5) (\<lambda>taken.
     if taken then Inr (i + 1, buf)
     else rbind (usize_sub i (unat (sec_raw s))) (\<lambda>rel.
     rbind (slice_at (i + 1) (i + 5) buf) (\<lambda>field.
       let site_end = sec_va s + of_nat rel + 5;
           orig = from_le field :: u32;
           target = site_end + orig
       in if \<not> branch_target_reachable pe target \<or> marker_set marker (target_marker_index pe target)
          then Inr (i + 1, buf)
          else
            let new_disp = new_displacement rift target site_end
            in Inr (i + 5, if new_disp \<noteq> orig then write_at (i + 1) (to_le 4 new_disp) buf else buf)))))"

lemma call_step_advances: "call_step pe rift s marker i buf = Inr (i', buf') \<Longrightarrow> i < i'"
  by (auto simp: call_step_def Let_def split: if_splits)

text \<open>A pass over a code section: steps while five bytes are left.\<close>

function calls_loop ::
  "pe_info \<Rightarrow> rift_table \<Rightarrow> section_info \<Rightarrow> nat \<Rightarrow> bytes \<Rightarrow> nat \<Rightarrow> bytes \<Rightarrow> bytes result" where
  "calls_loop pe rift s send marker i buf =
     (if i + 5 \<le> send
      then rbind (call_step pe rift s marker i buf) (\<lambda>(i', buf'). calls_loop pe rift s send marker i' buf')
      else Inr buf)"
  by pat_completeness auto
termination
  by (relation "measure (\<lambda>(pe, rift, s, send, marker, i, buf). send - i)")
    (auto dest!: call_step_advances)

declare calls_loop.simps [simp del]

definition calls_section :: "pe_info \<Rightarrow> rift_table \<Rightarrow> bytes \<Rightarrow> bytes result \<Rightarrow> section_info \<Rightarrow> bytes result" where
  "calls_section pe rift marker r s =
     rbind r (\<lambda>buf.
       if \<not> executable s then Inr buf
       else let (sraw, send) = code_range s (length buf)
            in if send < 5 then Inr buf else calls_loop pe rift s send marker sraw buf)"

definition transform_source_calls_i386 :: "pe_info \<Rightarrow> rift_table \<Rightarrow> image \<Rightarrow> image result" where
  "transform_source_calls_i386 pe rift = (\<lambda>(buf, marker).
     rbind (foldl (calls_section pe rift marker) (Inr buf) (pi_sections pe)) (\<lambda>buf. Inr (buf, marker)))"

text \<open>
  A near jump whose displacement does not fit a byte: the new displacement, in the short form
  where that fits and the byte before is free. \<open>d\<close> is the byte before the displacement.
\<close>

definition fits_byte :: "u32 \<Rightarrow> bool" where
  "fits_byte d \<longleftrightarrow> (scast d :: i64) + 0x80 \<le> 0xFF"

definition rewrite_jump :: "bytes \<Rightarrow> nat \<Rightarrow> bool \<Rightarrow> u32 \<Rightarrow> u32 \<Rightarrow> bytes result" where
  "rewrite_jump buf d can_short orig disp =
     (if can_short \<and> fits_byte disp then
        rbind (index buf d) (\<lambda>op.
          if op = 0xE9 then
            rbind (store_at buf d 0xEB) (\<lambda>buf. store_at buf (d + 1) (ucast disp))
          else
            rbind (usize_sub d 1) (\<lambda>before.
            rbind (store_at buf before ((op AND 0x0F) OR 0x70)) (\<lambda>buf. store_at buf d (ucast disp))))
      else if disp \<noteq> orig then
        rbind (slice_at (d + 1) (d + 5) buf) (\<lambda>_. Inr (write_at (d + 1) (to_le 4 disp) buf))
      else Inr buf)"

text \<open>
  Whether a jump begins at \<open>i\<close>: the byte before its displacement. And whether the short form may
  be taken: the 0F byte of a conditional jump must be free.
\<close>

definition jump_at :: "bytes \<Rightarrow> nat \<Rightarrow> nat option result" where
  "jump_at buf i =
     rbind (index buf i) (\<lambda>op.
       if op = 0xE9 then Inr (Some i)
       else if op = 0x0F then
         rbind (index buf (i + 1)) (\<lambda>op2. Inr (if op2 AND 0xF0 = 0x80 then Some (i + 1) else None))
       else Inr None)"

definition jump_can_short :: "bytes \<Rightarrow> bytes \<Rightarrow> nat \<Rightarrow> bool result" where
  "jump_can_short buf marker d =
     rbind (index buf d) (\<lambda>op.
       if op \<noteq> 0xE9 \<and> 1 \<le> d then rbind (index marker (d - 1)) (\<lambda>m. Inr (m AND 1 = 0)) else Inr True)"

definition jump_step ::
  "pe_info \<Rightarrow> rift_table \<Rightarrow> section_info \<Rightarrow> bytes \<Rightarrow> nat \<Rightarrow> bytes \<Rightarrow> (nat \<times> bytes) result" where
  "jump_step pe rift s marker i buf =
     rbind (jump_at buf i) (\<lambda>at.
     case at of None \<Rightarrow> Inr (i + 1, buf)
     | Some d \<Rightarrow>
         rbind (jump_can_short buf marker d) (\<lambda>can_short.
         rbind (if length buf < d + 5 then Inr True else any_marked marker d 5) (\<lambda>skip.
         if skip then Inr (i + 1, buf)
         else
           rbind (slice_at (d + 1) (d + 5) buf) (\<lambda>field.
             let orig = from_le field :: u32
             in if fits_byte orig then Inr (i + 1, buf)
                else
                  rbind (usize_sub d (unat (sec_raw s))) (\<lambda>rel.
                    let site_end = sec_va s + of_nat rel + 5;
                        target = site_end + orig
                    in if \<not> branch_target_reachable pe target \<or> marker_set marker (target_marker_index pe target)
                       then Inr (i + 1, buf)
                       else
                         rbind (rewrite_jump buf d can_short orig (new_displacement rift target site_end)) (\<lambda>buf.
                           Inr (d + 5, buf)))))))"

lemma jump_at_from: "jump_at buf i = Inr (Some d) \<Longrightarrow> i \<le> d"
  by (auto simp: jump_at_def split: if_splits)

lemma jump_step_advances: "jump_step pe rift s marker i buf = Inr (i', buf') \<Longrightarrow> i < i'"
  by (auto simp: jump_step_def Let_def split: if_splits option.splits dest!: jump_at_from)

function jmps_loop ::
  "pe_info \<Rightarrow> rift_table \<Rightarrow> section_info \<Rightarrow> nat \<Rightarrow> bytes \<Rightarrow> nat \<Rightarrow> bytes \<Rightarrow> bytes result" where
  "jmps_loop pe rift s send marker i buf =
     (if i + 5 \<le> send
      then rbind (jump_step pe rift s marker i buf) (\<lambda>(i', buf'). jmps_loop pe rift s send marker i' buf')
      else Inr buf)"
  by pat_completeness auto
termination
  by (relation "measure (\<lambda>(pe, rift, s, send, marker, i, buf). send - i)")
    (auto dest!: jump_step_advances)

declare jmps_loop.simps [simp del]

definition jmps_section :: "pe_info \<Rightarrow> rift_table \<Rightarrow> bytes \<Rightarrow> bytes result \<Rightarrow> section_info \<Rightarrow> bytes result" where
  "jmps_section pe rift marker r s =
     rbind r (\<lambda>buf.
       if \<not> executable s then Inr buf
       else let (sraw, send) = code_range s (length buf)
            in if send < 5 then Inr buf else jmps_loop pe rift s send marker sraw buf)"

definition transform_source_jmps_i386 :: "pe_info \<Rightarrow> rift_table \<Rightarrow> image \<Rightarrow> image result" where
  "transform_source_jmps_i386 pe rift = (\<lambda>(buf, marker).
     rbind (foldl (jmps_section pe rift marker) (Inr buf) (pi_sections pe)) (\<lambda>buf. Inr (buf, marker)))"

section \<open>What a rewritten branch does\<close>

text \<open>
  A decoder of the branches that the passes know, independent of them: the kind with its
  condition, the position behind the instruction, and the displacement as a 32-bit number.
\<close>

datatype branch = Call | Jump | JumpIf u8

definition decode_branch :: "bytes \<Rightarrow> nat \<Rightarrow> (branch \<times> nat \<times> u32) option" where
  "decode_branch buf i =
     (let op = buf ! i
      in if op = 0xE8 then Some (Call, i + 5, from_le (subrange (i + 1) (i + 5) buf))
         else if op = 0xE9 then Some (Jump, i + 5, from_le (subrange (i + 1) (i + 5) buf))
         else if op = 0xEB then Some (Jump, i + 2, scast (buf ! (i + 1)))
         else if op AND 0xF0 = 0x70 then Some (JumpIf (op AND 0x0F), i + 2, scast (buf ! (i + 1)))
         else if op = 0x0F \<and> buf ! (i + 1) AND 0xF0 = 0x80 then
           Some (JumpIf (buf ! (i + 1) AND 0x0F), i + 6, from_le (subrange (i + 2) (i + 6) buf))
         else None)"

text \<open>An address behind the mapping, as the 32-bit value that the image holds.\<close>

definition mapped :: "rift_table \<Rightarrow> u32 \<Rightarrow> u32" where
  "mapped rift a = ucast (map_rva rift (ucast a))"

lemma low_word_diff: "(ucast (a - b :: i64) :: u32) = ucast a - ucast b"
proof transfer
  fix a b :: int
  have "take_bit 32 (a - b) = take_bit 32 (take_bit 64 a - take_bit 64 b)"
    by (subst (1 2) take_bit_diff [symmetric]) simp
  then show "take_bit LENGTH(32) (take_bit LENGTH(64) (a - b)) = take_bit LENGTH(32) (take_bit LENGTH(64) a - take_bit LENGTH(64) b)"
    by simp
qed

lemma new_displacement_mapped: "mapped rift e + new_displacement rift t e = mapped rift t"
  by (simp add: mapped_def new_displacement_def low_word_diff)

text \<open>
  What one step may do at \<open>i\<close>: go on by a byte and change nothing, or make the branch at \<open>i\<close> one of
  the same kind whose displacement leads from the mapped end of the old instruction to the mapped
  target, at which only free bytes of the instruction change.
\<close>

definition retargeted ::
  "rift_table \<Rightarrow> section_info \<Rightarrow> bytes \<Rightarrow> nat \<Rightarrow> bytes \<Rightarrow> nat \<Rightarrow> bytes \<Rightarrow> bool" where
  "retargeted rift s marker i buf i' buf' \<longleftrightarrow>
     (\<exists>kind disp behind disp'. decode_branch buf i = Some (kind, i', disp)
        \<and> decode_branch buf' i = Some (kind, behind, disp') \<and> behind \<le> i'
        \<and> (let e = sec_va s + of_nat (i' - unat (sec_raw s))
            in mapped rift e + disp' = mapped rift (e + disp)))
     \<and> length buf' = length buf
     \<and> (\<forall>k<length buf. buf' ! k \<noteq> buf ! k \<longrightarrow> i \<le> k \<and> k < i' \<and> marker ! k AND 1 = 0)"

lemma short_displacement:
  assumes "fits_byte d" shows "scast (ucast d :: u8) = d"
proof -
  define y where "y = (scast d :: i64) + 0x80"
  have "unat y < 256" using assms by (simp add: fits_byte_def y_def word_le_nat_alt)
  moreover have "d = ucast y - 0x80"
  proof -
    have "scast d = y - 0x80" by (simp add: y_def)
    then have "(ucast (scast d :: i64) :: u32) = ucast y - 0x80" by (simp add: low_word_diff)
    moreover have "(ucast (scast d :: i64) :: u32) = d" by (rule bit_word_eqI) (simp add: bit_simps)
    ultimately show ?thesis by simp
  qed
  moreover have "(ucast y :: u32) = of_nat (unat y)" by simp
  ultimately obtain n where n: "n < 256" "d = of_nat n - 0x80" by metis
  have "\<forall>n\<in>set [0..<256]. scast (ucast (of_nat n - 0x80 :: u32) :: u8) = (of_nat n - 0x80 :: u32)"
    by code_simp
  with n show ?thesis by auto
qed

text \<open>A displacement field that is written reads back, and nothing beside it changes.\<close>

lemma written_field:
  assumes "p + 4 \<le> length buf"
  shows "from_le (subrange p (p + 4) (write_at p (to_le 4 d) buf)) = (d :: u32)"
    and "length (write_at p (to_le 4 d) buf) = length buf"
    and "k < length buf \<Longrightarrow> k < p \<or> p + 4 \<le> k \<Longrightarrow> write_at p (to_le 4 d) buf ! k = buf ! k"
proof -
  have "subrange p (p + 4) (write_at p (to_le 4 d) buf) = to_le 4 d"
    using assms by (intro nth_equalityI) (simp_all add: nth_subrange nth_write_at)
  then show "from_le (subrange p (p + 4) (write_at p (to_le 4 d) buf)) = d" by simp
qed (use assms in \<open>auto simp: nth_write_at\<close>)

lemma rewritten_field:
  assumes p: "p + 4 \<le> length buf"
    and buf': "buf' = (if disp \<noteq> from_le (subrange p (p + 4) buf) then write_at p (to_le 4 (disp :: u32)) buf else buf)"
  shows "from_le (subrange p (p + 4) buf') = disp" "length buf' = length buf"
    "k < length buf \<Longrightarrow> k < p \<or> p + 4 \<le> k \<Longrightarrow> buf' ! k = buf ! k"
  using written_field [OF p, where d = disp] by (simp_all add: buf' del: not_le)

lemma site_end:
  assumes "r \<le> d" shows "va + of_nat (d + 5 - r) = va + of_nat (d - r) + (5 :: u32)"
proof -
  have "d + 5 - r = (d - r) + 5" using assms by simp
  then show ?thesis by (simp only: of_nat_add of_nat_numeral add.assoc)
qed

text \<open>
  Which branches are rewritten: the five bytes up to the end of the instruction are there and free,
  the target is reachable and in code that no transform owns, and a jump is not short of itself.
\<close>

definition site_target :: "section_info \<Rightarrow> nat \<Rightarrow> u32 \<Rightarrow> u32" where
  "site_target s behind disp = sec_va s + of_nat (behind - unat (sec_raw s)) + disp"

definition eligible ::
  "pe_info \<Rightarrow> section_info \<Rightarrow> bytes \<Rightarrow> bytes \<Rightarrow> nat \<Rightarrow> branch \<Rightarrow> nat \<Rightarrow> u32 \<Rightarrow> bool" where
  "eligible pe s marker buf i kind behind disp \<longleftrightarrow>
     decode_branch buf i = Some (kind, behind, disp)
     \<and> i + 5 \<le> behind \<and> behind \<le> length buf
     \<and> \<not> (\<exists>k\<in>{behind - 5..<behind}. marker ! k AND 1 \<noteq> 0)
     \<and> (kind = Call \<or> \<not> fits_byte disp)
     \<and> branch_target_reachable pe (site_target s behind disp)
     \<and> \<not> marker_set marker (target_marker_index pe (site_target s behind disp))"

lemma if_chain:
  "(if \<not> a then s else if b then s else if c then s else v) = (if a \<and> \<not> b \<and> \<not> c then v else s)"
  by simp

lemma call_step_eq:
  fixes rift :: rift_table
  assumes len: "length marker = length buf" and raw: "unat (sec_raw s) \<le> i" and i: "i + 5 \<le> length buf"
  defines "orig \<equiv> from_le (subrange (i + 1) (i + 5) buf) :: u32"
  defines "e \<equiv> sec_va s + of_nat (i + 5 - unat (sec_raw s))"
  defines "disp \<equiv> new_displacement rift (e + orig) e"
  shows "call_step pe rift s marker i buf =
    (if eligible pe s marker buf i Call (i + 5) orig
     then Inr (i + 5, if disp \<noteq> orig then write_at (i + 1) (to_le 4 disp) buf else buf) else Inr (i + 1, buf))"
proof -
  have e: "sec_va s + of_nat (i - unat (sec_raw s)) + 5 = e" by (simp only: e_def site_end [OF raw])
  have am: "any_marked marker i 5 = Inr (\<exists>k\<in>{i..<i + 5}. marker ! k AND 1 \<noteq> 0)"
    using len i by (simp only: any_marked_iff)
  have ix: "index buf i = Inr (buf ! i)" using i by simp
  have parts: "usize_sub i (unat (sec_raw s)) = Inr (i - unat (sec_raw s))"
    "slice_at (i + 1) (i + 5) buf = Inr (subrange (i + 1) (i + 5) buf)" using raw i by simp_all
  have d: "decode_branch buf i = Some (Call, i + 5, orig) \<longleftrightarrow> buf ! i = 0xE8"
    by (auto simp: decode_branch_def orig_def Let_def)
  have el: "eligible pe s marker buf i Call (i + 5) orig \<longleftrightarrow> buf ! i = 0xE8
      \<and> \<not> (\<exists>k\<in>{i..<i + 5}. marker ! k AND 1 \<noteq> 0)
      \<and> \<not> (\<not> branch_target_reachable pe (e + orig) \<or> marker_set marker (target_marker_index pe (e + orig)))"
    using i unfolding eligible_def d site_target_def e_def by (simp only: add_diff_cancel_right' de_Morgan_disj not_not le_refl simp_thms)
  show ?thesis
    unfolding call_step_def ix rbind_Inr am parts Let_def e el [unfolded orig_def] disp_def orig_def by (rule if_chain)
qed

lemma two_updates:
  "\<forall>k<n. buf[i := a, i + 1 := b] ! k \<noteq> buf ! k \<longrightarrow> i \<le> k \<and> k < i + (2 :: nat)"
proof (intro allI impI, rule ccontr)
  fix k assume c: "buf[i := a, i + 1 := b] ! k \<noteq> buf ! k" and "\<not> (i \<le> k \<and> k < i + 2)"
  then have "i \<noteq> k" "i + 1 \<noteq> k" by auto
  with c show False by (simp only: nth_list_update_neq simp_thms)
qed

text \<open>Opcodes of conditional jumps, near and short.\<close>

lemma short_condition:
  fixes op :: u8
  shows "((op AND 0x0F) OR 0x70) AND 0xF0 = 0x70" "((op AND 0x0F) OR 0x70) AND 0x0F = op AND 0x0F"
    "(op AND 0x0F) OR 0x70 \<notin> {0xE8, 0xE9, 0xEB}"
proof -
  show a: "((op AND 0x0F) OR 0x70) AND 0xF0 = 0x70" and "((op AND 0x0F) OR 0x70) AND 0x0F = op AND 0x0F"
    by (simp_all add: bit.conj_disj_distrib2 and.assoc)
  show "(op AND 0x0F) OR 0x70 \<notin> {0xE8, 0xE9, 0xEB}"
  proof
    assume "(op AND 0x0F) OR 0x70 \<in> {0xE8, 0xE9, 0xEB}"
    with a show False by auto
  qed
qed

lemma near_jump_cases:
  assumes "jump_at buf i = Inr (Some d)"
  obtains (near) "d = i" "buf ! i = 0xE9"
    | (cond) "d = i + 1" "buf ! i = 0x0F" "buf ! d AND 0xF0 = 0x80" "buf ! d \<noteq> 0xE9"
proof -
  from assms have "d = i \<and> buf ! i = 0xE9 \<or> d = i + 1 \<and> buf ! i = 0x0F \<and> buf ! d AND 0xF0 = 0x80"
    by (auto simp: jump_at_def index_def split: if_splits)
  then show ?thesis using near cond by fastforce
qed

lemma decode_near_jump:
  assumes "jump_at buf i = Inr (Some d)"
  shows "decode_branch buf i = Some (if d = i then Jump else JumpIf (buf ! d AND 0x0F), d + 5, from_le (subrange (d + 1) (d + 5) buf))"
  using assms by (cases rule: near_jump_cases) (simp_all add: decode_branch_def, simp add: add.commute)

lemma rewrite_jump_long:
  assumes j: "jump_at buf i = Inr (Some d)" and d: "d + 5 \<le> length buf"
    and l: "\<not> (can_short \<and> fits_byte disp)" and o: "orig = from_le (subrange (d + 1) (d + 5) buf)"
  obtains buf' where "rewrite_jump buf d can_short orig disp = Inr buf'" "length buf' = length buf"
    "decode_branch buf' i = Some (if d = i then Jump else JumpIf (buf ! d AND 0x0F), d + 5, disp)"
    "\<forall>k<length buf. buf' ! k \<noteq> buf ! k \<longrightarrow> d + 1 \<le> k \<and> k < d + 5"
proof -
  define buf' where "buf' = (if disp \<noteq> orig then write_at (d + 1) (to_le 4 disp) buf else buf)"
  have d5: "d + 1 + 4 \<le> length buf" "d + 1 + 4 = d + 5" using d by simp_all
  note f = rewritten_field [OF d5(1), unfolded d5(2), folded o, OF buf'_def]
  have w: "from_le (subrange (d + 1) (d + 5) buf') = disp" "length buf' = length buf"
    "\<forall>k<length buf. buf' ! k \<noteq> buf ! k \<longrightarrow> d + 1 \<le> k \<and> k < d + 5"
    using f by (blast, blast, meson linorder_not_less)
  have same: "buf' ! k = buf ! k" if "k \<le> d" for k using f(3) [of k] that d by simp
  have r: "rewrite_jump buf d can_short orig disp = Inr buf'" using l d by (auto simp: rewrite_jump_def buf'_def)
  from j have "decode_branch buf' i = Some (if d = i then Jump else JumpIf (buf ! d AND 0x0F), d + 5, disp)"
    by (cases rule: near_jump_cases) (use w(1) same in \<open>simp_all add: decode_branch_def\<close>, simp add: add.commute)
  from that [OF r w(2) this w(3)] show thesis .
qed

lemma rewrite_jump_short:
  assumes j: "jump_at buf i = Inr (Some d)" and d: "d + 5 \<le> length buf"
    and s: "can_short" "fits_byte disp"
  obtains buf' where "rewrite_jump buf d can_short orig disp = Inr buf'" "length buf' = length buf"
    "decode_branch buf' i = Some (if d = i then Jump else JumpIf (buf ! d AND 0x0F), i + 2, disp)"
    "\<forall>k<length buf. buf' ! k \<noteq> buf ! k \<longrightarrow> i \<le> k \<and> k < i + 2"
  using j
proof (cases rule: near_jump_cases)
  case near
  define buf' where "buf' = buf[i := 0xEB, i + 1 := ucast disp]"
  have r: "rewrite_jump buf d can_short orig disp = Inr buf'"
    using s d near by (simp add: rewrite_jump_def buf'_def)
  have "decode_branch buf' i = Some (Jump, i + 2, disp)"
    using d near by (simp add: decode_branch_def buf'_def short_displacement [OF s(2)])
  moreover have "\<forall>k<length buf. buf' ! k \<noteq> buf ! k \<longrightarrow> i \<le> k \<and> k < i + 2"
    unfolding buf'_def by (rule two_updates)
  ultimately show thesis using that [OF r] near by (simp add: buf'_def)
next
  case cond
  define buf' where "buf' = buf[i := (buf ! d AND 0x0F) OR 0x70, d := ucast disp]"
  have r: "rewrite_jump buf d can_short orig disp = Inr buf'"
    using s d cond by (simp add: rewrite_jump_def buf'_def)
  have op: "buf' ! i = (buf ! d AND 0x0F) OR 0x70" "buf' ! (i + 1) = ucast disp"
    using d cond by (simp_all add: buf'_def)
  have "decode_branch buf' i = Some (JumpIf (buf ! d AND 0x0F), i + 2, disp)"
    using short_condition [of "buf ! d"] unfolding decode_branch_def op
    by (simp add: short_displacement [OF s(2)])
  moreover have "\<forall>k<length buf. buf' ! k \<noteq> buf ! k \<longrightarrow> i \<le> k \<and> k < i + 2"
    unfolding buf'_def cond(1) by (rule two_updates)
  ultimately show thesis using that [OF r] cond by (simp add: buf'_def)
qed

lemma jump_rewritten:
  assumes j: "jump_at buf i = Inr (Some d)" and d: "d + 5 \<le> length buf"
    and free: "\<not> (\<exists>k\<in>{d..<d + 5}. marker ! k AND 1 \<noteq> 0)"
  defines "can_short \<equiv> buf ! d \<noteq> 0xE9 \<longrightarrow> 1 \<le> d \<longrightarrow> marker ! (d - 1) AND 1 = 0"
  shows "\<exists>buf' behind. rewrite_jump buf d can_short (from_le (subrange (d + 1) (d + 5) buf)) disp = Inr buf'
    \<and> length buf' = length buf
    \<and> decode_branch buf' i = Some (if d = i then Jump else JumpIf (buf ! d AND 0x0F), behind, disp) \<and> behind \<le> d + 5
    \<and> (\<forall>k<length buf. buf' ! k \<noteq> buf ! k \<longrightarrow> i \<le> k \<and> k < d + 5 \<and> marker ! k AND 1 = 0)"
proof (cases "can_short \<and> fits_byte disp")
  case True
  have m: "marker ! k AND 1 = 0" if "i \<le> k" "k < i + 2" for k
    using j
  proof (cases rule: near_jump_cases)
    case near
    with free that show ?thesis by auto
  next
    case cond
    with True have "marker ! i AND 1 = 0" by (simp add: can_short_def)
    moreover have "marker ! k AND 1 = 0" if "k = d" using free that by auto
    moreover have "k = i \<or> k = d" using that cond(1) by linarith
    ultimately show ?thesis by blast
  qed
  have b: "i + 2 \<le> d + 5" using j by (cases rule: near_jump_cases) auto
  obtain buf' where r: "rewrite_jump buf d can_short (from_le (subrange (d + 1) (d + 5) buf)) disp = Inr buf'"
    "length buf' = length buf"
    "decode_branch buf' i = Some (if d = i then Jump else JumpIf (buf ! d AND 0x0F), i + 2, disp)"
    "\<forall>k<length buf. buf' ! k \<noteq> buf ! k \<longrightarrow> i \<le> k \<and> k < i + 2"
    by (rule rewrite_jump_short [OF j d conjunct1 [OF True] conjunct2 [OF True]])
  have "\<forall>k<length buf. buf' ! k \<noteq> buf ! k \<longrightarrow> i \<le> k \<and> k < d + 5 \<and> marker ! k AND 1 = 0"
    using r(4) m b by (meson less_le_trans)
  with r b show ?thesis by blast
next
  case False
  have b: "i \<le> d" using j by (cases rule: near_jump_cases) auto
  obtain buf' where r: "rewrite_jump buf d can_short (from_le (subrange (d + 1) (d + 5) buf)) disp = Inr buf'"
    "length buf' = length buf"
    "decode_branch buf' i = Some (if d = i then Jump else JumpIf (buf ! d AND 0x0F), d + 5, disp)"
    "\<forall>k<length buf. buf' ! k \<noteq> buf ! k \<longrightarrow> d + 1 \<le> k \<and> k < d + 5"
    by (rule rewrite_jump_long [OF j d False refl])
  have "i \<le> k \<and> k < d + 5 \<and> marker ! k AND 1 = 0" if "k < length buf" "buf' ! k \<noteq> buf ! k" for k
    using r(4) free b that by auto
  with r show ?thesis by blast
qed

lemma call_step_retargets:
  assumes len: "length marker = length buf" and raw: "unat (sec_raw s) \<le> i" and i: "i + 5 \<le> length buf"
    and el: "eligible pe s marker buf i Call behind disp"
  obtains buf' where "call_step pe rift s marker i buf = Inr (behind, buf')"
    "retargeted rift s marker i buf behind buf'"
proof -
  define orig where "orig = (from_le (subrange (i + 1) (i + 5) buf) :: u32)"
  define e where "e = sec_va s + of_nat (i + 5 - unat (sec_raw s))"
  define disp' where "disp' = new_displacement rift (e + orig) e"
  define buf' where "buf' = (if disp' \<noteq> orig then write_at (i + 1) (to_le 4 disp') buf else buf)"
  from el have b: "behind = i + 5" "disp = orig" and op: "buf ! i = 0xE8"
    by (auto simp: eligible_def decode_branch_def orig_def Let_def split: if_splits)
  have step: "call_step pe rift s marker i buf = Inr (i + 5, buf')"
    using call_step_eq [OF len raw i, of pe rift] el
    by (simp only: b if_True buf'_def disp'_def e_def flip: orig_def)
  have i5: "i + 1 + 4 \<le> length buf" "i + 1 + 4 = i + 5" using i by simp_all
  note f = rewritten_field [OF i5(1), unfolded i5(2), folded orig_def, OF buf'_def]
  have w: "from_le (subrange (i + 1) (i + 5) buf') = disp'" "length buf' = length buf" "buf' ! i = buf ! i"
    "\<forall>k<length buf. buf' ! k \<noteq> buf ! k \<longrightarrow> i \<le> k \<and> k < i + 5"
    using f i by (simp_all, (metis less_Suc_eq linorder_not_less)+)
  have free: "\<not> (\<exists>k\<in>{i..<i + 5}. marker ! k AND 1 \<noteq> 0)"
    using el by (simp only: eligible_def b add_diff_cancel_right' simp_thms)
  have "retargeted rift s marker i buf (i + 5) buf'"
    unfolding retargeted_def
  proof (intro conjI exI)
    show "decode_branch buf i = Some (Call, i + 5, orig)" by (simp add: decode_branch_def op orig_def)
    show "decode_branch buf' i = Some (Call, i + 5, disp')" using w op by (simp add: decode_branch_def)
    show "let e = sec_va s + of_nat (i + 5 - unat (sec_raw s)) in mapped rift e + disp' = mapped rift (e + orig)"
      by (simp add: disp'_def new_displacement_mapped flip: e_def)
    show "\<forall>k<length buf. buf' ! k \<noteq> buf ! k \<longrightarrow> i \<le> k \<and> k < i + 5 \<and> marker ! k AND 1 = 0"
      using w(4) free by fastforce
  qed (simp_all add: w)
  with step that show thesis by (simp add: b)
qed

lemma jump_step_eq:
  fixes rift :: rift_table
  assumes len: "length marker = length buf" and raw: "unat (sec_raw s) \<le> i" and i: "i + 5 \<le> length buf"
    and at: "jump_at buf i = Inr (Some d)"
  defines "orig \<equiv> from_le (subrange (d + 1) (d + 5) buf) :: u32"
  defines "e \<equiv> sec_va s + of_nat (d + 5 - unat (sec_raw s))"
  defines "disp \<equiv> new_displacement rift (e + orig) e"
  defines "can_short \<equiv> buf ! d \<noteq> 0xE9 \<longrightarrow> 1 \<le> d \<longrightarrow> marker ! (d - 1) AND 1 = 0"
  shows "jump_step pe rift s marker i buf =
    (if eligible pe s marker buf i (if d = i then Jump else JumpIf (buf ! d AND 0x0F)) (d + 5) orig
     then rbind (rewrite_jump buf d can_short orig disp) (\<lambda>buf. Inr (d + 5, buf)) else Inr (i + 1, buf))"
proof -
  have d: "i \<le> d" "d \<le> i + 1" using at by (auto elim: near_jump_cases)
  have sh: "jump_can_short buf marker d = Inr can_short" using d i len by (auto simp: jump_can_short_def can_short_def)
  have dec: "decode_branch buf i = Some (if d = i then Jump else JumpIf (buf ! d AND 0x0F), d + 5, orig)"
    using decode_near_jump [OF at] by (simp only: orig_def)
  show ?thesis
  proof (cases "length buf < d + 5")
    case True
    then have "\<not> eligible pe s marker buf i kind (d + 5) orig" for kind by (simp add: eligible_def)
    with True at sh show ?thesis by (simp add: jump_step_def)
  next
    case False
    have am: "any_marked marker d 5 = Inr (\<exists>k\<in>{d..<d + 5}. marker ! k AND 1 \<noteq> 0)"
      using len False by (simp only: any_marked_iff not_less)
    have rd: "unat (sec_raw s) \<le> d" using raw d by simp
    have e: "sec_va s + of_nat (d - unat (sec_raw s)) + 5 = e" by (simp only: e_def site_end [OF rd])
    have parts: "usize_sub d (unat (sec_raw s)) = Inr (d - unat (sec_raw s))"
      "slice_at (d + 1) (d + 5) buf = Inr (subrange (d + 1) (d + 5) buf)" using rd False by simp_all
    have kind: "(if d = i then Jump else JumpIf (buf ! d AND 0x0F)) \<noteq> Call" by simp
    have el: "eligible pe s marker buf i (if d = i then Jump else JumpIf (buf ! d AND 0x0F)) (d + 5) orig \<longleftrightarrow>
        \<not> (\<exists>k\<in>{d..<d + 5}. marker ! k AND 1 \<noteq> 0) \<and> \<not> fits_byte orig
        \<and> \<not> (\<not> branch_target_reachable pe (e + orig) \<or> marker_set marker (target_marker_index pe (e + orig)))"
      using False d kind unfolding eligible_def dec site_target_def e_def
      by (simp only: add_diff_cancel_right' de_Morgan_disj not_not not_less simp_thms add_le_cancel_right)
    show ?thesis
      unfolding jump_step_def at sh rbind_Inr option.case am if_not_P [OF False] parts Let_def e el disp_def
      by (simp only: orig_def [symmetric] not_not de_Morgan_disj if_bool_eq_conj split: if_split) blast
  qed
qed

lemma near_jump_eligible:
  assumes "eligible pe s marker buf i kind behind disp" "kind \<noteq> Call" "i + 5 \<le> length buf"
  obtains d where "jump_at buf i = Inr (Some d)" "behind = d + 5"
    "kind = (if d = i then Jump else JumpIf (buf ! d AND 0x0F))" "disp = from_le (subrange (d + 1) (d + 5) buf)"
proof -
  from assms(1,2) consider "buf ! i = 0xE9" | "buf ! i = 0x0F" "buf ! (i + 1) AND 0xF0 = 0x80"
    by (auto simp: eligible_def decode_branch_def Let_def split: if_splits)
  then obtain d where d: "jump_at buf i = Inr (Some d)"
    by cases (use assms(3) in \<open>auto simp: jump_at_def\<close>)
  from decode_near_jump [OF this] assms(1) that [OF d] show thesis by (auto simp: eligible_def)
qed

lemma jump_step_retargets:
  assumes len: "length marker = length buf" and raw: "unat (sec_raw s) \<le> i" and i: "i + 5 \<le> length buf"
    and el: "eligible pe s marker buf i kind behind disp" and k: "kind \<noteq> Call"
  obtains buf' where "jump_step pe rift s marker i buf = Inr (behind, buf')"
    "retargeted rift s marker i buf behind buf'"
proof -
  obtain d where d: "jump_at buf i = Inr (Some d)" "behind = d + 5"
    "kind = (if d = i then Jump else JumpIf (buf ! d AND 0x0F))" "disp = from_le (subrange (d + 1) (d + 5) buf)"
    by (rule near_jump_eligible [OF el k i])
  define cs where "cs \<longleftrightarrow> (buf ! d \<noteq> 0xE9 \<longrightarrow> 1 \<le> d \<longrightarrow> marker ! (d - 1) AND 1 = 0)"
  define e where "e = sec_va s + of_nat (d + 5 - unat (sec_raw s))"
  define disp' where "disp' = new_displacement rift (e + disp) e"
  have step: "jump_step pe rift s marker i buf = rbind (rewrite_jump buf d cs disp disp') (\<lambda>buf. Inr (d + 5, buf))"
    using jump_step_eq [OF len raw i d(1), of pe rift] el [unfolded d(2-4)]
    by (simp only: if_True cs_def e_def disp'_def d(4))
  have d5: "d + 5 \<le> length buf" and free: "\<not> (\<exists>k\<in>{d..<d + 5}. marker ! k AND 1 \<noteq> 0)"
    using el by (simp_all only: eligible_def d(2) add_diff_cancel_right' simp_thms)
  obtain buf' behind' where b: "rewrite_jump buf d cs disp disp' = Inr buf'" "length buf' = length buf"
    "decode_branch buf' i = Some (kind, behind', disp')" "behind' \<le> d + 5"
    "\<forall>k<length buf. buf' ! k \<noteq> buf ! k \<longrightarrow> i \<le> k \<and> k < d + 5 \<and> marker ! k AND 1 = 0"
    using jump_rewritten [OF d(1) d5 free, of disp'] unfolding cs_def d(3,4) by blast
  have "decode_branch buf i = Some (kind, d + 5, disp)" using decode_near_jump [OF d(1)] by (simp only: d(3,4))
  moreover have "mapped rift e + disp' = mapped rift (e + disp)" by (simp add: disp'_def new_displacement_mapped)
  ultimately have "retargeted rift s marker i buf (d + 5) buf'"
    using b(2-) unfolding retargeted_def e_def Let_def by blast
  with b(1) step that d(2) show thesis by simp
qed

text \<open>
  Steps that are not eligible go on by one byte.
\<close>

lemma call_step_skips:
  assumes "length marker = length buf" "unat (sec_raw s) \<le> i" "i + 5 \<le> length buf"
    and "\<not> (\<exists>behind disp. eligible pe s marker buf i Call behind disp)"
  shows "call_step pe rift s marker i buf = Inr (i + 1, buf)"
  using assms(4) by (simp only: call_step_eq [OF assms(1-3)] not_ex if_False simp_thms)

lemma jump_step_skips:
  assumes len: "length marker = length buf" and raw: "unat (sec_raw s) \<le> i" and i: "i + 5 \<le> length buf"
    and n: "\<not> (\<exists>kind behind disp. kind \<noteq> Call \<and> eligible pe s marker buf i kind behind disp)"
  shows "jump_step pe rift s marker i buf = Inr (i + 1, buf)"
proof -
  have "\<exists>r. jump_at buf i = Inr r" using i by (auto simp: jump_at_def)
  then consider "jump_at buf i = Inr None" | (at) d where "jump_at buf i = Inr (Some d)" by fastforce
  then show ?thesis
  proof cases
    case at
    have "(if d = i then Jump else JumpIf (buf ! d AND 0x0F)) \<noteq> Call" by simp
    with n have "\<not> eligible pe s marker buf i (if d = i then Jump else JumpIf (buf ! d AND 0x0F)) (d + 5) disp" for disp
      by blast
    then show ?thesis by (simp only: jump_step_eq [OF len raw i at] if_False)
  qed (simp add: jump_step_def)
qed

section \<open>The passes keep what is owned\<close>

text \<open>The bytes that an earlier transform owns are not touched.\<close>

definition keeps_marked :: "bytes \<Rightarrow> bytes \<Rightarrow> bytes \<Rightarrow> bool" where
  "keeps_marked marker buf buf' \<longleftrightarrow>
     length buf' = length buf \<and> (\<forall>k<length buf. marker ! k AND 1 \<noteq> 0 \<longrightarrow> buf' ! k = buf ! k)"

lemma keeps_marked_refl [simp]: "keeps_marked marker buf buf"
  by (simp add: keeps_marked_def)

lemma keeps_marked_trans: "keeps_marked marker a b \<Longrightarrow> keeps_marked marker b c \<Longrightarrow> keeps_marked marker a c"
  by (simp add: keeps_marked_def)

lemma retargeted_keeps: "retargeted rift s marker i buf i' buf' \<Longrightarrow> keeps_marked marker buf buf'"
  unfolding retargeted_def keeps_marked_def by blast

lemma call_step_keeps:
  assumes "length marker = length buf" "unat (sec_raw s) \<le> i" "i + 5 \<le> length buf"
  obtains i' buf' where "call_step pe rift s marker i buf = Inr (i', buf')" "i < i'" "keeps_marked marker buf buf'"
proof (cases "\<exists>behind disp. eligible pe s marker buf i Call behind disp")
  case True
  then show thesis using call_step_retargets [OF assms] that
    by (metis call_step_advances retargeted_keeps)
qed (use call_step_skips [OF assms] that in simp)

lemma jump_step_keeps:
  assumes "length marker = length buf" "unat (sec_raw s) \<le> i" "i + 5 \<le> length buf"
  obtains i' buf' where "jump_step pe rift s marker i buf = Inr (i', buf')" "i < i'" "keeps_marked marker buf buf'"
proof (cases "\<exists>kind behind disp. kind \<noteq> Call \<and> eligible pe s marker buf i kind behind disp")
  case True
  then show thesis using jump_step_retargets [OF assms] that
    by (metis jump_step_advances retargeted_keeps)
next
  case False
  with jump_step_skips [OF assms] that show thesis by simp
qed

lemma calls_loop_keeps:
  assumes "length marker = length buf" "unat (sec_raw s) \<le> i" "send \<le> length buf"
  shows "\<exists>buf'. calls_loop pe rift s send marker i buf = Inr buf' \<and> keeps_marked marker buf buf'"
  using assms
proof (induction pe rift s send marker i buf rule: calls_loop.induct)
  case (1 pe rift s send marker i buf)
  show ?case
  proof (cases "i + 5 \<le> send")
    case True
    then obtain i' buf' where s: "call_step pe rift s marker i buf = Inr (i', buf')" "i < i'" "keeps_marked marker buf buf'"
      using call_step_keeps [OF 1(2,3)] 1(4) by (metis le_trans)
    then have "\<exists>b. calls_loop pe rift s send marker i' buf' = Inr b \<and> keeps_marked marker buf' b"
      using 1(1) [OF True s(1) refl] 1(2-4) by (simp add: keeps_marked_def)
    with s True show ?thesis by (subst calls_loop.simps) (auto intro: keeps_marked_trans)
  qed (simp add: calls_loop.simps)
qed

lemma jmps_loop_keeps:
  assumes "length marker = length buf" "unat (sec_raw s) \<le> i" "send \<le> length buf"
  shows "\<exists>buf'. jmps_loop pe rift s send marker i buf = Inr buf' \<and> keeps_marked marker buf buf'"
  using assms
proof (induction pe rift s send marker i buf rule: jmps_loop.induct)
  case (1 pe rift s send marker i buf)
  show ?case
  proof (cases "i + 5 \<le> send")
    case True
    then obtain i' buf' where s: "jump_step pe rift s marker i buf = Inr (i', buf')" "i < i'" "keeps_marked marker buf buf'"
      using jump_step_keeps [OF 1(2,3)] 1(4) by (metis le_trans)
    then have "\<exists>b. jmps_loop pe rift s send marker i' buf' = Inr b \<and> keeps_marked marker buf' b"
      using 1(1) [OF True s(1) refl] 1(2-4) by (simp add: keeps_marked_def)
    with s True show ?thesis by (subst jmps_loop.simps) (auto intro: keeps_marked_trans)
  qed (simp add: jmps_loop.simps)
qed

lemma sections_keep:
  assumes "\<And>s buf. length marker = length buf \<Longrightarrow> \<exists>buf'. f (Inr buf) s = Inr buf' \<and> keeps_marked marker buf buf'"
    and "length marker = length buf"
  shows "\<exists>buf'. foldl f (Inr buf) ss = Inr buf' \<and> keeps_marked marker buf buf'"
  using assms(2)
proof (induction ss arbitrary: buf)
  case (Cons s ss)
  obtain b where b: "f (Inr buf) s = Inr b" "keeps_marked marker buf b" using assms(1) [OF Cons.prems] by blast
  then have "length marker = length b" using Cons.prems by (simp add: keeps_marked_def)
  from Cons.IH [OF this] b show ?case by (auto intro: keeps_marked_trans)
qed simp

lemma calls_pass_keeps:
  assumes "length marker = length buf"
  shows "\<exists>buf'. transform_source_calls_i386 pe rift (buf, marker) = Inr (buf', marker) \<and> keeps_marked marker buf buf'"
proof -
  have "\<exists>buf'. calls_section pe rift marker (Inr b) s = Inr buf' \<and> keeps_marked marker b buf'"
    if "length marker = length b" for b s
    using calls_loop_keeps [OF that] by (auto simp: calls_section_def code_range_def Let_def)
  from sections_keep [of marker "calls_section pe rift marker", OF this assms, of "pi_sections pe"]
  show ?thesis by (auto simp: transform_source_calls_i386_def)
qed

lemma jmps_pass_keeps:
  assumes "length marker = length buf"
  shows "\<exists>buf'. transform_source_jmps_i386 pe rift (buf, marker) = Inr (buf', marker) \<and> keeps_marked marker buf buf'"
proof -
  have "\<exists>buf'. jmps_section pe rift marker (Inr b) s = Inr buf' \<and> keeps_marked marker b buf'"
    if "length marker = length b" for b s
    using jmps_loop_keeps [OF that] by (auto simp: jmps_section_def code_range_def Let_def)
  from sections_keep [of marker "jmps_section pe rift marker", OF this assms, of "pi_sections pe"]
  show ?thesis by (auto simp: transform_source_jmps_i386_def)
qed

text \<open>
  C31. The two x86 branch passes, on any image with a marker byte per file byte, any section table and any
  rift table: no index or slice of them is out of range, so both return, and no byte that an earlier
  transform has marked is changed.
\<close>

theorem branch_passes_keep_owned:
  assumes "length marker = length buf"
  shows "\<exists>calls jmps. transform_source_calls_i386 pe rift (buf, marker) = Inr (calls, marker)
    \<and> transform_source_jmps_i386 pe rift (buf, marker) = Inr (jmps, marker)
    \<and> length calls = length buf \<and> length jmps = length buf
    \<and> (\<forall>k<length buf. marker ! k AND 1 \<noteq> 0 \<longrightarrow> calls ! k = buf ! k \<and> jmps ! k = buf ! k)"
  using calls_pass_keeps [OF assms, of pe rift] jmps_pass_keeps [OF assms, of pe rift]
  unfolding keeps_marked_def by blast

text \<open>
  C35. One step of a branch pass on any five bytes inside of the image. A call, jump or conditional jump in its near
  form whose five last bytes are free, whose target is reachable and not owned, and whose displacement
  (of a jump) does not fit a byte is rewritten: it stays a branch of the same kind and condition, its
  displacement leads from the mapped end of the old instruction to the mapped target, and only free
  bytes of the instruction change. Everything else is passed over byte by byte.
\<close>

theorem branches_retargeted:
  assumes "length marker = length buf" "unat (sec_raw s) \<le> i" "i + 5 \<le> length buf"
  shows "(\<forall>behind disp. eligible pe s marker buf i Call behind disp \<longrightarrow>
        (\<exists>buf'. call_step pe rift s marker i buf = Inr (behind, buf') \<and> retargeted rift s marker i buf behind buf'))
    \<and> ((\<forall>behind disp. \<not> eligible pe s marker buf i Call behind disp) \<longrightarrow> call_step pe rift s marker i buf = Inr (i + 1, buf))
    \<and> (\<forall>kind behind disp. eligible pe s marker buf i kind behind disp \<and> kind \<noteq> Call \<longrightarrow>
        (\<exists>buf'. jump_step pe rift s marker i buf = Inr (behind, buf') \<and> retargeted rift s marker i buf behind buf'))
    \<and> ((\<forall>kind behind disp. eligible pe s marker buf i kind behind disp \<longrightarrow> kind = Call) \<longrightarrow>
        jump_step pe rift s marker i buf = Inr (i + 1, buf))"
proof (intro conjI allI impI)
  fix behind disp assume "eligible pe s marker buf i Call behind disp"
  from call_step_retargets [OF assms this]
  show "\<exists>buf'. call_step pe rift s marker i buf = Inr (behind, buf') \<and> retargeted rift s marker i buf behind buf'" by blast
next
  assume "\<forall>behind disp. \<not> eligible pe s marker buf i Call behind disp"
  then show "call_step pe rift s marker i buf = Inr (i + 1, buf)" by (intro call_step_skips [OF assms]) blast
next
  fix kind behind disp assume "eligible pe s marker buf i kind behind disp \<and> kind \<noteq> Call"
  then have "eligible pe s marker buf i kind behind disp" "kind \<noteq> Call" by blast+
  from jump_step_retargets [OF assms this]
  show "\<exists>buf'. jump_step pe rift s marker i buf = Inr (behind, buf') \<and> retargeted rift s marker i buf behind buf'" by blast
next
  assume "\<forall>kind behind disp. eligible pe s marker buf i kind behind disp \<longrightarrow> kind = Call"
  then show "jump_step pe rift s marker i buf = Inr (i + 1, buf)" by (intro jump_step_skips [OF assms]) blast
qed

text \<open>A near jump over 0x1000 bytes whose target the mapping brings closer.\<close>

definition code_section :: section_info where
  "code_section = \<lparr>sec_name = [], sec_va = 0x1000, sec_vsize = 0x2000, sec_raw = 0, sec_rsize = 0x2000, sec_flags = 0x20000000\<rparr>"

definition code_image :: pe_info where
  "code_image = \<lparr>pi_base = 0x400000, pi_image_size = 0x4000, pi_timestamp = 0, pi_checksum = 0, pi_64bit = False,
     pi_machine = I386, pi_sections = [code_section], pi_directories = []\<rparr>"

definition code_rift :: rift_table where
  "code_rift = [\<lparr>re_source = 0x1000, re_target = 0x1000\<rparr>, \<lparr>re_source = 0x2000, re_target = 0x1020\<rparr>]"

definition long_jump :: bytes where
  "long_jump = [0xE9, 0x00, 0x10, 0x00, 0x00, 0x90]"

lemma long_jump_eligible: "eligible code_image code_section (replicate 6 0) long_jump 0 Jump 5 0x1000"
proof -
  have "decode_branch long_jump 0 = Some (Jump, 5, 0x1000)"
    by (simp add: decode_branch_def long_jump_def subrange_def from_le_def)
  moreover have "\<not> fits_byte 0x1000" by (simp add: fits_byte_def)
  moreover have "\<not> marker_set (replicate 6 0) k" for k by (simp add: marker_set_def)
  moreover have r: "rva_range code_section = Some (0x1000, 0x3000)"
    by (simp add: rva_range_def logical_size_def code_section_def checked_add32_def)
  have "site_target code_section 5 0x1000 = 0x2005" by (simp add: site_target_def code_section_def)
  with r have "branch_target_reachable code_image (site_target code_section 5 0x1000)"
    by (simp add: branch_target_reachable_def code_image_def contains_rva_def)
  ultimately show ?thesis by (simp add: eligible_def long_jump_def)
qed

theorem branches_retargeted_witness:
  "\<exists>buf'. jump_step code_image code_rift code_section (replicate 6 0) 0 long_jump = Inr (5, buf')
    \<and> retargeted code_rift code_section (replicate 6 0) 0 long_jump 5 buf'"
proof -
  have "length (replicate 6 (0 :: u8)) = length long_jump" "unat (sec_raw code_section) \<le> 0" "0 + 5 \<le> length long_jump"
    by (simp_all add: long_jump_def code_section_def)
  from branches_retargeted [OF this, of code_image code_rift] long_jump_eligible show ?thesis by blast
qed

theorem branch_passes_keep_owned_witness:
  "\<exists>calls jmps. transform_source_calls_i386 code_image code_rift (long_jump, [0, 0, 0, 1, 0, 0]) = Inr (calls, [0, 0, 0, 1, 0, 0])
    \<and> transform_source_jmps_i386 code_image code_rift (long_jump, [0, 0, 0, 1, 0, 0]) = Inr (jmps, [0, 0, 0, 1, 0, 0])
    \<and> calls ! 3 = 0 \<and> jmps ! 3 = 0"
proof -
  have "length [0, 0, 0, 1, 0, 0 :: u8] = length long_jump" by (simp add: long_jump_def)
  from branch_passes_keep_owned [OF this, of code_image code_rift] show ?thesis
    by (auto simp: long_jump_def dest!: spec [of _ 3])
qed

end
