(* ===== verification/PeReloc.thy ===== *)
theory PeReloc imports PeTransform begin

text \<open>
  The rest of \<open>src/pe/transform.rs\<close> but for the AMD64 disassembler: base relocations and the
  rebuilding of their blocks, the inferred relocations, the CALL translation of whole images, and
  the time stamp sites with the two operations that rewrite them.
\<close>

section \<open>Base relocations\<close>

text \<open>A collected entry: mapped location, type, and the extra word of a HIGHADJ.\<close>

type_synonym reloc_entry = "u32 \<times> u16 \<times> u16"

text \<open>The operand of one relocation: the image, the type kept, whether the next word is consumed.\<close>

definition reloc_operand ::
  "pe_info \<Rightarrow> rift_table \<Rightarrow> u64 \<Rightarrow> u16 \<Rightarrow> nat \<Rightarrow> image \<Rightarrow> image \<times> u16 \<times> bool" where
  "reloc_operand pe rift target_base typ op_fo im =
     (let (buf, marker) = im in
      if typ = 3 then
        let r = scast (read_u32 buf op_fo) - pi_base pe
        in ((write_u32 buf op_fo (ucast (target_base + r + rift_map rift r)), mark_bytes op_fo 4 marker), typ, False)
      else if typ = 10 then
        let r = read_u64 buf op_fo - pi_base pe
        in ((write_u64 buf op_fo (target_base + r + rift_map rift r), mark_bytes op_fo 8 marker), typ, False)
      else if typ = 1 \<or> typ = 2 then ((buf, mark_bytes op_fo 2 marker), typ, False)
      else if typ = 4 then ((buf, mark_bytes op_fo 2 marker), typ, True)
      else (im, 0, False))"

lemma length_reloc_operand:
  "reloc_operand pe rift tb typ fo im = (im', t) \<Longrightarrow> length (fst im') = length (fst im) \<and> length (snd im') = length (snd im)"
  by (cases im) (auto simp: reloc_operand_def Let_def split: if_splits)

text \<open>One entry word: its location is mapped, its operand rewritten when it is in a section.\<close>

definition reloc_word ::
  "pe_info \<Rightarrow> rift_table \<Rightarrow> u64 \<Rightarrow> i64 \<Rightarrow> u16 \<Rightarrow> image \<Rightarrow> image \<times> u32 \<times> u16 \<times> bool" where
  "reloc_word pe rift target_base page e im =
     (let typ = drop_bit 12 e;
          loc_rva = page + ucast (e AND 0xfff);
          mapped_loc = ucast (map_rva rift loc_rva)
      in case rva_to_file_off pe loc_rva of None \<Rightarrow> (im, mapped_loc, typ, False)
         | Some op_fo \<Rightarrow>
             let (im, kept, pair) = reloc_operand pe rift target_base typ op_fo im in (im, mapped_loc, kept, pair))"

lemma length_reloc_word:
  "reloc_word pe rift tb page e im = (im', t) \<Longrightarrow> length (fst im') = length (fst im) \<and> length (snd im') = length (snd im)"
  by (auto simp: reloc_word_def Let_def length_reloc_operand split: option.splits prod.splits)

text \<open>The words of one block, \<open>n\<close> in all, from word \<open>j\<close>; type 0 ends the block.\<close>

function reloc_words ::
  "pe_info \<Rightarrow> rift_table \<Rightarrow> u64 \<Rightarrow> i64 \<Rightarrow> nat \<Rightarrow> nat \<Rightarrow> nat \<Rightarrow> image \<Rightarrow> reloc_entry list \<Rightarrow> image \<times> reloc_entry list" where
  "reloc_words pe rift target_base page words_fo n j im entries =
     (if j < n \<and> drop_bit 12 (read_u16 (fst im) (words_fo + j * 2)) \<noteq> 0 then
        case reloc_word pe rift target_base page (read_u16 (fst im) (words_fo + j * 2)) im of
          (im, mapped_loc, kept, pair) \<Rightarrow>
            reloc_words pe rift target_base page words_fo n (if pair then j + 2 else j + 1) im
              (entries @ [(mapped_loc, kept,
                 if pair \<and> j + 1 < n then read_u16 (fst im) (words_fo + (j + 1) * 2) else 0)])
      else (im, entries))"
  by pat_completeness auto
termination
  by (relation "measure (\<lambda>(pe, rift, tb, page, fo, n, j, st). n - j)") auto

declare reloc_words.simps [simp del]

lemma length_reloc_words:
  "reloc_words pe rift tb page fo n j im es = (im', es') \<Longrightarrow>
    length (fst im') = length (fst im) \<and> length (snd im') = length (snd im)"
proof (induction pe rift tb page fo n j im es rule: reloc_words.induct)
  case (1 pe rift tb page fo n j im es)
  define e where "e = read_u16 (fst im) (fo + j * 2)"
  show ?case
  proof (cases "j < n \<and> drop_bit 12 e \<noteq> 0")
    case True
    obtain im1 ml kept pr where w: "reloc_word pe rift tb page e im = (im1, ml, kept, pr)"
      by (metis prod.exhaust)
    from True w 1(2) have "reloc_words pe rift tb page fo n (if pr then j + 2 else j + 1) im1
        (es @ [(ml, kept, if pr \<and> j + 1 < n then read_u16 (fst im1) (fo + (j + 1) * 2) else 0)]) = (im', es')"
      by (subst (asm) reloc_words.simps) (simp add: e_def)
    from 1(1) [OF True [unfolded e_def] w [unfolded e_def, symmetric] refl refl this] length_reloc_word [OF w]
    show ?thesis by simp
  next
    case False
    then have "reloc_words pe rift tb page fo n j im es = (im, es)"
      by (subst reloc_words.simps) (auto simp: e_def)
    with 1(2) show ?thesis by simp
  qed
qed

lemma length_reloc_words_fst [simp]:
  "length (fst (fst (reloc_words pe rift tb page fo n j im es))) = length (fst im)"
  "length (snd (fst (reloc_words pe rift tb page fo n j im es))) = length (snd im)"
  using length_reloc_words [of pe rift tb page fo n j im es] by (metis prod.collapse)+

text \<open>The blocks: a page address and a size of at least 8, inside of the directory.\<close>

function reloc_blocks ::
  "pe_info \<Rightarrow> rift_table \<Rightarrow> u64 \<Rightarrow> nat \<Rightarrow> nat \<Rightarrow> image \<Rightarrow> reloc_entry list \<Rightarrow> image \<times> reloc_entry list" where
  "reloc_blocks pe rift target_base blocks_end bo im entries =
     (if bo + 8 \<le> blocks_end \<and> bo + 8 \<le> length (fst im) \<and> 8 \<le> unat (read_u32 (fst im) (bo + 4))
         \<and> bo + unat (read_u32 (fst im) (bo + 4)) \<le> blocks_end then
        case reloc_words pe rift target_base (ucast (read_u32 (fst im) bo)) (bo + 8)
               ((unat (read_u32 (fst im) (bo + 4)) - 8) div 2) 0 im entries of
          (im1, entries) \<Rightarrow>
            reloc_blocks pe rift target_base blocks_end (bo + unat (read_u32 (fst im) (bo + 4))) im1 entries
      else (im, entries))"
  by pat_completeness auto
termination
  by (relation "measure (\<lambda>(pe, rift, tb, e, bo, im, es). e - bo)") auto

declare reloc_blocks.simps [simp del]

text \<open>One entry written behind the last, a HIGHADJ with its extra word.\<close>

definition write_entry :: "nat \<Rightarrow> nat \<Rightarrow> bytes \<Rightarrow> reloc_entry \<Rightarrow> nat \<times> bytes" where
  "write_entry limit out buf = (\<lambda>(rva, typ, extra).
     let buf = write_u16 buf out (push_bit 12 typ OR ucast (rva AND 0xfff));
         out = out + 2
     in if typ = 4 \<and> out + 2 \<le> limit then (out + 2, write_u16 buf out extra) else (out, buf))"

text \<open>The entries of one page, up to the limit; the end, and the entries that are left.\<close>

fun write_page :: "u32 \<Rightarrow> nat \<Rightarrow> nat \<Rightarrow> bytes \<Rightarrow> reloc_entry list \<Rightarrow> nat \<times> bytes \<times> reloc_entry list" where
  "write_page page limit out buf [] = (out, buf, [])"
| "write_page page limit out buf (e # es) =
     (if out + 2 \<le> limit \<and> fst e AND 0xfffff000 = page
      then case write_entry limit out buf e of (out, buf) \<Rightarrow> write_page page limit out buf es
      else (out, buf, e # es))"

lemma write_entry_spec:
  "write_entry limit out buf e = (out', buf') \<Longrightarrow> out + 2 \<le> limit \<Longrightarrow>
    out + 2 \<le> out' \<and> out' \<le> limit \<and> length buf' = length buf"
  by (auto simp: write_entry_def Let_def split: prod.splits if_splits)

lemma write_page_spec:
  "write_page page limit out buf es = (out', buf', es') \<Longrightarrow> out \<le> limit \<Longrightarrow>
    out \<le> out' \<and> out' \<le> limit \<and> length buf' = length buf \<and> length es' \<le> length es"
proof (induction page limit out buf es rule: write_page.induct)
  case (2 page limit out buf e es)
  show ?case
  proof (cases "out + 2 \<le> limit \<and> fst e AND 0xfffff000 = page")
    case True
    obtain o1 b1 where w: "write_entry limit out buf e = (o1, b1)" by (cases "write_entry limit out buf e")
    note W = write_entry_spec [OF w]
    from "2.prems" True w have "write_page page limit o1 b1 es = (out', buf', es')" by simp
    from "2.IH" [OF True w [symmetric] this] W True show ?thesis by simp
  next
    case False
    with "2.prems" show ?thesis by auto
  qed
qed simp

text \<open>One block: page address, entries, a zero word behind an odd number of words, its size.\<close>

definition write_block :: "nat \<Rightarrow> nat \<Rightarrow> bytes \<Rightarrow> reloc_entry list \<Rightarrow> nat \<times> bytes \<times> reloc_entry list" where
  "write_block limit header buf entries =
     (let page = fst (hd entries) AND 0xfffff000;
          (out, buf, entries) = write_page page limit (header + 8) buf entries;
          (out, buf) = (if odd ((out - (header + 8)) div 2) \<and> out + 2 \<le> limit
                        then (out + 2, write_u16 buf out 0) else (out, buf));
          buf = (if header + 8 \<le> length buf
                 then write_u32 (write_u32 buf header page) (header + 4) (of_nat (out - header)) else buf)
      in (out, buf, entries))"

lemma write_block_spec:
  assumes "write_block limit header buf es = (out', buf', es')" "header + 8 \<le> limit"
  shows "header + 8 \<le> out' \<and> out' \<le> limit \<and> length buf' = length buf \<and> length es' \<le> length es"
proof -
  obtain o1 b1 e1 where w: "write_page (fst (hd es) AND 0xfffff000) limit (header + 8) buf es = (o1, b1, e1)"
    by (metis prod.exhaust)
  from write_page_spec [OF w assms(2)] assms show ?thesis
    by (auto simp: write_block_def Let_def w split: if_splits)
qed

lemma write_block_less: "header + 8 \<le> limit \<Longrightarrow> limit - fst (write_block limit header buf es) < limit - header"
  using write_block_spec [of limit header buf es] by (cases "write_block limit header buf es") auto

function write_blocks :: "nat \<Rightarrow> nat \<Rightarrow> bytes \<Rightarrow> reloc_entry list \<Rightarrow> bytes" where
  "write_blocks limit out buf entries =
     (if out + 8 \<le> limit \<and> entries \<noteq> [] then
        case write_block limit out buf entries of (out, buf, entries) \<Rightarrow> write_blocks limit out buf entries
      else buf)"
  by pat_completeness auto
termination
  by (relation "measure (\<lambda>(limit, out, buf, es). limit - out)")
    (auto simp: case_prod_beta write_block_less)

declare write_blocks.simps [simp del]

definition rebuild_reloc_blocks :: "pe_info \<Rightarrow> u32 \<Rightarrow> u32 \<Rightarrow> nat \<Rightarrow> reloc_entry list \<Rightarrow> bytes \<Rightarrow> bytes" where
  "rebuild_reloc_blocks pe reloc_rva reloc_size base entries buf =
     (let extent = max (case section_containing_rva pe reloc_rva of None \<Rightarrow> unat reloc_size
                        | Some s \<Rightarrow> unat (sec_rsize s) - unat (reloc_rva - sec_va s)) (unat reloc_size);
          limit = min (base + (extent - extent mod 2)) (length buf)
      in write_blocks limit base buf (sort_key (\<lambda>e. unat (fst e)) entries))"

definition transform_source_relocs :: "pe_info \<Rightarrow> rift_table \<Rightarrow> u64 \<Rightarrow> image \<Rightarrow> image" where
  "transform_source_relocs pe rift target_base im =
     (case directory_at pe DirBaseRelocation of None \<Rightarrow> im
      | Some (rva, sz, base) \<Rightarrow>
          let (im, entries) = reloc_blocks pe rift target_base
                (min (base + unat sz) (length (fst im))) base im []
          in (rebuild_reloc_blocks pe rva sz base entries (fst im), snd im))"

end
