(* ===== verification/PeFixup.thy ===== *)
theory PeFixup imports PeTransform begin

text \<open>
  The passes over whole buffers of \<open>src/pe/transform.rs\<close>: inferred relocations, the CALL
  translation of reconstructed i386 images, and the time stamp sites, with the two operations of
  \<open>src/pa30\<close> that rewrite them.
\<close>

section \<open>Inferred relocations\<close>

text \<open>The rift closure of the caller is an argument; the result has the rewritten output and the count.\<close>

function inferred_x86 :: "pe_info \<Rightarrow> bytes \<Rightarrow> u64 \<Rightarrow> (u64 \<Rightarrow> i64) \<Rightarrow> nat \<Rightarrow> bytes \<times> u32 \<Rightarrow> bytes \<times> u32" where
  "inferred_x86 pe source_buf new_base mapping pos (out, count) =
     (if pos + 4 \<le> length source_buf \<and> pos + 4 \<le> length out then
        let base = (ucast (pi_base pe) :: u32);
            val = read_u32 source_buf pos
        in if base < val \<and> val < base + pi_image_size pe \<and> read_u32 out pos AND 0x02020202 = 0
           then inferred_x86 pe source_buf new_base mapping (pos + 4)
                  (write_u32 out pos ((ucast (mapping (ucast (val - base))) + ucast new_base) OR 0x01010101), count + 1)
           else inferred_x86 pe source_buf new_base mapping (pos + 1) (out, count)
      else (out, count))"
  by pat_completeness auto
termination
  by (relation "measure (\<lambda>(pe, s, nb, m, pos, out, c). length s - pos)") (auto simp: Let_def)

declare inferred_x86.simps [simp del]

definition transform_inferred_relocations_x86 ::
  "pe_info \<Rightarrow> bytes \<Rightarrow> bytes \<Rightarrow> u64 \<Rightarrow> (u64 \<Rightarrow> i64) \<Rightarrow> bytes \<times> u32" where
  "transform_inferred_relocations_x86 pe source_buf out new_base mapping =
     inferred_x86 pe source_buf new_base mapping 0 (out, 0)"

function inferred_amd64 :: "pe_info \<Rightarrow> bytes \<Rightarrow> u64 \<Rightarrow> (u64 \<Rightarrow> i64) \<Rightarrow> nat \<Rightarrow> bytes \<times> u32 \<Rightarrow> bytes \<times> u32" where
  "inferred_amd64 pe source_buf new_base mapping pos (out, count) =
     (if pos + 8 \<le> length source_buf \<and> pos + 8 \<le> length out then
        let val = read_u64 source_buf pos
        in if pi_base pe < val \<and> val < pi_base pe + ucast (pi_image_size pe)
              \<and> read_u64 out pos AND 0x0202020202020202 = 0
           then inferred_amd64 pe source_buf new_base mapping (pos + 8)
                  (write_u64 out pos ((mapping (val - pi_base pe) + new_base) OR 0x0101010101010101), count + 1)
           else inferred_amd64 pe source_buf new_base mapping (pos + 1) (out, count)
      else (out, count))"
  by pat_completeness auto
termination
  by (relation "measure (\<lambda>(pe, s, nb, m, pos, out, c). length s - pos)") (auto simp: Let_def)

declare inferred_amd64.simps [simp del]

definition transform_inferred_relocations_amd64 ::
  "pe_info \<Rightarrow> bytes \<Rightarrow> bytes \<Rightarrow> u64 \<Rightarrow> (u64 \<Rightarrow> i64) \<Rightarrow> bytes \<times> u32" where
  "transform_inferred_relocations_amd64 pe source_buf out new_base mapping =
     inferred_amd64 pe source_buf new_base mapping 0 (out, 0)"

section \<open>The CALL translation of an image\<close>

text \<open>The section that holds the CLR header and whose flags can be read decides; without one: native.\<close>

fun clr_flags_native :: "bytes \<Rightarrow> u32 \<Rightarrow> section_info list \<Rightarrow> bool" where
  "clr_flags_native buf rva [] = True"
| "clr_flags_native buf rva (s # ss) =
     (if sec_va s \<le> rva \<and> rva < sec_va s + sec_vsize s then
        (case read_u32_opt buf (unat (sec_raw s) + unat (rva - sec_va s) + 16) of
           Some flags \<Rightarrow> flags AND 1 = 0
         | None \<Rightarrow> clr_flags_native buf rva ss)
      else clr_flags_native buf rva ss)"

definition is_i386_native_pe :: "bytes \<Rightarrow> bool" where
  "is_i386_native_pe buf =
     (case layout_parse buf of Inl _ \<Rightarrow> False
      | Inr l \<Rightarrow>
          if pl_machine l \<noteq> I386 \<or> pl_kind l \<noteq> Pe32 then False
          else case layout_directory l buf DirClrRuntimeHeader of None \<Rightarrow> True
               | Some (rva, _) \<Rightarrow>
                   rva = 0 \<or> clr_flags_native buf rva (take_some (map (layout_section l buf) [0..<pl_sections l])))"

text \<open>The operand at a CALL at position \<open>i\<close>, when it is one that the encoder has translated.\<close>

definition undo_operand :: "u32 \<Rightarrow> u32 \<Rightarrow> u32 \<Rightarrow> u32 option" where
  "undo_operand ts i v =
     (if - i \<le>s v \<and> v <s ts then Some (if 0 \<le>s v then v - i else v + ts) else None)"

function undo_e8_loop :: "u32 \<Rightarrow> nat \<Rightarrow> bytes \<times> u32 \<Rightarrow> bytes \<times> u32" where
  "undo_e8_loop ts i (buf, count) =
     (if i < length buf - 10 then
        if buf ! i \<noteq> 0xE8 then undo_e8_loop ts (i + 1) (buf, count)
        else
          (case undo_operand ts (of_nat i) (read_u32 buf (i + 1)) of
             None \<Rightarrow> undo_e8_loop ts (i + 5) (buf, count)
           | Some v \<Rightarrow> undo_e8_loop ts (i + 5) (write_u32 buf (i + 1) v, count + 1))
      else (buf, count))"
  by pat_completeness auto
termination
  by (relation "measure (\<lambda>(ts, i, buf, count). length buf - i)") auto

declare undo_e8_loop.simps [simp del]

definition undo_x86_e8_translation :: "bytes \<Rightarrow> bytes \<times> u32" where
  "undo_x86_e8_translation buf =
     (if \<not> is_i386_native_pe buf \<or> length buf < 10 \<or> 2 ^ 31 \<le> length buf then (buf, 0)
      else undo_e8_loop (of_nat (length buf)) 0 (buf, 0))"

section \<open>Time stamp sites\<close>

text \<open>The copies of the time stamp in the raw data of a debug entry.\<close>

function stamp_copies :: "bytes \<Rightarrow> bytes \<Rightarrow> nat \<Rightarrow> nat \<Rightarrow> nat list" where
  "stamp_copies data ts finish j =
     (if j + 4 \<le> finish
      then if subrange j (j + 4) data = ts then j # stamp_copies data ts finish (j + 4)
           else stamp_copies data ts finish (j + 1)
      else [])"
  by pat_completeness auto
termination by (relation "measure (\<lambda>(data, ts, finish, j). finish - j)") auto

declare stamp_copies.simps [simp del]

fun debug_copies :: "bytes \<Rightarrow> bytes \<Rightarrow> nat \<Rightarrow> nat \<Rightarrow> nat list" where
  "debug_copies data ts off 0 = []"
| "debug_copies data ts off (Suc n) =
     (if length data < off + 28 then []
      else
        let raw_size = unat (read_u32 data (off + 16)); raw_ptr = unat (read_u32 data (off + 24))
        in (if raw_ptr = 0 \<or> raw_size = 0 \<or> length data < raw_ptr + raw_size then []
            else stamp_copies data ts (raw_ptr + raw_size) raw_ptr)
           @ debug_copies data ts (off + 28) n)"

definition debug_sites :: "bytes \<Rightarrow> pe_view \<Rightarrow> nat \<Rightarrow> nat list" where
  "debug_sites data pe first =
     (case view_directory pe 6 of None \<Rightarrow> []
      | Some (dva, dsize) \<Rightarrow>
          if dva = 0 \<or> unat dsize < 28 then []
          else case view_rva_to_offset pe dva of None \<Rightarrow> []
               | Some base_off \<Rightarrow>
                   let n = unat dsize div 28
                   in map (\<lambda>i. base_off + i * 28 + 4) [0..<n]
                      @ debug_copies data (to_le 4 (read_u32 data first)) base_off n)"

definition export_site :: "pe_view \<Rightarrow> nat list" where
  "export_site pe =
     (case view_directory pe 0 of None \<Rightarrow> []
      | Some (va, _) \<Rightarrow>
          if va = 0 then [] else case view_rva_to_offset pe va of None \<Rightarrow> [] | Some off \<Rightarrow> [off + 4])"

definition pe_timestamp_offsets :: "bytes \<Rightarrow> nat list" where
  "pe_timestamp_offsets data =
     (case view_parse data of None \<Rightarrow> []
      | Some pe \<Rightarrow>
          let first = (case layout_parse data of Inr l \<Rightarrow> timestamp_offset l | Inl _ \<Rightarrow> pv_pe pe + 8)
          in first # export_site pe @ debug_sites data pe first)"

text \<open>The sites that hold one value get another.\<close>

definition replace_stamps :: "u32 \<Rightarrow> u32 \<Rightarrow> bytes \<Rightarrow> nat list \<Rightarrow> bytes" where
  "replace_stamps old new data offs =
     foldl (\<lambda>data off. if off + 4 \<le> length data \<and> read_u32 data off = old
                       then write_u32 data off new else data) data offs"

definition normalize_for_signature :: "bytes \<Rightarrow> bytes" where
  "normalize_for_signature data =
     (let ts = pe_timestamp data
      in if ts = 0 then data
         else let data = replace_stamps ts 0 data (pe_timestamp_offsets data)
              in case pe_checksum_offset data of None \<Rightarrow> data | Some off \<Rightarrow> write_u32 data off 0)"

definition timestamp_fixup :: "bytes \<Rightarrow> u32 \<Rightarrow> bytes \<Rightarrow> bytes" where
  "timestamp_fixup reference time_date_stamp out =
     (let source_timestamp = pe_timestamp reference
      in if source_timestamp = 0 \<or> source_timestamp = time_date_stamp then out
         else replace_stamps source_timestamp time_date_stamp out (pe_timestamp_offsets out))"

end
