(* ===== verification/PeAmd64.thy ===== *)
theory PeAmd64 imports PeReloc PeFixup begin

text \<open>
  AMD64 images: the length disassembler of \<open>src/pe/transform.rs\<close> with its opcode tables, the
  pass that remaps RIP-relative and branch displacements, the exception directory of
  \<open>src/pe/x64.rs\<close>, and the registry of \<open>src/pe/atom.rs\<close> that runs all transforms in order to
  build the transformed source.
\<close>

section \<open>The length disassembler\<close>

text \<open>Kinds of operand and of immediate per opcode, one byte opcodes and the 0F map.\<close>

definition modrm_1b :: "nat list" where
  "modrm_1b = [
     2, 2, 2, 2, 0, 0, 1, 1, 2, 2, 2, 2, 0, 0, 1, 1, 2, 2, 2, 2, 0, 0, 1, 1, 2, 2, 2, 2, 0, 0, 1, 1,
     2, 2, 2, 2, 0, 0, 1, 1, 2, 2, 2, 2, 0, 0, 1, 1, 2, 2, 2, 2, 0, 0, 1, 1, 2, 2, 2, 2, 0, 0, 1, 1,
     1, 1, 1, 1, 1, 1, 1, 1, 1, 1, 1, 1, 1, 1, 1, 1, 0, 0, 0, 0, 0, 0, 0, 0, 0, 0, 0, 0, 0, 0, 0, 0,
     1, 1, 1, 2, 1, 1, 1, 1, 0, 2, 0, 2, 0, 0, 0, 0, 4, 4, 4, 4, 4, 4, 4, 4, 4, 4, 4, 4, 4, 4, 4, 4,
     2, 2, 1, 2, 2, 2, 2, 2, 2, 2, 2, 2, 2, 2, 2, 2, 0, 0, 0, 0, 0, 0, 0, 0, 0, 0, 1, 0, 0, 0, 1, 1,
     3, 3, 3, 3, 0, 0, 0, 0, 0, 0, 0, 0, 0, 0, 0, 0, 0, 0, 0, 0, 0, 0, 0, 0, 0, 0, 0, 0, 0, 0, 0, 0,
     2, 2, 0, 0, 1, 1, 2, 2, 0, 0, 0, 0, 0, 0, 1, 0, 2, 2, 2, 2, 1, 1, 1, 0, 2, 2, 2, 2, 2, 2, 2, 2,
     4, 4, 4, 4, 0, 0, 0, 0, 5, 5, 1, 4, 0, 0, 0, 0, 0, 0, 0, 0, 0, 0, 2, 2, 0, 0, 0, 0, 0, 0, 2, 2]"

definition modrm_0f :: "nat list" where
  "modrm_0f = [
     2, 2, 2, 2, 0, 0, 0, 0, 0, 0, 1, 0, 1, 2, 0, 2, 2, 2, 2, 2, 2, 2, 2, 2, 2, 1, 1, 1, 1, 1, 1, 1,
     2, 2, 2, 2, 1, 1, 1, 1, 2, 2, 2, 2, 2, 2, 2, 2, 0, 0, 0, 0, 1, 1, 1, 1, 1, 1, 1, 1, 1, 1, 1, 1,
     2, 2, 2, 2, 2, 2, 2, 2, 2, 2, 2, 2, 2, 2, 2, 2, 2, 2, 2, 2, 2, 2, 2, 2, 2, 2, 2, 2, 2, 2, 2, 2,
     2, 2, 2, 2, 2, 2, 2, 2, 2, 2, 2, 2, 2, 2, 2, 2, 2, 2, 2, 2, 2, 2, 2, 0, 1, 1, 1, 1, 1, 1, 2, 2,
     5, 5, 5, 5, 5, 5, 5, 5, 5, 5, 5, 5, 5, 5, 5, 5, 2, 2, 2, 2, 2, 2, 2, 2, 2, 2, 2, 2, 2, 2, 2, 2,
     0, 0, 0, 2, 2, 2, 1, 1, 0, 0, 0, 2, 2, 2, 2, 2, 2, 2, 2, 2, 2, 2, 2, 2, 1, 2, 2, 2, 2, 2, 2, 2,
     2, 2, 2, 2, 2, 2, 2, 2, 0, 0, 0, 0, 0, 0, 0, 0, 1, 2, 2, 2, 2, 2, 2, 2, 2, 2, 2, 2, 2, 2, 2, 2,
     2, 2, 2, 2, 2, 2, 2, 2, 2, 2, 2, 2, 2, 2, 2, 2, 1, 2, 2, 2, 2, 2, 2, 2, 2, 2, 2, 2, 2, 2, 2, 1]"

definition imm_1b :: "nat list" where
  "imm_1b = [
     0, 0, 0, 0, 1, 5, 0, 0, 0, 0, 0, 0, 1, 5, 0, 0, 0, 0, 0, 0, 1, 5, 0, 0, 0, 0, 0, 0, 1, 5, 0, 0,
     0, 0, 0, 0, 1, 5, 0, 0, 0, 0, 0, 0, 1, 5, 0, 0, 0, 0, 0, 0, 1, 5, 0, 0, 0, 0, 0, 0, 1, 5, 0, 0,
     0, 0, 0, 0, 0, 0, 0, 0, 0, 0, 0, 0, 0, 0, 0, 0, 0, 0, 0, 0, 0, 0, 0, 0, 0, 0, 0, 0, 0, 0, 0, 0,
     0, 0, 0, 0, 0, 0, 0, 0, 5, 5, 1, 1, 0, 0, 0, 0, 0, 0, 0, 0, 0, 0, 0, 0, 0, 0, 0, 0, 0, 0, 0, 0,
     1, 5, 1, 1, 0, 0, 0, 0, 0, 0, 0, 0, 0, 0, 0, 0, 0, 0, 0, 0, 0, 0, 0, 0, 0, 0, 0, 0, 0, 0, 0, 0,
     0, 0, 0, 0, 0, 0, 0, 0, 1, 5, 0, 0, 0, 0, 0, 0, 1, 1, 1, 1, 1, 1, 1, 1, 4, 4, 4, 4, 4, 4, 4, 4,
     1, 1, 2, 0, 0, 0, 1, 5, 3, 0, 2, 0, 0, 1, 0, 0, 0, 0, 0, 0, 0, 0, 0, 0, 0, 0, 0, 0, 0, 0, 0, 0,
     0, 0, 0, 0, 1, 1, 1, 1, 0, 0, 0, 0, 0, 0, 0, 0, 0, 0, 0, 0, 0, 0, 6, 7, 0, 0, 0, 0, 0, 0, 0, 0]"

definition imm_0f :: "nat list" where
  "imm_0f = [
     0, 0, 0, 0, 0, 0, 0, 0, 0, 0, 0, 0, 0, 0, 0, 1, 0, 0, 0, 0, 0, 0, 0, 0, 0, 0, 0, 0, 0, 0, 0, 0,
     0, 0, 0, 0, 0, 0, 0, 0, 0, 0, 0, 0, 0, 0, 0, 0, 0, 0, 0, 0, 0, 0, 0, 0, 0, 0, 0, 0, 0, 0, 0, 0,
     0, 0, 0, 0, 0, 0, 0, 0, 0, 0, 0, 0, 0, 0, 0, 0, 0, 0, 0, 0, 0, 0, 0, 0, 0, 0, 0, 0, 0, 0, 0, 0,
     0, 0, 0, 0, 0, 0, 0, 0, 0, 0, 0, 0, 0, 0, 0, 0, 1, 1, 1, 1, 0, 0, 0, 0, 0, 0, 0, 0, 0, 0, 0, 0,
     0, 0, 0, 0, 0, 0, 0, 0, 0, 0, 0, 0, 0, 0, 0, 0, 0, 0, 0, 0, 0, 0, 0, 0, 0, 0, 0, 0, 0, 0, 0, 0,
     0, 0, 0, 0, 1, 0, 0, 0, 0, 0, 0, 0, 1, 0, 0, 0, 0, 0, 0, 0, 0, 0, 0, 0, 0, 0, 1, 0, 0, 0, 0, 0,
     0, 0, 1, 0, 1, 1, 1, 0, 0, 0, 0, 0, 0, 0, 0, 0, 0, 0, 0, 0, 0, 0, 0, 0, 0, 0, 0, 0, 0, 0, 0, 0,
     0, 0, 0, 0, 0, 0, 0, 0, 0, 0, 0, 0, 0, 0, 0, 0, 0, 0, 0, 0, 0, 0, 0, 0, 0, 0, 0, 0, 0, 0, 0, 0]"

text \<open>
  The stages stop (on the left) with the bytes consumed so far, or go on (on the right).
  \<open>consume n\<close> takes \<open>n\<close> bytes of the window.
\<close>

definition consume :: "nat \<Rightarrow> nat \<Rightarrow> nat \<Rightarrow> nat + nat" where
  "consume n avail pos = (if avail - pos < n then Inl pos else Inr (pos + n))"

definition legacy_prefix :: "u8 \<Rightarrow> bool" where
  "legacy_prefix b \<longleftrightarrow> b \<in> {0x66, 0x67, 0x26, 0x2e, 0x36, 0x3e, 0x64, 0x65, 0xf0, 0xf2, 0xf3}"

text \<open>The prefixes: their end, and whether 66 and 67 are among them.\<close>

function prefixes :: "bytes \<Rightarrow> nat \<Rightarrow> nat \<Rightarrow> bool \<Rightarrow> bool \<Rightarrow> nat \<times> bool \<times> bool" where
  "prefixes code avail pos opsize16 addrsize32 =
     (if pos < avail \<and> legacy_prefix (code ! pos)
      then prefixes code avail (pos + 1) (opsize16 \<or> code ! pos = 0x66) (addrsize32 \<or> code ! pos = 0x67)
      else (pos, opsize16, addrsize32))"
  by pat_completeness auto
termination by (relation "measure (\<lambda>(code, avail, pos, a, b). avail - pos)") auto

declare prefixes.simps [simp del]

definition rex_prefix :: "bytes \<Rightarrow> nat \<Rightarrow> nat \<Rightarrow> nat + nat \<times> bool" where
  "rex_prefix code avail pos =
     (if code ! pos AND 0xf0 = 0x40 then
        (if avail \<le> pos + 1 then Inl (pos + 1)
         else if code ! (pos + 1) AND 0xf0 = 0x40 then Inl (pos + 1)
         else Inr (pos + 1, code ! pos AND 0x08 \<noteq> 0))
      else Inr (pos, False))"

text \<open>The opcode: its end and the two kinds.\<close>

definition opcode_kinds :: "bytes \<Rightarrow> nat \<Rightarrow> nat \<Rightarrow> nat + nat \<times> nat \<times> nat" where
  "opcode_kinds code avail pos =
     (if code ! pos = 0x0f then
        (if avail \<le> pos + 1 then Inl (pos + 1)
         else let op = unat (code ! (pos + 1)) in Inr (pos + 2, modrm_0f ! op, imm_0f ! op))
      else let op = unat (code ! pos) in Inr (pos + 1, modrm_1b ! op, imm_1b ! op))"

text \<open>A ModRM byte with what follows it: the end, the remappable field, whether a TEST of group F6/F7.\<close>

definition modrm_operand :: "bytes \<Rightarrow> nat \<Rightarrow> nat \<Rightarrow> nat + nat \<times> nat option \<times> bool" where
  "modrm_operand code avail pos =
     rbind (consume 1 avail pos) (\<lambda>pos1.
       let modrm = code ! pos;
           md = drop_bit 6 modrm;
           rm = modrm AND 7;
           reg = drop_bit 3 modrm AND 7;
           group_has_imm = (reg = 0 \<or> reg = 1)
       in if md = 3 then Inr (pos1, None, group_has_imm)
          else if rm = 5 \<and> md = 0 then
            rbind (consume 4 avail pos1) (\<lambda>pos2. Inr (pos2, Some pos1, group_has_imm))
          else if rm = 4 then
            rbind (consume 1 avail pos1) (\<lambda>pos2.
            rbind (if md = 0 then if code ! pos1 AND 7 = 5 then consume 4 avail pos2 else Inr pos2
                   else if md = 1 then consume 1 avail pos2
                   else consume 4 avail pos2) (\<lambda>pos3. Inr (pos3, None, group_has_imm)))
          else
            rbind (if md = 1 then consume 1 avail pos1
                   else if md = 2 then consume 4 avail pos1 else Inr pos1) (\<lambda>pos2.
              Inr (pos2, None, group_has_imm)))"

definition operand :: "nat \<Rightarrow> bool \<Rightarrow> bytes \<Rightarrow> nat \<Rightarrow> nat \<Rightarrow> nat + nat \<times> nat option \<times> bool" where
  "operand kind addrsize32 code avail pos =
     (if kind = 2 then modrm_operand code avail pos
      else if kind = 3 then
        rbind (consume (if addrsize32 then 4 else 8) avail pos) (\<lambda>pos1. Inr (pos1, None, False))
      else if kind = 4 then rbind (consume 1 avail pos) (\<lambda>pos1. Inr (pos1, None, False))
      else if kind = 5 then rbind (consume 4 avail pos) (\<lambda>pos1. Inr (pos1, Some pos, False))
      else Inr (pos, None, False))"

definition immediate :: "nat \<Rightarrow> bool \<Rightarrow> bool \<Rightarrow> bool \<Rightarrow> nat \<Rightarrow> nat \<Rightarrow> nat + nat" where
  "immediate kind opsize16 rex_w group_has_imm avail pos =
     (if kind = 1 then consume 1 avail pos
      else if kind = 2 \<or> kind = 5 then consume (if opsize16 then 2 else 4) avail pos
      else if kind = 4 then consume (if rex_w then 8 else if opsize16 then 2 else 4) avail pos
      else if kind = 6 \<and> group_has_imm then consume 1 avail pos
      else if kind = 7 \<and> group_has_imm then consume (if opsize16 then 2 else 4) avail pos
      else Inr pos)"

definition disasm_stages :: "bytes \<Rightarrow> nat \<Rightarrow> nat + nat \<times> nat option" where
  "disasm_stages code avail =
     (case prefixes code avail 0 False False of (pos, opsize16, addrsize32) \<Rightarrow>
        if avail \<le> pos then Inl pos
        else
          rbind (rex_prefix code avail pos) (\<lambda>(pos, rex_w).
          rbind (opcode_kinds code avail pos) (\<lambda>(pos, modrm_kind, imm_kind).
            if modrm_kind = 1 then Inl pos
            else
              rbind (operand modrm_kind addrsize32 code avail pos) (\<lambda>(pos, field, group_has_imm).
              rbind (immediate imm_kind opsize16 rex_w group_has_imm avail pos) (\<lambda>pos.
                Inr (pos, field))))))"

record disasm_insn =
  ins_len :: nat
  ins_field :: nat
  ins_remap :: bool

definition disasm_amd64 :: "bytes \<Rightarrow> disasm_insn" where
  "disasm_amd64 code =
     (let avail = min (length code) 15
      in if avail = 0 then \<lparr>ins_len = 0, ins_field = 0xff, ins_remap = False\<rparr>
         else case disasm_stages code avail of
                Inr (pos, Some field) \<Rightarrow> \<lparr>ins_len = pos, ins_field = field, ins_remap = True\<rparr>
              | Inr (pos, None) \<Rightarrow> \<lparr>ins_len = pos, ins_field = 0xff, ins_remap = False\<rparr>
              | Inl pos \<Rightarrow> \<lparr>ins_len = pos, ins_field = 0xff, ins_remap = False\<rparr>)"

section \<open>The displacement pass\<close>

text \<open>The displacement of one instruction at \<open>rva\<close>, when it has one: its distance behind the mapping.\<close>

definition remap_insn :: "rift_table \<Rightarrow> nat \<Rightarrow> nat \<Rightarrow> disasm_insn \<Rightarrow> bytes \<times> u32 \<Rightarrow> bytes \<times> u32" where
  "remap_insn rift rva off insn = (\<lambda>(out, changed).
     let fpos = off + ins_field insn
     in if ins_remap insn \<and> fpos + 4 \<le> length out then
          let old_disp = (scast (read_u32 out fpos) :: i64);
              next_rva = of_nat (rva + ins_len insn);
              new_disp = map_rva rift (next_rva + old_disp) - map_rva rift next_rva
          in if new_disp \<noteq> old_disp then (write_u32 out fpos (ucast new_disp), changed + 1) else (out, changed)
        else (out, changed))"

function disasm_function :: "rift_table \<Rightarrow> nat \<Rightarrow> nat \<Rightarrow> nat \<Rightarrow> bytes \<times> u32 \<Rightarrow> bytes \<times> u32" where
  "disasm_function rift finish rva off st =
     (if rva < finish \<and> off < length (fst st) then
        let insn = disasm_amd64 (subrange off (off + min (min (finish - rva) (length (fst st) - off)) 15) (fst st))
        in if ins_len insn = 0 then st
           else disasm_function rift finish (rva + ins_len insn) (off + ins_len insn) (remap_insn rift rva off insn st)
      else st)"
  by pat_completeness auto
termination
  by (relation "measure (\<lambda>(rift, finish, rva, off, st). finish - rva)") (auto simp: Let_def intro!: diff_less_mono2)

declare disasm_function.simps [simp del]

fun disasm_functions :: "pe_info \<Rightarrow> rift_table \<Rightarrow> nat \<Rightarrow> nat \<Rightarrow> bytes \<times> u32 \<Rightarrow> bytes \<times> u32" where
  "disasm_functions pe rift 0 ent st = st"
| "disasm_functions pe rift (Suc n) ent st =
     (if length (fst st) < ent + 12 then st
      else
        let start = unat (read_u32 (fst st) ent); finish = unat (read_u32 (fst st) (ent + 4))
        in disasm_functions pe rift n (ent + 12)
             (if start = 0 \<or> finish \<le> start then st
              else case rva_to_file_off pe (of_nat start) of None \<Rightarrow> st
                   | Some func_off \<Rightarrow> disasm_function rift finish start func_off st))"

definition transform_disasm_x64 :: "pe_info \<Rightarrow> rift_table \<Rightarrow> bytes \<Rightarrow> bytes \<times> u32" where
  "transform_disasm_x64 pe rift out =
     (if rift = [] then (out, 0)
      else case data_directory pe DirException of None \<Rightarrow> (out, 0)
           | Some (rva, sz) \<Rightarrow>
               if rva = 0 \<or> unat sz < 12 then (out, 0)
               else case rva_to_file_off pe (ucast rva) of None \<Rightarrow> (out, 0)
                    | Some pdata_off \<Rightarrow> disasm_functions pe rift (unat sz div 12) pdata_off (out, 0))"

section \<open>The exception directory\<close>

record pdata_stats =
  ps_records :: nat
  ps_fields :: nat
  ps_fields_remapped :: nat
  ps_slots :: nat
  ps_slots_remapped :: nat
  ps_tail :: nat

definition pdata_none :: pdata_stats where
  "pdata_none = \<lparr>ps_records = 0, ps_fields = 0, ps_fields_remapped = 0, ps_slots = 0,
     ps_slots_remapped = 0, ps_tail = 0\<rparr>"

text \<open>\<open>map_rva\<close> of \<open>src/pe/addr.rs\<close> on 32-bit addresses.\<close>

definition map_rva32 :: "rift_table \<Rightarrow> u32 \<Rightarrow> u32" where
  "map_rva32 rift rva = ucast (map_rva rift (ucast rva))"

definition unwind_info_file_offset :: "pe_info \<Rightarrow> u32 \<Rightarrow> nat option" where
  "unwind_info_file_offset pe rva =
     (if rva = 0 then None
      else if (case first_section_rva pe of None \<Rightarrow> False | Some f \<Rightarrow> rva < f) then Some (unat rva)
      else rva_to_file_offset pe rva)"

text \<open>The handler slot behind the unwind codes of flagged unwind info that lies outside of the directory.\<close>

definition transform_unwind_slot ::
  "pe_info \<Rightarrow> nat \<Rightarrow> nat \<Rightarrow> u32 \<Rightarrow> rift_table \<Rightarrow> bytes \<times> pdata_stats \<Rightarrow> bytes \<times> pdata_stats" where
  "transform_unwind_slot pe pdata_off pdata_size unwind_rva rift = (\<lambda>(img, stats).
     case unwind_info_file_offset pe unwind_rva of None \<Rightarrow> (img, stats)
     | Some off \<Rightarrow>
         if \<not> (off < pdata_off \<or> pdata_off + pdata_size < off) \<or> length img < off + 4
            \<or> img ! off AND 0x38 = 0 then (img, stats)
         else
           let slot = off + 4 + ((unat (img ! (off + 2)) + 1) div 2) * 4
           in if length img < slot + 4 then (img, stats)
              else
                let stats = stats\<lparr>ps_slots := ps_slots stats + 1\<rparr>;
                    rva = read_u32 img slot
                in if rva = 0 \<or> map_rva32 rift rva = rva then (img, stats)
                   else (write_u32 img slot (map_rva32 rift rva),
                         stats\<lparr>ps_slots_remapped := ps_slots_remapped stats + 1\<rparr>))"

definition transform_pdata_field :: "rift_table \<Rightarrow> bytes \<times> pdata_stats \<Rightarrow> nat \<Rightarrow> bytes \<times> pdata_stats" where
  "transform_pdata_field rift = (\<lambda>(img, stats) off.
     let stats = stats\<lparr>ps_fields := ps_fields stats + 1\<rparr>;
         rva = read_u32 img off
     in if rva = 0 \<or> map_rva32 rift rva = rva then (img, stats)
        else (write_u32 img off (map_rva32 rift rva), stats\<lparr>ps_fields_remapped := ps_fields_remapped stats + 1\<rparr>))"

fun pdata_records ::
  "pe_info option \<Rightarrow> nat \<Rightarrow> nat \<Rightarrow> rift_table \<Rightarrow> nat \<Rightarrow> nat \<Rightarrow> bytes \<times> pdata_stats \<Rightarrow> bytes \<times> pdata_stats" where
  "pdata_records pe pdata_off pdata_size rift 0 off st = st"
| "pdata_records pe pdata_off pdata_size rift (Suc n) off st =
     (let st = (fst st, snd st\<lparr>ps_records := ps_records (snd st) + 1\<rparr>);
          unwind_rva = read_u32 (fst st) (off + 8);
          st = (case pe of None \<Rightarrow> st
                | Some pe \<Rightarrow> transform_unwind_slot pe pdata_off pdata_size unwind_rva rift st)
      in pdata_records pe pdata_off pdata_size rift n (off + 12)
           (foldl (transform_pdata_field rift) st [off, off + 4, off + 8]))"

definition transform_pdata_range :: "pe_info option \<Rightarrow> nat \<Rightarrow> nat \<Rightarrow> rift_table \<Rightarrow> bytes \<Rightarrow> bytes \<times> pdata_stats" where
  "transform_pdata_range pe pdata_off pdata_size rift img =
     (if rift = [] \<or> pdata_off = 0 \<or> pdata_size = 0 then (img, pdata_none)
      else
        let clamped = min pdata_size (length img - pdata_off);
            record_bytes = clamped - clamped mod 12
        in pdata_records pe pdata_off pdata_size rift (record_bytes div 12) pdata_off
             (img, pdata_none\<lparr>ps_tail := pdata_size - record_bytes\<rparr>))"

definition transform_pdata_x64 :: "pe_info \<Rightarrow> rift_table \<Rightarrow> bytes \<Rightarrow> bytes \<times> pdata_stats" where
  "transform_pdata_x64 pe rift img =
     (case data_directory pe DirException of None \<Rightarrow> (img, pdata_none)
      | Some (rva, sz) \<Rightarrow>
          if rva = 0 \<or> sz = 0 then (img, pdata_none)
          else case rva_to_file_offset pe rva of None \<Rightarrow> (img, pdata_none)
               | Some off \<Rightarrow> transform_pdata_range (Some pe) off (unat sz) rift img)"

section \<open>The registry\<close>

datatype transform_atom =
    MarkNonExe | TransformImports | TransformExports | TransformResources | TransformRelocations
  | RelativeJmpsX86 | RelativeCallsX86 | DisasmX64 | PdataX64

definition transforms :: "transform_atom list" where
  "transforms = [MarkNonExe, TransformImports, TransformExports, TransformResources, TransformRelocations,
     RelativeJmpsX86, RelativeCallsX86, DisasmX64, PdataX64]"

fun atom_flag :: "transform_atom \<Rightarrow> u64" where
  "atom_flag MarkNonExe = 0x2"
| "atom_flag TransformImports = 0x4"
| "atom_flag TransformExports = 0x8"
| "atom_flag TransformResources = 0x10"
| "atom_flag TransformRelocations = 0x20"
| "atom_flag RelativeJmpsX86 = 0x80"
| "atom_flag RelativeCallsX86 = 0x100"
| "atom_flag DisasmX64 = 0x200"
| "atom_flag PdataX64 = 0x400"

fun atom_layer :: "transform_atom \<Rightarrow> string" where
  "atom_layer MarkNonExe = ''x86''"
| "atom_layer TransformImports = ''pe''"
| "atom_layer TransformExports = ''pe''"
| "atom_layer TransformResources = ''pe''"
| "atom_layer TransformRelocations = ''pe''"
| "atom_layer RelativeJmpsX86 = ''x86''"
| "atom_layer RelativeCallsX86 = ''x86''"
| "atom_layer DisasmX64 = ''x64''"
| "atom_layer PdataX64 = ''x64''"

definition applies_to_machine :: "string \<Rightarrow> pe_info \<Rightarrow> bool" where
  "applies_to_machine layer pe =
     (if layer = ''pe'' then True
      else if layer = ''x86'' then pi_machine pe = I386
      else if layer = ''x64'' then pi_machine pe = Amd64
      else if layer = ''arm'' then pi_machine pe = ArmNt
      else if layer = ''arm64'' then pi_machine pe = Arm64
      else False)"

fun apply_atom :: "transform_atom \<Rightarrow> pe_info \<Rightarrow> rift_table \<Rightarrow> u64 \<Rightarrow> image \<Rightarrow> image result" where
  "apply_atom MarkNonExe pe rift base (buf, marker) =
     rbind (mark_non_executable buf pe marker) (\<lambda>marker. Inr (buf, marker))"
| "apply_atom TransformImports pe rift base im = Inr (transform_source_imports pe rift base im)"
| "apply_atom TransformExports pe rift base im = Inr (transform_source_exports pe rift im)"
| "apply_atom TransformResources pe rift base im = Inr (transform_source_resources pe rift im)"
| "apply_atom TransformRelocations pe rift base im = Inr (transform_source_relocs pe rift base im)"
| "apply_atom RelativeJmpsX86 pe rift base im = transform_source_jmps_i386 pe rift im"
| "apply_atom RelativeCallsX86 pe rift base im = transform_source_calls_i386 pe rift im"
| "apply_atom DisasmX64 pe rift base (buf, marker) = Inr (fst (transform_disasm_x64 pe rift buf), marker)"
| "apply_atom PdataX64 pe rift base (buf, marker) = Inr (fst (transform_pdata_x64 pe rift buf), marker)"

fun run_atoms :: "pe_info \<Rightarrow> rift_table \<Rightarrow> u64 \<Rightarrow> u64 \<Rightarrow> transform_atom list \<Rightarrow> image \<Rightarrow> image result" where
  "run_atoms pe rift base flags [] im = Inr im"
| "run_atoms pe rift base flags (t # ts) im =
     (if flags AND atom_flag t \<noteq> 0 \<and> applies_to_machine (atom_layer t) pe
      then rbind (apply_atom t pe rift base im) (run_atoms pe rift base flags ts)
      else run_atoms pe rift base flags ts im)"

definition run_registered :: "pe_info \<Rightarrow> rift_table \<Rightarrow> u64 \<Rightarrow> u64 \<Rightarrow> image \<Rightarrow> image result" where
  "run_registered pe rift base flags im = run_atoms pe rift base flags transforms im"

definition build_transformed_source ::
  "pe_info \<Rightarrow> rift_table \<Rightarrow> u64 \<Rightarrow> u64 \<Rightarrow> u32 \<Rightarrow> bytes \<Rightarrow> bytes result" where
  "build_transformed_source pe rift flags target_base target_timestamp buf =
     (let buf = (if flags AND 0x2000 \<noteq> 0 then unbind_pe pe buf else buf);
          buf = set_header_timestamp target_timestamp buf;
          marker = replicate (length buf) 0
      in rbind (run_registered pe rift target_base flags (buf, marker)) (\<lambda>(buf, _).
           Inr (set_header_image_base target_base buf)))"

section \<open>Bounds of the disassembler\<close>

lemma consume_bounds: "consume n avail pos = Inr q \<Longrightarrow> pos \<le> avail \<Longrightarrow> q = pos + n \<and> q \<le> avail"
  by (auto simp: consume_def split: if_splits)

lemma consume_stop: "consume n avail pos = Inl q \<Longrightarrow> q = pos"
  by (auto simp: consume_def split: if_splits)

text \<open>What a stage promises: it stops or ends between where it began and the end of the window.\<close>

definition stage_ok :: "nat \<Rightarrow> nat \<Rightarrow> nat + nat \<Rightarrow> bool" where
  "stage_ok avail pos r = (case r of Inl q \<Rightarrow> pos \<le> q \<and> q \<le> avail | Inr q \<Rightarrow> pos \<le> q \<and> q \<le> avail)"

definition operand_ok :: "nat \<Rightarrow> nat \<Rightarrow> nat + nat \<times> nat option \<times> bool \<Rightarrow> bool" where
  "operand_ok avail pos r = (case r of Inl q \<Rightarrow> pos \<le> q \<and> q \<le> avail
     | Inr (q, field, g) \<Rightarrow> pos \<le> q \<and> q \<le> avail \<and> (\<forall>f. field = Some f \<longrightarrow> pos \<le> f \<and> f + 4 \<le> q))"

lemma stage_consume: "pos \<le> avail \<Longrightarrow> stage_ok avail pos (consume n avail pos)"
  by (auto simp: stage_ok_def consume_def)

lemma prefixes_bounds:
  "prefixes code avail pos a b = (q, c, d) \<Longrightarrow> pos \<le> avail \<Longrightarrow> pos \<le> q \<and> q \<le> avail"
proof (induction code avail pos a b rule: prefixes.induct)
  case (1 code avail pos a b)
  show ?case
  proof (cases "pos < avail \<and> legacy_prefix (code ! pos)")
    case True
    with 1(2) have "prefixes code avail (pos + 1) (a \<or> code ! pos = 0x66) (b \<or> code ! pos = 0x67) = (q, c, d)"
      by (subst (asm) prefixes.simps) simp
    from 1(1) [OF True this] True show ?thesis by simp
  next
    case False
    with 1(2,3) show ?thesis by (subst (asm) prefixes.simps) auto
  qed
qed

lemma modrm_operand_ok:
  assumes "pos \<le> avail" shows "operand_ok avail pos (modrm_operand code avail pos)"
proof (cases "avail - pos < 1")
  case True
  then show ?thesis using assms by (simp add: modrm_operand_def consume_def operand_ok_def)
next
  case False
  then have c: "consume 1 avail pos = Inr (pos + 1)" "pos + 1 \<le> avail" by (simp_all add: consume_def)
  define modrm where "modrm = code ! pos"
  define md where "md = drop_bit 6 modrm"
  define rm where "rm = modrm AND 7"
  consider "md = 3" | "md \<noteq> 3" "rm = 5 \<and> md = 0" | "md \<noteq> 3" "\<not> (rm = 5 \<and> md = 0)" "rm = 4" | "md \<noteq> 3" "\<not> (rm = 5 \<and> md = 0)" "rm \<noteq> 4"
    by blast
  then show ?thesis
  proof cases
    case 1
    with c show ?thesis by (simp add: modrm_operand_def operand_ok_def Let_def flip: modrm_def md_def)
  next
    case 2
    with c show ?thesis
      by (auto simp: modrm_operand_def operand_ok_def Let_def consume_def rm_def md_def modrm_def)
  next
    case 3
    then have "modrm_operand code avail pos = rbind (consume 1 avail (pos + 1)) (\<lambda>pos2.
        rbind (if md = 0 then if code ! (pos + 1) AND 7 = 5 then consume 4 avail pos2 else Inr pos2
               else if md = 1 then consume 1 avail pos2 else consume 4 avail pos2)
          (\<lambda>pos3. Inr (pos3, None, drop_bit 3 modrm AND 7 = 0 \<or> drop_bit 3 modrm AND 7 = 1)))"
      using c(1) unfolding modrm_operand_def Let_def c(1) rbind_Inr md_def rm_def modrm_def by simp
    with c show ?thesis by (auto simp: operand_ok_def consume_def)
  next
    case 4
    then have "modrm_operand code avail pos = rbind (if md = 1 then consume 1 avail (pos + 1)
          else if md = 2 then consume 4 avail (pos + 1) else Inr (pos + 1))
          (\<lambda>pos2. Inr (pos2, None, drop_bit 3 modrm AND 7 = 0 \<or> drop_bit 3 modrm AND 7 = 1))"
      using c(1) unfolding modrm_operand_def Let_def c(1) rbind_Inr md_def rm_def modrm_def by auto
    with c show ?thesis by (auto simp: operand_ok_def consume_def)
  qed
qed

lemma operand_bounds: "pos \<le> avail \<Longrightarrow> operand_ok avail pos (operand kind a code avail pos)"
  using modrm_operand_ok [of pos avail code]
  by (auto simp: operand_def) (auto simp: operand_ok_def consume_def)

lemma immediate_ok: "pos \<le> avail \<Longrightarrow> stage_ok avail pos (immediate kind a b c avail pos)"
  by (simp add: immediate_def stage_consume) (simp add: stage_ok_def)

lemma disasm_stages_bounds:
  assumes "0 < avail"
  shows "case disasm_stages code avail of Inl q \<Rightarrow> 0 < q \<and> q \<le> avail
    | Inr (q, field) \<Rightarrow> 0 < q \<and> q \<le> avail \<and> (\<forall>f. field = Some f \<longrightarrow> 0 < f \<and> f + 4 \<le> q)"
proof -
  obtain p a b where p: "prefixes code avail 0 False False = (p, a, b)" by (metis prod.exhaust)
  have pb: "p \<le> avail" using prefixes_bounds [OF p] by simp
  show ?thesis
  proof (cases "avail \<le> p")
    case True
    then show ?thesis using p assms pb by (simp add: disasm_stages_def)
  next
    case False
    show ?thesis
    proof (cases "rex_prefix code avail p")
      case (Inl q)
      then show ?thesis using p False by (auto simp: disasm_stages_def rex_prefix_def split: if_splits)
    next
      case (Inr pr)
      obtain q w where q: "pr = (q, w)" by (cases pr)
      have qb: "p \<le> q" "q < avail" using Inr q False by (auto simp: rex_prefix_def split: if_splits)
      show ?thesis
      proof (cases "opcode_kinds code avail q")
        case (Inl r)
        then show ?thesis using p False Inr q qb by (auto simp: disasm_stages_def opcode_kinds_def Let_def split: if_splits)
      next
        case ok: (Inr t)
        obtain r mk ik where r: "t = (r, mk, ik)" by (cases t)
        have rb: "q < r" "r \<le> avail" using ok r qb by (auto simp: opcode_kinds_def Let_def split: if_splits)
        have st: "disasm_stages code avail = (if mk = 1 then Inl r
            else rbind (operand mk b code avail r) (\<lambda>(pos, field, g).
                 rbind (immediate ik a w g avail pos) (\<lambda>pos. Inr (pos, field))))"
          using p False Inr q ok r by (simp add: disasm_stages_def)
        show ?thesis
        proof (cases "mk = 1")
          case True
          then show ?thesis using st rb by simp
        next
          case mk: False
          show ?thesis
          proof (cases "operand mk b code avail r")
            case (Inl s)
            then show ?thesis using operand_bounds [OF rb(2), of mk b code] st mk rb by (simp add: operand_ok_def)
          next
            case op: (Inr u)
            obtain s field g where u: "u = (s, field, g)" by (cases u)
            have sb: "r \<le> s" "s \<le> avail" "\<And>f. field = Some f \<Longrightarrow> r \<le> f \<and> f + 4 \<le> s"
              using operand_bounds [OF rb(2), of mk b code] op u by (simp_all add: operand_ok_def)
            show ?thesis
              using immediate_ok [OF sb(2), of ik a w g] st mk op u sb rb
              by (cases "immediate ik a w g avail s") (auto simp: stage_ok_def dest!: sb(3))
          qed
        qed
      qed
    qed
  qed
qed

text \<open>
  C30. The length disassembler makes progress and stays in its window: on any nonempty code it returns a
  length between 1 and 15 that does not exceed the code, and a field that is to be remapped lies with
  all its four bytes inside of the instruction, behind its first byte.
\<close>

theorem disasm_in_window:
  "code \<noteq> [] \<Longrightarrow> 0 < ins_len (disasm_amd64 code) \<and> ins_len (disasm_amd64 code) \<le> min (length code) 15
    \<and> (ins_remap (disasm_amd64 code) \<longrightarrow>
        0 < ins_field (disasm_amd64 code) \<and> ins_field (disasm_amd64 code) + 4 \<le> ins_len (disasm_amd64 code))"
  using disasm_stages_bounds [of "min (length code) 15" code]
  by (auto simp: disasm_amd64_def Let_def split: sum.splits option.splits)

theorem disasm_in_window_witness:
  "0 < ins_len (disasm_amd64 [0x48, 0x8B, 0x05, 1, 2, 3, 4])
    \<and> ins_len (disasm_amd64 [0x48, 0x8B, 0x05, 1, 2, 3, 4]) \<le> min (length [0x48, 0x8B, 0x05, 1, 2, 3, 4 :: u8]) 15
    \<and> 0 < ins_field (disasm_amd64 [0x48, 0x8B, 0x05, 1, 2, 3, 4])
    \<and> ins_field (disasm_amd64 [0x48, 0x8B, 0x05, 1, 2, 3, 4]) + 4 \<le> ins_len (disasm_amd64 [0x48, 0x8B, 0x05, 1, 2, 3, 4])"
proof -
  have remapped: "ins_remap (disasm_amd64 [0x48, 0x8B, 0x05, 1, 2, 3, 4])" by code_simp
  show ?thesis using disasm_in_window [of "[0x48, 0x8B, 0x05, 1, 2, 3, 4]"] remapped by simp
qed

section \<open>Every transform keeps the size of the image\<close>

definition same_size :: "image \<Rightarrow> image \<Rightarrow> bool" where
  "same_size im im' \<longleftrightarrow> length (fst im') = length (fst im) \<and> length (snd im') = length (snd im)"

lemma same_size_refl [simp]: "same_size im im"
  by (simp add: same_size_def)

lemma same_size_pair: "same_size (a, m) (b, m) \<longleftrightarrow> length b = length a"
  by (simp add: same_size_def)

lemma same_size_trans: "same_size a b \<Longrightarrow> same_size b c \<Longrightarrow> same_size a c"
  by (simp add: same_size_def)

lemma same_size_foldl: "(\<And>im x. same_size im (f im x)) \<Longrightarrow> same_size im (foldl f im xs)"
proof (induction xs arbitrary: im)
  case (Cons x xs)
  have "same_size (f im x) (foldl f (f im x) xs)" by (rule Cons.IH) (rule Cons.prems)
  with Cons.prems [of im x] show ?case by (auto intro: same_size_trans)
qed simp

lemma same_size_map_rva_field: "same_size im (map_rva_field rift fo im)"
  by (simp add: same_size_def)

lemma copy_thunks_length [simp]: "length (copy_thunks pe s dst buf) = length buf"
proof (induction pe s dst buf rule: copy_thunks.induct)
  case (1 pe s dst buf)
  show ?case
  proof (cases "s + ptr_size pe \<le> length buf \<and> dst + ptr_size pe \<le> length buf \<and> read_thunk pe buf s \<noteq> 0")
    case True
    have "length (write_at dst (subrange s (s + ptr_size pe) buf) buf) = length buf"
      using True by (intro length_write_at) auto
    with 1 [OF True] True show ?thesis by (subst copy_thunks.simps) simp
  next
    case False
    then show ?thesis by (subst copy_thunks.simps) (simp only: if_False)
  qed
qed

lemma unbind_imports_length [simp]: "length (unbind_imports pe n dfo buf) = length buf"
  by (induction pe n dfo buf rule: unbind_imports.induct) (auto simp: Let_def split: option.splits)

lemma mark_idata_length [simp]: "length (mark_idata buf) = length buf"
  by (auto simp: mark_idata_def Let_def intro!: foldl_length split: option.split)

lemma unbind_pe_length [simp]: "length (unbind_pe pe buf) = length buf"
  by (auto simp: unbind_pe_def split: option.split)

lemma header_lengths [simp]:
  "length (set_header_image_base tb buf) = length buf" "length (set_header_timestamp ts buf) = length buf"
  "length (zero_pe_checksum buf) = length buf"
  by (auto simp: set_header_image_base_def set_header_timestamp_def zero_pe_checksum_def split: sum.split option.split)

lemma same_size_walk_thunks: "same_size im (walk_thunks pe rift tb bound fo im)"
proof (induction pe rift tb bound fo im rule: walk_thunks.induct)
  case (1 pe rift tb bound fo im)
  show ?case
  proof (cases "fo + ptr_size pe \<le> length (fst im) \<and> read_thunk pe (fst im) fo \<noteq> 0")
    case True
    from 1 [OF True] True show ?thesis
      by (subst walk_thunks.simps) (simp only: if_True simp_thms same_size_def length_map_thunk)
  next
    case False
    then show ?thesis by (subst walk_thunks.simps) (simp only: if_False same_size_refl)
  qed
qed

lemma same_size_descriptors: "same_size im (transform_descriptors pe rift tb n dfo im)"
proof (induction n arbitrary: dfo im)
  case (Suc n)
  have w: "same_size im (walk_thunk_array pe rift tb rva b im)" for rva b im
    by (auto simp: walk_thunk_array_def same_size_walk_thunks split: option.split)
  have "same_size im (map_rva_field rift a (map_rva_field rift b (map_rva_field rift c
      (walk_thunk_array pe rift tb r1 b1 (walk_thunk_array pe rift tb r2 b2 im)))))" for a b c r1 b1 r2 b2
    by (intro same_size_trans [OF _ same_size_map_rva_field] same_size_trans [OF _ w] same_size_refl)
  from same_size_trans [OF this Suc.IH] show ?case
    by (auto simp: Let_def split: option.split)
qed simp

lemma same_size_imports: "same_size im (transform_source_imports pe rift tb im)"
  by (auto simp: transform_source_imports_def same_size_descriptors split: option.split)

lemma same_size_exports: "same_size im (transform_source_exports pe rift im)"
proof -
  have a: "same_size im (map_rva_array pe rift x im)" for x im
    by (auto simp: map_rva_array_def intro!: same_size_foldl same_size_map_rva_field split: prod.split option.split)
  have "same_size im (foldl (\<lambda>im off. map_rva_field rift (dfo + off) im)
      (map_rva_array pe rift x (map_rva_array pe rift y im)) offs)" for dfo x y offs
    by (intro same_size_trans [OF _ same_size_foldl] same_size_trans [OF _ a] same_size_refl same_size_map_rva_field)
  then show ?thesis by (auto simp: transform_source_exports_def Let_def simp del: foldl.simps split: option.split)
qed

lemma same_size_resource_entry: "resource_entry rift d b e efo im = (cs, im') \<Longrightarrow> same_size im im'"
  by (auto simp: resource_entry_def Let_def same_size_def split: if_splits prod.splits)

lemma same_size_resource_entries:
  "resource_entries rift d b e n efo (st, im) = (st', im') \<Longrightarrow> same_size im im'"
proof (induction n arbitrary: efo st im)
  case (Suc n)
  show ?case
  proof (cases "length (fst im) < efo + 8")
    case False
    obtain cs im1 where r: "resource_entry rift d b e efo im = (cs, im1)" by (metis prod.exhaust)
    with Suc.prems False have "resource_entries rift d b e n (efo + 8) (cs @ st, im1) = (st', im')" by simp
    from Suc.IH [OF this] same_size_resource_entry [OF r] show ?thesis by (blast intro: same_size_trans)
  qed (use Suc.prems in simp)
qed simp

lemma same_size_resource_walk: "same_size im (resource_walk rift d b e visited stack im)"
proof (induction rift d b e visited stack im rule: resource_walk.induct)
  case (2 rift d b e visited dir stack im)
  show ?case
  proof (cases "dir \<in> set visited \<or> dir < b \<or> e < dir + 0x10")
    case True
    with 2(1,2) show ?thesis by (subst resource_walk.simps) auto
  next
    case False
    define n where "n = min (unat (read_u16 (fst im) (dir + 0xc)) + unat (read_u16 (fst im) (dir + 0xe))) ((e - (dir + 0x10)) div 8)"
    obtain st1 im1 where r: "resource_entries rift d b e n (dir + 0x10) (stack, im) = (st1, im1)"
      by (metis prod.exhaust)
    have "same_size im1 (resource_walk rift d b e (dir # visited) st1 im1)"
      using False r by (intro 2(3) [where x = "unat (read_u16 (fst im) (dir + 0xc)) + unat (read_u16 (fst im) (dir + 0xe))"
            and xa = n and y = im1]) (auto simp: n_def)
    with same_size_resource_entries [OF r] False r show ?thesis
      by (subst resource_walk.simps) (auto simp: Let_def simp flip: n_def intro: same_size_trans)
  qed
qed simp

lemma same_size_resources: "same_size im (transform_source_resources pe rift im)"
  by (auto simp: transform_source_resources_def same_size_resource_walk split: option.split)

lemma reloc_blocks_size: "reloc_blocks pe rift tb e bo im es = (im', es') \<Longrightarrow> same_size im im'"
proof (induction pe rift tb e bo im es rule: reloc_blocks.induct)
  case (1 pe rift tb e bo im es)
  define cond where "cond \<longleftrightarrow> bo + 8 \<le> e \<and> bo + 8 \<le> length (fst im) \<and> 8 \<le> unat (read_u32 (fst im) (bo + 4))
         \<and> bo + unat (read_u32 (fst im) (bo + 4)) \<le> e"
  obtain im1 es1 where w: "reloc_words pe rift tb (ucast (read_u32 (fst im) bo)) (bo + 8)
               ((unat (read_u32 (fst im) (bo + 4)) - 8) div 2) 0 im es = (im1, es1)" by (metis prod.exhaust)
  show ?case
  proof (cases cond)
    case True
    then have "reloc_blocks pe rift tb e (bo + unat (read_u32 (fst im) (bo + 4))) im1 es1 = (im', es')"
      using 1(2) w unfolding cond_def by (subst (asm) reloc_blocks.simps) simp
    from 1(1) [OF True [unfolded cond_def] w [symmetric] this] length_reloc_words [OF w] show ?thesis
      by (simp add: same_size_def)
  next
    case False
    then have "reloc_blocks pe rift tb e bo im es = (im, es)"
      unfolding cond_def by (subst reloc_blocks.simps) (simp only: if_False)
    with 1(2) show ?thesis by simp
  qed
qed

lemma write_blocks_length [simp]: "length (write_blocks limit out buf es) = length buf"
proof (induction limit out buf es rule: write_blocks.induct)
  case (1 limit out buf es)
  obtain o1 b1 e1 where w: "write_block limit out buf es = (o1, b1, e1)" by (metis prod.exhaust)
  show ?case
  proof (cases "out + 8 \<le> limit \<and> es \<noteq> []")
    case True
    from 1 [OF True w [symmetric] refl] write_block_spec [OF w] True w show ?thesis
      by (subst write_blocks.simps) simp
  next
    case False
    then show ?thesis by (subst write_blocks.simps) (simp only: if_False)
  qed
qed

lemma same_size_relocs: "same_size im (transform_source_relocs pe rift tb im)"
proof -
  have "same_size im (rebuild_reloc_blocks pe a b c es (fst im1), snd im1)"
    if "reloc_blocks pe rift tb e base im [] = (im1, es)" for a b c es im1 e base
    using reloc_blocks_size [OF that] by (simp add: same_size_def rebuild_reloc_blocks_def Let_def)
  then show ?thesis by (auto simp: transform_source_relocs_def Let_def split: option.split prod.split)
qed

lemma same_size_branches:
  assumes "length marker = length buf"
  shows "\<exists>im'. transform_source_calls_i386 pe rift (buf, marker) = Inr im' \<and> same_size (buf, marker) im'"
    "\<exists>im'. transform_source_jmps_i386 pe rift (buf, marker) = Inr im' \<and> same_size (buf, marker) im'"
  using calls_pass_keeps [OF assms, of pe rift] jmps_pass_keeps [OF assms, of pe rift]
  by (auto simp: same_size_def keeps_marked_def)

lemma remap_insn_length [simp]: "length (fst (remap_insn rift rva off insn st)) = length (fst st)"
  by (auto simp: remap_insn_def Let_def split: prod.split)

lemma disasm_function_length [simp]: "length (fst (disasm_function rift e rva off st)) = length (fst st)"
proof (induction rift e rva off st rule: disasm_function.induct)
  case (1 rift e rva off st)
  then show ?case by (subst disasm_function.simps) (simp add: Let_def)
qed

lemma disasm_x64_length [simp]: "length (fst (transform_disasm_x64 pe rift buf)) = length buf"
proof -
  have "length (fst (disasm_functions pe rift n ent st)) = length (fst st)" for n ent st
    by (induction pe rift n ent st rule: disasm_functions.induct) (auto simp: Let_def split: option.split)
  then show ?thesis by (auto simp: transform_disasm_x64_def split: option.split)
qed

lemma pdata_field_length [simp]: "length (fst (transform_pdata_field rift st off)) = length (fst st)"
  by (auto simp: transform_pdata_field_def Let_def split: prod.split)

lemma unwind_slot_length [simp]: "length (fst (transform_unwind_slot pe a b c rift st)) = length (fst st)"
  by (auto simp: transform_unwind_slot_def Let_def split: prod.split option.split)

lemma pdata_x64_length [simp]: "length (fst (transform_pdata_x64 pe rift buf)) = length buf"
proof -
  have "length (fst (pdata_records p a b rift n off st)) = length (fst st)" for p a b n off st
    by (induction p a b rift n off st rule: pdata_records.induct) (auto simp: Let_def split: option.split)
  then show ?thesis
    by (auto simp: transform_pdata_x64_def transform_pdata_range_def Let_def split: option.split)
qed

section \<open>The transformed source exists\<close>

text \<open>
  What the headers must grant for the slices of \<open>mark_non_executable\<close>: no executable section
  starts behind the end of the file.
\<close>

definition code_starts_inside :: "pe_info \<Rightarrow> nat \<Rightarrow> bool" where
  "code_starts_inside pe n \<longleftrightarrow> (\<forall>s\<in>set (pi_sections pe). executable s \<longrightarrow> unat (sec_raw s) \<le> n)"

lemma mark_non_executable_total:
  assumes "code_starts_inside pe (length buf)"
  shows "\<exists>marker'. mark_non_executable buf pe marker = Inr marker' \<and> length marker' = length marker"
proof -
  have "\<exists>m'. foldl (unmark_section (length buf)) (Inr m) ss = Inr m' \<and> length m' = length m"
    if "\<forall>s\<in>set ss. executable s \<longrightarrow> unat (sec_raw s) \<le> length buf" for ss m
    using that
  proof (induction ss arbitrary: m)
    case (Cons s ss)
    have "\<exists>m1. unmark_section (length buf) (Inr m) s = Inr m1 \<and> length m1 = length m"
      using Cons.prems by (auto simp: unmark_section_def code_range_def Let_def)
    with Cons.IH Cons.prems show ?case by fastforce
  qed simp
  from this [of "pi_sections pe" "map (\<lambda>m. m OR 1) marker"] assms show ?thesis
    by (simp add: mark_non_executable_def code_starts_inside_def)
qed

lemma run_atoms_total:
  assumes "code_starts_inside pe (length (fst im))" "length (snd im) = length (fst im)"
  shows "\<exists>im'. run_atoms pe rift base flags ts im = Inr im' \<and> same_size im im'"
  using assms
proof (induction ts arbitrary: im)
  case (Cons t ts)
  have a: "\<exists>im1. apply_atom t pe rift base im = Inr im1 \<and> same_size im im1"
  proof -
    obtain buf marker where im: "im = (buf, marker)" by (cases im)
    note branches = same_size_branches [of marker buf pe rift]
    show ?thesis
    proof (cases t)
      case MarkNonExe
      then show ?thesis using mark_non_executable_total [of pe buf marker] Cons.prems
        by (auto simp: im same_size_def)
    qed (use branches Cons.prems(2) in \<open>simp_all add: im same_size_imports same_size_exports same_size_resources
        same_size_relocs same_size_pair\<close>)
  qed
  then obtain im1 where im1: "apply_atom t pe rift base im = Inr im1" "same_size im im1" by blast
  have "code_starts_inside pe (length (fst im1))" "length (snd im1) = length (fst im1)"
    using Cons.prems im1(2) by (simp_all add: same_size_def)
  from Cons.IH [OF this] Cons.IH [OF Cons.prems] im1 show ?case by (auto intro: same_size_trans)
qed simp

text \<open>Then the whole chain of transforms returns, for any rift table and any selection flags.\<close>

lemma build_transformed_source_total:
  assumes "code_starts_inside pe (length buf)"
  shows "\<exists>buf'. build_transformed_source pe rift flags base ts buf = Inr buf' \<and> length buf' = length buf"
proof -
  define b where "b = set_header_timestamp ts (if flags AND 0x2000 \<noteq> 0 then unbind_pe pe buf else buf)"
  have l: "length b = length buf" by (simp add: b_def)
  from run_atoms_total [of pe "(b, replicate (length b) 0)" rift base flags transforms] assms l
  obtain im where im: "run_registered pe rift base flags (b, replicate (length b) 0) = Inr im"
    "same_size (b, replicate (length b) 0) im" by (auto simp: run_registered_def)
  have "build_transformed_source pe rift flags base ts buf = rbind (run_registered pe rift base flags (b, replicate (length b) 0))
      (\<lambda>(buf, _). Inr (set_header_image_base base buf))"
    by (simp add: build_transformed_source_def Let_def b_def)
  with im l show ?thesis by (auto simp: same_size_def split: prod.split)
qed

text \<open>Without that the first pass on an i386 image panics.\<close>

lemma mark_non_executable_panics:
  "pi_sections pe = [s] \<Longrightarrow> executable s \<Longrightarrow> length buf < unat (sec_raw s) \<Longrightarrow> mark_non_executable buf pe marker = Inl Panic"
  by (auto simp: mark_non_executable_def unmark_section_def code_range_def Let_def)

end
