(* ===== verification/CliSchema.thy ===== *)
theory CliSchema imports Prelude begin

text \<open>
  The ECMA-335 metadata schema, \<open>src/pe/cli/schema.rs\<close>: the columns of the 45 tables, the tags of
  the 13 coded indexes, and the widths that follow from the row counts and the heap sizes. Table
  ids and column widths are naturals; the row counts are the array of 64 32-bit counts.
\<close>

section \<open>Types\<close>

datatype cli_flavor = Classic | Cli4

datatype heap_kind = StringsHeap | GuidHeap | BlobHeap

record heap_widths =
  hw_strings :: nat
  hw_guid :: nat
  hw_blob :: nat

datatype coded_kind =
    TypeDefOrRef | HasConstant | HasCustomAttribute | HasFieldMarshal | HasDeclSecurity
  | MemberRefParent | HasSemantics | MethodDefOrRef | MemberForwarded | Implementation
  | CustomAttributeType | ResolutionScope | TypeOrMethodDef

text \<open>The position of a kind in the enum, the discriminant that \<open>kind as usize\<close> takes.\<close>

fun coded_discriminant :: "coded_kind \<Rightarrow> nat" where
  "coded_discriminant TypeDefOrRef = 0"
| "coded_discriminant HasConstant = 1"
| "coded_discriminant HasCustomAttribute = 2"
| "coded_discriminant HasFieldMarshal = 3"
| "coded_discriminant HasDeclSecurity = 4"
| "coded_discriminant MemberRefParent = 5"
| "coded_discriminant HasSemantics = 6"
| "coded_discriminant MethodDefOrRef = 7"
| "coded_discriminant MemberForwarded = 8"
| "coded_discriminant Implementation = 9"
| "coded_discriminant CustomAttributeType = 10"
| "coded_discriminant ResolutionScope = 11"
| "coded_discriminant TypeOrMethodDef = 12"

datatype column_kind =
  ColU8 | ColU16 | ColU32 | ColRva | ColHeap heap_kind | ColTable nat | ColCoded coded_kind

type_synonym column_schema = "string \<times> column_kind"

record table_schema =
  ts_id :: nat
  ts_name :: string
  ts_columns :: "column_schema list"

record coded_schema =
  cs_kind :: coded_kind
  cs_name :: string
  cs_tag_bits :: nat
  cs_tag_to_table :: "nat list"

record metadata_schema =
  ms_flavor :: cli_flavor
  ms_metadata_kind :: string
  ms_tables :: "table_schema list"
  ms_coded_indexes :: "coded_schema list"

definition table_sentinel :: nat where
  "table_sentinel = 0x40"

datatype signature_kind =
  MethodSig | MemberRefSig | FieldSig | PropertySig | TypeSpecSig | StandAloneSig | NoTypeRemap

definition signature_kind_for_table :: "nat \<Rightarrow> signature_kind option" where
  "signature_kind_for_table table_id =
     (if table_id = 0x06 then Some MethodSig
      else if table_id = 0x0a then Some MemberRefSig
      else if table_id = 0x04 then Some FieldSig
      else if table_id = 0x17 then Some PropertySig
      else if table_id = 0x1b then Some TypeSpecSig
      else if table_id = 0x11 then Some StandAloneSig
      else if table_id = 0x0b \<or> table_id = 0x0c \<or> table_id = 0x0d \<or> table_id = 0x2b then Some NoTypeRemap
      else None)"

section \<open>The tables\<close>

definition module_columns :: "column_schema list" where
  "module_columns =
    [(''Generation'', ColU16), (''Name'', ColHeap StringsHeap), (''Mvid'', ColHeap GuidHeap),
     (''EncId'', ColHeap GuidHeap), (''EncBaseId'', ColHeap GuidHeap)]"

definition typeref_columns :: "column_schema list" where
  "typeref_columns =
    [(''ResolutionScope'', ColCoded ResolutionScope), (''Name'', ColHeap StringsHeap),
     (''Namespace'', ColHeap StringsHeap)]"

definition typedef_columns :: "column_schema list" where
  "typedef_columns =
    [(''Flags'', ColU32), (''Name'', ColHeap StringsHeap), (''Namespace'', ColHeap StringsHeap),
     (''Extends'', ColCoded TypeDefOrRef), (''FieldList'', ColTable 0x04),
     (''MethodList'', ColTable 0x06)]"

definition field_ptr_columns :: "column_schema list" where
  "field_ptr_columns =
    [(''Field'', ColTable 0x04)]"

definition field_columns :: "column_schema list" where
  "field_columns =
    [(''Flags'', ColU16), (''Name'', ColHeap StringsHeap), (''Signature'', ColHeap BlobHeap)]"

definition method_ptr_columns :: "column_schema list" where
  "method_ptr_columns =
    [(''Method'', ColTable 0x06)]"

definition method_def_columns :: "column_schema list" where
  "method_def_columns =
    [(''Rva'', ColRva), (''ImplFlags'', ColU16), (''Flags'', ColU16),
     (''Name'', ColHeap StringsHeap), (''Signature'', ColHeap BlobHeap),
     (''ParamList'', ColTable 0x08)]"

definition param_ptr_columns :: "column_schema list" where
  "param_ptr_columns =
    [(''Param'', ColTable 0x08)]"

definition param_columns :: "column_schema list" where
  "param_columns =
    [(''Flags'', ColU16), (''Sequence'', ColU16), (''Name'', ColHeap StringsHeap)]"

definition interface_impl_columns :: "column_schema list" where
  "interface_impl_columns =
    [(''Class'', ColTable 0x02), (''Interface'', ColCoded TypeDefOrRef)]"

definition member_ref_columns :: "column_schema list" where
  "member_ref_columns =
    [(''Class'', ColCoded MemberRefParent), (''Name'', ColHeap StringsHeap),
     (''Signature'', ColHeap BlobHeap)]"

definition constant_columns :: "column_schema list" where
  "constant_columns =
    [(''Type'', ColU8), (''Padding'', ColU8), (''Parent'', ColCoded HasConstant),
     (''Value'', ColHeap BlobHeap)]"

definition custom_attribute_columns :: "column_schema list" where
  "custom_attribute_columns =
    [(''Parent'', ColCoded HasCustomAttribute), (''Type'', ColCoded CustomAttributeType),
     (''Value'', ColHeap BlobHeap)]"

definition field_marshal_columns :: "column_schema list" where
  "field_marshal_columns =
    [(''Parent'', ColCoded HasFieldMarshal), (''NativeType'', ColHeap BlobHeap)]"

definition decl_security_columns :: "column_schema list" where
  "decl_security_columns =
    [(''Action'', ColU16), (''Parent'', ColCoded HasDeclSecurity),
     (''PermissionSet'', ColHeap BlobHeap)]"

definition class_layout_columns :: "column_schema list" where
  "class_layout_columns =
    [(''PackingSize'', ColU16), (''ClassSize'', ColU32), (''Parent'', ColTable 0x02)]"

definition field_layout_columns :: "column_schema list" where
  "field_layout_columns =
    [(''Offset'', ColU32), (''Field'', ColTable 0x04)]"

definition standalone_sig_columns :: "column_schema list" where
  "standalone_sig_columns =
    [(''Signature'', ColHeap BlobHeap)]"

definition event_map_columns :: "column_schema list" where
  "event_map_columns =
    [(''Parent'', ColTable 0x02), (''EventList'', ColTable 0x14)]"

definition event_ptr_columns :: "column_schema list" where
  "event_ptr_columns =
    [(''Event'', ColTable 0x14)]"

definition event_columns :: "column_schema list" where
  "event_columns =
    [(''EventFlags'', ColU16), (''Name'', ColHeap StringsHeap),
     (''EventType'', ColCoded TypeDefOrRef)]"

definition property_map_columns :: "column_schema list" where
  "property_map_columns =
    [(''Parent'', ColTable 0x02), (''PropertyList'', ColTable 0x17)]"

definition property_ptr_columns :: "column_schema list" where
  "property_ptr_columns =
    [(''Property'', ColTable 0x17)]"

definition property_columns :: "column_schema list" where
  "property_columns =
    [(''Flags'', ColU16), (''Name'', ColHeap StringsHeap), (''Type'', ColHeap BlobHeap)]"

definition method_semantics_columns :: "column_schema list" where
  "method_semantics_columns =
    [(''Semantics'', ColU16), (''Method'', ColTable 0x06), (''Association'', ColCoded HasSemantics)]"

definition method_impl_columns :: "column_schema list" where
  "method_impl_columns =
    [(''Class'', ColTable 0x02), (''MethodBody'', ColCoded MethodDefOrRef),
     (''MethodDeclaration'', ColCoded MethodDefOrRef)]"

definition module_ref_columns :: "column_schema list" where
  "module_ref_columns =
    [(''Name'', ColHeap StringsHeap)]"

definition type_spec_columns :: "column_schema list" where
  "type_spec_columns =
    [(''Signature'', ColHeap BlobHeap)]"

definition impl_map_columns :: "column_schema list" where
  "impl_map_columns =
    [(''MappingFlags'', ColU16), (''MemberForwarded'', ColCoded MemberForwarded),
     (''ImportName'', ColHeap StringsHeap), (''ImportScope'', ColTable 0x1a)]"

definition field_rva_columns :: "column_schema list" where
  "field_rva_columns =
    [(''Rva'', ColRva), (''Field'', ColTable 0x04)]"

definition enc_log_columns :: "column_schema list" where
  "enc_log_columns =
    [(''Token'', ColU32), (''FuncCode'', ColU32)]"

definition enc_map_columns :: "column_schema list" where
  "enc_map_columns =
    [(''Token'', ColU32)]"

definition assembly_columns :: "column_schema list" where
  "assembly_columns =
    [(''HashAlgId'', ColU32), (''MajorVersion'', ColU16), (''MinorVersion'', ColU16),
     (''BuildNumber'', ColU16), (''RevisionNumber'', ColU16), (''Flags'', ColU32),
     (''PublicKey'', ColHeap BlobHeap), (''Name'', ColHeap StringsHeap),
     (''Culture'', ColHeap StringsHeap)]"

definition assembly_processor_columns :: "column_schema list" where
  "assembly_processor_columns =
    [(''Processor'', ColU32)]"

definition assembly_os_columns :: "column_schema list" where
  "assembly_os_columns =
    [(''OSPlatformId'', ColU32), (''OSMajorVersion'', ColU32), (''OSMinorVersion'', ColU32)]"

definition assembly_ref_columns :: "column_schema list" where
  "assembly_ref_columns =
    [(''MajorVersion'', ColU16), (''MinorVersion'', ColU16), (''BuildNumber'', ColU16),
     (''RevisionNumber'', ColU16), (''Flags'', ColU32), (''PublicKeyOrToken'', ColHeap BlobHeap),
     (''Name'', ColHeap StringsHeap), (''Culture'', ColHeap StringsHeap),
     (''HashValue'', ColHeap BlobHeap)]"

definition assembly_ref_processor_columns :: "column_schema list" where
  "assembly_ref_processor_columns =
    [(''Processor'', ColU32), (''AssemblyRef'', ColTable 0x23)]"

definition assembly_ref_os_columns :: "column_schema list" where
  "assembly_ref_os_columns =
    [(''OSPlatformId'', ColU32), (''OSMajorVersion'', ColU32), (''OSMinorVersion'', ColU32),
     (''AssemblyRef'', ColTable 0x23)]"

definition file_columns :: "column_schema list" where
  "file_columns =
    [(''Flags'', ColU32), (''Name'', ColHeap StringsHeap), (''HashValue'', ColHeap BlobHeap)]"

definition exported_type_columns :: "column_schema list" where
  "exported_type_columns =
    [(''Flags'', ColU32), (''TypeDefId'', ColU32), (''TypeName'', ColHeap StringsHeap),
     (''TypeNamespace'', ColHeap StringsHeap), (''Implementation'', ColCoded Implementation)]"

definition manifest_resource_columns :: "column_schema list" where
  "manifest_resource_columns =
    [(''Offset'', ColU32), (''Flags'', ColU32), (''Name'', ColHeap StringsHeap),
     (''Implementation'', ColCoded Implementation)]"

definition nested_class_columns :: "column_schema list" where
  "nested_class_columns =
    [(''NestedClass'', ColTable 0x02), (''EnclosingClass'', ColTable 0x02)]"

definition generic_param_columns :: "column_schema list" where
  "generic_param_columns =
    [(''Number'', ColU16), (''Flags'', ColU16), (''Owner'', ColCoded TypeOrMethodDef),
     (''Name'', ColHeap StringsHeap)]"

definition method_spec_columns :: "column_schema list" where
  "method_spec_columns =
    [(''Method'', ColCoded MethodDefOrRef), (''Instantiation'', ColHeap BlobHeap)]"

definition generic_param_constraint_columns :: "column_schema list" where
  "generic_param_constraint_columns =
    [(''Owner'', ColTable 0x2a), (''Constraint'', ColCoded TypeDefOrRef)]"

definition table :: "nat \<Rightarrow> string \<Rightarrow> column_schema list \<Rightarrow> table_schema" where
  "table i name columns = \<lparr>ts_id = i, ts_name = name, ts_columns = columns\<rparr>"

definition metadata_tables :: "table_schema list" where
  "metadata_tables =
    [table 0x00 ''Module'' module_columns,
     table 0x01 ''TypeRef'' typeref_columns,
     table 0x02 ''TypeDef'' typedef_columns,
     table 0x03 ''FieldPtr'' field_ptr_columns,
     table 0x04 ''Field'' field_columns,
     table 0x05 ''MethodPtr'' method_ptr_columns,
     table 0x06 ''MethodDef'' method_def_columns,
     table 0x07 ''ParamPtr'' param_ptr_columns,
     table 0x08 ''Param'' param_columns,
     table 0x09 ''InterfaceImpl'' interface_impl_columns,
     table 0x0a ''MemberRef'' member_ref_columns,
     table 0x0b ''Constant'' constant_columns,
     table 0x0c ''CustomAttribute'' custom_attribute_columns,
     table 0x0d ''FieldMarshal'' field_marshal_columns,
     table 0x0e ''DeclSecurity'' decl_security_columns,
     table 0x0f ''ClassLayout'' class_layout_columns,
     table 0x10 ''FieldLayout'' field_layout_columns,
     table 0x11 ''StandAloneSig'' standalone_sig_columns,
     table 0x12 ''EventMap'' event_map_columns,
     table 0x13 ''EventPtr'' event_ptr_columns,
     table 0x14 ''Event'' event_columns,
     table 0x15 ''PropertyMap'' property_map_columns,
     table 0x16 ''PropertyPtr'' property_ptr_columns,
     table 0x17 ''Property'' property_columns,
     table 0x18 ''MethodSemantics'' method_semantics_columns,
     table 0x19 ''MethodImpl'' method_impl_columns,
     table 0x1a ''ModuleRef'' module_ref_columns,
     table 0x1b ''TypeSpec'' type_spec_columns,
     table 0x1c ''ImplMap'' impl_map_columns,
     table 0x1d ''FieldRVA'' field_rva_columns,
     table 0x1e ''ENCLog'' enc_log_columns,
     table 0x1f ''ENCMap'' enc_map_columns,
     table 0x20 ''Assembly'' assembly_columns,
     table 0x21 ''AssemblyProcessor'' assembly_processor_columns,
     table 0x22 ''AssemblyOS'' assembly_os_columns,
     table 0x23 ''AssemblyRef'' assembly_ref_columns,
     table 0x24 ''AssemblyRefProcessor'' assembly_ref_processor_columns,
     table 0x25 ''AssemblyRefOS'' assembly_ref_os_columns,
     table 0x26 ''File'' file_columns,
     table 0x27 ''ExportedType'' exported_type_columns,
     table 0x28 ''ManifestResource'' manifest_resource_columns,
     table 0x29 ''NestedClass'' nested_class_columns,
     table 0x2a ''GenericParam'' generic_param_columns,
     table 0x2b ''MethodSpec'' method_spec_columns,
     table 0x2c ''GenericParamConstraint'' generic_param_constraint_columns]"

section \<open>The coded indexes\<close>

definition coded :: "coded_kind \<Rightarrow> string \<Rightarrow> nat \<Rightarrow> nat list \<Rightarrow> coded_schema" where
  "coded kind name tag_bits tags =
     \<lparr>cs_kind = kind, cs_name = name, cs_tag_bits = tag_bits, cs_tag_to_table = tags\<rparr>"

definition type_def_or_ref_tags :: "nat list" where
  "type_def_or_ref_tags = [0x02, 0x01, 0x1b]"

definition has_constant_tags :: "nat list" where
  "has_constant_tags = [0x04, 0x08, 0x17]"

definition has_custom_attribute_tags :: "nat list" where
  "has_custom_attribute_tags = [0x06, 0x04, 0x01, 0x02, 0x08, 0x09, 0x0a, 0x00, 0x0e, 0x17, 0x14, 0x11, 0x1a, 0x1b, 0x20, 0x23,
     0x26, 0x27, 0x28, 0x2a, 0x2c, 0x2b]"

definition has_field_marshal_tags :: "nat list" where
  "has_field_marshal_tags = [0x04, 0x08]"

definition has_decl_security_tags :: "nat list" where
  "has_decl_security_tags = [0x02, 0x06, 0x20]"

definition member_ref_parent_tags :: "nat list" where
  "member_ref_parent_tags = [0x02, 0x01, 0x1a, 0x06, 0x1b]"

definition has_semantics_tags :: "nat list" where
  "has_semantics_tags = [0x14, 0x17]"

definition method_def_or_ref_tags :: "nat list" where
  "method_def_or_ref_tags = [0x06, 0x0a]"

definition member_forwarded_tags :: "nat list" where
  "member_forwarded_tags = [0x04, 0x06]"

definition implementation_tags :: "nat list" where
  "implementation_tags = [0x26, 0x23, 0x27]"

definition custom_attribute_type_tags :: "nat list" where
  "custom_attribute_type_tags = [table_sentinel, table_sentinel, 0x06, 0x0a, table_sentinel]"

definition resolution_scope_tags :: "nat list" where
  "resolution_scope_tags = [0x00, 0x1a, 0x23, 0x01]"

definition type_or_method_def_tags :: "nat list" where
  "type_or_method_def_tags = [0x02, 0x06]"

definition coded_indexes :: "coded_schema list" where
  "coded_indexes =
    [coded TypeDefOrRef ''TypeDefOrRef'' 2 type_def_or_ref_tags,
     coded HasConstant ''HasConstant'' 2 has_constant_tags,
     coded HasCustomAttribute ''HasCustomAttribute'' 5 has_custom_attribute_tags,
     coded HasFieldMarshal ''HasFieldMarshal'' 1 has_field_marshal_tags,
     coded HasDeclSecurity ''HasDeclSecurity'' 2 has_decl_security_tags,
     coded MemberRefParent ''MemberRefParent'' 3 member_ref_parent_tags,
     coded HasSemantics ''HasSemantics'' 1 has_semantics_tags,
     coded MethodDefOrRef ''MethodDefOrRef'' 1 method_def_or_ref_tags,
     coded MemberForwarded ''MemberForwarded'' 1 member_forwarded_tags,
     coded Implementation ''Implementation'' 2 implementation_tags,
     coded CustomAttributeType ''CustomAttributeType'' 3 custom_attribute_type_tags,
     coded ResolutionScope ''ResolutionScope'' 2 resolution_scope_tags,
     coded TypeOrMethodDef ''TypeOrMethodDef'' 1 type_or_method_def_tags]"

section \<open>Widths\<close>

definition schema_of :: "cli_flavor \<Rightarrow> metadata_schema" where
  "schema_of flavor =
     (case flavor of
        Classic \<Rightarrow> \<lparr>ms_flavor = Classic, ms_metadata_kind = ''CliMetadata'',
                     ms_tables = metadata_tables, ms_coded_indexes = coded_indexes\<rparr>
      | Cli4 \<Rightarrow> \<lparr>ms_flavor = Cli4, ms_metadata_kind = ''Cli4Metadata'',
                  ms_tables = metadata_tables, ms_coded_indexes = coded_indexes\<rparr>)"

definition schema_of_table :: "nat \<Rightarrow> table_schema option" where
  "schema_of_table table_id = find (\<lambda>t. ts_id t = table_id) metadata_tables"

definition coded_index_schema :: "coded_kind \<Rightarrow> coded_schema" where
  "coded_index_schema kind = coded_indexes ! coded_discriminant kind"

definition table_index_width :: "nat \<Rightarrow> u32 list \<Rightarrow> nat" where
  "table_index_width table_id row_counts = (if row_counts ! table_id < 2 ^ 16 then 2 else 4)"

definition coded_index_width :: "coded_schema \<Rightarrow> u32 list \<Rightarrow> nat" where
  "coded_index_width schema row_counts =
     (let max_rows = fold (\<lambda>t m. max (row_counts ! t) m) (filter (\<lambda>t. t \<noteq> table_sentinel) (cs_tag_to_table schema)) 0
      in if max_rows < push_bit (16 - cs_tag_bits schema) 1 then 2 else 4)"

fun column_width :: "column_kind \<Rightarrow> u32 list \<Rightarrow> heap_widths \<Rightarrow> nat" where
  "column_width ColU8 row_counts hw = 1"
| "column_width ColU16 row_counts hw = 2"
| "column_width ColU32 row_counts hw = 4"
| "column_width ColRva row_counts hw = 4"
| "column_width (ColHeap StringsHeap) row_counts hw = hw_strings hw"
| "column_width (ColHeap GuidHeap) row_counts hw = hw_guid hw"
| "column_width (ColHeap BlobHeap) row_counts hw = hw_blob hw"
| "column_width (ColTable t) row_counts hw = table_index_width t row_counts"
| "column_width (ColCoded kind) row_counts hw = coded_index_width (coded_index_schema kind) row_counts"

definition columns_width :: "column_schema list \<Rightarrow> u32 list \<Rightarrow> heap_widths \<Rightarrow> nat" where
  "columns_width columns row_counts hw = sum_list (map (\<lambda>(_, kind). column_width kind row_counts hw) columns)"

definition row_size :: "nat \<Rightarrow> u32 list \<Rightarrow> heap_widths \<Rightarrow> nat option" where
  "row_size table_id row_counts hw =
     map_option (\<lambda>t. columns_width (ts_columns t) row_counts hw) (schema_of_table table_id)"

section \<open>The schema is well formed\<close>

text \<open>What the code relies on without a check: references stay among the tables.\<close>

fun column_wf :: "column_kind \<Rightarrow> bool" where
  "column_wf (ColTable t) \<longleftrightarrow> t < 45"
| "column_wf _ \<longleftrightarrow> True"

definition coded_wf :: "coded_schema \<Rightarrow> bool" where
  "coded_wf c \<longleftrightarrow> length (cs_tag_to_table c) \<le> 2 ^ cs_tag_bits c \<and> cs_tag_bits c \<le> 5
     \<and> list_all (\<lambda>t. t < 45 \<or> t = table_sentinel) (cs_tag_to_table c)"

lemma coded_schema_wf: "coded_wf (coded_index_schema kind) \<and> cs_kind (coded_index_schema kind) = kind"
  by (induction kind; code_simp)

lemma tables_wf: "map ts_id metadata_tables = [0..<45]
    \<and> list_all (\<lambda>t. list_all (\<lambda>c. column_wf (snd c)) (ts_columns t) \<and> length (ts_columns t) \<in> {1..9}) metadata_tables"
  by code_simp

definition widths_ok :: "heap_widths \<Rightarrow> bool" where
  "widths_ok hw \<longleftrightarrow> hw_strings hw \<in> {2, 4} \<and> hw_guid hw \<in> {2, 4} \<and> hw_blob hw \<in> {2, 4}"

lemma column_width_bounds: "widths_ok hw \<Longrightarrow> column_width kind row_counts hw \<in> {1, 2, 4}"
  by (induction kind row_counts hw rule: column_width.induct)
    (auto simp: widths_ok_def table_index_width_def coded_index_width_def Let_def)

lemma columns_width_bounds:
  assumes "widths_ok hw"
  shows "length cols \<le> columns_width cols row_counts hw \<and> columns_width cols row_counts hw \<le> 4 * length cols"
  unfolding columns_width_def
proof (induction cols)
  case (Cons c cols)
  then show ?case using column_width_bounds [OF assms, of "snd c" row_counts] by (auto simp: case_prod_beta)
qed simp

lemma schema_of_table_wf:
  assumes "schema_of_table t = Some s"
  shows "t < 45" "ts_id s = t" "length (ts_columns s) \<in> {1..9}"
    "list_all (\<lambda>c. column_wf (snd c)) (ts_columns s)"
proof -
  have s: "s \<in> set metadata_tables" "ts_id s = t"
    using assms by (auto simp: schema_of_table_def find_Some_iff)
  have "ts_id s \<in> set (map ts_id metadata_tables)" using s(1) by simp
  then show "t < 45" "ts_id s = t" using s(2) tables_wf by (simp_all only: set_upt atLeastLessThan_iff)
  show "length (ts_columns s) \<in> {1..9}" "list_all (\<lambda>c. column_wf (snd c)) (ts_columns s)"
    using s(1) tables_wf unfolding list_all_iff by blast+
qed

lemma schema_of_table_known: "t < 45 \<Longrightarrow> schema_of_table t \<noteq> None"
proof
  assume t: "t < 45" and "schema_of_table t = None"
  then have "t \<notin> set (map ts_id metadata_tables)" by (auto simp: schema_of_table_def find_None_iff)
  moreover have "t \<in> set (map ts_id metadata_tables)" unfolding conjunct1 [OF tables_wf] set_upt using t by simp
  ultimately show False by contradiction
qed

lemma row_size_bounds:
  assumes "widths_ok hw" "row_size t row_counts hw = Some n"
  shows "t < 45" "1 \<le> n" "n \<le> 36"
proof -
  obtain s where s: "schema_of_table t = Some s" "n = columns_width (ts_columns s) row_counts hw"
    using assms(2) by (auto simp: row_size_def)
  note W = schema_of_table_wf [OF s(1)] columns_width_bounds [OF assms(1), of "ts_columns s" row_counts]
  show "t < 45" by (rule W(1))
  show "1 \<le> n" "n \<le> 36" using W(3,5) by (simp_all add: s(2))
qed

end
