(* ===== verification/CliMetadata.thy ===== *)
theory CliMetadata imports CliSchema PeImage BitCodec begin

text \<open>
  CLI metadata: compressed integers (\<open>src/pe/cli/blob.rs\<close>), the typed tokens
  (\<open>src/pe/cli/tokens.rs\<close>), the metadata root of an image, its tables, rows and heaps, and the
  record of the target's metadata in the preprocess stream (\<open>src/pe/cli/metadata.rs\<close>).
  Offsets and sizes are sums of products of 32-bit fields, far below the overflow of a
  \<open>usize\<close>, and naturals here, so the overflow errors have no branch of their own.
\<close>

section \<open>Slices\<close>

definition checked_slice :: "bytes \<Rightarrow> nat \<Rightarrow> nat \<Rightarrow> bytes result" where
  "checked_slice data off len = (if off + len \<le> length data then Inr (subrange off (off + len) data) else Inl Truncated)"

definition or_truncated :: "'a option \<Rightarrow> 'a result" where
  "or_truncated v = (case v of None \<Rightarrow> Inl Truncated | Some x \<Rightarrow> Inr x)"

definition align4 :: "nat \<Rightarrow> nat" where
  "align4 v = (v + 3) div 4 * 4"

section \<open>Compressed integers\<close>

definition read_compressed_u32 :: "bytes \<Rightarrow> (u32 \<times> nat) result" where
  "read_compressed_u32 input =
     (case input of [] \<Rightarrow> Inl Truncated
      | b0 # _ \<Rightarrow>
          if b0 AND 0x80 = 0 then Inr (ucast b0, 1)
          else if b0 AND 0xc0 = 0x80 then
            if length input < 2 then Inl Truncated
            else Inr (push_bit 8 (ucast (b0 AND 0x3f)) OR ucast (input ! 1), 2)
          else if b0 AND 0xe0 = 0xc0 then
            if length input < 4 then Inl Truncated
            else Inr (push_bit 24 (ucast (b0 AND 0x1f)) OR push_bit 16 (ucast (input ! 1))
                      OR push_bit 8 (ucast (input ! 2)) OR ucast (input ! 3), 4)
          else Inl (Malformed ''reserved CLI compressed unsigned integer prefix''))"

definition compressed_bytes :: "nat \<Rightarrow> u32 \<Rightarrow> bytes" where
  "compressed_bytes width v =
     (if width = 1 then [ucast v]
      else if width = 2 then [ucast (drop_bit 8 v) OR 0x80, ucast v]
      else [ucast (drop_bit 24 v) OR 0xc0, ucast (drop_bit 16 v), ucast (drop_bit 8 v), ucast v])"

text \<open>The written slice begins at \<open>start\<close>; the second component tells whether it was written.\<close>

definition write_compressed_u32 :: "bytes \<Rightarrow> nat \<Rightarrow> nat \<Rightarrow> u32 \<Rightarrow> bytes \<times> bool" where
  "write_compressed_u32 data start width v =
     (if (width = 1 \<and> v < 0x80 \<or> width = 2 \<and> v < 0x4000 \<or> width = 4 \<and> v < 0x20000000)
         \<and> start + width \<le> length data
      then (write_at start (compressed_bytes width v) data, True)
      else (data, False))"

section \<open>Tokens\<close>

definition metadata_table_id :: "nat \<Rightarrow> nat result" where
  "metadata_table_id v =
     (if v \<le> 0x3f then Inr v else Inl (Malformed ''CLI metadata token: invalid table id''))"

definition metadata_rid :: "u32 \<Rightarrow> u32 result" where
  "metadata_rid v =
     (if v = 0 then Inl (Malformed ''CLI metadata token: RID is zero'')
      else if v \<le> 0x00ffffff then Inr v
      else Inl (Malformed ''CLI metadata token: RID is too large''))"

record metadata_token =
  tok_table :: nat
  tok_rid :: u32

definition token_from_raw :: "u32 \<Rightarrow> metadata_token result" where
  "token_from_raw raw =
     rbind (metadata_table_id (unat (drop_bit 24 raw))) (\<lambda>t.
     rbind (metadata_rid (raw AND 0x00ffffff)) (\<lambda>rid.
       Inr \<lparr>tok_table = t, tok_rid = rid\<rparr>))"

definition token_to_raw :: "metadata_token \<Rightarrow> u32" where
  "token_to_raw t = push_bit 24 (of_nat (tok_table t)) OR tok_rid t"

section \<open>UTF-8\<close>

text \<open>What \<open>std::str::from_utf8\<close> accepts: no overlong forms, no surrogates, nothing above U+10FFFF.\<close>

definition is_cont :: "u8 \<Rightarrow> bool" where
  "is_cont b \<longleftrightarrow> 0x80 \<le> b \<and> b \<le> 0xBF"

fun utf8_valid :: "bytes \<Rightarrow> bool" where
  "utf8_valid [] = True"
| "utf8_valid (b # bs) =
     (if b < 0x80 then utf8_valid bs
      else if 0xC2 \<le> b \<and> b \<le> 0xDF then
        (case bs of c1 # r \<Rightarrow> is_cont c1 \<and> utf8_valid r | _ \<Rightarrow> False)
      else if 0xE0 \<le> b \<and> b \<le> 0xEF then
        (case bs of c1 # c2 # r \<Rightarrow>
           (if b = 0xE0 then 0xA0 \<le> c1 else 0x80 \<le> c1) \<and> (if b = 0xED then c1 \<le> 0x9F else c1 \<le> 0xBF)
           \<and> is_cont c2 \<and> utf8_valid r
         | _ \<Rightarrow> False)
      else if 0xF0 \<le> b \<and> b \<le> 0xF4 then
        (case bs of c1 # c2 # c3 # r \<Rightarrow>
           (if b = 0xF0 then 0x90 \<le> c1 else 0x80 \<le> c1) \<and> (if b = 0xF4 then c1 \<le> 0x8F else c1 \<le> 0xBF)
           \<and> is_cont c2 \<and> is_cont c3 \<and> utf8_valid r
         | _ \<Rightarrow> False)
      else False)"

definition before_nul :: "bytes \<Rightarrow> bytes" where
  "before_nul = takeWhile (\<lambda>b. b \<noteq> 0)"

definition ascii :: "string \<Rightarrow> bytes" where
  "ascii = map of_char"

section \<open>The target record of the preprocess stream\<close>

record stream_slot =
  sl_file_offset :: u32
  sl_size :: u32

record stream_slots =
  ss_strings :: stream_slot
  ss_user_strings :: stream_slot
  ss_blob :: stream_slot
  ss_guid :: stream_slot
  ss_tables :: stream_slot

record metadata_record =
  mr_flavor :: cli_flavor
  mr_present :: bool
  mr_file_offset :: u32
  mr_size :: u32
  mr_rva :: u32
  mr_stream_count :: u32
  mr_headers_end :: u32
  mr_streams :: stream_slots
  mr_heap_widths :: heap_widths
  mr_valid_mask :: u64
  mr_row_counts :: "u32 list"
  mr_row_sizes :: "u32 list"
  mr_table_offsets :: "nat option list"

definition empty_slot :: stream_slot where
  "empty_slot = \<lparr>sl_file_offset = 0, sl_size = 0\<rparr>"

definition empty_slots :: stream_slots where
  "empty_slots = \<lparr>ss_strings = empty_slot, ss_user_strings = empty_slot, ss_blob = empty_slot,
     ss_guid = empty_slot, ss_tables = empty_slot\<rparr>"

definition empty_record :: "cli_flavor \<Rightarrow> metadata_record" where
  "empty_record flavor =
     \<lparr>mr_flavor = flavor, mr_present = False, mr_file_offset = 0, mr_size = 0, mr_rva = 0,
      mr_stream_count = 0, mr_headers_end = 0, mr_streams = empty_slots,
      mr_heap_widths = \<lparr>hw_strings = 2, hw_guid = 2, hw_blob = 2\<rparr>, mr_valid_mask = 0,
      mr_row_counts = replicate 64 0, mr_row_sizes = replicate 64 0, mr_table_offsets = replicate 64 None\<rparr>"

definition record_is_empty :: "metadata_record \<Rightarrow> bool" where
  "record_is_empty r \<longleftrightarrow> \<not> mr_present r"

definition read_u32_bits :: "bit_reader \<Rightarrow> (u32 \<times> bit_reader) result" where
  "read_u32_bits r = rbind (read_bits r 32) (\<lambda>(v, r). Inr (ucast v, r))"

fun read_u32s :: "nat \<Rightarrow> bit_reader \<Rightarrow> (u32 list \<times> bit_reader) result" where
  "read_u32s 0 r = Inr ([], r)"
| "read_u32s (Suc n) r = rbind (read_u32_bits r) (\<lambda>(v, r). rbind (read_u32s n r) (\<lambda>(vs, r). Inr (v # vs, r)))"

definition heap_width_from_bit :: "u64 \<Rightarrow> nat" where
  "heap_width_from_bit b = (if b = 0 then 2 else 4)"

definition read_heap_widths :: "bit_reader \<Rightarrow> (heap_widths \<times> bit_reader) result" where
  "read_heap_widths r =
     rbind (read_bits r 1) (\<lambda>(s, r).
     rbind (read_bits r 1) (\<lambda>(g, r).
     rbind (read_bits r 1) (\<lambda>(b, r).
       Inr (\<lparr>hw_strings = heap_width_from_bit s, hw_guid = heap_width_from_bit g, hw_blob = heap_width_from_bit b\<rparr>, r))))"

fun read_row_counts :: "cli_flavor \<Rightarrow> u64 \<Rightarrow> nat list \<Rightarrow> bit_reader \<Rightarrow> (u32 list \<times> bit_reader) result" where
  "read_row_counts flavor vmask [] r = Inr ([], r)"
| "read_row_counts flavor vmask (t # ts) r =
     rbind (if \<not> bit vmask t then Inr (0, r)
            else if \<forall>s\<in>set (ms_tables (schema_of flavor)). ts_id s \<noteq> t
            then Inl (Malformed ''CLI metadata: unknown present table id'')
            else read_u32_bits r) (\<lambda>(c, r).
     rbind (read_row_counts flavor vmask ts r) (\<lambda>(cs, r). Inr (c # cs, r)))"

definition validate_file_range :: "u32 \<Rightarrow> u32 \<Rightarrow> u32 \<Rightarrow> u32 \<Rightarrow> unit result" where
  "validate_file_range md_off md_size off sz =
     rbind (or_err (checked_add32 md_off md_size) ''CLI metadata: stream file offset overflow'') (\<lambda>md_end.
     rbind (or_err (checked_add32 off sz) ''CLI metadata: stream file offset overflow'') (\<lambda>stream_end.
       if off < md_off \<or> md_end < stream_end then Inl (Malformed ''CLI metadata: stream exceeds metadata'')
       else Inr ()))"

fun validate_streams :: "u32 \<Rightarrow> u32 \<Rightarrow> stream_slot list \<Rightarrow> unit result" where
  "validate_streams md_off md_size [] = Inr ()"
| "validate_streams md_off md_size (s # ss) =
     rbind (if sl_file_offset s \<noteq> 0 \<or> sl_size s \<noteq> 0
            then validate_file_range md_off md_size (sl_file_offset s) (sl_size s) else Inr ()) (\<lambda>_.
       validate_streams md_off md_size ss)"

text \<open>
  The tables lie one behind the other from \<open>cursor\<close>: their row sizes, their file offsets. The
  two callers differ in the error for a table that does not fit.
\<close>

fun place_tables ::
  "error \<Rightarrow> nat \<Rightarrow> nat \<Rightarrow> u32 list \<Rightarrow> heap_widths \<Rightarrow> nat list \<Rightarrow> nat \<Rightarrow> (u32 list \<times> nat option list) result" where
  "place_tables err limit base row_counts hw [] cursor = Inr ([], [])"
| "place_tables err limit base row_counts hw (t # ts) cursor =
     (if row_counts ! t = 0
      then rbind (place_tables err limit base row_counts hw ts cursor) (\<lambda>(sizes, offs).
             Inr (0 # sizes, None # offs))
      else
        rbind (or_err (row_size t row_counts hw) ''CLI metadata: unknown table schema'') (\<lambda>size1.
          let finish = cursor + size1 * unat (row_counts ! t)
          in if limit < finish then Inl err
             else rbind (place_tables err limit base row_counts hw ts finish) (\<lambda>(sizes, offs).
                    Inr (of_nat size1 # sizes, Some (base + cursor) # offs))))"

definition present_tables :: "u64 \<Rightarrow> nat" where
  "present_tables vmask = length (filter (bit vmask) [0..<64])"

definition build_metadata_record :: "metadata_record \<Rightarrow> metadata_record result" where
  "build_metadata_record r =
     (let too_small = Malformed ''CLI metadata: table stream is too small'';
          tables = ss_tables (mr_streams r);
          cursor = 24 + 4 * present_tables (mr_valid_mask r)
      in
      if mr_size r = 0 then Inl (Malformed ''CLI metadata: empty metadata directory'')
      else if mr_stream_count r = 0 then Inl (Malformed ''CLI metadata: no streams'')
      else
        rbind (validate_file_range (mr_file_offset r) (mr_size r) (mr_headers_end r) 0) (\<lambda>_.
        rbind (validate_file_range (mr_file_offset r) (mr_size r) (sl_file_offset tables) (sl_size tables)) (\<lambda>_.
        rbind (validate_streams (mr_file_offset r) (mr_size r)
                 [ss_strings (mr_streams r), ss_user_strings (mr_streams r),
                  ss_blob (mr_streams r), ss_guid (mr_streams r)]) (\<lambda>_.
          if unat (sl_size tables) < cursor then Inl too_small
          else
            rbind (place_tables too_small (unat (sl_size tables)) (unat (sl_file_offset tables))
                     (mr_row_counts r) (mr_heap_widths r) [0..<64] cursor) (\<lambda>(sizes, offs).
              Inr (r\<lparr>mr_row_sizes := sizes, mr_table_offsets := offs\<rparr>))))))"

text \<open>The fifteen words in front of the heap widths, in stream order.\<close>

definition record_words :: "metadata_record \<Rightarrow> u32 list" where
  "record_words r =
     (let s = mr_streams r
      in [mr_file_offset r, mr_size r, mr_rva r, mr_stream_count r, mr_headers_end r,
          sl_file_offset (ss_strings s), sl_size (ss_strings s),
          sl_file_offset (ss_user_strings s), sl_size (ss_user_strings s),
          sl_file_offset (ss_blob s), sl_size (ss_blob s),
          sl_file_offset (ss_guid s), sl_size (ss_guid s),
          sl_file_offset (ss_tables s), sl_size (ss_tables s)])"

definition record_of_words :: "cli_flavor \<Rightarrow> u32 list \<Rightarrow> heap_widths \<Rightarrow> u64 \<Rightarrow> u32 list \<Rightarrow> metadata_record" where
  "record_of_words flavor ws hw vmask row_counts =
     (let slot = (\<lambda>i. \<lparr>sl_file_offset = ws ! i, sl_size = ws ! (i + 1)\<rparr>)
      in \<lparr>mr_flavor = flavor, mr_present = True, mr_file_offset = ws ! 0, mr_size = ws ! 1, mr_rva = ws ! 2,
          mr_stream_count = ws ! 3, mr_headers_end = ws ! 4,
          mr_streams = \<lparr>ss_strings = slot 5, ss_user_strings = slot 7, ss_blob = slot 9,
                        ss_guid = slot 11, ss_tables = slot 13\<rparr>,
          mr_heap_widths = hw, mr_valid_mask = vmask, mr_row_counts = row_counts,
          mr_row_sizes = replicate 64 0, mr_table_offsets = replicate 64 None\<rparr>)"

definition read_metadata_record :: "cli_flavor \<Rightarrow> bit_reader \<Rightarrow> (metadata_record \<times> bit_reader) result" where
  "read_metadata_record flavor r =
     rbind (read_bits r 1) (\<lambda>(present, r).
       if present = 0 then Inr (empty_record flavor, r)
       else
         rbind (read_u32s 15 r) (\<lambda>(ws, r).
         rbind (read_heap_widths r) (\<lambda>(hw, r).
         rbind (read_bits r 64) (\<lambda>(vmask, r).
         rbind (read_row_counts flavor vmask [0..<64] r) (\<lambda>(row_counts, r).
         rbind (build_metadata_record (record_of_words flavor ws hw vmask row_counts)) (\<lambda>record.
           Inr (record, r)))))))"

definition write_metadata_record :: "bit_writer \<Rightarrow> metadata_record \<Rightarrow> bit_writer" where
  "write_metadata_record w r =
     (let flag = (\<lambda>p. if p then 1 else 0 :: u64);
          w = write_bits w (flag (mr_present r)) 1
      in if \<not> mr_present r then w
         else
           let w = foldl (\<lambda>w v. write_bits w (ucast v) 32) w (record_words r);
               w = write_bits w (flag (hw_strings (mr_heap_widths r) = 4)) 1;
               w = write_bits w (flag (hw_guid (mr_heap_widths r) = 4)) 1;
               w = write_bits w (flag (hw_blob (mr_heap_widths r) = 4)) 1;
               w = write_bits w (mr_valid_mask r) 64
           in foldl (\<lambda>w t. if bit (mr_valid_mask r) t then write_bits w (ucast (mr_row_counts r ! t)) 32 else w)
                w [0..<length (mr_row_counts r)])"

definition write_cli4_metadata_record :: "bit_writer \<Rightarrow> metadata_record \<Rightarrow> bit_writer result" where
  "write_cli4_metadata_record w r =
     (if mr_flavor r \<noteq> Cli4 then Inl (Malformed ''CLI4 metadata bitstream: metadata flavor mismatch'')
      else Inr (write_metadata_record w r))"

section \<open>The metadata of an image\<close>

record cli_stream =
  st_metadata_offset :: u32
  st_file_offset :: nat
  st_size :: u32

record stream_set =
  sset_strings :: "cli_stream option"
  sset_user_strings :: "cli_stream option"
  sset_blob :: "cli_stream option"
  sset_guid :: "cli_stream option"
  sset_tables :: "cli_stream option"

record metadata_model =
  md_flavor :: cli_flavor
  md_rva :: u32
  md_file_offset :: nat
  md_size :: u32
  md_version :: bytes
  md_streams :: stream_set
  md_tables :: cli_stream
  md_heap_widths :: heap_widths
  md_valid_mask :: u64
  md_sorted_mask :: u64
  md_row_counts :: "u32 list"
  md_row_sizes :: "u32 list"
  md_table_offsets :: "nat option list"

definition no_streams :: stream_set where
  "no_streams = \<lparr>sset_strings = None, sset_user_strings = None, sset_blob = None, sset_guid = None, sset_tables = None\<rparr>"

definition add_stream :: "bytes \<Rightarrow> cli_stream \<Rightarrow> stream_set \<Rightarrow> stream_set" where
  "add_stream name s parsed =
     (if name = ascii ''#Strings'' then parsed\<lparr>sset_strings := Some s\<rparr>
      else if name = ascii ''#US'' then parsed\<lparr>sset_user_strings := Some s\<rparr>
      else if name = ascii ''#Blob'' then parsed\<lparr>sset_blob := Some s\<rparr>
      else if name = ascii ''#GUID'' then parsed\<lparr>sset_guid := Some s\<rparr>
      else if name = ascii ''#~'' then parsed\<lparr>sset_tables := Some s\<rparr>
      else parsed)"

text \<open>A NUL-terminated name at an offset, with the offset of its NUL.\<close>

definition name_at :: "bytes \<Rightarrow> nat \<Rightarrow> (bytes \<times> nat) option" where
  "name_at root start =
     (if length root < start \<or> 0 \<notin> set (drop start root) then None
      else let name = before_nul (drop start root) in Some (name, start + length name))"

fun parse_stream_headers :: "bytes \<Rightarrow> nat \<Rightarrow> nat \<Rightarrow> nat \<Rightarrow> bytes list \<Rightarrow> stream_set \<Rightarrow> stream_set result" where
  "parse_stream_headers root md_off off 0 names parsed = Inr parsed"
| "parse_stream_headers root md_off off (Suc n) names parsed =
     rbind (or_truncated (read_u32_opt root off)) (\<lambda>stream_offset.
     rbind (or_truncated (read_u32_opt root (off + 4))) (\<lambda>stream_size.
     rbind (or_err (name_at root (off + 8)) ''CLI metadata: unterminated stream name'') (\<lambda>(name, name_end).
       if \<not> utf8_valid name then Inl (Malformed ''CLI metadata: stream name is not UTF-8'')
       else if name \<in> set names then Inl (Malformed ''CLI metadata: duplicate stream name'')
       else
         rbind (checked_slice root (unat stream_offset) (unat stream_size)) (\<lambda>_.
           let s = \<lparr>st_metadata_offset = stream_offset, st_file_offset = md_off + unat stream_offset,
                    st_size = stream_size\<rparr>;
               off = align4 (name_end + 1)
           in rbind (checked_slice root off 0) (\<lambda>_.
                parse_stream_headers root md_off off n (names @ [name]) (add_stream name s parsed))))))"

fun parse_row_counts :: "bytes \<Rightarrow> u64 \<Rightarrow> nat list \<Rightarrow> nat \<Rightarrow> (u32 list \<times> nat) result" where
  "parse_row_counts tables vmask [] cursor = Inr ([], cursor)"
| "parse_row_counts tables vmask (t # ts) cursor =
     (if \<not> bit vmask t
      then rbind (parse_row_counts tables vmask ts cursor) (\<lambda>(cs, cursor). Inr (0 # cs, cursor))
      else if \<forall>s\<in>set (ms_tables (schema_of Classic)). ts_id s \<noteq> t
      then Inl (Malformed ''CLI metadata: unknown present table id'')
      else
        rbind (or_truncated (read_u32_opt tables cursor)) (\<lambda>c.
        rbind (parse_row_counts tables vmask ts (cursor + 4)) (\<lambda>(cs, cursor). Inr (c # cs, cursor))))"

record parsed_tables =
  pt_heap_widths :: heap_widths
  pt_valid_mask :: u64
  pt_sorted_mask :: u64
  pt_row_counts :: "u32 list"
  pt_row_sizes :: "u32 list"
  pt_table_offsets :: "nat option list"

definition parse_tables_stream :: "bytes \<Rightarrow> nat \<Rightarrow> parsed_tables result" where
  "parse_tables_stream tables base =
     rbind (checked_slice tables 0 24) (\<lambda>_.
       let heap_sizes = tables ! 6;
           width = (\<lambda>m. if heap_sizes AND m \<noteq> 0 then 4 else 2);
           hw = \<lparr>hw_strings = width 1, hw_guid = width 2, hw_blob = width 4\<rparr>
       in
       rbind (or_truncated (read_u64_opt tables 8)) (\<lambda>vmask.
       rbind (or_truncated (read_u64_opt tables 16)) (\<lambda>sorted_mask.
       rbind (parse_row_counts tables vmask [0..<64] 24) (\<lambda>(row_counts, cursor).
       rbind (place_tables Truncated (length tables) base row_counts hw [0..<64] cursor) (\<lambda>(sizes, offs).
         Inr \<lparr>pt_heap_widths = hw, pt_valid_mask = vmask, pt_sorted_mask = sorted_mask,
              pt_row_counts = row_counts, pt_row_sizes = sizes, pt_table_offsets = offs\<rparr>)))))"

definition parse_metadata_root :: "bytes \<Rightarrow> cli_flavor \<Rightarrow> u32 \<Rightarrow> nat \<Rightarrow> u32 \<Rightarrow> metadata_model result" where
  "parse_metadata_root img flavor rva md_off md_len =
     rbind (checked_slice img md_off (unat md_len)) (\<lambda>root.
       if take 4 root \<noteq> ascii ''BSJB'' then Inl (Malformed ''CLI metadata: bad BSJB signature'')
       else
         rbind (or_truncated (read_u32_opt root 12)) (\<lambda>version_len.
         rbind (checked_slice root 16 (unat version_len)) (\<lambda>version_bytes.
           if \<not> utf8_valid (before_nul version_bytes)
           then Inl (Malformed ''CLI metadata: version string is not UTF-8'')
           else
             let header_start = align4 (16 + unat version_len) + 4
             in
             rbind (checked_slice root header_start 0) (\<lambda>_.
             rbind (or_truncated (read_u16_opt root (header_start - 2))) (\<lambda>stream_count.
               if stream_count = 0 then Inl (Malformed ''CLI metadata: no streams'')
               else
                 rbind (parse_stream_headers root md_off header_start (unat stream_count) [] no_streams) (\<lambda>streams.
                 rbind (or_err (sset_tables streams) ''CLI metadata: missing #~ stream'') (\<lambda>tables.
                 rbind (checked_slice root (unat (st_metadata_offset tables)) (unat (st_size tables))) (\<lambda>table_stream.
                 rbind (parse_tables_stream table_stream (st_file_offset tables)) (\<lambda>pt.
                   Inr \<lparr>md_flavor = flavor, md_rva = rva, md_file_offset = md_off, md_size = md_len,
                        md_version = before_nul version_bytes, md_streams = streams, md_tables = tables,
                        md_heap_widths = pt_heap_widths pt, md_valid_mask = pt_valid_mask pt,
                        md_sorted_mask = pt_sorted_mask pt, md_row_counts = pt_row_counts pt,
                        md_row_sizes = pt_row_sizes pt, md_table_offsets = pt_table_offsets pt\<rparr>)))))))))"

definition parse_cli_metadata_info :: "bytes \<Rightarrow> pe_info \<Rightarrow> cli_flavor \<Rightarrow> metadata_model result" where
  "parse_cli_metadata_info img pe flavor =
     rbind (or_err (data_directory pe DirClrRuntimeHeader) ''PE: missing CLR data directory'') (\<lambda>(clr_rva, _).
       if clr_rva = 0 then Inl (Malformed ''PE: missing CLR runtime header'')
       else
         rbind (or_err (rva_to_file_offset pe clr_rva) ''PE: CLR runtime header RVA is unmapped'') (\<lambda>clr_off.
         rbind (checked_slice img clr_off 0x48) (\<lambda>_.
         rbind (or_truncated (read_u32_opt img (clr_off + 8))) (\<lambda>rva.
         rbind (or_truncated (read_u32_opt img (clr_off + 12))) (\<lambda>md_len.
           if rva = 0 \<or> md_len = 0 then Inl (Malformed ''CLI metadata: empty metadata directory'')
           else
             rbind (or_err (rva_to_file_offset pe rva) ''CLI metadata: metadata RVA is unmapped'') (\<lambda>md_off.
               parse_metadata_root img flavor rva md_off md_len))))))"

definition parse_cli_metadata :: "bytes \<Rightarrow> cli_flavor \<Rightarrow> metadata_model result" where
  "parse_cli_metadata img flavor =
     rbind (parse_lenient img) (\<lambda>pe. parse_cli_metadata_info img pe flavor)"

section \<open>Rows, columns, heaps\<close>

record table_row =
  row_table :: nat
  row_rid :: u32
  row_schema :: table_schema
  row_bytes :: bytes
  row_row_counts :: "u32 list"
  row_heap_widths :: heap_widths

definition table_row_at :: "metadata_model \<Rightarrow> bytes \<Rightarrow> nat \<Rightarrow> u32 \<Rightarrow> table_row result" where
  "table_row_at md img t rid =
     (if md_row_counts md ! t < rid then Inl (Malformed ''CLI metadata: row RID is out of range'')
      else
        rbind (or_err (md_table_offsets md ! t) ''CLI metadata: table is not present'') (\<lambda>table_off.
        rbind (checked_slice img (table_off + unat (md_row_sizes md ! t) * (unat rid - 1))
                 (unat (md_row_sizes md ! t))) (\<lambda>data.
        rbind (or_err (schema_of_table t) ''CLI metadata: unknown table schema'') (\<lambda>schema.
          Inr \<lparr>row_table = t, row_rid = rid, row_schema = schema, row_bytes = data,
               row_row_counts = md_row_counts md, row_heap_widths = md_heap_widths md\<rparr>))))"

definition table_row_by_id :: "metadata_model \<Rightarrow> bytes \<Rightarrow> nat \<Rightarrow> u32 \<Rightarrow> table_row result" where
  "table_row_by_id md img t rid =
     rbind (metadata_table_id t) (\<lambda>t. rbind (metadata_rid rid) (\<lambda>rid. table_row_at md img t rid))"

datatype column_value =
    ValU8 u8
  | ValU16 u16
  | ValU32 u32
  | ValRva u32
  | ValHeap heap_kind u32
  | ValTable nat "u32 option"
  | ValCoded coded_kind u32 "nat option" "u32 option"

definition decode_coded_index :: "coded_kind \<Rightarrow> u32 \<Rightarrow> column_value result" where
  "decode_coded_index kind raw =
     (let schema = coded_index_schema kind;
          tag = unat (raw AND mask (cs_tag_bits schema));
          rid = drop_bit (cs_tag_bits schema) raw
      in if length (cs_tag_to_table schema) \<le> tag then Inl (Malformed ''CLI metadata: invalid coded-index tag'')
         else if rid = 0 then Inr (ValCoded kind raw None None)
         else if cs_tag_to_table schema ! tag = table_sentinel
         then Inl (Malformed ''CLI metadata: coded-index tag has no target table'')
         else
           rbind (metadata_table_id (cs_tag_to_table schema ! tag)) (\<lambda>t.
           rbind (metadata_rid rid) (\<lambda>rid. Inr (ValCoded kind raw (Some t) (Some rid)))))"

definition read_column_unsigned :: "bytes \<Rightarrow> nat \<Rightarrow> nat \<Rightarrow> u32 result" where
  "read_column_unsigned row off width =
     (if width = 1 then rbind (checked_slice row off 1) (\<lambda>s. Inr (ucast (hd s)))
      else if width = 2 then rbind (or_truncated (read_u16_opt row off)) (\<lambda>v. Inr (ucast v))
      else if width = 4 then or_truncated (read_u32_opt row off)
      else Inl (Malformed ''CLI metadata: invalid column width''))"

definition read_column_value :: "column_kind \<Rightarrow> bytes \<Rightarrow> nat \<Rightarrow> nat \<Rightarrow> column_value result" where
  "read_column_value kind row off width =
     rbind (read_column_unsigned row off width) (\<lambda>raw.
       case kind of
         ColU8 \<Rightarrow> Inr (ValU8 (ucast raw))
       | ColU16 \<Rightarrow> Inr (ValU16 (ucast raw))
       | ColU32 \<Rightarrow> Inr (ValU32 raw)
       | ColRva \<Rightarrow> Inr (ValRva raw)
       | ColHeap k \<Rightarrow> Inr (ValHeap k raw)
       | ColTable t \<Rightarrow>
           rbind (metadata_table_id t) (\<lambda>t.
             if raw = 0 then Inr (ValTable t None)
             else rbind (metadata_rid raw) (\<lambda>rid. Inr (ValTable t (Some rid))))
       | ColCoded k \<Rightarrow> decode_coded_index k raw)"

definition row_column_by_index :: "table_row \<Rightarrow> nat \<Rightarrow> column_value result" where
  "row_column_by_index row i =
     (let cols = ts_columns (row_schema row)
      in if length cols \<le> i then Inl (Malformed ''CLI metadata: unknown table column'')
         else
           let off = columns_width (take i cols) (row_row_counts row) (row_heap_widths row);
               width = column_width (snd (cols ! i)) (row_row_counts row) (row_heap_widths row)
           in read_column_value (snd (cols ! i)) (row_bytes row) off width)"

definition row_column :: "table_row \<Rightarrow> string \<Rightarrow> column_value result" where
  "row_column row name =
     (let i = length (takeWhile (\<lambda>c. fst c \<noteq> name) (ts_columns (row_schema row)))
      in if i < length (ts_columns (row_schema row)) then row_column_by_index row i
         else Inl (Malformed ''CLI metadata: unknown table column''))"

definition heap_stream :: "bytes \<Rightarrow> cli_stream \<Rightarrow> bytes result" where
  "heap_stream img s = checked_slice img (st_file_offset s) (unat (st_size s))"

definition strings_at :: "metadata_model \<Rightarrow> bytes \<Rightarrow> u32 \<Rightarrow> bytes result" where
  "strings_at md img off =
     rbind (or_err (sset_strings (md_streams md)) ''CLI metadata: missing #Strings stream'') (\<lambda>s.
     rbind (heap_stream img s) (\<lambda>heap.
       if off = 0 then Inr []
       else if length heap < unat off then Inl (Malformed ''CLI metadata: #Strings offset is out of range'')
       else
         rbind (or_err (name_at heap (unat off)) ''CLI metadata: unterminated #Strings value'') (\<lambda>(name, _).
           if utf8_valid name then Inr name
           else Inl (Malformed ''CLI metadata: #Strings value is not UTF-8''))))"

definition prefixed_heap_value :: "bytes \<Rightarrow> u32 \<Rightarrow> bytes result" where
  "prefixed_heap_value heap off =
     (if off = 0 then Inr []
      else if length heap < unat off then Inl (Malformed ''CLI metadata: heap offset is out of range'')
      else
        rbind (read_compressed_u32 (drop (unat off) heap)) (\<lambda>(len, header_len).
          checked_slice heap (unat off + header_len) (unat len)))"

definition blob_at :: "metadata_model \<Rightarrow> bytes \<Rightarrow> u32 \<Rightarrow> bytes result" where
  "blob_at md img off =
     rbind (or_err (sset_blob (md_streams md)) ''CLI metadata: missing #Blob stream'') (\<lambda>s.
     rbind (heap_stream img s) (\<lambda>heap. prefixed_heap_value heap off))"

definition user_string_at :: "metadata_model \<Rightarrow> bytes \<Rightarrow> u32 \<Rightarrow> bytes result" where
  "user_string_at md img off =
     rbind (or_err (sset_user_strings (md_streams md)) ''CLI metadata: missing #US stream'') (\<lambda>s.
     rbind (heap_stream img s) (\<lambda>heap. prefixed_heap_value heap off))"

definition guid_at :: "metadata_model \<Rightarrow> bytes \<Rightarrow> u32 \<Rightarrow> bytes option result" where
  "guid_at md img i =
     (if i = 0 then Inr None
      else
        rbind (or_err (sset_guid (md_streams md)) ''CLI metadata: missing #GUID stream'') (\<lambda>s.
        rbind (heap_stream img s) (\<lambda>heap.
        rbind (checked_slice heap ((unat i - 1) * 16) 16) (\<lambda>g. Inr (Some g)))))"

section \<open>The record on the bit stream\<close>

definition enc_word :: "u32 \<Rightarrow> bool list" where
  "enc_word v = word_bits (ucast v :: u64) 32"

definition enc_flag :: "bool \<Rightarrow> bool list" where
  "enc_flag b = word_bits (if b then 1 else 0 :: u64) 1"

fun enc_counts :: "u64 \<Rightarrow> u32 list \<Rightarrow> nat list \<Rightarrow> bool list" where
  "enc_counts vmask cs [] = []"
| "enc_counts vmask cs (t # ts) = (if bit vmask t then enc_word (cs ! t) else []) @ enc_counts vmask cs ts"

definition enc_record :: "metadata_record \<Rightarrow> bool list" where
  "enc_record r =
     (if \<not> mr_present r then enc_flag False
      else enc_flag True @ concat (map enc_word (record_words r)) @ enc_flag (hw_strings (mr_heap_widths r) = 4)
        @ enc_flag (hw_guid (mr_heap_widths r) = 4) @ enc_flag (hw_blob (mr_heap_widths r) = 4)
        @ word_bits (mr_valid_mask r) 64 @ enc_counts (mr_valid_mask r) (mr_row_counts r) [0..<64])"

text \<open>The records that the reader produces.\<close>

definition record_ok :: "cli_flavor \<Rightarrow> metadata_record \<Rightarrow> bool" where
  "record_ok flavor r \<longleftrightarrow> r = empty_record flavor
     \<or> widths_ok (mr_heap_widths r) \<and> length (mr_row_counts r) = 64
       \<and> (\<forall>t<64. if bit (mr_valid_mask r) t then t < 45 else mr_row_counts r ! t = 0)
       \<and> build_metadata_record (record_of_words flavor (record_words r) (mr_heap_widths r)
            (mr_valid_mask r) (mr_row_counts r)) = Inr r"

lemma build_metadata_record_present: "build_metadata_record r = Inr r' \<Longrightarrow> mr_present r' = mr_present r"
  by (auto simp: build_metadata_record_def Let_def split: if_splits)

lemma record_ok_present: "record_ok flavor r \<Longrightarrow> r = empty_record flavor \<or> mr_present r"
  by (auto simp: record_ok_def record_of_words_def Let_def dest!: build_metadata_record_present)

lemma write_word_spec:
  "writer_ok w \<Longrightarrow> writer_ok (write_bits w (ucast v) 32)
    \<and> wr_stream (write_bits w (ucast v) 32) = wr_stream w @ enc_word v"
  by (simp add: write_bits_spec enc_word_def)

lemma write_words_spec:
  "writer_ok w \<Longrightarrow> writer_ok (foldl (\<lambda>w v. write_bits w (ucast v) 32) w vs)
    \<and> wr_stream (foldl (\<lambda>w v. write_bits w (ucast v) 32) w vs) = wr_stream w @ concat (map enc_word vs)"
  for vs :: "u32 list"
  by (induction vs arbitrary: w) (simp_all add: write_word_spec)

lemma write_counts_spec:
  "writer_ok w \<Longrightarrow> writer_ok (foldl (\<lambda>w t. if bit vm t then write_bits w (ucast (cs ! t)) 32 else w) w ts)
    \<and> wr_stream (foldl (\<lambda>w t. if bit vm t then write_bits w (ucast (cs ! t)) 32 else w) w ts)
        = wr_stream w @ enc_counts vm cs ts" for cs :: "u32 list"
  by (induction ts arbitrary: w) (simp_all add: write_word_spec)

lemma write_metadata_record_spec:
  assumes w: "writer_ok w" and r: "record_ok flavor r"
  shows "writer_ok (write_metadata_record w r)
    \<and> wr_stream (write_metadata_record w r) = wr_stream w @ enc_record r"
proof (cases "mr_present r")
  case False
  then show ?thesis using w by (simp add: write_metadata_record_def enc_record_def enc_flag_def write_bits_spec Let_def)
next
  case True
  then have l: "length (mr_row_counts r) = 64" using r by (auto simp: record_ok_def empty_record_def)
  from True show ?thesis using w
    by (simp add: write_metadata_record_def enc_record_def enc_flag_def Let_def l write_bits_spec
      write_words_spec write_counts_spec del: upt_rec_numeral)
qed

lemma read_flag:
  assumes "reader_ok r" "rd_stream r = enc_flag b @ rest"
  shows "delivers (read_bits r 1) (if b then 1 else 0) rest (rd_padding r)"
  using read_field [OF assms(1), of "if b then 1 else 0" 1] assms(2) by (simp add: enc_flag_def)

lemma read_word:
  assumes "reader_ok r" "rd_stream r = enc_word v @ rest"
  shows "delivers (read_u32_bits r) v rest (rd_padding r)"
proof -
  have "take_bit 32 (ucast v :: u64) = ucast v" by (intro bit_word_eqI) (auto simp: bit_simps dest: bit_imp_le_length)
  with read_field [OF assms(1), of "ucast v" 32 rest] assms(2)
  have "delivers (read_bits r 32) (ucast v) rest (rd_padding r)" by (simp add: enc_word_def)
  moreover have "(ucast (ucast v :: u64) :: u32) = v" by (intro bit_word_eqI) (simp add: bit_simps)
  ultimately show ?thesis unfolding read_u32_bits_def
    by (elim delivers_bind) (auto intro!: deliversI)
qed

lemma read_words:
  "reader_ok r \<Longrightarrow> rd_stream r = concat (map enc_word vs) @ rest \<Longrightarrow>
    delivers (read_u32s (length vs) r) vs rest (rd_padding r)"
proof (induction vs arbitrary: r)
  case (Cons v vs)
  have "delivers (read_u32_bits r) v (concat (map enc_word vs) @ rest) (rd_padding r)"
    by (rule read_word [OF Cons.prems(1)]) (use Cons.prems(2) in simp)
  then show ?case unfolding list.size add_0_right add_Suc_right read_u32s.simps
    by (rule delivers_bind) (auto intro!: delivers_bind [OF Cons.IH] deliversI)
qed (auto intro: deliversI)

lemma read_counts:
  "reader_ok r \<Longrightarrow> rd_stream r = enc_counts vm cs ts @ rest \<Longrightarrow>
    \<forall>t\<in>set ts. if bit vm t then t < 45 else cs ! t = 0 \<Longrightarrow>
    delivers (read_row_counts flavor vm ts r) (map (\<lambda>t. cs ! t) ts) rest (rd_padding r)"
proof (induction ts arbitrary: r)
  case (Cons t ts)
  define step where "step = (if \<not> bit vm t then Inr (0, r)
     else if \<forall>s\<in>set (ms_tables (schema_of flavor)). ts_id s \<noteq> t
     then Inl (Malformed ''CLI metadata: unknown present table id'') else read_u32_bits r)"
  have known: "\<exists>s\<in>set (ms_tables (schema_of flavor)). ts_id s = t" if "t < 45"
  proof -
    have "t \<in> set (map ts_id metadata_tables)" unfolding conjunct1 [OF tables_wf] set_upt using that by simp
    moreover have "ms_tables (schema_of flavor) = metadata_tables" by (cases flavor) (simp_all add: schema_of_def)
    ultimately show ?thesis by auto
  qed
  have "delivers step (cs ! t) (enc_counts vm cs ts @ rest) (rd_padding r)"
  proof (cases "bit vm t")
    case True
    then have "t < 45" using Cons.prems(3) by simp
    then have "step = read_u32_bits r" using known True unfolding step_def by metis
    then show ?thesis using read_word [OF Cons.prems(1), of "cs ! t"] Cons.prems(2) True by simp
  next
    case False
    then show ?thesis using Cons.prems by (auto simp: step_def intro!: deliversI)
  qed
  then show ?case unfolding read_row_counts.simps step_def [symmetric] list.map
  proof (rule delivers_bind, unfold prod.case)
    fix r1 assume r1: "reader_ok r1" "rd_padding r1 = rd_padding r" "rd_stream r1 = enc_counts vm cs ts @ rest"
    have "delivers (read_row_counts flavor vm ts r1) (map (\<lambda>t. cs ! t) ts) rest (rd_padding r)"
      using Cons.IH [OF r1(1,3)] Cons.prems(3) r1(2) by simp
    then show "delivers (rbind (read_row_counts flavor vm ts r1) (\<lambda>(cs', r). Inr (cs ! t # cs', r)))
        (cs ! t # map (\<lambda>t. cs ! t) ts) rest (rd_padding r)"
      by (rule delivers_bind) (auto intro: deliversI)
  qed
qed (auto intro: deliversI)

lemma read_metadata_record_delivers:
  assumes r: "reader_ok r" and st: "rd_stream r = enc_record m @ rest" and m: "record_ok flavor m"
  shows "delivers (read_metadata_record flavor r) m rest (rd_padding r)"
proof (cases "mr_present m")
  case False
  then have "m = empty_record flavor" using record_ok_present [OF m] by simp
  moreover have "delivers (read_bits r 1) 0 rest (rd_padding r)"
    using read_flag [OF r, of False] st False by (simp add: enc_record_def)
  ultimately show ?thesis by (auto simp: read_metadata_record_def delivers_def)
next
  case True
  define hw where "hw = mr_heap_widths m"
  define tail where "tail = enc_counts (mr_valid_mask m) (mr_row_counts m) [0..<64] @ rest"
  have M: "widths_ok hw" "length (mr_row_counts m) = 64"
    "\<forall>t<64. if bit (mr_valid_mask m) t then t < 45 else mr_row_counts m ! t = 0"
    "build_metadata_record (record_of_words flavor (record_words m) hw (mr_valid_mask m) (mr_row_counts m)) = Inr m"
    using m True by (auto simp: record_ok_def empty_record_def hw_def)
  have hw: "\<lparr>hw_strings = heap_width_from_bit (if hw_strings hw = 4 then 1 else 0),
      hw_guid = heap_width_from_bit (if hw_guid hw = 4 then 1 else 0),
      hw_blob = heap_width_from_bit (if hw_blob hw = 4 then 1 else 0)\<rparr> = hw"
    using M(1) by (cases hw) (auto simp: widths_ok_def heap_width_from_bit_def)
  have s: "rd_stream r = enc_flag True @ concat (map enc_word (record_words m)) @ enc_flag (hw_strings hw = 4)
        @ enc_flag (hw_guid hw = 4) @ enc_flag (hw_blob hw = 4)
        @ word_bits (mr_valid_mask m) 64 @ tail"
    using st True by (simp add: enc_record_def hw_def tail_def del: upt_rec_numeral)
  obtain r1 where r1: "read_bits r 1 = Inr (1, r1)" "reader_ok r1" "rd_padding r1 = rd_padding r"
    "rd_stream r1 = concat (map enc_word (record_words m)) @ enc_flag (hw_strings hw = 4)
        @ enc_flag (hw_guid hw = 4) @ enc_flag (hw_blob hw = 4)
        @ word_bits (mr_valid_mask m) 64 @ tail"
    using read_flag [OF r s] by (auto simp: delivers_def)
  have fifteen: "length (record_words m) = 15" by (simp add: record_words_def Let_def)
  obtain r2 where r2: "read_u32s 15 r1 = Inr (record_words m, r2)" "reader_ok r2" "rd_padding r2 = rd_padding r"
    "rd_stream r2 = enc_flag (hw_strings hw = 4)
        @ enc_flag (hw_guid hw = 4) @ enc_flag (hw_blob hw = 4)
        @ word_bits (mr_valid_mask m) 64 @ tail"
    using read_words [OF r1(2,4)] r1(3) unfolding fifteen by (auto simp: delivers_def)
  obtain a3 r3 where r3: "read_bits r2 1 = Inr (a3, r3)" "a3 = (if hw_strings hw = 4 then 1 else 0)" "reader_ok r3"
    "rd_padding r3 = rd_padding r"
    "rd_stream r3 = enc_flag (hw_guid hw = 4) @ enc_flag (hw_blob hw = 4)
        @ word_bits (mr_valid_mask m) 64 @ tail"
    using read_flag [OF r2(2,4)] r2(3) by (auto simp: delivers_def)
  obtain a4 r4 where r4: "read_bits r3 1 = Inr (a4, r4)" "a4 = (if hw_guid hw = 4 then 1 else 0)" "reader_ok r4"
    "rd_padding r4 = rd_padding r"
    "rd_stream r4 = enc_flag (hw_blob hw = 4)
        @ word_bits (mr_valid_mask m) 64 @ tail"
    using read_flag [OF r3(3,5)] r3(4) by (auto simp: delivers_def)
  obtain a5 r5 where r5: "read_bits r4 1 = Inr (a5, r5)" "a5 = (if hw_blob hw = 4 then 1 else 0)" "reader_ok r5"
    "rd_padding r5 = rd_padding r"
    "rd_stream r5 = word_bits (mr_valid_mask m) 64 @ tail"
    using read_flag [OF r4(3,5)] r4(4) by (auto simp: delivers_def)
  have hw_read: "read_heap_widths r2 = Inr (hw, r5)"
    using hw r3(2) r4(2) r5(2)
    unfolding read_heap_widths_def r3(1) r4(1) r5(1) rbind_Inr prod.case by simp
  have "delivers (read_bits r5 64) (mr_valid_mask m)
      tail (rd_padding r5)"
    by (rule read_field [OF r5(3,5)]) (simp_all del: upt_rec_numeral, intro bit_word_eqI, simp add: bit_simps)
  then obtain r6 where r6: "read_bits r5 64 = Inr (mr_valid_mask m, r6)" "reader_ok r6" "rd_padding r6 = rd_padding r"
    "rd_stream r6 = tail"
    using r5(4) by (auto simp: delivers_def simp del: upt_rec_numeral)
  have all: "map (\<lambda>t. mr_row_counts m ! t) [0..<64] = mr_row_counts m" using M(2) by (metis map_nth)
  have "\<forall>t\<in>set [0..<64]. if bit (mr_valid_mask m) t then t < 45 else mr_row_counts m ! t = 0"
    using M(3) by (simp del: upt_rec_numeral)
  from read_counts [OF r6(2) r6(4) [unfolded tail_def] this, of flavor] obtain r7 where
    r7: "read_row_counts flavor (mr_valid_mask m) [0..<64] r6 = Inr (mr_row_counts m, r7)" "reader_ok r7"
      "rd_padding r7 = rd_padding r" "rd_stream r7 = rest"
    unfolding all r6(3) delivers_def by blast
  have "read_metadata_record flavor r = Inr (m, r7)"
    unfolding read_metadata_record_def r1(1) rbind_Inr prod.case
    by (simp add: r2(1) hw_read r6(1) r7(1) M(4) del: upt_rec_numeral)
  then show ?thesis using r7 by (simp add: delivers_def)
qed

interpretation target_record: bit_codec write_metadata_record "read_metadata_record flavor" "\<lambda>_. enc_record" "record_ok flavor"
  for flavor
proof (unfold_locales, goal_cases)
  case (3 r x n rest)
  then show ?case using read_metadata_record_delivers by blast
qed (use write_metadata_record_spec in blast)+

lemma enc_record_length: "record_ok flavor r \<Longrightarrow> length (enc_record r) \<le> 3000"
proof -
  have "length (enc_counts vm cs ts) \<le> 32 * length ts" for vm cs ts
    by (induction ts) (simp_all add: enc_word_def)
  from this [of "mr_valid_mask r" "mr_row_counts r" "[0..<64]"] show ?thesis
    by (simp add: enc_record_def enc_flag_def enc_word_def record_words_def Let_def del: upt_rec_numeral)
qed

section \<open>What the reader accepts\<close>

lemma read_u32s_length: "read_u32s n r = Inr (ws, r') \<Longrightarrow> length ws = n"
  by (induction n arbitrary: r ws r') (auto split: prod.splits)

lemma read_row_counts_length: "read_row_counts flavor vm ts r = Inr (cs, r') \<Longrightarrow> length cs = length ts"
  by (induction ts arbitrary: r cs r') (auto split: prod.splits)

lemma place_tables_placed:
  assumes "place_tables err limit base cs hw ts cursor = Inr (sizes, offs)"
  shows "length sizes = length ts \<and> length offs = length ts
    \<and> (\<forall>i<length ts. if cs ! (ts ! i) = 0 then sizes ! i = 0 \<and> offs ! i = None
        else \<exists>n c. row_size (ts ! i) cs hw = Some n \<and> sizes ! i = of_nat n \<and> offs ! i = Some (base + c)
               \<and> cursor \<le> c \<and> c + n * unat (cs ! (ts ! i)) \<le> limit)"
  using assms
proof (induction ts arbitrary: cursor sizes offs)
  case (Cons t ts)
  show ?case
  proof (cases "cs ! t = 0")
    case True
    then obtain sizes' offs' where o: "sizes = 0 # sizes'" "offs = None # offs'"
      and p: "place_tables err limit base cs hw ts cursor = Inr (sizes', offs')"
      using Cons.prems by (auto split: prod.splits)
    show ?thesis unfolding o using Cons.IH [OF p] True by (auto simp: less_Suc_eq_0_disj)
  next
    case False
    then obtain n sizes' offs' where n: "row_size t cs hw = Some n" "cursor + n * unat (cs ! t) \<le> limit"
      and o: "sizes = of_nat n # sizes'" "offs = Some (base + cursor) # offs'"
      and p: "place_tables err limit base cs hw ts (cursor + n * unat (cs ! t)) = Inr (sizes', offs')"
      using Cons.prems by (auto simp: Let_def or_err_def split: prod.splits option.splits if_splits)
    have at: "if cs ! ((t # ts) ! i) = 0 then sizes ! i = 0 \<and> offs ! i = None
        else \<exists>n c. row_size ((t # ts) ! i) cs hw = Some n \<and> sizes ! i = of_nat n \<and> offs ! i = Some (base + c)
               \<and> cursor \<le> c \<and> c + n * unat (cs ! ((t # ts) ! i)) \<le> limit" if i: "i < length (t # ts)" for i
    proof (cases i)
      case 0
      then show ?thesis using False n o by auto
    next
      case (Suc j)
      then have "j < length ts" using i by simp
      with Cons.IH [OF p] have "if cs ! (ts ! j) = 0 then sizes' ! j = 0 \<and> offs' ! j = None
        else \<exists>m c. row_size (ts ! j) cs hw = Some m \<and> sizes' ! j = of_nat m \<and> offs' ! j = Some (base + c)
               \<and> cursor + n * unat (cs ! t) \<le> c \<and> c + m * unat (cs ! (ts ! j)) \<le> limit" by blast
      then show ?thesis unfolding o Suc by (auto split: if_splits intro: add_leD1)
    qed
    show ?thesis
    proof (intro conjI allI impI, goal_cases)
      case (3 i)
      then show ?case by (intro at) simp
    qed (use o Cons.IH [OF p] in simp_all)
  qed
qed simp


lemma place_tables_empty:
  "\<forall>t\<in>set ts. cs ! t = 0 \<Longrightarrow> place_tables err limit base cs hw ts cursor
    = Inr (replicate (length ts) 0, replicate (length ts) None)"
  by (induction ts) simp_all

lemma checked_add32_sum: "checked_add32 a b = Some c \<Longrightarrow> unat c = unat a + unat b"
  by (auto simp: checked_add32_def unat_word_ariths split: if_splits)

lemma validate_file_range_inside:
  "validate_file_range start extent off sz = Inr u \<Longrightarrow>
    start \<le> off \<and> unat off + unat sz \<le> unat start + unat extent"
  by (auto simp: validate_file_range_def or_err_def not_less word_le_nat_alt dest!: checked_add32_sum
      split: option.splits if_splits)

text \<open>
  C34. A record that \<open>read_cli_metadata_bitstream\<close> accepts is well formed, whatever the bytes: it has
  64 row counts, and every table with rows has a known schema, its row size is the schema's,
  and its rows lie behind the header of the tables stream, inside that stream, which is inside
  the metadata.
\<close>

theorem accepted_record_placed:
  assumes "read_metadata_record flavor r = Inr (m, r')" "mr_present m"
  shows "mr_flavor m = flavor \<and> length (mr_row_counts m) = 64 \<and> length (mr_row_sizes m) = 64
    \<and> length (mr_table_offsets m) = 64
    \<and> mr_file_offset m \<le> sl_file_offset (ss_tables (mr_streams m))
    \<and> unat (sl_file_offset (ss_tables (mr_streams m))) + unat (sl_size (ss_tables (mr_streams m)))
        \<le> unat (mr_file_offset m) + unat (mr_size m)
    \<and> (\<forall>t<64. if mr_row_counts m ! t = 0 then mr_row_sizes m ! t = 0 \<and> mr_table_offsets m ! t = None
        else \<exists>n off. row_size t (mr_row_counts m) (mr_heap_widths m) = Some n
               \<and> mr_row_sizes m ! t = of_nat n \<and> mr_table_offsets m ! t = Some off
               \<and> unat (sl_file_offset (ss_tables (mr_streams m))) + 24 \<le> off
               \<and> off + n * unat (mr_row_counts m ! t)
                   \<le> unat (sl_file_offset (ss_tables (mr_streams m))) + unat (sl_size (ss_tables (mr_streams m))))"
proof -
  obtain p r0 where p: "read_bits r 1 = Inr (p, r0)" "p \<noteq> 0"
    using assms by (auto simp: read_metadata_record_def empty_record_def split: if_splits)
  then obtain ws hw vm cs r1 r2 where cs: "read_row_counts flavor vm [0..<64] r1 = Inr (cs, r2)"
    and b: "build_metadata_record (record_of_words flavor ws hw vm cs) = Inr m"
    using assms(1) unfolding read_metadata_record_def by (auto simp del: upt_rec_numeral)
  define R where "R = record_of_words flavor ws hw vm cs"
  have R: "mr_flavor R = flavor" "mr_row_counts R = cs" "mr_heap_widths R = hw"
    by (simp_all add: R_def record_of_words_def)
  have l: "length cs = 64" using read_row_counts_length [OF cs] by simp
  obtain sizes offs u where m: "m = R\<lparr>mr_row_sizes := sizes, mr_table_offsets := offs\<rparr>"
    and v: "validate_file_range (mr_file_offset R) (mr_size R) (sl_file_offset (ss_tables (mr_streams R)))
        (sl_size (ss_tables (mr_streams R))) = Inr u"
    and t: "place_tables (Malformed ''CLI metadata: table stream is too small'')
        (unat (sl_size (ss_tables (mr_streams R)))) (unat (sl_file_offset (ss_tables (mr_streams R)))) cs hw [0..<64]
        (24 + 4 * present_tables (mr_valid_mask R)) = Inr (sizes, offs)"
    using b unfolding R_def [symmetric] build_metadata_record_def Let_def R
    by (auto split: if_splits simp del: upt_rec_numeral)
  note P = place_tables_placed [OF t]
  have at: "if cs ! i = 0 then sizes ! i = 0 \<and> offs ! i = None
        else \<exists>n off. row_size i cs hw = Some n \<and> sizes ! i = of_nat n \<and> offs ! i = Some off
               \<and> unat (sl_file_offset (ss_tables (mr_streams R))) + 24 \<le> off
               \<and> off + n * unat (cs ! i)
                   \<le> unat (sl_file_offset (ss_tables (mr_streams R))) + unat (sl_size (ss_tables (mr_streams R)))"
    if i: "i < 64" for i
  proof -
    have e: "[0..<64] ! i = i" using nth_upt [of 0 i 64] i by (simp del: upt_rec_numeral)
    from P i have "if cs ! i = 0 then sizes ! i = 0 \<and> offs ! i = None
        else \<exists>n c. row_size i cs hw = Some n \<and> sizes ! i = of_nat n
               \<and> offs ! i = Some (unat (sl_file_offset (ss_tables (mr_streams R))) + c)
               \<and> 24 + 4 * present_tables (mr_valid_mask R) \<le> c
               \<and> c + n * unat (cs ! i) \<le> unat (sl_size (ss_tables (mr_streams R)))"
      by (metis e length_upt diff_zero)
    then show ?thesis by (auto split: if_splits simp: add.assoc)
  qed
  have sel: "mr_flavor m = flavor" "mr_row_counts m = cs" "mr_heap_widths m = hw" "mr_row_sizes m = sizes"
    "mr_table_offsets m = offs" "mr_streams m = mr_streams R" "mr_file_offset m = mr_file_offset R" "mr_size m = mr_size R"
    using R by (simp_all add: m)
  show ?thesis unfolding sel
  proof (intro conjI allI impI, goal_cases)
    case (7 t)
    then show ?case by (rule at)
  qed (use l P validate_file_range_inside [OF v] in simp_all)
qed

theorem accepted_record_placed_witness:
  "\<exists>r r' m. read_metadata_record Classic r = Inr (m, r') \<and> mr_row_sizes m ! 0 = 10
    \<and> mr_table_offsets m ! 0 = Some 0x25c"
proof -
  define counts :: "u32 list" where "counts = 1 # replicate 63 0"
  define ws :: "u32 list" where
    "ws = [0x200, 0x100, 0x2000, 1, 0x220, 0, 0, 0, 0, 0, 0, 0, 0, 0x240, 0x40]"
  define hw where "hw = \<lparr>hw_strings = 2, hw_guid = 2, hw_blob = 2\<rparr>"
  define m where "m = (record_of_words Classic ws hw 1 counts)
    \<lparr>mr_row_sizes := 10 # replicate 63 0, mr_table_offsets := Some 0x25c # replicate 63 None\<rparr>"
  have size: "row_size 0 counts hw = Some 10" unfolding counts_def hw_def by code_simp
  have one: "present_tables 1 = 1" by code_simp
  have none: "\<forall>t\<in>set [1..<64]. counts ! t = 0" by (auto simp: counts_def nth_Cons')
  have "place_tables (Malformed ''CLI metadata: table stream is too small'') 64 0x240 counts hw [1..<64] 38
      = Inr (replicate 63 0, replicate 63 None)"
    using place_tables_empty [of "[1..<64]" counts] none by simp
  then have "place_tables (Malformed ''CLI metadata: table stream is too small'') 64 0x240 counts hw [0..<64] 28
      = Inr (10 # replicate 63 0, Some 0x25c # replicate 63 None)"
    using size by (subst upt_conv_Cons) (simp_all add: or_err_def counts_def del: upt_rec_numeral)
  then have b: "build_metadata_record (record_of_words Classic ws hw 1 counts) = Inr m"
    by (simp add: build_metadata_record_def record_of_words_def Let_def ws_def m_def one validate_file_range_def
        checked_add32_def or_err_def del: upt_rec_numeral)
  have w: "record_words m = ws" "mr_heap_widths m = hw" "mr_valid_mask m = 1" "mr_row_counts m = counts"
    by (simp_all add: m_def record_of_words_def record_words_def ws_def Let_def)
  have c: "length counts = 64" "\<forall>t<64. if bit (1 :: u64) t then t < 45 else counts ! t = 0"
    by (auto simp: counts_def nth_Cons bit_1_iff split: nat.splits)
  have v: "record_ok Classic m" unfolding record_ok_def w using b c by (simp add: hw_def widths_ok_def)
  have "length (enc_record m) < 2 ^ 31" using enc_record_length [OF v] by simp
  from target_record.round_trip [OF v this] obtain r r' where r: "read_metadata_record Classic r = Inr (m, r')" by blast
  have "mr_present m" by (simp add: m_def record_of_words_def)
  note P = accepted_record_placed [OF r this]
  have "mr_row_sizes m ! 0 = 10" "mr_table_offsets m ! 0 = Some 0x25c" by (simp_all add: m_def)
  with P r show ?thesis by blast
qed

end
