(* ===== verification/CliMap.thy ===== *)
theory CliMap imports CliSchema RiftCodec begin

text \<open>
  The CLI map, \<open>src/pe/cli/map.rs\<close>: one rift table per heap and one per metadata table, its form
  in the preprocess stream, and the remapping of coded tokens through the row-id maps.
\<close>

section \<open>The model\<close>

record cli_map =
  cm_strings :: rift_table
  cm_user_strings :: rift_table
  cm_blob :: rift_table
  cm_guid :: rift_table
  cm_tables :: "rift_table list"

definition empty_cli_map :: cli_map where
  "empty_cli_map = \<lparr>cm_strings = [], cm_user_strings = [], cm_blob = [], cm_guid = [],
     cm_tables = replicate 64 []\<rparr>"

definition cli_map_is_empty :: "cli_map \<Rightarrow> bool" where
  "cli_map_is_empty m \<longleftrightarrow> cm_strings m = [] \<and> cm_user_strings m = [] \<and> cm_blob m = [] \<and> cm_guid m = []
     \<and> list_all (\<lambda>t. t = []) (cm_tables m)"

section \<open>The bit stream\<close>

fun read_rifts :: "int_format \<Rightarrow> int_format \<Rightarrow> nat \<Rightarrow> bit_reader \<Rightarrow> (rift_table list \<times> bit_reader) result" where
  "read_rifts fs fd 0 r = Inr ([], r)"
| "read_rifts fs fd (Suc n) r =
     rbind (rift_from_reader_with_formats fs fd r) (\<lambda>(t, r).
     rbind (read_rifts fs fd n r) (\<lambda>(ts, r). Inr (t # ts, r)))"

definition read_cli_map :: "bit_reader \<Rightarrow> (cli_map \<times> bit_reader) result" where
  "read_cli_map r =
     rbind (read_bits r 1) (\<lambda>(present, r).
       if present = 0 then Inr (empty_cli_map, r)
       else
         rbind (int_format_from_reader r) (\<lambda>(heap_src, r).
         rbind (int_format_from_reader r) (\<lambda>(heap_dst, r).
         rbind (int_format_from_reader r) (\<lambda>(table_src, r).
         rbind (int_format_from_reader r) (\<lambda>(table_dst, r).
         rbind (rift_from_reader_with_formats heap_src heap_dst r) (\<lambda>(strings, r).
         rbind (rift_from_reader_with_formats heap_src heap_dst r) (\<lambda>(user_strings, r).
         rbind (rift_from_reader_with_formats heap_src heap_dst r) (\<lambda>(blob, r).
         rbind (rift_from_reader_with_formats table_src table_dst r) (\<lambda>(guid, r).
         rbind (read_rifts table_src table_dst 64 r) (\<lambda>(tables, r).
           Inr (\<lparr>cm_strings = strings, cm_user_strings = user_strings, cm_blob = blob, cm_guid = guid,
                 cm_tables = tables\<rparr>, r)))))))))))"

definition rift_deltas :: "rift_table list \<Rightarrow> (i64 \<times> i64) list" where
  "rift_deltas ts = concat (map (entry_deltas 0 0) ts)"

definition write_cli_map :: "bit_writer \<Rightarrow> cli_map \<Rightarrow> bit_writer result" where
  "write_cli_map w m =
     (if cli_map_is_empty m then Inr (write_bits w 0 1)
      else
        let w = write_bits w 1 1;
            heap_deltas = rift_deltas [cm_strings m, cm_user_strings m, cm_blob m];
            table_deltas = rift_deltas (cm_guid m # cm_tables m)
        in rbind (int_format_from_values (map fst heap_deltas)) (\<lambda>heap_src.
           rbind (int_format_from_values (map snd heap_deltas)) (\<lambda>heap_dst.
           rbind (int_format_from_values (map fst table_deltas)) (\<lambda>table_src.
           rbind (int_format_from_values (map snd table_deltas)) (\<lambda>table_dst.
             let w = int_format_to_writer heap_src w;
                 w = int_format_to_writer heap_dst w;
                 w = int_format_to_writer table_src w;
                 w = int_format_to_writer table_dst w;
                 w = rift_to_writer_with_formats heap_src heap_dst w (cm_strings m);
                 w = rift_to_writer_with_formats heap_src heap_dst w (cm_user_strings m);
                 w = rift_to_writer_with_formats heap_src heap_dst w (cm_blob m);
                 w = rift_to_writer_with_formats table_src table_dst w (cm_guid m)
             in Inr (foldl (rift_to_writer_with_formats table_src table_dst) w (cm_tables m)))))))"

section \<open>Row-id maps\<close>

text \<open>Sorted by source; of equal sources the last entry wins.\<close>

definition replace_last :: "rift_table \<Rightarrow> rift_entry \<Rightarrow> rift_table" where
  "replace_last es e =
     (if es \<noteq> [] \<and> re_source (last es) = re_source e then butlast es @ [e] else es @ [e])"

definition rid_map_from_entries :: "rift_table \<Rightarrow> rift_table" where
  "rid_map_from_entries es = foldl replace_last [] (rift_sort es)"

definition rid_map_new :: "u32 list \<Rightarrow> rift_table" where
  "rid_map_new rids = rid_map_from_entries
     (map (\<lambda>(i, t). \<lparr>re_source = of_nat i + 1, re_target = ucast t\<rparr>) (enumerate 0 rids))"

definition map_rid_wide :: "rift_table \<Rightarrow> i64 \<Rightarrow> i64" where
  "map_rid_wide es rid =
     (if es = [] then rid
      else
        let e = (case binary_search (map src es) (sint rid) of
                   Inr i \<Rightarrow> es ! i | Inl 0 \<Rightarrow> last es | Inl (Suc i) \<Rightarrow> es ! i)
        in rid + (re_target e - re_source e))"

definition map_rid :: "rift_table \<Rightarrow> u32 \<Rightarrow> u32" where
  "map_rid es rid = (if es = [] then rid else ucast (map_rid_wide es (ucast rid)))"

definition map_rid_exact :: "rift_table \<Rightarrow> u32 \<Rightarrow> u32 option" where
  "map_rid_exact es rid =
     (if es = [] then None
      else case binary_search (map src es) (sint (ucast rid :: i64)) of
             Inr i \<Rightarrow> Some (ucast (re_target (es ! i)))
           | Inl _ \<Rightarrow> None)"

section \<open>Coded tokens\<close>

datatype coded_error =
    InvalidTag coded_kind u32
  | InvalidTableId nat
  | InvalidMappedRid nat u32 u32
  | MappedRidOutOfRange nat u32 i64
  | InvalidRidMapEntry nat i64 i64
  | RidOverflow coded_kind nat u32 nat
  | ReassemblyOverflow coded_kind nat u32 u32

type_synonym 'a map_result = "coded_error + 'a"

type_synonym coded_token_map = "rift_table option list"

record coded_token =
  ct_kind :: coded_kind
  ct_table :: nat
  ct_tag :: u32
  ct_rid :: u32

definition new_token_map :: coded_token_map where
  "new_token_map = replicate 64 None"

definition set_table_map :: "coded_token_map \<Rightarrow> nat \<Rightarrow> rift_table \<Rightarrow> coded_token_map map_result" where
  "set_table_map m t rids =
     (if schema_of_table t = None then Inl (InvalidTableId t) else Inr (m[t := Some rids]))"

fun add_table_maps :: "nat \<Rightarrow> rift_table list \<Rightarrow> coded_token_map \<Rightarrow> coded_token_map map_result" where
  "add_table_maps t [] m = Inr m"
| "add_table_maps t (rift # rifts) m =
     (if rift = [] \<or> schema_of_table t = None then add_table_maps (t + 1) rifts m
      else rbind (set_table_map m t (rid_map_from_entries rift)) (add_table_maps (t + 1) rifts))"

definition coded_token_map :: "cli_map \<Rightarrow> coded_token_map map_result" where
  "coded_token_map m = add_table_maps 0 (cm_tables m) new_token_map"

abbreviation tag_mask :: "coded_kind \<Rightarrow> u32" where
  "tag_mask kind \<equiv> mask (cs_tag_bits (coded_index_schema kind))"

definition split_native :: "u32 \<Rightarrow> coded_kind \<Rightarrow> coded_token option" where
  "split_native raw kind =
     (let schema = coded_index_schema kind;
          tag = raw AND tag_mask kind
      in if unat tag < length (cs_tag_to_table schema)
         then Some \<lparr>ct_kind = kind, ct_table = cs_tag_to_table schema ! unat tag, ct_tag = tag,
                    ct_rid = drop_bit (cs_tag_bits schema) raw\<rparr>
         else None)"

definition split_coded_token :: "u32 \<Rightarrow> coded_kind \<Rightarrow> coded_token map_result" where
  "split_coded_token raw kind =
     (case split_native raw kind of
        None \<Rightarrow> Inl (InvalidTag kind (raw AND tag_mask kind)) | Some t \<Rightarrow> Inr t)"

definition reassemble_native :: "coded_kind \<Rightarrow> u32 \<Rightarrow> u32 \<Rightarrow> u32" where
  "reassemble_native kind tag rid = push_bit (cs_tag_bits (coded_index_schema kind)) rid OR tag"

definition reassemble_coded_token :: "coded_kind \<Rightarrow> nat \<Rightarrow> u32 \<Rightarrow> u32 \<Rightarrow> u32 map_result" where
  "reassemble_coded_token kind t tag rid =
     (let schema = coded_index_schema kind;
          expected = (if unat tag < length (cs_tag_to_table schema) then Some (cs_tag_to_table schema ! unat tag) else None);
          known = (case expected of None \<Rightarrow> False | Some e \<Rightarrow> e = table_sentinel \<or> schema_of_table e \<noteq> None);
          shifted = push_bit (cs_tag_bits schema) rid
      in if \<not> known \<or> expected \<noteq> Some t then Inl (InvalidTag kind tag)
         else if drop_bit (cs_tag_bits schema) (- 1) < rid then Inl (RidOverflow kind t rid (cs_tag_bits schema))
         else if t = table_sentinel then Inr (shifted + tag)
         else case checked_add32 shifted tag of
                None \<Rightarrow> Inl (ReassemblyOverflow kind t rid tag) | Some v \<Rightarrow> Inr v)"

definition map_coded_token :: "coded_token_map \<Rightarrow> u32 \<Rightarrow> coded_kind \<Rightarrow> u32 map_result" where
  "map_coded_token m raw kind =
     (case split_native raw kind of None \<Rightarrow> Inr raw
      | Some t \<Rightarrow>
          if ct_table t = table_sentinel then Inr raw
          else case m ! ct_table t of None \<Rightarrow> Inr raw
               | Some rids \<Rightarrow> Inr (reassemble_native (ct_kind t) (ct_tag t) (map_rid rids (ct_rid t))))"

definition map_coded_token_exact :: "coded_token_map \<Rightarrow> u32 \<Rightarrow> coded_kind \<Rightarrow> u32 map_result" where
  "map_coded_token_exact m raw kind =
     (let miss = - 1
      in case split_native raw kind of None \<Rightarrow> Inr miss
         | Some t \<Rightarrow>
             if ct_table t = table_sentinel then Inr miss
             else case m ! ct_table t of None \<Rightarrow> Inr miss
                  | Some rids \<Rightarrow>
                      (case map_rid_exact rids (ct_rid t) of None \<Rightarrow> Inr miss
                       | Some rid \<Rightarrow>
                           if rid = miss then Inr miss else Inr (reassemble_native (ct_kind t) (ct_tag t) rid)))"

section \<open>The map on the bit stream\<close>

definition cli_map_ok :: "cli_map \<Rightarrow> bool" where
  "cli_map_ok m \<longleftrightarrow> rift_ok (cm_strings m) \<and> rift_ok (cm_user_strings m) \<and> rift_ok (cm_blob m)
     \<and> rift_ok (cm_guid m) \<and> list_all rift_ok (cm_tables m) \<and> length (cm_tables m) = 64"

definition map_formats :: "(i64 \<times> i64) list \<Rightarrow> int_format \<times> int_format" where
  "map_formats ds = (projr (int_format_from_values (map fst ds)), projr (int_format_from_values (map snd ds)))"

definition enc_cli_map :: "cli_map \<Rightarrow> bool list" where
  "enc_cli_map m =
     (if cli_map_is_empty m then word_bits (0 :: u64) 1
      else case map_formats (rift_deltas [cm_strings m, cm_user_strings m, cm_blob m]) of (hs, he) \<Rightarrow>
           case map_formats (rift_deltas (cm_guid m # cm_tables m)) of (ts, td) \<Rightarrow>
             word_bits (1 :: u64) 1 @ enc_int_format hs @ enc_int_format he @ enc_int_format ts @ enc_int_format td
             @ enc_rift_body hs he (cm_strings m) @ enc_rift_body hs he (cm_user_strings m)
             @ enc_rift_body hs he (cm_blob m) @ enc_rift_body ts td (cm_guid m)
             @ concat (map (enc_rift_body ts td) (cm_tables m)))"

lemma map_formats_ok:
  assumes "map_formats ds = (fs, fd)"
  shows "int_format_ok fs" "int_format_ok fd"
    "int_format_from_values (map fst ds) = Inr fs" "int_format_from_values (map snd ds) = Inr fd"
  using int_format_from_values_ok [of "map fst ds"] int_format_from_values_ok [of "map snd ds"] assms
  by (auto simp: map_formats_def)

lemma rift_body_delivers:
  assumes "int_format_ok fs" "int_format_ok fd" "rift_ok es" "reader_ok r"
    "rd_stream r = enc_rift_body fs fd es @ rest" "rd_padding r \<le> length rest"
  shows "delivers (rift_from_reader_with_formats fs fd r) es rest (rd_padding r)"
proof -
  have "8 dvd align_len (length (rd_stream r)) + length (rd_stream r)"
    using align_len(2) [of "length (rd_stream r)"] by (simp add: add.commute)
  from rift_with_formats_delivers [OF assms(1-5) this assms(6)] show ?thesis .
qed

lemma read_rifts_delivers:
  "int_format_ok fs \<Longrightarrow> int_format_ok fd \<Longrightarrow> list_all rift_ok ts \<Longrightarrow> reader_ok r \<Longrightarrow>
    rd_stream r = concat (map (enc_rift_body fs fd) ts) @ rest \<Longrightarrow> rd_padding r \<le> length rest \<Longrightarrow>
    delivers (read_rifts fs fd (length ts) r) ts rest (rd_padding r)"
proof (induction ts arbitrary: r)
  case (Cons t ts)
  have "delivers (rift_from_reader_with_formats fs fd r) t (concat (map (enc_rift_body fs fd) ts) @ rest) (rd_padding r)"
    by (rule rift_body_delivers) (use Cons.prems in auto)
  then show ?case unfolding list.size add_0_right add_Suc_right read_rifts.simps
  proof (rule delivers_bind, unfold prod.case)
    fix r1 assume r1: "reader_ok r1" "rd_padding r1 = rd_padding r"
      "rd_stream r1 = concat (map (enc_rift_body fs fd) ts) @ rest"
    have "delivers (read_rifts fs fd (length ts) r1) ts rest (rd_padding r)"
      using Cons.IH [OF Cons.prems(1,2) _ r1(1,3)] Cons.prems(3,6) r1(2) by simp
    then show "delivers (rbind (read_rifts fs fd (length ts) r1) (\<lambda>(ts, r). Inr (t # ts, r))) (t # ts) rest (rd_padding r)"
      by (rule delivers_bind) (auto intro: deliversI)
  qed
qed (auto intro: deliversI)

lemma write_rifts_spec:
  assumes "int_format_ok fs" "int_format_ok fd"
  shows "writer_ok w \<Longrightarrow> list_all rift_ok ts \<Longrightarrow>
    writer_ok (foldl (rift_to_writer_with_formats fs fd) w ts)
    \<and> wr_stream (foldl (rift_to_writer_with_formats fs fd) w ts) = wr_stream w @ concat (map (enc_rift_body fs fd) ts)"
proof (induction ts arbitrary: w)
  case (Cons t ts)
  then show ?case using rift_body.put_ok [of w fs fd t] rift_body.put_enc [of w fs fd t] assms by simp
qed simp

lemma empty_map_unique: "cli_map_ok m \<Longrightarrow> cli_map_is_empty m \<Longrightarrow> m = empty_cli_map"
  by (cases m)
    (auto simp: cli_map_is_empty_def empty_cli_map_def cli_map_ok_def list_all_iff intro!: replicate_eqI)

lemma write_cli_map_spec:
  assumes w: "writer_ok w" and m: "cli_map_ok m"
  shows "\<exists>w'. write_cli_map w m = Inr w' \<and> writer_ok w' \<and> wr_stream w' = wr_stream w @ enc_cli_map m"
proof (cases "cli_map_is_empty m")
  case True
  then show ?thesis using w by (simp add: write_cli_map_def enc_cli_map_def write_bits_spec)
next
  case False
  obtain hs he where h: "map_formats (rift_deltas [cm_strings m, cm_user_strings m, cm_blob m]) = (hs, he)"
    by (metis prod.exhaust)
  obtain ts td where t: "map_formats (rift_deltas (cm_guid m # cm_tables m)) = (ts, td)" by (metis prod.exhaust)
  note H = map_formats_ok [OF h] and T = map_formats_ok [OF t]
  have M: "rift_ok (cm_strings m)" "rift_ok (cm_user_strings m)" "rift_ok (cm_blob m)" "rift_ok (cm_guid m)"
    "list_all rift_ok (cm_tables m)" using m by (simp_all add: cli_map_ok_def)
  have w1: "writer_ok (write_bits w 1 1)" "wr_stream (write_bits w 1 1) = wr_stream w @ word_bits (1 :: u64) 1"
    using w by (simp_all add: write_bits_spec)
  define w5 where "w5 = int_format_to_writer td (int_format_to_writer ts (int_format_to_writer he
    (int_format_to_writer hs (write_bits w 1 1))))"
  have w5: "writer_ok w5" "wr_stream w5 = wr_stream w @ word_bits (1 :: u64) 1 @ enc_int_format hs @ enc_int_format he
      @ enc_int_format ts @ enc_int_format td"
    unfolding w5_def by (simp_all add: int_format_to_writer_spec H(1,2) T(1,2) w1 del: One_nat_def)
  note R = write_rifts_spec [OF H(1,2) w5(1), of "[cm_strings m, cm_user_strings m, cm_blob m]"]
  define w8 where "w8 = foldl (rift_to_writer_with_formats hs he) w5 [cm_strings m, cm_user_strings m, cm_blob m]"
  note S = write_rifts_spec [OF T(1,2), of w8 "cm_guid m # cm_tables m"]
  show ?thesis using False h t H(3,4) T(3,4) R S M w5(2)
    by (simp add: write_cli_map_def enc_cli_map_def Let_def w8_def del: One_nat_def flip: w5_def)
qed

lemma read_cli_map_delivers:
  assumes m: "cli_map_ok m" and r: "reader_ok r" and st: "rd_stream r = enc_cli_map m @ rest"
    and pad: "rd_padding r \<le> length rest"
  shows "delivers (read_cli_map r) m rest (rd_padding r)"
proof (cases "cli_map_is_empty m")
  case True
  have "delivers (read_bits r 1) 0 rest (rd_padding r)"
    using read_field [OF r, of 0 1] st True by (simp add: enc_cli_map_def)
  then show ?thesis using empty_map_unique [OF m True] by (auto simp: read_cli_map_def delivers_def)
next
  case False
  obtain hs he where h: "map_formats (rift_deltas [cm_strings m, cm_user_strings m, cm_blob m]) = (hs, he)"
    by (metis prod.exhaust)
  obtain ts td where t: "map_formats (rift_deltas (cm_guid m # cm_tables m)) = (ts, td)" by (metis prod.exhaust)
  note H = map_formats_ok [OF h] and T = map_formats_ok [OF t]
  have M: "rift_ok (cm_strings m)" "rift_ok (cm_user_strings m)" "rift_ok (cm_blob m)" "rift_ok (cm_guid m)"
    "list_all rift_ok (cm_tables m)" "length (cm_tables m) = 64" using m by (simp_all add: cli_map_ok_def)
  let ?body = "enc_rift_body hs he (cm_strings m) @ enc_rift_body hs he (cm_user_strings m)
             @ enc_rift_body hs he (cm_blob m) @ enc_rift_body ts td (cm_guid m)
             @ concat (map (enc_rift_body ts td) (cm_tables m)) @ rest"
  have st': "rd_stream r = word_bits (1 :: u64) 1 @ enc_int_format hs @ enc_int_format he @ enc_int_format ts
      @ enc_int_format td @ ?body" using st False h t by (simp add: enc_cli_map_def)
  have one: "take_bit 1 (1 :: u64) = 1" by (simp add: take_bit_eq_mask mask_eq_exp_minus_1)
  obtain r1 where r1: "read_bits r 1 = Inr (1, r1)" "reader_ok r1" "rd_padding r1 = rd_padding r"
    "rd_stream r1 = enc_int_format hs @ enc_int_format he @ enc_int_format ts @ enc_int_format td @ ?body"
    using read_field [OF r st' _ one] by (auto simp: delivers_def)
  obtain r2 where r2: "int_format_from_reader r1 = Inr (hs, r2)" "reader_ok r2" "rd_padding r2 = rd_padding r"
    "rd_stream r2 = enc_int_format he @ enc_int_format ts @ enc_int_format td @ ?body"
    using int_format_from_reader_delivers [OF r1(2) H(1) r1(4)] r1(3) by (auto simp: delivers_def)
  obtain r3 where r3: "int_format_from_reader r2 = Inr (he, r3)" "reader_ok r3" "rd_padding r3 = rd_padding r"
    "rd_stream r3 = enc_int_format ts @ enc_int_format td @ ?body"
    using int_format_from_reader_delivers [OF r2(2) H(2) r2(4)] r2(3) by (auto simp: delivers_def)
  obtain r4 where r4: "int_format_from_reader r3 = Inr (ts, r4)" "reader_ok r4" "rd_padding r4 = rd_padding r"
    "rd_stream r4 = enc_int_format td @ ?body"
    using int_format_from_reader_delivers [OF r3(2) T(1) r3(4)] r3(3) by (auto simp: delivers_def)
  obtain r5 where r5: "int_format_from_reader r4 = Inr (td, r5)" "reader_ok r5" "rd_padding r5 = rd_padding r"
    "rd_stream r5 = ?body"
    using int_format_from_reader_delivers [OF r4(2) T(2) r4(4)] r4(3) by (auto simp: delivers_def)
  obtain r6 where r6: "rift_from_reader_with_formats hs he r5 = Inr (cm_strings m, r6)" "reader_ok r6"
    "rd_padding r6 = rd_padding r" "rd_stream r6 = enc_rift_body hs he (cm_user_strings m)
             @ enc_rift_body hs he (cm_blob m) @ enc_rift_body ts td (cm_guid m)
             @ concat (map (enc_rift_body ts td) (cm_tables m)) @ rest"
    using rift_body_delivers [OF H(1,2) M(1) r5(2,4)] pad r5(3) by (auto simp: delivers_def)
  obtain r7 where r7: "rift_from_reader_with_formats hs he r6 = Inr (cm_user_strings m, r7)" "reader_ok r7"
    "rd_padding r7 = rd_padding r" "rd_stream r7 = enc_rift_body hs he (cm_blob m) @ enc_rift_body ts td (cm_guid m)
             @ concat (map (enc_rift_body ts td) (cm_tables m)) @ rest"
    using rift_body_delivers [OF H(1,2) M(2) r6(2,4)] pad r6(3) by (auto simp: delivers_def)
  obtain r8 where r8: "rift_from_reader_with_formats hs he r7 = Inr (cm_blob m, r8)" "reader_ok r8"
    "rd_padding r8 = rd_padding r" "rd_stream r8 = enc_rift_body ts td (cm_guid m)
             @ concat (map (enc_rift_body ts td) (cm_tables m)) @ rest"
    using rift_body_delivers [OF H(1,2) M(3) r7(2,4)] pad r7(3) by (auto simp: delivers_def)
  obtain r9 where r9: "rift_from_reader_with_formats ts td r8 = Inr (cm_guid m, r9)" "reader_ok r9"
    "rd_padding r9 = rd_padding r" "rd_stream r9 = concat (map (enc_rift_body ts td) (cm_tables m)) @ rest"
    using rift_body_delivers [OF T(1,2) M(4) r8(2,4)] pad r8(3) by (auto simp: delivers_def)
  obtain r10 where r10: "read_rifts ts td 64 r9 = Inr (cm_tables m, r10)" "reader_ok r10"
    "rd_padding r10 = rd_padding r" "rd_stream r10 = rest"
    using read_rifts_delivers [OF T(1,2) M(5) r9(2,4)] pad r9(3) M(6) by (auto simp: delivers_def)
  have "read_cli_map r = Inr (m, r10)"
    unfolding read_cli_map_def r1(1) rbind_Inr prod.case
    by (simp add: r2(1) r3(1) r4(1) r5(1) r6(1) r7(1) r8(1) r9(1) r10(1))
  then show ?thesis using r10 by (simp add: delivers_def)
qed

interpretation cli_map_codec: bit_codec "\<lambda>w m. projr (write_cli_map w m)" read_cli_map "\<lambda>_. enc_cli_map" cli_map_ok
proof (unfold_locales, goal_cases)
  case (1 w m)
  then show ?case using write_cli_map_spec [of w m] by auto
next
  case (2 w m)
  then show ?case using write_cli_map_spec [of w m] by auto
next
  case (3 r m n rest)
  then show ?case using read_cli_map_delivers by blast
qed

definition map_entries :: "cli_map \<Rightarrow> nat" where
  "map_entries m = length (cm_strings m) + length (cm_user_strings m) + length (cm_blob m) + length (cm_guid m)
     + sum_list (map length (cm_tables m))"

lemma enc_rift_body_length:
  assumes "int_format_ok fs" "int_format_ok fd"
  shows "length (enc_rift_body fs fd es) \<le> 80 + 154 * length es"
proof -
  have "length (enc_deltas fs fd ds) \<le> 154 * length ds" for ds
  proof (induction ds)
    case (Cons d ds)
    then show ?case
      using enc_number_length [OF assms(1), of "fst d"] enc_number_length [OF assms(2), of "snd d"]
      by (cases d) (simp add: enc_deltas_def)
  qed (simp add: enc_deltas_def)
  from this [of "entry_deltas 0 0 es"] show ?thesis
    using enc_i64_length [of "of_nat (length es)"] by (simp add: enc_rift_body_def)
qed

lemma enc_cli_map_length:
  assumes "cli_map_ok m"
  shows "length (enc_cli_map m) \<le> 10000 + 154 * map_entries m"
proof (cases "cli_map_is_empty m")
  case False
  obtain hs he where h: "map_formats (rift_deltas [cm_strings m, cm_user_strings m, cm_blob m]) = (hs, he)"
    by (metis prod.exhaust)
  obtain ts td where t: "map_formats (rift_deltas (cm_guid m # cm_tables m)) = (ts, td)" by (metis prod.exhaust)
  note H = map_formats_ok [OF h] and T = map_formats_ok [OF t]
  have "length (concat (map (enc_rift_body ts td) xs)) \<le> 80 * length xs + 154 * sum_list (map length xs)" for xs
  proof (induction xs)
    case (Cons x xs)
    then show ?case using enc_rift_body_length [OF T(1,2), of x] by simp
  qed simp
  from this [of "cm_tables m"] have tables: "length (concat (map (enc_rift_body ts td) (cm_tables m)))
      \<le> 5120 + 154 * sum_list (map length (cm_tables m))" using assms by (simp add: cli_map_ok_def)
  show ?thesis
    using False tables enc_rift_body_length [OF H(1,2), of "cm_strings m"]
      enc_rift_body_length [OF H(1,2), of "cm_user_strings m"] enc_rift_body_length [OF H(1,2), of "cm_blob m"]
      enc_rift_body_length [OF T(1,2), of "cm_guid m"] enc_int_format_length [OF H(1)] enc_int_format_length [OF H(2)]
      enc_int_format_length [OF T(1)] enc_int_format_length [OF T(2)]
    by (simp add: enc_cli_map_def h t map_entries_def)
qed (simp add: enc_cli_map_def)

section \<open>Properties\<close>

text \<open>
  C32. The CLI map survives the preprocess stream: \<open>write_cli_map_bitstream\<close> succeeds and
  \<open>read_cli_map_bitstream\<close> returns the same map, all 68 tables with the four shared integer formats,
  for sorted tables of together up to \<open>2 ^ 20\<close> entries, the empty map included.
\<close>

theorem cli_map_round_trip:
  assumes "cli_map_ok m" "map_entries m \<le> 2 ^ 20"
  shows "\<exists>w r r'. write_cli_map writer_new m = Inr w
    \<and> reader_new (writer_finish w) = Inr r \<and> read_cli_map r = Inr (m, r')"
proof -
  have "length (enc_cli_map m) < 2 ^ 31" using enc_cli_map_length [OF assms(1)] assms(2) by simp
  moreover obtain w where "write_cli_map writer_new m = Inr w"
    using write_cli_map_spec [OF writer_new_spec(1) assms(1)] by blast
  ultimately show ?thesis using cli_map_codec.round_trip [OF assms(1)] by simp
qed

theorem cli_map_round_trip_witness:
  "\<exists>w r r'. write_cli_map writer_new (empty_cli_map\<lparr>cm_blob := [\<lparr>re_source = 1, re_target = 9\<rparr>],
        cm_tables := replicate 64 [\<lparr>re_source = 1, re_target = 2\<rparr>]\<rparr>) = Inr w
    \<and> reader_new (writer_finish w) = Inr r
    \<and> read_cli_map r = Inr (empty_cli_map\<lparr>cm_blob := [\<lparr>re_source = 1, re_target = 9\<rparr>],
        cm_tables := replicate 64 [\<lparr>re_source = 1, re_target = 2\<rparr>]\<rparr>, r')"
  by (rule cli_map_round_trip)
    (simp_all add: cli_map_ok_def empty_cli_map_def rift_ok_def map_entries_def list_all_iff sum_list_replicate)

lemma split_native_parts:
  "split_native raw kind = Some t \<Longrightarrow> ct_tag t = raw AND tag_mask kind \<and> ct_kind t = kind
    \<and> ct_rid t = drop_bit (cs_tag_bits (coded_index_schema kind)) raw
    \<and> unat (ct_tag t) < length (cs_tag_to_table (coded_index_schema kind))
    \<and> ct_table t = cs_tag_to_table (coded_index_schema kind) ! unat (ct_tag t)"
  by (auto simp: split_native_def Let_def split: if_splits)

lemma rejoin: "push_bit n (drop_bit n raw) OR (raw AND mask n) = raw" for raw :: "'a::len word"
  by (intro bit_word_eqI) (auto simp: bit_simps)

lemma rejoin_sum: "push_bit n (drop_bit n raw) + (raw AND mask n) = raw" for raw :: "'a::len word"
proof -
  have "push_bit n (drop_bit n raw) AND (raw AND mask n) = 0"
    by (intro bit_word_eqI) (auto simp: bit_simps)
  then show ?thesis using rejoin [of n raw] word_plus_and_or [of "push_bit n (drop_bit n raw)" "raw AND mask n"] by simp
qed

text \<open>
  C33. Coded tokens are taken apart and put together again: what \<open>split_coded_token\<close> returns is accepted by
  \<open>reassemble_coded_token\<close>, which gives the raw token back for every kind, sentinel tags
  included, and the reassembly without checks that the transforms use agrees with it.
\<close>

theorem coded_token_round_trip:
  assumes "split_coded_token raw kind = Inr t"
  shows "reassemble_coded_token (ct_kind t) (ct_table t) (ct_tag t) (ct_rid t) = Inr raw
    \<and> reassemble_native (ct_kind t) (ct_tag t) (ct_rid t) = raw"
proof -
  let ?s = "coded_index_schema kind"
  have "split_native raw kind = Some t"
    using assms by (auto simp: split_coded_token_def split: option.splits)
  note P = split_native_parts [OF this]
  have sum: "push_bit (cs_tag_bits ?s) (ct_rid t) + ct_tag t = raw"
    using rejoin_sum [of "cs_tag_bits ?s" raw] P by simp
  have le: "ct_rid t \<le> drop_bit (cs_tag_bits ?s) (- 1)"
  proof -
    have "unat raw \<le> unat (- 1 :: u32)" by (simp flip: word_le_nat_alt)
    then have "drop_bit (cs_tag_bits ?s) (unat raw) \<le> drop_bit (cs_tag_bits ?s) (unat (- 1 :: u32))"
      by (simp add: drop_bit_eq_div div_le_mono)
    then show ?thesis using P by (simp only: word_le_nat_alt unat_drop_bit_eq)
  qed
  have "list_all (\<lambda>t. t < 45 \<or> t = table_sentinel) (cs_tag_to_table ?s)"
    using coded_schema_wf [of kind] by (simp add: coded_wf_def)
  then have "ct_table t < 45 \<or> ct_table t = table_sentinel" using P by (auto simp: list_all_length)
  then have known: "ct_table t = table_sentinel \<or> schema_of_table (ct_table t) \<noteq> None"
    using schema_of_table_known by blast
  have fits: "checked_add32 (push_bit (cs_tag_bits ?s) (ct_rid t)) (ct_tag t) = Some raw"
  proof -
    have "push_bit (cs_tag_bits ?s) (drop_bit (cs_tag_bits ?s) raw) = raw AND NOT (mask (cs_tag_bits ?s))"
      by (intro bit_word_eqI) (auto simp: bit_simps)
    then have "push_bit (cs_tag_bits ?s) (ct_rid t) \<le> raw" using P word_and_le2 by simp
    then show ?thesis using sum no_olen_add_nat [of "push_bit (cs_tag_bits ?s) (ct_rid t)" "ct_tag t"]
      by (simp add: checked_add32_def)
  qed
  show ?thesis using P le known fits sum rejoin [of "cs_tag_bits ?s" raw]
    by (auto simp: reassemble_coded_token_def reassemble_native_def Let_def)
qed

theorem coded_token_round_trip_witness:
  "reassemble_coded_token CustomAttributeType 0x0a 3 2 = Inr 19 \<and> reassemble_native CustomAttributeType 3 2 = 19"
proof -
  have "split_coded_token 19 CustomAttributeType = Inr \<lparr>ct_kind = CustomAttributeType, ct_table = 0x0a, ct_tag = 3, ct_rid = 2\<rparr>"
    by code_simp
  from coded_token_round_trip [OF this] show ?thesis by simp
qed

end
