(* ===== verification/CliTransform.thy ===== *)
theory CliTransform imports CliMap CliMetadata "HOL-Library.Product_Lexorder" begin

text \<open>
  The source transforms of managed images: method bodies (\<open>src/pe/cli/method.rs\<close>), the token operands
  of the IL code (\<open>src/pe/cli/disasm.rs\<close>), the type references in signature blobs
  (\<open>src/pe/cli/signature.rs\<close>) and the index columns of the metadata tables
  (\<open>src/pe/cli/metadata_transform.rs\<close>). The passes return the image with their counts of rewrites.
\<close>

section \<open>Method bodies\<close>

record method_body =
  mb_rid :: u32
  mb_rva :: u32
  mb_file_offset :: nat
  mb_header_size :: nat
  mb_code_size :: nat
  mb_total_size :: nat

text \<open>The extra data sections behind the code; \<open>at\<close> is the offset in the body.\<close>

definition extra_section_size :: "bytes \<Rightarrow> nat \<Rightarrow> nat option" where
  "extra_section_size img off =
     (if length img \<le> off then None
      else if img ! off AND 0x40 \<noteq> 0 then
        (if off + 4 \<le> length img
         then Some (unat (from_le (subrange (off + 1) (off + 4) img) :: u32)) else None)
      else if off + 1 < length img then Some (unat (img ! (off + 1))) else None)"

function size_with_extra_sections :: "bytes \<Rightarrow> nat \<Rightarrow> nat \<Rightarrow> nat \<Rightarrow> nat option" where
  "size_with_extra_sections img off avail at =
     (if avail < at + 4 then None
      else case extra_section_size img (off + at) of None \<Rightarrow> None
           | Some n \<Rightarrow>
               let next_at = at + (4 + n)
               in if avail < next_at then None
                  else if img ! (off + at) AND 0x80 = 0 then Some next_at
                  else size_with_extra_sections img off avail (align4 next_at))"
  by pat_completeness auto
termination
  by (relation "measure (\<lambda>(img, off, avail, at). avail + 4 - at)") (auto simp: align4_def)

declare size_with_extra_sections.simps [simp del]

text \<open>Header size, code size, total size.\<close>

definition method_body_layout :: "bytes \<Rightarrow> nat \<Rightarrow> nat \<Rightarrow> (nat \<times> nat \<times> nat) option" where
  "method_body_layout img off available =
     (if length img \<le> off then None
      else
        let remaining = min (length img - off) available;
            b = img ! off
        in if b AND 3 = 2 then
             (let code_size = unat (drop_bit 2 b); whole = 1 + code_size
              in if whole \<le> remaining then Some (1, code_size, whole) else None)
           else if b AND 3 = 3 then
             if remaining < 12 then None
             else
               let flags_and_size = read_u16 img off;
                   header_size = unat (drop_bit 12 flags_and_size) * 4
               in if header_size < 12 \<or> remaining < header_size then None
                  else
                    let code_size = unat (read_u32 img (off + 4));
                        whole = header_size + code_size
                    in if remaining < whole then None
                       else if flags_and_size AND 8 = 0 then Some (header_size, code_size, whole)
                       else map_option (\<lambda>whole. (header_size, code_size, whole))
                              (size_with_extra_sections img off remaining (align4 whole))
           else None)"

definition saturating_add32 :: "u32 \<Rightarrow> u32 \<Rightarrow> u32" where
  "saturating_add32 a b = (case checked_add32 a b of None \<Rightarrow> - 1 | Some c \<Rightarrow> c)"

definition method_rva_to_file_offset :: "pe_info \<Rightarrow> u32 \<Rightarrow> (nat \<times> nat) option" where
  "method_rva_to_file_offset pe rva =
     (case find (\<lambda>s. sec_rsize s \<noteq> 0 \<and> sec_va s \<le> rva \<and> rva < saturating_add32 (sec_va s) (sec_rsize s))
             (pi_sections pe) of None \<Rightarrow> None
      | Some s \<Rightarrow>
          let delta = rva - sec_va s
          in case checked_add32 (sec_raw s) delta of None \<Rightarrow> None
             | Some off \<Rightarrow>
                 if sec_rsize s < delta then None else Some (unat off, unat (sec_rsize s - delta)))"

definition method_def_table :: nat where
  "method_def_table = 0x06"

definition cli_method_body :: "bytes \<Rightarrow> pe_info \<Rightarrow> metadata_model \<Rightarrow> u32 \<Rightarrow> method_body option" where
  "cli_method_body img pe md rid =
     (case rbind (table_row_by_id md img method_def_table rid) (\<lambda>row. row_column row ''Rva'') of
        Inr (ValRva rva) \<Rightarrow>
          if rva = 0 then None
          else
            (case method_rva_to_file_offset pe rva of None \<Rightarrow> None
             | Some (off, available) \<Rightarrow>
                 (case method_body_layout img off available of None \<Rightarrow> None
                  | Some (header_size, code_size, whole) \<Rightarrow>
                      Some \<lparr>mb_rid = rid, mb_rva = rva, mb_file_offset = off, mb_header_size = header_size,
                            mb_code_size = code_size, mb_total_size = whole\<rparr>))
      | _ \<Rightarrow> None)"

definition cli_method_bodies :: "bytes \<Rightarrow> pe_info \<Rightarrow> metadata_model \<Rightarrow> method_body list" where
  "cli_method_bodies img pe md =
     List.map_filter (\<lambda>rid. cli_method_body img pe md (of_nat rid))
       [1..<Suc (unat (md_row_counts md ! method_def_table))]"

section \<open>Token operands\<close>

datatype il_operand = OpNone | OpFixed nat | OpSwitch | OpToken

definition one_byte_operand :: "u8 \<Rightarrow> il_operand" where
  "one_byte_operand opcode =
     (let n = unat opcode
      in if n \<in> {0x0e..0x13} \<or> n = 0x1f \<or> n \<in> {0x2b..0x37} \<or> n = 0xde then OpFixed 1
         else if n = 0x20 \<or> n = 0x22 \<or> n = 0x29 \<or> n \<in> {0x38..0x44} \<or> n = 0xdd then OpFixed 4
         else if n = 0x21 \<or> n = 0x23 then OpFixed 8
         else if n = 0x45 then OpSwitch
         else if n = 0x27 \<or> n = 0x28 \<or> n \<in> {0x6f..0x75} \<or> n = 0x79 \<or> n \<in> {0x7b..0x81} \<or> n = 0x8c
           \<or> n = 0x8d \<or> n = 0x8f \<or> n \<in> {0xa3..0xa5} \<or> n = 0xc2 \<or> n = 0xc6 \<or> n = 0xd0 then OpToken
         else OpNone)"

definition two_byte_operand :: "u8 \<Rightarrow> il_operand" where
  "two_byte_operand opcode =
     (let n = unat opcode
      in if n \<in> {0x09..0x0e} then OpFixed 2
         else if n = 0x12 then OpFixed 1
         else if n = 0x06 \<or> n = 0x07 \<or> n = 0x15 \<or> n = 0x16 \<or> n = 0x1c then OpToken
         else OpNone)"

definition shift_rid :: "rift_table \<Rightarrow> u32 \<Rightarrow> u32" where
  "shift_rid rift rid = ucast (ucast rid + rift_map rift (ucast rid))"

definition map_token :: "cli_map \<Rightarrow> u32 \<Rightarrow> u32" where
  "map_token m raw =
     (let table_id = unat (drop_bit 24 raw);
          rid = raw AND 0x00ffffff;
          mapped = (if table_id \<le> 0x3f then shift_rid (cm_tables m ! table_id) rid
                    else if table_id = 0x70 then shift_rid (cm_user_strings m) rid
                    else rid)
      in push_bit 24 (of_nat table_id) OR (mapped AND 0x00ffffff))"

text \<open>One instruction: the code, the cursor behind it, the rewrites.\<close>

definition il_opcode :: "bytes \<Rightarrow> nat \<Rightarrow> (il_operand \<times> nat) option" where
  "il_opcode il cursor =
     (if il ! cursor = 0xfe then
        (if cursor + 1 < length il then Some (two_byte_operand (il ! (cursor + 1)), cursor + 2) else None)
      else Some (one_byte_operand (il ! cursor), cursor + 1))"

definition il_step :: "cli_map \<Rightarrow> bytes \<Rightarrow> nat \<Rightarrow> (bytes \<times> nat \<times> nat) option" where
  "il_step m il cursor =
     (case il_opcode il cursor of None \<Rightarrow> None
      | Some (operand, cursor) \<Rightarrow>
          (case operand of
             OpNone \<Rightarrow> Some (il, cursor, 0)
           | OpFixed len \<Rightarrow> if length il < cursor + len then None else Some (il, cursor + len, 0)
           | OpSwitch \<Rightarrow>
               (case read_u32_opt il cursor of None \<Rightarrow> None
                | Some count \<Rightarrow>
                    let next_pos = cursor + 4 + unat count * 4
                    in if length il < next_pos then None else Some (il, next_pos, 0))
           | OpToken \<Rightarrow>
               (case read_u32_opt il cursor of None \<Rightarrow> None
                | Some raw \<Rightarrow>
                    let mapped = map_token m raw
                    in if mapped \<noteq> raw then Some (write_u32 il cursor mapped, cursor + 4, 1)
                       else Some (il, cursor + 4, 0))))"

lemma il_step_progress:
  assumes "il_step m il cursor = Some (il', cursor', n)"
  shows "length il' = length il \<and> cursor < cursor'"
proof -
  obtain operand c where c: "il_opcode il cursor = Some (operand, c)"
    using assms by (auto simp: il_step_def split: option.splits)
  then have "cursor < c" by (auto simp: il_opcode_def split: if_splits)
  then show ?thesis using assms c
    by (auto simp: il_step_def Let_def write_u32_def put_field_def
        split: il_operand.splits option.splits if_splits)
qed

function transform_il_from :: "cli_map \<Rightarrow> bytes \<Rightarrow> nat \<Rightarrow> nat \<Rightarrow> bytes \<times> nat" where
  "transform_il_from m il cursor n =
     (if cursor < length il then
        (case il_step m il cursor of None \<Rightarrow> (il, n)
         | Some (il', cursor', k) \<Rightarrow> transform_il_from m il' cursor' (n + k))
      else (il, n))"
  by pat_completeness auto
termination
proof (relation "measure (\<lambda>(m, il, cursor, n). length il - cursor)", goal_cases)
  case (2 m il cursor n p il' q cursor' k)
  then have "length il' = length il \<and> cursor < cursor'"
    by (intro il_step_progress [of m il cursor il' cursor' k]) simp
  with 2 show ?case by auto
qed simp

declare transform_il_from.simps [simp del]

definition transform_il_tokens :: "cli_map \<Rightarrow> bytes \<Rightarrow> bytes \<times> nat" where
  "transform_il_tokens m il = transform_il_from m il 0 0"

definition is_constructor_body :: "bytes \<Rightarrow> metadata_model \<Rightarrow> u32 \<Rightarrow> bool" where
  "is_constructor_body img md rid =
     (case rbind (table_row_by_id md img method_def_table rid) (\<lambda>row. row_column row ''Name'') of
        Inr (ValHeap StringsHeap off) \<Rightarrow>
          strings_at md img off \<in> {Inr (ascii ''.ctor''), Inr (ascii ''.cctor'')}
      | _ \<Rightarrow> False)"

definition constructor_map :: "cli_map \<Rightarrow> cli_map" where
  "constructor_map m = empty_cli_map
     \<lparr>cm_tables := (cm_tables empty_cli_map)[method_def_table := cm_tables m ! method_def_table]\<rparr>"

definition disasm_body :: "metadata_model \<Rightarrow> cli_map \<Rightarrow> bytes \<times> nat \<Rightarrow> method_body \<Rightarrow> bytes \<times> nat" where
  "disasm_body md m = (\<lambda>(img, n) body.
     let code_start = mb_file_offset body + mb_header_size body;
         code_end = code_start + mb_code_size body
     in if length img < code_end then (img, n)
        else
          let used = (if is_constructor_body img md (mb_rid body) then constructor_map m else m);
              (il, k) = transform_il_tokens used (subrange code_start code_end img)
          in (write_at code_start il img, n + k))"

definition transform_cli_disasm :: "bytes \<Rightarrow> pe_info \<Rightarrow> metadata_model \<Rightarrow> cli_map \<Rightarrow> bytes \<times> nat" where
  "transform_cli_disasm img pe md m = foldl (disasm_body md m) (img, 0) (cli_method_bodies img pe md)"

definition transform_cli4_disasm :: "bytes \<Rightarrow> pe_info \<Rightarrow> metadata_model \<Rightarrow> cli_map \<Rightarrow> (bytes \<times> nat) result" where
  "transform_cli4_disasm img pe md m =
     (if md_flavor md \<noteq> Cli4 then Inl (Malformed ''CLI4 disasm transform: source metadata flavor mismatch'')
      else Inr (transform_cli_disasm img pe md m))"

section \<open>Signatures\<close>

text \<open>The transformer: the blob, the cursor, the rewrites. Every step reports whether it went on.\<close>

type_synonym sig_state = "bytes \<times> nat \<times> nat"

definition sig_left :: "sig_state \<Rightarrow> nat" where
  "sig_left s = length (fst s) - fst (snd s)"

definition sig_peek :: "sig_state \<Rightarrow> u8 option" where
  "sig_peek = (\<lambda>(blob, cursor, n). if cursor < length blob then Some (blob ! cursor) else None)"

definition sig_advance :: "sig_state \<Rightarrow> sig_state" where
  "sig_advance = (\<lambda>(blob, cursor, n). (blob, cursor + 1, n))"

text \<open>A compressed integer with its start and width.\<close>

definition sig_compressed :: "sig_state \<Rightarrow> ((u32 \<times> nat \<times> nat) \<times> sig_state) option" where
  "sig_compressed = (\<lambda>(blob, cursor, n).
     if length blob < cursor then None
     else case read_compressed_u32 (drop cursor blob) of Inl _ \<Rightarrow> None
          | Inr (v, width) \<Rightarrow> Some ((v, cursor, width), (blob, cursor + width, n)))"

text \<open>The early returns: behind a step, a byte, a compressed integer.\<close>

definition sig_then :: "bool \<times> sig_state \<Rightarrow> (sig_state \<Rightarrow> bool \<times> sig_state) \<Rightarrow> bool \<times> sig_state" where
  "sig_then r f = (case r of (ok, s) \<Rightarrow> if ok then f s else (False, s))"

definition sig_byte :: "sig_state \<Rightarrow> (u8 \<Rightarrow> sig_state \<Rightarrow> bool \<times> sig_state) \<Rightarrow> bool \<times> sig_state" where
  "sig_byte s f = (case sig_peek s of None \<Rightarrow> (False, s) | Some b \<Rightarrow> f b (sig_advance s))"

definition sig_number :: "sig_state \<Rightarrow> (u32 \<Rightarrow> sig_state \<Rightarrow> bool \<times> sig_state) \<Rightarrow> bool \<times> sig_state" where
  "sig_number s f = (case sig_compressed s of None \<Rightarrow> (False, s) | Some ((v, _), s) \<Rightarrow> f v s)"

definition map_type_def_or_ref :: "cli_map \<Rightarrow> u32 \<Rightarrow> u32" where
  "map_type_def_or_ref m raw =
     (case rbind (coded_token_map m) (\<lambda>tm. map_coded_token tm raw TypeDefOrRef) of Inl _ \<Rightarrow> raw | Inr v \<Rightarrow> v)"

definition sig_type_def_or_ref :: "cli_map \<Rightarrow> sig_state \<Rightarrow> bool \<times> sig_state" where
  "sig_type_def_or_ref m s =
     (case sig_compressed s of None \<Rightarrow> (False, s)
      | Some ((raw, start, width), (blob, cursor, n)) \<Rightarrow>
          let mapped = map_type_def_or_ref m raw
          in if mapped = raw then (True, blob, cursor, n)
             else (case write_compressed_u32 blob start width mapped of
                     (blob, written) \<Rightarrow> (True, blob, cursor, if written then n + 1 else n)))"

fun sig_numbers :: "nat \<Rightarrow> sig_state \<Rightarrow> bool \<times> sig_state" where
  "sig_numbers 0 s = (True, s)"
| "sig_numbers (Suc k) s = sig_number s (\<lambda>_. sig_numbers k)"

definition sig_array_shape :: "sig_state \<Rightarrow> bool \<times> sig_state" where
  "sig_array_shape s =
     sig_number s (\<lambda>_ s. sig_number s (\<lambda>size_count s.
       sig_then (sig_numbers (unat size_count) s) (\<lambda>s. sig_number s (\<lambda>bound_count s.
         sig_numbers (unat bound_count) s))))"

subsection \<open>Progress\<close>

text \<open>No step leaves the blob or goes back; one that went on has consumed a byte.\<close>

definition sig_kept :: "sig_state \<Rightarrow> bool \<times> sig_state \<Rightarrow> bool" where
  "sig_kept s r \<longleftrightarrow> length (fst (snd r)) = length (fst s) \<and> sig_left (snd r) \<le> sig_left s"

definition sig_moved :: "sig_state \<Rightarrow> bool \<times> sig_state \<Rightarrow> bool" where
  "sig_moved s r \<longleftrightarrow> sig_kept s r \<and> (fst r \<longrightarrow> sig_left (snd r) < sig_left s)"

named_theorems sig_rules

lemma sig_kept_refl [sig_rules]: "sig_kept s (ok, s)" and sig_moved_stuck [sig_rules]: "sig_moved s (False, s)"
  by (simp_all add: sig_kept_def sig_moved_def)

lemma sig_moved_kept: "sig_moved s r \<Longrightarrow> sig_kept s r"
  by (simp add: sig_moved_def)

lemma sig_then_kept [sig_rules]:
  "sig_kept s r \<Longrightarrow> (\<And>s1. sig_kept s1 (f s1)) \<Longrightarrow> sig_kept s (sig_then r f)"
  by (cases r) (auto simp: sig_then_def sig_kept_def intro: order_trans)

lemma sig_then_moved [sig_rules]:
  assumes "sig_moved s r" "\<And>s1. sig_kept s1 (f s1)" shows "sig_moved s (sig_then r f)"
proof -
  obtain ok s1 where "r = (ok, s1)" by (metis prod.exhaust)
  then show ?thesis using assms(1) assms(2) [of s1] by (auto simp: sig_then_def sig_kept_def sig_moved_def)
qed

lemma sig_kept_then_moved:
  "sig_kept s r \<Longrightarrow> (\<And>s1. sig_moved s1 (f s1)) \<Longrightarrow> sig_moved s (sig_then r f)"
  by (cases r) (auto simp: sig_then_def sig_kept_def sig_moved_def intro: order_trans less_le_trans)

lemma sig_advance_progress: "sig_peek s = Some b \<Longrightarrow> sig_left (sig_advance s) < sig_left s \<and> fst (sig_advance s) = fst s"
  by (cases s) (auto simp: sig_peek_def sig_advance_def sig_left_def split: if_splits)

lemma sig_byte_moved [sig_rules]:
  assumes "\<And>b s1. sig_kept s1 (f b s1)" shows "sig_moved s (sig_byte s f)"
proof (cases "sig_peek s")
  case (Some b)
  then show ?thesis using assms [of "sig_advance s" b] sig_advance_progress [OF Some]
    by (auto simp: sig_byte_def sig_kept_def sig_moved_def)
qed (simp add: sig_byte_def sig_rules)

lemma read_compressed_width: "read_compressed_u32 bs = Inr (v, width) \<Longrightarrow> 0 < width \<and> width \<le> length bs"
  by (cases bs) (auto simp: read_compressed_u32_def not_less Suc_le_eq split: if_splits)

lemma sig_compressed_progress:
  "sig_compressed s = Some (x, s') \<Longrightarrow> fst s' = fst s \<and> sig_left s' < sig_left s"
  by (cases s) (auto simp: sig_compressed_def sig_left_def split: if_splits sum.splits dest: read_compressed_width)

lemma sig_number_moved [sig_rules]:
  assumes "\<And>v s1. sig_kept s1 (f v s1)" shows "sig_moved s (sig_number s f)"
proof (cases "sig_compressed s")
  case (Some r)
  obtain v w s1 where r: "r = ((v, w), s1)" by (metis prod.exhaust)
  then show ?thesis using Some assms [of s1 v] sig_compressed_progress [of s "(v, w)" s1]
    by (auto simp: sig_number_def sig_kept_def sig_moved_def)
qed (simp add: sig_number_def sig_rules)

lemma write_compressed_length: "length (fst (write_compressed_u32 data start width v)) = length data"
  by (auto simp: write_compressed_u32_def compressed_bytes_def)

lemma sig_type_def_or_ref_moved [sig_rules]: "sig_moved s (sig_type_def_or_ref m s)"
proof (cases "sig_compressed s")
  case None
  then show ?thesis by (simp add: sig_type_def_or_ref_def sig_rules)
next
  case (Some r)
  obtain raw start width blob cursor n where r: "r = ((raw, start, width), (blob, cursor, n))" by (metis prod.exhaust)
  have p: "blob = fst s" "sig_left (blob, cursor, n) < sig_left s"
    using sig_compressed_progress [of s "(raw, start, width)" "(blob, cursor, n)"] Some r by auto
  obtain b w where b: "write_compressed_u32 blob start width (map_type_def_or_ref m raw) = (b, w)" by (metis prod.exhaust)
  have "length b = length blob"
    using write_compressed_length [of blob start width "map_type_def_or_ref m raw"] b by simp
  then show ?thesis using Some r p b
    by (auto simp: sig_type_def_or_ref_def sig_moved_def sig_kept_def sig_left_def Let_def)
qed

lemma sig_numbers_kept [sig_rules]: "sig_kept s (sig_numbers k s)"
  by (induction k s rule: sig_numbers.induct) (auto intro!: sig_rules intro: sig_moved_kept)

lemma sig_number_kept [sig_rules]: "(\<And>v s1. sig_kept s1 (f v s1)) \<Longrightarrow> sig_kept s (sig_number s f)"
  by (rule sig_moved_kept [OF sig_number_moved])

lemma sig_array_shape_kept [sig_rules]: "sig_kept s (sig_array_shape s)"
  unfolding sig_array_shape_def by (intro sig_rules)

subsection \<open>Types and signatures\<close>

text \<open>The sentinel and the custom modifiers in front of a parameter.\<close>

definition is_modifier :: "u8 \<Rightarrow> bool" where
  "is_modifier b \<longleftrightarrow> b = 0x1f \<or> b = 0x20"

lemma sig_then_cong [fundef_cong]:
  "r = r' \<Longrightarrow> (\<And>s. r' = (True, s) \<Longrightarrow> f s = g s) \<Longrightarrow> sig_then r f = sig_then r' g"
  by (auto simp: sig_then_def split: prod.splits)

function sig_sentinel :: "cli_map \<Rightarrow> sig_state \<Rightarrow> bool \<times> sig_state" where
  "sig_sentinel m s =
     (case sig_peek s of None \<Rightarrow> (True, s)
      | Some b \<Rightarrow>
          if b AND 0xf0 = 0x40 then sig_sentinel m (sig_advance s)
          else if is_modifier b then sig_then (sig_type_def_or_ref m (sig_advance s)) (sig_sentinel m)
          else (True, s))"
  by pat_completeness auto
termination
proof (relation "measure (\<lambda>(m, s). sig_left s)", goal_cases)
  case (2 m s b)
  then show ?case using sig_advance_progress [of s] by simp
next
  case (3 m s b s')
  then have "sig_left s' \<le> sig_left (sig_advance s)"
    using sig_type_def_or_ref_moved [of "sig_advance s" m] by (simp add: sig_moved_def sig_kept_def)
  then show ?case using 3 sig_advance_progress [of s] by simp
qed simp

declare sig_sentinel.simps [simp del]

lemma sig_sentinel_kept [sig_rules]: "sig_kept s (sig_sentinel m s)"
proof (induction m s rule: sig_sentinel.induct)
  case (1 m s)
  show ?case
  proof (cases "sig_peek s")
    case None
    then show ?thesis by (subst sig_sentinel.simps) (simp add: sig_kept_def)
  next
    case (Some b)
    note adv = sig_advance_progress [OF Some]
    have t: "sig_kept (sig_advance s) (sig_type_def_or_ref m (sig_advance s))"
      by (rule sig_moved_kept [OF sig_type_def_or_ref_moved])
    show ?thesis using Some adv t 1 [OF Some]
      by (subst sig_sentinel.simps) (auto simp: sig_kept_def sig_then_def split: prod.splits)
  qed
qed

text \<open>
  Types, parameters and method signatures call one another. The fuel bounds the depth; every
  descent consumes a byte, so a blob never needs more than one unit per byte and one more
  (\<open>sig_fuel_enough\<close>).
\<close>

function (sequential) sig_type :: "nat \<Rightarrow> cli_map \<Rightarrow> sig_state \<Rightarrow> bool \<times> sig_state"
  and sig_types :: "nat \<Rightarrow> cli_map \<Rightarrow> nat \<Rightarrow> sig_state \<Rightarrow> bool \<times> sig_state"
  and sig_param :: "nat \<Rightarrow> cli_map \<Rightarrow> sig_state \<Rightarrow> bool \<times> sig_state"
  and sig_params :: "nat \<Rightarrow> cli_map \<Rightarrow> nat \<Rightarrow> sig_state \<Rightarrow> bool \<times> sig_state"
  and sig_method :: "nat \<Rightarrow> cli_map \<Rightarrow> sig_state \<Rightarrow> bool \<times> sig_state"
where
  "sig_type 0 m s = (False, s)"
| "sig_type (Suc f) m s =
     sig_byte s (\<lambda>b s. let e = unat b in
       if e \<in> {0x02..0x0e} \<or> e = 0x16 \<or> e = 0x18 \<or> e = 0x19 \<or> e = 0x1c then (True, s)
       else if e = 0x0f \<or> e = 0x1d then sig_type f m s
       else if e = 0x11 \<or> e = 0x12 then sig_type_def_or_ref m s
       else if e = 0x13 \<or> e = 0x1e then sig_number s (\<lambda>_ s. (True, s))
       else if e = 0x14 then sig_then (sig_type f m s) sig_array_shape
       else if e = 0x15 then
         sig_then (sig_type f m s) (\<lambda>s. sig_number s (\<lambda>args s. sig_types f m (unat args) s))
       else if e = 0x1b then sig_method f m s
       else if is_modifier b then sig_then (sig_type_def_or_ref m s) (sig_type f m)
       else if b AND 0xf0 = 0x40 then sig_type f m s
       else (False, s))"
| "sig_types f m 0 s = (True, s)"
| "sig_types f m (Suc k) s = sig_then (sig_type f m s) (sig_types f m k)"
| "sig_param f m s =
     sig_then (sig_sentinel m s) (\<lambda>s.
       case sig_peek s of None \<Rightarrow> (False, s)
       | Some b \<Rightarrow>
           if b = 0x01 \<or> b = 0x16 then (True, sig_advance s)
           else if b = 0x10 then sig_type f m (sig_advance s)
           else sig_type f m s)"
| "sig_params f m 0 s = (True, s)"
| "sig_params f m (Suc k) s = sig_then (sig_param f m s) (sig_params f m k)"
| "sig_method f m s =
     sig_byte s (\<lambda>call_conv s.
       sig_then (if call_conv AND 0x10 \<noteq> 0 then sig_number s (\<lambda>_ s. (True, s)) else (True, s)) (\<lambda>s.
         sig_number s (\<lambda>count s.
           sig_then (sig_param f m s) (sig_params f m (unat count)))))"
  by pat_completeness auto
termination
  by (relation "measures [case_sum (case_sum (\<lambda>(f, m, s). f) (\<lambda>(f, m, k, s). f))
        (case_sum (\<lambda>(f, m, s). f) (case_sum (\<lambda>(f, m, k, s). f) (\<lambda>(f, m, s). f))),
      case_sum (case_sum (\<lambda>_. 0) (\<lambda>_. 1)) (case_sum (\<lambda>_. 1) (case_sum (\<lambda>_. 2) (\<lambda>_. 3))),
      case_sum (case_sum (\<lambda>_. 0) (\<lambda>(f, m, k, s). k)) (case_sum (\<lambda>_. 0) (case_sum (\<lambda>(f, m, k, s). k) (\<lambda>_. 0)))]") auto

lemma sig_parts_kept:
  assumes t: "\<And>s. sig_moved s (sig_type f m s)"
  shows "sig_kept s (sig_types f m k s)" "sig_moved s (sig_param f m s)" "sig_kept s (sig_params f m k s)"
    "sig_moved s (sig_method f m s)"
proof -
  note tk = sig_moved_kept [OF t]
  show "sig_kept s (sig_types f m k s)"
    by (induction k arbitrary: s) (auto intro!: sig_rules tk)
  have param: "sig_moved s (sig_param f m s)" for s
  proof -
    have "sig_moved s1 (case sig_peek s1 of None \<Rightarrow> (False, s1)
       | Some b \<Rightarrow> if b = 0x01 \<or> b = 0x16 then (True, sig_advance s1)
           else if b = 0x10 then sig_type f m (sig_advance s1) else sig_type f m s1)" for s1
      using t [of s1] t [of "sig_advance s1"] sig_advance_progress [of s1]
      by (auto simp: sig_moved_def sig_kept_def split: option.splits)
    then show ?thesis unfolding sig_param.simps by (intro sig_kept_then_moved sig_sentinel_kept)
  qed
  then show "sig_moved s (sig_param f m s)" .
  have params: "sig_kept s (sig_params f m k s)" for k s
    by (induction k arbitrary: s) (auto intro!: sig_rules sig_moved_kept [OF param] simp del: sig_param.simps)
  then show "sig_kept s (sig_params f m k s)" .
  show "sig_moved s (sig_method f m s)"
    unfolding sig_method.simps by (intro sig_rules sig_moved_kept [OF param] params) (auto intro!: sig_rules)
qed

lemma sig_type_moved: "sig_moved s (sig_type f m s)"
proof (induction f arbitrary: s)
  case (Suc f)
  note P = sig_parts_kept [OF Suc]
  show ?case unfolding sig_type.simps Let_def
    by (intro sig_byte_moved) (auto intro!: sig_rules sig_moved_kept [OF Suc] sig_moved_kept [OF P(4)] P(1,3)
        sig_moved_kept [OF sig_type_def_or_ref_moved] simp del: sig_method.simps)
qed (simp add: sig_rules)

text \<open>More fuel than bytes left changes nothing.\<close>

lemma sig_byte_agree: "(\<And>b s1. sig_left s1 < sig_left s \<Longrightarrow> f b s1 = g b s1) \<Longrightarrow> sig_byte s f = sig_byte s g"
  using sig_advance_progress [of s] by (cases "sig_peek s") (simp_all add: sig_byte_def)

lemma sig_number_agree: "(\<And>v s1. sig_left s1 < sig_left s \<Longrightarrow> f v s1 = g v s1) \<Longrightarrow> sig_number s f = sig_number s g"
  by (auto simp: sig_number_def split: option.splits dest!: sig_compressed_progress)

lemma sig_then_agree:
  "sig_kept s r \<Longrightarrow> (\<And>s1. sig_left s1 \<le> sig_left s \<Longrightarrow> f s1 = g s1) \<Longrightarrow> sig_then r f = sig_then r g"
  by (cases r) (auto simp: sig_then_def sig_kept_def)

lemma sig_parts_agree:
  assumes t: "\<And>s. sig_left s < n \<Longrightarrow> sig_type f m s = sig_type g m s"
  shows "sig_left s < n \<Longrightarrow> sig_types f m k s = sig_types g m k s"
    "sig_left s < n \<Longrightarrow> sig_param f m s = sig_param g m s"
    "sig_left s < n \<Longrightarrow> sig_params f m k s = sig_params g m k s"
    "sig_left s < n \<Longrightarrow> sig_method f m s = sig_method g m s"
proof -
  note kept = sig_parts_kept [OF sig_type_moved]
  show "sig_left s < n \<Longrightarrow> sig_types f m k s = sig_types g m k s"
  proof (induction k arbitrary: s)
    case (Suc k)
    have "sig_then (sig_type g m s) (sig_types f m k) = sig_then (sig_type g m s) (sig_types g m k)"
      by (rule sig_then_agree [OF sig_moved_kept [OF sig_type_moved]]) (use Suc in simp)
    then show ?case using t [OF Suc.prems] by simp
  qed simp
  have param: "sig_param f m s = sig_param g m s" if s: "sig_left s < n" for s
    unfolding sig_param.simps
  proof (rule sig_then_agree [OF sig_sentinel_kept])
    fix s1 assume "sig_left s1 \<le> sig_left s"
    then have "sig_left s1 < n" using s by simp
    then show "(case sig_peek s1 of None \<Rightarrow> (False, s1)
         | Some b \<Rightarrow> if b = 0x01 \<or> b = 0x16 then (True, sig_advance s1)
             else if b = 0x10 then sig_type f m (sig_advance s1) else sig_type f m s1)
      = (case sig_peek s1 of None \<Rightarrow> (False, s1)
         | Some b \<Rightarrow> if b = 0x01 \<or> b = 0x16 then (True, sig_advance s1)
             else if b = 0x10 then sig_type g m (sig_advance s1) else sig_type g m s1)"
      using t [of s1] t [of "sig_advance s1"] sig_advance_progress [of s1] by (auto split: option.splits)
  qed
  then show "sig_left s < n \<Longrightarrow> sig_param f m s = sig_param g m s" .
  have params: "sig_params f m k s = sig_params g m k s" if "sig_left s < n" for k s
    using that
  proof (induction k arbitrary: s)
    case (Suc k)
    have "sig_then (sig_param g m s) (sig_params f m k) = sig_then (sig_param g m s) (sig_params g m k)"
      by (rule sig_then_agree [OF sig_moved_kept [OF kept(2)]]) (use Suc in simp)
    then show ?case using param [OF Suc.prems] by simp
  qed simp
  then show "sig_left s < n \<Longrightarrow> sig_params f m k s = sig_params g m k s" .
  show "sig_method f m s = sig_method g m s" if s: "sig_left s < n"
    unfolding sig_method.simps
  proof (rule sig_byte_agree)
    fix c s1 assume s1: "sig_left s1 < sig_left s"
    let ?r = "if c AND 0x10 \<noteq> 0 then sig_number s1 (\<lambda>_ s. (True, s)) else (True, s1)"
    have "sig_kept s1 ?r" by (auto intro!: sig_rules)
    then show "sig_then ?r (\<lambda>s. sig_number s (\<lambda>count s. sig_then (sig_param f m s) (sig_params f m (unat count))))
      = sig_then ?r (\<lambda>s. sig_number s (\<lambda>count s. sig_then (sig_param g m s) (sig_params g m (unat count))))"
    proof (rule sig_then_agree, intro sig_number_agree)
      fix s2 v s3 assume "sig_left s2 \<le> sig_left s1" "sig_left s3 < sig_left s2"
      then have s3: "sig_left s3 < n" using s s1 by simp
      have "sig_then (sig_param g m s3) (sig_params f m (unat v)) = sig_then (sig_param g m s3) (sig_params g m (unat v))"
        by (rule sig_then_agree [OF sig_moved_kept [OF kept(2)]]) (use s3 params in simp)
      then show "sig_then (sig_param f m s3) (sig_params f m (unat v)) = sig_then (sig_param g m s3) (sig_params g m (unat v))"
        using param [OF s3] by simp
    qed
  qed
qed

lemma sig_type_agree: "sig_left s < f \<Longrightarrow> sig_left s < g \<Longrightarrow> sig_type f m s = sig_type g m s"
proof (induction f arbitrary: g s)
  case (Suc f)
  then obtain h where g: "g = Suc h" by (cases g) auto
  have t: "sig_type f m s1 = sig_type h m s1" if "sig_left s1 < sig_left s" for s1
    using that Suc.prems g by (intro Suc.IH) simp_all
  have P: "sig_types f m k s1 = sig_types h m k s1" "sig_method f m s1 = sig_method h m s1"
    if "sig_left s1 < sig_left s" for k s1
    using sig_parts_agree(1,4) [of "sig_left s" f m h s1] t that by blast+
  show ?case unfolding g sig_type.simps
  proof (rule sig_byte_agree)
    fix b s1 assume s1: "sig_left s1 < sig_left s"
    have "sig_then (sig_type h m s1) (\<lambda>s. sig_number s (\<lambda>args. sig_types f m (unat args)))
      = sig_then (sig_type h m s1) (\<lambda>s. sig_number s (\<lambda>args. sig_types h m (unat args)))"
      by (rule sig_then_agree [OF sig_moved_kept [OF sig_type_moved]], rule sig_number_agree) (use s1 P(1) in simp)
    moreover have "sig_then (sig_type_def_or_ref m s1) (sig_type f m) = sig_then (sig_type_def_or_ref m s1) (sig_type h m)"
      by (rule sig_then_agree [OF sig_moved_kept [OF sig_type_def_or_ref_moved]]) (use s1 t in simp)
    ultimately show "(let e = unat b in
         if e \<in> {0x02..0x0e} \<or> e = 0x16 \<or> e = 0x18 \<or> e = 0x19 \<or> e = 0x1c then (True, s1)
         else if e = 0x0f \<or> e = 0x1d then sig_type f m s1
         else if e = 0x11 \<or> e = 0x12 then sig_type_def_or_ref m s1
         else if e = 0x13 \<or> e = 0x1e then sig_number s1 (\<lambda>_ s. (True, s))
         else if e = 0x14 then sig_then (sig_type f m s1) sig_array_shape
         else if e = 0x15 then sig_then (sig_type f m s1) (\<lambda>s. sig_number s (\<lambda>args s. sig_types f m (unat args) s))
         else if e = 0x1b then sig_method f m s1
         else if is_modifier b then sig_then (sig_type_def_or_ref m s1) (sig_type f m)
         else if b AND 0xf0 = 0x40 then sig_type f m s1
         else (False, s1))
      = (let e = unat b in
         if e \<in> {0x02..0x0e} \<or> e = 0x16 \<or> e = 0x18 \<or> e = 0x19 \<or> e = 0x1c then (True, s1)
         else if e = 0x0f \<or> e = 0x1d then sig_type h m s1
         else if e = 0x11 \<or> e = 0x12 then sig_type_def_or_ref m s1
         else if e = 0x13 \<or> e = 0x1e then sig_number s1 (\<lambda>_ s. (True, s))
         else if e = 0x14 then sig_then (sig_type h m s1) sig_array_shape
         else if e = 0x15 then sig_then (sig_type h m s1) (\<lambda>s. sig_number s (\<lambda>args s. sig_types h m (unat args) s))
         else if e = 0x1b then sig_method h m s1
         else if is_modifier b then sig_then (sig_type_def_or_ref m s1) (sig_type h m)
         else if b AND 0xf0 = 0x40 then sig_type h m s1
         else (False, s1))"
      using t [OF s1] P(2) [OF s1] by (simp only: Let_def)
  qed
qed simp

lemma sig_fuel_enough:
  assumes "sig_left s < f" "sig_left s < g"
  shows "sig_type f m s = sig_type g m s" "sig_params f m k s = sig_params g m k s" "sig_method f m s = sig_method g m s"
proof -
  have t: "sig_type f m s1 = sig_type g m s1" if "sig_left s1 < min f g" for s1
    using that by (intro sig_type_agree) simp_all
  have s: "sig_left s < min f g" using assms by simp
  show "sig_type f m s = sig_type g m s" "sig_params f m k s = sig_params g m k s" "sig_method f m s = sig_method g m s"
    using t [OF s] sig_parts_agree(3,4) [of "min f g" f m g s] t s by blast+
qed

text \<open>The entries: the rewritten blob and the number of rewrites.\<close>

definition sig_result :: "bool \<times> sig_state \<Rightarrow> bytes \<times> nat" where
  "sig_result = (\<lambda>(ok, blob, cursor, n). (blob, n))"

definition transform_method_signature :: "cli_map \<Rightarrow> bytes \<Rightarrow> bytes \<times> nat" where
  "transform_method_signature m blob = sig_result (sig_method (length blob + 1) m (blob, 0, 0))"

definition transform_field_signature :: "cli_map \<Rightarrow> bytes \<Rightarrow> bytes \<times> nat" where
  "transform_field_signature m blob = sig_result (sig_byte (blob, 0, 0) (\<lambda>_. sig_type (length blob + 1) m))"

definition transform_property_signature :: "cli_map \<Rightarrow> bytes \<Rightarrow> bytes \<times> nat" where
  "transform_property_signature m blob = sig_result
     (sig_byte (blob, 0, 0) (\<lambda>_ s. sig_number s (\<lambda>count s.
        sig_then (sig_type (length blob + 1) m s) (sig_params (length blob + 1) m (unat count)))))"

definition transform_type_spec :: "cli_map \<Rightarrow> bytes \<Rightarrow> bytes \<times> nat" where
  "transform_type_spec m blob = sig_result (sig_type (length blob + 1) m (blob, 0, 0))"

lemma sig_result_length: "sig_kept (blob, 0, 0) r \<Longrightarrow> length (fst (sig_result r)) = length blob"
  by (auto simp: sig_result_def sig_kept_def split: prod.splits)

lemma signature_lengths:
  "length (fst (transform_method_signature m blob)) = length blob"
  "length (fst (transform_field_signature m blob)) = length blob"
  "length (fst (transform_property_signature m blob)) = length blob"
  "length (fst (transform_type_spec m blob)) = length blob"
proof -
  note P = sig_parts_kept [OF sig_type_moved] and tk = sig_moved_kept [OF sig_type_moved]
  show "length (fst (transform_method_signature m blob)) = length blob"
    unfolding transform_method_signature_def by (rule sig_result_length, rule sig_moved_kept, rule P)
  show "length (fst (transform_field_signature m blob)) = length blob"
    unfolding transform_field_signature_def by (rule sig_result_length, rule sig_moved_kept) (intro sig_rules tk)
  show "length (fst (transform_property_signature m blob)) = length blob"
    unfolding transform_property_signature_def by (rule sig_result_length, rule sig_moved_kept) (intro sig_rules tk P)
  show "length (fst (transform_type_spec m blob)) = length blob"
    unfolding transform_type_spec_def by (rule sig_result_length, rule tk)
qed

section \<open>The columns of the metadata tables\<close>

definition read_index :: "bytes \<Rightarrow> nat \<Rightarrow> nat \<Rightarrow> u32 option" where
  "read_index img off width =
     (if width = 1 then (if off < length img then Some (ucast (img ! off)) else None)
      else if width = 2 then map_option ucast (read_u16_opt img off)
      else if width = 4 then read_u32_opt img off
      else None)"

definition write_index :: "bytes \<Rightarrow> nat \<Rightarrow> nat \<Rightarrow> u32 \<Rightarrow> bytes \<times> bool" where
  "write_index img off width v =
     (if width = 1 \<and> v \<le> 0xff \<and> off + 1 \<le> length img then (img[off := ucast v], True)
      else if width = 2 \<and> v \<le> 0xffff \<and> off + 2 \<le> length img then (write_u16 img off (ucast v), True)
      else if width = 4 \<and> off + 4 \<le> length img then (write_u32 img off v, True)
      else (img, False))"

definition map_index :: "rift_table \<Rightarrow> u32 \<Rightarrow> u32" where
  "map_index rift v = (if v = 0 then 0 else shift_rid rift v)"

text \<open>The image, the signature blobs found so far (an ordered set), the two counts.\<close>

record column_pass =
  cp_image :: bytes
  cp_blobs :: "(nat \<times> u32) list"
  cp_index_rewrites :: nat
  cp_rva_rewrites :: nat

definition map_cell :: "cli_map \<Rightarrow> coded_token_map option \<Rightarrow> rift_table \<Rightarrow> column_kind \<Rightarrow> u32 \<Rightarrow> u32" where
  "map_cell m tokens rva_map kind v =
     (case kind of
        ColHeap StringsHeap \<Rightarrow> map_index (cm_strings m) v
      | ColHeap GuidHeap \<Rightarrow> map_index (cm_guid m) v
      | ColHeap BlobHeap \<Rightarrow> map_index (cm_blob m) v
      | ColTable t \<Rightarrow> map_index (cm_tables m ! t) v
      | ColCoded k \<Rightarrow>
          (case tokens of None \<Rightarrow> v
           | Some tm \<Rightarrow> (case map_coded_token tm v k of Inl _ \<Rightarrow> v | Inr w \<Rightarrow> w))
      | ColRva \<Rightarrow> map_index rva_map v
      | _ \<Rightarrow> v)"

definition carries_signature :: "nat \<Rightarrow> column_kind \<Rightarrow> u32 \<Rightarrow> bool" where
  "carries_signature t kind v \<longleftrightarrow> v \<noteq> 0 \<and> kind = ColHeap BlobHeap
     \<and> signature_kind_for_table t \<noteq> None \<and> signature_kind_for_table t \<noteq> Some NoTypeRemap"

definition transform_cell ::
  "cli_map \<Rightarrow> coded_token_map option \<Rightarrow> rift_table \<Rightarrow> nat \<Rightarrow> nat \<Rightarrow> nat \<Rightarrow> column_kind \<Rightarrow> u32 \<Rightarrow> column_pass \<Rightarrow> column_pass" where
  "transform_cell m tokens rva_map t cell width kind v p =
     (let p = (if carries_signature t kind v then p\<lparr>cp_blobs := insort_insert (t, v) (cp_blobs p)\<rparr> else p);
          mapped = map_cell m tokens rva_map kind v
      in if mapped = v then p
         else case write_index (cp_image p) cell width mapped of (img, written) \<Rightarrow>
           if \<not> written then p
           else if kind = ColRva then p\<lparr>cp_image := img, cp_rva_rewrites := cp_rva_rewrites p + 1\<rparr>
           else p\<lparr>cp_image := img, cp_index_rewrites := cp_index_rewrites p + 1\<rparr>)"

fun transform_columns ::
  "metadata_model \<Rightarrow> cli_map \<Rightarrow> coded_token_map option \<Rightarrow> rift_table \<Rightarrow> nat \<Rightarrow> nat \<Rightarrow> column_schema list \<Rightarrow> nat
    \<Rightarrow> column_pass \<Rightarrow> column_pass" where
  "transform_columns md m tokens rva_map t row_start [] column_off p = p"
| "transform_columns md m tokens rva_map t row_start ((_, kind) # cs) column_off p =
     (let width = column_width kind (md_row_counts md) (md_heap_widths md);
          cell = row_start + column_off
      in case read_index (cp_image p) cell width of None \<Rightarrow> p
         | Some v \<Rightarrow> transform_columns md m tokens rva_map t row_start cs (column_off + width)
                      (transform_cell m tokens rva_map t cell width kind v p))"

definition transform_table ::
  "metadata_model \<Rightarrow> cli_map \<Rightarrow> coded_token_map option \<Rightarrow> rift_table \<Rightarrow> column_pass \<Rightarrow> nat \<Rightarrow> column_pass" where
  "transform_table md m tokens rva_map p t =
     (case schema_of_table t of None \<Rightarrow> p
      | Some schema \<Rightarrow>
          let row_count = unat (md_row_counts md ! t); row_len = unat (md_row_sizes md ! t)
          in if row_count = 0 \<or> row_len = 0 then p
             else case md_table_offsets md ! t of None \<Rightarrow> p
                  | Some off \<Rightarrow>
                      foldl (\<lambda>p i. transform_columns md m tokens rva_map t (off + i * row_len) (ts_columns schema) 0 p)
                        p [0..<row_count])"

definition blob_value_range :: "bytes \<Rightarrow> cli_stream \<Rightarrow> u32 \<Rightarrow> (nat \<times> nat) option" where
  "blob_value_range img s off =
     (let stream_end = min (st_file_offset s + unat (st_size s)) (length img);
          blob_start = st_file_offset s + unat off
      in if stream_end \<le> blob_start then None
         else case read_compressed_u32 (subrange blob_start stream_end img) of Inl _ \<Rightarrow> None
              | Inr (len, prefix_len) \<Rightarrow>
                  let value_start = blob_start + prefix_len; value_end = value_start + unat len
                  in if stream_end < value_end then None else Some (value_start, value_end))"

definition transform_member_ref_signature :: "cli_map \<Rightarrow> bytes \<Rightarrow> bytes \<times> nat" where
  "transform_member_ref_signature m blob =
     (if blob \<noteq> [] \<and> hd blob = 0x06 then transform_field_signature m blob
      else transform_method_signature m blob)"

definition transform_signature :: "nat \<Rightarrow> cli_map \<Rightarrow> bytes \<Rightarrow> bytes \<times> nat" where
  "transform_signature t m blob =
     (case signature_kind_for_table t of
        Some FieldSig \<Rightarrow> transform_field_signature m blob
      | Some MethodSig \<Rightarrow> transform_method_signature m blob
      | Some MemberRefSig \<Rightarrow> transform_member_ref_signature m blob
      | Some StandAloneSig \<Rightarrow> transform_method_signature m blob
      | Some PropertySig \<Rightarrow> transform_property_signature m blob
      | Some TypeSpecSig \<Rightarrow> transform_type_spec m blob
      | _ \<Rightarrow> (blob, 0))"

definition transform_signature_at ::
  "metadata_model \<Rightarrow> cli_map \<Rightarrow> bytes \<times> nat \<Rightarrow> nat \<times> u32 \<Rightarrow> bytes \<times> nat" where
  "transform_signature_at md m = (\<lambda>(img, n) (t, off).
     case sset_blob (md_streams md) of None \<Rightarrow> (img, n)
     | Some s \<Rightarrow>
         (case blob_value_range img s off of None \<Rightarrow> (img, n)
          | Some (value_start, value_end) \<Rightarrow>
              (case transform_signature t m (subrange value_start value_end img) of (blob, k) \<Rightarrow>
                 (write_at value_start blob img, n + k))))"

record metadata_stats =
  index_rewrites :: nat
  rva_rewrites :: nat
  signature_blob_rewrites :: nat

definition transform_cli_metadata_rva ::
  "bytes \<Rightarrow> metadata_model \<Rightarrow> cli_map \<Rightarrow> rift_table \<Rightarrow> bytes \<times> metadata_stats" where
  "transform_cli_metadata_rva img md m rva_map =
     (let tokens = (case coded_token_map m of Inl _ \<Rightarrow> None | Inr tm \<Rightarrow> Some tm);
          p = foldl (transform_table md m tokens rva_map)
                \<lparr>cp_image = img, cp_blobs = [], cp_index_rewrites = 0, cp_rva_rewrites = 0\<rparr> [0..<64];
          (img, k) = foldl (transform_signature_at md m) (cp_image p, 0) (cp_blobs p)
      in (img, \<lparr>index_rewrites = cp_index_rewrites p, rva_rewrites = cp_rva_rewrites p,
                signature_blob_rewrites = k\<rparr>))"

definition transform_cli_metadata :: "bytes \<Rightarrow> metadata_model \<Rightarrow> cli_map \<Rightarrow> bytes \<times> metadata_stats" where
  "transform_cli_metadata img md m = transform_cli_metadata_rva img md m []"

definition transform_cli4_metadata :: "bytes \<Rightarrow> metadata_model \<Rightarrow> cli_map \<Rightarrow> (bytes \<times> metadata_stats) result" where
  "transform_cli4_metadata img md m =
     (if md_flavor md \<noteq> Cli4 then Inl (Malformed ''CLI4 metadata transform: source metadata flavor mismatch'')
      else Inr (transform_cli_metadata img md m))"

section \<open>The transforms keep the size of the image\<close>

lemma write_index_length: "length (fst (write_index img off width v)) = length img"
  by (auto simp: write_index_def write_u16_def write_u32_def put_field_def)

lemma transform_cell_length: "length (cp_image (transform_cell m tokens rva_map t cell width kind v p)) = length (cp_image p)"
  by (auto simp: transform_cell_def Let_def split: prod.splits
      intro: trans [OF arg_cong [OF prod.sel(1) [symmetric]] write_index_length])
    (metis fst_conv write_index_length)+

lemma transform_columns_length:
  "length (cp_image (transform_columns md m tokens rva_map t row_start cs off p)) = length (cp_image p)"
  by (induction md m tokens rva_map t row_start cs off p rule: transform_columns.induct)
    (simp_all add: Let_def transform_cell_length split: option.splits)

lemma transform_table_length: "length (cp_image (transform_table md m tokens rva_map p t)) = length (cp_image p)"
  by (simp add: transform_table_def Let_def transform_columns_length foldl_part_length split: option.splits)

lemma transform_signature_length: "length (fst (transform_signature t m blob)) = length blob"
  by (simp add: transform_signature_def transform_member_ref_signature_def signature_lengths
      split: option.splits signature_kind.splits)

lemma transform_signature_at_length: "length (fst (transform_signature_at md m p x)) = length (fst p)"
proof -
  obtain img n t off where px: "p = (img, n)" "x = (t, off)" by (metis prod.exhaust)
  have "length (write_at a blob img) = length img"
    if "blob_value_range img s off = Some (a, b)" "transform_signature t m (subrange a b img) = (blob, k)" for s a b blob k
  proof -
    have ab: "a \<le> b" "b \<le> length img"
      using that(1) by (auto simp: blob_value_range_def Let_def split: if_splits sum.splits)
    have "length blob = b - a" using transform_signature_length [of t m "subrange a b img"] that(2) ab by simp
    then show ?thesis using ab by simp
  qed
  then show ?thesis by (auto simp: transform_signature_at_def px split: option.splits prod.splits)
qed

lemma transform_cli_metadata_length: "length (fst (transform_cli_metadata_rva img md m rva_map)) = length img"
  by (simp add: transform_cli_metadata_rva_def Let_def case_prod_beta foldl_part_length [of fst]
      transform_signature_at_length foldl_part_length [of cp_image] transform_table_length)

lemma transform_il_length: "length (fst (transform_il_from m il cursor n)) = length il"
proof (induction m il cursor n rule: transform_il_from.induct)
  case (1 m il cursor n)
  show ?case
  proof (cases "cursor < length il")
    case False
    then show ?thesis by (subst transform_il_from.simps) simp
  next
    case True
    show ?thesis
    proof (cases "il_step m il cursor")
      case (Some r)
      obtain il' cursor' k where r: "r = (il', cursor', k)" by (metis prod.exhaust)
      then show ?thesis using True Some 1 [OF True Some] il_step_progress [of m il cursor il' cursor' k]
        by (subst transform_il_from.simps) simp
    qed (subst transform_il_from.simps, simp add: True)
  qed
qed

lemma disasm_body_length: "length (fst (disasm_body md m p body)) = length (fst p)"
proof -
  obtain img n where p: "p = (img, n)" by (metis prod.exhaust)
  define a where "a = mb_file_offset body + mb_header_size body"
  define b where "b = a + mb_code_size body"
  have "length (write_at a il img) = length img"
    if "b \<le> length img" "transform_il_tokens used (subrange a b img) = (il, k)" for used il k
  proof -
    have "length il = b - a" using transform_il_length [of used "subrange a b img" 0 0] that
      by (simp add: transform_il_tokens_def b_def)
    then show ?thesis using that(1) by (simp add: b_def)
  qed
  then show ?thesis
    by (auto simp: disasm_body_def p Let_def a_def b_def not_less split: prod.splits)
qed

lemma transform_cli_disasm_length: "length (fst (transform_cli_disasm img pe md m)) = length img"
  by (simp add: transform_cli_disasm_def foldl_part_length [of fst] disasm_body_length)

text \<open>
  The passes over managed images never change the size of the image, whatever the metadata, the
  signatures and the code hold: neither the index columns with the signature blobs they reach, nor
  the token operands of the method bodies. The offsets that later passes use stay valid.
\<close>

lemma cli_passes_keep_size:
  "length (fst (transform_cli_metadata_rva img md m rva_map)) = length img
    \<and> length (fst (transform_cli_disasm img pe md m)) = length img"
  by (simp add: transform_cli_metadata_length transform_cli_disasm_length)

end
