(* ===== verification/CliRift.thy ===== *)
theory CliRift imports CliMap CliMetadata begin

text \<open>
  The copy rift of managed images, \<open>src/pe/cli/rift.rs\<close>: from target file offsets to source file
  offsets, over the heaps, the GUID table, the rows of the metadata tables, and the columns
  whose width differs between source and target. The entries are collected in the code's order
  and sorted at the end; sums of \<open>i64\<close> offsets wrap.
\<close>

section \<open>Heaps and rows\<close>

definition source_sentinel :: i64 where
  "source_sentinel = 0xffffffff"

definition entry_at :: "i64 \<Rightarrow> i64 \<Rightarrow> rift_entry" where
  "entry_at s t = \<lparr>re_source = s, re_target = t\<rparr>"

abbreviation up_to_sentinel :: "rift_table \<Rightarrow> rift_table" where
  "up_to_sentinel \<equiv> takeWhile (\<lambda>e. \<not> source_sentinel <s re_source e)"

definition heap_rift_entries :: "i64 \<Rightarrow> i64 \<Rightarrow> rift_table \<Rightarrow> rift_table" where
  "heap_rift_entries source_off target_off heap_map =
     (if heap_map = [] then [entry_at target_off source_off]
      else map (\<lambda>e. entry_at (target_off + re_target e) (source_off + re_source e)) (up_to_sentinel heap_map))"

definition optional_heap_entries :: "cli_stream option \<Rightarrow> stream_slot \<Rightarrow> rift_table \<Rightarrow> rift_table" where
  "optional_heap_entries source_stream target_slot heap_map =
     (case source_stream of None \<Rightarrow> []
      | Some s \<Rightarrow>
          if sl_size target_slot = 0 then []
          else heap_rift_entries (of_nat (st_file_offset s)) (ucast (sl_file_offset target_slot)) heap_map)"

definition table_row_file_offset :: "i64 \<Rightarrow> i64 \<Rightarrow> i64 \<Rightarrow> i64" where
  "table_row_file_offset off row_len rid = (if rid \<le>s 0 then off + rid else off + (rid - 1) * row_len)"

definition table_rift_entries :: "i64 \<Rightarrow> i64 \<Rightarrow> u32 \<Rightarrow> u32 \<Rightarrow> rift_table \<Rightarrow> rift_table" where
  "table_rift_entries source_off target_off source_row target_row table_map =
     (if source_row = 0 \<or> target_row = 0 then []
      else if table_map = [] then [entry_at target_off source_off]
      else map (\<lambda>e. entry_at (table_row_file_offset target_off (ucast target_row) (re_target e))
                             (table_row_file_offset source_off (ucast source_row) (re_source e)))
             (up_to_sentinel table_map))"

definition optional_guid_entries :: "cli_stream option \<Rightarrow> stream_slot \<Rightarrow> rift_table \<Rightarrow> rift_table" where
  "optional_guid_entries source_stream target_slot guid_map =
     (case source_stream of None \<Rightarrow> []
      | Some s \<Rightarrow>
          if sl_size target_slot = 0 then []
          else table_rift_entries (of_nat (st_file_offset s)) (ucast (sl_file_offset target_slot)) 16 16 guid_map)"

definition heap_compression_entries :: "metadata_model \<Rightarrow> metadata_record \<Rightarrow> cli_map \<Rightarrow> rift_table" where
  "heap_compression_entries md rec m =
     optional_heap_entries (sset_strings (md_streams md)) (ss_strings (mr_streams rec)) (cm_strings m)
     @ optional_heap_entries (sset_user_strings (md_streams md)) (ss_user_strings (mr_streams rec)) (cm_user_strings m)
     @ optional_heap_entries (sset_blob (md_streams md)) (ss_blob (mr_streams rec)) (cm_blob m)"

section \<open>Columns that change their width\<close>

record width_layout =
  wl_table :: nat
  wl_source_off :: i64
  wl_target_off :: i64
  wl_source_rows :: u32
  wl_source_row :: u32
  wl_target_row :: u32
  wl_source_counts :: "u32 list"
  wl_target_counts :: "u32 list"
  wl_source_widths :: heap_widths
  wl_target_widths :: heap_widths
  wl_fill :: i64

text \<open>The file offsets of a column in the source row and in the row it maps to.\<close>

definition column_offsets :: "width_layout \<Rightarrow> rift_table \<Rightarrow> i64 \<Rightarrow> i64 \<Rightarrow> nat \<Rightarrow> i64 \<times> i64" where
  "column_offsets l table_map source_col target_col rid =
     (let source_rid = of_nat rid; target_rid = map_rid_wide table_map source_rid
      in (table_row_file_offset (wl_source_off l) (ucast (wl_source_row l)) source_rid + source_col,
          table_row_file_offset (wl_target_off l) (ucast (wl_target_row l)) target_rid + target_col))"

definition widened_entries :: "width_layout \<Rightarrow> rift_table \<Rightarrow> i64 \<Rightarrow> i64 \<Rightarrow> bool \<Rightarrow> rift_table" where
  "widened_entries l table_map source_col target_col has_following =
     concat (map (\<lambda>rid. case column_offsets l table_map source_col target_col rid of (s, t) \<Rightarrow>
         entry_at (t + 2) (wl_fill l) # (if has_following then [entry_at (t + 4) (s + 2)] else []))
       [1..<Suc (unat (wl_source_rows l))])"

definition narrowed_entries :: "width_layout \<Rightarrow> rift_table \<Rightarrow> i64 \<Rightarrow> i64 \<Rightarrow> rift_table" where
  "narrowed_entries l table_map source_col target_col =
     map (\<lambda>rid. case column_offsets l table_map source_col target_col rid of (s, t) \<Rightarrow> entry_at (t + 2) (s + 4))
       [1..<Suc (unat (wl_source_rows l))]"

fun hole_columns :: "width_layout \<Rightarrow> rift_table \<Rightarrow> column_schema list \<Rightarrow> i64 \<Rightarrow> i64 \<Rightarrow> rift_table" where
  "hole_columns l table_map [] source_col target_col = []"
| "hole_columns l table_map ((_, kind) # cs) source_col target_col =
     (let source_width = column_width kind (wl_source_counts l) (wl_source_widths l);
          target_width = column_width kind (wl_target_counts l) (wl_target_widths l);
          has_following = (cs \<noteq> [])
      in (if source_width = 2 \<and> target_width = 4
          then widened_entries l table_map source_col target_col has_following
          else if source_width = 4 \<and> target_width = 2 \<and> has_following
          then narrowed_entries l table_map source_col target_col
          else [])
         @ hole_columns l table_map cs (source_col + of_nat source_width) (target_col + of_nat target_width))"

definition width_hole_entries :: "width_layout \<Rightarrow> rift_table \<Rightarrow> rift_table" where
  "width_hole_entries l table_map =
     (if wl_source_rows l = 0 \<or> wl_source_row l = 0 \<or> wl_target_row l = 0 then []
      else case schema_of_table (wl_table l) of None \<Rightarrow> []
           | Some schema \<Rightarrow> hole_columns l table_map (ts_columns schema) 0 0)"

section \<open>The producers\<close>

definition build_cli_heap_rift :: "nat \<Rightarrow> u32 \<Rightarrow> rift_table \<Rightarrow> rift_table" where
  "build_cli_heap_rift source_off target_off heap_map =
     rift_sort (heap_rift_entries (of_nat source_off) (ucast target_off) heap_map)"

definition build_cli_heap_compression_rift :: "metadata_model \<Rightarrow> metadata_record \<Rightarrow> cli_map \<Rightarrow> rift_table" where
  "build_cli_heap_compression_rift md rec m =
     (if record_is_empty rec then [] else rift_sort (heap_compression_entries md rec m))"

definition build_cli_table_rift :: "nat \<Rightarrow> nat \<Rightarrow> u32 \<Rightarrow> u32 \<Rightarrow> rift_table \<Rightarrow> rift_table" where
  "build_cli_table_rift source_off target_off source_row target_row table_map =
     rift_sort (table_rift_entries (of_nat source_off) (of_nat target_off) source_row target_row table_map)"

definition build_cli_table_width_hole_rift :: "width_layout \<Rightarrow> rift_table \<Rightarrow> rift_table" where
  "build_cli_table_width_hole_rift l table_map = rift_sort (width_hole_entries l table_map)"

definition table_compression_entries ::
  "metadata_model \<Rightarrow> metadata_record \<Rightarrow> cli_map \<Rightarrow> i64 option \<Rightarrow> nat \<Rightarrow> rift_table" where
  "table_compression_entries md rec m fill t =
     (case (md_table_offsets md ! t, mr_table_offsets rec ! t) of
        (Some source_off, Some target_off) \<Rightarrow>
          table_rift_entries (of_nat source_off) (of_nat target_off) (md_row_sizes md ! t) (mr_row_sizes rec ! t)
            (cm_tables m ! t)
          @ (case fill of None \<Rightarrow> []
             | Some fill_off \<Rightarrow>
                 width_hole_entries
                   \<lparr>wl_table = t, wl_source_off = of_nat source_off, wl_target_off = of_nat target_off,
                    wl_source_rows = md_row_counts md ! t, wl_source_row = md_row_sizes md ! t,
                    wl_target_row = mr_row_sizes rec ! t, wl_source_counts = md_row_counts md,
                    wl_target_counts = mr_row_counts rec, wl_source_widths = md_heap_widths md,
                    wl_target_widths = mr_heap_widths rec, wl_fill = fill_off\<rparr> (cm_tables m ! t))
      | _ \<Rightarrow> [])"

definition build_cli_compression_rift :: "metadata_model \<Rightarrow> metadata_record \<Rightarrow> cli_map \<Rightarrow> i64 option \<Rightarrow> rift_table" where
  "build_cli_compression_rift md rec m fill =
     (if record_is_empty rec then []
      else rift_sort
        (heap_compression_entries md rec m
         @ optional_guid_entries (sset_guid (md_streams md)) (ss_guid (mr_streams rec)) (cm_guid m)
         @ concat (map (table_compression_entries md rec m fill) [0..<64])))"

definition source_widening_fill_offset :: "bytes \<Rightarrow> nat" where
  "source_widening_fill_offset img =
     (case find (\<lambda>i. img ! i = 0 \<and> img ! (i + 1) = 0) [0..<length img - 1] of
        None \<Rightarrow> length img | Some i \<Rightarrow> i)"

definition compression_rift_from_transformed :: "metadata_model \<Rightarrow> metadata_record \<Rightarrow> cli_map \<Rightarrow> bytes \<Rightarrow> rift_table" where
  "compression_rift_from_transformed md rec m img =
     build_cli_compression_rift md rec m (Some (of_nat (source_widening_fill_offset img)))"

definition build_cli4_compression_rift ::
  "metadata_model \<Rightarrow> metadata_record \<Rightarrow> cli_map \<Rightarrow> i64 option \<Rightarrow> rift_table result" where
  "build_cli4_compression_rift md rec m fill =
     (if md_flavor md \<noteq> Cli4 then Inl (Malformed ''CLI4 compression rift: source metadata flavor mismatch'')
      else if mr_flavor rec \<noteq> Cli4 then Inl (Malformed ''CLI4 compression rift: target metadata flavor mismatch'')
      else Inr (build_cli_compression_rift md rec m fill))"

section \<open>Lemmas\<close>

text \<open>Where no width differs there is no hole.\<close>

lemma no_width_no_hole:
  assumes "wl_source_counts l = wl_target_counts l" "wl_source_widths l = wl_target_widths l"
  shows "width_hole_entries l table_map = []"
proof -
  have "hole_columns l table_map cs a b = []" for cs a b
    using assms by (induction l table_map cs a b rule: hole_columns.induct) (auto simp: Let_def)
  then show ?thesis by (simp add: width_hole_entries_def split: option.splits)
qed

lemma compression_rift_sorted: "rift_sorted (build_cli_compression_rift md rec m fill)"
  by (simp add: build_cli_compression_rift_def rift_sort_def)

lemma no_record_no_rift: "build_cli_compression_rift md (empty_record flavor) m fill = []"
  by (simp add: build_cli_compression_rift_def record_is_empty_def empty_record_def)

end
