(* ===== verification/LzmsCoder.thy ===== *)
theory LzmsCoder imports Prelude BitWriter begin

text \<open>
  The coders of the LZMS crate: the backward bit stream (\<open>crates/lzms/src/adaptive.rs\<close>), the
  adaptive bit models with the range encoder and decoder (\<open>crates/lzms/src/range_coder.rs\<close>), and
  the slot tables of offsets and lengths (\<open>crates/lzms/src/tables.rs\<close>). Positions, counts, states
  and symbols are naturals; registers keep their widths.
\<close>

type_synonym 'a lz_result = "lzms_error + 'a"

text \<open>Computations that may fail with an error or never end.\<close>

type_synonym ('e, 'a) run = "('e + 'a) option"

definition run_bind :: "('e, 'a) run \<Rightarrow> ('a \<Rightarrow> ('e, 'b) run) \<Rightarrow> ('e, 'b) run" where
  "run_bind m f = Option.bind m (\<lambda>r. case r of Inl e \<Rightarrow> Some (Inl e) | Inr x \<Rightarrow> f x)"

lemma run_bind_simps [simp]:
  "run_bind None f = None" "run_bind (Some (Inl e)) f = Some (Inl e)" "run_bind (Some (Inr x)) f = f x"
  by (simp_all add: run_bind_def)

lemma run_bind_mono [partial_function_mono]:
  assumes "mono_option m" "\<And>x. mono_option (\<lambda>g. f x g)"
  shows "mono_option (\<lambda>g. run_bind (m g) (\<lambda>x. f x g))"
proof -
  have "mono_option (\<lambda>g. case r of Inl e \<Rightarrow> Some (Inl e) | Inr x \<Rightarrow> f x g)" for r
    using assms(2) by (cases r) (auto simp: monotone_def flat_ord_def)
  then show ?thesis unfolding run_bind_def by (intro bind_mono assms(1))
qed

lemma run_bind_ok: "run_bind m f = Some (Inr y) \<longleftrightarrow> (\<exists>x. m = Some (Inr x) \<and> f x = Some (Inr y))"
proof (cases m)
  case (Some r)
  then show ?thesis by (cases r) simp_all
qed simp

definition le16 :: "bytes \<Rightarrow> nat \<Rightarrow> u16" where
  "le16 data pos = from_le [data ! pos, data ! (pos + 1)]"

section \<open>The backward bit stream\<close>

record back_bits =
  bb_data :: bytes
  bb_pos :: nat
  bb_buf :: u64
  bb_bits :: nat

definition back_new :: "bytes \<Rightarrow> back_bits" where
  "back_new data = \<lparr>bb_data = data, bb_pos = length data, bb_buf = 0, bb_bits = 0\<rparr>"

function back_ensure :: "nat \<Rightarrow> back_bits \<Rightarrow> back_bits" where
  "back_ensure n b =
     (if bb_bits b < n \<and> 2 \<le> bb_pos b then
        let pos = bb_pos b - 2; w = ucast (le16 (bb_data b) pos)
        in back_ensure n (b\<lparr>bb_pos := pos, bb_buf := bb_buf b OR push_bit (48 - bb_bits b) w,
                            bb_bits := bb_bits b + 16\<rparr>)
      else b)"
  by pat_completeness auto
termination by (relation "measure (\<lambda>(n, b). bb_pos b)") auto

declare back_ensure.simps [simp del]

definition back_peek :: "nat \<Rightarrow> back_bits \<Rightarrow> u32" where
  "back_peek n b = ucast (drop_bit (64 - n) (bb_buf b))"

definition back_consume :: "nat \<Rightarrow> back_bits \<Rightarrow> back_bits" where
  "back_consume n b = b\<lparr>bb_buf := push_bit n (bb_buf b), bb_bits := bb_bits b - n\<rparr>"

definition back_read :: "nat \<Rightarrow> back_bits \<Rightarrow> u32 \<times> back_bits" where
  "back_read n b =
     (if n = 0 then (0, b) else let b = back_ensure n b in (back_peek n b, back_consume n b))"

record back_writer =
  bw_buf :: u64
  bw_bits :: nat
  bw_out :: bytes

definition back_writer_new :: back_writer where
  "back_writer_new = \<lparr>bw_buf = 0, bw_bits = 0, bw_out = []\<rparr>"

definition word_le :: "u16 \<Rightarrow> bytes" where
  "word_le w = [ucast w, ucast (drop_bit 8 w)]"

function back_flush :: "back_writer \<Rightarrow> back_writer" where
  "back_flush w =
     (if 16 \<le> bw_bits w then
        let bits = bw_bits w - 16
        in back_flush (w\<lparr>bw_bits := bits, bw_out := bw_out w @ word_le (ucast (drop_bit bits (bw_buf w))),
                         bw_buf := bw_buf w AND mask bits\<rparr>)
      else w)"
  by pat_completeness auto
termination by (relation "measure bw_bits") auto

declare back_flush.simps [simp del]

definition back_write :: "u32 \<Rightarrow> nat \<Rightarrow> back_writer \<Rightarrow> back_writer" where
  "back_write v n w = back_flush (w\<lparr>bw_buf := push_bit n (bw_buf w) OR ucast v, bw_bits := bw_bits w + n\<rparr>)"

fun pairs_reversed :: "bytes \<Rightarrow> bytes" where
  "pairs_reversed (a # b # rest) = pairs_reversed rest @ [a, b]"
| "pairs_reversed rest = rest"

definition back_finish :: "back_writer \<Rightarrow> bytes \<Rightarrow> bytes" where
  "back_finish w out =
     out @ (if 0 < bw_bits w then word_le (ucast (push_bit (16 - bw_bits w) (bw_buf w))) else [])
     @ pairs_reversed (bw_out w)"

section \<open>Adaptive bit models\<close>

definition prob_max :: nat where "prob_max = 63"

record prob_entry =
  pr_zeros :: nat
  pr_recent :: u64

definition prob_new :: prob_entry where
  "prob_new = \<lparr>pr_zeros = 48, pr_recent = 0x55555555\<rparr>"

definition prob_get :: "prob_entry \<Rightarrow> nat" where
  "prob_get p = min (max (pr_zeros p) 1) prob_max"

definition prob_update :: "bool \<Rightarrow> prob_entry \<Rightarrow> prob_entry" where
  "prob_update b p =
     (let oldest = bit (pr_recent p) 63;
          zeros = (if oldest then pr_zeros p else pr_zeros p - 1)
      in \<lparr>pr_zeros = (if b then zeros else zeros + 1),
          pr_recent = push_bit 1 (pr_recent p) OR of_bool b\<rparr>)"

text \<open>
  A class of decisions: the state, which is the recent decisions as a number below the number of
  states, and one entry per state.
\<close>

record bit_model =
  bm_state :: nat
  bm_probs :: "prob_entry list"

definition bit_model_new :: "nat \<Rightarrow> bit_model" where
  "bit_model_new n = \<lparr>bm_state = 0, bm_probs = replicate n prob_new\<rparr>"

definition model_prob :: "bit_model \<Rightarrow> nat" where
  "model_prob m = prob_get (bm_probs m ! bm_state m)"

definition model_update :: "bool \<Rightarrow> bit_model \<Rightarrow> bit_model" where
  "model_update b m =
     \<lparr>bm_state = (2 * bm_state m + of_bool b) mod length (bm_probs m),
      bm_probs = (bm_probs m)[bm_state m := prob_update b (bm_probs m ! bm_state m)]\<rparr>"

text \<open>The models of a stream.\<close>

record prob_tables =
  pb_main :: bit_model
  pb_match :: bit_model
  pb_lz :: bit_model
  pb_lz_rep0 :: bit_model
  pb_lz_rep1 :: bit_model
  pb_delta :: bit_model
  pb_delta_rep0 :: bit_model
  pb_delta_rep1 :: bit_model

definition prob_tables_new :: prob_tables where
  "prob_tables_new =
     \<lparr>pb_main = bit_model_new 16, pb_match = bit_model_new 32, pb_lz = bit_model_new 64,
      pb_lz_rep0 = bit_model_new 64, pb_lz_rep1 = bit_model_new 64, pb_delta = bit_model_new 64,
      pb_delta_rep0 = bit_model_new 64, pb_delta_rep1 = bit_model_new 64\<rparr>"

section \<open>Range coder\<close>

record range_decoder =
  rc_data :: bytes
  rc_pos :: nat
  rc_range :: u32
  rc_code :: u32

definition range_decoder_new :: "bytes \<Rightarrow> range_decoder" where
  "range_decoder_new data =
     \<lparr>rc_data = data, rc_pos = 4, rc_range = 0xFFFFFFFF,
      rc_code = push_bit 16 (ucast (le16 data 0)) OR ucast (le16 data 2)\<rparr>"

definition rc_normalize :: "range_decoder \<Rightarrow> range_decoder" where
  "rc_normalize r =
     (if rc_range r < 0x10000 then
        let r = r\<lparr>rc_range := push_bit 16 (rc_range r)\<rparr>
        in if rc_pos r + 2 \<le> length (rc_data r)
           then r\<lparr>rc_code := push_bit 16 (rc_code r) OR ucast (le16 (rc_data r) (rc_pos r)), rc_pos := rc_pos r + 2\<rparr>
           else r\<lparr>rc_code := push_bit 16 (rc_code r)\<rparr>
      else r)"

definition range_bound :: "u32 \<Rightarrow> nat \<Rightarrow> u32" where
  "range_bound width prob = drop_bit 6 width * of_nat prob"

definition decode_bit :: "range_decoder \<Rightarrow> bit_model \<Rightarrow> bool \<times> range_decoder \<times> bit_model" where
  "decode_bit r m =
     (let r = rc_normalize r;
          bound = range_bound (rc_range r) (model_prob m);
          b = (bound \<le> rc_code r);
          r = (if b then r\<lparr>rc_range := rc_range r - bound, rc_code := rc_code r - bound\<rparr>
               else r\<lparr>rc_range := bound\<rparr>)
      in (b, r, model_update b m))"

record range_encoder =
  re_low :: u64
  re_range :: u32
  re_cache :: u16
  re_cache_count :: nat
  re_first :: bool
  re_out :: bytes

definition range_encoder_new :: range_encoder where
  "range_encoder_new = \<lparr>re_low = 0, re_range = 0xFFFFFFFF, re_cache = 0, re_cache_count = 0,
     re_first = True, re_out = []\<rparr>"

definition shift_low :: "range_encoder \<Rightarrow> range_encoder" where
  "shift_low e =
     (let overflow = (drop_bit 32 (re_low e) \<noteq> 0);
          e = (if re_low e < 0xFFFF0000 \<or> overflow then
                 let fill = (if overflow then 0 else - 1 :: u16);
                     out = (if re_first e then re_out e
                            else re_out e @ word_le (re_cache e + of_bool overflow)
                                 @ concat (replicate (re_cache_count e) (word_le fill)))
                 in e\<lparr>re_out := out, re_first := False, re_cache := ucast (drop_bit 16 (re_low e)),
                      re_cache_count := 0\<rparr>
               else e\<lparr>re_cache_count := re_cache_count e + 1\<rparr>)
      in e\<lparr>re_low := push_bit 16 (re_low e AND 0xFFFF), re_range := push_bit 16 (re_range e)\<rparr>)"

text \<open>The loop of \<open>normalize\<close>: a range that is 0 would never end it, so the rounds are bounded; two
  always suffice for a range above 0.\<close>

fun re_normalize_rounds :: "nat \<Rightarrow> range_encoder \<Rightarrow> range_encoder" where
  "re_normalize_rounds 0 e = e"
| "re_normalize_rounds (Suc n) e =
     (if re_range e < 0x10000 then re_normalize_rounds n (shift_low e) else e)"

definition re_normalize :: "range_encoder \<Rightarrow> range_encoder" where
  "re_normalize = re_normalize_rounds 2"

definition encode_bit :: "bool \<Rightarrow> range_encoder \<Rightarrow> bit_model \<Rightarrow> range_encoder \<times> bit_model" where
  "encode_bit b e m =
     (let e = re_normalize e;
          bound = range_bound (re_range e) (model_prob m);
          e = (if b then e\<lparr>re_low := re_low e + ucast bound, re_range := re_range e - bound\<rparr>
               else e\<lparr>re_range := bound\<rparr>)
      in (e, model_update b m))"

definition range_finish :: "range_encoder \<Rightarrow> bytes \<Rightarrow> bytes" where
  "range_finish e out = re_out ((shift_low ^^ 4) e) @ out"

section \<open>Slot tables\<close>

definition offset_groups :: "(nat \<times> nat) list" where
  "offset_groups =
     [(8, 0), (9, 2), (7, 3), (10, 4), (15, 5), (15, 6), (20, 7), (20, 8), (30, 9), (33, 10), (40, 11),
      (42, 12), (45, 13), (60, 14), (73, 15), (80, 16), (85, 17), (95, 18), (105, 19), (6, 20), (1, 30)]"

fun group_bases :: "nat \<Rightarrow> nat \<Rightarrow> nat \<Rightarrow> nat list" where
  "group_bases 0 gap v = []"
| "group_bases (Suc n) gap v = v # group_bases n gap (min (v + gap) (2 ^ 32 - 1))"

fun all_bases :: "(nat \<times> nat) list \<Rightarrow> nat \<Rightarrow> nat list" where
  "all_bases [] v = [0x465BE4A5]"
| "all_bases ((count, eb) # groups) v =
     group_bases count (2 ^ eb) v @ all_bases groups (min (v + count * 2 ^ eb) (2 ^ 32 - 1))"

definition offset_bases :: "nat list" where
  "offset_bases = all_bases offset_groups 1"

definition slot_extra_bits :: "nat \<Rightarrow> nat" where
  "slot_extra_bits slot =
     (let gap = offset_bases ! (slot + 1) - offset_bases ! slot
      in if gap \<le> 1 then 0 else 31 - leading_zeros (of_nat gap :: u32))"

definition length_bases :: "nat list" where
  "length_bases =
     [1, 2, 3, 4, 5, 6, 7, 8, 9, 10, 11, 12, 13, 14, 15, 16, 17, 18, 19, 20, 21, 22, 23, 24, 25, 26, 27,
      29, 31, 33, 35, 39, 43, 47, 51, 55, 59, 67, 75, 83, 91, 107, 123, 139, 155, 171, 203, 235, 299, 427,
      683, 1195, 2219, 67755, 0x400108AB]"

definition length_extra :: "nat list" where
  "length_extra =
     [0, 0, 0, 0, 0, 0, 0, 0, 0, 0, 0, 0, 0, 0, 0, 0, 0, 0, 0, 0, 0, 0, 0, 0, 0, 0, 1, 1, 1, 1, 2, 2,
      2, 2, 2, 2, 3, 3, 3, 3, 4, 4, 4, 4, 4, 5, 5, 6, 7, 8, 9, 10, 16, 30]"

text \<open>The slots an output of the given size can use: those whose base lies below the size.\<close>

definition num_offset_slots :: "nat \<Rightarrow> nat" where
  "num_offset_slots out_size =
     (if out_size < 2 then 0
      else 1 + length (takeWhile (\<lambda>v. v < out_size) (butlast (tl offset_bases))))"

definition slot_offset :: "nat \<Rightarrow> back_bits \<Rightarrow> nat \<times> back_bits" where
  "slot_offset slot b =
     (let base = offset_bases ! slot; eb = slot_extra_bits slot
      in if eb = 0 then (base, b)
         else case back_read eb b of (v, b) \<Rightarrow> (base + unat v, b))"

definition slot_length :: "nat \<Rightarrow> back_bits \<Rightarrow> nat \<times> back_bits" where
  "slot_length slot b =
     (let base = length_bases ! slot; eb = length_extra ! slot
      in if eb = 0 then (base, b)
         else case back_read eb b of (v, b) \<Rightarrow> (base + unat v, b))"

end
