(* ===== verification/LzmsHuffman.thy ===== *)
theory LzmsHuffman imports LzmsCoder "HOL-Library.Product_Lexorder" begin

text \<open>
  The adaptive Huffman codes of LZMS (\<open>crates/lzms/src/adaptive.rs\<close>): code lengths from symbol counts
  by merging two queues, the decoding table of 1024 entries with its overflow nodes, the codes
  of the encoder, and the rebuild behind every \<open>rebuild_freq\<close> symbols. The lengths are computed
  again with halved counts until none exceeds 15; a computation that never gets there is the value
  \<open>None\<close>. Counts, symbols and node numbers are naturals, table entries 16 bit words.
\<close>

section \<open>Code lengths\<close>

text \<open>
  The nodes are numbered: the leaves in ascending order of their counts, behind them the inner
  nodes in the order of their making, which is also the order of the second queue.
\<close>

definition pick_min :: "nat list \<Rightarrow> nat \<Rightarrow> nat \<Rightarrow> nat \<Rightarrow> nat \<times> nat \<times> nat" where
  "pick_min ws num q1 q2 =
     (if \<not> num + q2 < length ws \<or> (q1 < num \<and> ws ! q1 \<le> ws ! (num + q2))
      then (q1, q1 + 1, q2) else (num + q2, q1, q2 + 1))"

fun merge_queues :: "nat \<Rightarrow> nat \<Rightarrow> nat \<Rightarrow> nat \<Rightarrow> nat list \<Rightarrow> (nat \<times> nat) list \<Rightarrow> (nat \<times> nat) list" where
  "merge_queues 0 num q1 q2 ws kids = kids"
| "merge_queues (Suc n) num q1 q2 ws kids =
     (case pick_min ws num q1 q2 of (l, q1, q2) \<Rightarrow>
        case pick_min ws num q1 q2 of (r, q1, q2) \<Rightarrow>
          merge_queues n num q1 q2 (ws @ [min (ws ! l + ws ! r) (2 ^ 32 - 1)]) (kids @ [(l, r)]))"

text \<open>The walk from the root with an explicit stack: the depths and the greatest depth of a leaf.\<close>

partial_function (option) walk_depths ::
  "(nat \<times> nat) list \<Rightarrow> nat \<Rightarrow> (nat \<times> nat) list \<Rightarrow> nat list \<Rightarrow> nat \<Rightarrow> (nat list \<times> nat) option" where
  "walk_depths kids num todo depth max_depth =
     (case todo of [] \<Rightarrow> Some (depth, max_depth)
      | (node, d) # todo \<Rightarrow>
          if node < num then walk_depths kids num todo (depth[node := d]) (max max_depth d)
          else walk_depths kids num
                 ((snd (kids ! (node - num)), d + 1) # (fst (kids ! (node - num)), d + 1) # todo)
                 (depth[node := d]) max_depth)"

fun set_lengths :: "(nat \<times> nat) list \<Rightarrow> nat list \<Rightarrow> nat list \<Rightarrow> nat list" where
  "set_lengths [] depth lens = lens"
| "set_lengths ((_, s) # active) depth lens = set_lengths active (tl depth) (lens[s := List.hd depth])"

partial_function (option) limit_lengths :: "nat \<Rightarrow> (nat \<times> nat) list \<Rightarrow> nat list option" where
  "limit_lengths n active =
     (let active = sort active; num = length active;
          kids = merge_queues (num - 1) num 0 0 (map fst active) []
      in Option.bind (walk_depths kids num [(2 * num - 2, 0)] (replicate (2 * num - 1) 0) 0)
           (\<lambda>(depth, max_depth).
              if max_depth \<le> 15 then Some (set_lengths active depth (replicate n 0))
              else limit_lengths n (map (\<lambda>(f, s). ((f + 1) div 2, s)) active)))"

definition compute_lengths :: "nat list \<Rightarrow> nat list option" where
  "compute_lengths freqs =
     (let n = length freqs;
          active = filter (\<lambda>(f, s). 0 < f) (zip freqs [0..<n])
      in if active = [] then Some (replicate n 0)
         else if length active = 1 then Some ((replicate n 0)[snd (active ! 0) := 1])
         else limit_lengths n active)"

section \<open>Tables\<close>

record adaptive_code =
  ac_rebuild :: nat
  ac_freqs :: "nat list"
  ac_countdown :: nat
  ac_direct :: "u16 list"
  ac_overflow :: "(u16 \<times> u16) list"
  ac_codes :: "nat list"
  ac_lens :: "nat list"

definition length_count :: "nat list \<Rightarrow> nat \<Rightarrow> nat" where
  "length_count lens l = (if l = 0 then 0 else count_list lens l)"

text \<open>The first code of every length, 0 to 15.\<close>

definition first_codes :: "nat list \<Rightarrow> nat list" where
  "first_codes lens =
     snd (foldl (\<lambda>(code, cs) l. let code = 2 * (code + length_count lens (l - 1)) in (code, cs @ [code]))
       (0, [0]) [1..<16])"

fun number_codes :: "nat list \<Rightarrow> nat list \<Rightarrow> nat list" where
  "number_codes [] next_codes = []"
| "number_codes (l # ls) next_codes =
     (if l = 0 then 0 # number_codes ls next_codes
      else next_codes ! l # number_codes ls (next_codes[l := next_codes ! l + 1]))"

definition table_entry :: "nat \<Rightarrow> nat \<Rightarrow> u16" where
  "table_entry s len = push_bit 4 (of_nat s) OR of_nat len"

definition overflow_entry :: "nat \<Rightarrow> u16" where
  "overflow_entry node = 0x8000 OR of_nat node"

definition overflow_node :: "u16 \<Rightarrow> nat" where
  "overflow_node e = unat (e AND 0x7fff)"

definition child :: "u16 \<times> u16 \<Rightarrow> bool \<Rightarrow> u16" where
  "child p b = (if b then snd p else fst p)"

definition set_child :: "bool \<Rightarrow> u16 \<Rightarrow> u16 \<times> u16 \<Rightarrow> u16 \<times> u16" where
  "set_child b e p = (if b then (fst p, e) else (e, snd p))"

text \<open>From a node down along the bits of the code, making nodes on the way; the last bit is left.\<close>

fun descend :: "bool list \<Rightarrow> nat \<Rightarrow> (u16 \<times> u16) list \<Rightarrow> nat \<times> (u16 \<times> u16) list" where
  "descend [] node ov = (node, ov)"
| "descend (b # bs) node ov =
     (let c = child (ov ! node) b
      in if c = 0 then
           let made = length ov; ov = ov @ [(0, 0)]
           in descend bs made (ov[node := set_child b (overflow_entry made) (ov ! node)])
         else descend bs (overflow_node c) ov)"

definition place_code :: "nat \<Rightarrow> nat \<Rightarrow> nat \<Rightarrow> u16 list \<times> (u16 \<times> u16) list \<Rightarrow> u16 list \<times> (u16 \<times> u16) list" where
  "place_code s len c = (\<lambda>(direct, ov).
     if len = 0 then (direct, ov)
     else if len \<le> 10 then
       let fill = 2 ^ (10 - len); base = c * fill
       in (foldl (\<lambda>t i. t[base + i := table_entry s len]) direct [0..<fill], ov)
     else
       let suffix_len = len - 10;
           prefix = c div 2 ^ suffix_len;
           bits = map (\<lambda>i. bit c i) (rev [1..<suffix_len]);
           (root, direct, ov) =
             (if direct ! prefix = 0
              then (length ov, direct[prefix := overflow_entry (length ov)], ov @ [(0, 0)])
              else (overflow_node (direct ! prefix), direct, ov));
           (node, ov) = descend bits root ov
       in (direct, ov[node := set_child (bit c 0) (table_entry s len) (ov ! node)]))"

definition build_tables :: "nat list \<Rightarrow> u16 list \<times> (u16 \<times> u16) list" where
  "build_tables lens =
     foldl (\<lambda>t (s, len, c). place_code s len c t) (replicate 1024 0, [])
       (zip [0..<length lens] (zip lens (number_codes lens (first_codes lens))))"

definition rebuild_code :: "adaptive_code \<Rightarrow> adaptive_code option" where
  "rebuild_code a =
     map_option (\<lambda>lens.
         let (direct, ov) = build_tables lens
         in a\<lparr>ac_direct := direct, ac_overflow := ov, ac_codes := number_codes lens (first_codes lens),
              ac_lens := lens\<rparr>)
       (compute_lengths (ac_freqs a))"

definition adaptive_new :: "nat \<Rightarrow> nat \<Rightarrow> adaptive_code option" where
  "adaptive_new n rebuild_freq =
     (let a = \<lparr>ac_rebuild = rebuild_freq, ac_freqs = replicate n 1, ac_countdown = rebuild_freq,
               ac_direct = replicate 1024 0, ac_overflow = [], ac_codes = replicate n 0, ac_lens = replicate n 0\<rparr>
      in if 0 < n then rebuild_code a else Some a)"

definition rebuild_and_dilute :: "adaptive_code \<Rightarrow> adaptive_code option" where
  "rebuild_and_dilute a =
     map_option (\<lambda>a. a\<lparr>ac_freqs := map (\<lambda>f. f div 2 + 1) (ac_freqs a), ac_countdown := ac_rebuild a\<rparr>)
       (rebuild_code a)"

definition adaptive_count :: "nat \<Rightarrow> adaptive_code \<Rightarrow> adaptive_code option" where
  "adaptive_count s a =
     (let a = a\<lparr>ac_freqs := (ac_freqs a)[s := ac_freqs a ! s + 1], ac_countdown := ac_countdown a - 1\<rparr>
      in if ac_countdown a = 0 then rebuild_and_dilute a else Some a)"

definition encode_adaptive :: "nat \<Rightarrow> adaptive_code \<Rightarrow> back_writer \<Rightarrow> (adaptive_code \<times> back_writer) option" where
  "encode_adaptive s a w =
     (let w = (if 0 < ac_lens a ! s then back_write (of_nat (ac_codes a ! s)) (ac_lens a ! s) w else w)
      in map_option (\<lambda>a. (a, w)) (adaptive_count s a))"

text \<open>The overflow nodes are followed bit by bit; behind the end of the stream the bits are 0.\<close>

partial_function (option) follow_overflow ::
  "(u16 \<times> u16) list \<Rightarrow> nat \<Rightarrow> back_bits \<Rightarrow> (nat \<times> back_bits) lz_result option" where
  "follow_overflow ov node b =
     (case back_read 1 b of (v, b) \<Rightarrow>
        let c = child (ov ! node) (v \<noteq> 0)
        in if bit c 15 then follow_overflow ov (overflow_node c) b
           else if c \<noteq> 0 then Some (Inr (unat (drop_bit 4 c), b))
           else Some (Inl (LzMalformed ''LZMS: invalid huffman overflow'')))"

definition peek_symbol :: "adaptive_code \<Rightarrow> back_bits \<Rightarrow> (nat \<times> back_bits) lz_result option" where
  "peek_symbol a b =
     (let b = back_ensure 15 b;
          e = ac_direct a ! unat (back_peek 10 b)
      in if bit e 15 then
           follow_overflow (ac_overflow a) (overflow_node e) (back_consume 10 b)
         else if e \<noteq> 0 then Some (Inr (unat (drop_bit 4 e), back_consume (unat (e AND 0xF)) b))
         else Some (Inl (LzMalformed ''LZMS: invalid huffman code'')))"

definition decode_symbol :: "adaptive_code \<Rightarrow> back_bits \<Rightarrow> (nat \<times> adaptive_code \<times> back_bits) lz_result option" where
  "decode_symbol a b =
     run_bind (peek_symbol a b) (\<lambda>(s, b).
       if length (ac_freqs a) \<le> s then Some (Inl (LzMalformed ''LZMS: huffman symbol out of range''))
       else map_option (\<lambda>a. Inr (s, a, b)) (adaptive_count s a))"

end
