(* ===== verification/LzmsRange.thy ===== *)
theory LzmsRange imports LzmsCoder begin

text \<open>
  Correctness of the adaptive range coder (\<open>crates/lzms/src/range_coder.rs\<close>). A coder without
  machine words serves as its specification: a number \<open>N\<close> that grows by sixteen bits with every
  shift, and a range \<open>R\<close>. The encoder with its cache of words that a carry may still change writes
  the digits of \<open>N\<close>; the decoder keeps the distance of the digits read so far to \<open>N\<close>.
\<close>

section \<open>The window of a bit model\<close>

text \<open>The count of an entry is the number of zero bits among the recent 64 decisions.\<close>

definition prob_ok :: "prob_entry \<Rightarrow> bool" where
  "prob_ok p \<longleftrightarrow> pr_zeros p = length (filter (\<lambda>i. \<not> bit (pr_recent p) i) [0..<64])"

lemma prob_new_ok: "prob_ok prob_new"
  unfolding prob_ok_def by code_simp

lemma bit_shifted_in: "i < 64 \<Longrightarrow> bit (push_bit 1 w OR of_bool b :: u64) i = (if i = 0 then b else bit w (i - 1))"
  by (cases i) (simp_all add: bit_or_iff bit_push_bit_iff bit_of_bool_iff del: push_bit_Suc One_nat_def
      flip: One_nat_def)

text \<open>
  C40. The bit models stay consistent: the zero count of an entry is the number of zeros among the
  last 64 decisions, also behind an update, so the count never underflows, and the probability
  that the coder uses lies strictly between 0 and 1.
\<close>

theorem prob_window:
  assumes "prob_ok p"
  shows "prob_ok (prob_update b p) \<and> (\<not> bit (pr_recent p) 63 \<longrightarrow> 0 < pr_zeros p)
    \<and> 0 < prob_get p \<and> prob_get p < 64"
proof -
  have front: "[0..<64] = 0 # map Suc [0..<63]"
    using upt_conv_Cons [of 0 64] map_Suc_upt [of 0 63] by (simp del: upt_rec_numeral)
  have tail_end: "[0..<64] = [0..<63] @ [63]"
    using upt_Suc_append [of 0 63] by (simp del: upt_rec_numeral)
  let ?z = "length (filter (\<lambda>i. \<not> bit (pr_recent p) i) [0..<63])"
  have zeros: "pr_zeros p = ?z + of_bool (\<not> bit (pr_recent p) 63)"
    using assms unfolding prob_ok_def tail_end by (simp del: upt_rec_numeral)
  define w where "w = (push_bit 1 (pr_recent p) OR of_bool b :: u64)"
  have bw: "bit w i = (if i = 0 then b else bit (pr_recent p) (i - 1))" if "i < 64" for i
    unfolding w_def by (rule bit_shifted_in [OF that])
  have "filter (\<lambda>i. \<not> bit w i) (map Suc [0..<63]) = map Suc (filter (\<lambda>i. \<not> bit (pr_recent p) i) [0..<63])"
    unfolding filter_map o_def
    by (intro arg_cong [of _ _ "map Suc"] filter_cong) (simp_all add: bw del: upt_rec_numeral)
  then have "length (filter (\<lambda>i. \<not> bit w i) [0..<64]) = of_bool (\<not> b) + ?z"
    unfolding front by (simp add: bw del: upt_rec_numeral)
  moreover have "pr_recent (prob_update b p) = w" by (simp only: prob_update_def Let_def prob_entry.simps w_def)
  moreover have "pr_zeros (prob_update b p) = of_bool (\<not> b) + ?z" using zeros by (simp add: prob_update_def Let_def)
  ultimately have "prob_ok (prob_update b p)" by (simp only: prob_ok_def)
  then show ?thesis using zeros by (auto simp: prob_get_def prob_max_def)
qed

theorem prob_window_witness:
  "prob_ok (prob_update True prob_new) \<and> 0 < prob_get prob_new \<and> prob_get prob_new < 64"
  using prob_window [OF prob_new_ok, of True] by blast

section \<open>The coder without machine words\<close>

text \<open>A state: the number, the range, the number of shifts.\<close>

type_synonym pure_state = "nat \<times> nat \<times> nat"

definition pure_shift :: "pure_state \<Rightarrow> pure_state" where
  "pure_shift = (\<lambda>(n, r, k). if r < 2 ^ 16 then (n * 2 ^ 16, r * 2 ^ 16, k + 1) else (n, r, k))"

definition pure_bit :: "nat \<Rightarrow> bool \<Rightarrow> pure_state \<Rightarrow> pure_state" where
  "pure_bit p b s =
     (case pure_shift s of (n, r, k) \<Rightarrow>
        if b then (n + r div 64 * p, r - r div 64 * p, k) else (n, r div 64 * p, k))"

definition pure_ok :: "pure_state \<Rightarrow> bool" where
  "pure_ok = (\<lambda>(n, r, k). 2 ^ 10 \<le> r \<and> r < 2 ^ 32)"

lemma pure_shift_ok: "pure_ok s \<Longrightarrow> pure_shift s = (n, r, k) \<Longrightarrow> 2 ^ 16 \<le> r \<and> r < 2 ^ 32"
  by (auto simp: pure_ok_def pure_shift_def split: prod.splits if_splits)

lemma bound_between:
  assumes "2 ^ 16 \<le> (r :: nat)" "0 < p" "p < 64"
  shows "2 ^ 10 \<le> r div 64 * p" "r div 64 * p + 2 ^ 10 \<le> r"
proof -
  have q: "2 ^ 10 \<le> r div 64" using assms(1) by simp
  then show "2 ^ 10 \<le> r div 64 * p" using assms(2) by (metis One_nat_def Suc_leI le_trans mult.right_neutral mult_le_mono2)
  have "r div 64 * p \<le> r div 64 * 63" using assms(3) by (intro mult_le_mono2) simp
  then have "r div 64 * p + r div 64 \<le> r div 64 * 64" by linarith
  also have "\<dots> \<le> r" by simp
  finally show "r div 64 * p + 2 ^ 10 \<le> r" using q by linarith
qed

lemma pure_bit_ok: "pure_ok s \<Longrightarrow> 0 < p \<Longrightarrow> p < 64 \<Longrightarrow> pure_ok (pure_bit p b s)"
proof -
  assume a: "pure_ok s" "0 < p" "p < 64"
  obtain n r k where s: "pure_shift s = (n, r, k)" by (metis prod.exhaust)
  note P = pure_shift_ok [OF a(1) s]
  show ?thesis using bound_between [OF conjunct1 [OF P] a(2,3)] P by (auto simp: pure_bit_def s pure_ok_def)
qed

text \<open>The interval of a state holds the interval of every later state.\<close>

definition inside :: "pure_state \<Rightarrow> pure_state \<Rightarrow> bool" where
  "inside = (\<lambda>(n', r', k') (n, r, k).
     k \<le> k' \<and> n * 2 ^ (16 * (k' - k)) \<le> n' \<and> n' + r' \<le> (n + r) * 2 ^ (16 * (k' - k)))"

lemma inside_refl: "inside s s"
  by (auto simp: inside_def)

lemma inside_trans: "inside s3 s2 \<Longrightarrow> inside s2 s1 \<Longrightarrow> inside s3 s1"
proof -
  assume a: "inside s3 s2" "inside s2 s1"
  obtain n1 r1 k1 n2 r2 k2 n3 r3 k3 where s: "s1 = (n1, r1, k1)" "s2 = (n2, r2, k2)" "s3 = (n3, r3, k3)"
    by (metis prod.exhaust)
  have k: "k1 \<le> k2" "k2 \<le> k3" using a by (auto simp: inside_def s)
  then have e: "(2 :: nat) ^ (16 * (k3 - k1)) = 2 ^ (16 * (k2 - k1)) * 2 ^ (16 * (k3 - k2))"
    by (simp flip: power_add)
  have "n1 * 2 ^ (16 * (k2 - k1)) * 2 ^ (16 * (k3 - k2)) \<le> n2 * 2 ^ (16 * (k3 - k2))"
    using a(2) by (intro mult_right_mono) (auto simp: inside_def s)
  moreover have "(n2 + r2) * 2 ^ (16 * (k3 - k2)) \<le> (n1 + r1) * 2 ^ (16 * (k2 - k1)) * 2 ^ (16 * (k3 - k2))"
    using a(2) by (intro mult_right_mono) (auto simp: inside_def s)
  ultimately show ?thesis using a(1) k unfolding inside_def s prod.case e mult.assoc by linarith
qed

lemma pure_bit_inside: "pure_ok s \<Longrightarrow> 0 < p \<Longrightarrow> p < 64 \<Longrightarrow> inside (pure_bit p b s) (pure_shift s) \<and> inside (pure_shift s) s"
proof -
  assume a: "pure_ok s" "0 < p" "p < 64"
  obtain n r k where s: "pure_shift s = (n, r, k)" by (metis prod.exhaust)
  have "r div 64 * p \<le> r" using bound_between(2) [OF _ a(2,3), of r] pure_shift_ok [OF a(1) s] by linarith
  then have "inside (pure_bit p b s) (pure_shift s)" by (auto simp: pure_bit_def s inside_def)
  moreover have "inside (pure_shift s) s" by (cases s) (auto simp: pure_shift_def inside_def)
  ultimately show ?thesis by simp
qed

section \<open>The encoder\<close>

definition words_bytes :: "u16 list \<Rightarrow> bytes" where
  "words_bytes ws = concat (map word_le ws)"

definition number :: "u16 list \<Rightarrow> nat" where
  "number ws = foldl (\<lambda>a w. a * 2 ^ 16 + unat w) 0 ws"

lemma number_simps [simp]: "number [] = 0" "number (ws @ [w]) = number ws * 2 ^ 16 + unat w"
  by (simp_all add: number_def)

lemma number_append: "number (xs @ ys) = number xs * 2 ^ (16 * length ys) + number ys"
  by (induction ys rule: rev_induct) (simp_all flip: append_assoc add: power_add algebra_simps)

lemma number_less: "number ws < 2 ^ (16 * length ws)"
proof (induction ws rule: rev_induct)
  case (snoc w ws)
  have "unat w < 2 ^ 16" using unsigned_less [of w] by simp
  then have "number (ws @ [w]) < (number ws + 1) * 2 ^ 16" by simp
  also have "\<dots> \<le> 2 ^ (16 * length ws) * 2 ^ 16" using snoc by (intro mult_right_mono) auto
  finally show ?case by (simp add: power_add)
qed simp

lemma number_take: "number (take n ws) = number ws div 2 ^ (16 * length (drop n ws))"
proof -
  have "number ws = number (take n ws) * 2 ^ (16 * length (drop n ws)) + number (drop n ws)"
    using number_append [of "take n ws" "drop n ws"] by simp
  then show ?thesis using number_less [of "drop n ws"] by simp
qed

lemma number_replicate: "number (replicate (Suc n) w) = number (replicate n w) * 2 ^ 16 + unat w"
proof -
  have "replicate (Suc n) w = replicate n w @ [w]" by (simp add: replicate_append_same)
  then show ?thesis by (simp only: number_simps)
qed

lemma number_top: "number (replicate n (- 1)) + 1 = 2 ^ (16 * n)"
proof (induction n)
  case (Suc n)
  have "unat (- 1 :: u16) = 2 ^ 16 - 1" by (simp add: unsigned_minus_1_eq_mask mask_eq_exp_minus_1)
  then show ?case unfolding number_replicate using Suc by (simp add: power_add)
qed simp

lemma number_zeros [simp]: "number (replicate n 0) = 0"
  by (induction n) (simp, unfold number_replicate, simp)

lemma words_bytes_append [simp]: "words_bytes (xs @ ys) = words_bytes xs @ words_bytes ys"
  by (simp add: words_bytes_def)

lemma length_words_bytes [simp]: "length (words_bytes ws) = 2 * length ws"
  by (induction ws) (simp_all add: words_bytes_def word_le_def)

text \<open>
  The encoder holds the digits of \<open>N\<close>: the words written, then, unless no word was shifted out yet,
  the cached word and the words of ones behind it, then \<open>low\<close>. A carry finds a cached word to go to.
\<close>

definition digits_held :: "range_encoder \<Rightarrow> u16 list \<Rightarrow> pure_state \<Rightarrow> bool" where
  "digits_held e ws = (\<lambda>(n, r, k).
     re_out e = words_bytes ws
     \<and> (if re_first e then ws = [] \<and> k = 0 \<and> re_cache_count e = 0 \<and> n = unat (re_low e) \<and> n < 0xFFFF0000 \<and> n + r \<le> 0xFFFF0000
        else k = length ws + 1 + re_cache_count e
          \<and> n = number (ws @ re_cache e # replicate (re_cache_count e) (- 1)) * 2 ^ 32 + unat (re_low e)
          \<and> unat (re_low e) + r < 2 ^ 33 \<and> (re_cache e = - 1 \<longrightarrow> unat (re_low e) < 2 ^ 32 \<and> unat (re_low e) + r \<le> 2 ^ 32)))"

lemma number_cached:
  "number (ws @ c # replicate m w) = (number ws * 2 ^ 16 + unat c) * 2 ^ (16 * m) + number (replicate m w)"
proof -
  have "number (ws @ c # replicate m w) = number (ws @ [c]) * 2 ^ (16 * m) + number (replicate m w)"
    using number_append [of "ws @ [c]" "replicate m w"] by (simp del: number_simps)
  then show ?thesis by (simp only: number_simps)
qed

lemma low_parts:
  fixes low :: u64
  shows "unat (push_bit 16 (low AND 0xFFFF)) = unat low mod 2 ^ 16 * 2 ^ 16"
    and "unat (ucast (drop_bit 16 low) :: u16) = unat low div 2 ^ 16 mod 2 ^ 16"
    and "(drop_bit 32 low \<noteq> 0) = (2 ^ 32 \<le> unat low)"
    and "(low < 0xFFFF0000) = (unat low < 0xFFFF0000)"
proof -
  have m: "low AND 0xFFFF = take_bit 16 low" by (simp add: take_bit_eq_mask mask_eq_exp_minus_1 flip: and.commute)
  have "unat (push_bit 16 (take_bit 16 low)) = take_bit 64 (push_bit 16 (take_bit 16 (unat low)))"
    by (simp add: unsigned_push_bit_eq unsigned_take_bit_eq)
  also have "\<dots> = push_bit 16 (take_bit 16 (unat low))"
    by (simp add: take_bit_push_bit)
  finally show "unat (push_bit 16 (low AND 0xFFFF)) = unat low mod 2 ^ 16 * 2 ^ 16"
    unfolding m by (simp add: push_bit_eq_mult take_bit_eq_mod)
  show "unat (ucast (drop_bit 16 low) :: u16) = unat low div 2 ^ 16 mod 2 ^ 16"
    unfolding unsigned_ucast_eq unsigned_take_bit_eq unat_drop_bit_eq by (simp add: take_bit_eq_mod drop_bit_eq_div)
  have "drop_bit 32 low = 0 \<longleftrightarrow> unat (drop_bit 32 low) = 0" by (simp only: unat_eq_0)
  also have "\<dots> \<longleftrightarrow> unat low div 2 ^ 32 = 0" unfolding unat_drop_bit_eq by (simp only: drop_bit_eq_div)
  also have "\<dots> \<longleftrightarrow> \<not> 2 ^ 32 \<le> unat low" by auto
  finally show "(drop_bit 32 low \<noteq> 0) = (2 ^ 32 \<le> unat low)" by blast
  show "(low < 0xFFFF0000) = (unat low < 0xFFFF0000)" by (simp add: word_less_nat_alt)
qed

lemma words_bytes_replicate: "words_bytes (replicate n w) = concat (replicate n (word_le w))"
  by (simp add: words_bytes_def)

text \<open>The digits behind a shift that writes: with a carry and without one.\<close>

lemma two_levels: "(x :: nat) = a * 2 ^ 16 + m \<Longrightarrow> a = h * 2 ^ 16 + q \<Longrightarrow> x = h * 2 ^ 32 + q * 2 ^ 16 + m"
  by (simp add: add_mult_distrib)

lemma three_digits: "(x :: nat) = x div 2 ^ 32 * 2 ^ 32 + x div 2 ^ 16 mod 2 ^ 16 * 2 ^ 16 + x mod 2 ^ 16"
proof (rule two_levels [of _ "x div 2 ^ 16"])
  have "x div 2 ^ 16 div 2 ^ 16 = x div 2 ^ 32" by (simp add: div_mult2_eq [symmetric])
  then show "x div 2 ^ 16 = x div 2 ^ 32 * 2 ^ 16 + x div 2 ^ 16 mod 2 ^ 16" by (metis div_mult_mod_eq)
qed (metis div_mult_mod_eq)

lemma digits_shift:
  "low = h * 2 ^ 32 + q * 2 ^ 16 + m \<Longrightarrow> (n + h) * 2 ^ 16 * 2 ^ 32 + q * 2 ^ 32 + m * 2 ^ 16 = (n * 2 ^ 32 + low) * 2 ^ 16"
  for n low :: nat
  by (simp add: add_mult_distrib)

lemma shift_carries:
  fixes ws :: "u16 list"
  assumes "2 ^ 32 \<le> low" "low < 2 ^ 33" "c \<noteq> - 1" "unat w = low div 2 ^ 16 mod 2 ^ 16"
  shows "number ((ws @ (c + 1) # replicate m 0) @ [w]) * 2 ^ 32 + low mod 2 ^ 16 * 2 ^ 16
      = (number (ws @ c # replicate m (- 1)) * 2 ^ 32 + low) * 2 ^ 16"
proof -
  have "1 + c \<noteq> 0" using assms(3) by (simp add: add_eq_0_iff)
  from unatSuc [OF this] have "unat (c + 1) = unat c + 1" by (simp add: add.commute)
  then have n: "number (ws @ (c + 1) # replicate m 0) = number (ws @ c # replicate m (- 1)) + 1"
    using number_top [of m] unfolding number_cached number_zeros by (simp add: algebra_simps)
  have "low div 2 ^ 32 = 1" using assms(1,2) by (simp add: div_nat_eqI)
  then have "low = 1 * 2 ^ 32 + unat w * 2 ^ 16 + low mod 2 ^ 16" using three_digits [of low] assms(4) by metis
  from digits_shift [OF this] show ?thesis unfolding number_simps n by (simp only: add_mult_distrib)
qed

lemma shift_plain:
  fixes ws :: "u16 list"
  assumes "low < 2 ^ 32" "unat w = low div 2 ^ 16 mod 2 ^ 16"
  shows "number (ws @ [w]) * 2 ^ 32 + low mod 2 ^ 16 * 2 ^ 16 = (number ws * 2 ^ 32 + low) * 2 ^ 16"
proof -
  have "low div 2 ^ 32 = 0" using assms(1) by simp
  then have "low = 0 * 2 ^ 32 + unat w * 2 ^ 16 + low mod 2 ^ 16" using three_digits [of low] assms(2) by metis
  from digits_shift [OF this] show ?thesis unfolding number_simps by (simp only: add_mult_distrib add_0_right)
qed

text \<open>The bits below the cached word, when that word is all ones.\<close>

lemma low_below_ones:
  assumes "low div 2 ^ 16 mod 2 ^ 16 = 2 ^ 16 - 1" "(low :: nat) + r \<le> (low div 2 ^ 32 + 1) * 2 ^ 32"
  shows "low mod 2 ^ 16 * 2 ^ 16 + r * 2 ^ 16 \<le> 2 ^ 32"
proof -
  have "low = low div 2 ^ 32 * 2 ^ 32 + (2 ^ 16 - 1) * 2 ^ 16 + low mod 2 ^ 16"
    using three_digits [of low] assms(1) by metis
  with assms(2) have "low mod 2 ^ 16 + r \<le> 2 ^ 16" by simp
  then show ?thesis by simp
qed

lemma top_word: "w = (- 1 :: u16) \<longleftrightarrow> unat w = 2 ^ 16 - 1"
proof -
  have "unat (- 1 :: u16) = 2 ^ 16 - 1" by (simp add: unsigned_minus_1_eq_mask mask_eq_exp_minus_1)
  then show ?thesis by (metis word_unat_eq_iff)
qed

lemma shift_low_written:
  assumes w: "digits_held e ws (n, r, k)" and r: "r < 2 ^ 16"
  shows "\<exists>ws'. digits_held (shift_low e) ws' (n * 2 ^ 16, r * 2 ^ 16, k + 1)"
proof -
  define low where "low = unat (re_low e)"
  define c where "c = (ucast (drop_bit 16 (re_low e)) :: u16)"
  have c: "unat c = low div 2 ^ 16 mod 2 ^ 16" unfolding c_def low_def by (rule low_parts)
  have "re_low (shift_low e) = push_bit 16 (re_low e AND 0xFFFF)" by (simp add: shift_low_def Let_def)
  then have low': "unat (re_low (shift_low e)) = low mod 2 ^ 16 * 2 ^ 16" by (simp only: low_parts(1) low_def)
  note parts = low_parts(3,4) [of "re_low e", folded low_def]
  have sum: "low mod 2 ^ 16 * 2 ^ 16 + r * 2 ^ 16 < 2 ^ 33" using r by simp
  consider (first) "re_first e" | (carry) "\<not> re_first e" "2 ^ 32 \<le> low" | (plain) "\<not> re_first e" "low < 0xFFFF0000"
    | (ones) "\<not> re_first e" "low < 2 ^ 32" "0xFFFF0000 \<le> low" by linarith
  then show ?thesis
  proof cases
    case first
    then have n: "n = low" "low < 0xFFFF0000" "ws = []" "k = 0" "re_out e = []"
      using w by (auto simp: digits_held_def low_def words_bytes_def)
    have s: "re_first (shift_low e) = False" "re_cache (shift_low e) = c" "re_cache_count (shift_low e) = 0"
      "re_out (shift_low e) = []"
      using first n by (simp_all add: shift_low_def Let_def parts c_def)
    have "c \<noteq> - 1" using n(2) c by (simp add: top_word)
    moreover have "number ([] @ [c]) * 2 ^ 32 + low mod 2 ^ 16 * 2 ^ 16 = (number [] * 2 ^ 32 + low) * 2 ^ 16"
      by (rule shift_plain [OF _ c]) (use n in simp)
    ultimately have "digits_held (shift_low e) [] (n * 2 ^ 16, r * 2 ^ 16, k + 1)"
      using s sum n low' unfolding digits_held_def prod.case by (simp add: words_bytes_def)
    then show ?thesis by blast
  next
    case carry
    have W: "re_out e = words_bytes ws" "k = length ws + 1 + re_cache_count e"
      "n = number (ws @ re_cache e # replicate (re_cache_count e) (- 1)) * 2 ^ 32 + low" "low + r < 2 ^ 33"
      "re_cache e \<noteq> - 1"
      using w carry by (auto simp: digits_held_def low_def)
    let ?ws = "ws @ (re_cache e + 1) # replicate (re_cache_count e) 0"
    have s: "re_first (shift_low e) = False" "re_cache (shift_low e) = c" "re_cache_count (shift_low e) = 0"
      "re_out (shift_low e) = words_bytes ?ws"
      using carry W(1) by (simp_all add: shift_low_def Let_def parts c_def words_bytes_def)
    have "number (?ws @ [c]) * 2 ^ 32 + low mod 2 ^ 16 * 2 ^ 16 = n * 2 ^ 16"
      unfolding W(3) by (rule shift_carries [OF carry(2) _ W(5) c]) (use W(4) in simp)
    moreover have "c = - 1 \<longrightarrow> low mod 2 ^ 16 * 2 ^ 16 + r * 2 ^ 16 \<le> 2 ^ 32"
    proof
      assume "c = - 1"
      then have "low div 2 ^ 16 mod 2 ^ 16 = 2 ^ 16 - 1" using c by (simp only: top_word)
      moreover have "low div 2 ^ 32 = 1" using carry(2) W(4) by (simp add: div_nat_eqI)
      ultimately show "low mod 2 ^ 16 * 2 ^ 16 + r * 2 ^ 16 \<le> 2 ^ 32" using W(4) by (intro low_below_ones) simp_all
    qed
    ultimately have "digits_held (shift_low e) ?ws (n * 2 ^ 16, r * 2 ^ 16, k + 1)"
      using s sum W(2) low' unfolding digits_held_def prod.case by simp
    then show ?thesis by blast
  next
    case plain
    have W: "re_out e = words_bytes ws" "k = length ws + 1 + re_cache_count e"
      "n = number (ws @ re_cache e # replicate (re_cache_count e) (- 1)) * 2 ^ 32 + low"
      using w plain by (auto simp: digits_held_def low_def)
    let ?ws = "ws @ re_cache e # replicate (re_cache_count e) (- 1)"
    have s: "re_first (shift_low e) = False" "re_cache (shift_low e) = c" "re_cache_count (shift_low e) = 0"
      "re_out (shift_low e) = words_bytes ?ws"
      using plain W(1) by (simp_all add: shift_low_def Let_def parts c_def words_bytes_def)
    have "number (?ws @ [c]) * 2 ^ 32 + low mod 2 ^ 16 * 2 ^ 16 = n * 2 ^ 16"
      unfolding W(3) by (rule shift_plain [OF _ c]) (use plain in simp)
    moreover have "c \<noteq> - 1" using plain c by (simp add: top_word)
    ultimately have "digits_held (shift_low e) ?ws (n * 2 ^ 16, r * 2 ^ 16, k + 1)"
      using s sum W(2) low' unfolding digits_held_def prod.case by simp
    then show ?thesis by blast
  next
    case ones
    have W: "re_out e = words_bytes ws" "k = length ws + 1 + re_cache_count e"
      "n = number (ws @ re_cache e # replicate (re_cache_count e) (- 1)) * 2 ^ 32 + low"
      "re_cache e = - 1 \<longrightarrow> low + r \<le> 2 ^ 32"
      using w ones by (auto simp: digits_held_def low_def)
    have s: "re_first (shift_low e) = False" "re_cache (shift_low e) = re_cache e"
      "re_cache_count (shift_low e) = Suc (re_cache_count e)" "re_out (shift_low e) = words_bytes ws"
      using ones W(1) by (simp_all add: shift_low_def Let_def parts)
    have "unat (- 1 :: u16) = low div 2 ^ 16 mod 2 ^ 16"
      using ones(2,3) by (simp add: unsigned_minus_1_eq_mask mask_eq_exp_minus_1)
    from shift_plain [OF ones(2) this, of "ws @ re_cache e # replicate (re_cache_count e) (- 1)"]
    have "number (ws @ re_cache e # replicate (Suc (re_cache_count e)) (- 1)) * 2 ^ 32 + low mod 2 ^ 16 * 2 ^ 16 = n * 2 ^ 16"
      unfolding W(3) by (simp add: replicate_append_same)
    moreover have "re_cache e = - 1 \<longrightarrow> low mod 2 ^ 16 * 2 ^ 16 + r * 2 ^ 16 \<le> 2 ^ 32"
    proof
      assume "re_cache e = - 1"
      then have "low + r \<le> 2 ^ 32" using W(4) by simp
      moreover have "low div 2 ^ 16 mod 2 ^ 16 = 2 ^ 16 - 1" "low div 2 ^ 32 = 0"
        using ones(2,3) by (simp_all add: div_nat_eqI)
      ultimately show "low mod 2 ^ 16 * 2 ^ 16 + r * 2 ^ 16 \<le> 2 ^ 32" by (intro low_below_ones) simp_all
    qed
    ultimately have "digits_held (shift_low e) ws (n * 2 ^ 16, r * 2 ^ 16, k + 1)"
      using s sum W(2) low' unfolding digits_held_def prod.case by simp
    then show ?thesis by blast
  qed
qed

lemma digits_held_bit:
  assumes w: "digits_held e ws (n, r, k)" and r: "unat (re_range e) = r" "2 ^ 16 \<le> r" and p: "0 < p" "p < 64"
    and e': "e' = (if b then e\<lparr>re_low := re_low e + ucast (range_bound (re_range e) p),
        re_range := re_range e - range_bound (re_range e) p\<rparr> else e\<lparr>re_range := range_bound (re_range e) p\<rparr>)"
  shows "digits_held e' ws (if b then (n + r div 64 * p, r - r div 64 * p, k) else (n, r div 64 * p, k))
    \<and> unat (re_range e') = (if b then r - r div 64 * p else r div 64 * p)"
proof -
  let ?d = "r div 64 * p" and ?B = "range_bound (re_range e) p"
  have le: "?d \<le> r" and lt: "?d < r" using bound_between(2) [OF r(2) p] by simp_all
  have "unat (re_range e) < 2 ^ LENGTH(32)" by (rule unsigned_less)
  then have "r < 2 ^ 32" using r(1) by simp
  then have "?d < 2 ^ 32" using le by linarith
  moreover have "unat (drop_bit 6 (re_range e)) = r div 64"
    unfolding unat_drop_bit_eq by (simp add: drop_bit_eq_div r(1))
  ultimately have B: "unat ?B = ?d"
    using p(2) by (simp add: range_bound_def unat_word_ariths unat_of_nat)
  then have sub: "unat (re_range e - ?B) = r - ?d" using le r(1) by (simp add: unat_sub word_le_nat_alt)
  have "unat (ucast ?B :: u64) = ?d" using B \<open>?d < 2 ^ 32\<close> by (simp add: unsigned_ucast_eq take_bit_nat_eq_self)
  moreover have "unat (re_low e) < 2 ^ 33" using w by (auto simp: digits_held_def split: if_splits)
  ultimately have low: "unat (re_low e + ucast ?B) = unat (re_low e) + ?d"
    using \<open>?d < 2 ^ 32\<close> by (simp add: unat_word_ariths)
  have q: "m + d + (r - d) = m + r" if "d \<le> r" for m d :: nat using that by simp
  show ?thesis
  proof (cases b)
    case True
    then show ?thesis using w low sub le lt unfolding e' by (auto simp: digits_held_def q [OF le] split: if_splits)
  next
    case False
    then show ?thesis using w B le unfolding e' by (auto simp: digits_held_def split: if_splits)
  qed
qed

lemma model_prob_range: "0 < model_prob m" "model_prob m < 64"
  by (auto simp: model_prob_def prob_get_def prob_max_def)

definition encoding :: "range_encoder \<Rightarrow> pure_state \<Rightarrow> bool" where
  "encoding e s \<longleftrightarrow> (\<exists>ws. digits_held e ws s) \<and> unat (re_range e) = fst (snd s) \<and> pure_ok s"

lemma shift_low_range: "unat (re_range (shift_low e)) = unat (re_range e) * 2 ^ 16" if "unat (re_range e) < 2 ^ 16"
proof -
  have "re_range (shift_low e) = push_bit 16 (re_range e)" by (simp add: shift_low_def Let_def)
  then have "unat (re_range (shift_low e)) = take_bit 32 (push_bit 16 (unat (re_range e)))"
    by (simp add: unsigned_push_bit_eq)
  then show ?thesis using that by (simp add: push_bit_eq_mult take_bit_nat_eq_self)
qed

lemma re_normalize_idle: "\<not> re_range e < 0x10000 \<Longrightarrow> re_normalize e = e"
  by (simp add: re_normalize_def numeral_2_eq_2)

lemma re_normalize_encoding:
  assumes "encoding e s"
  shows "\<exists>ws. digits_held (re_normalize e) ws (pure_shift s) \<and> unat (re_range (re_normalize e)) = fst (snd (pure_shift s))"
proof -
  obtain n r k where s: "s = (n, r, k)" by (metis prod.exhaust)
  obtain ws where w: "digits_held e ws (n, r, k)" and r: "unat (re_range e) = r" "2 ^ 10 \<le> r"
    using assms by (auto simp: encoding_def s pure_ok_def)
  have below: "re_range f < 0x10000 \<longleftrightarrow> unat (re_range f) < 2 ^ 16" for f by (simp add: word_less_nat_alt)
  show ?thesis
  proof (cases "r < 2 ^ 16")
    case True
    have two: "re_normalize_rounds 2 e = re_normalize_rounds 1 (shift_low e)"
      using True r(1) below [of e] by (simp add: numeral_2_eq_2)
    have R: "unat (re_range (shift_low e)) = r * 2 ^ 16" using shift_low_range True r(1) by simp
    then have "\<not> re_range (shift_low e) < 0x10000" unfolding below using r(2) by simp
    then have "re_normalize e = shift_low e" unfolding re_normalize_def two by simp
    then show ?thesis using shift_low_written [OF w True] R True by (auto simp: s pure_shift_def)
  next
    case False
    then have "re_normalize e = e" using r(1) below [of e] by (intro re_normalize_idle) simp
    then show ?thesis using False w r by (auto simp: s pure_shift_def)
  qed
qed

lemma encode_bit_encoding:
  assumes "encoding e s"
  shows "\<exists>e'. encode_bit b e m = (e', model_update b m) \<and> encoding e' (pure_bit (model_prob m) b s)"
proof -
  obtain n r k where s: "pure_shift s = (n, r, k)" by (metis prod.exhaust)
  have ok: "pure_ok s" using assms by (simp add: encoding_def)
  obtain ws where w: "digits_held (re_normalize e) ws (n, r, k)" "unat (re_range (re_normalize e)) = r"
    using re_normalize_encoding [OF assms] s by auto
  define e' where "e' = (if b then re_normalize e
      \<lparr>re_low := re_low (re_normalize e) + ucast (range_bound (re_range (re_normalize e)) (model_prob m)),
        re_range := re_range (re_normalize e) - range_bound (re_range (re_normalize e)) (model_prob m)\<rparr>
    else re_normalize e\<lparr>re_range := range_bound (re_range (re_normalize e)) (model_prob m)\<rparr>)"
  note W = digits_held_bit [OF w conjunct1 [OF pure_shift_ok [OF ok s]] model_prob_range [of m] e'_def]
  have "encode_bit b e m = (e', model_update b m)" by (simp add: encode_bit_def Let_def e'_def)
  moreover have "encoding e' (pure_bit (model_prob m) b s)"
    using W pure_bit_ok [OF ok model_prob_range [of m]] by (auto simp: encoding_def pure_bit_def s)
  ultimately show ?thesis by blast
qed

text \<open>Sequences of decisions, each with the number of its model.\<close>

fun encode_all :: "(nat \<times> bool) list \<Rightarrow> range_encoder \<Rightarrow> bit_model list \<Rightarrow> range_encoder" where
  "encode_all [] e ms = e"
| "encode_all ((i, b) # ds) e ms = (case encode_bit b e (ms ! i) of (e, m) \<Rightarrow> encode_all ds e (ms[i := m]))"

fun decode_all :: "nat list \<Rightarrow> range_decoder \<Rightarrow> bit_model list \<Rightarrow> bool list" where
  "decode_all [] r ms = []"
| "decode_all (i # is) r ms = (case decode_bit r (ms ! i) of (b, r, m) \<Rightarrow> b # decode_all is r (ms[i := m]))"

fun pure_all :: "(nat \<times> bool) list \<Rightarrow> pure_state \<Rightarrow> bit_model list \<Rightarrow> pure_state" where
  "pure_all [] s ms = s"
| "pure_all ((i, b) # ds) s ms = pure_all ds (pure_bit (model_prob (ms ! i)) b s) (ms[i := model_update b (ms ! i)])"

lemma pure_all_inside: "pure_ok s \<Longrightarrow> pure_ok (pure_all ds s ms) \<and> inside (pure_all ds s ms) s"
proof (induction ds s ms rule: pure_all.induct)
  case (2 i b ds s ms)
  have "inside (pure_bit (model_prob (ms ! i)) b s) s"
    using pure_bit_inside [OF "2.prems" model_prob_range [of "ms ! i"]] inside_trans by blast
  then show ?case using "2.IH" [OF pure_bit_ok [OF "2.prems" model_prob_range [of "ms ! i"]]]
    unfolding pure_all.simps by (blast intro: inside_trans)
qed (simp add: inside_refl)

lemma encode_all_encoding: "encoding e s \<Longrightarrow> encoding (encode_all ds e ms) (pure_all ds s ms)"
proof (induction ds s ms arbitrary: e rule: pure_all.induct)
  case (2 i b ds s ms)
  then show ?case using encode_bit_encoding [OF "2.prems", of b "ms ! i"] by auto
qed simp

lemma low_after_two: "re_low (shift_low (shift_low e)) = 0"
proof -
  have low: "re_low (shift_low f) = push_bit 16 (re_low f AND 0xFFFF)" for f by (simp add: shift_low_def Let_def)
  have m: "(0xFFFF :: u64) = mask 16" by (simp add: mask_eq_exp_minus_1)
  have "push_bit 16 v AND mask 16 = (0 :: u64)" for v by (intro bit_word_eqI) (auto simp: bit_simps)
  then show ?thesis unfolding low m by (simp only: push_bit_of_0)
qed

lemma flush_zero:
  assumes "re_low e = 0"
  shows "re_low (shift_low e) = 0" "re_cache (shift_low e) = 0" "re_cache_count (shift_low e) = 0" "\<not> re_first (shift_low e)"
  using assms by (simp_all add: shift_low_def Let_def)

text \<open>What is digits_held when the encoder is finished: the digits of \<open>N\<close>, then a word of zeros.\<close>

lemma finish_digits:
  assumes "encoding e (n, r, k)"
  shows "\<exists>ws. range_finish e rest = words_bytes ws @ rest \<and> length ws = k + 3 \<and> number (take (k + 2) ws) = n"
proof -
  obtain ws0 where "digits_held e ws0 (n, r, k)" using assms by (auto simp: encoding_def)
  then have "digits_held e ws0 (n, 0, k)" by (auto simp: digits_held_def split: if_splits)
  define e2 where "e2 = shift_low (shift_low e)"
  have next_shift: "\<exists>ws'. digits_held (shift_low f) ws' (m * 2 ^ 16, 0, l + 1)" if "digits_held f ws (m, 0, l)" for f ws m l
    using shift_low_written [OF that] by simp
  obtain ws1 where "digits_held (shift_low e) ws1 (n * 2 ^ 16, 0, k + 1)"
    using next_shift [OF \<open>digits_held e ws0 (n, 0, k)\<close>] by blast
  then obtain ws2 where "digits_held e2 ws2 (n * 2 ^ 16 * 2 ^ 16, 0, k + 1 + 1)" unfolding e2_def using next_shift by blast
  then obtain ws3 where "digits_held (shift_low e2) ws3 (n * 2 ^ 16 * 2 ^ 16 * 2 ^ 16, 0, k + 1 + 1 + 1)"
    using next_shift by blast
  then obtain ws where w: "digits_held (shift_low (shift_low e2)) ws (n * 2 ^ 16 * 2 ^ 16 * 2 ^ 16 * 2 ^ 16, 0, k + 1 + 1 + 1 + 1)"
    using next_shift by blast
  have "re_low e2 = 0" unfolding e2_def by (rule low_after_two)
  note z = flush_zero [OF flush_zero(1) [OF this]]
  have len: "length ws = k + 3" and "number (ws @ [0]) * 2 ^ 32 = n * 2 ^ 64"
    and out: "re_out (shift_low (shift_low e2)) = words_bytes ws"
    using w z by (auto simp: digits_held_def)
  then have "number ws = n * 2 ^ 16" by simp
  moreover have "number (take (k + 2) ws) = number ws div 2 ^ 16" using number_take [of "k + 2" ws] len by simp
  moreover have "(shift_low ^^ 4) e = shift_low (shift_low e2)" by (simp add: e2_def numeral_eq_Suc)
  ultimately show ?thesis using len out by (auto simp: range_finish_def)
qed

section \<open>The decoder\<close>

definition decoding :: "u16 list \<Rightarrow> bytes \<Rightarrow> range_decoder \<Rightarrow> pure_state \<Rightarrow> bool" where
  "decoding ws rest d = (\<lambda>(n, r, k).
     rc_data d = words_bytes ws @ rest \<and> rc_pos d = 4 + 2 * k \<and> unat (rc_range d) = r
     \<and> number (take (k + 2) ws) = n + unat (rc_code d) \<and> unat (rc_code d) < r)"

lemma le16_words: "i < length ws \<Longrightarrow> le16 (words_bytes ws @ rest) (2 * i) = ws ! i"
proof (induction ws arbitrary: i)
  case (Cons w ws)
  have w: "from_le [ucast w, ucast (drop_bit 8 w)] = w"
    using from_le_to_le [of 2 w] by (simp add: to_le_def numeral_2_eq_2)
  show ?case
  proof (cases i)
    case 0
    then show ?thesis using w by (simp add: le16_def words_bytes_def word_le_def)
  next
    case (Suc j)
    then show ?thesis using Cons.IH [of j] Cons.prems by (simp add: le16_def words_bytes_def word_le_def)
  qed
qed simp

lemma next_digit:
  fixes code :: u32
  assumes "unat code < 2 ^ 16"
  shows "unat (push_bit 16 code OR ucast w) = unat code * 2 ^ 16 + unat (w :: u16)"
proof -
  have "push_bit 16 code AND ucast w = 0"
    by (intro bit_word_eqI) (auto simp: bit_simps dest: bit_imp_le_length)
  then have "push_bit 16 code OR ucast w = push_bit 16 code + ucast w"
    using word_plus_and_or [of "push_bit 16 code" "ucast w"] by simp
  moreover have "unat (push_bit 16 code) = unat code * 2 ^ 16"
    using assms by (simp only: unsigned_push_bit_eq) (simp add: push_bit_eq_mult take_bit_nat_eq_self)
  moreover have w: "unat w < 2 ^ 16" using unsigned_less [of w] by simp
  moreover have "unat (ucast w :: u32) = unat w" using w by (simp add: unsigned_ucast_eq take_bit_nat_eq_self)
  ultimately show ?thesis using assms by (simp add: unat_word_ariths)
qed

lemma inside_number:
  assumes i: "inside (nf, rf, kf) (n, r, k)" and rf: "0 < rf" and ws: "kf + 2 \<le> length ws" "number (take (kf + 2) ws) = nf"
  shows "n \<le> number (take (k + 2) ws) \<and> number (take (k + 2) ws) < n + r"
proof -
  have k: "k \<le> kf" and lo: "n * 2 ^ (16 * (kf - k)) \<le> nf" and hi: "nf < (n + r) * 2 ^ (16 * (kf - k))"
    using i rf by (auto simp: inside_def)
  have "take (k + 2) ws = take (k + 2) (take (kf + 2) ws)" using k by simp
  moreover have "length (drop (k + 2) (take (kf + 2) ws)) = kf - k" using ws(1) k by simp
  ultimately have "number (take (k + 2) ws) = nf div 2 ^ (16 * (kf - k))"
    using number_take [of "k + 2" "take (kf + 2) ws"] ws(2) by simp
  then show ?thesis using lo hi by (simp add: less_eq_div_iff_mult_less_eq div_less_iff_less_mult)
qed

lemma rc_normalize_decoding:
  assumes d: "decoding ws rest d s" and ok: "pure_ok s" and len: "snd (snd s) + 3 \<le> length ws"
  shows "decoding ws rest (rc_normalize d) (pure_shift s)"
proof -
  obtain n r k where s: "s = (n, r, k)" by (metis prod.exhaust)
  have D: "rc_data d = words_bytes ws @ rest" "rc_pos d = 4 + 2 * k" "unat (rc_range d) = r"
    "number (take (k + 2) ws) = n + unat (rc_code d)" "unat (rc_code d) < r"
    using d by (simp_all add: decoding_def s)
  have below: "rc_range d < 0x10000 \<longleftrightarrow> r < 2 ^ 16" by (simp add: word_less_nat_alt D(3))
  show ?thesis
  proof (cases "r < 2 ^ 16")
    case True
    have k: "k + 2 < length ws" using len by (simp add: s)
    have pos: "4 + 2 * k = 2 * (k + 2)" by simp
    have fits: "rc_pos d + 2 \<le> length (rc_data d)" unfolding D(1,2) using k by simp
    have w: "le16 (rc_data d) (rc_pos d) = ws ! (k + 2)" unfolding D(1,2) pos by (rule le16_words [OF k])
    have code: "unat (push_bit 16 (rc_code d) OR ucast (ws ! (k + 2)))
        = unat (rc_code d) * 2 ^ 16 + unat (ws ! (k + 2))"
      by (rule next_digit) (use D(5) True in simp)
    have "unat (push_bit 16 (rc_range d)) = r * 2 ^ 16"
      using True D(3) by (simp only: unsigned_push_bit_eq) (simp add: push_bit_eq_mult take_bit_nat_eq_self)
    moreover have "number (take (k + 1 + 2) ws) = number (take (k + 2) ws) * 2 ^ 16 + unat (ws ! (k + 2))"
      using take_Suc_conv_app_nth [OF k] number_simps(2) [of "take (k + 2) ws" "ws ! (k + 2)"] by simp
    moreover have "unat (ws ! (k + 2)) < 2 ^ 16" using unsigned_less [of "ws ! (k + 2)"] by simp
    moreover have "rc_normalize d = d\<lparr>rc_range := push_bit 16 (rc_range d),
        rc_code := push_bit 16 (rc_code d) OR ucast (ws ! (k + 2)), rc_pos := rc_pos d + 2\<rparr>"
      using True below fits w by (simp add: rc_normalize_def Let_def)
    ultimately show ?thesis using D code True
      by (simp add: decoding_def s pure_shift_def add.commute)
  next
    case False
    then show ?thesis using d below by (simp add: rc_normalize_def s pure_shift_def)
  qed
qed

lemma decode_bit_decoding:
  assumes d: "decoding ws rest d s" and ok: "pure_ok s" and len: "kf + 3 \<le> length ws"
    and f: "inside (nf, rf, kf) (pure_bit (model_prob m) b s)" "0 < rf" "number (take (kf + 2) ws) = nf"
  shows "\<exists>d'. decode_bit d m = (b, d', model_update b m) \<and> decoding ws rest d' (pure_bit (model_prob m) b s)"
proof -
  obtain n r k where s: "pure_shift s = (n, r, k)" by (metis prod.exhaust)
  let ?d = "r div 64 * model_prob m"
  note P = model_prob_range [of m]
  have r: "2 ^ 16 \<le> r" "r < 2 ^ 32" using pure_shift_ok [OF ok s] by simp_all
  have lt: "?d < r" using bound_between(2) [OF r(1) P] by simp
  have "k \<le> kf" using f(1) by (auto simp: pure_bit_def s inside_def split: if_splits)
  moreover have "snd (snd s) \<le> k" using s by (cases s) (auto simp: pure_shift_def split: if_splits)
  ultimately have "snd (snd s) + 3 \<le> length ws" using len by simp
  from rc_normalize_decoding [OF d ok this] have D: "rc_data (rc_normalize d) = words_bytes ws @ rest"
      "rc_pos (rc_normalize d) = 4 + 2 * k" "unat (rc_range (rc_normalize d)) = r"
      "number (take (k + 2) ws) = n + unat (rc_code (rc_normalize d))" "unat (rc_code (rc_normalize d)) < r"
    by (simp_all add: s decoding_def)
  define B where "B = range_bound (rc_range (rc_normalize d)) (model_prob m)"
  have B: "unat B = ?d"
  proof -
    have "unat (drop_bit 6 (rc_range (rc_normalize d))) = r div 64"
      unfolding unat_drop_bit_eq by (simp add: drop_bit_eq_div D(3))
    moreover have "?d < 2 ^ 32" using lt r(2) by linarith
    ultimately show ?thesis using P(2) by (simp add: B_def range_bound_def unat_word_ariths unat_of_nat)
  qed
  have code: "(B \<le> rc_code (rc_normalize d)) = b"
    using inside_number [of nf rf kf n ?d k ws] inside_number [of nf rf kf "n + ?d" "r - ?d" k ws] f len D(4)
    by (cases b) (auto simp: pure_bit_def s word_le_nat_alt B)
  have range_b: "unat (rc_range (rc_normalize d) - B) = r - ?d" "b \<Longrightarrow> unat (rc_code (rc_normalize d) - B) = unat (rc_code (rc_normalize d)) - ?d"
    using code lt D(3) B by (simp_all add: unat_sub word_le_nat_alt)
  have "b \<Longrightarrow> ?d \<le> unat (rc_code (rc_normalize d))" "\<not> b \<Longrightarrow> unat (rc_code (rc_normalize d)) < ?d"
    using code B by (auto simp: word_le_nat_alt)
  moreover from this(1) have "b \<Longrightarrow> unat (rc_code (rc_normalize d)) - ?d < r - ?d" using D(5) by (simp add: diff_less_mono)
  ultimately show ?thesis using D code range_b B lt
    by (cases b) (auto simp: decode_bit_def Let_def B_def [symmetric] decoding_def pure_bit_def s)
qed

lemma decode_all_pure:
  assumes "decoding ws rest d s" "pure_ok s" "pure_all ds s ms = (nf, rf, kf)" "kf + 3 \<le> length ws"
    "number (take (kf + 2) ws) = nf"
  shows "decode_all (map fst ds) d ms = map snd ds"
  using assms
proof (induction ds s ms arbitrary: d rule: pure_all.induct)
  case (2 i b ds s ms)
  let ?s = "pure_bit (model_prob (ms ! i)) b s"
  have ok: "pure_ok ?s" using pure_bit_ok [OF "2.prems"(2) model_prob_range] .
  have run: "pure_all ds ?s (ms[i := model_update b (ms ! i)]) = (nf, rf, kf)" using "2.prems"(3) by simp
  have "inside (nf, rf, kf) ?s" "0 < rf"
    using pure_all_inside [OF ok, of ds "ms[i := model_update b (ms ! i)]"] unfolding run by (auto simp: pure_ok_def)
  then obtain d' where "decode_bit d (ms ! i) = (b, d', model_update b (ms ! i))" "decoding ws rest d' ?s"
    using decode_bit_decoding [OF "2.prems"(1,2,4) _ _ "2.prems"(5), of rf "ms ! i" b] by blast
  then show ?case using "2.IH" [OF _ ok run "2.prems"(4,5)] by simp
qed simp

lemma decoding_new:
  assumes "inside f (n, r, 0)" "n = 0" "r < 2 ^ 32" "f = (nf, rf, kf)" "0 < rf" "kf + 3 \<le> length ws"
    "number (take (kf + 2) ws) = nf"
  shows "decoding ws rest (range_decoder_new (words_bytes ws @ rest)) (0, 2 ^ 32 - 1, 0)"
proof -
  obtain w0 w1 ws' where ws: "ws = w0 # w1 # ws'" using assms(6) by (cases ws rule: remdups_adj.cases) auto
  have two: "number (take 2 ws) = unat w0 * 2 ^ 16 + unat w1" by (simp add: ws number_def)
  have w0: "unat w0 < 2 ^ LENGTH(16)" by (rule unsigned_less)
  then have u: "unat (ucast w0 :: u32) = unat w0" by (simp add: unsigned_ucast_eq take_bit_nat_eq_self)
  then have "unat (ucast w0 :: u32) < 2 ^ 16" using w0 by simp
  from next_digit [OF this, of w1] have code: "unat (push_bit 16 (ucast w0 :: u32) OR ucast w1) = number (take 2 ws)"
    unfolding two u .
  have le: "le16 (words_bytes ws @ rest) 0 = w0" "le16 (words_bytes ws @ rest) 2 = w1"
    using le16_words [of 0 ws rest] le16_words [of 1 ws rest] by (simp_all add: ws)
  have "number (take 2 ws) < r"
    using inside_number [of nf rf kf n r 0 ws] assms by (simp add: numeral_2_eq_2)
  then show ?thesis using code le assms(3) by (simp add: decoding_def range_decoder_new_def flip: numeral_2_eq_2)
qed

text \<open>
  C36. The adaptive range coder round trips: whatever bit models the decisions use and in whatever
  order, the decoder returns the decisions that were encoded, with the carries of the encoder
  resolved and any bytes behind the coded ones, provided that the first decision is a zero. The
  compressor meets this, since a stream starts with a literal.
\<close>

theorem range_coder_round_trip:
  assumes "ds = (i, False) # ds'"
  shows "decode_all (map fst ds) (range_decoder_new (range_finish (encode_all ds range_encoder_new ms) rest)) ms
    = map snd ds"
proof -
  let ?s = "(0, 2 ^ 32 - 1, 0) :: pure_state"
  define p where "p = model_prob (ms ! i)"
  have p: "0 < p" "p < 64" by (simp_all add: p_def model_prob_range)
  have ok: "pure_ok ?s" by (simp add: pure_ok_def)
  define e where "e = range_encoder_new\<lparr>re_range := range_bound 0xFFFFFFFF p\<rparr>"
  define r where "r = (2 ^ 32 - 1) div 64 * p"
  have r: "r \<le> 0xFFFF0000"
  proof -
    have "r \<le> (2 ^ 32 - 1) div 64 * 63" unfolding r_def using p(2) by (intro mult_le_mono2) simp
    also have "\<dots> \<le> 0xFFFF0000" by simp
    finally show ?thesis .
  qed
  have first: "encode_bit False range_encoder_new (ms ! i) = (e, model_update False (ms ! i))"
    using re_normalize_idle [of range_encoder_new]
    by (simp add: encode_bit_def e_def p_def Let_def) (simp add: range_encoder_new_def)
  have s1: "pure_bit p False ?s = (0, r, 0)" by (simp add: pure_bit_def pure_shift_def r_def)
  have "unat (range_bound 0xFFFFFFFF p) = r"
    using r p(2) by (simp add: range_bound_def unat_word_ariths unat_of_nat r_def)
  moreover have "pure_ok (0, r, 0)" using pure_bit_ok [OF ok p, of False] unfolding s1 .
  ultimately have e: "encoding e (0, r, 0)"
    using r by (auto simp: encoding_def digits_held_def e_def range_encoder_new_def words_bytes_def)
  define ms' where "ms' = ms[i := model_update False (ms ! i)]"
  obtain nf rf kf where f: "pure_all ds' (0, r, 0) ms' = (nf, rf, kf)" by (metis prod.exhaust)
  have "encoding (encode_all ds' e ms') (nf, rf, kf)" using encode_all_encoding [OF e, of ds' ms'] by (simp only: f)
  then obtain ws where ws: "range_finish (encode_all ds' e ms') rest = words_bytes ws @ rest"
      "length ws = kf + 3" "number (take (kf + 2) ws) = nf"
    using finish_digits by blast
  have run: "pure_all ds ?s ms = (nf, rf, kf)" using f s1 by (simp add: assms p_def ms'_def)
  then have "inside (nf, rf, kf) ?s" "0 < rf" using pure_all_inside [OF ok, of ds ms] by (auto simp: pure_ok_def)
  then have "decoding ws rest (range_decoder_new (words_bytes ws @ rest)) ?s"
    using ws(2,3) by (intro decoding_new [of _ 0 "2 ^ 32 - 1" nf rf kf]) simp_all
  from decode_all_pure [OF this ok run] ws(2,3)
  have "decode_all (map fst ds) (range_decoder_new (words_bytes ws @ rest)) ms = map snd ds" by simp
  moreover have "encode_all ds range_encoder_new ms = encode_all ds' e ms'" by (simp add: assms first ms'_def)
  ultimately show ?thesis by (simp only: ws(1))
qed

theorem range_coder_round_trip_witness:
  "decode_all [0, 1, 0] (range_decoder_new (range_finish (encode_all [(0, False), (1, True), (0, True)]
      range_encoder_new [bit_model_new 16, bit_model_new 32]) [9, 9])) [bit_model_new 16, bit_model_new 32]
    = [False, True, True]"
  using range_coder_round_trip [OF refl, where i = 0 and ds' = "[(1, True), (0, True)]" and rest = "[9, 9]"
      and ms = "[bit_model_new 16, bit_model_new 32]"] by simp

end
