(* ===== verification/LzmsFilter.thy ===== *)
theory LzmsFilter imports Prelude begin

text \<open>
  The filter for x86 code of the LZMS crate (\<open>crates/lzms/src/x86_filter.rs\<close>): relative addresses
  behind a call or an address load become absolute before compression and relative again after
  it. The operands are translated only while a window of recent targets says that the data is
  code, and both directions must come to the same decisions from different data.
\<close>

section \<open>The filter\<close>

record filter_state =
  xf_data :: bytes
  xf_pos :: nat
  xf_last :: int
  xf_usages :: "u16 \<Rightarrow> int"

text \<open>At a position: the bytes to skip, or the length of an opcode and how recent the code must be.\<close>

definition x86_class :: "bytes \<Rightarrow> nat \<Rightarrow> nat + nat \<times> int" where
  "x86_class d i =
     (let opcode = d ! i; op = d ! (i + 1); modrm = d ! (i + 2)
      in if opcode = 0xE8 then Inr (1, 511)
         else if opcode = 0x48 \<or> opcode = 0x4C then
           if modrm AND 0x07 = 0x05
              \<and> (op = 0x8D \<or> op = 0x8B \<and> opcode AND 0x04 = 0 \<and> modrm AND 0xF0 = 0)
           then Inr (3, 1023) else Inl 1
         else if opcode = 0xFF \<and> op = 0x15 then Inr (2, 1023)
         else if opcode = 0xF0 \<and> op = 0x83 \<and> modrm = 0x05 then Inr (3, 1023)
         else if opcode = 0xE9 then Inl 5
         else Inl 1)"

definition operand_at :: "bytes \<Rightarrow> nat \<Rightarrow> u32" where
  "operand_at d p = from_le (subrange p (p + 4) d)"

definition low_operand_at :: "bytes \<Rightarrow> nat \<Rightarrow> u16" where
  "low_operand_at d p = from_le (subrange p (p + 2) d)"

definition put_operand :: "nat \<Rightarrow> u32 \<Rightarrow> bytes \<Rightarrow> bytes" where
  "put_operand p v d = write_at p (to_le 4 v) d"

text \<open>The bookkeeping behind an operand that ends at \<open>end_pos\<close>.\<close>

definition x86_note :: "bytes \<Rightarrow> nat \<Rightarrow> u16 \<Rightarrow> filter_state \<Rightarrow> filter_state" where
  "x86_note d end_pos target st =
     \<lparr>xf_data = d, xf_pos = end_pos + 1,
      xf_last = (if int end_pos - xf_usages st target \<le> 65535 then int end_pos else xf_last st),
      xf_usages = (xf_usages st)(target := int end_pos)\<rparr>"

definition x86_step :: "bool \<Rightarrow> filter_state \<Rightarrow> filter_state" where
  "x86_step undo st =
     (let d = xf_data st; i = xf_pos st
      in case x86_class d i of
           Inl skip \<Rightarrow> st\<lparr>xf_pos := i + skip\<rparr>
         | Inr (nbytes, max_off) \<Rightarrow>
             let p = i + nbytes;
                 active = (int i - xf_last st \<le> max_off);
                 d = (if undo \<and> active then put_operand p (operand_at d p - of_nat i) d else d);
                 target = of_nat i + low_operand_at d p;
                 d = (if \<not> undo \<and> active then put_operand p (operand_at d p + of_nat i) d else d)
             in x86_note d (i + nbytes + 3) target st)"

lemma x86_note_sel [simp]:
  "xf_data (x86_note d e t st) = d" "xf_pos (x86_note d e t st) = e + 1"
  by (simp_all add: x86_note_def)

lemma x86_step_advances: "xf_pos st < xf_pos (x86_step undo st)"
  by (auto simp: x86_step_def x86_class_def Let_def split: sum.splits if_splits prod.splits)

function x86_loop :: "bool \<Rightarrow> nat \<Rightarrow> filter_state \<Rightarrow> bytes" where
  "x86_loop undo limit st =
     (if xf_pos st < limit then x86_loop undo limit (x86_step undo st) else xf_data st)"
  by pat_completeness auto
termination
  by (relation "measure (\<lambda>(undo, limit, st). limit - xf_pos st)") (simp_all add: diff_less_mono2 x86_step_advances)

declare x86_loop.simps [simp del]

text \<open>The size is the length as an \<open>i32\<close>.\<close>

definition x86_filter :: "bool \<Rightarrow> bytes \<Rightarrow> bytes" where
  "x86_filter undo d =
     (let sz = sint (of_nat (length d) :: u32)
      in if sz \<le> 17 then d
         else x86_loop undo (nat (sz - 16)) \<lparr>xf_data = d, xf_pos = 1, xf_last = - 1024, xf_usages = (\<lambda>_. - 65536)\<rparr>)"

section \<open>Both directions agree\<close>

lemma length_put_operand [simp]: "p + 4 \<le> length d \<Longrightarrow> length (put_operand p v d) = length d"
  by (simp add: put_operand_def)

lemma nth_put_operand:
  "p + 4 \<le> length d \<Longrightarrow> k < length d \<Longrightarrow>
    put_operand p v d ! k = (if p \<le> k \<and> k < p + 4 then to_le 4 v ! (k - p) else d ! k)"
  by (simp add: put_operand_def nth_write_at)

lemma operand_put [simp]: "p + 4 \<le> length d \<Longrightarrow> operand_at (put_operand p v d) p = v"
  by (simp add: operand_at_def put_operand_def write_at_def subrange_def)

lemma to_le_from_le: "length bs = 4 \<Longrightarrow> to_le 4 (from_le bs :: u32) = bs"
  by (intro bytes_bits_inj nth_equalityI) (simp_all add: bytes_bits_to_le bit_from_le word_bits_def)

lemma put_operand_same: "p + 4 \<le> length d \<Longrightarrow> put_operand p (operand_at d p) d = d"
  by (rule nth_equalityI) (auto simp: nth_put_operand operand_at_def to_le_from_le nth_subrange)

lemma take_prefix: "take m xs = take m ys \<Longrightarrow> n \<le> m \<Longrightarrow> take n xs = take n ys"
  by (metis min.absorb1 take_take)

lemma x86_class_length: "x86_class d i = Inr (nb, m) \<Longrightarrow> 0 < nb \<and> nb \<le> 3"
  by (auto simp: x86_class_def Let_def split: if_splits)

lemma x86_step_kept:
  assumes "xf_pos st + 16 \<le> length (xf_data st)"
  shows "length (xf_data (x86_step undo st)) = length (xf_data st)
    \<and> take (xf_pos st + 1) (xf_data (x86_step undo st)) = take (xf_pos st + 1) (xf_data st)"
proof -
  have "take (xf_pos st + 1) (put_operand (xf_pos st + nb) v (xf_data st)) = take (xf_pos st + 1) (xf_data st)
      \<and> length (put_operand (xf_pos st + nb) v (xf_data st)) = length (xf_data st)"
    if "0 < nb" "nb \<le> 3" for nb v
    using that assms by (auto simp: put_operand_def write_at_def)
  then show ?thesis by (auto simp: x86_step_def Let_def split: sum.splits prod.splits dest: x86_class_length)
qed

lemma x86_loop_kept:
  "limit + 16 \<le> length (xf_data st) \<Longrightarrow>
    length (x86_loop undo limit st) = length (xf_data st)
    \<and> take (xf_pos st + 1) (x86_loop undo limit st) = take (xf_pos st + 1) (xf_data st)"
proof (induction undo limit st rule: x86_loop.induct)
  case (1 undo limit st)
  show ?case
  proof (cases "xf_pos st < limit")
    case True
    let ?st = "x86_step undo st"
    have s: "length (xf_data ?st) = length (xf_data st)"
      "take (xf_pos st + 1) (xf_data ?st) = take (xf_pos st + 1) (xf_data st)"
      using x86_step_kept [of st undo] True "1.prems" by simp_all
    note ih = "1.IH" [OF True, unfolded s(1), OF "1.prems"]
    have "xf_pos st + 1 \<le> xf_pos ?st + 1" using x86_step_advances [of st undo] by simp
    then have "take (xf_pos st + 1) (x86_loop undo limit ?st) = take (xf_pos st + 1) (xf_data ?st)"
      by (rule take_prefix [OF conjunct2 [OF ih]])
    moreover have "x86_loop undo limit st = x86_loop undo limit ?st"
      using True by (subst x86_loop.simps) simp
    ultimately show ?thesis using ih s by simp
  next
    case False
    then have "x86_loop undo limit st = xf_data st" by (subst x86_loop.simps) simp
    then show ?thesis by simp
  qed
qed

lemma take_nth: "take n xs = take n ys \<Longrightarrow> k < n \<Longrightarrow> xs ! k = ys ! k"
  by (metis nth_take)

text \<open>
  The class of a position depends on bytes that no later step changes: a byte that would be changed
  belongs to an operand, and an opcode that has one does not stand in the middle of another.
\<close>

lemma x86_class_stable:
  assumes pos: "xf_pos st < limit" and len: "limit + 16 \<le> length (xf_data st)"
  shows "x86_class (x86_loop undo limit st) (xf_pos st) = x86_class (xf_data st) (xf_pos st)"
proof -
  define i where "i = xf_pos st"
  define d where "d = xf_data st"
  define b where "b = x86_loop undo limit st"
  let ?st = "x86_step undo st"
  have l: "length (xf_data ?st) = length (xf_data st)"
    using x86_step_kept [of st undo] pos len by simp
  have b: "b = x86_loop undo limit ?st" unfolding b_def using pos by (subst x86_loop.simps) simp
  have later: "take (xf_pos ?st + 1) b = take (xf_pos ?st + 1) (xf_data ?st)"
    using x86_loop_kept [of limit ?st undo] l len by (simp add: b)
  have same: "b ! i = d ! i" using take_nth [OF conjunct2 [OF x86_loop_kept [OF len, of undo]], of i]
    by (simp add: i_def b_def d_def)
  show ?thesis
  proof (cases "x86_class d i")
    case (Inr p)
    obtain nb m where p: "p = (nb, m)" by (metis prod.exhaust)
    have nb: "0 < nb" "nb \<le> 3" using x86_class_length Inr p by blast+
    have st: "xf_pos ?st = i + nb + 4" "\<And>k. k < i + nb \<Longrightarrow> xf_data ?st ! k = d ! k"
      using Inr p nb pos len
      by (auto simp: x86_step_def Let_def i_def d_def nth_put_operand)
    have "b ! (i + k) = d ! (i + k)" if "k < nb" for k
      using take_nth [OF later, of "i + k"] st that by simp
    then have "b ! i = d ! i" "1 < nb \<Longrightarrow> b ! (i + 1) = d ! (i + 1)" "2 < nb \<Longrightarrow> b ! (i + 2) = d ! (i + 2)"
      using nb(1) by (metis add_0_right, blast, blast)
    then have "x86_class b i = x86_class d i"
      using Inr p by (auto simp: x86_class_def Let_def split: if_splits)
    then show ?thesis by (simp only: i_def d_def b_def)
  next
    case (Inl skip)
    then have st: "xf_pos ?st = i + skip" "xf_data ?st = d" "0 < skip"
      by (auto simp: x86_step_def Let_def i_def d_def x86_class_def split: if_splits)
    have one: "b ! (i + 1) = d ! (i + 1)" using take_nth [OF later, of "i + 1"] st by simp
    have two: "b ! (i + 2) = d ! (i + 2)" if op: "d ! (i + 1) \<in> {0x8D, 0x8B, 0x83}" "skip = 1"
    proof (cases "i + 1 < limit")
      case True
      have "x86_class d (i + 1) = Inl 1" using op by (auto simp: x86_class_def Let_def)
      then have st2: "xf_pos (x86_step undo ?st) = i + 2" "xf_data (x86_step undo ?st) = d"
        using st op(2) by (simp_all add: x86_step_def)
      have "b = x86_loop undo limit (x86_step undo ?st)"
        unfolding b using True st op(2) by (subst x86_loop.simps) simp
      moreover have "take (i + 2 + 1) (x86_loop undo limit (x86_step undo ?st)) = take (i + 2 + 1) d"
        using x86_loop_kept [of limit "x86_step undo ?st" undo] st2 len d_def by simp
      ultimately show ?thesis using take_nth [of "i + 2 + 1" b d "i + 2"] by simp
    next
      case False
      then have "b = d" unfolding b using st op(2) by (subst x86_loop.simps) simp
      then show ?thesis by simp
    qed
    have "x86_class b i = x86_class d i"
      using Inl same one two by (auto simp: x86_class_def Let_def split: if_splits)
    then show ?thesis by (simp only: i_def d_def b_def)
  qed
qed

lemma x86_class_cong:
  "a ! i = b ! i \<Longrightarrow> a ! (i + 1) = b ! (i + 1) \<Longrightarrow> a ! (i + 2) = b ! (i + 2) \<Longrightarrow> x86_class a i = x86_class b i"
  by (simp add: x86_class_def)

lemma drop_nth: "drop n xs = drop n ys \<Longrightarrow> length xs = length ys \<Longrightarrow> n \<le> k \<Longrightarrow> k < length ys \<Longrightarrow> xs ! k = ys ! k"
proof -
  assume a: "drop n xs = drop n ys" "length xs = length ys" "n \<le> k" "k < length ys"
  have "drop n xs ! (k - n) = drop n ys ! (k - n)" by (simp only: a(1))
  then show ?thesis using a(2-4) by simp
qed

text \<open>The operand that the inverse step restores.\<close>

lemma restored_operand:
  assumes "p + 4 \<le> length x" "length y = length x"
    and y: "\<forall>k. p \<le> k \<and> k < p + 4 \<longrightarrow> y ! k = (if active then put_operand p (operand_at x p + v) x else x) ! k"
  defines "y' \<equiv> if active then put_operand p (operand_at y p - v) y else y"
  shows "length y' = length x" "\<And>k. p \<le> k \<Longrightarrow> k < p + 4 \<Longrightarrow> y' ! k = x ! k"
    "\<And>k. k < length x \<Longrightarrow> \<not> (p \<le> k \<and> k < p + 4) \<Longrightarrow> y' ! k = y ! k" "low_operand_at y' p = low_operand_at x p"
proof -
  show l: "length y' = length x" using assms(1,2) by (simp add: y'_def)
  show at: "y' ! k = x ! k" if k: "p \<le> k" "k < p + 4" for k
  proof (cases active)
    case True
    have "subrange p (p + 4) y = subrange p (p + 4) (put_operand p (operand_at x p + v) x)"
      by (rule nth_equalityI) (use assms(1,2) y True in \<open>simp_all add: nth_subrange\<close>)
    then have "operand_at y p = operand_at x p + v"
      using operand_put [OF assms(1), of "operand_at x p + v"] by (simp add: operand_at_def)
    then have "y' ! k = put_operand p (operand_at x p) y ! k" using True by (simp add: y'_def)
    also have "\<dots> = put_operand p (operand_at x p) x ! k" using k assms(1,2) by (simp add: nth_put_operand)
    finally show ?thesis using put_operand_same [OF assms(1)] by simp
  next
    case False
    then show ?thesis using y k by (simp add: y'_def)
  qed
  show "y' ! k = y ! k" if "k < length x" "\<not> (p \<le> k \<and> k < p + 4)" for k
    using that assms(1,2) by (auto simp: y'_def nth_put_operand)
  have "subrange p (p + 2) y' = subrange p (p + 2) x"
    by (rule nth_equalityI) (use assms(1) l at in \<open>simp_all add: nth_subrange\<close>)
  then show "low_operand_at y' p = low_operand_at x p" by (simp add: low_operand_at_def)
qed

lemma undo_follows:
  "limit + 16 \<le> length (xf_data st) \<Longrightarrow> length y = length (xf_data st) \<Longrightarrow>
    drop (xf_pos st) y = drop (xf_pos st) (x86_loop False limit st) \<Longrightarrow>
    x86_loop True limit (st\<lparr>xf_data := y\<rparr>) = take (xf_pos st) y @ drop (xf_pos st) (xf_data st)"
proof (induction "False" limit st arbitrary: y rule: x86_loop.induct)
  case (1 limit st)
  define i where "i = xf_pos st"
  define x where "x = xf_data st"
  define b where "b = x86_loop False limit st"
  note P = "1.prems" [folded i_def x_def b_def]
  show ?case
  proof (cases "i < limit")
    case False
    then have "x86_loop True limit (st\<lparr>xf_data := y\<rparr>) = y" by (subst x86_loop.simps) (simp add: i_def)
    moreover have "b = x" unfolding b_def x_def using False by (subst x86_loop.simps) (simp add: i_def)
    ultimately show ?thesis using P(3) by (metis append_take_drop_id i_def x_def)
  next
    case True
    let ?st = "x86_step False st"
    have pos: "xf_pos st < limit" using True by (simp add: i_def)
    have lb: "length b = length x" using x86_loop_kept [of limit st False] P(1) by (simp add: b_def x_def)
    have b: "b = x86_loop False limit ?st" unfolding b_def using pos by (subst x86_loop.simps) simp
    have lx: "length (xf_data ?st) = length x" using x86_step_kept [of st False] pos P(1) by (simp add: x_def)
    have later: "take (xf_pos ?st + 1) b = take (xf_pos ?st + 1) (xf_data ?st)"
      using x86_loop_kept [of limit ?st False] P(1) lx by (simp add: b)
    have yb: "y ! k = b ! k" if "i \<le> k" "k < length x" for k
      using drop_nth [OF P(3), of k] P(2) lb that by simp
    have cls: "x86_class y i = x86_class x i"
      using x86_class_cong [of y i b] yb True P(1) x86_class_stable [OF pos, of False] by (simp add: x_def b_def i_def)
    note ih = "1.hyps" [OF pos, unfolded lx]
    have loop: "x86_loop True limit (st\<lparr>xf_data := y\<rparr>) = x86_loop True limit (x86_step True (st\<lparr>xf_data := y\<rparr>))"
      using pos by (subst x86_loop.simps) simp
    show ?thesis
    proof (cases "x86_class x i")
      case (Inl skip)
      then have st: "?st = st\<lparr>xf_pos := i + skip\<rparr>" "x86_step True (st\<lparr>xf_data := y\<rparr>) = ?st\<lparr>xf_data := y\<rparr>"
        using cls by (simp_all add: x86_step_def i_def x_def)
      have "drop (i + skip) y = drop (i + skip) b" using P(3) by (metis add.commute drop_drop)
      then have "x86_loop True limit (st\<lparr>xf_data := y\<rparr>) = take (i + skip) y @ drop (i + skip) x"
        unfolding loop st(2) using ih [of y] P(1,2) b by (simp add: st(1) x_def)
      also have "\<dots> = take i y @ drop i x"
      proof (rule nth_equalityI)
        fix k assume "k < length (take (i + skip) y @ drop (i + skip) x)"
        then have k: "k < length x" using P(1,2) True by (simp add: min_def split: if_splits)
        have "b ! k = x ! k" if "k < i + skip" using take_nth [OF later, of k] st(1) that by (simp add: x_def)
        then show "(take (i + skip) y @ drop (i + skip) x) ! k = (take i y @ drop i x) ! k"
          using k yb P(1,2) True by (auto simp: nth_append min_def)
      qed (use P(1,2) True in \<open>simp add: min_def\<close>)
      finally show ?thesis by (simp add: i_def x_def)
    next
      case (Inr q)
      obtain nb m where q: "q = (nb, m)" by (metis prod.exhaust)
      have nb: "0 < nb" "nb \<le> 3" using x86_class_length Inr q by blast+
      define p where "p = i + nb"
      define active where "active = (int i - xf_last st \<le> m)"
      define x' where "x' = (if active then put_operand p (operand_at x p + of_nat i) x else x)"
      define y' where "y' = (if active then put_operand p (operand_at y p - of_nat i) y else y)"
      have p4: "p + 4 \<le> length x" using nb True P(1) by (simp add: p_def)
      have st: "xf_data ?st = x'" "xf_pos ?st = p + 4"
        using Inr q by (simp_all add: x86_step_def Let_def i_def x_def p_def x'_def active_def)
      have bx: "b ! k = x' ! k" if "k < p + 4" for k using take_nth [OF later, of k] st that by simp
      have yx: "\<forall>k. p \<le> k \<and> k < p + 4 \<longrightarrow> y ! k = x' ! k"
        using yb bx p4 by (simp add: p_def)
      note R = restored_operand [OF p4 P(2) yx [unfolded x'_def], folded y'_def]
      have target: "low_operand_at y' p = low_operand_at x p" using R(4) by (simp add: y'_def)
      have do: "?st = x86_note x' (i + nb + 3) (of_nat i + low_operand_at x p) st"
        using Inr q by (simp add: x86_step_def Let_def i_def x_def p_def x'_def active_def)
      have "x86_step True (st\<lparr>xf_data := y\<rparr>)
          = x86_note y' (i + nb + 3) (of_nat i + low_operand_at y' p) (st\<lparr>xf_data := y\<rparr>)"
        using Inr q cls by (simp add: x86_step_def Let_def i_def x_def p_def y'_def active_def)
      then have step: "x86_step True (st\<lparr>xf_data := y\<rparr>) = ?st\<lparr>xf_data := y'\<rparr>"
        unfolding do by (simp add: target x86_note_def)
      have "drop (p + 4) y' = drop (p + 4) b"
        by (rule nth_equalityI) (use R(1,3) yb lb p4 in \<open>auto simp: p_def\<close>)
      then have "x86_loop True limit (st\<lparr>xf_data := y\<rparr>) = take (p + 4) y' @ drop (p + 4) x'"
        unfolding loop step using ih [of y'] P(1) R(1) b st by simp
      also have "\<dots> = take i y @ drop i x"
      proof (rule nth_equalityI)
        have lx': "length x' = length x" using p4 by (simp add: x'_def)
        then show "length (take (p + 4) y' @ drop (p + 4) x') = length (take i y @ drop i x)"
          using R(1) p4 P(2) by (simp add: p_def)
        fix k assume "k < length (take (p + 4) y' @ drop (p + 4) x')"
        then have k: "k < length x" using R(1) lx' p4 by simp
        have out: "x' ! k = x ! k" if "\<not> (p \<le> k \<and> k < p + 4)"
          using that k p4 by (auto simp: x'_def nth_put_operand)
        consider "k < i" | "i \<le> k" "k < p" | "p \<le> k" "k < p + 4" | "p + 4 \<le> k" by linarith
        then show "(take (p + 4) y' @ drop (p + 4) x') ! k = (take i y @ drop i x) ! k"
          using R(1,2) R(3) [OF k] out yb [OF _ k] bx k p4 P(2) lx' by cases (simp_all add: nth_append p_def)
      qed
      finally show ?thesis by (simp add: i_def x_def)
    qed
  qed
qed

lemma filter_limit:
  assumes "17 < sint (of_nat (length d) :: u32)"
  shows "nat (sint (of_nat (length d) :: u32) - 16) + 16 \<le> length d"
proof -
  have "sint (of_nat (length d) :: u32) = signed_take_bit 31 (int (length d))" by (simp add: signed_of_nat)
  then have "sint (of_nat (length d) :: u32) \<le> int (length d)"
    using signed_take_bit_int_less_eq_self_iff [of 31 "int (length d)"] by simp
  then show ?thesis using assms by simp
qed

lemma length_x86_filter [simp]: "length (x86_filter undo d) = length d"
proof (cases "17 < sint (of_nat (length d) :: u32)")
  case True
  let ?st = "\<lparr>xf_data = d, xf_pos = 1, xf_last = - 1024, xf_usages = (\<lambda>_. - 65536)\<rparr>"
  show ?thesis
    using True x86_loop_kept [of "nat (sint (of_nat (length d) :: u32) - 16)" ?st undo] filter_limit [OF True]
    by (simp add: x86_filter_def Let_def)
qed (simp add: x86_filter_def Let_def)

text \<open>
  C37. The x86 filter is undone: on every byte string the filter before compression followed by the
  filter behind decompression gives the string back, although the second run decides from the
  translated bytes where the code is.
\<close>

theorem x86_filter_undone: "x86_filter True (x86_filter False d) = d"
proof (cases "sint (of_nat (length d) :: u32) \<le> 17")
  case True
  then show ?thesis by (simp add: x86_filter_def Let_def)
next
  case False
  define sz where "sz = sint (of_nat (length d) :: u32)"
  have limit: "nat (sz - 16) + 16 \<le> length d" using False filter_limit [of d] by (simp add: sz_def)
  let ?st = "\<lparr>xf_data = d, xf_pos = 1, xf_last = - 1024, xf_usages = (\<lambda>_. - 65536)\<rparr>"
  let ?b = "x86_loop False (nat (sz - 16)) ?st"
  have "length ?b = length d \<and> take (1 + 1) ?b = take (1 + 1) d"
    using x86_loop_kept [of "nat (sz - 16)" ?st False] limit by simp
  then have kept: "length ?b = length d" and "take (1 + 1) ?b = take (1 + 1) d" by blast+
  from take_prefix [OF this(2), of 1] have first: "take 1 ?b = take 1 d" by simp
  have "x86_loop True (nat (sz - 16)) (?st\<lparr>xf_data := ?b\<rparr>) = take 1 ?b @ drop 1 d"
    using undo_follows [of "nat (sz - 16)" ?st ?b] limit kept by simp
  then have "x86_loop True (nat (sz - 16)) (?st\<lparr>xf_data := ?b\<rparr>) = d"
    unfolding first by (simp only: append_take_drop_id)
  then show ?thesis using False kept by (simp add: x86_filter_def Let_def sz_def)
qed

end
