(* ===== verification/LzmsDecode.thy ===== *)
theory LzmsDecode imports LzmsHuffman LzmsFilter begin

text \<open>
  The LZMS decompressor, \<open>decompress\<close> in \<open>crates/lzms/src/lib.rs\<close>: literals, matches with repeated
  offsets and delta matches, decided by the range decoder, with the symbols and extra bits from the
  backward stream. The output is the list of the bytes written so far; the code writes them into a
  zeroed buffer and reads no byte before it is written.
\<close>

section \<open>Queues and copies\<close>

definition queue_push :: "'a list \<Rightarrow> 'a \<Rightarrow> 'a list" where
  "queue_push q v = [v, q ! 0, q ! 1, q ! 2]"

definition queue_mtf :: "'a list \<Rightarrow> nat \<Rightarrow> 'a list" where
  "queue_mtf q i = q ! i # take i q @ drop (i + 1) q"

text \<open>
  The copy of a match: one move when the match does not overlap itself, else the first period, then
  chunks that double in size. With an offset of 0 the loop would never end.
\<close>

partial_function (option) copy_doubling :: "nat \<Rightarrow> nat \<Rightarrow> nat \<Rightarrow> bytes \<Rightarrow> bytes option" where
  "copy_doubling pos n copied out =
     (if copied < n then
        let chunk = min (n - copied) copied
        in copy_doubling pos n (copied + chunk) (out @ subrange pos (pos + chunk) out)
      else Some out)"

definition lz_copy :: "nat \<Rightarrow> nat \<Rightarrow> bytes \<Rightarrow> bytes option" where
  "lz_copy off n out =
     (let pos = length out; start = pos - off
      in if n \<le> off then Some (out @ subrange start (start + n) out)
         else copy_doubling pos n off (out @ subrange start (start + off) out))"

fun delta_copy :: "nat \<Rightarrow> nat \<Rightarrow> nat \<Rightarrow> bytes \<Rightarrow> bytes" where
  "delta_copy 0 off span out = out"
| "delta_copy (Suc n) off span out =
     (let pos = length out; s = pos - off
      in delta_copy n off span (out @ [out ! s + out ! (pos - span) - out ! (s - span)]))"

section \<open>The decoder\<close>

record lzms_state =
  ls_out :: bytes
  ls_rc :: range_decoder
  ls_bits :: back_bits
  ls_literal :: adaptive_code
  ls_lz_offset :: adaptive_code
  ls_length :: adaptive_code
  ls_delta_offset :: adaptive_code
  ls_delta_power :: adaptive_code
  ls_probs :: prob_tables
  ls_lz_queue :: "nat list"
  ls_delta_queue :: "(nat \<times> nat) list"
  ls_prev :: nat

type_synonym 'a lz_run = "(lzms_error, 'a) run"

text \<open>The decisions, each with its model.\<close>

definition main_decision :: "lzms_state \<Rightarrow> bool \<times> lzms_state" where
  "main_decision st = (case decode_bit (ls_rc st) (pb_main (ls_probs st)) of (b, r, m) \<Rightarrow>
     (b, st\<lparr>ls_rc := r, ls_probs := (ls_probs st)\<lparr>pb_main := m\<rparr>\<rparr>))"

definition match_decision :: "lzms_state \<Rightarrow> bool \<times> lzms_state" where
  "match_decision st = (case decode_bit (ls_rc st) (pb_match (ls_probs st)) of (b, r, m) \<Rightarrow>
     (b, st\<lparr>ls_rc := r, ls_probs := (ls_probs st)\<lparr>pb_match := m\<rparr>\<rparr>))"

definition lz_decision :: "lzms_state \<Rightarrow> bool \<times> lzms_state" where
  "lz_decision st = (case decode_bit (ls_rc st) (pb_lz (ls_probs st)) of (b, r, m) \<Rightarrow>
     (b, st\<lparr>ls_rc := r, ls_probs := (ls_probs st)\<lparr>pb_lz := m\<rparr>\<rparr>))"

definition delta_decision :: "lzms_state \<Rightarrow> bool \<times> lzms_state" where
  "delta_decision st = (case decode_bit (ls_rc st) (pb_delta (ls_probs st)) of (b, r, m) \<Rightarrow>
     (b, st\<lparr>ls_rc := r, ls_probs := (ls_probs st)\<lparr>pb_delta := m\<rparr>\<rparr>))"

definition decode_rep :: "range_decoder \<Rightarrow> bit_model \<Rightarrow> bit_model \<Rightarrow> nat \<times> range_decoder \<times> bit_model \<times> bit_model" where
  "decode_rep r m0 m1 =
     (case decode_bit r m0 of (b0, r, m0) \<Rightarrow>
        if \<not> b0 then (0, r, m0, m1)
        else case decode_bit r m1 of (b1, r, m1) \<Rightarrow> (if b1 then 2 else 1, r, m0, m1))"

definition lz_rep :: "lzms_state \<Rightarrow> nat \<times> lzms_state" where
  "lz_rep st = (let pb = ls_probs st in
     case decode_rep (ls_rc st) (pb_lz_rep0 pb) (pb_lz_rep1 pb) of (k, r, m0, m1) \<Rightarrow>
       (k, st\<lparr>ls_rc := r, ls_probs := pb\<lparr>pb_lz_rep0 := m0, pb_lz_rep1 := m1\<rparr>\<rparr>))"

definition delta_rep :: "lzms_state \<Rightarrow> nat \<times> lzms_state" where
  "delta_rep st = (let pb = ls_probs st in
     case decode_rep (ls_rc st) (pb_delta_rep0 pb) (pb_delta_rep1 pb) of (k, r, m0, m1) \<Rightarrow>
       (k, st\<lparr>ls_rc := r, ls_probs := pb\<lparr>pb_delta_rep0 := m0, pb_delta_rep1 := m1\<rparr>\<rparr>))"

definition literal_symbol :: "lzms_state \<Rightarrow> (nat \<times> lzms_state) lz_run" where
  "literal_symbol st = run_bind (decode_symbol (ls_literal st) (ls_bits st)) (\<lambda>(s, a, b).
     Some (Inr (s, st\<lparr>ls_literal := a, ls_bits := b\<rparr>)))"

definition explicit_lz_offset :: "lzms_state \<Rightarrow> (nat \<times> lzms_state) lz_run" where
  "explicit_lz_offset st = run_bind (decode_symbol (ls_lz_offset st) (ls_bits st)) (\<lambda>(slot, a, b).
     case slot_offset slot b of (off, b) \<Rightarrow>
       Some (Inr (off, st\<lparr>ls_lz_offset := a, ls_bits := b, ls_lz_queue := queue_push (ls_lz_queue st) off\<rparr>)))"

definition match_length_symbol :: "lzms_state \<Rightarrow> (nat \<times> lzms_state) lz_run" where
  "match_length_symbol st = run_bind (decode_symbol (ls_length st) (ls_bits st)) (\<lambda>(slot, a, b).
     case slot_length slot b of (n, b) \<Rightarrow> Some (Inr (n, st\<lparr>ls_length := a, ls_bits := b\<rparr>)))"

definition explicit_delta :: "lzms_state \<Rightarrow> ((nat \<times> nat) \<times> lzms_state) lz_run" where
  "explicit_delta st = run_bind (decode_symbol (ls_delta_power st) (ls_bits st)) (\<lambda>(power, a, b).
     run_bind (decode_symbol (ls_delta_offset st) b) (\<lambda>(slot, a', b).
       case slot_offset slot b of (off, b) \<Rightarrow>
         Some (Inr ((off, power), st\<lparr>ls_delta_power := a, ls_delta_offset := a', ls_bits := b,
           ls_delta_queue := queue_push (ls_delta_queue st) (off, power)\<rparr>))))"

definition lz_match :: "nat \<Rightarrow> lzms_state \<Rightarrow> lzms_state lz_run" where
  "lz_match out_size st =
     (case lz_decision st of (rep, st) \<Rightarrow>
        run_bind
          (if \<not> rep then explicit_lz_offset st
           else case lz_rep st of (k, st) \<Rightarrow>
             let adj = min (k + ls_prev st mod 2) 3
             in Some (Inr (ls_lz_queue st ! adj, st\<lparr>ls_lz_queue := queue_mtf (ls_lz_queue st) adj\<rparr>)))
          (\<lambda>(off, st).
             run_bind (match_length_symbol st) (\<lambda>(len, st).
               let pos = length (ls_out st)
               in if pos < off then Some (Inl (LzMalformed ''LZMS: LZ offset past start''))
                  else map_option (\<lambda>out. Inr (st\<lparr>ls_out := out, ls_prev := 1\<rparr>))
                         (lz_copy off (min len (out_size - pos)) (ls_out st)))))"

definition delta_match :: "nat \<Rightarrow> lzms_state \<Rightarrow> lzms_state lz_run" where
  "delta_match out_size st =
     (case delta_decision st of (rep, st) \<Rightarrow>
        run_bind
          (if \<not> rep then explicit_delta st
           else case delta_rep st of (k, st) \<Rightarrow>
             let adj = min (k + ls_prev st div 2 mod 2) 3
             in Some (Inr (ls_delta_queue st ! adj, st\<lparr>ls_delta_queue := queue_mtf (ls_delta_queue st) adj\<rparr>)))
          (\<lambda>((raw_offset, power), st).
             run_bind (match_length_symbol st) (\<lambda>(len, st).
               let pos = length (ls_out st); span = 2 ^ power; off = raw_offset * 2 ^ power
               in if 2 ^ 64 \<le> off then Some (Inl (LzMalformed ''LZMS: delta offset overflow''))
                  else if pos < off + span then Some (Inl (LzMalformed ''LZMS: delta offset/span past start''))
                  else Some (Inr (st\<lparr>ls_out := delta_copy (min len (out_size - pos)) off span (ls_out st),
                                    ls_prev := 2\<rparr>)))))"

definition lzms_round :: "nat \<Rightarrow> lzms_state \<Rightarrow> lzms_state lz_run" where
  "lzms_round out_size st =
     (case main_decision st of (b, st) \<Rightarrow>
        if \<not> b then
          run_bind (literal_symbol st) (\<lambda>(s, st).
            Some (Inr (st\<lparr>ls_out := ls_out st @ [of_nat s], ls_prev := 0\<rparr>)))
        else case match_decision st of (d, st) \<Rightarrow>
          if \<not> d then lz_match out_size st else delta_match out_size st)"

partial_function (option) lzms_loop :: "nat \<Rightarrow> lzms_state \<Rightarrow> (lzms_error + lzms_state) option" where
  "lzms_loop out_size st =
     (if length (ls_out st) < out_size
      then Option.bind (lzms_round out_size st)
             (\<lambda>r. case r of Inl e \<Rightarrow> Some (Inl e) | Inr st \<Rightarrow> lzms_loop out_size st)
      else Some (Inr st))"

definition lzms_start :: "bytes \<Rightarrow> nat \<Rightarrow> lzms_state option" where
  "lzms_start data out_size =
     (let offsets = num_offset_slots out_size
      in Option.bind (adaptive_new 256 1024) (\<lambda>literal. Option.bind (adaptive_new offsets 1024) (\<lambda>lz_offset.
         Option.bind (adaptive_new 54 512) (\<lambda>len. Option.bind (adaptive_new offsets 1024) (\<lambda>delta_offset.
         Option.bind (adaptive_new 8 512) (\<lambda>delta_power.
           Some \<lparr>ls_out = [], ls_rc = range_decoder_new data, ls_bits = back_new data, ls_literal = literal,
                 ls_lz_offset = lz_offset, ls_length = len, ls_delta_offset = delta_offset,
                 ls_delta_power = delta_power, ls_probs = prob_tables_new, ls_lz_queue = [1, 2, 3, 4],
                 ls_delta_queue = [(1, 0), (2, 0), (3, 0), (4, 0)], ls_prev = 0\<rparr>))))))"

definition lzms_decompress :: "bytes \<Rightarrow> nat \<Rightarrow> bytes lz_run" where
  "lzms_decompress data out_size =
     (if data = [] \<or> out_size = 0 then Some (Inr [])
      else if 0x04000000 < out_size then Some (Inl (LzMalformed ''LZMS: output size exceeds 64 MiB chunk limit''))
      else if length data < 4 \<or> odd (length data) then Some (Inl (LzMalformed ''LZMS: need >= 4 even bytes''))
      else Option.bind (lzms_start data out_size) (\<lambda>st.
             run_bind (lzms_loop out_size st) (\<lambda>st. Some (Inr (x86_filter True (ls_out st))))))"

section \<open>Copies are bytewise copies\<close>

text \<open>The reference: one byte at a time, each from \<open>off\<close> bytes back.\<close>

fun copy_back :: "nat \<Rightarrow> nat \<Rightarrow> bytes \<Rightarrow> bytes" where
  "copy_back 0 off out = out"
| "copy_back (Suc n) off out = copy_back n off (out @ [out ! (length out - off)])"

lemma copy_back_add: "copy_back (m + n) off out = copy_back n off (copy_back m off out)"
  by (induction m off out rule: copy_back.induct) simp_all

lemma length_copy_back [simp]: "length (copy_back n off out) = length out + n"
  by (induction n off out rule: copy_back.induct) simp_all

lemma copy_back_prefix: "k < length out \<Longrightarrow> copy_back n off out ! k = out ! k"
  by (induction n off out rule: copy_back.induct) (simp_all add: nth_append)

lemma copy_back_nth:
  "0 < off \<Longrightarrow> off \<le> length out \<Longrightarrow> k < n \<Longrightarrow>
    copy_back n off out ! (length out + k) = copy_back n off out ! (length out + k - off)"
proof (induction n arbitrary: k)
  case (Suc n)
  let ?c = "copy_back n off out"
  have s: "copy_back (Suc n) off out = ?c @ [?c ! (length out + n - off)]"
    using copy_back_add [of n 1 off out] by simp
  show ?case
  proof (cases "k = n")
    case True
    then show ?thesis unfolding s using Suc.prems by (simp add: nth_append)
  next
    case False
    then show ?thesis unfolding s using Suc by (simp add: nth_append less_diff_conv2)
  qed
qed simp

lemma copy_back_period:
  "0 < off \<Longrightarrow> off \<le> length out \<Longrightarrow> j * off + k < n \<Longrightarrow>
    copy_back n off out ! (length out + (j * off + k)) = copy_back n off out ! (length out + k)"
proof (induction j)
  case (Suc j)
  have "copy_back n off out ! (length out + (Suc j * off + k)) = copy_back n off out ! (length out + (j * off + k))"
    using copy_back_nth [OF Suc.prems] by (simp add: add.assoc)
  then show ?case using Suc by simp
qed simp

lemma copy_back_short:
  assumes "0 < off" "off \<le> length out" "n \<le> off"
  shows "out @ subrange (length out - off) (length out - off + n) out = copy_back n off out"
proof (rule nth_equalityI)
  show l: "length (out @ subrange (length out - off) (length out - off + n) out) = length (copy_back n off out)"
    using assms by (simp add: length_subrange)
  fix i assume "i < length (out @ subrange (length out - off) (length out - off + n) out)"
  then have i: "i < length out + n" using l by simp
  show "(out @ subrange (length out - off) (length out - off + n) out) ! i = copy_back n off out ! i"
  proof (cases "i < length out")
    case True
    then show ?thesis by (simp add: nth_append copy_back_prefix)
  next
    case False
    define k where "k = i - length out"
    have k: "i = length out + k" "k < n" using False i by (simp_all add: k_def)
    have "copy_back n off out ! i = copy_back n off out ! (length out + k - off)"
      unfolding k(1) using assms k(2) by (intro copy_back_nth) simp_all
    also have "\<dots> = out ! (length out + k - off)" using assms k(2) by (intro copy_back_prefix) simp
    finally show ?thesis using k assms by (simp add: nth_append nth_subrange)
  qed
qed

lemma copy_back_double:
  assumes off: "0 < off" "off \<le> length out" "off dvd c" and chunk: "chunk \<le> c"
  shows "copy_back c off out @ subrange (length out) (length out + chunk) (copy_back c off out)
    = copy_back (c + chunk) off out"
proof (rule nth_equalityI)
  let ?c = "copy_back c off out"
  show l: "length (?c @ subrange (length out) (length out + chunk) ?c) = length (copy_back (c + chunk) off out)"
    using chunk by (simp add: length_subrange)
  have split: "copy_back (c + chunk) off out = copy_back chunk off ?c" by (rule copy_back_add)
  fix i assume "i < length (?c @ subrange (length out) (length out + chunk) ?c)"
  then have i: "i < length out + (c + chunk)" using l by simp
  show "(?c @ subrange (length out) (length out + chunk) ?c) ! i = copy_back (c + chunk) off out ! i"
  proof (cases "i < length ?c")
    case True
    then show ?thesis unfolding split by (simp add: nth_append copy_back_prefix)
  next
    case False
    define k where "k = i - length ?c"
    have k: "i = length out + (c + k)" "k < chunk" using False i by (simp_all add: k_def)
    obtain j where j: "c = j * off" using off(3) by (auto simp: dvd_def mult.commute)
    have "copy_back (c + chunk) off out ! i = copy_back (c + chunk) off out ! (length out + k)"
      unfolding k(1) using copy_back_period [OF off(1,2), of j k "c + chunk"] k(2) by (simp add: j)
    also have "\<dots> = ?c ! (length out + k)" unfolding split using k(2) chunk by (intro copy_back_prefix) simp
    finally show ?thesis using k chunk by (simp add: nth_append nth_subrange)
  qed
qed

lemma copy_doubling_back:
  assumes off: "0 < off" "off \<le> length out"
  shows "off dvd c \<Longrightarrow> 0 < c \<Longrightarrow> c \<le> n \<Longrightarrow>
    copy_doubling (length out) n c (copy_back c off out) = Some (copy_back n off out)"
proof (induction "n - c" arbitrary: c rule: less_induct)
  case less
  show ?case
  proof (cases "c < n")
    case True
    let ?chunk = "min (n - c) c"
    have step: "copy_doubling (length out) n c (copy_back c off out)
        = copy_doubling (length out) n (c + ?chunk) (copy_back (c + ?chunk) off out)"
      using True copy_back_double [OF off less.prems(1), of ?chunk]
      by (subst copy_doubling.simps) (simp add: Let_def)
    show ?thesis
    proof (cases "c + ?chunk < n")
      case more: True
      then have "?chunk = c" by simp
      then show ?thesis unfolding step using less.hyps [of "c + ?chunk"] less.prems True more by simp
    next
      case False
      then have "c + ?chunk = n" using True by simp
      then show ?thesis unfolding step by (subst copy_doubling.simps) simp
    qed
  next
    case False
    then have "c = n" using less.prems by simp
    then show ?thesis by (subst copy_doubling.simps) simp
  qed
qed

text \<open>
  C39. The copy of an LZ match, which moves the first period and then doubling chunks, ends and has
  the effect of copying one byte at a time from \<open>off\<close> bytes back, for matches that overlap themselves
  and for those that do not.
\<close>

theorem lz_copy_bytewise:
  assumes "0 < off" "off \<le> length out"
  shows "lz_copy off n out = Some (copy_back n off out)"
proof (cases "n \<le> off")
  case True
  then show ?thesis using copy_back_short [OF assms True] by (simp add: lz_copy_def Let_def)
next
  case False
  then show ?thesis
    using copy_back_short [OF assms order_refl] copy_doubling_back [OF assms dvd_refl assms(1), of n]
    by (simp add: lz_copy_def Let_def)
qed

theorem lz_copy_bytewise_witness: "lz_copy 2 5 [7, 1, 2] = Some [7, 1, 2, 1, 2, 1, 2, 1]"
  using lz_copy_bytewise [of 2 "[7, 1, 2]" 5] by (simp add: eval_nat_numeral)

section \<open>The size of the output\<close>

lemma length_delta_copy [simp]: "length (delta_copy n off span out) = length out + n"
  by (induction n off span out rule: delta_copy.induct) (simp_all add: Let_def)

lemma copy_doubling_length:
  assumes "copy_doubling pos n c out = Some out'"
  shows "c \<le> n \<longrightarrow> pos + c \<le> length out \<longrightarrow> length out' + c = length out + n"
proof (rule copy_doubling.raw_induct [OF _ assms, of
    "\<lambda>pos n c out out'. c \<le> n \<longrightarrow> pos + c \<le> length out \<longrightarrow> length out' + c = length out + n"], goal_cases)
  case (1 f pos n c out out')
  show ?case
  proof (cases "c < n")
    case True
    let ?chunk = "min (n - c) c"
    have r: "f pos n (c + ?chunk) (out @ subrange pos (pos + ?chunk) out) = Some out'"
      using 1(2) True by (simp add: Let_def)
    show ?thesis
    proof (intro impI)
      assume a: "c \<le> n" "pos + c \<le> length out"
      then have l: "length (subrange pos (pos + ?chunk) out) = ?chunk" by (simp add: length_subrange min_def)
      have m: "c + ?chunk \<le> n" "pos + (c + ?chunk) \<le> length (out @ subrange pos (pos + ?chunk) out)"
        using a unfolding length_append l by linarith+
      with 1(1) [OF r] have "length out' + (c + ?chunk) = length (out @ subrange pos (pos + ?chunk) out) + n" by blast
      then show "length out' + c = length out + n" unfolding length_append l by linarith
    qed
  next
    case False
    then show ?thesis using 1(2) by simp
  qed
qed

lemma lz_copy_length: "lz_copy off n out = Some out' \<Longrightarrow> off \<le> length out \<Longrightarrow> length out' = length out + n"
  by (auto simp: lz_copy_def Let_def length_subrange split: if_splits dest!: copy_doubling_length)

text \<open>What a decision or a symbol leaves of the state.\<close>

lemma decisions_keep_out:
  "main_decision st = (b, st') \<Longrightarrow> ls_out st' = ls_out st"
  "match_decision st = (b, st') \<Longrightarrow> ls_out st' = ls_out st"
  "lz_decision st = (b, st') \<Longrightarrow> ls_out st' = ls_out st"
  "delta_decision st = (b, st') \<Longrightarrow> ls_out st' = ls_out st"
  "lz_rep st = (k, st') \<Longrightarrow> ls_out st' = ls_out st"
  "delta_rep st = (k, st') \<Longrightarrow> ls_out st' = ls_out st"
  by (auto simp: main_decision_def match_decision_def lz_decision_def delta_decision_def lz_rep_def
      delta_rep_def Let_def split: prod.splits)

lemma symbols_keep_out:
  "literal_symbol st = Some (Inr (s, st')) \<Longrightarrow> ls_out st' = ls_out st"
  "explicit_lz_offset st = Some (Inr (n, st')) \<Longrightarrow> ls_out st' = ls_out st"
  "match_length_symbol st = Some (Inr (n, st')) \<Longrightarrow> ls_out st' = ls_out st"
  "explicit_delta st = Some (Inr (d, st')) \<Longrightarrow> ls_out st' = ls_out st"
  by (auto simp: literal_symbol_def explicit_lz_offset_def match_length_symbol_def explicit_delta_def
      run_bind_ok case_prod_unfold)

lemma lz_match_out:
  assumes "lz_match out_size st = Some (Inr st')" "length (ls_out st) \<le> out_size"
  shows "length (ls_out st') \<le> out_size"
  using assms
  by (auto simp: lz_match_def run_bind_ok Let_def split: prod.splits if_splits
      dest!: decisions_keep_out symbols_keep_out lz_copy_length)

lemma delta_match_out:
  assumes "delta_match out_size st = Some (Inr st')" "length (ls_out st) \<le> out_size"
  shows "length (ls_out st') \<le> out_size"
  using assms
  by (auto simp: delta_match_def run_bind_ok Let_def split: prod.splits if_splits
      dest!: decisions_keep_out symbols_keep_out)

lemma lzms_round_out:
  assumes "lzms_round out_size st = Some (Inr st')" "length (ls_out st) < out_size"
  shows "length (ls_out st') \<le> out_size"
  using assms
  by (auto simp: lzms_round_def run_bind_ok split: prod.splits if_splits
      dest!: decisions_keep_out symbols_keep_out lz_match_out delta_match_out)

lemma lzms_loop_out:
  assumes "lzms_loop out_size st = Some r"
  shows "length (ls_out st) \<le> out_size \<longrightarrow> (case r of Inl e \<Rightarrow> True | Inr st' \<Rightarrow> length (ls_out st') = out_size)"
proof (rule lzms_loop.raw_induct [OF _ assms, of "\<lambda>out_size st r.
    length (ls_out st) \<le> out_size \<longrightarrow> (case r of Inl e \<Rightarrow> True | Inr st' \<Rightarrow> length (ls_out st') = out_size)"], goal_cases)
  case (1 f out_size st r)
  show ?case
  proof (cases "length (ls_out st) < out_size")
    case True
    then obtain q where q: "lzms_round out_size st = Some q"
      "(case q of Inl e \<Rightarrow> Some (Inl e) | Inr st \<Rightarrow> f out_size st) = Some r"
      using 1(2) by (auto split: bind_splits)
    then show ?thesis using 1(1) lzms_round_out [of out_size st] True by (cases q) auto
  next
    case False
    then show ?thesis using 1(2) by auto
  qed
qed

text \<open>
  C38. A successful \<open>decompress\<close> of a non-empty input returns exactly the requested number of bytes, one of
  an empty input returns no bytes: the matches are cut at the end of the output and the x86 filter keeps the size.
\<close>

theorem lzms_decompress_size:
  "case lzms_decompress data n of
     Some (Inr out) \<Rightarrow> length out = (if data = [] then 0 else n)
   | _ \<Rightarrow> True"
proof (cases "data = [] \<or> n = 0")
  case False
  show ?thesis
  proof (cases "lzms_decompress data n")
    case (Some r)
    show ?thesis
    proof (cases r)
      case (Inr out)
      with Some False obtain st st' where s: "lzms_start data n = Some st" "lzms_loop n st = Some (Inr st')"
        "out = x86_filter True (ls_out st')"
        by (auto simp: lzms_decompress_def run_bind_ok split: if_splits bind_splits)
      have "ls_out st = []" using s(1) by (auto simp: lzms_start_def Let_def split: bind_splits)
      then have "length (ls_out st') = n" using lzms_loop_out [OF s(2)] by simp
      then show ?thesis using Some Inr s(3) False by simp
    qed (simp add: Some)
  qed simp
qed (auto simp: lzms_decompress_def)

end
