(* ===== verification/Spec2Isabelle.thy ===== *)
theory Spec2Isabelle
  imports Prelude Bitstream BitWriter BitCodec Huffman HuffmanBuild IntFormat RiftTable RiftCodec LzxFormat LzxSymbols
    LzxDecode LzxEncode LzxRoundTrip Bsdiff BsdiffSearch RiftReverse Pa19 Xpress Pa30Header Pa30Reverse PeImage
    PeTransform PeReloc PeFixup PeAmd64 CliSchema CliMetadata CliMap CliTransform CliRift LzmsCoder LzmsHuffman
    LzmsRange LzmsFilter LzmsDecode
begin

text \<open>
  A verification library for \<open>msdelta\<close>, the Rust encoder and decoder of Microsoft's binary deltas
  (PA30, PA31, PA19, BsDiff). A delta turns a reference file into a target file. It holds a header,
  a preprocess buffer and a patch buffer; for executable images the reference is first rewritten
  (addresses, relocations, CLI tokens) so that it resembles the target, then the patch copies from
  it or carries literals. The sources are under \<open>src/\<close>, their paths below without that prefix.

  The layers, from the bottom, and the theories of each:

  \<^item> \<open>Prelude\<close>: results (\<open>error + 'a\<close> with \<open>rbind\<close>), bytes, little-endian fields, checked machine
    arithmetic, list lemmas; the error type of \<open>lib.rs\<close>.
  \<^item> \<open>Bitstream\<close>, \<open>BitWriter\<close>, \<open>BitCodec\<close> (\<open>bitstream/mod.rs\<close>): \<open>BitReader\<close> and \<open>BitWriter\<close> with the 64 bit
    accumulator at its width. The abstraction of a reader or writer is the list of its bits
    (\<open>rd_stream\<close>, \<open>wr_stream\<close>); every operation has a specification over it. The locales \<open>bit_codec\<close> and its
    extensions state what a pair of a put and a get promises; their interpretations give the round
    trips of numbers, fields, buffers, rift tables, metadata records and CLI maps.
  \<^item> \<open>Huffman\<close>, \<open>HuffmanBuild\<close> (\<open>huffman.rs\<close>): canonical codes from lengths, length-limited lengths from
    frequencies, decoding through the tables.
  \<^item> \<open>IntFormat\<close>, \<open>RiftTable\<close>, \<open>RiftReverse\<close>, \<open>RiftCodec\<close> (\<open>lzx/rift.rs\<close>): the number alphabet, piecewise
    displacements with product, sum, reverse and reduction, their wire format.
  \<^item> \<open>LzxFormat\<close>, \<open>LzxSymbols\<close>, \<open>LzxDecode\<close>, \<open>LzxEncode\<close>, \<open>LzxRoundTrip\<close> (\<open>lzx/\<close>): the PseudoLzx codec:
    symbols, composite formats, the decompressor with its provenance map, the match finder, the lazy
    parse and both emission paths, and the proof that decompression undoes compression.
  \<^item> \<open>Bsdiff\<close>, \<open>BsdiffSearch\<close> (\<open>bsdiff/mod.rs\<close>): the BsDiff codec, its suffix array and its match search.
  \<^item> \<open>Pa19\<close> (\<open>pa19/\<close>), \<open>Xpress\<close> (\<open>xpress.rs\<close>): the legacy format and the XPRESS Huffman decoder.
  \<^item> \<open>PeImage\<close>, \<open>PeTransform\<close>, \<open>PeReloc\<close>, \<open>PeFixup\<close>, \<open>PeAmd64\<close> (\<open>pe/\<close>): headers and address maps, the passes over
    the reference image, the x86-64 length disassembler, the passes behind the patch.
  \<^item> \<open>CliSchema\<close>, \<open>CliMetadata\<close>, \<open>CliMap\<close>, \<open>CliTransform\<close>, \<open>CliRift\<close> (\<open>pe/cli/\<close>): the metadata tables of managed
    images, their record and map in the preprocess buffer, the passes over signatures, IL code and
    index columns, the copy rift that results.
  \<^item> \<open>LzmsCoder\<close>, \<open>LzmsHuffman\<close>, \<open>LzmsRange\<close>, \<open>LzmsFilter\<close>, \<open>LzmsDecode\<close> (\<open>crates/lzms\<close>): the bit models and the
    range coder with its proof by exact intervals of numbers, the adaptive Huffman codes, the x86
    filter, the decompressor. Its loops are \<open>partial_function (option)\<close>, \<open>None\<close> for a run that never ends.
  \<^item> \<open>Pa30Header\<close>, \<open>Pa30Reverse\<close>: the container of PA30 and PA31 with the DCM wrapper, and the
    reverse deltas.

  Modelling. Structs are records, enums datatypes, one definition per function with its guards in the
  code's order; every error return is an \<open>Inl\<close>. Words keep their width where the code computes with
  wrap-around or bits; lengths, positions and counters of \<open>usize\<close> are naturals, since no sum of them
  reaches \<open>2 ^ 64\<close> for buffers that fit in memory. Panics. \<open>Xpress\<close>,
  \<open>RiftReverse\<close>, the x86 branch passes and \<open>mark_non_executable\<close> of \<open>PeTransform\<close> check every index,
  slice and subtraction (\<open>index\<close>, \<open>store_at\<close>, \<open>slice_at\<close>, \<open>usize_sub\<close> of \<open>Prelude\<close>) and return the value
  \<open>Panic\<close> where the code would panic; so do, in the LZX theories, the recent-offset queue, the copies from the
  output, the previous code lengths and the choice of a segment. Everywhere else list access is the total one of
  HOL, behind the same bound tests as in the code, and the theorems there say nothing about panics. Debug assertions and overflow checks of debug builds are left out.

  Bounds and fuel. Loops over input recurse on a measure; the outer loops of the rift reversal and of
  the BsDiff creator are \<open>partial_function (option)\<close>, \<open>None\<close> for a loop that never ends, and are shown to
  return. Three functions carry fuel, and lemmas show it to be enough: the walk over the Huffman tree
  (one unit per node) with the length repair behind it (\<open>limited_lengths_complete\<close>), and the types in a
  signature (one unit per byte of the blob, \<open>sig_fuel_enough\<close>). The round trips assume buffers below
  \<open>2 ^ 29\<close> bytes, whose bit counts the code keeps in 32 bits, and at most \<open>2 ^ 24\<close> bytes of target, so that no
  symbol count of the compressor exceeds what the Huffman builder adds up.

  What the lemmas show. The round trips go up layer by layer: bits, integers, Huffman symbols,
  formats, PseudoLzx, the container. The safety properties speak of arbitrary, also malformed, input:
  sizes of outputs, positions inside the buffers, no panic. The reference definitions are the
  pointwise map for rift tables, the canonical numbering of codes, the sorted list of suffixes, and
  the flat list of bits. Where the code does not do what it says, a finding of the manifest names
  the lemma that shows it.

  Parameters stand for code outside the repository: the strict parser \<open>goblin\<close>, the decoder of the
  \<open>lzxd\<close> crate.

  Not modelled: the driver \<open>pa30/mod.rs\<close> that chains these parts for \<open>apply\<close> and \<open>create\<close>; the match
  search of the LZMS compressor and the containers around LZMS streams; \<open>pe/cli/create_map.rs\<close> and \<open>pe/rift_gen.rs\<close>,
  heuristics that propose rift tables for new deltas, any proposal being sound for the round trip; the
  command line (\<open>main.rs\<close>), the reader of base manifests (\<open>winsxs.rs\<close>), the differential test rig
  (\<open>crates/oracle\<close>), tests, benches, examples and fuzz targets; \<open>decompress_partial\<close> and the debug output.
\<close>

end
